(* ===== verification/Prelude.thy ===== *)
theory Prelude
  imports Main "HOL-Library.Word"
begin

text \<open>
  The library shared by the components: the names of the machine integers of the
  C++ sources, the casts between them, the result type of code that may stop in a
  \<^verbatim>\<open>CHECK_FATAL\<close>, and the facts on words, lists and results that the component
  proofs use. Signed and unsigned integers of one width share one word type; the
  signed reading is \<open>sint\<close>, the unsigned one \<open>uint\<close> or \<open>unat\<close>, exactly as a
  \<^verbatim>\<open>static_cast\<close> between the two keeps the bits.
\<close>

unbundle bit_operations_syntax

named_theorems cast_simps "how the C++ casts read as integers"
named_theorems result_simps "unfolding of sequenced fallible calls"

section \<open>Machine integers\<close>

type_synonym int64 = "64 word"
type_synonym uint64 = "64 word"
type_synonym int32 = "32 word"
type_synonym uint32 = "32 word"
type_synonym uint16 = "16 word"
type_synonym uint8 = "8 word"

text \<open>
  \<^verbatim>\<open>static_cast<int32>\<close> and \<^verbatim>\<open>static_cast<uint32>\<close> of a 64-bit value keep the low
  32 bits; widening an unsigned value fills with zeros, widening a signed one
  copies the sign.
\<close>

definition low32 :: "64 word \<Rightarrow> 32 word" where
  "low32 x = ucast x"

definition zext32 :: "32 word \<Rightarrow> 64 word" where
  "zext32 x = ucast x"

definition sext32 :: "32 word \<Rightarrow> 64 word" where
  "sext32 x = scast x"

text \<open>Division and remainder of C++ round towards zero.\<close>

definition c_div :: "int \<Rightarrow> int \<Rightarrow> int" where
  "c_div a b = sgn a * sgn b * (\<bar>a\<bar> div \<bar>b\<bar>)"

definition c_mod :: "int \<Rightarrow> int \<Rightarrow> int" where
  "c_mod a b = a - b * c_div a b"

text \<open>A C++ boolean used as an integer.\<close>

definition bool_int :: "bool \<Rightarrow> 'a::zero_neq_one" where
  "bool_int b = (if b then 1 else 0)"

lemma bool_int_simps [simp]: "bool_int True = 1" "bool_int False = 0"
  by (simp_all add: bool_int_def)

lemma bool_int_eq_0 [simp]: "bool_int b = (0 :: 'a::zero_neq_one) \<longleftrightarrow> \<not> b"
  by (simp add: bool_int_def)

lemma uint_low32 [cast_simps]: "uint (low32 x) = uint x mod 2 ^ 32"
  by (simp add: low32_def unsigned_ucast_eq take_bit_eq_mod)

lemma uint_zext32 [cast_simps]: "uint (zext32 x) = uint x"
  by (simp add: zext32_def unsigned_ucast_eq take_bit_eq_mod order.strict_trans [OF uint_lt2p [of x]])

lemma low32_zext32 [simp]: "low32 (zext32 x) = x"
  by (rule bit_word_eqI) (auto simp: low32_def zext32_def bit_simps)

lemma sint_sext32 [cast_simps]: "sint (sext32 x) = sint x"
  by (simp add: sext32_def sint_up_scast is_up)

lemma low32_sext32 [simp]: "low32 (sext32 x) = x"
  by (rule bit_word_eqI) (auto simp: low32_def sext32_def bit_simps)

lemma sint_eq_uint_if:
  "sint (v::'a::len word) = (if uint v < 2 ^ (LENGTH('a) - 1) then uint v else uint v - 2 ^ LENGTH('a))"
proof -
  let ?n = "LENGTH('a) - 1"
  have n: "Suc ?n = LENGTH('a)" using len_gt_0 [where 'a = 'a] by linarith
  have lt: "uint v < 2 * 2 ^ ?n" using uint_lt2p [of v] n by (metis power_Suc)
  have "bit (uint v) ?n \<longleftrightarrow> 2 ^ ?n \<le> uint v"
  proof (cases "uint v < 2 ^ ?n")
    case True
    then show ?thesis by (simp add: bit_iff_odd)
  next
    case False
    then have "uint v div 2 ^ ?n = 1"
      using lt int_div_pos_eq [of "uint v" "2 ^ ?n" 1 "uint v - 2 ^ ?n"] by simp
    with False show ?thesis by (simp add: bit_iff_odd)
  qed
  moreover have "take_bit LENGTH('a) (uint v) = uint v" using uint_lt2p [of v] by (simp add: take_bit_eq_mod)
  ultimately show ?thesis
    using signed_take_bit_eq_take_bit_minus [of ?n "uint v"] n
    by (auto simp: sint_uint)
qed

lemma take_bit_uint64: "take_bit 64 (uint (v::64 word)) = uint v"
  using uint_lt2p [of v] by (simp add: take_bit_eq_mod)

lemma c_div_mod: "b * c_div a b + c_mod a b = a"
  by (simp add: c_mod_def)

lemma c_div_nonneg: "0 \<le> a \<Longrightarrow> 0 < b \<Longrightarrow> c_div a b = a div b"
  by (cases "a = 0") (simp_all add: c_div_def)

lemma c_mod_nonneg: "0 \<le> a \<Longrightarrow> 0 < b \<Longrightarrow> c_mod a b = a mod b"
  by (simp add: c_mod_def c_div_nonneg minus_mult_div_eq_mod)

section \<open>Code that may stop\<close>

text \<open>
  \<^verbatim>\<open>CHECK_FATAL\<close> ends the compiler; it is active in every build. \<^verbatim>\<open>ASSERT\<close> is
  compiled out unless \<^verbatim>\<open>ENABLE_ASSERT\<close> is set and is not a branch of the models.
  \<open>Undefined\<close> marks the operations whose behaviour C++ leaves undefined
  (division by zero, a shift by the width or more, signed overflow where the
  source relies on it); a theorem that excludes it says so.
\<close>

datatype fatal =
    CheckFatal string
  | Undefined string

type_synonym 'a result = "fatal + 'a"

definition bind_result :: "'a result \<Rightarrow> ('a \<Rightarrow> 'b result) \<Rightarrow> 'b result" where
  "bind_result r f = (case r of Inl e \<Rightarrow> Inl e | Inr x \<Rightarrow> f x)"

lemma bind_result_simps [simp, result_simps]:
  "bind_result (Inl e) f = Inl e"
  "bind_result (Inr x) f = f x"
  by (simp_all add: bind_result_def)

lemma bind_result_Inr [result_simps]:
  "bind_result r f = Inr y \<longleftrightarrow> (\<exists>x. r = Inr x \<and> f x = Inr y)"
  by (cases r) simp_all

lemma bind_result_Inl [result_simps]:
  "bind_result r f = Inl e \<longleftrightarrow> r = Inl e \<or> (\<exists>x. r = Inr x \<and> f x = Inl e)"
  by (cases r) simp_all

definition is_ok :: "'a result \<Rightarrow> bool" where
  "is_ok r = (case r of Inl _ \<Rightarrow> False | Inr _ \<Rightarrow> True)"

lemma is_ok_simps [simp]: "is_ok (Inr x)" "\<not> is_ok (Inl e)"
  by (simp_all add: is_ok_def)

lemma is_okE: "is_ok r \<Longrightarrow> (\<And>x. r = Inr x \<Longrightarrow> P) \<Longrightarrow> P"
  by (cases r) simp_all

text \<open>
  A sequence of requests to a component that answers each with an address and a
  new state.
\<close>

fun run_requests :: "('k \<Rightarrow> 't \<Rightarrow> (nat \<times> 't) result) \<Rightarrow> 'k list \<Rightarrow> 't \<Rightarrow> (nat list \<times> 't) result" where
  "run_requests get [] t = Inr ([], t)"
| "run_requests get (k # ks) t =
     bind_result (get k t) (\<lambda>(p, t1).
       bind_result (run_requests get ks t1) (\<lambda>(ps, t2). Inr (p # ps, t2)))"

end
