(* ===== verification/PrimTypes.thy ===== *)
theory PrimTypes
  imports Prelude
begin

text \<open>
  The primitive types of the Maple IR (\<^verbatim>\<open>maple_ir/include/prim_types.def\<close>), their
  property table, the predicates of \<^verbatim>\<open>maple_ir/include/mir_type.h\<close> and the size and
  conversion functions of \<^verbatim>\<open>maple_ir/src/mir_type.cpp\<close>, for the configuration the
  build files select: \<^verbatim>\<open>DYNAMICLANG\<close> defined, target \<^verbatim>\<open>TARGAARCH64\<close> with 8-byte
  pointers. A \<^verbatim>\<open>switch\<close> over the enumeration is a chain of membership tests in
  the order of its labels.
\<close>

section \<open>The enumeration and its property table\<close>

datatype (plugins only: code size) PrimType =
  PTY_begin | PTY_void | PTY_i8 | PTY_i16 | PTY_i32 | PTY_i64 | PTY_i128 | PTY_u8
  | PTY_u16 | PTY_u32 | PTY_u64 | PTY_u128 | PTY_u1 | PTY_ptr | PTY_ref | PTY_a32
  | PTY_a64 | PTY_f32 | PTY_f64 | PTY_f128 | PTY_c64 | PTY_c128 | PTY_simplestr
  | PTY_simpleobj | PTY_dynany | PTY_dynundef | PTY_dynnull | PTY_dynbool
  | PTY_dyni32 | PTY_dynstr | PTY_dynobj | PTY_dynf64 | PTY_dynf32 | PTY_dynnone
  | PTY_constStr | PTY_gen | PTY_agg | PTY_v2i64 | PTY_v4i32 | PTY_v8i16 | PTY_v16i8
  | PTY_v2u64 | PTY_v4u32 | PTY_v8u16 | PTY_v16u8 | PTY_v2f64 | PTY_v4f32 | PTY_v2i32
  | PTY_v4i16 | PTY_v8i8 | PTY_v2u32 | PTY_v4u16 | PTY_v8u8 | PTY_v2f32
  | PTY_reservedpty1 | PTY_reservedpty2 | PTY_reservedpty3 | PTY_reservedpty4
  | PTY_reservedpty5 | PTY_reservedpty6 | PTY_reservedpty7 | PTY_reservedpty8
  | PTY_reservedpty9 | PTY_reservedpty10 | PTY_unknown | PTY_end

record PrimitiveTypeProperty =
  ptype :: PrimType
  isInteger :: bool
  isUnsigned :: bool
  isAddress :: bool
  isFloat :: bool
  isPointer :: bool
  isSimple :: bool
  isDynamic :: bool
  isDynamicAny :: bool
  isDynamicNone :: bool
  isVector :: bool

definition GetPrimitiveTypeProperty :: "PrimType \<Rightarrow> PrimitiveTypeProperty" where
  "GetPrimitiveTypeProperty pType = \<lparr>ptype = pType,
     isInteger = (pType \<in> {PTY_i8, PTY_i16, PTY_i32, PTY_i64, PTY_i128, PTY_u8, PTY_u16, PTY_u32, PTY_u64,
        PTY_u128, PTY_u1, PTY_ptr, PTY_ref, PTY_a32, PTY_a64, PTY_dynbool, PTY_dyni32,
        PTY_v2i64, PTY_v4i32, PTY_v8i16, PTY_v16i8, PTY_v2u64, PTY_v4u32, PTY_v8u16,
        PTY_v16u8, PTY_v2i32, PTY_v4i16, PTY_v8i8, PTY_v2u32, PTY_v4u16, PTY_v8u8}),
     isUnsigned = (pType \<in> {PTY_u8, PTY_u16, PTY_u32, PTY_u64, PTY_u128, PTY_u1, PTY_ptr, PTY_ref, PTY_a32,
        PTY_a64, PTY_v2u64, PTY_v4u32, PTY_v8u16, PTY_v16u8, PTY_v2u32, PTY_v4u16,
        PTY_v8u8}),
     isAddress = (pType \<in> {PTY_u64, PTY_ptr, PTY_ref, PTY_a32, PTY_a64, PTY_simplestr, PTY_simpleobj}),
     isFloat = (pType \<in> {PTY_f32, PTY_f64, PTY_f128, PTY_dynf64, PTY_dynf32, PTY_v2f64, PTY_v4f32,
        PTY_v2f32}),
     isPointer = (pType \<in> {PTY_u64, PTY_ptr, PTY_ref, PTY_a32, PTY_a64, PTY_constStr}),
     isSimple = (pType \<in> {PTY_simplestr, PTY_simpleobj}),
     isDynamic = (pType \<in> {PTY_dynany, PTY_dynundef, PTY_dynnull, PTY_dynbool, PTY_dyni32, PTY_dynstr,
        PTY_dynobj, PTY_dynf64, PTY_dynf32, PTY_dynnone}),
     isDynamicAny = (pType \<in> {PTY_dynany}),
     isDynamicNone = (pType \<in> {PTY_dynnone}),
     isVector = (pType \<in> {PTY_v2i64, PTY_v4i32, PTY_v8i16, PTY_v16i8, PTY_v2u64, PTY_v4u32, PTY_v8u16,
        PTY_v16u8, PTY_v2f64, PTY_v4f32, PTY_v2i32, PTY_v4i16, PTY_v8i8, PTY_v2u32,
        PTY_v4u16, PTY_v8u8, PTY_v2f32, PTY_end})\<rparr>"

abbreviation kPtyInvalid :: PrimType where
  "kPtyInvalid \<equiv> PTY_begin"

section \<open>Predicates\<close>

definition IsAddress :: "PrimType \<Rightarrow> bool" where
  "IsAddress p = isAddress (GetPrimitiveTypeProperty p)"

definition IsPossible64BitAddress :: "PrimType \<Rightarrow> bool" where
  "IsPossible64BitAddress tp \<longleftrightarrow> tp = PTY_ptr \<or> tp = PTY_ref \<or> tp = PTY_u64 \<or> tp = PTY_a64"

definition IsPossible32BitAddress :: "PrimType \<Rightarrow> bool" where
  "IsPossible32BitAddress tp \<longleftrightarrow> tp = PTY_ptr \<or> tp = PTY_ref \<or> tp = PTY_u32 \<or> tp = PTY_a32"

definition IsPrimitivePureScalar :: "PrimType \<Rightarrow> bool" where
  "IsPrimitivePureScalar p = (let q = GetPrimitiveTypeProperty p in
     isInteger q \<and> \<not> isAddress q \<and> \<not> isDynamic q \<and> \<not> isVector q)"

definition IsUnsignedInteger :: "PrimType \<Rightarrow> bool" where
  "IsUnsignedInteger p = (let q = GetPrimitiveTypeProperty p in
     isInteger q \<and> isUnsigned q \<and> \<not> isDynamic q)"

definition IsSignedInteger :: "PrimType \<Rightarrow> bool" where
  "IsSignedInteger p = (let q = GetPrimitiveTypeProperty p in
     isInteger q \<and> \<not> isUnsigned q \<and> \<not> isDynamic q)"

definition IsPrimitiveInteger :: "PrimType \<Rightarrow> bool" where
  "IsPrimitiveInteger p = (let q = GetPrimitiveTypeProperty p in
     isInteger q \<and> \<not> isDynamic q \<and> \<not> isVector q)"

definition IsPrimitiveDynType :: "PrimType \<Rightarrow> bool" where
  "IsPrimitiveDynType p = isDynamic (GetPrimitiveTypeProperty p)"

definition IsPrimitiveDynInteger :: "PrimType \<Rightarrow> bool" where
  "IsPrimitiveDynInteger p = (let q = GetPrimitiveTypeProperty p in isDynamic q \<and> isInteger q)"

definition IsPrimitiveDynFloat :: "PrimType \<Rightarrow> bool" where
  "IsPrimitiveDynFloat p = (let q = GetPrimitiveTypeProperty p in isDynamic q \<and> isFloat q)"

definition IsPrimitiveFloat :: "PrimType \<Rightarrow> bool" where
  "IsPrimitiveFloat p = (let q = GetPrimitiveTypeProperty p in
     isFloat q \<and> \<not> isDynamic q \<and> \<not> isVector q)"

definition IsPrimitiveScalar :: "PrimType \<Rightarrow> bool" where
  "IsPrimitiveScalar p = (let q = GetPrimitiveTypeProperty p in
     isInteger q \<or> isFloat q \<or> (isDynamic q \<and> \<not> isDynamicNone q) \<or> isSimple q)"

definition IsPrimitiveValid :: "PrimType \<Rightarrow> bool" where
  "IsPrimitiveValid p \<longleftrightarrow> IsPrimitiveScalar p \<and> \<not> isDynamicAny (GetPrimitiveTypeProperty p)"

definition IsPrimitivePoint :: "PrimType \<Rightarrow> bool" where
  "IsPrimitivePoint p = isPointer (GetPrimitiveTypeProperty p)"

definition IsPrimitiveVector :: "PrimType \<Rightarrow> bool" where
  "IsPrimitiveVector p = isVector (GetPrimitiveTypeProperty p)"

definition IsPrimitiveVectorFloat :: "PrimType \<Rightarrow> bool" where
  "IsPrimitiveVectorFloat p = (let q = GetPrimitiveTypeProperty p in isVector q \<and> isFloat q)"

definition IsPrimitiveVectorInteger :: "PrimType \<Rightarrow> bool" where
  "IsPrimitiveVectorInteger p = (let q = GetPrimitiveTypeProperty p in isVector q \<and> isInteger q)"

definition IsRefOrPtrAssign :: "PrimType \<Rightarrow> PrimType \<Rightarrow> bool" where
  "IsRefOrPtrAssign toType fromType \<longleftrightarrow>
     (toType = PTY_ref \<and> fromType = PTY_ptr) \<or> (toType = PTY_ptr \<and> fromType = PTY_ref)"

section \<open>Sizes and related types\<close>

definition GetRegPrimType :: "PrimType \<Rightarrow> PrimType" where
  "GetRegPrimType p =
     (if p \<in> {PTY_i8, PTY_i16} then PTY_i32
      else if p \<in> {PTY_u1, PTY_u8, PTY_u16} then PTY_u32
      else p)"

definition GetReg64PrimType :: "PrimType \<Rightarrow> PrimType" where
  "GetReg64PrimType p =
     (if p \<in> {PTY_i8, PTY_i16, PTY_i32} then PTY_i64
      else if p \<in> {PTY_u1, PTY_u8, PTY_u16, PTY_u32} then PTY_u64
      else p)"

definition VerifyPrimType :: "PrimType \<Rightarrow> PrimType \<Rightarrow> bool" where
  "VerifyPrimType p1 p2 =
     (if p1 \<in> {PTY_u1, PTY_u8, PTY_u16, PTY_u32, PTY_a32} then IsUnsignedInteger p2
      else if p1 \<in> {PTY_i8, PTY_i16, PTY_i32} then IsSignedInteger p2
      else p1 = p2)"

definition GetDynType :: "PrimType \<Rightarrow> PrimType" where
  "GetDynType p =
     (if p = PTY_u1 then PTY_dynbool
      else if p = PTY_i32 then PTY_dyni32
      else if p = PTY_simplestr then PTY_dynstr
      else if p = PTY_simpleobj then PTY_dynobj
      else if p = PTY_f32 then PTY_dynf32
      else if p = PTY_f64 then PTY_dynf64
      else p)"

definition GetNonDynType :: "PrimType \<Rightarrow> PrimType" where
  "GetNonDynType p =
     (if p = PTY_dynbool then PTY_u1
      else if p = PTY_dyni32 then PTY_i32
      else if p = PTY_dynstr then PTY_simplestr
      else if p = PTY_dynobj then PTY_simpleobj
      else if p = PTY_dynf32 then PTY_f32
      else if p = PTY_dynf64 then PTY_f64
      else p)"

definition IsNoCvtNeeded :: "PrimType \<Rightarrow> PrimType \<Rightarrow> bool" where
  "IsNoCvtNeeded toType fromType =
     (if toType = fromType then True
      else if toType = PTY_i32 then fromType = PTY_i16 \<or> fromType = PTY_i8
      else if toType = PTY_u32 then fromType = PTY_u16 \<or> fromType = PTY_u8
      else if toType \<in> {PTY_u1, PTY_u8, PTY_u16} then fromType = PTY_u32
      else if toType \<in> {PTY_i8, PTY_i16} then fromType = PTY_i32
      else if toType = PTY_u64 then fromType = PTY_ptr
      else if toType = PTY_ptr then fromType = PTY_u64
      else False)"

abbreviation POINTER_SIZE :: nat where "POINTER_SIZE \<equiv> 8"
abbreviation POINTER_P2SIZE :: nat where "POINTER_P2SIZE \<equiv> 3"

definition GetPrimTypeSize :: "PrimType \<Rightarrow> nat" where
  "GetPrimTypeSize p =
     (if p \<in> {PTY_void, PTY_agg} then 0
      else if p \<in> {PTY_ptr, PTY_ref} then POINTER_SIZE
      else if p \<in> {PTY_u1, PTY_i8, PTY_u8} then 1
      else if p \<in> {PTY_i16, PTY_u16} then 2
      else if p \<in> {PTY_a32, PTY_f32, PTY_i32, PTY_u32, PTY_simplestr, PTY_simpleobj} then 4
      else if p \<in> {PTY_a64, PTY_c64, PTY_f64, PTY_i64, PTY_u64, PTY_v2i32, PTY_v4i16, PTY_v8i8,
                   PTY_v2u32, PTY_v4u16, PTY_v8u8, PTY_v2f32} then 8
      else if p \<in> {PTY_c128, PTY_f128, PTY_v2i64, PTY_v4i32, PTY_v8i16, PTY_v16i8, PTY_v2u64,
                   PTY_v4u32, PTY_v8u16, PTY_v16u8, PTY_v2f64, PTY_v4f32} then 16
      else if p \<in> {PTY_dynf32, PTY_dyni32, PTY_dynstr, PTY_dynobj, PTY_dynundef, PTY_dynnull,
                   PTY_dynbool} then 8
      else if p \<in> {PTY_dynany, PTY_dynf64} then 8
      else 0)"

definition GetPrimTypeBitSize :: "PrimType \<Rightarrow> nat" where
  "GetPrimTypeBitSize p = GetPrimTypeSize p * 2 ^ 3"

definition GetPrimTypeP2Size :: "PrimType \<Rightarrow> nat" where
  "GetPrimTypeP2Size p =
     (if p \<in> {PTY_ptr, PTY_ref} then POINTER_P2SIZE
      else if p \<in> {PTY_u1, PTY_i8, PTY_u8} then 0
      else if p \<in> {PTY_i16, PTY_u16} then 1
      else if p \<in> {PTY_a32, PTY_f32, PTY_i32, PTY_u32, PTY_simplestr, PTY_simpleobj} then 2
      else if p \<in> {PTY_a64, PTY_c64, PTY_f64, PTY_i64, PTY_u64, PTY_v2i32, PTY_v4i16, PTY_v8i8,
                   PTY_v2u32, PTY_v4u16, PTY_v8u8, PTY_v2f32} then 3
      else if p \<in> {PTY_c128, PTY_f128, PTY_v2i64, PTY_v4i32, PTY_v8i16, PTY_v16i8, PTY_v2u64,
                   PTY_v4u32, PTY_v8u16, PTY_v16u8, PTY_v2f64, PTY_v4f32} then 4
      else if p \<in> {PTY_dynf32, PTY_dyni32, PTY_dynstr, PTY_dynobj, PTY_dynundef, PTY_dynnull,
                   PTY_dynbool, PTY_dynany, PTY_dynf64} then 3
      else 10)"

definition GetPrimTypeLanes :: "PrimType \<Rightarrow> nat" where
  "GetPrimTypeLanes p =
     (if p \<in> {PTY_v2i32, PTY_v2u32, PTY_v2f32, PTY_v2i64, PTY_v2u64, PTY_v2f64} then 2
      else if p \<in> {PTY_v4i16, PTY_v4u16, PTY_v4i32, PTY_v4u32, PTY_v4f32} then 4
      else if p \<in> {PTY_v8i8, PTY_v8u8, PTY_v8i16, PTY_v8u16} then 8
      else if p \<in> {PTY_v16i8, PTY_v16u8} then 16
      else 0)"

definition GetSignedPrimType :: "PrimType \<Rightarrow> PrimType" where
  "GetSignedPrimType p =
     (if p \<in> {PTY_ptr, PTY_ref, PTY_a64, PTY_u64} then PTY_i64
      else if p = PTY_u8 then PTY_i8
      else if p = PTY_u16 then PTY_i16
      else if p \<in> {PTY_a32, PTY_u32} then PTY_i32
      else p)"

definition GetUnsignedPrimType :: "PrimType \<Rightarrow> PrimType" where
  "GetUnsignedPrimType p =
     (if p = PTY_i64 then PTY_u64
      else if p = PTY_i8 then PTY_u8
      else if p = PTY_i16 then PTY_u16
      else if p = PTY_i32 then PTY_u32
      else p)"

section \<open>Facts about the tables\<close>

lemmas prim_pred_defs = IsAddress_def IsPossible64BitAddress_def IsPossible32BitAddress_def
  IsPrimitivePureScalar_def IsUnsignedInteger_def IsSignedInteger_def IsPrimitiveInteger_def
  IsPrimitiveDynType_def IsPrimitiveDynInteger_def IsPrimitiveDynFloat_def IsPrimitiveFloat_def
  IsPrimitiveScalar_def IsPrimitiveValid_def IsPrimitivePoint_def IsPrimitiveVector_def
  IsPrimitiveVectorFloat_def IsPrimitiveVectorInteger_def GetPrimitiveTypeProperty_def

lemmas prim_size_defs = GetPrimTypeSize_def GetPrimTypeBitSize_def

text \<open>
  The scalar integer types that are not 128 bits wide: the types of the values an
  integer constant can hold. \<open>int_types\<close> lists them; every fact about the width
  and the sign of an operand type is a case split over this list.
\<close>

definition int_types :: "PrimType set" where
  "int_types = {PTY_i8, PTY_i16, PTY_i32, PTY_i64, PTY_u8, PTY_u16, PTY_u32, PTY_u64, PTY_u1,
                PTY_ptr, PTY_ref, PTY_a32, PTY_a64}"

lemma IsPrimitiveInteger_iff:
  "IsPrimitiveInteger p \<longleftrightarrow> p \<in> int_types \<or> p = PTY_i128 \<or> p = PTY_u128"
  by (auto simp: prim_pred_defs int_types_def)

lemma int_types_cases:
  assumes "p \<in> int_types"
  obtains "p = PTY_i8" | "p = PTY_i16" | "p = PTY_i32" | "p = PTY_i64" | "p = PTY_u8"
    | "p = PTY_u16" | "p = PTY_u32" | "p = PTY_u64" | "p = PTY_u1" | "p = PTY_ptr"
    | "p = PTY_ref" | "p = PTY_a32" | "p = PTY_a64"
  using assms by (auto simp: int_types_def)

lemma int_types_signed: "p \<in> int_types \<Longrightarrow> IsSignedInteger p \<longleftrightarrow> \<not> IsUnsignedInteger p"
  by (auto simp: prim_pred_defs int_types_def)

lemma int_types_bits: "p \<in> int_types \<Longrightarrow> GetPrimTypeBitSize p \<in> {8, 16, 32, 64}"
  by (auto simp: prim_size_defs int_types_def)

lemma int_types_size64: "p \<in> int_types \<Longrightarrow> GetPrimTypeSize p = 8 \<longleftrightarrow> GetPrimTypeBitSize p = 64"
  by (simp add: GetPrimTypeBitSize_def)

lemma int_types_not_dyn [simp]: "p \<in> int_types \<Longrightarrow> \<not> IsPrimitiveDynType p"
  by (auto simp: prim_pred_defs int_types_def)

lemma GetNonDynType_int [simp]: "p \<in> int_types \<Longrightarrow> GetNonDynType p = p"
  by (auto simp: GetNonDynType_def int_types_def)

section \<open>What the tables promise\<close>

text \<open>
  The tables of sizes agree: a type with a size in bytes has the power of two
  that \<^verbatim>\<open>GetPrimTypeP2Size\<close> gives for it, and the types with no size are those for
  which it answers 10; the number of lanes of a vector type divides its size.
\<close>

theorem prim_size_tables:
  "((GetPrimTypeP2Size p = 10 \<and> GetPrimTypeSize p = 0) \<or>
    (GetPrimTypeP2Size p \<le> 4 \<and> GetPrimTypeSize p = 2 ^ GetPrimTypeP2Size p)) \<and>
   (0 < GetPrimTypeLanes p \<longleftrightarrow> IsPrimitiveVector p \<and> p \<noteq> PTY_end) \<and>
   (GetPrimTypeLanes p = 0 \<or> GetPrimTypeLanes p dvd GetPrimTypeSize p)"
  by (cases p) (simp_all add: GetPrimTypeP2Size_def GetPrimTypeSize_def GetPrimTypeLanes_def prim_pred_defs)

text \<open>
  Changing the signedness of a type keeps its size; of the integer types only
  \<^verbatim>\<open>u1\<close> and the 128-bit \<^verbatim>\<open>u128\<close> stay unsigned under \<^verbatim>\<open>GetSignedPrimType\<close>, and
  only \<^verbatim>\<open>i128\<close> stays signed under \<^verbatim>\<open>GetUnsignedPrimType\<close>.
\<close>

theorem prim_sign_conversions:
  "GetPrimTypeSize (GetSignedPrimType p) = GetPrimTypeSize p \<and>
   GetPrimTypeSize (GetUnsignedPrimType p) = GetPrimTypeSize p \<and>
   (IsPrimitiveInteger p \<and> IsUnsignedInteger (GetSignedPrimType p) \<longleftrightarrow> p = PTY_u1 \<or> p = PTY_u128) \<and>
   (IsPrimitiveInteger p \<and> IsSignedInteger (GetUnsignedPrimType p) \<longleftrightarrow> p = PTY_i128)"
  by (cases p) (simp_all add: GetSignedPrimType_def GetUnsignedPrimType_def GetPrimTypeSize_def prim_pred_defs)

text \<open>
  \<^verbatim>\<open>GetNonDynType\<close> undoes \<^verbatim>\<open>GetDynType\<close> on the types that are not dynamic, and
  promoting a type to a register never makes it narrower.
\<close>

theorem prim_dyn_roundtrip:
  "GetNonDynType (GetDynType p) = GetNonDynType p \<and> GetDynType (GetNonDynType p) = GetDynType p \<and>
   GetPrimTypeSize p \<le> GetPrimTypeSize (GetRegPrimType p) \<and>
   GetPrimTypeSize (GetRegPrimType p) \<le> GetPrimTypeSize (GetReg64PrimType p) \<and>
   (IsPrimitiveInteger p \<and> GetPrimTypeSize (GetReg64PrimType p) < 8 \<longleftrightarrow> p = PTY_a32 \<or> p = PTY_i128 \<or> p = PTY_u128)"
  by (cases p) (simp_all add: GetNonDynType_def GetDynType_def GetRegPrimType_def GetReg64PrimType_def GetPrimTypeSize_def prim_pred_defs)

end
