(* ===== verification/MirConst.thy ===== *)
theory MirConst
  imports PrimTypes
begin

text \<open>
  Integer constants of the IR (\<^verbatim>\<open>class MIRIntConst\<close> in \<^verbatim>\<open>mir_const.h\<close> and
  \<^verbatim>\<open>mir_const.cpp\<close>) and the table that interns them (\<^verbatim>\<open>class IntConstTable\<close> in
  \<^verbatim>\<open>global_tables.cpp\<close>). Of the type of a constant the code of the constants reads only
  the primitive type, so a constant is a record of a 64-bit value and a \<open>PrimType\<close>; the
  table adds the index of the type, which is part of its key.
\<close>

section \<open>Constants\<close>

record MIRIntConst =
  ic_value :: int64
  ic_type :: PrimType

text \<open>
  A shift by 64 or more is undefined in C++; \<^verbatim>\<open>Trunc\<close> shifts left and then right by
  \<^verbatim>\<open>64 - width\<close>, arithmetically for a signed type.
\<close>

definition shift_pair :: "bool \<Rightarrow> nat \<Rightarrow> int64 \<Rightarrow> int64 result" where
  "shift_pair sg s v =
     (if 64 \<le> s then Inl (Undefined ''shift by 64'')
      else if sg then Inr (signed_drop_bit s (push_bit s v))
      else Inr (drop_bit s (push_bit s v)))"

definition Trunc :: "nat \<Rightarrow> MIRIntConst \<Rightarrow> MIRIntConst result" where
  "Trunc width c =
     (if 64 < width then Inl (CheckFatal ''shiftBitNum should not be less than zero'')
      else bind_result (shift_pair (IsSignedInteger (ic_type c)) (64 - width) (ic_value c))
             (\<lambda>v. Inr (c\<lparr>ic_value := v\<rparr>)))"

definition new_MIRIntConst :: "int64 \<Rightarrow> PrimType \<Rightarrow> MIRIntConst result" where
  "new_MIRIntConst val ty =
     (let c = \<lparr>ic_value = val, ic_type = ty\<rparr> in
      if \<not> IsPrimitiveDynType ty then Trunc (GetPrimTypeBitSize ty) c else Inr c)"

definition GetValueUnderType :: "MIRIntConst \<Rightarrow> int64 result" where
  "GetValueUnderType c =
     (let bitSize = GetPrimTypeBitSize (GetNonDynType (ic_type c)) in
      if 64 < bitSize then Inl (CheckFatal ''shiftBitNum should not be less than zero'')
      else shift_pair (IsSignedInteger (ic_type c)) (64 - bitSize) (ic_value c))"

text \<open>The loop of \<^verbatim>\<open>GetBitWidth\<close> counts the shifts until the value is zero.\<close>

function GetBitWidth_loop :: "uint64 \<Rightarrow> nat \<Rightarrow> nat" where
  "GetBitWidth_loop tmp width =
     (if tmp \<noteq> 0 then GetBitWidth_loop (drop_bit 1 tmp) (width + 1) else width)"
  by pat_completeness auto
termination
proof (relation "measure (\<lambda>(tmp, width). unat tmp)")
  fix tmp :: uint64 and width :: nat
  assume "tmp \<noteq> 0"
  then have "0 < unat tmp" by (simp add: unat_gt_0)
  then show "((drop_bit 1 tmp, width + 1), tmp, width) \<in> measure (\<lambda>(tmp, width). unat tmp)"
    by (simp add: drop_bit_eq_div unat_div_distrib)
qed simp

declare GetBitWidth_loop.simps [simp del]

definition GetBitWidth :: "MIRIntConst \<Rightarrow> nat" where
  "GetBitWidth c =
     (let value = ic_value c in
      if value = 0 then 1
      else GetBitWidth_loop (if sint value < 0 then - (value + 1) else value) 0)"

definition IntConst_IsZero :: "MIRIntConst \<Rightarrow> bool" where
  "IntConst_IsZero c \<longleftrightarrow> ic_value c = 0 \<and> IsPrimitiveInteger (ic_type c)"

definition IntConst_IsGeZero :: "MIRIntConst \<Rightarrow> bool" where
  "IntConst_IsGeZero c \<longleftrightarrow> 0 \<le> sint (ic_value c) \<and> IsPrimitiveInteger (ic_type c)"

definition IntConst_IsOne :: "MIRIntConst \<Rightarrow> bool" where
  "IntConst_IsOne c \<longleftrightarrow> ic_value c = 1 \<and> IsPrimitiveInteger (ic_type c)"

definition IntConst_IsMagicNum :: "MIRIntConst \<Rightarrow> bool" where
  "IntConst_IsMagicNum c \<longleftrightarrow> ic_value c = 51 \<and> IsPrimitiveInteger (ic_type c)"

definition IntConst_IsAllBitsOne :: "MIRIntConst \<Rightarrow> bool" where
  "IntConst_IsAllBitsOne c \<longleftrightarrow> ic_value c = - 1 \<and> IsPrimitiveInteger (ic_type c)"

definition IntConst_eq :: "MIRIntConst \<Rightarrow> MIRIntConst \<Rightarrow> bool" where
  "IntConst_eq c d \<longleftrightarrow> ic_type d = ic_type c \<and> ic_value d = ic_value c"

text \<open>\<^verbatim>\<open>SetValue\<close> and \<^verbatim>\<open>Neg\<close> of an integer constant stop the compiler.\<close>

definition IntConst_SetValue :: "int64 \<Rightarrow> MIRIntConst \<Rightarrow> MIRIntConst result" where
  "IntConst_SetValue v c = Inl (CheckFatal ''Can't Use This Interface in This Object'')"

section \<open>The value of a constant of an integer type\<close>

text \<open>
  \<open>canon p v\<close> is the 64-bit word that represents \<open>v\<close> in type \<open>p\<close>: its low bits,
  extended by the sign of the type. \<open>int_of p v\<close> is the mathematical integer a
  representation stands for: two's complement for a signed type, the unsigned
  reading otherwise.
\<close>

definition canon :: "PrimType \<Rightarrow> int64 \<Rightarrow> int64" where
  "canon p v = (if IsSignedInteger p then signed_take_bit (GetPrimTypeBitSize p - 1) v
                else take_bit (GetPrimTypeBitSize p) v)"

definition int_of :: "PrimType \<Rightarrow> int64 \<Rightarrow> int" where
  "int_of p v = (if IsSignedInteger p then signed_take_bit (GetPrimTypeBitSize p - 1) (sint v)
                 else uint v mod 2 ^ GetPrimTypeBitSize p)"

definition wf_const :: "MIRIntConst \<Rightarrow> bool" where
  "wf_const c \<longleftrightarrow> ic_type c \<in> int_types \<and> canon (ic_type c) (ic_value c) = ic_value c"

lemma sdrop_push:
  assumes "0 < w" "w \<le> 64"
  shows "signed_drop_bit (64 - w) (push_bit (64 - w) (v::64 word)) = signed_take_bit (w - 1) v"
proof (rule bit_word_eqI)
  fix n assume "n < LENGTH(64)"
  with assms show "bit (signed_drop_bit (64 - w) (push_bit (64 - w) v)) n
      \<longleftrightarrow> bit (signed_take_bit (w - 1) v) n"
    by (cases "n < w"; cases "n = w - 1") (auto simp: bit_simps min_def)
qed

lemma drop_push: "w \<le> 64 \<Longrightarrow> drop_bit (64 - w) (push_bit (64 - w) (v::64 word)) = take_bit w v"
  by (rule bit_word_eqI) (auto simp: bit_simps min_def)

lemma uint_take_bit64 [cast_simps]: "uint (take_bit w (v::64 word)) = uint v mod 2 ^ w"
  unfolding unsigned_take_bit_eq by (rule take_bit_eq_mod)

lemma sint_signed_take_bit64 [cast_simps]:
  "0 < w \<Longrightarrow> w \<le> 64 \<Longrightarrow>
   sint (signed_take_bit (w - Suc 0) (v::64 word)) = signed_take_bit (w - Suc 0) (sint v)"
  by (rule bit_eqI) (auto simp: bit_simps min_def)

lemma int_types_width: "p \<in> int_types \<Longrightarrow> 0 < GetPrimTypeBitSize p \<and> GetPrimTypeBitSize p \<le> 64"
  using int_types_bits [of p] by auto

lemma shift_pair_canon:
  assumes "p \<in> int_types"
  shows "shift_pair (IsSignedInteger p) (64 - GetPrimTypeBitSize p) v = Inr (canon p v)"
  using int_types_width [OF assms]
  by (auto simp: shift_pair_def canon_def sdrop_push drop_push)

lemma new_MIRIntConst_canon:
  "p \<in> int_types \<Longrightarrow> new_MIRIntConst v p = Inr \<lparr>ic_value = canon p v, ic_type = p\<rparr>"
  using int_types_width [of p]
  by (simp add: new_MIRIntConst_def Trunc_def shift_pair_canon)

lemma GetValueUnderType_canon:
  "ic_type c \<in> int_types \<Longrightarrow> GetValueUnderType c = Inr (canon (ic_type c) (ic_value c))"
  using int_types_width [of "ic_type c"]
  by (simp add: GetValueUnderType_def shift_pair_canon)

lemma canon_idem [simp]: "p \<in> int_types \<Longrightarrow> canon p (canon p v) = canon p v"
  by (simp add: canon_def)

lemma wf_const_new: "p \<in> int_types \<Longrightarrow> new_MIRIntConst v p = Inr c \<Longrightarrow> wf_const c \<and> ic_type c = p"
  by (auto simp: new_MIRIntConst_canon wf_const_def)

lemma int_of_canon [simp]: "p \<in> int_types \<Longrightarrow> int_of p (canon p v) = int_of p v"
  using int_types_width [of p] by (auto simp: int_of_def canon_def cast_simps)

lemma int_of_signed: "p \<in> int_types \<Longrightarrow> IsSignedInteger p \<Longrightarrow> int_of p v = sint (canon p v)"
  using int_types_width [of p] by (auto simp: int_of_def canon_def cast_simps)

lemma int_of_unsigned: "p \<in> int_types \<Longrightarrow> \<not> IsSignedInteger p \<Longrightarrow> int_of p v = uint (canon p v)"
  by (auto simp: int_of_def canon_def cast_simps)

lemma int_of_eq_iff: "p \<in> int_types \<Longrightarrow> int_of p v = int_of p u \<longleftrightarrow> canon p v = canon p u"
  by (cases "IsSignedInteger p")
     (simp_all add: int_of_signed int_of_unsigned word_eq_iff_signed [symmetric]
       word_eq_iff_unsigned [symmetric])

lemma int_of_range:
  assumes "p \<in> int_types"
  defines "w \<equiv> GetPrimTypeBitSize p"
  shows "if IsSignedInteger p then - (2 ^ (w - 1)) \<le> int_of p v \<and> int_of p v < 2 ^ (w - 1)
         else 0 \<le> int_of p v \<and> int_of p v < 2 ^ w"
  by (simp add: int_of_def w_def signed_take_bit_int_greater_eq_minus_exp
      signed_take_bit_int_less_exp)

section \<open>The bit width of a constant\<close>

lemma GetBitWidth_loop_spec:
  "t \<noteq> 0 \<Longrightarrow> \<exists>n. GetBitWidth_loop t k = k + Suc n \<and> 2 ^ n \<le> unat t \<and> unat t < 2 ^ Suc n"
proof (induction t k rule: GetBitWidth_loop.induct)
  case (1 t k)
  have half: "unat (drop_bit 1 t) = unat t div 2"
    by (simp add: drop_bit_eq_div unat_div_distrib)
  show ?case
  proof (cases "drop_bit 1 t = 0")
    case True
    with half have "unat t div 2 = 0" by simp
    with 1(2) have "unat t = 1" by (metis Suc_eq_plus1 div_eq_0_iff less_2_cases unat_eq_zero zero_neq_numeral One_nat_def)
    with True 1(2) show ?thesis
      by (intro exI [of _ 0]) (simp add: GetBitWidth_loop.simps)
  next
    case False
    then obtain n where n: "GetBitWidth_loop (drop_bit 1 t) (k + 1) = k + 1 + Suc n"
      "2 ^ n \<le> unat t div 2" "unat t div 2 < 2 ^ Suc n"
      using 1 half by force
    then have "2 ^ Suc n \<le> unat t" "unat t < 2 ^ Suc (Suc n)" by auto
    with n(1) 1(2) show ?thesis
      by (intro exI [of _ "Suc n"]) (simp add: GetBitWidth_loop.simps [of t])
  qed
qed

lemma magnitude_sint:
  "int (unat (if sint v < 0 then - (v + 1) else v)) = (if sint v < 0 then - sint v - 1 else sint (v::int64))"
proof (cases "sint v < 0")
  case True
  then have eq: "sint v = uint v - 2 ^ 64" by (auto simp: sint_eq_uint_if split: if_splits)
  have "- (v + 1) = NOT v" by (simp add: not_eq_complement)
  moreover have "uint (NOT v) = 2 ^ 64 - 1 - uint v"
    using take_bit_uint64 [of v] by (simp add: unsigned_not_eq take_bit_not_eq_mask_diff mask_eq_exp_minus_1)
  ultimately show ?thesis using True eq by simp
next
  case False
  then have "sint v = uint v" using uint_lt2p [of v] by (auto simp: sint_eq_uint_if split: if_splits)
  with False show ?thesis by simp
qed

section \<open>The interning table\<close>

text \<open>
  The table maps a key, the value as passed and the index of the type, to the constant
  created for it. A \<^verbatim>\<open>MIRType\<close> is its index in the type table; \<open>prim\<close> gives the
  primitive type of each, and types with different indices may share it. Constants are
  heap objects compared by address in the compiler, so the model keeps the objects, each
  with the index of its type, in allocation order, and an address is an index.
\<close>

type_synonym IntConstKey = "int64 \<times> nat"

record IntConstTable =
  intConstTable :: "IntConstKey \<rightharpoonup> nat"
  constObjs :: "(nat \<times> MIRIntConst) list"

definition new_const :: "(nat \<Rightarrow> PrimType) \<Rightarrow> IntConstKey \<Rightarrow> (nat \<times> MIRIntConst) result" where
  "new_const prim key =
     bind_result (new_MIRIntConst (fst key) (prim (snd key))) (\<lambda>c. Inr (snd key, c))"

definition empty_table :: IntConstTable where
  "empty_table = \<lparr>intConstTable = Map.empty, constObjs = []\<rparr>"

definition insert_new :: "(nat \<Rightarrow> PrimType) \<Rightarrow> IntConstKey \<Rightarrow> IntConstTable \<Rightarrow> (nat \<times> IntConstTable) result" where
  "insert_new prim key t =
     bind_result (new_const prim key)
       (\<lambda>c. Inr (length (constObjs t),
          t\<lparr>intConstTable := (intConstTable t)(key \<mapsto> length (constObjs t)),
            constObjs := constObjs t @ [c]\<rparr>))"

definition DoGetOrCreateIntConst ::
    "(nat \<Rightarrow> PrimType) \<Rightarrow> IntConstKey \<Rightarrow> IntConstTable \<Rightarrow> (nat \<times> IntConstTable) result" where
  "DoGetOrCreateIntConst prim key t =
     (case intConstTable t key of
        Some p \<Rightarrow> Inr (p, t)
      | None \<Rightarrow> insert_new prim key t)"

definition const_at :: "IntConstTable \<Rightarrow> nat \<Rightarrow> (nat \<times> MIRIntConst) option" where
  "const_at t p = (if p < length (constObjs t) then Some (constObjs t ! p) else None)"

definition table_ok :: "(nat \<Rightarrow> PrimType) \<Rightarrow> IntConstTable \<Rightarrow> bool" where
  "table_ok prim t \<longleftrightarrow> (\<forall>key p. intConstTable t key = Some p \<longrightarrow>
     (\<exists>c. const_at t p = Some c \<and> new_const prim key = Inr c))"

text \<open>No object serves two keys.\<close>

definition one_key_each :: "IntConstTable \<Rightarrow> bool" where
  "one_key_each t \<longleftrightarrow> inj_on (intConstTable t) (dom (intConstTable t))"

text \<open>
  What a client of an interning table relies on: an address once returned keeps
  denoting the same object, the object is the one built from the key, and a key
  that has an address keeps it.
\<close>

locale intern_table =
  fixes inv :: "'t \<Rightarrow> bool"
    and get :: "'k \<Rightarrow> 't \<Rightarrow> (nat \<times> 't) result"
    and obj :: "'t \<Rightarrow> nat \<Rightarrow> 'c option"
    and make :: "'k \<Rightarrow> 'c result"
  assumes get_inv: "inv t \<Longrightarrow> get k t = Inr (p, t') \<Longrightarrow> inv t'"
    and get_obj: "inv t \<Longrightarrow> get k t = Inr (p, t') \<Longrightarrow> \<exists>c. make k = Inr c \<and> obj t' p = Some c"
    and get_stable: "get k t = Inr (p, t') \<Longrightarrow> obj t q = Some c \<Longrightarrow> obj t' q = Some c"
    and get_again: "get k t = Inr (p, t') \<Longrightarrow> get k t' = Inr (p, t')"
    and get_other: "get k t = Inr (p, t) \<Longrightarrow> get k' t = Inr (p', t') \<Longrightarrow> get k t' = Inr (p, t')"
begin

lemma requests_inv: "inv t \<Longrightarrow> run_requests get ks t = Inr (ps, t') \<Longrightarrow> inv t'"
  by (induction ks arbitrary: t ps) (auto simp: result_simps dest: get_inv)

lemma requests_stable: "run_requests get ks t = Inr (ps, t') \<Longrightarrow> obj t q = Some c \<Longrightarrow> obj t' q = Some c"
  by (induction ks arbitrary: t ps) (auto simp: result_simps dest: get_stable)

lemma requests_keep: "run_requests get ks t = Inr (ps, t') \<Longrightarrow> get k t = Inr (p, t) \<Longrightarrow> get k t' = Inr (p, t')"
proof (induction ks arbitrary: t ps)
  case (Cons a ks)
  then obtain p1 t1 ps1 where step: "get a t = Inr (p1, t1)" "run_requests get ks t1 = Inr (ps1, t')"
    by (auto simp: result_simps)
  from Cons.prems(2) step(1) have "get k t1 = Inr (p, t1)" by (rule get_other)
  with step(2) show ?case by (rule Cons.IH)
qed simp

lemma requests_length: "run_requests get ks t = Inr (ps, t') \<Longrightarrow> length ps = length ks"
  by (induction ks arbitrary: t ps) (auto simp: result_simps)

lemma requests_final: "run_requests get ks t = Inr (ps, t') \<Longrightarrow> i < length ks \<Longrightarrow> get (ks ! i) t' = Inr (ps ! i, t')"
proof (induction ks arbitrary: t ps i)
  case (Cons a ks)
  then obtain p1 t1 ps1 where step: "get a t = Inr (p1, t1)" "run_requests get ks t1 = Inr (ps1, t')"
    "ps = p1 # ps1"
    by (auto simp: result_simps)
  show ?case
  proof (cases i)
    case 0
    with requests_keep [OF step(2) get_again [OF step(1)]] step(3) show ?thesis by simp
  next
    case (Suc j)
    with Cons.IH [OF step(2), of j] Cons.prems(2) step(3) show ?thesis by simp
  qed
qed simp

lemma requests_same_key:
  assumes "run_requests get ks t = Inr (ps, t')" and "i < length ks" "j < length ks" "ks ! i = ks ! j"
  shows "ps ! i = ps ! j"
  using requests_final [OF assms(1,2)] requests_final [OF assms(1,3)] assms(4) by simp

lemma requests_obj:
  assumes "inv t" "run_requests get ks t = Inr (ps, t')" "i < length ks"
  shows "\<exists>c. make (ks ! i) = Inr c \<and> obj t' (ps ! i) = Some c"
  using get_obj [OF requests_inv [OF assms(1,2)] requests_final [OF assms(2,3)]] .

end

text \<open>With an invariant by which no object serves two keys, distinct requests get distinct addresses.\<close>

locale intern_table_sep = intern_table +
  fixes sep :: "'a \<Rightarrow> bool"
  assumes get_sep: "inv t \<Longrightarrow> sep t \<Longrightarrow> get k t = Inr (p, t') \<Longrightarrow> sep t'"
    and sep_key: "sep t \<Longrightarrow> get k t = Inr (p, t) \<Longrightarrow> get k' t = Inr (p, t) \<Longrightarrow> k = k'"
begin

lemma requests_sep: "inv t \<Longrightarrow> sep t \<Longrightarrow> run_requests get ks t = Inr (ps, t') \<Longrightarrow> sep t'"
  by (induction ks arbitrary: t ps) (auto simp: result_simps dest: get_inv get_sep)

lemma requests_same_iff:
  assumes "inv t" "sep t" "run_requests get ks t = Inr (ps, t')" "i < length ks" "j < length ks"
  shows "ps ! i = ps ! j \<longleftrightarrow> ks ! i = ks ! j"
proof
  assume same: "ps ! i = ps ! j"
  have "get (ks ! j) t' = Inr (ps ! i, t')" using requests_final [OF assms(3,5)] same by simp
  with sep_key [OF requests_sep [OF assms(1-3)] requests_final [OF assms(3,4)]] show "ks ! i = ks ! j" .
next
  assume "ks ! i = ks ! j"
  with requests_same_key [OF assms(3-5)] show "ps ! i = ps ! j" .
qed

end

lemma insert_new_table:
  assumes "insert_new prim key t = Inr (p, t')"
  shows "\<exists>c. new_const prim key = Inr c \<and> p = length (constObjs t)
     \<and> t' = t\<lparr>intConstTable := (intConstTable t)(key \<mapsto> p), constObjs := constObjs t @ [c]\<rparr>"
  using assms by (auto simp: insert_new_def result_simps)

lemma const_at_append: "const_at t q = Some c \<Longrightarrow> const_at (t\<lparr>intConstTable := m, constObjs := constObjs t @ cs\<rparr>) q = Some c"
  by (auto simp: const_at_def nth_append split: if_splits)

lemma insert_new_stable: "insert_new prim key t = Inr (p, t') \<Longrightarrow> const_at t q = Some c \<Longrightarrow> const_at t' q = Some c"
  by (auto dest!: insert_new_table simp: const_at_append)

lemma insert_new_fresh:
  "insert_new prim key t = Inr (p, t') \<Longrightarrow>
   \<exists>c. new_const prim key = Inr c \<and> const_at t' p = Some c"
  by (auto dest!: insert_new_table simp: const_at_def)

lemma insert_new_ok:
  assumes "table_ok prim t" "insert_new prim key t = Inr (p, t')"
  shows "table_ok prim t'"
  unfolding table_ok_def
proof (intro allI impI)
  fix k q assume q: "intConstTable t' k = Some q"
  show "\<exists>c. const_at t' q = Some c \<and> new_const prim k = Inr c"
  proof (cases "k = key")
    case True
    with q assms(2) have "q = p" by (auto dest!: insert_new_table)
    with True insert_new_fresh [OF assms(2)] show ?thesis by auto
  next
    case False
    with q assms(2) have "intConstTable t k = Some q" by (auto dest!: insert_new_table)
    with assms(1) insert_new_stable [OF assms(2)] show ?thesis
      unfolding table_ok_def by blast
  qed
qed

lemma insert_new_sep:
  assumes "table_ok prim t" "one_key_each t" "insert_new prim key t = Inr (p, t')"
  shows "one_key_each t'"
proof -
  have less: "q < length (constObjs t)" if "intConstTable t k = Some q" for k q
    using assms(1) that unfolding table_ok_def const_at_def by (metis option.distinct(1))
  from insert_new_table [OF assms(3)] have t': "intConstTable t' = (intConstTable t)(key \<mapsto> length (constObjs t))"
    by auto
  show ?thesis
    using assms(2) unfolding one_key_each_def t' inj_on_def by (auto dest: less)
qed

lemma DoGetOrCreateIntConst_hit:
  assumes "DoGetOrCreateIntConst prim k t = Inr (p, t)"
  shows "intConstTable t k = Some p"
proof (cases "intConstTable t k")
  case None
  with assms have "insert_new prim k t = Inr (p, t)" by (simp add: DoGetOrCreateIntConst_def)
  from insert_new_table [OF this] obtain c where
    "t = t\<lparr>intConstTable := (intConstTable t)(k \<mapsto> p), constObjs := constObjs t @ [c]\<rparr>" by blast
  from arg_cong [OF this, of "\<lambda>t. length (constObjs t)"] show ?thesis by simp
next
  case (Some q)
  with assms show ?thesis by (simp add: DoGetOrCreateIntConst_def)
qed

interpretation ict: intern_table_sep "table_ok prim" "DoGetOrCreateIntConst prim" const_at "new_const prim" one_key_each
  for prim
proof unfold_locales
  fix t :: IntConstTable and t' k p
  assume "table_ok prim t" "DoGetOrCreateIntConst prim k t = Inr (p, t')"
  then show "table_ok prim t'"
    by (auto simp: DoGetOrCreateIntConst_def insert_new_ok split: option.splits)
next
  fix t :: IntConstTable and t' k p
  assume "table_ok prim t" "DoGetOrCreateIntConst prim k t = Inr (p, t')"
  then show "\<exists>c. new_const prim k = Inr c \<and> const_at t' p = Some c"
    by (cases k) (force simp: DoGetOrCreateIntConst_def table_ok_def dest: insert_new_fresh split: option.splits)
next
  fix t t' :: IntConstTable and k p q c
  assume "DoGetOrCreateIntConst prim k t = Inr (p, t')" "const_at t q = Some c"
  then show "const_at t' q = Some c"
    by (auto simp: DoGetOrCreateIntConst_def dest: insert_new_stable split: option.splits)
next
  fix t t' :: IntConstTable and k p
  assume "DoGetOrCreateIntConst prim k t = Inr (p, t')"
  then show "DoGetOrCreateIntConst prim k t' = Inr (p, t')"
    by (auto simp: DoGetOrCreateIntConst_def dest!: insert_new_table split: option.splits)
next
  fix t t' :: IntConstTable and k k' p p'
  assume k: "DoGetOrCreateIntConst prim k t = Inr (p, t)" and k': "DoGetOrCreateIntConst prim k' t = Inr (p', t')"
  have "intConstTable t k = Some p" using k by (rule DoGetOrCreateIntConst_hit)
  with k' show "DoGetOrCreateIntConst prim k t' = Inr (p, t')"
    by (cases "k = k'") (auto simp: DoGetOrCreateIntConst_def dest!: insert_new_table split: option.splits)
next
  fix t t' :: IntConstTable and k p
  assume "table_ok prim t" "one_key_each t" "DoGetOrCreateIntConst prim k t = Inr (p, t')"
  then show "one_key_each t'"
    by (auto simp: DoGetOrCreateIntConst_def insert_new_sep split: option.splits)
next
  fix t :: IntConstTable and k k' p
  assume "one_key_each t" "DoGetOrCreateIntConst prim k t = Inr (p, t)" "DoGetOrCreateIntConst prim k' t = Inr (p, t)"
  then show "k = k'"
    using DoGetOrCreateIntConst_hit by (metis one_key_each_def domI inj_onD)
qed

section \<open>Concurrent requests\<close>

text \<open>
  \<^verbatim>\<open>DoGetOrCreateIntConstTreadSafe\<close> looks the key up under a shared lock, releases
  it, and then inserts under an exclusive lock without looking again. A thread is
  before the lookup, between the two critical sections, or finished with an
  address; a step is one thread running one critical section.
\<close>

datatype request =
    Lookup IntConstKey
  | Insert IntConstKey
  | Got IntConstKey nat

record requests_state =
  rs_table :: IntConstTable
  rs_thread :: "nat \<Rightarrow> request"

inductive thread_safe_step :: "(nat \<Rightarrow> PrimType) \<Rightarrow> requests_state \<Rightarrow> requests_state \<Rightarrow> bool"
  for prim where
  hit: "rs_thread s i = Lookup key \<Longrightarrow> intConstTable (rs_table s) key = Some p \<Longrightarrow>
     thread_safe_step prim s (s\<lparr>rs_thread := (rs_thread s)(i := Got key p)\<rparr>)"
| miss: "rs_thread s i = Lookup key \<Longrightarrow> intConstTable (rs_table s) key = None \<Longrightarrow>
     thread_safe_step prim s (s\<lparr>rs_thread := (rs_thread s)(i := Insert key)\<rparr>)"
| insert: "rs_thread s i = Insert key \<Longrightarrow> insert_new prim key (rs_table s) = Inr (p, t') \<Longrightarrow>
     thread_safe_step prim s (s\<lparr>rs_table := t', rs_thread := (rs_thread s)(i := Got key p)\<rparr>)"

inductive thread_safe_run :: "(nat \<Rightarrow> PrimType) \<Rightarrow> requests_state \<Rightarrow> requests_state \<Rightarrow> bool"
  for prim where
  run_refl: "thread_safe_run prim s s"
| run_step: "thread_safe_run prim s t \<Longrightarrow> thread_safe_step prim t u \<Longrightarrow> thread_safe_run prim s u"

definition requests_ok :: "(nat \<Rightarrow> PrimType) \<Rightarrow> requests_state \<Rightarrow> bool" where
  "requests_ok prim s \<longleftrightarrow> table_ok prim (rs_table s) \<and>
     (\<forall>i key p. rs_thread s i = Got key p \<longrightarrow>
        (\<exists>c. const_at (rs_table s) p = Some c \<and> new_const prim key = Inr c))"

lemma requests_okD:
  "requests_ok prim s \<Longrightarrow> rs_thread s i = Got key p \<Longrightarrow>
   \<exists>c. const_at (rs_table s) p = Some c \<and> new_const prim key = Inr c"
  unfolding requests_ok_def by blast

lemma thread_safe_step_ok: "thread_safe_step prim s t \<Longrightarrow> requests_ok prim s \<Longrightarrow> requests_ok prim t"
proof (induction rule: thread_safe_step.induct)
  case (hit s i key p)
  then have "\<exists>c. const_at (rs_table s) p = Some c \<and> new_const prim key = Inr c"
    unfolding requests_ok_def table_ok_def by blast
  with hit(3) show ?case by (auto simp: requests_ok_def)
next
  case (miss s i key)
  then show ?case by (auto simp: requests_ok_def)
next
  case (insert s i key p t')
  have ok: "table_ok prim t'" using insert by (auto simp: requests_ok_def intro: insert_new_ok)
  have "\<exists>c. const_at t' q = Some c \<and> new_const prim k = Inr c"
    if "((rs_thread s)(i := Got key p)) j = Got k q" for j k q
  proof (cases "j = i")
    case True
    with that insert_new_fresh [OF insert(2)] show ?thesis by auto
  next
    case False
    with that have "rs_thread s j = Got k q" by simp
    from requests_okD [OF insert(3) this] insert_new_stable [OF insert(2)] show ?thesis by blast
  qed
  with ok show ?case by (auto simp: requests_ok_def)
qed

lemma thread_safe_run_ok: "thread_safe_run prim s t \<Longrightarrow> requests_ok prim s \<Longrightarrow> requests_ok prim t"
  by (induction rule: thread_safe_run.induct) (auto intro: thread_safe_step_ok)

section \<open>Properties\<close>

text \<open>
  Creating a constant of an integer type never fails and keeps exactly the
  value of the type: the low bits of the argument, sign-extended for a signed type
  and zero-extended otherwise; reading it back under its type gives the same word.
\<close>

theorem new_MIRIntConst_value:
  assumes "p \<in> int_types"
  shows "\<exists>c. new_MIRIntConst v p = Inr c \<and> ic_type c = p \<and>
           (if IsSignedInteger p then sint (ic_value c) else uint (ic_value c)) = int_of p v \<and>
           GetValueUnderType c = Inr (ic_value c)"
  using assms
  by (auto simp: new_MIRIntConst_canon GetValueUnderType_canon int_of_signed int_of_unsigned)

theorem new_MIRIntConst_value_witness:
  "PTY_i8 \<in> int_types \<and> new_MIRIntConst 200 PTY_i8 = Inr \<lparr>ic_value = - 56, ic_type = PTY_i8\<rparr>
     \<and> int_of PTY_i8 200 = - 56"
proof -
  have h: "PTY_i8 \<in> int_types" by (simp add: int_types_def)
  obtain c where c: "new_MIRIntConst 200 PTY_i8 = Inr c" "ic_type c = PTY_i8"
    "(if IsSignedInteger PTY_i8 then sint (ic_value c) else uint (ic_value c)) = int_of PTY_i8 200"
    using new_MIRIntConst_value [OF h, of 200] by blast
  have "int_of PTY_i8 200 = - 56" "IsSignedInteger PTY_i8"
    by (simp_all add: int_of_def prim_pred_defs prim_size_defs)
  moreover have "new_MIRIntConst 200 PTY_i8 = Inr \<lparr>ic_value = - 56, ic_type = PTY_i8\<rparr>"
    by (simp add: new_MIRIntConst_canon [OF h] canon_def prim_pred_defs prim_size_defs)
  ultimately show ?thesis using h c by simp
qed

text \<open>
  \<^verbatim>\<open>GetBitWidth\<close> is the number of magnitude bits: the value fits in two's
  complement with that many bits and a sign bit, and in no smaller positive number
  of them.
\<close>

theorem GetBitWidth_minimal:
  defines "fits \<equiv> \<lambda>c n. - (2 ^ n) \<le> sint (ic_value c) \<and> sint (ic_value c) < 2 ^ n"
  shows "fits c (GetBitWidth c) \<and> (\<nexists>n. 1 \<le> n \<and> n < GetBitWidth c \<and> fits c n)"
proof -
  let ?t = "if sint (ic_value c) < 0 then - (ic_value c + 1) else ic_value c"
  have fits_iff: "fits c n \<longleftrightarrow> int (unat ?t) < 2 ^ n" for n
    unfolding fits_def magnitude_sint by auto
  consider "ic_value c = 0" | "ic_value c \<noteq> 0" "?t = 0" | "ic_value c \<noteq> 0" "?t \<noteq> 0" by blast
  then show ?thesis
  proof cases
    case 1
    then show ?thesis by (simp add: fits_def GetBitWidth_def)
  next
    case 2
    then show ?thesis
      unfolding fits_iff by (simp add: GetBitWidth_def GetBitWidth_loop.simps)
  next
    case 3
    from GetBitWidth_loop_spec [OF 3(2), of 0] obtain m where m: "GetBitWidth_loop ?t 0 = Suc m"
      "2 ^ m \<le> unat ?t" "unat ?t < 2 ^ Suc m" by auto
    have w: "GetBitWidth c = Suc m" using 3(1) m(1) by (simp add: GetBitWidth_def)
    have "\<not> fits c n" if "n < Suc m" for n
    proof -
      have "(2::nat) ^ n \<le> 2 ^ m" using that by (simp add: power_increasing)
      with m(2) have "2 ^ n \<le> unat ?t" by linarith
      then show ?thesis unfolding fits_iff by (metis not_less of_nat_le_iff of_nat_numeral of_nat_power)
    qed
    moreover have "fits c (Suc m)"
      unfolding fits_iff using m(3) by (metis of_nat_less_iff of_nat_numeral of_nat_power)
    ultimately show ?thesis unfolding w by blast
  qed
qed

text \<open>
  (C26) A sequence of requests to the interning table, from any consistent table in which no
  object serves two keys, as the empty one: every address returned denotes, at the end, the
  constant of its request, of the type requested, and two requests anywhere in the sequence
  get the same address exactly when they have the same key, value as passed and index of
  the type.
\<close>

theorem interning_canonical:
  assumes "table_ok prim t" and "one_key_each t"
    and "run_requests (DoGetOrCreateIntConst prim) ks t = Inr (ps, t')" and "i < length ks" and "j < length ks"
  shows "(\<exists>c. new_const prim (ks ! i) = Inr c \<and> const_at t' (ps ! i) = Some c)
         \<and> (ps ! i = ps ! j \<longleftrightarrow> ks ! i = ks ! j)"
  using ict.requests_obj [OF assms(1,3,4)] ict.requests_same_iff [OF assms] by blast

text \<open>Two types of the same primitive type: their constants are different objects.\<close>

lemma new_const_i32: "new_const (\<lambda>_. PTY_i32) (7, ty) = Inr (ty, \<lparr>ic_value = 7, ic_type = PTY_i32\<rparr>)"
  by (simp add: new_const_def new_MIRIntConst_canon int_types_def canon_def prim_pred_defs prim_size_defs)

theorem interning_canonical_witness:
  "\<exists>ps t'. run_requests (DoGetOrCreateIntConst (\<lambda>_. PTY_i32)) [(7, 6), (7, 90), (7, 6)] empty_table = Inr (ps, t')
     \<and> const_at t' (ps ! 0) = Some (6, \<lparr>ic_value = 7, ic_type = PTY_i32\<rparr>) \<and> ps ! 0 = ps ! 2 \<and> ps ! 0 \<noteq> ps ! 1"
proof -
  let ?ks = "[(7, 6), (7, 90), (7, 6)] :: IntConstKey list"
  have ok: "table_ok (\<lambda>_. PTY_i32) empty_table" "one_key_each empty_table"
    by (simp_all add: table_ok_def one_key_each_def empty_table_def)
  obtain ps t' where r: "run_requests (DoGetOrCreateIntConst (\<lambda>_. PTY_i32)) ?ks empty_table = Inr (ps, t')"
    by (simp add: DoGetOrCreateIntConst_def insert_new_def empty_table_def new_const_i32)
  from interning_canonical [OF ok r, of 0 2] interning_canonical [OF ok r, of 0 1]
  have "const_at t' (ps ! 0) = Some (6, \<lparr>ic_value = 7, ic_type = PTY_i32\<rparr>) \<and> ps ! 0 = ps ! 2 \<and> ps ! 0 \<noteq> ps ! 1"
    by (auto simp: new_const_i32)
  with r show ?thesis by blast
qed

text \<open>
  (C32) With any number of threads in any interleaving, the table stays consistent
  and every address a thread was given denotes the constant of its own request.
\<close>

theorem thread_safe_requests:
  assumes "requests_ok prim s" and "thread_safe_run prim s t" and "rs_thread t i = Got key p"
  shows "table_ok prim (rs_table t) \<and>
         (\<exists>c. const_at (rs_table t) p = Some c \<and> new_const prim key = Inr c)"
proof -
  from assms(2,1) have "requests_ok prim t" by (rule thread_safe_run_ok)
  with requests_okD [OF this assms(3)] show ?thesis by (simp add: requests_ok_def)
qed

text \<open>
  The two threads of the next state ask for the same constant; both miss, then both
  insert.
\<close>

definition two_requests :: requests_state where
  "two_requests = \<lparr>rs_table = empty_table, rs_thread = (\<lambda>_. Lookup (7, 6))\<rparr>"

lemma two_requests_ok: "requests_ok (\<lambda>_. PTY_i32) two_requests"
  by (simp add: requests_ok_def two_requests_def table_ok_def empty_table_def)

lemma race_run:
  "\<exists>t. thread_safe_run (\<lambda>_. PTY_i32) two_requests t \<and> rs_thread t 0 = Got (7, 6) 0
     \<and> rs_thread t 1 = Got (7, 6) 1"
proof -
  let ?k = "(7, 6) :: IntConstKey"
  define s1 where "s1 = two_requests\<lparr>rs_thread := (rs_thread two_requests)(0 := Insert ?k)\<rparr>"
  define s2 where "s2 = s1\<lparr>rs_thread := (rs_thread s1)(1 := Insert ?k)\<rparr>"
  define c where "c = (6 :: nat, \<lparr>ic_value = 7, ic_type = PTY_i32\<rparr>)"
  define t3 where "t3 = \<lparr>intConstTable = [?k \<mapsto> 0], constObjs = [c]\<rparr>"
  define s3 where "s3 = s2\<lparr>rs_table := t3, rs_thread := (rs_thread s2)(0 := Got ?k 0)\<rparr>"
  define t4 where "t4 = \<lparr>intConstTable = [?k \<mapsto> 1], constObjs = [c, c]\<rparr>"
  define s4 where "s4 = s3\<lparr>rs_table := t4, rs_thread := (rs_thread s3)(1 := Got ?k 1)\<rparr>"
  have "thread_safe_step (\<lambda>_. PTY_i32) two_requests s1"
    unfolding s1_def by (rule thread_safe_step.miss) (simp_all add: two_requests_def empty_table_def)
  moreover have "thread_safe_step (\<lambda>_. PTY_i32) s1 s2"
    unfolding s2_def by (rule thread_safe_step.miss) (simp_all add: s1_def two_requests_def empty_table_def)
  moreover have "thread_safe_step (\<lambda>_. PTY_i32) s2 s3"
    unfolding s3_def
    by (rule thread_safe_step.insert)
       (simp_all add: s2_def s1_def t3_def c_def two_requests_def empty_table_def insert_new_def new_const_i32)
  moreover have "thread_safe_step (\<lambda>_. PTY_i32) s3 s4"
    unfolding s4_def
    by (rule thread_safe_step.insert)
       (simp_all add: s3_def s2_def s1_def t3_def t4_def c_def two_requests_def insert_new_def new_const_i32)
  ultimately have "thread_safe_run (\<lambda>_. PTY_i32) two_requests s4"
    by (meson thread_safe_run.intros)
  then show ?thesis by (intro exI [of _ s4]) (simp add: s4_def s3_def)
qed

theorem thread_safe_requests_witness:
  "requests_ok (\<lambda>_. PTY_i32) two_requests \<and>
   (\<exists>t. thread_safe_run (\<lambda>_. PTY_i32) two_requests t \<and> rs_thread t 0 = Got (7, 6) 0 \<and>
        const_at (rs_table t) 0 = Some (6, \<lparr>ic_value = 7, ic_type = PTY_i32\<rparr>))"
proof -
  obtain t where t: "thread_safe_run (\<lambda>_. PTY_i32) two_requests t" "rs_thread t 0 = Got (7, 6) 0"
    using race_run by blast
  from thread_safe_requests [OF two_requests_ok t] new_const_i32 show ?thesis
    using two_requests_ok t by auto
qed

text \<open>
  The lookup is not repeated under the exclusive lock, so two threads that
  ask for the same constant can be given two different addresses: in a parallel
  run equal constants are not identical objects.
\<close>

theorem thread_safe_duplicates:
  "\<exists>t p q. thread_safe_run (\<lambda>_. PTY_i32) two_requests t \<and> rs_thread t 0 = Got (7, 6) p
     \<and> rs_thread t 1 = Got (7, 6) q \<and> p \<noteq> q"
  using race_run by (metis zero_neq_one)

end
