(* ===== verification/IntFold.thy ===== *)
theory IntFold
  imports MirConst
begin

text \<open>
  Constant folding of integer operations: \<^verbatim>\<open>FoldIntConstComparisonMIRConst\<close>,
  \<^verbatim>\<open>FoldIntConstBinaryMIRConst\<close>, \<^verbatim>\<open>FoldIntConstUnary\<close> and
  \<^verbatim>\<open>FoldSignExtendMIRConst\<close> of \<^verbatim>\<open>mpl2mpl/src/constantfold.cpp\<close>, together with the
  integer part of \<^verbatim>\<open>FoldTypeCvtMIRConst\<close>. Each computes in 64 or in 32 bits,
  whichever the size of the operand or result type asks for, and builds a constant
  of the result type. They are compared with the arithmetic of the mathematical
  integers, reduced to the range of the type.
\<close>

section \<open>Opcodes of the expressions the folder knows\<close>

datatype (plugins only: code size) Opcode =
  OP_add | OP_sub | OP_mul | OP_div | OP_rem | OP_ashr | OP_lshr | OP_shl | OP_max | OP_min
| OP_band | OP_bior | OP_bxor | OP_cand | OP_land | OP_cior | OP_lior | OP_depositbits
| OP_eq | OP_ne | OP_ge | OP_gt | OP_le | OP_lt | OP_cmp | OP_cmpl | OP_cmpg
| OP_abs | OP_bnot | OP_lnot | OP_neg | OP_recip | OP_sqrt
| OP_ceil | OP_floor | OP_round | OP_trunc | OP_cvt | OP_retype | OP_sext | OP_zext | OP_extractbits
| OP_constval | OP_dread | OP_regread | OP_addrof | OP_iread | OP_iaddrof | OP_select | OP_array
| OP_sizeoftype | OP_gcmallocjarray | OP_gcpermallocjarray | OP_other nat

section \<open>Comparisons\<close>

text \<open>\<^verbatim>\<open>enum CompareRes\<close>: the results of \<^verbatim>\<open>OP_cmp\<close>.\<close>

definition kLess :: int64 where "kLess = - 1"
definition kEqual :: int64 where "kEqual = 0"
definition kGreater :: int64 where "kGreater = 1"

text \<open>
  The three tests in sequence of the \<^verbatim>\<open>OP_cmp\<close> branch, over the reading of the
  operands that the branch has chosen.
\<close>

definition cmp_result :: "int \<Rightarrow> int \<Rightarrow> int64" where
  "cmp_result x y =
     (let r = 0;
          r = (if x > y then kGreater else r);
          r = (if x = y then kEqual else r);
          r = (if x < y then kLess else r)
      in r)"

definition FoldIntConstComparison_value :: "Opcode \<Rightarrow> PrimType \<Rightarrow> int64 \<Rightarrow> int64 \<Rightarrow> int64" where
  "FoldIntConstComparison_value opcode opndType v0 v1 =
     (let greater = sint v0 > sint v1;
          equal = (v0 = v1);
          less = sint v0 < sint v1;
          use64 = (GetPrimTypeSize opndType = 8);
          uns = IsUnsignedInteger opndType;
          w0 = low32 v0; w1 = low32 v1
      in if opcode = OP_eq then bool_int (if use64 then equal else w0 = w1)
         else if opcode = OP_ge then
           bool_int (if uns then (if use64 then uint v0 \<ge> uint v1 else uint w0 \<ge> uint w1)
                     else (if use64 then greater \<or> equal else sint w0 \<ge> sint w1))
         else if opcode = OP_gt then
           bool_int (if uns then (if use64 then uint v0 > uint v1 else uint w0 > uint w1)
                     else (if use64 then greater else sint w0 > sint w1))
         else if opcode = OP_le then
           bool_int (if uns then (if use64 then uint v0 \<le> uint v1 else uint w0 \<le> uint w1)
                     else (if use64 then less \<or> equal else sint w0 \<le> sint w1))
         else if opcode = OP_lt then
           bool_int (if uns then (if use64 then uint v0 < uint v1 else uint w0 < uint w1)
                     else (if use64 then less else sint w0 < sint w1))
         else if opcode = OP_ne then bool_int (if use64 then \<not> equal else w0 \<noteq> w1)
         else if opcode = OP_cmp then
           (if uns then (if use64 then cmp_result (uint v0) (uint v1) else cmp_result (uint w0) (uint w1))
            else (if use64 then cmp_result (sint v0) (sint v1) else cmp_result (sint w0) (sint w1)))
         else 0)"

text \<open>
  The constant is formed in the result type; for \<^verbatim>\<open>PTY_dyni32\<close> the code creates a
  constant and then calls \<^verbatim>\<open>SetValue\<close> on it. \<^verbatim>\<open>kJsTypeNumberInHigh32Bit\<close> is
  \<^verbatim>\<open>4 << 32\<close>.
\<close>

definition kJsTypeNumberInHigh32Bit :: uint64 where
  "kJsTypeNumberInHigh32Bit = push_bit 32 4"

definition form_constant :: "PrimType \<Rightarrow> uint64 \<Rightarrow> int64 \<Rightarrow> MIRIntConst result" where
  "form_constant ty dyn_payload val =
     (if ty = PTY_dyni32 then
        bind_result (new_MIRIntConst 0 ty) (IntConst_SetValue (kJsTypeNumberInHigh32Bit OR dyn_payload))
      else new_MIRIntConst val ty)"

definition FoldIntConstComparisonMIRConst ::
    "Opcode \<Rightarrow> PrimType \<Rightarrow> PrimType \<Rightarrow> MIRIntConst \<Rightarrow> MIRIntConst \<Rightarrow> MIRIntConst result" where
  "FoldIntConstComparisonMIRConst opcode resultType opndType c0 c1 =
     (let r = FoldIntConstComparison_value opcode opndType (ic_value c0) (ic_value c1)
      in form_constant resultType r r)"

section \<open>Binary operations\<close>

text \<open>
  The 64-bit and the 32-bit branch of each case. Signed division overflows only at
  the least value divided by \<open>-1\<close>.
\<close>

definition sdiv_ok :: "int \<Rightarrow> int \<Rightarrow> nat \<Rightarrow> bool" where
  "sdiv_ok a b w \<longleftrightarrow> b \<noteq> 0 \<and> \<not> (a = - (2 ^ (w - 1)) \<and> b = - 1)"

definition guard :: "bool \<Rightarrow> string \<Rightarrow> 'a \<Rightarrow> 'a result" where
  "guard ok why x = (if ok then Inr x else Inl (Undefined why))"

definition fold_arith64 :: "Opcode \<Rightarrow> bool \<Rightarrow> int64 \<Rightarrow> int64 \<Rightarrow> uint64 result" where
  "fold_arith64 opcode uns a b =
     (if opcode = OP_add then Inr (a + b)
      else if opcode = OP_sub then Inr (a - b)
      else if opcode = OP_mul then Inr (a * b)
      else if opcode = OP_div then
        (if uns then guard (b \<noteq> 0) ''division by zero'' (a div b)
         else guard (sdiv_ok (sint a) (sint b) 64) ''division'' (word_of_int (c_div (sint a) (sint b))))
      else if opcode = OP_rem then
        (if uns then guard (b \<noteq> 0) ''division by zero'' (a mod b)
         else guard (sdiv_ok (sint a) (sint b) 64) ''division'' (word_of_int (c_mod (sint a) (sint b))))
      else if opcode = OP_ashr then guard (uint b < 64) ''shift'' (signed_drop_bit (unat b) a)
      else if opcode = OP_lshr then guard (uint b < 64) ''shift'' (drop_bit (unat b) a)
      else if opcode = OP_shl then guard (uint b < 64) ''shift'' (push_bit (unat b) a)
      else Inr 0)"

definition fold_arith32 :: "Opcode \<Rightarrow> bool \<Rightarrow> int64 \<Rightarrow> int64 \<Rightarrow> uint32 result" where
  "fold_arith32 opcode uns a b =
     (let x = low32 a; y = low32 b in
      if opcode = OP_add then Inr (x + y)
      else if opcode = OP_sub then Inr (x - y)
      else if opcode = OP_mul then Inr (x * y)
      else if opcode = OP_div then
        (if uns then guard (y \<noteq> 0) ''division by zero'' (x div y)
         else guard (sdiv_ok (sint x) (sint y) 32) ''division'' (word_of_int (c_div (sint x) (sint y))))
      else if opcode = OP_rem then
        (if uns then guard (y \<noteq> 0) ''division by zero'' (x mod y)
         else guard (sdiv_ok (sint x) (sint y) 32) ''division'' (word_of_int (c_mod (sint x) (sint y))))
      else if opcode = OP_ashr then guard (uint y < 32) ''shift'' (signed_drop_bit (unat y) x)
      else if opcode = OP_lshr then guard (uint y < 32) ''shift'' (drop_bit (unat y) x)
      else if opcode = OP_shl then guard (uint y < 32) ''shift'' (push_bit (unat y) x)
      else Inr 0)"

definition fold_logic64 :: "Opcode \<Rightarrow> bool \<Rightarrow> int64 \<Rightarrow> int64 \<Rightarrow> uint64" where
  "fold_logic64 opcode uns a b =
     (if opcode = OP_max then
        (if uns then (if uint a \<ge> uint b then a else b) else (if sint a \<ge> sint b then a else b))
      else if opcode = OP_min then
        (if uns then (if uint a \<le> uint b then a else b) else (if sint a \<le> sint b then a else b))
      else if opcode = OP_band then a AND b
      else if opcode = OP_bior then a OR b
      else if opcode = OP_bxor then a XOR b
      else if opcode \<in> {OP_cand, OP_land} then bool_int (a \<noteq> 0 \<and> b \<noteq> 0)
      else if opcode \<in> {OP_cior, OP_lior} then bool_int (a \<noteq> 0 \<or> b \<noteq> 0)
      else 0)"

definition fold_logic32 :: "Opcode \<Rightarrow> bool \<Rightarrow> int64 \<Rightarrow> int64 \<Rightarrow> uint32" where
  "fold_logic32 opcode uns a b =
     (let x = low32 a; y = low32 b in
      if opcode = OP_max then
        (if uns then (if uint x \<ge> uint y then x else y) else (if sint x \<ge> sint y then x else y))
      else if opcode = OP_min then
        (if uns then (if uint x \<le> uint y then x else y) else (if sint x \<le> sint y then x else y))
      else if opcode = OP_band then x AND y
      else if opcode = OP_bior then x OR y
      else if opcode = OP_bxor then x XOR y
      else if opcode \<in> {OP_cand, OP_land} then bool_int (a \<noteq> 0 \<and> b \<noteq> 0)
      else if opcode \<in> {OP_cior, OP_lior} then bool_int (a \<noteq> 0 \<or> b \<noteq> 0)
      else 0)"

definition arith_ops :: "Opcode set" where
  "arith_ops = {OP_add, OP_sub, OP_mul, OP_div, OP_rem, OP_ashr, OP_lshr, OP_shl}"

definition FoldIntConstBinaryMIRConst ::
    "Opcode \<Rightarrow> PrimType \<Rightarrow> MIRIntConst \<Rightarrow> MIRIntConst \<Rightarrow> MIRIntConst result" where
  "FoldIntConstBinaryMIRConst opcode resultType c0 c1 =
     (let a = ic_value c0; b = ic_value c1;
          useResult64 = (GetPrimTypeSize resultType = 8);
          uns = IsUnsignedInteger resultType
      in if useResult64 then
           bind_result (if opcode \<in> arith_ops then fold_arith64 opcode uns a b
                        else Inr (fold_logic64 opcode uns a b))
             (\<lambda>result64. form_constant resultType (zext32 0) result64)
         else
           bind_result (if opcode \<in> arith_ops then fold_arith32 opcode uns a b
                        else Inr (fold_logic32 opcode uns a b))
             (\<lambda>result32. form_constant resultType (zext32 result32) (zext32 result32)))"

section \<open>Unary operations and extensions\<close>

text \<open>
  Negating the least 64-bit value overflows in C++. In the 32-bit branch of
  \<^verbatim>\<open>OP_abs\<close> the two arms of the conditional have the types \<^verbatim>\<open>int64\<close> and
  \<^verbatim>\<open>int32\<close>; the assignment keeps the low 32 bits.
\<close>

definition neg_ok :: "int \<Rightarrow> nat \<Rightarrow> bool" where
  "neg_ok a w \<longleftrightarrow> a \<noteq> - (2 ^ (w - 1))"

definition fold_unary64 :: "Opcode \<Rightarrow> bool \<Rightarrow> int64 \<Rightarrow> uint64 result" where
  "fold_unary64 opcode uns v =
     (if opcode = OP_abs then
        (if uns then Inr v
         else if sint v \<ge> 0 then Inr v else guard (neg_ok (sint v) 64) ''negation'' (- v))
      else if opcode = OP_bnot then Inr (NOT v)
      else if opcode = OP_lnot then Inr (bool_int (v = 0))
      else if opcode = OP_neg then guard (neg_ok (sint v) 64) ''negation'' (- v)
      else Inr 0)"

definition fold_unary32 :: "Opcode \<Rightarrow> bool \<Rightarrow> int64 \<Rightarrow> uint32 result" where
  "fold_unary32 opcode uns v =
     (let x = low32 v in
      if opcode = OP_abs then
        (if uns then Inr x
         else if sint x \<ge> 0 then Inr x else guard (neg_ok (sint x) 32) ''negation'' (- x))
      else if opcode = OP_bnot then Inr (NOT x)
      else if opcode = OP_lnot then Inr (bool_int (x = 0))
      else if opcode = OP_neg then guard (neg_ok (sint v) 64) ''negation'' (low32 (- v))
      else Inr 0)"

definition FoldIntConstUnary :: "Opcode \<Rightarrow> PrimType \<Rightarrow> MIRIntConst \<Rightarrow> MIRIntConst result" where
  "FoldIntConstUnary opcode resultType c =
     (let useResult64 = (GetPrimTypeSize resultType = 8); uns = IsUnsignedInteger resultType in
      if useResult64 then
        bind_result (fold_unary64 opcode uns (ic_value c)) (\<lambda>r. form_constant resultType (zext32 0) r)
      else
        bind_result (fold_unary32 opcode uns (ic_value c))
          (\<lambda>r. form_constant resultType (zext32 r) (zext32 r)))"

definition FoldSignExtendMIRConst :: "Opcode \<Rightarrow> PrimType \<Rightarrow> nat \<Rightarrow> MIRIntConst \<Rightarrow> MIRIntConst result" where
  "FoldSignExtendMIRConst opcode resultType sz c =
     (if 64 < sz then Inl (Undefined ''shift'')
      else bind_result (shift_pair (opcode = OP_sext) (64 - sz) (ic_value c))
             (\<lambda>result64. new_MIRIntConst result64 resultType))"

text \<open>The branch of \<^verbatim>\<open>FoldTypeCvtMIRConst\<close> between two integer types.\<close>

definition cvt_bits :: "PrimType \<Rightarrow> nat" where
  "cvt_bits p = (if p = PTY_u1 then 1 else GetPrimTypeBitSize p)"

definition FoldTypeCvtInt :: "MIRIntConst \<Rightarrow> PrimType \<Rightarrow> PrimType \<Rightarrow> MIRIntConst result" where
  "FoldTypeCvtInt c fromType toType =
     (let fromSize = cvt_bits fromType; toSize = cvt_bits toType in
      if toSize > fromSize then
        FoldSignExtendMIRConst (if IsSignedInteger fromType then OP_sext else OP_zext) toType fromSize c
      else new_MIRIntConst (ic_value c) toType)"

section \<open>Reference arithmetic\<close>

text \<open>
  \<open>wrap p x\<close> is the value of type \<open>p\<close> congruent to \<open>x\<close>: what the arithmetic of
  the type makes of a mathematical integer.
\<close>

definition wrap :: "PrimType \<Rightarrow> int \<Rightarrow> int" where
  "wrap p x = (if IsSignedInteger p then signed_take_bit (GetPrimTypeBitSize p - 1) x
               else x mod 2 ^ GetPrimTypeBitSize p)"

lemma stb_take_bit: "n < k \<Longrightarrow> signed_take_bit n (take_bit k (x::int)) = signed_take_bit n x"
  by (rule bit_eqI) (auto simp: bit_simps min_def)

lemma stb_stb: "n \<le> k \<Longrightarrow> signed_take_bit n (signed_take_bit k (x::int)) = signed_take_bit n x"
  by (simp add: min_def)

lemma sint_word_of_int64: "sint (word_of_int x :: 64 word) = signed_take_bit 63 x"
  by (simp add: sint_sbintrunc')

lemma sint_word_of_int32: "sint (word_of_int x :: 32 word) = signed_take_bit 31 x"
  by (simp add: sint_sbintrunc')

lemma mod_mod_pow: "w \<le> k \<Longrightarrow> x mod 2 ^ k mod 2 ^ w = x mod (2 ^ w :: int)"
  by (simp add: mod_mod_cancel le_imp_power_dvd)

lemmas mod_mod_pow64 = mod_mod_pow [of _ 64, simplified]
lemmas mod_mod_pow32 = mod_mod_pow [of _ 32, simplified]

lemma int_of_word64: "p \<in> int_types \<Longrightarrow> int_of p (word_of_int x) = wrap p x"
  using int_types_width [of p]
  by (auto simp: int_of_def wrap_def sint_word_of_int64 stb_stb uint_word_of_int mod_mod_pow64)

lemma zext32_word_of_int: "zext32 (word_of_int x) = word_of_int (take_bit 32 x)"
  by (rule bit_word_eqI) (auto simp: zext32_def bit_simps)

lemma wrap_take_bit: "p \<in> int_types \<Longrightarrow> GetPrimTypeBitSize p \<le> 32 \<Longrightarrow> wrap p (take_bit 32 x) = wrap p x"
  using int_types_width [of p]
  by (auto simp: wrap_def stb_take_bit)  (auto simp: take_bit_eq_mod mod_mod_pow32)

lemma int_of_word32:
  "p \<in> int_types \<Longrightarrow> GetPrimTypeBitSize p \<le> 32 \<Longrightarrow> int_of p (zext32 (word_of_int x)) = wrap p x"
  by (simp add: zext32_word_of_int int_of_word64 wrap_take_bit)

lemma low32_word_of_int: "low32 (word_of_int x) = word_of_int x"
  by (rule bit_word_eqI) (auto simp: low32_def bit_simps)

lemma wf_const_word:
  assumes "wf_const c"
  shows "ic_value c = word_of_int (int_of (ic_type c) (ic_value c))"
proof -
  have p: "ic_type c \<in> int_types" "canon (ic_type c) (ic_value c) = ic_value c"
    using assms by (simp_all add: wf_const_def)
  then show ?thesis
    by (cases "IsSignedInteger (ic_type c)") (simp_all add: int_of_signed int_of_unsigned)
qed

lemma wrap_id:
  assumes "p \<in> int_types"
  shows "wrap p (int_of p v) = int_of p v"
  using assms by (auto simp: wrap_def int_of_def)

lemma wrap_range:
  assumes "p \<in> int_types"
  defines "w \<equiv> GetPrimTypeBitSize p"
  shows "wrap p x = x \<longleftrightarrow> (if IsSignedInteger p then - (2 ^ (w - 1)) \<le> x \<and> x < 2 ^ (w - 1)
         else 0 \<le> x \<and> x < 2 ^ w)"
  using signed_take_bit_int_eq_self_iff [of "w - 1" x] take_bit_int_eq_self_iff [of w x]
  by (auto simp: wrap_def w_def take_bit_eq_mod)


text \<open>readings\<close>
lemma low32_const: "wf_const c \<Longrightarrow> low32 (ic_value c) = word_of_int (int_of (ic_type c) (ic_value c))"
  by (subst wf_const_word) (simp_all add: low32_word_of_int)

lemma wf_sint64: "wf_const c \<Longrightarrow> IsSignedInteger (ic_type c) \<Longrightarrow> sint (ic_value c) = int_of (ic_type c) (ic_value c)"
  by (simp add: wf_const_def int_of_signed)

lemma wf_uint64: "wf_const c \<Longrightarrow> \<not> IsSignedInteger (ic_type c) \<Longrightarrow> uint (ic_value c) = int_of (ic_type c) (ic_value c)"
  by (simp add: wf_const_def int_of_unsigned)

lemma wf_sint32:
  assumes "wf_const c" "IsSignedInteger (ic_type c)" "GetPrimTypeBitSize (ic_type c) \<le> 32"
  shows "sint (low32 (ic_value c)) = int_of (ic_type c) (ic_value c)"
proof -
  have p: "ic_type c \<in> int_types" using assms(1) by (simp add: wf_const_def)
  have "signed_take_bit 31 (int_of (ic_type c) (ic_value c)) = int_of (ic_type c) (ic_value c)"
    using assms(2,3) int_types_width [OF p]
    by (cases "GetPrimTypeBitSize (ic_type c) = 32") (auto simp: int_of_def min_def)
  then show ?thesis by (simp add: low32_const [OF assms(1)] sint_word_of_int32)
qed

lemma wf_uint32:
  assumes "wf_const c" "\<not> IsSignedInteger (ic_type c)" "GetPrimTypeBitSize (ic_type c) \<le> 32"
  shows "uint (low32 (ic_value c)) = int_of (ic_type c) (ic_value c)"
proof -
  have "(2::int) ^ GetPrimTypeBitSize (ic_type c) \<le> 2 ^ 32" using assms(3) by (rule power_increasing) simp
  moreover have "0 \<le> int_of (ic_type c) (ic_value c)"
    "int_of (ic_type c) (ic_value c) < 2 ^ GetPrimTypeBitSize (ic_type c)"
    using assms(2) by (simp_all add: int_of_def)
  ultimately have "int_of (ic_type c) (ic_value c) mod 2 ^ 32 = int_of (ic_type c) (ic_value c)"
    by (intro mod_pos_pos_trivial) linarith+
  then show ?thesis by (simp add: low32_const [OF assms(1)] uint_word_of_int)
qed

lemma word_div_int: "(a::'a::len word) div b = word_of_int (uint a div uint b)"
  by (simp add: word_div_def)
lemma word_mod_int: "(a::'a::len word) mod b = word_of_int (uint a mod uint b)"
  by (simp add: word_mod_def)
lemma sdrop_int: "signed_drop_bit n (a::'a::len word) = word_of_int (sint a div 2 ^ n)"
proof -
  have "signed_drop_bit n a = word_of_int (sint (signed_drop_bit n a))" by simp
  then show ?thesis by (simp only: sint_signed_drop_bit_eq drop_bit_eq_div)
qed
lemma drop_int: "drop_bit n (a::'a::len word) = word_of_int (uint a div 2 ^ n)"
proof -
  have "drop_bit n a = word_of_int (uint (drop_bit n a))" by simp
  also have "uint (drop_bit n a) = uint a div 2 ^ n"
    unfolding unsigned_drop_bit_eq using uint_lt2p [of a] by (simp add: take_bit_eq_mod drop_bit_eq_div)
  finally show ?thesis .
qed
lemma push_int: "push_bit n (word_of_int x::'a::len word) = word_of_int (x * 2 ^ n)"
  by (simp add: push_bit_eq_mult)

text \<open>
  The meaning of the binary operations on integers. A division by zero and a shift
  by the width of the computation or more have no meaning.
\<close>

definition ref_binary :: "Opcode \<Rightarrow> PrimType \<Rightarrow> int \<Rightarrow> int \<Rightarrow> int option" where
  "ref_binary opcode p x y =
     (let w = GetPrimTypeBitSize p; count_ok = (0 \<le> y \<and> y < int (max 32 w)) in
      if opcode = OP_add then Some (x + y)
      else if opcode = OP_sub then Some (x - y)
      else if opcode = OP_mul then Some (x * y)
      else if opcode = OP_div then (if y = 0 then None else Some (c_div x y))
      else if opcode = OP_rem then (if y = 0 then None else Some (c_mod x y))
      else if opcode = OP_shl then (if count_ok then Some (x * 2 ^ nat y) else None)
      else if opcode = OP_ashr then (if count_ok then Some (signed_take_bit (w - 1) x div 2 ^ nat y) else None)
      else if opcode = OP_lshr then (if count_ok then Some (x mod 2 ^ w div 2 ^ nat y) else None)
      else if opcode = OP_max then Some (max x y)
      else if opcode = OP_min then Some (min x y)
      else if opcode = OP_band then Some (x AND y)
      else if opcode = OP_bior then Some (x OR y)
      else if opcode = OP_bxor then Some (x XOR y)
      else if opcode \<in> {OP_cand, OP_land} then Some (bool_int (x \<noteq> 0 \<and> y \<noteq> 0))
      else if opcode \<in> {OP_cior, OP_lior} then Some (bool_int (x \<noteq> 0 \<or> y \<noteq> 0))
      else None)"

definition shift_ops :: "Opcode set" where
  "shift_ops = {OP_shl, OP_ashr, OP_lshr}"

definition div_overflow :: "Opcode \<Rightarrow> PrimType \<Rightarrow> int \<Rightarrow> int \<Rightarrow> bool" where
  "div_overflow opcode p x y \<longleftrightarrow> opcode \<in> {OP_div, OP_rem} \<and> IsSignedInteger p \<and>
     32 \<le> GetPrimTypeBitSize p \<and> x = - (2 ^ (GetPrimTypeBitSize p - 1)) \<and> y = - 1"

definition narrow_shift :: "Opcode \<Rightarrow> PrimType \<Rightarrow> bool" where
  "narrow_shift opcode p \<longleftrightarrow> GetPrimTypeBitSize p < 32 \<and>
     ((opcode = OP_ashr \<and> \<not> IsSignedInteger p) \<or> (opcode = OP_lshr \<and> IsSignedInteger p))"

lemma of_int_word_eq: "(of_int x :: 'a::len word) = word_of_int x" by simp

lemma int64_and: "(word_of_int x :: 'a::len word) AND word_of_int y = word_of_int (x AND y)"
  by (simp add: of_int_and_eq)
lemma int64_or: "(word_of_int x :: 'a::len word) OR word_of_int y = word_of_int (x OR y)"
  by (simp add: of_int_or_eq)
lemma int64_xor: "(word_of_int x :: 'a::len word) XOR word_of_int y = word_of_int (x XOR y)"
  by (simp add: of_int_xor_eq)


definition word_arith :: "Opcode \<Rightarrow> bool \<Rightarrow> 'a::len word \<Rightarrow> 'a word \<Rightarrow> 'a word result" where
  "word_arith opcode uns x y =
     (if opcode = OP_add then Inr (x + y)
      else if opcode = OP_sub then Inr (x - y)
      else if opcode = OP_mul then Inr (x * y)
      else if opcode = OP_div then
        (if uns then guard (y \<noteq> 0) ''division by zero'' (x div y)
         else guard (sdiv_ok (sint x) (sint y) LENGTH('a)) ''division'' (word_of_int (c_div (sint x) (sint y))))
      else if opcode = OP_rem then
        (if uns then guard (y \<noteq> 0) ''division by zero'' (x mod y)
         else guard (sdiv_ok (sint x) (sint y) LENGTH('a)) ''division'' (word_of_int (c_mod (sint x) (sint y))))
      else if opcode = OP_ashr then guard (uint y < int LENGTH('a)) ''shift'' (signed_drop_bit (unat y) x)
      else if opcode = OP_lshr then guard (uint y < int LENGTH('a)) ''shift'' (drop_bit (unat y) x)
      else if opcode = OP_shl then guard (uint y < int LENGTH('a)) ''shift'' (push_bit (unat y) x)
      else Inr 0)"

lemma fold_arith64_word: "fold_arith64 opcode uns a b = word_arith opcode uns a b"
  by (simp add: fold_arith64_def word_arith_def)

lemma fold_arith32_word: "fold_arith32 opcode uns a b = word_arith opcode uns (low32 a) (low32 b)"
  by (simp add: fold_arith32_def word_arith_def Let_def)

lemma uint_eq_0: "uint b = 0 \<longleftrightarrow> (b::'a::len word) = 0"
  by (metis uint_0_iff)

lemma word_arith_div:
  assumes "opcode \<in> {OP_div, OP_rem}" and y0: "y \<noteq> 0"
    and rd: "if uns then uint a = x \<and> uint b = y else sint a = x \<and> sint b = y"
    and ov: "\<not> (\<not> uns \<and> x = - (2 ^ (LENGTH('a) - 1)) \<and> y = - 1)"
  shows "word_arith opcode uns (a::'a::len word) b =
           Inr (word_of_int (if opcode = OP_div then c_div x y else c_mod x y))"
proof (cases uns)
  case True
  then have u: "uint a = x" "uint b = y" using rd by auto
  then have nn: "0 \<le> x" "0 < y" using y0 uint_ge_0 [of a] uint_ge_0 [of b] by (auto simp: le_less)
  have "b \<noteq> 0" using u(2) y0 by auto
  then show ?thesis
    using assms(1) True nn
    by (auto simp: word_arith_def guard_def word_div_int word_mod_int u c_div_nonneg c_mod_nonneg)
next
  case False
  then have "sint a = x" "sint b = y" using rd by auto
  then show ?thesis
    using assms False by (auto simp: word_arith_def guard_def sdiv_ok_def)
qed

lemma word_arith_shift:
  assumes "opcode \<in> shift_ops" and b: "uint b = y" "y < int LENGTH('a)" and a: "a = word_of_int x"
  shows "word_arith opcode uns (a::'a::len word) b =
           Inr (word_of_int (if opcode = OP_shl then x * 2 ^ nat y
                             else if opcode = OP_ashr then sint a div 2 ^ nat y
                             else uint a div 2 ^ nat y))"
proof -
  have "unat b = nat y" using b(1) by (metis unat_eq_nat_uint)
  then show ?thesis
    using assms(1) b
    by (auto simp: word_arith_def guard_def shift_ops_def sdrop_int drop_int a push_int)
qed

lemma sint_stb_uint: "sint (a::'a::len word) = signed_take_bit (LENGTH('a) - 1) (uint a)"
  by (simp add: sint_uint)

lemma word_arith_ref:
  fixes a b :: "'a::len word"
  assumes p: "p \<in> int_types" and len: "LENGTH('a) = max 32 (GetPrimTypeBitSize p)"
    and o: "opcode \<in> arith_ops" and r: "ref_binary opcode p x y = Some r"
    and nd: "\<not> div_overflow opcode p x y" and ns: "\<not> narrow_shift opcode p" and x: "wrap p x = x"
    and a: "a = word_of_int x" "if IsUnsignedInteger p then uint a = x else sint a = x"
    and b: "b = word_of_int y"
      "if opcode \<in> shift_ops then uint b = y
       else if IsUnsignedInteger p then uint b = y else sint b = y"
  shows "word_arith opcode (IsUnsignedInteger p) a b = Inr (word_of_int r)"
proof -
  define w where "w = GetPrimTypeBitSize p"
  have sg: "IsSignedInteger p \<longleftrightarrow> \<not> IsUnsignedInteger p" using p by (rule int_types_signed)
  have w: "w = LENGTH('a) \<or> w < 32" using len w_def by (auto simp: max_def split: if_splits)
  consider "opcode \<in> {OP_add, OP_sub, OP_mul}" | "opcode \<in> {OP_div, OP_rem}" | "opcode \<in> shift_ops"
    using o by (auto simp: arith_ops_def shift_ops_def)
  then show ?thesis
  proof cases
    case 1
    with r show ?thesis by (auto simp: word_arith_def ref_binary_def a b)
  next
    case 2
    then have y0: "y \<noteq> 0" and req: "r = (if opcode = OP_div then c_div x y else c_mod x y)"
      using r by (auto simp: ref_binary_def split: if_splits)
    have ov: "\<not> (\<not> IsUnsignedInteger p \<and> x = - (2 ^ (LENGTH('a) - 1)) \<and> y = - 1)"
    proof
      assume ass: "\<not> IsUnsignedInteger p \<and> x = - (2 ^ (LENGTH('a) - 1)) \<and> y = - 1"
      with sg x have rng: "- (2 ^ (w - 1)) \<le> x" using wrap_range [OF p, of x] w_def by simp
      show False
      proof (cases "w = LENGTH('a)")
        case True
        with ass 2 nd sg len w_def show False by (auto simp: div_overflow_def)
      next
        case False
        with w len w_def have "w - 1 < LENGTH('a) - 1" by (auto simp: max_def split: if_splits)
        then have "(2::int) ^ (w - 1) < 2 ^ (LENGTH('a) - 1)" by (rule power_strict_increasing) simp
        with rng ass show False by simp
      qed
    qed
    show ?thesis
      using word_arith_div [of opcode y "IsUnsignedInteger p" a x b] 2 y0 a b ov req
      by (auto simp: shift_ops_def)
  next
    case 3
    then have cnt: "0 \<le> y" "y < int LENGTH('a)" and req: "r = (if opcode = OP_shl then x * 2 ^ nat y
        else if opcode = OP_ashr then signed_take_bit (w - 1) x div 2 ^ nat y
        else x mod 2 ^ w div 2 ^ nat y)"
      using r len by (auto simp: ref_binary_def Let_def shift_ops_def w_def split: if_splits)
    have s: "opcode = OP_ashr \<Longrightarrow> sint a = signed_take_bit (w - 1) x"
      using a(2) x ns w sg len by (auto simp: narrow_shift_def wrap_def w_def sint_stb_uint split: if_splits)
    have u: "opcode = OP_lshr \<Longrightarrow> uint a = x mod 2 ^ w"
      using a x ns w sg len by (auto simp: narrow_shift_def wrap_def w_def uint_word_of_int split: if_splits)
    show ?thesis
      using word_arith_shift [OF 3, of b y a x "IsUnsignedInteger p"] 3 b cnt a(1) req s u
      by (auto simp: shift_ops_def)
  qed
qed

definition word_logic :: "Opcode \<Rightarrow> bool \<Rightarrow> 'a::len word \<Rightarrow> 'a word \<Rightarrow> bool \<Rightarrow> bool \<Rightarrow> 'a word" where
  "word_logic opcode uns x y tx ty =
     (if opcode = OP_max then
        (if uns then (if uint x \<ge> uint y then x else y) else (if sint x \<ge> sint y then x else y))
      else if opcode = OP_min then
        (if uns then (if uint x \<le> uint y then x else y) else (if sint x \<le> sint y then x else y))
      else if opcode = OP_band then x AND y
      else if opcode = OP_bior then x OR y
      else if opcode = OP_bxor then x XOR y
      else if opcode \<in> {OP_cand, OP_land} then bool_int (tx \<and> ty)
      else if opcode \<in> {OP_cior, OP_lior} then bool_int (tx \<or> ty)
      else 0)"

lemma fold_logic64_word: "fold_logic64 opcode uns a b = word_logic opcode uns a b (a \<noteq> 0) (b \<noteq> 0)"
  by (simp add: fold_logic64_def word_logic_def)

lemma fold_logic32_word:
  "fold_logic32 opcode uns a b = word_logic opcode uns (low32 a) (low32 b) (a \<noteq> 0) (b \<noteq> 0)"
  by (simp add: fold_logic32_def word_logic_def Let_def)

lemma word_logic_ref:
  fixes a b :: "'a::len word"
  assumes o: "opcode \<notin> arith_ops" and r: "ref_binary opcode p x y = Some r"
    and a: "a = word_of_int x" and b: "b = word_of_int y"
    and rd: "if IsUnsignedInteger p then uint a = x \<and> uint b = y else sint a = x \<and> sint b = y"
  shows "word_logic opcode (IsUnsignedInteger p) a b (x \<noteq> 0) (y \<noteq> 0) = word_of_int r"
proof -
  consider "opcode \<in> {OP_max, OP_min}" | "opcode \<in> {OP_band, OP_bior, OP_bxor}"
    | "opcode \<in> {OP_cand, OP_land, OP_cior, OP_lior}"
    using o r by (auto simp: arith_ops_def ref_binary_def Let_def split: if_splits)
  then show ?thesis
  proof cases
    case 1
    then have "r = (if opcode = OP_max then max x y else min x y)"
      using r by (auto simp: ref_binary_def)
    moreover have "(if IsUnsignedInteger p then uint a \<ge> uint b else sint a \<ge> sint b) \<longleftrightarrow> x \<ge> y"
      "(if IsUnsignedInteger p then uint a \<le> uint b else sint a \<le> sint b) \<longleftrightarrow> x \<le> y"
      using rd by auto
    ultimately show ?thesis
      using 1 a b by (auto simp: word_logic_def max_def min_def split: if_splits)
  next
    case 2
    then show ?thesis
      using r by (auto simp: word_logic_def ref_binary_def a b int64_and int64_or int64_xor)
  next
    case 3
    then show ?thesis
      using r by (auto simp: word_logic_def ref_binary_def bool_int_def)
  qed
qed

lemma count_reading:
  assumes "wf_const c" "int_of (ic_type c) (ic_value c) = y" "0 \<le> y"
  shows "uint (ic_value c) = y" "y < 2 ^ 32 \<Longrightarrow> uint (low32 (ic_value c)) = y"
proof -
  show u: "uint (ic_value c) = y"
  proof (cases "IsSignedInteger (ic_type c)")
    case True
    with wf_sint64 [OF assms(1) True] assms(2,3) show ?thesis
      using uint_lt2p [of "ic_value c"] by (auto simp: sint_eq_uint_if split: if_splits)
  next
    case False
    with wf_uint64 [OF assms(1) False] assms(2) show ?thesis by simp
  qed
  show "uint (low32 (ic_value c)) = y" if "y < 2 ^ 32"
    using that assms(3) u by (simp add: uint_low32)
qed

lemma form_constant_int:
  "p \<in> int_types \<Longrightarrow> form_constant p d v = Inr \<lparr>ic_value = canon p v, ic_type = p\<rparr>"
  by (auto simp: form_constant_def new_MIRIntConst_canon int_types_def)

lemma form_constant_value:
  assumes "p \<in> int_types"
  shows "\<exists>c. form_constant p d v = Inr c \<and> wf_const c \<and> ic_type c = p \<and> int_of p (ic_value c) = int_of p v"
  using assms by (simp add: form_constant_int wf_const_def)


lemma wf_const_zero: "wf_const c \<Longrightarrow> ic_value c = 0 \<longleftrightarrow> int_of (ic_type c) (ic_value c) = 0"
  using wf_const_word [of c] by (auto simp: int_of_def)

lemma word_binary_ref:
  fixes a b :: "'a::len word"
  assumes p: "p \<in> int_types" and len: "LENGTH('a) = max 32 (GetPrimTypeBitSize p)"
    and r: "ref_binary opcode p x y = Some r"
    and nd: "\<not> div_overflow opcode p x y" and ns: "\<not> narrow_shift opcode p" and x: "wrap p x = x"
    and a: "a = word_of_int x" "if IsUnsignedInteger p then uint a = x else sint a = x"
    and b: "b = word_of_int y"
      "if opcode \<in> shift_ops then uint b = y
       else if IsUnsignedInteger p then uint b = y else sint b = y"
  shows "(if opcode \<in> arith_ops then word_arith opcode (IsUnsignedInteger p) a b
          else Inr (word_logic opcode (IsUnsignedInteger p) a b (x \<noteq> 0) (y \<noteq> 0))) = Inr (word_of_int r)"
proof (cases "opcode \<in> arith_ops")
  case True
  then show ?thesis using word_arith_ref [OF p len True r nd ns x a b] by simp
next
  case False
  then have "opcode \<notin> shift_ops" by (auto simp: arith_ops_def shift_ops_def)
  then have "if IsUnsignedInteger p then uint a = x \<and> uint b = y else sint a = x \<and> sint b = y"
    using a(2) b(2) by auto
  with False show ?thesis using word_logic_ref [OF False r a(1) b(1)] by simp
qed

lemma reading64:
  assumes "wf_const c" "ic_type c = p"
  shows "if IsUnsignedInteger p then uint (ic_value c) = int_of p (ic_value c)
         else sint (ic_value c) = int_of p (ic_value c)"
  using wf_sint64 [OF assms(1)] wf_uint64 [OF assms(1)] assms int_types_signed [of p]
  by (auto simp: wf_const_def)

lemma reading32:
  assumes "wf_const c" "ic_type c = p" "GetPrimTypeBitSize p \<le> 32"
  shows "if IsUnsignedInteger p then uint (low32 (ic_value c)) = int_of p (ic_value c)
         else sint (low32 (ic_value c)) = int_of p (ic_value c)"
  using wf_sint32 [OF assms(1)] wf_uint32 [OF assms(1)] assms int_types_signed [of p]
  by (auto simp: wf_const_def)

text \<open>
  (C17) Folding a binary integer operation computes the operation of the
  mathematical integers, reduced to the result type, whenever that operation is
  defined: no division by zero, a shift count that is not negative and below the larger of
  32 and the width of the type. Two cases are excluded: the division or remainder of the
  least value of a signed type of 32 or 64 bits by -1, which is undefined in C++, and,
  on types narrower than 32 bits, \<^verbatim>\<open>lshr\<close> of a signed and \<^verbatim>\<open>ashr\<close> of an unsigned type
  (\<open>narrow_shift\<close>), which fold to a wrong value, as \<open>FoldIntConst_narrow_wrong\<close> shows.
\<close>

theorem FoldIntConstBinary_correct:
  assumes c: "wf_const c0" "wf_const c1" "ic_type c0 = p" "ic_type c1 = p \<or> opcode \<in> shift_ops"
    and r: "ref_binary opcode p (int_of p (ic_value c0)) (int_of (ic_type c1) (ic_value c1)) = Some r"
    and nd: "\<not> div_overflow opcode p (int_of p (ic_value c0)) (int_of (ic_type c1) (ic_value c1))"
    and ns: "\<not> narrow_shift opcode p"
  shows "\<exists>c. FoldIntConstBinaryMIRConst opcode p c0 c1 = Inr c \<and> wf_const c \<and> ic_type c = p \<and>
             int_of p (ic_value c) = wrap p r"
proof -
  define x where "x = int_of p (ic_value c0)"
  define y where "y = int_of (ic_type c1) (ic_value c1)"
  have p: "p \<in> int_types" using c by (auto simp: wf_const_def)
  have x: "wrap p x = x" unfolding x_def using p by (rule wrap_id)
  note a = wf_const_word [OF c(1), unfolded c(3), folded x_def]
  note b = wf_const_word [OF c(2), folded y_def]
  have z: "(ic_value c0 = 0) = (x = 0)" "(ic_value c1 = 0) = (y = 0)"
    using wf_const_zero [OF c(1)] wf_const_zero [OF c(2)] c(3) x_def y_def by auto
  have yb: "opcode \<in> shift_ops \<Longrightarrow> 0 \<le> y \<and> y < int (max 32 (GetPrimTypeBitSize p))"
    using r by (auto simp: ref_binary_def Let_def shift_ops_def y_def split: if_splits)
  note ref = word_binary_ref [OF p _ r [folded x_def y_def] nd [folded x_def y_def] ns x]
  show ?thesis
  proof (cases "GetPrimTypeBitSize p = 64")
    case True
    have rb: "if opcode \<in> shift_ops then uint (ic_value c1) = y
       else if IsUnsignedInteger p then uint (ic_value c1) = y else sint (ic_value c1) = y"
      using reading64 [OF c(2), of p] count_reading(1) [OF c(2) y_def [symmetric]] yb c(4) y_def by auto
    have "(if opcode \<in> arith_ops then fold_arith64 opcode (IsUnsignedInteger p) (ic_value c0) (ic_value c1)
          else Inr (fold_logic64 opcode (IsUnsignedInteger p) (ic_value c0) (ic_value c1))) = Inr (word_of_int r)"
      using ref [OF _ a reading64 [OF c(1,3), folded x_def] b rb] True z
      by (cases "opcode \<in> arith_ops") (simp_all add: fold_arith64_word fold_logic64_word)
    then show ?thesis
      using True p form_constant_value [OF p, of _ "word_of_int r"] int_types_size64 [OF p]
      by (simp add: FoldIntConstBinaryMIRConst_def int_of_word64)
  next
    case False
    then have w32: "GetPrimTypeBitSize p \<le> 32" using int_types_bits [OF p] by auto
    have ab: "low32 (ic_value c0) = word_of_int x" "low32 (ic_value c1) = word_of_int y"
      using a b by (metis low32_word_of_int)+
    have rb: "if opcode \<in> shift_ops then uint (low32 (ic_value c1)) = y
       else if IsUnsignedInteger p then uint (low32 (ic_value c1)) = y else sint (low32 (ic_value c1)) = y"
      using reading32 [OF c(2), of p] count_reading(2) [OF c(2) y_def [symmetric]] yb c(4) y_def w32 by auto
    have "(if opcode \<in> arith_ops then fold_arith32 opcode (IsUnsignedInteger p) (ic_value c0) (ic_value c1)
          else Inr (fold_logic32 opcode (IsUnsignedInteger p) (ic_value c0) (ic_value c1))) = Inr (word_of_int r)"
      using ref [OF _ ab(1) reading32 [OF c(1,3) w32, folded x_def] ab(2) rb] w32 z
      by (cases "opcode \<in> arith_ops") (simp_all add: fold_arith32_word fold_logic32_word)
    then show ?thesis
      using False p form_constant_value [OF p, of _ "zext32 (word_of_int r)"] int_types_size64 [OF p]
      by (simp add: FoldIntConstBinaryMIRConst_def int_of_word32 w32)
  qed
qed

section \<open>Comparisons, unary operations and conversions\<close>

definition ref_compare :: "Opcode \<Rightarrow> int \<Rightarrow> int \<Rightarrow> int option" where
  "ref_compare opcode x y =
     (if opcode = OP_eq then Some (bool_int (x = y))
      else if opcode = OP_ge then Some (bool_int (x \<ge> y))
      else if opcode = OP_gt then Some (bool_int (x > y))
      else if opcode = OP_le then Some (bool_int (x \<le> y))
      else if opcode = OP_lt then Some (bool_int (x < y))
      else if opcode = OP_ne then Some (bool_int (x \<noteq> y))
      else if opcode = OP_cmp then Some (sgn (x - y))
      else None)"

lemma word_of_bool: "word_of_int (bool_int b) = (bool_int b :: 'a::len word)"
  by (simp add: bool_int_def)

lemma cmp_result_sgn: "cmp_result x y = word_of_int (sgn (x - y))"
  by (auto simp: cmp_result_def Let_def kLess_def kEqual_def kGreater_def sgn_if)

lemma wf_const_inj:
  assumes "wf_const c0" "wf_const c1" "ic_type c0 = p" "ic_type c1 = p"
  shows "ic_value c0 = ic_value c1 \<longleftrightarrow> int_of p (ic_value c0) = int_of p (ic_value c1)"
  using wf_const_word [OF assms(1)] wf_const_word [OF assms(2)] assms(3,4) by auto

definition compare_ints :: "Opcode \<Rightarrow> int \<Rightarrow> int \<Rightarrow> int64" where
  "compare_ints opcode x y = (case ref_compare opcode x y of None \<Rightarrow> 0 | Some r \<Rightarrow> word_of_int r)"

lemma or_eq_int: "(y < x \<or> x = y) = (y \<le> x)" "(x < y \<or> x = y) = (x \<le> y)" for x y :: int
  by auto

lemma if_bool_int: "(if b then bool_int c else bool_int d) = bool_int (if b then c else d)"
  by simp

lemma compare_value_readings:
  "FoldIntConstComparison_value opcode p v0 v1 =
     (if GetPrimTypeSize p = 8
      then if IsUnsignedInteger p then compare_ints opcode (uint v0) (uint v1)
           else compare_ints opcode (sint v0) (sint v1)
      else if IsUnsignedInteger p then compare_ints opcode (uint (low32 v0)) (uint (low32 v1))
           else compare_ints opcode (sint (low32 v0)) (sint (low32 v1)))"
proof -
  have e: "v0 = v1 \<longleftrightarrow> sint v0 = sint v1" "low32 v0 = low32 v1 \<longleftrightarrow> sint (low32 v0) = sint (low32 v1)"
    "sint v0 = sint v1 \<longleftrightarrow> uint v0 = uint v1"
    "sint (low32 v0) = sint (low32 v1) \<longleftrightarrow> uint (low32 v0) = uint (low32 v1)"
    by (metis signed_word_eqI unsigned_word_eqI)+
  show ?thesis
    unfolding FoldIntConstComparison_value_def compare_ints_def ref_compare_def Let_def
    by (cases "GetPrimTypeSize p = 8"; cases "IsUnsignedInteger p")
      (simp_all only: if_True if_False option.case if_distrib [of "case_option _ _"] word_of_bool
        cmp_result_sgn e(1,2) or_eq_int not_False_eq_True simp_thms, simp_all only: e(3,4))
qed

lemma compare_value_ref:
  assumes c: "wf_const c0" "wf_const c1" "ic_type c0 = p" "ic_type c1 = p"
    and r: "ref_compare opcode (int_of p (ic_value c0)) (int_of p (ic_value c1)) = Some r"
  shows "FoldIntConstComparison_value opcode p (ic_value c0) (ic_value c1) = word_of_int r"
proof -
  have p: "p \<in> int_types" using c by (auto simp: wf_const_def)
  then have w: "GetPrimTypeSize p \<noteq> 8 \<Longrightarrow> GetPrimTypeBitSize p \<le> 32"
    using int_types_bits [OF p] int_types_size64 [OF p] by auto
  have "FoldIntConstComparison_value opcode p (ic_value c0) (ic_value c1)
      = compare_ints opcode (int_of p (ic_value c0)) (int_of p (ic_value c1))"
    using reading64 [OF c(1,3)] reading64 [OF c(2,4)] reading32 [OF c(1,3) w] reading32 [OF c(2,4) w]
    by (simp add: compare_value_readings split: if_splits)
  with r show ?thesis by (simp add: compare_ints_def)
qed

text \<open>
  (C25) Folding a comparison gives the truth value (for
  \<^verbatim>\<open>OP_cmp\<close> the sign) of the comparison of the two operands
  as integers of their type, as a constant of the result type.
\<close>

theorem FoldIntConstComparison_correct:
  assumes "wf_const c0" "wf_const c1" "ic_type c0 = p" "ic_type c1 = p" "q \<in> int_types"
    and "ref_compare opcode (int_of p (ic_value c0)) (int_of p (ic_value c1)) = Some r"
  shows "\<exists>c. FoldIntConstComparisonMIRConst opcode q p c0 c1 = Inr c \<and> wf_const c \<and> ic_type c = q \<and>
             int_of q (ic_value c) = wrap q r"
  using form_constant_value [OF assms(5), of _ "word_of_int r"]
  by (simp add: FoldIntConstComparisonMIRConst_def Let_def compare_value_ref [OF assms(1-4,6)]
      int_of_word64 [OF assms(5)])

definition ref_unary :: "Opcode \<Rightarrow> int \<Rightarrow> int option" where
  "ref_unary opcode x =
     (if opcode = OP_abs then Some \<bar>x\<bar>
      else if opcode = OP_bnot then Some (NOT x)
      else if opcode = OP_lnot then Some (bool_int (x = 0))
      else if opcode = OP_neg then Some (- x)
      else None)"

definition neg_overflow :: "Opcode \<Rightarrow> PrimType \<Rightarrow> int64 \<Rightarrow> bool" where
  "neg_overflow opcode p v \<longleftrightarrow>
     (opcode = OP_neg \<and> GetPrimTypeBitSize p = 64 \<and> sint v = - (2 ^ 63)) \<or>
     (opcode = OP_abs \<and> IsSignedInteger p \<and> 32 \<le> GetPrimTypeBitSize p \<and>
        sint v = - (2 ^ (GetPrimTypeBitSize p - 1)))"

lemma word_not_int: "NOT (word_of_int x :: 'a::len word) = word_of_int (NOT x)"
  by (simp add: of_int_not_eq)

lemma narrow_neg_ok:
  assumes "wf_const c" "GetPrimTypeBitSize (ic_type c) \<noteq> 64"
  shows "neg_ok (sint (ic_value c)) 64"
proof -
  have p: "ic_type c \<in> int_types" using assms(1) by (simp add: wf_const_def)
  then have w: "GetPrimTypeBitSize (ic_type c) \<in> {8, 16, 32}" using int_types_bits assms(2) by blast
  have "wrap (ic_type c) (int_of (ic_type c) (ic_value c)) = int_of (ic_type c) (ic_value c)"
    using p by (rule wrap_id)
  then have "- (2 ^ 31) \<le> int_of (ic_type c) (ic_value c)" "int_of (ic_type c) (ic_value c) < 2 ^ 32"
    using w by (auto simp: wrap_range [OF p] split: if_splits)
  then show ?thesis
    using wf_sint64 [OF assms(1)] wf_uint64 [OF assms(1)] uint_ge_0 [of "ic_value c"]
    by (cases "IsSignedInteger (ic_type c)") (simp_all add: neg_ok_def sint_eq_uint_if)
qed

lemma narrow_abs_ok:
  assumes "wf_const c" "ic_type c = p" "GetPrimTypeBitSize p \<le> 32" "\<not> neg_overflow OP_abs p (ic_value c)"
    "IsSignedInteger p"
  shows "neg_ok (int_of p (ic_value c)) 32"
proof -
  have p: "p \<in> int_types" using assms(1,2) by (auto simp: wf_const_def)
  then have w: "GetPrimTypeBitSize p \<in> {8, 16, 32}" using int_types_bits assms(3) by fastforce
  have "wrap p (int_of p (ic_value c)) = int_of p (ic_value c)" using p by (rule wrap_id)
  then show ?thesis
    using w assms(4,5) wf_sint64 [OF assms(1)] assms(2)
    by (auto simp: wrap_range [OF p] neg_ok_def neg_overflow_def)
qed

text \<open>
  (C31) Folding a unary operation computes the operation on the integers, reduced to
  the type, unless it negates the least value of a 64-bit type or takes the absolute
  value of the least value of a 32- or 64-bit type.
\<close>

theorem FoldIntConstUnary_correct:
  assumes c: "wf_const c" "ic_type c = p" and r: "ref_unary opcode (int_of p (ic_value c)) = Some r"
    and no: "\<not> neg_overflow opcode p (ic_value c)"
  shows "\<exists>d. FoldIntConstUnary opcode p c = Inr d \<and> wf_const d \<and> ic_type d = p \<and>
             int_of p (ic_value d) = wrap p r"
proof -
  define x where "x = int_of p (ic_value c)"
  have p: "p \<in> int_types" using c by (auto simp: wf_const_def)
  have sg: "IsSignedInteger p \<longleftrightarrow> \<not> IsUnsignedInteger p" using p by (rule int_types_signed)
  have rr: "ref_unary opcode x = Some r" using r by (simp add: x_def)
  have o: "opcode \<in> {OP_abs, OP_bnot, OP_lnot, OP_neg}"
    using r by (auto simp: ref_unary_def split: if_splits)
  note a = wf_const_word [OF c(1), unfolded c(2), folded x_def]
  have z: "ic_value c = 0 \<longleftrightarrow> x = 0" using wf_const_zero [OF c(1)] c(2) x_def by simp
  show ?thesis
  proof (cases "GetPrimTypeBitSize p = 64")
    case True
    have rd: "if IsUnsignedInteger p then uint (ic_value c) = x else sint (ic_value c) = x"
      using reading64 [OF c] by (simp add: x_def)
    then have "uint (ic_value c) = x \<Longrightarrow> 0 \<le> x" by auto
    then have "fold_unary64 opcode (IsUnsignedInteger p) (ic_value c) = Inr (word_of_int r)"
      using o rr rd no True sg z
      by (auto simp: fold_unary64_def ref_unary_def guard_def neg_ok_def neg_overflow_def word_of_bool
          word_not_int a split: if_splits)
    then show ?thesis
      using True p form_constant_value [OF p, of _ "word_of_int r"] int_types_size64 [OF p]
      by (simp add: FoldIntConstUnary_def int_of_word64)
  next
    case False
    then have w: "GetPrimTypeBitSize p \<le> 32" using int_types_bits [OF p] by auto
    have rd: "if IsUnsignedInteger p then uint (low32 (ic_value c)) = x else sint (low32 (ic_value c)) = x"
      using reading32 [OF c w] by (simp add: x_def)
    have l: "low32 (ic_value c) = word_of_int x" "low32 (- ic_value c) = word_of_int (- x)"
      using a low32_word_of_int [of x] low32_word_of_int [of "- x"] by simp_all
    have z32: "low32 (ic_value c) = 0 \<longleftrightarrow> x = 0"
      using rd by (auto simp: l split: if_splits)
    have ok64: "neg_ok (sint (ic_value c)) 64"
      using narrow_neg_ok [OF c(1)] c(2) False by simp
    have ok32: "opcode = OP_abs \<Longrightarrow> \<not> IsUnsignedInteger p \<Longrightarrow> neg_ok x 32"
      using narrow_abs_ok [OF c w] no sg by (simp add: x_def)
    have nn: "IsUnsignedInteger p \<Longrightarrow> 0 \<le> x" using rd by (metis uint_ge_0)
    have "fold_unary32 opcode (IsUnsignedInteger p) (ic_value c) = Inr (word_of_int r)"
      using o rr rd ok64 ok32 nn
      by (auto simp: fold_unary32_def ref_unary_def guard_def word_of_bool Let_def z32 [unfolded l] l
          word_not_int split: if_splits)
    then show ?thesis
      using False p form_constant_value [OF p, of _ "zext32 (word_of_int r)"] int_types_size64 [OF p]
      by (simp add: FoldIntConstUnary_def int_of_word32 w)
  qed
qed

lemma FoldSignExtend_value:
  assumes "1 \<le> sz" "sz \<le> 64" "q \<in> int_types"
  shows "\<exists>d. FoldSignExtendMIRConst opcode q sz c = Inr d \<and> wf_const d \<and> ic_type d = q \<and>
     int_of q (ic_value d) = wrap q (if opcode = OP_sext then signed_take_bit (sz - 1) (sint (ic_value c))
                                     else uint (ic_value c) mod 2 ^ sz)"
proof -
  have s: "sint (signed_take_bit (sz - Suc 0) (ic_value c)) = signed_take_bit (sz - Suc 0) (sint (ic_value c))"
    using assms(1,2) sint_signed_take_bit64 [of sz "ic_value c"] by simp
  have "shift_pair (opcode = OP_sext) (64 - sz) (ic_value c) =
      Inr (word_of_int (if opcode = OP_sext then signed_take_bit (sz - 1) (sint (ic_value c))
                        else uint (ic_value c) mod 2 ^ sz))"
    using assms(1,2) by (simp add: shift_pair_def sdrop_push drop_push s [symmetric] uint_take_bit64 [symmetric])
  then show ?thesis
    using assms form_constant_value [OF assms(3), of 0]
    by (simp add: FoldSignExtendMIRConst_def new_MIRIntConst_canon wf_const_def int_of_word64)
qed

text \<open>
  Folding a sign or zero extension from \<open>sz\<close> bits keeps the low
  \<open>sz\<close> bits of the operand, read with or without sign, and reduces the
  value to the result type.
\<close>

theorem FoldSignExtend_correct:
  assumes "1 \<le> sz" "sz \<le> 64" "q \<in> int_types"
  shows "\<exists>d. FoldSignExtendMIRConst opcode q sz c = Inr d \<and> wf_const d \<and> ic_type d = q \<and>
     int_of q (ic_value d) = wrap q (if opcode = OP_sext then signed_take_bit (sz - 1) (sint (ic_value c))
                                     else uint (ic_value c) mod 2 ^ sz)"
  using assms by (rule FoldSignExtend_value)

lemma cvt_bits_range: "p \<in> int_types \<Longrightarrow> 1 \<le> cvt_bits p \<and> cvt_bits p \<le> 64"
  using int_types_width [of p] by (auto simp: cvt_bits_def)

lemma cvt_source:
  assumes c: "wf_const c" "ic_type c = p" and u: "p \<noteq> PTY_u1 \<or> int_of p (ic_value c) \<le> 1"
  shows "(if IsSignedInteger p then signed_take_bit (cvt_bits p - 1) (sint (ic_value c))
          else uint (ic_value c) mod 2 ^ cvt_bits p) = int_of p (ic_value c)"
proof (cases "p = PTY_u1")
  case True
  then have ns: "\<not> IsSignedInteger p" by (simp add: prim_pred_defs)
  with wf_uint64 [OF c(1)] c(2) have "uint (ic_value c) = int_of p (ic_value c)" by simp
  moreover from this have "0 \<le> int_of p (ic_value c)" by (metis uint_ge_0)
  ultimately show ?thesis using u True ns by (simp add: cvt_bits_def)
next
  case False
  then show ?thesis by (simp add: cvt_bits_def int_of_def)
qed

text \<open>
  (C30) Folding a conversion between integer types keeps the value, reduced to the
  target type; a \<^verbatim>\<open>u1\<close> operand is read as one bit, so it has
  to hold a truth value.
\<close>

theorem FoldTypeCvtInt_correct:
  assumes c: "wf_const c" "ic_type c = p" and q: "q \<in> int_types"
    and u: "p \<noteq> PTY_u1 \<or> int_of p (ic_value c) \<le> 1"
  shows "\<exists>d. FoldTypeCvtInt c p q = Inr d \<and> wf_const d \<and> ic_type d = q \<and>
             int_of q (ic_value d) = wrap q (int_of p (ic_value c))"
proof (cases "cvt_bits q > cvt_bits p")
  case True
  have p: "p \<in> int_types" using c by (auto simp: wf_const_def)
  then show ?thesis
    using True FoldSignExtend_value [of "cvt_bits p" q] cvt_bits_range [OF p] q cvt_source [OF c u]
    by (cases "IsSignedInteger p") (fastforce simp: FoldTypeCvtInt_def Let_def)+
next
  case False
  have "int_of q (ic_value c) = wrap q (int_of p (ic_value c))"
    using wf_const_word [OF c(1)] c(2) int_of_word64 [OF q] by metis
  with False q show ?thesis
    by (simp add: FoldTypeCvtInt_def Let_def new_MIRIntConst_canon wf_const_def)
qed

text \<open>
  Folding a comparison whose result type is \<^verbatim>\<open>dyni32\<close>
  never yields a constant: the code calls \<^verbatim>\<open>SetValue\<close> on an
  integer constant, which stops the compiler.
\<close>

theorem FoldIntConst_dyni32_fatal:
  "FoldIntConstComparisonMIRConst opcode PTY_dyni32 opndType c0 c1 =
     Inl (CheckFatal ''Can't Use This Interface in This Object'')"
  by (simp add: FoldIntConstComparisonMIRConst_def form_constant_def new_MIRIntConst_def Let_def
     prim_pred_defs IntConst_SetValue_def)

definition i32c :: "int64 \<Rightarrow> MIRIntConst" where
  "i32c v = \<lparr>ic_value = v, ic_type = PTY_i32\<rparr>"

lemma wf_i32c: "wf_const (i32c 7)" "wf_const (i32c (-2))"
  by (simp_all add: wf_const_def i32c_def int_types_def canon_def prim_pred_defs prim_size_defs)

lemma i32c_sel [simp]: "ic_type (i32c v) = PTY_i32" "ic_value (i32c v) = v"
  by (simp_all add: i32c_def)

lemma i32c_int: "int_of PTY_i32 7 = 7" "int_of PTY_i32 (-2) = -2"
  by (simp_all add: int_of_def prim_pred_defs prim_size_defs)

theorem FoldIntConstBinary_witness:
  "\<exists>c. FoldIntConstBinaryMIRConst OP_div PTY_i32 (i32c 7) (i32c (-2)) = Inr c \<and> wf_const c \<and>
       ic_type c = PTY_i32 \<and> int_of PTY_i32 (ic_value c) = -3"
proof -
  have "ref_binary OP_div PTY_i32 (int_of PTY_i32 7) (int_of PTY_i32 (-2)) = Some (-3)"
    by (simp add: i32c_int ref_binary_def c_div_def)
  moreover have "wrap PTY_i32 (-3) = -3"
    by (simp add: wrap_def prim_pred_defs prim_size_defs)
  ultimately show ?thesis
    using FoldIntConstBinary_correct [of "i32c 7" "i32c (-2)" PTY_i32 OP_div "-3"]
    by (simp add: wf_i32c i32c_int div_overflow_def narrow_shift_def)
qed

text \<open>
  \<^verbatim>\<open>lshr\<close> of the \<^verbatim>\<open>i8\<close> constant -1 by 1 folds to -1, not to 127, and \<^verbatim>\<open>ashr\<close> of the
  \<^verbatim>\<open>u8\<close> constant 128 by 1 to 64, not to 192: the operands are shifted as 32-bit numbers.
\<close>

definition narrow_const :: "PrimType \<Rightarrow> int64 \<Rightarrow> MIRIntConst" where
  "narrow_const p v = \<lparr>ic_value = v, ic_type = p\<rparr>"

lemma low32_minus_1: "low32 (- 1) = 4294967295" by code_simp

theorem FoldIntConst_narrow_wrong:
  "wf_const (narrow_const PTY_i8 (-1)) \<and> ref_binary OP_lshr PTY_i8 (-1) 1 = Some 127 \<and>
   FoldIntConstBinaryMIRConst OP_lshr PTY_i8 (narrow_const PTY_i8 (-1)) (narrow_const PTY_i8 1) =
     Inr (narrow_const PTY_i8 (-1)) \<and>
   wf_const (narrow_const PTY_u8 128) \<and> ref_binary OP_ashr PTY_u8 128 1 = Some (- 64) \<and> wrap PTY_u8 (- 64) = 192 \<and>
   FoldIntConstBinaryMIRConst OP_ashr PTY_u8 (narrow_const PTY_u8 128) (narrow_const PTY_u8 1) =
     Inr (narrow_const PTY_u8 64)"
  by (intro conjI)
    (simp_all add: narrow_const_def wf_const_def int_types_def canon_def ref_binary_def wrap_def prim_pred_defs
      prim_size_defs FoldIntConstBinaryMIRConst_def arith_ops_def fold_arith32_def form_constant_def guard_def
      new_MIRIntConst_canon low32_minus_1 low32_def [of 1] low32_def [of 128] zext32_def Let_def)

theorem FoldIntConstComparison_witness:
  "\<exists>c. FoldIntConstComparisonMIRConst OP_cmp PTY_i32 PTY_i32 (i32c (-2)) (i32c 7) = Inr c \<and> wf_const c \<and>
       ic_type c = PTY_i32 \<and> int_of PTY_i32 (ic_value c) = -1"
  using FoldIntConstComparison_correct [of "i32c (-2)" "i32c 7" PTY_i32 PTY_i32 OP_cmp "-1"]
  by (simp add: wf_i32c i32c_int ref_compare_def int_types_def wrap_def prim_pred_defs prim_size_defs)

theorem FoldIntConstUnary_witness:
  "\<exists>c. FoldIntConstUnary OP_abs PTY_i32 (i32c (-2)) = Inr c \<and> wf_const c \<and>
       ic_type c = PTY_i32 \<and> int_of PTY_i32 (ic_value c) = 2"
  using FoldIntConstUnary_correct [of "i32c (-2)" PTY_i32 OP_abs 2]
  by (simp add: wf_i32c i32c_int ref_unary_def neg_overflow_def wrap_def prim_pred_defs prim_size_defs)

theorem FoldSignExtend_witness:
  "\<exists>d. FoldSignExtendMIRConst OP_sext PTY_i64 8 (i32c 200) = Inr d \<and> wf_const d \<and> ic_type d = PTY_i64 \<and>
     int_of PTY_i64 (ic_value d) = -56"
  using FoldSignExtend_correct [of 8 PTY_i64 OP_sext "i32c 200"]
  by (simp add: int_types_def wrap_def prim_pred_defs prim_size_defs)

theorem FoldTypeCvtInt_witness:
  "\<exists>d. FoldTypeCvtInt (i32c (-2)) PTY_i32 PTY_u16 = Inr d \<and> wf_const d \<and> ic_type d = PTY_u16 \<and>
     int_of PTY_u16 (ic_value d) = 65534"
  using FoldTypeCvtInt_correct [of "i32c (-2)" PTY_i32 PTY_u16]
  by (simp add: wf_i32c i32c_int int_types_def wrap_def prim_pred_defs prim_size_defs)

end
