(* ===== verification/MirLower.thy ===== *)
theory MirLower
  imports IntFold "HOL-Library.Multiset"
begin

text \<open>
  Lowering of structured control flow: \<^verbatim>\<open>LowerBlock\<close>, \<^verbatim>\<open>LowerIfStmt\<close>,
  \<^verbatim>\<open>LowerWhileStmt\<close>, \<^verbatim>\<open>LowerDowhileStmt\<close>, \<^verbatim>\<open>LowerDoloopStmt\<close> and
  \<^verbatim>\<open>LowerBrCondition\<close> of \<^verbatim>\<open>maple_ir/src/mir_lower.cpp\<close>. A block is the list of
  its statements (\<^verbatim>\<open>AddStatement\<close> adds at the end, \<^verbatim>\<open>AppendStatementsFromBlock\<close>
  concatenates); the label table of the function is the number of its next label.
  The structured program has a big-step semantics, the lowered one runs on a machine
  with a program counter, and lowering is shown to keep the outcome.
\<close>

section \<open>Expressions and statements\<close>

datatype expr =
    Constval PrimType int64
  | Dread PrimType nat
  | Regread PrimType nat
  | Unary Opcode PrimType expr
  | Binary Opcode PrimType expr expr
  | Compare Opcode PrimType PrimType expr expr

text \<open>The statements that leave the body; \<^verbatim>\<open>retsub\<close> goes back behind the last \<^verbatim>\<open>gosub\<close>.\<close>

datatype leave = Lreturn | Lswitch | Lthrow | Lretsub

datatype do_var = DoPreg nat PrimType | DoSym nat PrimType

datatype stmt =
    Dassign nat expr
  | Regassign nat PrimType expr
  | Other nat
  | EvalStmt expr
  | Goto nat
  | Gosub nat
  | CondGoto bool expr nat
  | LabelStmt nat
  | RangeGoto expr int32 "(uint16 \<times> uint16) list"
  | Leave leave
  | If expr "stmt list" "stmt list option"
  | While expr "stmt list"
  | Dowhile "stmt list" expr
  | Doloop do_var expr expr expr "stmt list"
  | BlockStmt "stmt list"

abbreviation brtrue :: "expr \<Rightarrow> nat \<Rightarrow> stmt" where "brtrue \<equiv> CondGoto True"
abbreviation brfalse :: "expr \<Rightarrow> nat \<Rightarrow> stmt" where "brfalse \<equiv> CondGoto False"

section \<open>Lowering\<close>

definition OpCodeNoFallThrough :: "stmt \<Rightarrow> bool" where
  "OpCodeNoFallThrough st = (case st of Goto _ \<Rightarrow> True | Gosub _ \<Rightarrow> True | Leave _ \<Rightarrow> True | _ \<Rightarrow> False)"

text \<open>
  \<^verbatim>\<open>CreateCondGotoStmt\<close> takes the part to append from the lowered statement. With an
  empty then part it appends the else part, through a null pointer when there is
  none.
\<close>

definition CreateCondGotoStmt ::
    "bool \<Rightarrow> expr \<Rightarrow> stmt list \<Rightarrow> stmt list option \<Rightarrow> nat \<Rightarrow> (stmt list \<times> nat \<times> nat) result" where
  "CreateCondGotoStmt op c thenPart elsePart n =
     (let br = CondGoto op c n in
      if thenPart = [] then
        (case elsePart of None \<Rightarrow> Inl (Undefined ''null else part'') | Some e \<Rightarrow> Inr (br # e, n, Suc n))
      else Inr (br # thenPart, n, Suc n))"

definition CreateBrStmt ::
    "bool \<Rightarrow> expr \<Rightarrow> stmt list \<Rightarrow> stmt list option \<Rightarrow> nat \<Rightarrow> (stmt list \<times> nat) result" where
  "CreateBrStmt op c thenPart elsePart n =
     bind_result (CreateCondGotoStmt op c thenPart elsePart n)
       (\<lambda>(blk, l, n1). Inr (blk @ [LabelStmt l], n1))"

definition CreateBrFalseAndGotoStmt ::
    "expr \<Rightarrow> stmt list \<Rightarrow> stmt list option \<Rightarrow> nat \<Rightarrow> (stmt list \<times> nat) result" where
  "CreateBrFalseAndGotoStmt c thenPart elsePart n =
     bind_result (CreateCondGotoStmt False c thenPart elsePart n) (\<lambda>(blk, l, n1).
       if thenPart = [] then Inl (Undefined ''null last statement'')
       else (case elsePart of
           None \<Rightarrow> Inl (Undefined ''null else part'')
         | Some e \<Rightarrow>
             if OpCodeNoFallThrough (last thenPart) then Inr (blk @ LabelStmt l # e, n1)
             else Inr (blk @ Goto n1 # LabelStmt l # e @ [LabelStmt n1], Suc n1)))"

text \<open>
  The second half of \<^verbatim>\<open>LowerIfStmt\<close>: the emptiness of the parts was determined
  before they were lowered.
\<close>

definition lower_if ::
    "bool \<Rightarrow> bool \<Rightarrow> expr \<Rightarrow> stmt list \<Rightarrow> stmt list option \<Rightarrow> nat \<Rightarrow> (stmt list \<times> nat) result" where
  "lower_if thenEmpty elseEmpty c thenPart elsePart n =
     (if thenEmpty \<and> elseEmpty then Inr ([EvalStmt c], n)
      else if elseEmpty then CreateBrStmt False c thenPart elsePart n
      else if thenEmpty then CreateBrStmt True c thenPart elsePart n
      else CreateBrFalseAndGotoStmt c thenPart elsePart n)"

definition else_empty :: "stmt list option \<Rightarrow> bool" where
  "else_empty e = (case e of None \<Rightarrow> True | Some b \<Rightarrow> b = [])"

text \<open>\<^verbatim>\<open>LowerIfStmt(ifStmt, false)\<close>.\<close>

definition LowerIfStmt :: "expr \<Rightarrow> stmt list \<Rightarrow> stmt list option \<Rightarrow> nat \<Rightarrow> (stmt list \<times> nat) result" where
  "LowerIfStmt c thenPart elsePart n = lower_if (thenPart = []) (else_empty elsePart) c thenPart elsePart n"

definition lower_while :: "expr \<Rightarrow> stmt list \<Rightarrow> nat \<Rightarrow> stmt list \<times> nat" where
  "lower_while c body n =
     (brfalse c n # LabelStmt (Suc n) # body @ [brtrue c (Suc n), LabelStmt n], Suc (Suc n))"

definition lower_dowhile :: "stmt list \<Rightarrow> expr \<Rightarrow> nat \<Rightarrow> stmt list \<times> nat" where
  "lower_dowhile body c n = (LabelStmt n # body @ [brtrue c n], Suc n)"

definition start_assign :: "do_var \<Rightarrow> expr \<Rightarrow> stmt" where
  "start_assign v e = (case v of DoPreg r p \<Rightarrow> Regassign r p e | DoSym x p \<Rightarrow> Dassign x e)"

definition end_assign :: "do_var \<Rightarrow> expr \<Rightarrow> stmt" where
  "end_assign v incr =
     (case v of DoPreg r p \<Rightarrow> Regassign r p (Binary OP_add p incr (Regread p r))
      | DoSym x p \<Rightarrow> Dassign x (Binary OP_add p incr (Dread p x)))"

fun LowerStmt :: "stmt \<Rightarrow> nat \<Rightarrow> (stmt list \<times> nat) result"
  and LowerBlock :: "stmt list \<Rightarrow> nat \<Rightarrow> (stmt list \<times> nat) result" where
  "LowerStmt (If c t e) n =
     bind_result (LowerBlock t n) (\<lambda>(t1, n1).
       (case e of
          None \<Rightarrow> lower_if (t = []) True c t1 None n1
        | Some e0 \<Rightarrow> bind_result (LowerBlock e0 n1) (\<lambda>(e1, n2). lower_if (t = []) (e0 = []) c t1 (Some e1) n2)))"
| "LowerStmt (While c b) n = bind_result (LowerBlock b n) (\<lambda>(b1, n1). Inr (lower_while c b1 n1))"
| "LowerStmt (Dowhile b c) n = bind_result (LowerBlock b n) (\<lambda>(b1, n1). Inr (lower_dowhile b1 c n1))"
| "LowerStmt (Doloop v start cond incr b) n =
     bind_result (LowerBlock b n) (\<lambda>(b1, n1).
       let (w, n2) = lower_while cond (b1 @ [end_assign v incr]) n1 in Inr (start_assign v start # w, n2))"
| "LowerStmt (BlockStmt b) n = LowerBlock b n"
| "LowerStmt st n = Inr ([st], n)"
| "LowerBlock [] n = Inr ([], n)"
| "LowerBlock (st # ss) n =
     bind_result (LowerStmt st n) (\<lambda>(c1, n1).
       bind_result (LowerBlock ss n1) (\<lambda>(c2, n2). Inr (c1 @ c2, n2)))"

section \<open>Meaning of expressions\<close>

record state =
  vars :: "nat \<Rightarrow> int"
  regs :: "nat \<Rightarrow> int"

text \<open>
  \<open>None\<close> is a trap. \<^verbatim>\<open>OP_cand\<close> and \<^verbatim>\<open>OP_cior\<close> evaluate their second operand only
  when the first does not decide.
\<close>

fun eval :: "expr \<Rightarrow> state \<Rightarrow> int option" where
  "eval (Constval p v) s = Some (int_of p v)"
| "eval (Dread p x) s = Some (wrap p (vars s x))"
| "eval (Regread p r) s = Some (wrap p (regs s r))"
| "eval (Unary opcode p e) s =
     (case eval e s of None \<Rightarrow> None | Some x \<Rightarrow> map_option (wrap p) (ref_unary opcode x))"
| "eval (Binary opcode p a b) s =
     (case eval a s of None \<Rightarrow> None
      | Some x \<Rightarrow>
          if opcode = OP_cand then (if x = 0 then Some 0 else map_option (\<lambda>y. bool_int (y \<noteq> 0)) (eval b s))
          else if opcode = OP_cior then (if x \<noteq> 0 then Some 1 else map_option (\<lambda>y. bool_int (y \<noteq> 0)) (eval b s))
          else (case eval b s of None \<Rightarrow> None
                | Some y \<Rightarrow> map_option (wrap p) (ref_binary opcode p x y)))"
| "eval (Compare opcode resultType opndType a b) s =
     (case eval a s of None \<Rightarrow> None
      | Some x \<Rightarrow> (case eval b s of None \<Rightarrow> None
          | Some y \<Rightarrow> map_option (wrap resultType) (ref_compare opcode x y)))"

definition cond :: "expr \<Rightarrow> state \<Rightarrow> bool option" where
  "cond e s = map_option (\<lambda>x. x \<noteq> 0) (eval e s)"

section \<open>Outcomes and the structured semantics\<close>

datatype outcome =
    Normal state
  | Jumps nat state
  | Leaves leave state
  | Traps

text \<open>
  \<open>other\<close> is what the statements that lowering passes through (calls, stores and the
  rest) do to the state; \<open>None\<close> is a trap. \<open>finally_block\<close> is what the block behind a
  finally label does: a \<^verbatim>\<open>gosub\<close> to it is a call, so control comes back to the next
  statement when the block ends in \<^verbatim>\<open>retsub\<close>; else it leaves the body the way the block
  does (\<^verbatim>\<open>doc/en/MapleIRDesign.md\<close>, gosub and retsub).
\<close>

record extern =
  other :: "nat \<Rightarrow> state \<Rightarrow> state option"
  finally_block :: "nat \<Rightarrow> state \<Rightarrow> (leave \<times> state) option"

definition gosub :: "extern \<Rightarrow> nat \<Rightarrow> state \<Rightarrow> outcome" where
  "gosub ext l s =
     (case finally_block ext l s of
        None \<Rightarrow> Traps
      | Some (k, t) \<Rightarrow> if k = Lretsub then Normal t else Leaves k t)"

definition atomic :: "extern \<Rightarrow> stmt \<Rightarrow> state \<Rightarrow> outcome option" where
  "atomic ext st s =
     (case st of
        Dassign x e \<Rightarrow> Some (case eval e s of None \<Rightarrow> Traps | Some v \<Rightarrow> Normal (s\<lparr>vars := (vars s)(x := v)\<rparr>))
      | Regassign r p e \<Rightarrow> Some (case eval e s of None \<Rightarrow> Traps | Some v \<Rightarrow> Normal (s\<lparr>regs := (regs s)(r := v)\<rparr>))
      | Other k \<Rightarrow> Some (case other ext k s of None \<Rightarrow> Traps | Some t \<Rightarrow> Normal t)
      | EvalStmt e \<Rightarrow> Some (case eval e s of None \<Rightarrow> Traps | Some v \<Rightarrow> Normal s)
      | LabelStmt l \<Rightarrow> Some (Normal s)
      | Goto l \<Rightarrow> Some (Jumps l s)
      | Gosub l \<Rightarrow> Some (gosub ext l s)
      | CondGoto b e l \<Rightarrow> Some (case cond e s of None \<Rightarrow> Traps | Some v \<Rightarrow> if v = b then Jumps l s else Normal s)
      | RangeGoto e off tab \<Rightarrow> Some (case eval e s of None \<Rightarrow> Traps
          | Some x \<Rightarrow> (let i = x - uint (fst (hd tab)) - sint off in
              if tab \<noteq> [] \<and> 0 \<le> i \<and> i < int (length tab) then Jumps (unat (snd (tab ! nat i))) s else Traps))
      | Leave k \<Rightarrow> Some (Leaves k s)
      | _ \<Rightarrow> None)"

definition is_normal :: "outcome \<Rightarrow> bool" where
  "is_normal r = (case r of Normal _ \<Rightarrow> True | _ \<Rightarrow> False)"

inductive exec_stmt :: "extern \<Rightarrow> stmt \<Rightarrow> state \<Rightarrow> outcome \<Rightarrow> bool"
  and exec :: "extern \<Rightarrow> stmt list \<Rightarrow> state \<Rightarrow> outcome \<Rightarrow> bool"
  for ext :: extern where
  Atomic: "atomic ext st s = Some r \<Longrightarrow> exec_stmt ext st s r"
| IfTrap: "cond c s = None \<Longrightarrow> exec_stmt ext (If c t e) s Traps"
| IfTrue: "cond c s = Some True \<Longrightarrow> exec ext t s r \<Longrightarrow> exec_stmt ext (If c t e) s r"
| IfFalse: "cond c s = Some False \<Longrightarrow> exec ext (case e of None \<Rightarrow> [] | Some b \<Rightarrow> b) s r \<Longrightarrow>
     exec_stmt ext (If c t e) s r"
| WhileTrap: "cond c s = None \<Longrightarrow> exec_stmt ext (While c b) s Traps"
| WhileFalse: "cond c s = Some False \<Longrightarrow> exec_stmt ext (While c b) s (Normal s)"
| WhileTrue: "cond c s = Some True \<Longrightarrow> exec ext b s (Normal s1) \<Longrightarrow> exec_stmt ext (While c b) s1 r \<Longrightarrow>
     exec_stmt ext (While c b) s r"
| WhileLeave: "cond c s = Some True \<Longrightarrow> exec ext b s r \<Longrightarrow> \<not> is_normal r \<Longrightarrow> exec_stmt ext (While c b) s r"
| DowhileLeave: "exec ext b s r \<Longrightarrow> \<not> is_normal r \<Longrightarrow> exec_stmt ext (Dowhile b c) s r"
| DowhileTrap: "exec ext b s (Normal s1) \<Longrightarrow> cond c s1 = None \<Longrightarrow> exec_stmt ext (Dowhile b c) s Traps"
| DowhileEnd: "exec ext b s (Normal s1) \<Longrightarrow> cond c s1 = Some False \<Longrightarrow> exec_stmt ext (Dowhile b c) s (Normal s1)"
| DowhileLoop: "exec ext b s (Normal s1) \<Longrightarrow> cond c s1 = Some True \<Longrightarrow> exec_stmt ext (Dowhile b c) s1 r \<Longrightarrow>
     exec_stmt ext (Dowhile b c) s r"
| DoloopTrap: "atomic ext (start_assign v e) s = Some Traps \<Longrightarrow> exec_stmt ext (Doloop v e c incr b) s Traps"
| Doloop: "atomic ext (start_assign v e) s = Some (Normal s1) \<Longrightarrow>
     exec_stmt ext (While c (b @ [end_assign v incr])) s1 r \<Longrightarrow> exec_stmt ext (Doloop v e c incr b) s r"
| Block: "exec ext b s r \<Longrightarrow> exec_stmt ext (BlockStmt b) s r"
| Nil: "exec ext [] s (Normal s)"
| Cons: "exec_stmt ext st s (Normal s1) \<Longrightarrow> exec ext ss s1 r \<Longrightarrow> exec ext (st # ss) s r"
| ConsLeave: "exec_stmt ext st s r \<Longrightarrow> \<not> is_normal r \<Longrightarrow> exec ext (st # ss) s r"

section \<open>The machine of the lowered code\<close>

datatype config =
    At nat state
  | Exited nat state
  | Left leave state
  | Stuck

fun labels :: "stmt list \<Rightarrow> nat list" where
  "labels [] = []"
| "labels (LabelStmt l # ss) = l # labels ss"
| "labels (_ # ss) = labels ss"

fun find_label :: "stmt list \<Rightarrow> nat \<Rightarrow> nat option" where
  "find_label [] l = None"
| "find_label (st # ss) l = (if st = LabelStmt l then Some 0 else map_option Suc (find_label ss l))"

text \<open>A jump goes to the label of the block, or leaves the block when it has no such label.\<close>

definition jump :: "stmt list \<Rightarrow> nat \<Rightarrow> state \<Rightarrow> config" where
  "jump prog l s = (case find_label prog l of None \<Rightarrow> Exited l s | Some i \<Rightarrow> At i s)"

definition resume :: "stmt list \<Rightarrow> nat \<Rightarrow> outcome \<Rightarrow> config" where
  "resume prog pc r =
     (case r of Normal s \<Rightarrow> At pc s | Jumps l s \<Rightarrow> jump prog l s | Leaves k s \<Rightarrow> Left k s | Traps \<Rightarrow> Stuck)"

fun step :: "extern \<Rightarrow> stmt list \<Rightarrow> config \<Rightarrow> config" where
  "step ext prog (At pc s) =
     (if pc < length prog then
        (case atomic ext (prog ! pc) s of None \<Rightarrow> Stuck | Some r \<Rightarrow> resume prog (Suc pc) r)
      else At pc s)"
| "step ext prog c = c"

definition reaches :: "extern \<Rightarrow> stmt list \<Rightarrow> config \<Rightarrow> config \<Rightarrow> bool" where
  "reaches ext prog c d \<longleftrightarrow> (\<exists>k. (step ext prog ^^ k) c = d)"

section \<open>Runs of the machine\<close>

lemma reaches_refl [intro]: "reaches ext prog c c"
  unfolding reaches_def by (rule exI [of _ 0]) simp

lemma reaches_trans: "reaches ext prog a b \<Longrightarrow> reaches ext prog b c \<Longrightarrow> reaches ext prog a c"
  unfolding reaches_def by (metis comp_apply funpow_add)

lemma reaches_step: "reaches ext prog (step ext prog a) b \<Longrightarrow> reaches ext prog a b"
  unfolding reaches_def by (metis comp_apply funpow_Suc_right)

text \<open>A run that ends elsewhere goes through the first step.\<close>

lemma reaches_first: "reaches ext prog a b \<Longrightarrow> a \<noteq> b \<Longrightarrow> reaches ext prog (step ext prog a) b"
proof -
  assume "reaches ext prog a b" "a \<noteq> b"
  then obtain k where k: "(step ext prog ^^ k) a = b" by (auto simp: reaches_def)
  with \<open>a \<noteq> b\<close> obtain j where "k = Suc j" by (cases k) auto
  with k show ?thesis by (auto simp: reaches_def funpow_swap1)
qed

lemma labels_append [simp]: "labels (a @ b) = labels a @ labels b"
proof (induction a)
  case (Cons x a)
  then show ?case by (cases x) simp_all
qed simp

lemma find_label_none: "find_label prog l = None \<longleftrightarrow> l \<notin> set (labels prog)"
proof (induction prog)
  case (Cons x prog)
  then show ?case by (cases x) auto
qed simp

lemma find_label_at: "l \<notin> set (labels a) \<Longrightarrow> find_label (a @ LabelStmt l # b) l = Some (length a)"
proof (induction a)
  case (Cons x a)
  then show ?case by (cases x) auto
qed simp

lemma jump_out: "l \<notin> set (labels prog) \<Longrightarrow> jump prog l s = Exited l s"
  by (simp add: jump_def find_label_none [THEN iffD2])

lemma jump_at: "distinct (labels (a @ LabelStmt l # b)) \<Longrightarrow> jump (a @ LabelStmt l # b) l s = At (length a) s"
  by (simp add: jump_def find_label_at)

text \<open>
  \<open>sem_ok C s r\<close>: wherever the code \<open>C\<close> stands in a block, a run that enters it in
  state \<open>s\<close> ends with outcome \<open>r\<close>: just behind the code, or outside the block.
\<close>

definition final :: "nat \<Rightarrow> outcome \<Rightarrow> config" where
  "final pc r =
     (case r of Normal s \<Rightarrow> At pc s | Jumps l s \<Rightarrow> Exited l s | Leaves k s \<Rightarrow> Left k s | Traps \<Rightarrow> Stuck)"

definition outside :: "stmt list \<Rightarrow> outcome \<Rightarrow> bool" where
  "outside prog r = (case r of Jumps l _ \<Rightarrow> l \<notin> set (labels prog) | _ \<Rightarrow> True)"

definition sem_ok :: "extern \<Rightarrow> stmt list \<Rightarrow> state \<Rightarrow> outcome \<Rightarrow> bool" where
  "sem_ok ext C s r \<longleftrightarrow>
     (\<forall>P Q. distinct (labels (P @ C @ Q)) \<longrightarrow> outside (P @ C @ Q) r \<longrightarrow>
        reaches ext (P @ C @ Q) (At (length P) s) (final (length P + length C) r))"

lemma sem_okI:
  assumes "\<And>P Q. distinct (labels (P @ C @ Q)) \<Longrightarrow> outside (P @ C @ Q) r \<Longrightarrow>
     reaches ext (P @ C @ Q) (At (length P) s) (final (length P + length C) r)"
  shows "sem_ok ext C s r"
  using assms by (simp add: sem_ok_def)

lemma sem_okD:
  assumes "sem_ok ext C s r" "distinct (labels (P @ C @ Q))" "outside (P @ C @ Q) r"
  shows "reaches ext (P @ C @ Q) (At (length P) s) (final (length P + length C) r)"
  using assms by (simp add: sem_ok_def)

lemma resume_final: "outside prog r \<Longrightarrow> resume prog pc r = final pc r"
  by (cases r) (simp_all add: resume_def final_def outside_def jump_out)

lemma outside_normal [simp]: "outside prog (Normal s)" "outside prog Traps" "outside prog (Leaves k s)"
  by (simp_all add: outside_def)

lemma final_simps [simp]: "final pc (Normal s) = At pc s" "final pc Traps = Stuck"
  by (simp_all add: final_def)

lemma is_normal_simps [simp]: "is_normal (Normal s)" "\<not> is_normal (Jumps l s)" "\<not> is_normal (Leaves k s)"
  "\<not> is_normal Traps"
  by (simp_all add: is_normal_def)

lemma final_leave: "\<not> is_normal r \<Longrightarrow> final pc r = final pc' r"
  by (cases r) (simp_all add: final_def)

lemma step_at: "step ext (P @ st # Q) (At (length P) s) =
    (case atomic ext st s of None \<Rightarrow> Stuck | Some r \<Rightarrow> resume (P @ st # Q) (Suc (length P)) r)"
  by simp

lemma sem_single: "atomic ext st s = Some r \<Longrightarrow> sem_ok ext [st] s r"
  by (rule sem_okI, rule reaches_step) (auto simp: resume_final)

lemma sem_nil: "sem_ok ext [] s (Normal s)"
  by (rule sem_okI) auto

lemma sem_seq:
  assumes 1: "sem_ok ext C1 s (Normal s')" and 2: "sem_ok ext C2 s' r"
  shows "sem_ok ext (C1 @ C2) s r"
proof (rule sem_okI)
  fix P Q assume d: "distinct (labels (P @ (C1 @ C2) @ Q))" "outside (P @ (C1 @ C2) @ Q) r"
  have "reaches ext (P @ C1 @ (C2 @ Q)) (At (length P) s) (At (length P + length C1) s')"
    using sem_okD [OF 1, of P "C2 @ Q"] d by simp
  moreover have "reaches ext ((P @ C1) @ C2 @ Q) (At (length (P @ C1)) s') (final (length (P @ C1) + length C2) r)"
    using sem_okD [OF 2, of "P @ C1" Q] d by simp
  ultimately show "reaches ext (P @ (C1 @ C2) @ Q) (At (length P) s) (final (length P + length (C1 @ C2)) r)"
    by (auto intro: reaches_trans simp: add.assoc)
qed

lemma sem_leave:
  assumes 1: "sem_ok ext C1 s r" "\<not> is_normal r"
  shows "sem_ok ext (C1 @ C2) s r"
proof (rule sem_okI)
  fix P Q assume d: "distinct (labels (P @ (C1 @ C2) @ Q))" "outside (P @ (C1 @ C2) @ Q) r"
  show "reaches ext (P @ (C1 @ C2) @ Q) (At (length P) s) (final (length P + length (C1 @ C2)) r)"
    using sem_okD [OF 1(1), of P "C2 @ Q"] d final_leave [OF 1(2)] by (metis append.assoc)
qed

lemma atomic_cond: "atomic ext (CondGoto b c l) s =
    Some (case cond c s of None \<Rightarrow> Traps | Some v \<Rightarrow> if v = b then Jumps l s else Normal s)"
  by (simp add: atomic_def)

text \<open>A jump forward over code to a label behind it.\<close>

lemma sem_skip:
  assumes j: "atomic ext st s = Some (Jumps l s)" and C: "sem_ok ext C2 s r"
  shows "sem_ok ext (st # C1 @ LabelStmt l # C2) s r"
proof (rule sem_okI)
  fix P Q assume d: "distinct (labels (P @ (st # C1 @ LabelStmt l # C2) @ Q))"
    "outside (P @ (st # C1 @ LabelStmt l # C2) @ Q) r"
  let ?prog = "P @ (st # C1 @ LabelStmt l # C2) @ Q"
  have e: "?prog = (P @ st # C1) @ LabelStmt l # (C2 @ Q)" by simp
  have "step ext ?prog (At (length P) s) = jump ?prog l s" using j by (simp add: resume_def)
  also have "\<dots> = At (length (P @ st # C1)) s" unfolding e by (rule jump_at) (use d in simp)
  finally have 1: "step ext ?prog (At (length P) s) = At (length (P @ st # C1)) s" .
  have 2: "step ext ?prog (At (length (P @ st # C1)) s) = At (Suc (length (P @ st # C1))) s"
    unfolding e step_at by (simp add: atomic_def resume_def)
  have "reaches ext ((P @ st # C1 @ [LabelStmt l]) @ C2 @ Q) (At (length (P @ st # C1 @ [LabelStmt l])) s)
      (final (length (P @ st # C1 @ [LabelStmt l]) + length C2) r)"
    using sem_okD [OF C, of "P @ st # C1 @ [LabelStmt l]" Q] d by simp
  then have "reaches ext ?prog (At (Suc (length (P @ st # C1))) s)
      (final (length P + length (st # C1 @ LabelStmt l # C2)) r)" by (simp add: add.assoc)
  then show "reaches ext ?prog (At (length P) s) (final (length P + length (st # C1 @ LabelStmt l # C2)) r)"
    by (metis 1 2 reaches_step)
qed


lemma find_label_less: "find_label prog l = Some i \<Longrightarrow> i < length prog"
  by (induction prog l arbitrary: i rule: find_label.induct) (auto split: if_splits)

definition inside :: "stmt list \<Rightarrow> config \<Rightarrow> bool" where
  "inside prog c = (case c of At pc _ \<Rightarrow> pc < length prog | _ \<Rightarrow> True)"

definition is_gosub :: "stmt \<Rightarrow> bool" where
  "is_gosub st = (case st of Gosub _ \<Rightarrow> True | _ \<Rightarrow> False)"

text \<open>Code that ends in a jump, but not in a \<^verbatim>\<open>gosub\<close>, is never left at its end.\<close>

lemma step_inside:
  assumes "prog \<noteq> []" "OpCodeNoFallThrough (last prog)" "\<not> is_gosub (last prog)" "inside prog c"
  shows "inside prog (step ext prog c)"
proof (cases c)
  case (At pc s)
  with assms have pc: "pc < length prog" by (simp add: inside_def)
  show ?thesis
  proof (cases "atomic ext (prog ! pc) s")
    case None
    with At pc show ?thesis by (simp add: inside_def)
  next
    case (Some r)
    have "Suc pc < length prog" if "r = Normal s'" for s'
    proof (rule ccontr)
      assume "\<not> Suc pc < length prog"
      with pc have "prog ! pc = last prog" using assms(1) by (metis Suc_lessI diff_Suc_1 last_conv_nth)
      with assms(2,3) Some that show False
        by (cases "last prog") (simp_all add: OpCodeNoFallThrough_def is_gosub_def atomic_def)
    qed
    with At pc Some show ?thesis
      by (cases r) (auto simp: inside_def resume_def jump_def split: option.splits dest: find_label_less)
  qed
qed (use assms in simp_all)

lemma no_fall_through:
  assumes "prog \<noteq> []" "OpCodeNoFallThrough (last prog)" "\<not> is_gosub (last prog)" "distinct (labels prog)"
    "sem_ok ext prog s r"
  shows "\<not> is_normal r"
proof
  assume "is_normal r"
  then obtain s1 where r: "r = Normal s1" by (cases r) simp_all
  have "reaches ext prog (At 0 s) (At (length prog) s1)"
    using sem_okD [OF assms(5), of "[]" "[]"] assms(4) r by simp
  then obtain k where k: "(step ext prog ^^ k) (At 0 s) = At (length prog) s1" by (auto simp: reaches_def)
  have "inside prog ((step ext prog ^^ k) (At 0 s))"
    using assms(1-3) by (induction k) (auto simp: inside_def [of _ "At 0 s"] step_inside)
  with k show False by (simp add: inside_def)
qed

section \<open>Conditionals\<close>

lemma sem_distinct:
  assumes "distinct (labels C) \<Longrightarrow> sem_ok ext C s r" shows "sem_ok ext C s r"
  using assms by (auto simp: sem_ok_def)

lemma sem_label:
  assumes "sem_ok ext C s r"
  shows "sem_ok ext (C @ [LabelStmt l]) s r"
proof (cases r)
  case (Normal s1)
  have "sem_ok ext [LabelStmt l] s1 (Normal s1)" by (rule sem_single) (simp add: atomic_def)
  with assms Normal show ?thesis by (auto intro: sem_seq)
qed (use assms in \<open>auto intro: sem_leave\<close>)

lemma sem_trap: "atomic ext st s = Some Traps \<Longrightarrow> sem_ok ext (st # C) s Traps"
  using sem_leave [OF sem_single, of ext st s Traps C] by simp

lemma sem_next: "atomic ext st s = Some (Normal s') \<Longrightarrow> sem_ok ext C s' r \<Longrightarrow> sem_ok ext (st # C) s r"
  using sem_seq [OF sem_single, of ext st s s' C r] by simp

lemma CreateBrStmt_ok:
  assumes "CreateBrStmt b c t e n = Inr (C, n')"
  obtains body where "C = CondGoto b c n # body @ [LabelStmt n]" "n' = Suc n"
    "if t = [] then e = Some body else body = t"
  using assms
  by (auto simp: CreateBrStmt_def CreateCondGotoStmt_def Let_def split: if_splits option.splits)

lemma sem_br:
  assumes "cond c s = Some v" "if v = b then r = Normal s else sem_ok ext body s r"
  shows "sem_ok ext (CondGoto b c l # body @ [LabelStmt l]) s r"
proof (cases "v = b")
  case True
  with assms sem_skip [OF _ sem_nil, of ext "CondGoto b c l" s l body] show ?thesis
    by (simp add: atomic_cond)
next
  case False
  with assms show ?thesis by (auto simp: atomic_cond intro!: sem_next sem_label)
qed

lemma sem_if_else:
  assumes c: "cond c s = Some v" and t: "v \<Longrightarrow> sem_ok ext t s r" and e: "\<not> v \<Longrightarrow> sem_ok ext e s r"
    and ne: "t \<noteq> []"
  shows "OpCodeNoFallThrough (last t) \<Longrightarrow> (is_gosub (last t) \<Longrightarrow> \<not> is_normal r) \<Longrightarrow>
      sem_ok ext (brfalse c l # t @ LabelStmt l # e) s r"
    and "sem_ok ext (brfalse c l # t @ Goto m # LabelStmt l # e @ [LabelStmt m]) s r"
proof -
  show "sem_ok ext (brfalse c l # t @ LabelStmt l # e) s r" if nf: "OpCodeNoFallThrough (last t)" and g: "is_gosub (last t) \<Longrightarrow> \<not> is_normal r"
  proof (cases v)
    case True
    show ?thesis
    proof (rule sem_distinct)
      assume "distinct (labels (brfalse c l # t @ LabelStmt l # e))"
      then have "\<not> is_normal r" using no_fall_through [OF ne nf _ _ t] g True by (cases "is_gosub (last t)") simp_all
      then show ?thesis using c True t by (auto simp: atomic_cond intro!: sem_next sem_leave)
    qed
  next
    case False
    with c e show ?thesis by (auto simp: atomic_cond intro: sem_skip)
  qed
  show "sem_ok ext (brfalse c l # t @ Goto m # LabelStmt l # e @ [LabelStmt m]) s r"
  proof (cases v)
    case True
    have "sem_ok ext (t @ Goto m # LabelStmt l # e @ [LabelStmt m]) s r"
    proof (cases "is_normal r")
      case True
      then obtain s1 where r: "r = Normal s1" by (cases r) simp_all
      have "sem_ok ext (Goto m # (LabelStmt l # e) @ [LabelStmt m]) s1 (Normal s1)"
        by (rule sem_skip [OF _ sem_nil]) (simp add: atomic_def)
      then show ?thesis using t \<open>v\<close> r by (auto intro: sem_seq)
    qed (use t \<open>v\<close> in \<open>auto intro: sem_leave\<close>)
    with c True show ?thesis by (auto simp: atomic_cond intro!: sem_next)
  next
    case False
    with c e have "sem_ok ext (brfalse c l # (t @ [Goto m]) @ LabelStmt l # (e @ [LabelStmt m])) s r"
      by (intro sem_skip) (auto simp: atomic_cond intro: sem_label)
    then show ?thesis by simp
  qed
qed


lemma sem_nil_iff: "sem_ok ext [] s r \<longleftrightarrow> r = Normal s"
proof
  assume "sem_ok ext [] s r"
  then have "reaches ext [] (At 0 s) (final 0 r)"
    using sem_okD [of ext "[]" s r "[]" "[]"] by (cases r) (simp_all add: outside_def)
  moreover have "(step ext [] ^^ k) (At 0 s) = At 0 s" for k by (induction k) simp_all
  ultimately have "final 0 r = At 0 s" by (auto simp: reaches_def)
  then show "r = Normal s" by (cases r) (simp_all add: final_def)
qed (simp add: sem_nil)

definition else_part :: "stmt list option \<Rightarrow> stmt list" where
  "else_part e = (case e of None \<Rightarrow> [] | Some b \<Rightarrow> b)"

lemma else_part_simps [simp]: "else_part None = []" "else_part (Some b) = b"
  by (simp_all add: else_part_def)

lemma CreateBrFalseAndGotoStmt_Inr:
  "CreateBrFalseAndGotoStmt c t e n = Inr (C, n') \<longleftrightarrow>
     (\<exists>b. t \<noteq> [] \<and> e = Some b \<and>
       (if OpCodeNoFallThrough (last t) then C = brfalse c n # t @ LabelStmt n # b \<and> n' = Suc n
        else C = brfalse c n # t @ Goto (Suc n) # LabelStmt n # b @ [LabelStmt (Suc n)] \<and> n' = Suc (Suc n)))"
  by (cases "t = []"; cases e)
    (auto simp: CreateBrFalseAndGotoStmt_def CreateCondGotoStmt_def Let_def)

lemma lower_if_ok:
  assumes l: "lower_if te ee c t1 e1 n = Inr (C, n')"
    and te: "te \<Longrightarrow> t1 = []" and ee: "ee \<Longrightarrow> else_part e1 = []"
    and g: "t1 \<noteq> [] \<Longrightarrow> \<not> ee \<Longrightarrow> is_gosub (last t1) \<Longrightarrow> \<not> is_normal r"
    and c: "cond c s = Some v" and r: "sem_ok ext (if v then t1 else else_part e1) s r"
  shows "sem_ok ext C s r"
proof -
  consider "te" "ee" "C = [EvalStmt c]" | "\<not> te" "ee" "CreateBrStmt False c t1 e1 n = Inr (C, n')"
    | "te" "\<not> ee" "CreateBrStmt True c t1 e1 n = Inr (C, n')"
    | "\<not> ee" "CreateBrFalseAndGotoStmt c t1 e1 n = Inr (C, n')"
    using l by (auto simp: lower_if_def split: if_splits)
  then show ?thesis
  proof cases
    case 1
    with r te ee have "r = Normal s" by (simp add: sem_nil_iff split: if_splits)
    moreover obtain x where "eval c s = Some x" using c by (auto simp: cond_def)
    ultimately show ?thesis using 1 by (auto simp: atomic_def intro!: sem_single)
  next
    case 2
    from 2(3) obtain body where C: "C = brfalse c n # body @ [LabelStmt n]"
      and b: "if t1 = [] then e1 = Some body else body = t1"
      by (rule CreateBrStmt_ok)
    have "body = t1" using b ee 2(2) by (auto split: if_splits)
    with r ee 2 have "if v = False then r = Normal s else sem_ok ext body s r"
      by (simp add: sem_nil_iff split: if_splits)
    then show ?thesis unfolding C using c by (intro sem_br)
  next
    case 3
    from 3(3) obtain body where C: "C = brtrue c n # body @ [LabelStmt n]"
      and b: "if t1 = [] then e1 = Some body else body = t1"
      by (rule CreateBrStmt_ok)
    with r te 3 have "if v = True then r = Normal s else sem_ok ext body s r"
      by (simp add: sem_nil_iff split: if_splits)
    then show ?thesis unfolding C using c by (intro sem_br)
  next
    case 4
    then obtain b where b: "t1 \<noteq> []" "e1 = Some b"
      "if OpCodeNoFallThrough (last t1) then C = brfalse c n # t1 @ LabelStmt n # b
       else C = brfalse c n # t1 @ Goto (Suc n) # LabelStmt n # b @ [LabelStmt (Suc n)]"
      by (auto simp: CreateBrFalseAndGotoStmt_Inr split: if_splits)
    have "v \<Longrightarrow> sem_ok ext t1 s r" "\<not> v \<Longrightarrow> sem_ok ext b s r" using r b(2) by simp_all
    note ok = sem_if_else [OF c this b(1)]
    from b(3) ok g [OF b(1) 4(1)] show ?thesis by (cases "OpCodeNoFallThrough (last t1)") simp_all
  qed
qed

lemma lower_if_trap:
  assumes l: "lower_if te ee c t1 e1 n = Inr (C, n')" and c: "cond c s = None"
  shows "sem_ok ext C s Traps"
proof -
  have "\<exists>st C'. C = st # C' \<and> atomic ext st s = Some Traps"
    using l c
    by (auto simp: lower_if_def CreateBrFalseAndGotoStmt_Inr atomic_cond atomic_def cond_def
        split: if_splits elim!: CreateBrStmt_ok)
  then show ?thesis by (auto intro: sem_trap)
qed

section \<open>Loops\<close>

lemma while_ok:
  assumes C: "lower_while c B n = (C, n')"
  shows "cond c s = None \<Longrightarrow> sem_ok ext C s Traps"
    and "cond c s = Some False \<Longrightarrow> sem_ok ext C s (Normal s)"
    and "cond c s = Some True \<Longrightarrow> sem_ok ext B s r \<Longrightarrow> \<not> is_normal r \<Longrightarrow> sem_ok ext C s r"
    and "cond c s = Some True \<Longrightarrow> sem_ok ext B s (Normal s1) \<Longrightarrow> sem_ok ext C s1 r \<Longrightarrow> sem_ok ext C s r"
proof -
  have C': "C = brfalse c n # LabelStmt (Suc n) # B @ [brtrue c (Suc n), LabelStmt n]"
    using C by (simp add: lower_while_def)
  show "sem_ok ext C s Traps" if "cond c s = None"
    unfolding C' using that by (intro sem_trap) (simp add: atomic_cond)
  show "sem_ok ext C s (Normal s)" if "cond c s = Some False"
    unfolding C'
    using that sem_skip [OF _ sem_nil, of ext "brfalse c n" s n "LabelStmt (Suc n) # B @ [brtrue c (Suc n)]"]
    by (simp add: atomic_cond)
  show "sem_ok ext C s r" if "cond c s = Some True" "sem_ok ext B s r" "\<not> is_normal r"
    unfolding C' using that
    by (intro sem_next [where s' = s] sem_leave) (simp_all add: atomic_cond atomic_def)
  show "sem_ok ext C s r" if c: "cond c s = Some True" and B: "sem_ok ext B s (Normal s1)"
    and rest: "sem_ok ext C s1 r"
  proof (rule sem_okI)
    fix P Q assume d: "distinct (labels (P @ C @ Q))" "outside (P @ C @ Q) r"
    let ?prog = "P @ C @ Q" and ?top = "length P" and ?bot = "length P + 2 + length B"
    let ?T = "[brfalse c n, LabelStmt (Suc n)]" and ?E = "[brtrue c (Suc n), LabelStmt n]"
    have p1: "?prog = (P @ ?T) @ B @ (?E @ Q)" by (simp add: C')
    have enter: "reaches ext ?prog (At ?top s) (At (length (P @ ?T)) s)"
      by (rule reaches_step, rule reaches_step)
        (auto simp: C' nth_append atomic_def c cond_def[symmetric] resume_def)
    have body: "reaches ext ?prog (At (length (P @ ?T)) s) (At ?bot s1)"
      using sem_okD [OF B, of "P @ ?T" "?E @ Q"] d unfolding p1 [symmetric] by simp
    have same: "step ext ?prog (At ?bot s1) = step ext ?prog (At ?top s1)"
    proof -
      have "?prog ! ?bot = brtrue c (Suc n)" "?prog ! ?top = brfalse c n" "?bot < length ?prog" "?top < length ?prog"
        by (simp_all add: C' nth_append)
      moreover have "jump ?prog n s1 = At (Suc ?bot) s1"
        using jump_at [of "P @ ?T @ B @ [brtrue c (Suc n)]" n Q s1] d by (simp add: C')
      moreover have "jump ?prog (Suc n) s1 = At (Suc ?top) s1"
        using jump_at [of "P @ [brfalse c n]" "Suc n" "B @ ?E @ Q" s1] d by (simp add: C')
      ultimately show ?thesis
        by (simp add: atomic_cond resume_def split: option.splits)
    qed
    have "At ?top s1 \<noteq> final (?top + length C) r" by (cases r) (simp_all add: final_def C')
    with sem_okD [OF rest d] have "reaches ext ?prog (step ext ?prog (At ?top s1)) (final (?top + length C) r)"
      by (rule reaches_first)
    then have "reaches ext ?prog (At ?bot s1) (final (?top + length C) r)"
      unfolding same [symmetric] by (rule reaches_step)
    with enter body show "reaches ext ?prog (At ?top s) (final (?top + length C) r)"
      by (blast intro: reaches_trans)
  qed
qed

lemma dowhile_ok:
  assumes C: "lower_dowhile B c n = (C, n')"
  shows "sem_ok ext B s r \<Longrightarrow> \<not> is_normal r \<Longrightarrow> sem_ok ext C s r"
    and "sem_ok ext B s (Normal s1) \<Longrightarrow> cond c s1 = None \<Longrightarrow> sem_ok ext C s Traps"
    and "sem_ok ext B s (Normal s1) \<Longrightarrow> cond c s1 = Some False \<Longrightarrow> sem_ok ext C s (Normal s1)"
    and "sem_ok ext B s (Normal s1) \<Longrightarrow> cond c s1 = Some True \<Longrightarrow> sem_ok ext C s1 r \<Longrightarrow> sem_ok ext C s r"
proof -
  have C': "C = LabelStmt n # B @ [brtrue c n]" using C by (simp add: lower_dowhile_def)
  show "sem_ok ext C s r" if "sem_ok ext B s r" "\<not> is_normal r"
    unfolding C' using that by (intro sem_next [where s' = s] sem_leave) (simp_all add: atomic_def)
  show "sem_ok ext C s Traps" if "sem_ok ext B s (Normal s1)" "cond c s1 = None"
    unfolding C' using that
    by (intro sem_next [where s' = s] sem_seq [where s' = s1] sem_single) (simp_all add: atomic_def)
  show "sem_ok ext C s (Normal s1)" if "sem_ok ext B s (Normal s1)" "cond c s1 = Some False"
    unfolding C' using that
    by (intro sem_next [where s' = s] sem_seq [where s' = s1] sem_single) (simp_all add: atomic_def)
  show "sem_ok ext C s r" if B: "sem_ok ext B s (Normal s1)" and c: "cond c s1 = Some True"
    and rest: "sem_ok ext C s1 r"
  proof (rule sem_okI)
    fix P Q assume d: "distinct (labels (P @ C @ Q))" "outside (P @ C @ Q) r"
    let ?prog = "P @ C @ Q" and ?top = "length P" and ?bot = "length P + 1 + length B"
    have p1: "?prog = (P @ [LabelStmt n]) @ B @ ([brtrue c n] @ Q)" by (simp add: C')
    have enter: "reaches ext ?prog (At ?top s) (At (length (P @ [LabelStmt n])) s)"
      by (rule reaches_step) (auto simp: C' nth_append atomic_def resume_def)
    have body: "reaches ext ?prog (At (length (P @ [LabelStmt n])) s) (At ?bot s1)"
      using sem_okD [OF B, of "P @ [LabelStmt n]" "[brtrue c n] @ Q"] d unfolding p1 [symmetric] by simp
    have "step ext ?prog (At ?bot s1) = jump ?prog n s1"
      using c by (simp add: C' nth_append atomic_cond resume_def)
    also have "\<dots> = At ?top s1" using jump_at [of P n "B @ [brtrue c n] @ Q" s1] d by (simp add: C')
    finally have "reaches ext ?prog (At ?bot s1) (final (?top + length C) r)"
      using sem_okD [OF rest d] by (metis reaches_step)
    with enter body show "reaches ext ?prog (At ?top s) (final (?top + length C) r)"
      by (blast intro: reaches_trans)
  qed
qed


section \<open>Lowering keeps the outcome\<close>

definition flat :: "stmt \<Rightarrow> bool" where
  "flat st = (case st of If _ _ _ \<Rightarrow> False | While _ _ \<Rightarrow> False | Dowhile _ _ \<Rightarrow> False
     | Doloop _ _ _ _ _ \<Rightarrow> False | BlockStmt _ \<Rightarrow> False | _ \<Rightarrow> True)"

lemma LowerStmt_flat: "flat st \<Longrightarrow> LowerStmt st n = Inr ([st], n)"
  by (cases st) (simp_all add: flat_def)

lemma atomic_flat: "atomic ext st s = Some r \<Longrightarrow> flat st"
  by (cases st) (simp_all add: atomic_def flat_def)

lemma flat_assign: "flat (end_assign v incr)" "flat (start_assign v e)"
  by (cases v; simp add: end_assign_def start_assign_def flat_def)+

lemma LowerBlock_snoc:
  assumes "flat st"
  shows "LowerBlock (b @ [st]) n = bind_result (LowerBlock b n) (\<lambda>(c, n1). Inr (c @ [st], n1))"
proof (induction b arbitrary: n)
  case Nil
  show ?case using assms by (simp add: LowerStmt_flat)
next
  case (Cons x b)
  show ?case
    by (cases "LowerStmt x n") (auto simp: Cons split: sum.splits prod.splits simp: bind_result_def)
qed

lemma lower_nil: "LowerBlock b n = Inr (c, n1) \<Longrightarrow> b = [] \<Longrightarrow> c = []"
  by simp

lemma if_lowered:
  assumes "LowerStmt (If c t e) n = Inr (C, n')"
  obtains t1 e1 n1 n2 where "LowerBlock t n = Inr (t1, n1)" "LowerBlock (else_part e) n1 = Inr (else_part e1, n2)"
    "lower_if (t = []) (else_part e = []) c t1 e1 n2 = Inr (C, n')"
proof (cases e)
  case None
  with assms that [of _ _ None] show ?thesis by (auto simp: result_simps split: prod.splits)
next
  case (Some b)
  with assms that [of _ _ "Some _"] show ?thesis by (fastforce simp: result_simps split: prod.splits)
qed

text \<open>Blocks that hold nothing but nested empty blocks lower to no statement at all.\<close>

fun vacuous :: "stmt \<Rightarrow> bool" where
  "vacuous (BlockStmt b) \<longleftrightarrow> list_all vacuous b"
| "vacuous st \<longleftrightarrow> False"

lemma lower_if_nonempty: "lower_if te ee c t e n = Inr (C, n') \<Longrightarrow> C \<noteq> []"
  by (auto simp: lower_if_def CreateBrFalseAndGotoStmt_Inr split: if_splits elim: CreateBrStmt_ok)

lemma lower_vacuous:
  shows "LowerStmt st n = Inr (C, n') \<Longrightarrow> C = [] \<longleftrightarrow> vacuous st"
    and "LowerBlock b n = Inr (C, n') \<Longrightarrow> C = [] \<longleftrightarrow> list_all vacuous b"
proof (induction st n and b n arbitrary: C n' and C n' rule: LowerStmt_LowerBlock.induct)
  case (1 c t e n)
  from 1(3) show ?case by (rule if_lowered) (auto dest: lower_if_nonempty)
next
  case (8 st ss n)
  then obtain c1 n1 c2 where b: "LowerStmt st n = Inr (c1, n1)" "LowerBlock ss n1 = Inr (c2, n')" "C = c1 @ c2"
    by (auto simp: result_simps)
  from 8(1) [OF b(1)] 8(2) [OF b(2)] b(3) show ?case by auto
qed (auto simp: result_simps lower_while_def lower_dowhile_def)

text \<open>
  \<open>ends_gosub\<close>: the code of the statement may end in a \<^verbatim>\<open>gosub\<close>. \<open>gosub_ok\<close>: no
  conditional with an else part has a then part that does. \<^verbatim>\<open>OpCodeNoFallThrough\<close>
  counts \<^verbatim>\<open>gosub\<close> among the jumps, so behind such a then part \<^verbatim>\<open>LowerIfStmt\<close> leaves
  out the jump over the else part.
\<close>

fun ends_gosub :: "stmt \<Rightarrow> bool"
  and block_ends_gosub :: "stmt list \<Rightarrow> bool" where
  "ends_gosub (Gosub l) \<longleftrightarrow> True"
| "ends_gosub (If c t e) \<longleftrightarrow> (case e of None \<Rightarrow> False | Some b \<Rightarrow> block_ends_gosub b)"
| "ends_gosub (BlockStmt b) \<longleftrightarrow> block_ends_gosub b"
| "ends_gosub st \<longleftrightarrow> False"
| "block_ends_gosub [] \<longleftrightarrow> False"
| "block_ends_gosub (st # ss) \<longleftrightarrow> (if list_all vacuous ss then ends_gosub st else block_ends_gosub ss)"

fun gosub_ok :: "stmt \<Rightarrow> bool" where
  "gosub_ok (If c t e) \<longleftrightarrow> list_all gosub_ok t \<and>
     (case e of None \<Rightarrow> True | Some b \<Rightarrow> (b = [] \<or> \<not> block_ends_gosub t) \<and> list_all gosub_ok b)"
| "gosub_ok (While c b) \<longleftrightarrow> list_all gosub_ok b"
| "gosub_ok (Dowhile b c) \<longleftrightarrow> list_all gosub_ok b"
| "gosub_ok (Doloop v start c incr b) \<longleftrightarrow> list_all gosub_ok b"
| "gosub_ok (BlockStmt b) \<longleftrightarrow> list_all gosub_ok b"
| "gosub_ok st \<longleftrightarrow> True"

lemma lower_if_ends:
  assumes "lower_if te ee c t e n = Inr (C, n')" "is_gosub (last C)" "ee \<Longrightarrow> else_part e = []"
  shows "else_part e \<noteq> [] \<and> is_gosub (last (else_part e))"
  using assms
  by (auto simp: lower_if_def CreateBrFalseAndGotoStmt_Inr is_gosub_def split: if_splits elim!: CreateBrStmt_ok)

lemma lower_ends:
  shows "LowerStmt st n = Inr (C, n') \<Longrightarrow> C \<noteq> [] \<Longrightarrow> is_gosub (last C) \<Longrightarrow> ends_gosub st"
    and "LowerBlock b n = Inr (C, n') \<Longrightarrow> C \<noteq> [] \<Longrightarrow> is_gosub (last C) \<Longrightarrow> block_ends_gosub b"
proof (induction st n and b n arbitrary: C n' and C n' rule: LowerStmt_LowerBlock.induct)
  case (1 c t e n)
  from 1(3) obtain t1 e1 n1 n2 where
    l: "LowerBlock t n = Inr (t1, n1)" "LowerBlock (else_part e) n1 = Inr (else_part e1, n2)"
    "lower_if (t = []) (else_part e = []) c t1 e1 n2 = Inr (C, n')" by (rule if_lowered)
  from lower_if_ends [OF l(3) 1(5)] lower_nil [OF l(2)]
  have "else_part e1 \<noteq> []" "is_gosub (last (else_part e1))" by blast+
  with 1(2) l(1,2) show ?case by (cases e) auto
next
  case (8 st ss n)
  then obtain c1 n1 c2 where b: "LowerStmt st n = Inr (c1, n1)" "LowerBlock ss n1 = Inr (c2, n')" "C = c1 @ c2"
    by (auto simp: result_simps)
  from 8(1) [OF b(1)] 8(2) [OF b(2)] b 8(4,5) lower_vacuous(2) [OF b(2)] show ?case
    by (cases "c2 = []") auto
qed (auto simp: result_simps lower_while_def lower_dowhile_def is_gosub_def)

lemma then_not_gosub:
  assumes "gosub_ok (If c t e)" "else_part e \<noteq> []" "LowerBlock t n = Inr (t1, n1)" "t1 \<noteq> []"
  shows "\<not> is_gosub (last t1)"
  using assms lower_ends(2) [OF assms(3,4)] by (cases e) auto

lemma gosub_ok_else: "gosub_ok (If c t e) \<Longrightarrow> list_all gosub_ok (else_part e)"
  by (cases e) auto

lemma flat_gosub_ok: "flat st \<Longrightarrow> gosub_ok st"
  by (cases st) (simp_all add: flat_def)

lemma lowering_ok:
  shows "exec_stmt ext st s r \<Longrightarrow> LowerStmt st n = Inr (C, n') \<Longrightarrow> gosub_ok st \<Longrightarrow> sem_ok ext C s r"
    and "exec ext b s r \<Longrightarrow> LowerBlock b n = Inr (C, n') \<Longrightarrow> list_all gosub_ok b \<Longrightarrow> sem_ok ext C s r"
proof (induction arbitrary: n C n' and n C n' rule: exec_stmt_exec.inducts)
  case (Atomic st s r)
  then show ?case by (auto simp: LowerStmt_flat [OF atomic_flat] intro: sem_single)
next
  case (IfTrap c s t e)
  then show ?case by (elim if_lowered) (auto intro: lower_if_trap)
next
  case (IfTrue c s t r e)
  from IfTrue.prems(1) obtain t1 e1 n1 n2 where
    l: "LowerBlock t n = Inr (t1, n1)" "LowerBlock (else_part e) n1 = Inr (else_part e1, n2)"
    "lower_if (t = []) (else_part e = []) c t1 e1 n2 = Inr (C, n')" by (rule if_lowered)
  show ?case
    by (rule lower_if_ok [OF l(3) _ _ _ IfTrue(1)])
      (use IfTrue.IH(2) [OF l(1)] IfTrue.prems(2) then_not_gosub [OF IfTrue.prems(2) _ l(1)]
        lower_nil [OF l(1)] lower_nil [OF l(2)] in simp_all)
next
  case (IfFalse c s e r t)
  from IfFalse.prems(1) obtain t1 e1 n1 n2 where
    l: "LowerBlock t n = Inr (t1, n1)" "LowerBlock (else_part e) n1 = Inr (else_part e1, n2)"
    "lower_if (t = []) (else_part e = []) c t1 e1 n2 = Inr (C, n')" by (rule if_lowered)
  show ?case
    by (rule lower_if_ok [OF l(3) _ _ _ IfFalse(1)])
      (use IfFalse.IH(2) [folded else_part_def, OF l(2)] IfFalse.prems(2)
        then_not_gosub [OF IfFalse.prems(2) _ l(1)] gosub_ok_else [OF IfFalse.prems(2)]
        lower_nil [OF l(1)] lower_nil [OF l(2)] in simp_all)
next
  case (WhileTrap c s b)
  then show ?case by (auto simp: result_simps intro: while_ok(1))
next
  case (WhileFalse c s b)
  then show ?case by (auto simp: result_simps intro: while_ok(2))
next
  case (WhileTrue c s b s1 r)
  from WhileTrue.prems(1) obtain b1 n1 where b: "LowerBlock b n = Inr (b1, n1)" "lower_while c b1 n1 = (C, n')"
    by (auto simp: result_simps)
  have "list_all gosub_ok b" using WhileTrue.prems(2) by simp
  then show ?case
    by (rule while_ok(4) [OF b(2) WhileTrue(1) WhileTrue.IH(2) [OF b(1)] WhileTrue.IH(4) [OF WhileTrue.prems]])
next
  case (WhileLeave c s b r)
  then show ?case by (auto simp: result_simps intro: while_ok(3))
next
  case (DowhileLeave b s r c)
  then show ?case by (auto simp: result_simps intro: dowhile_ok(1))
next
  case (DowhileTrap b s s1 c)
  then show ?case by (auto simp: result_simps intro: dowhile_ok(2))
next
  case (DowhileEnd b s s1 c)
  then show ?case by (auto simp: result_simps intro: dowhile_ok(3))
next
  case (DowhileLoop b s s1 c r)
  from DowhileLoop.prems(1) obtain b1 n1 where b: "LowerBlock b n = Inr (b1, n1)" "lower_dowhile b1 c n1 = (C, n')"
    by (auto simp: result_simps)
  have "list_all gosub_ok b" using DowhileLoop.prems(2) by simp
  then show ?case
    by (rule dowhile_ok(4) [OF b(2) DowhileLoop.IH(2) [OF b(1)] DowhileLoop.hyps(1) DowhileLoop.IH(4) [OF DowhileLoop.prems]])
next
  case (DoloopTrap v e s c incr b)
  then show ?case by (auto simp: result_simps lower_while_def intro: sem_trap)
next
  case (Doloop v e s s1 c b incr r)
  from Doloop.prems(1) obtain b1 n1 w where b: "LowerBlock b n = Inr (b1, n1)"
    "lower_while c (b1 @ [end_assign v incr]) n1 = (w, n')" "C = start_assign v e # w"
    by (auto simp: result_simps lower_while_def)
  have "LowerStmt (While c (b @ [end_assign v incr])) n = Inr (w, n')"
    using b by (simp add: LowerBlock_snoc [OF flat_assign(1)])
  moreover have "gosub_ok (While c (b @ [end_assign v incr]))"
    using Doloop.prems(2) flat_gosub_ok [OF flat_assign(1)] by simp
  ultimately have "sem_ok ext w s1 r" using Doloop by blast
  with Doloop show ?case unfolding b(3) by (blast intro: sem_next)
next
  case (Block b s r)
  then show ?case by simp
next
  case (Nil s)
  then show ?case by (simp add: sem_nil)
next
  case (Cons st s s1 ss r)
  then show ?case by (fastforce simp: result_simps intro: sem_seq)
next
  case (ConsLeave st s r ss)
  then show ?case by (fastforce simp: result_simps intro: sem_leave)
qed

section \<open>Labels of the lowered code\<close>

fun stmt_labels :: "stmt \<Rightarrow> nat multiset"
  and block_labels :: "stmt list \<Rightarrow> nat multiset" where
  "stmt_labels (LabelStmt l) = {#l#}"
| "stmt_labels (If c t e) = block_labels t + (case e of None \<Rightarrow> {#} | Some b \<Rightarrow> block_labels b)"
| "stmt_labels (While c b) = block_labels b"
| "stmt_labels (Dowhile b c) = block_labels b"
| "stmt_labels (Doloop v start c incr b) = block_labels b"
| "stmt_labels (BlockStmt b) = block_labels b"
| "stmt_labels st = {#}"
| "block_labels [] = {#}"
| "block_labels (st # ss) = stmt_labels st + block_labels ss"

abbreviation new_labels :: "nat \<Rightarrow> nat \<Rightarrow> nat multiset" where
  "new_labels n n' \<equiv> mset_set {n..<n'}"

lemma new_labels_split: "n \<le> n1 \<Longrightarrow> n1 \<le> n2 \<Longrightarrow> new_labels n n1 + new_labels n1 n2 = new_labels n n2"
  by (subst mset_set_Union [symmetric]) (auto simp: ivl_disj_un)

lemma new_labels_Suc [simp]: "new_labels n (Suc n) = {#n#}" "new_labels n (Suc (Suc n)) = {#n, Suc n#}"
  by (simp_all add: atLeastLessThanSuc add_mset_commute)

lemma labels_regroup: "(a + x) + (b + y) + z = (a + b) + (x + y + z)" for a :: "'a multiset"
  by (simp add: ac_simps)

lemma lower_if_labels:
  assumes "lower_if te ee c t e n = Inr (C, n')" "te \<Longrightarrow> t = []" "ee \<Longrightarrow> else_part e = []"
  shows "n \<le> n' \<and> mset (labels C) = mset (labels t) + mset (labels (else_part e)) + new_labels n n'"
proof -
  consider "te" "ee" "C = [EvalStmt c]" "n' = n" | b where "CreateBrStmt b c t e n = Inr (C, n')" "te \<or> ee"
    | "CreateBrFalseAndGotoStmt c t e n = Inr (C, n')"
    using assms(1) unfolding lower_if_def by (metis Inr_inject Pair_inject)
  then show ?thesis
  proof cases
    case 1
    then show ?thesis using assms by simp
  next
    case 2
    from 2(1) obtain body where b: "C = CondGoto b c n # body @ [LabelStmt n]" "n' = Suc n"
      "if t = [] then e = Some body else body = t" by (rule CreateBrStmt_ok)
    have "labels t @ labels (else_part e) = labels body"
      using b(3) 2(2) assms(2,3) by (cases "t = []") auto
    then have "mset (labels t) + mset (labels (else_part e)) = mset (labels body)"
      by (metis mset_append)
    with b(1,2) show ?thesis by simp
  next
    case 3
    then obtain b where "e = Some b"
      "if OpCodeNoFallThrough (last t) then C = brfalse c n # t @ LabelStmt n # b \<and> n' = Suc n
       else C = brfalse c n # t @ Goto (Suc n) # LabelStmt n # b @ [LabelStmt (Suc n)] \<and> n' = Suc (Suc n)"
      unfolding CreateBrFalseAndGotoStmt_Inr by blast
    then show ?thesis by (cases "OpCodeNoFallThrough (last t)") simp_all
  qed
qed

lemma lower_labels:
  shows "LowerStmt st n = Inr (C, n') \<Longrightarrow> n \<le> n' \<and> mset (labels C) = stmt_labels st + new_labels n n'"
    and "LowerBlock b n = Inr (C, n') \<Longrightarrow> n \<le> n' \<and> mset (labels C) = block_labels b + new_labels n n'"
proof (induction st n and b n arbitrary: C n' and C n' rule: LowerStmt_LowerBlock.induct)
  case (1 c t e n)
  from 1(3) obtain t1 e1 n1 n2 where
    l: "LowerBlock t n = Inr (t1, n1)" "LowerBlock (else_part e) n1 = Inr (else_part e1, n2)"
    "lower_if (t = []) (else_part e = []) c t1 e1 n2 = Inr (C, n')" by (rule if_lowered)
  have t: "n \<le> n1 \<and> mset (labels t1) = block_labels t + new_labels n n1" using 1 l(1) by blast
  have e: "n1 \<le> n2 \<and> mset (labels (else_part e1)) = block_labels (else_part e) + new_labels n1 n2"
    using 1 l(1,2) by (cases e) auto
  have c: "n2 \<le> n' \<and> mset (labels C) = mset (labels t1) + mset (labels (else_part e1)) + new_labels n2 n'"
    using lower_if_labels [OF l(3)] lower_nil [OF l(1)] lower_nil [OF l(2)] by blast
  have s: "stmt_labels (If c t e) = block_labels t + block_labels (else_part e)" by (cases e) simp_all
  have "mset (labels C) = stmt_labels (If c t e) + (new_labels n n1 + new_labels n1 n2 + new_labels n2 n')"
    using t e c s by (simp only: labels_regroup)
  moreover have "n \<le> n2" "n \<le> n'" using t e c by linarith+
  ultimately show ?case
    using t e c by (simp only: new_labels_split)
next
  case (2 c b n)
  then obtain b1 n1 where b: "LowerBlock b n = Inr (b1, n1)" "lower_while c b1 n1 = (C, n')"
    by (auto simp: result_simps)
  from 2(1) [OF b(1)] b(2) new_labels_split [of n n1 n'] show ?case
    by (auto simp: lower_while_def)
next
  case (3 b c n)
  then obtain b1 n1 where b: "LowerBlock b n = Inr (b1, n1)" "lower_dowhile b1 c n1 = (C, n')"
    by (auto simp: result_simps)
  from 3(1) [OF b(1)] b(2) new_labels_split [of n n1 n'] show ?case
    by (auto simp: lower_dowhile_def)
next
  case (4 v start c incr b n)
  then obtain b1 n1 w where b: "LowerBlock b n = Inr (b1, n1)"
    "lower_while c (b1 @ [end_assign v incr]) n1 = (w, n')" "C = start_assign v start # w"
    by (auto simp: result_simps lower_while_def)
  have "labels (end_assign v incr # xs) = labels xs" "labels (start_assign v start # xs) = labels xs" for xs
    by (cases v; simp add: end_assign_def start_assign_def)+
  with 4(1) [OF b(1)] b(2,3) new_labels_split [of n n1 n'] show ?case
    by (auto simp: lower_while_def)
next
  case (8 st ss n)
  then obtain c1 n1 c2 where b: "LowerStmt st n = Inr (c1, n1)" "LowerBlock ss n1 = Inr (c2, n')" "C = c1 @ c2"
    by (auto simp: result_simps)
  from 8(1) [OF b(1)] 8(2) [OF b(2)] b(3) new_labels_split [of n n1 n'] show ?case by auto
qed auto

section \<open>When lowering succeeds\<close>

text \<open>
  A conditional whose then part lowers to no statement, though it has some, makes the
  code use a null pointer, unless its else part is present and empty.
\<close>

fun lowerable :: "stmt \<Rightarrow> bool" where
  "lowerable (If c t e) \<longleftrightarrow>
     (t = [] \<or> \<not> list_all vacuous t \<or> e = Some []) \<and> list_all lowerable t \<and>
     (case e of None \<Rightarrow> True | Some b \<Rightarrow> list_all lowerable b)"
| "lowerable (While c b) \<longleftrightarrow> list_all lowerable b"
| "lowerable (Dowhile b c) \<longleftrightarrow> list_all lowerable b"
| "lowerable (Doloop v start c incr b) \<longleftrightarrow> list_all lowerable b"
| "lowerable (BlockStmt b) \<longleftrightarrow> list_all lowerable b"
| "lowerable st \<longleftrightarrow> True"

lemma CreateCondGotoStmt_is_ok: "is_ok (CreateCondGotoStmt b c t e n) \<longleftrightarrow> t \<noteq> [] \<or> e \<noteq> None"
  by (auto simp: CreateCondGotoStmt_def Let_def split: option.splits)

lemma CreateBrStmt_is_ok: "is_ok (CreateBrStmt b c t e n) \<longleftrightarrow> t \<noteq> [] \<or> e \<noteq> None"
  by (auto simp: CreateBrStmt_def CreateCondGotoStmt_def Let_def split: option.splits)

lemma CreateBrFalseAndGotoStmt_is_ok: "is_ok (CreateBrFalseAndGotoStmt c t e n) \<longleftrightarrow> t \<noteq> [] \<and> e \<noteq> None"
  by (cases "t = []"; cases e) (auto simp: CreateBrFalseAndGotoStmt_def CreateCondGotoStmt_def Let_def)

lemmas create_is_ok = CreateBrStmt_is_ok CreateBrFalseAndGotoStmt_is_ok

lemma is_ok_bind: "is_ok (bind_result r f) \<longleftrightarrow> (\<exists>x. r = Inr x \<and> is_ok (f x))"
  by (cases r) simp_all

lemma is_ok_Inr: "is_ok r \<longleftrightarrow> (\<exists>x. r = Inr x)"
  by (cases r) simp_all

lemma lower_is_ok:
  shows "is_ok (LowerStmt st n) \<longleftrightarrow> lowerable st"
    and "is_ok (LowerBlock b n) \<longleftrightarrow> list_all lowerable b"
proof (induction st n and b n rule: LowerStmt_LowerBlock.induct)
  case (1 c t e n)
  show ?case
  proof (cases "LowerBlock t n")
    case (Inl err)
    with 1(1) show ?thesis by simp
  next
    case (Inr p)
    obtain t1 n1 where p: "p = (t1, n1)" by (cases p)
    note t = 1(1) [unfolded Inr, simplified] lower_vacuous(2) [OF Inr [unfolded p]]
    show ?thesis
    proof (cases e)
      case None
      with Inr p t show ?thesis by (auto simp: lower_if_def create_is_ok)
    next
      case (Some b)
      show ?thesis
      proof (cases "LowerBlock b n1")
        case (Inl err)
        with 1(2) [OF Some, of n1] Some \<open>LowerBlock t n = Inr p\<close> p show ?thesis by auto
      next
        case (Inr q)
        with 1(2) [OF Some, of n1] Some \<open>LowerBlock t n = Inr p\<close> p t show ?thesis
          by (cases q) (auto simp: lower_if_def create_is_ok)
      qed
    qed
  qed
next
  case (8 st ss n)
  show ?case
    using 8(1) 8(2) [of "snd (projr (LowerStmt st n))"]
    by (cases "LowerStmt st n"; cases "LowerBlock ss (snd (projr (LowerStmt st n)))") auto
qed (auto simp: is_ok_bind is_ok_Inr [of "LowerBlock _ _"] lower_while_def)

section \<open>Short-circuit conditions\<close>

text \<open>
  \<^verbatim>\<open>LowerBrCondition\<close> splits a conditional jump on \<^verbatim>\<open>OP_cand\<close> or \<^verbatim>\<open>OP_cior\<close> and
  continues at the first of the new jumps. In the branch whose short-circuit target
  is that of the jump it calls \<^verbatim>\<open>InsertAfter\<close> with its arguments exchanged: the
  statement to insert after is the new one, which is in no list, and
  \<^verbatim>\<open>PtrListRef::insertAfter\<close> follows its null successor. The other branch reads the
  opcode of the next statement, which may be missing.
\<close>

fun br_weight :: "stmt list \<Rightarrow> nat" where
  "br_weight [] = 0"
| "br_weight (CondGoto b e l # ss) = 1 + 3 * size e + br_weight ss"
| "br_weight (_ # ss) = 1 + br_weight ss"

lemma br_weight_tl: "br_weight ss < br_weight (st # ss)"
  by (cases st) simp_all

function LowerBrCondition :: "stmt list \<Rightarrow> nat \<Rightarrow> (stmt list \<times> nat) result" where
  "LowerBrCondition [] n = Inr ([], n)"
| "LowerBrCondition (st # ss) n =
     (case st of
        CondGoto b (Binary opcode p x y) l \<Rightarrow>
          if opcode = OP_cand \<or> opcode = OP_cior then
            if (\<not> b \<and> opcode = OP_cand) \<or> (b \<and> opcode = OP_cior) then Inl (Undefined ''null successor'')
            else (case ss of
                [] \<Rightarrow> Inl (Undefined ''null next statement'')
              | LabelStmt m # _ \<Rightarrow> LowerBrCondition (CondGoto (\<not> b) x m # CondGoto b y l # ss) n
              | _ \<Rightarrow> LowerBrCondition (CondGoto (\<not> b) x n # CondGoto b y l # LabelStmt n # ss) (Suc n))
          else bind_result (LowerBrCondition ss n) (\<lambda>(c, n1). Inr (st # c, n1))
      | _ \<Rightarrow> bind_result (LowerBrCondition ss n) (\<lambda>(c, n1). Inr (st # c, n1)))"
  by pat_completeness auto
termination
  by (relation "measure (\<lambda>(ss, n). br_weight ss)") (auto simp: br_weight_tl)

declare LowerBrCondition.simps(2) [simp del]

fun targets :: "stmt list \<Rightarrow> nat set" where
  "targets [] = {}"
| "targets (st # ss) =
     (case st of Goto l \<Rightarrow> {l} | Gosub l \<Rightarrow> {l} | CondGoto _ _ l \<Rightarrow> {l} | RangeGoto _ _ tab \<Rightarrow> (unat \<circ> snd) ` set tab | _ \<Rightarrow> {})
     \<union> targets ss"

lemma targets_append [simp]: "targets (a @ b) = targets a \<union> targets b"
  by (induction a) auto

lemma atomic_target: "atomic ext st s = Some (Jumps l t) \<Longrightarrow> l \<in> targets [st]"
  by (cases st) (auto simp: atomic_def gosub_def Let_def split: option.splits if_splits)

lemma targets_nth: "i < length prog \<Longrightarrow> targets [prog ! i] \<subseteq> targets prog"
  by (induction prog arbitrary: i) (auto simp: nth_Cons split: nat.splits)

text \<open>
  Replacing one statement that is not a label by code \<open>D\<close> that behaves like it keeps
  every run; the program counter moves by the growth of the code.
\<close>

definition moved :: "nat \<Rightarrow> nat \<Rightarrow> config \<Rightarrow> config" where
  "moved p k c = (case c of At i s \<Rightarrow> At (if i \<le> p then i else i + k) s | _ \<Rightarrow> c)"

lemma find_label_replace:
  assumes "labels [st] = []" "l \<notin> set (labels D)"
  shows "find_label (P @ D @ R) l =
     map_option (\<lambda>i. if i \<le> length P then i else i - 1 + length D) (find_label (P @ st # R) l)"
proof -
  have D: "find_label (D @ R) l = map_option (\<lambda>i. i + length D) (find_label R l)" for R
    using assms(2)
  proof (induction D)
    case (Cons x D)
    then show ?case by (cases x) (auto simp: option.map_comp o_def)
  qed (simp add: option.map_ident)
  have st: "st \<noteq> LabelStmt l" using assms(1) by auto
  show ?thesis
  proof (induction P)
    case Nil
    show ?case using st by (auto simp: D option.map_comp o_def)
  next
    case (Cons x P)
    then show ?case by (cases "find_label (P @ st # R) l") (auto simp: option.map_comp o_def)
  qed
qed

lemma replace_run:
  assumes st: "labels [st] = []" "D \<noteq> []" and t: "targets (P @ st # R) \<inter> set (labels D) = {}"
    and loc: "\<And>s r. atomic ext st s = Some r \<Longrightarrow>
       reaches ext (P @ D @ R) (At (length P) s) (resume (P @ D @ R) (length P + length D) r)"
    and none: "\<And>s. atomic ext st s \<noteq> None"
    and run: "reaches ext (P @ st # R) c d"
  shows "reaches ext (P @ D @ R) (moved (length P) (length D - 1) c) (moved (length P) (length D - 1) d)"
proof -
  let ?p0 = "P @ st # R" and ?p1 = "P @ D @ R" and ?m = "moved (length P) (length D - 1)"
  have res: "resume ?p1 (if i \<le> length P then i else i + (length D - 1)) r = ?m (resume ?p0 i r)"
    if "\<And>l s. r = Jumps l s \<Longrightarrow> l \<in> targets ?p0" for i r
  proof (cases r)
    case (Jumps l s)
    then have "l \<notin> set (labels D)" using that t by auto
    from find_label_replace [OF st(1) this, of P R] Jumps st(2) show ?thesis
      by (cases "find_label ?p0 l"; cases D) (auto simp: resume_def moved_def jump_def)
  qed (auto simp: resume_def moved_def)
  have one: "reaches ext ?p1 (?m c) (?m (step ext ?p0 c))" for c
  proof (cases c)
    case (At pc s)
    consider "pc = length P" | "pc < length P" | "length P < pc" "pc < length ?p0" | "length ?p0 \<le> pc" by linarith
    then show ?thesis
    proof cases
      case 1
      obtain r where r: "atomic ext st s = Some r" using none [of s] by auto
      have "\<And>l s'. r = Jumps l s' \<Longrightarrow> l \<in> targets ?p0" using atomic_target r by fastforce
      note res [OF this, where i = "Suc (length P)"]
      with loc [OF r] r 1 At st(2) show ?thesis
        by (cases D) (simp_all add: moved_def [of _ _ "At _ _"])
    next
      case 2
      have nth: "?p1 ! pc = ?p0 ! pc" using 2 by (simp add: nth_append)
      have "\<And>r l s'. atomic ext (?p0 ! pc) s = Some r \<Longrightarrow> r = Jumps l s' \<Longrightarrow> l \<in> targets ?p0"
        using atomic_target targets_nth [of pc ?p0] 2 by fastforce
      then have "step ext ?p1 (?m (At pc s)) = ?m (step ext ?p0 (At pc s))"
        using 2 nth res [where i = "Suc pc"]
        by (auto simp: moved_def [of _ _ "At _ _"] moved_def [of _ _ Stuck] split: option.splits)
      then show ?thesis using At by (metis reaches_refl reaches_step)
    next
      case 3
      have nth: "?p1 ! (pc + (length D - 1)) = ?p0 ! pc"
      proof -
        obtain k where k: "pc = Suc (length P) + k" using 3(1) less_iff_Suc_add by auto
        then have 1: "pc + (length D - 1) = length (P @ D) + k" using st(2) by (cases D) simp_all
        have 2: "pc = length (P @ [st]) + k" using k by simp
        have "((P @ D) @ R) ! (length (P @ D) + k) = R ! k" "((P @ [st]) @ R) ! (length (P @ [st]) + k) = R ! k"
          by (rule nth_append_length_plus)+
        then show ?thesis unfolding 1 unfolding 2 by simp
      qed
      have "\<And>r l s'. atomic ext (?p0 ! pc) s = Some r \<Longrightarrow> r = Jumps l s' \<Longrightarrow> l \<in> targets ?p0"
        using atomic_target targets_nth [of pc ?p0] 3 by fastforce
      moreover have "pc + (length D - 1) < length ?p1" using 3 st(2) by (cases D) auto
      ultimately have "step ext ?p1 (?m (At pc s)) = ?m (step ext ?p0 (At pc s))"
        using 3 nth res [where i = "Suc pc"]
        by (auto simp: moved_def [of _ _ "At _ _"] moved_def [of _ _ Stuck] split: option.splits)
      then show ?thesis using At by (metis reaches_refl reaches_step)
    next
      case 4
      then show ?thesis using At by auto
    qed
  qed auto
  from run obtain k where "(step ext ?p0 ^^ k) c = d" by (auto simp: reaches_def)
  then show ?thesis
  proof (induction k arbitrary: d)
    case (Suc k)
    then show ?case using one by (auto intro: reaches_trans)
  qed auto
qed

lemma moved_final:
  "D \<noteq> [] \<Longrightarrow> moved (length P) (length D - 1) (final (length (P @ st # R)) r) = final (length (P @ D @ R)) r"
  "moved p k (At 0 s) = At 0 s"
  by (cases r; cases D; simp add: moved_def final_def)+

text \<open>The two ways in which a condition is split.\<close>

lemma split_cond:
  assumes "b \<and> opcode = OP_cand \<or> \<not> b \<and> opcode = OP_cior"
  shows "cond (Binary opcode p x y) s =
     (case cond x s of None \<Rightarrow> None | Some v \<Rightarrow> if v = b then cond y s else Some (\<not> b))"
  using assms by (auto simp: cond_def bool_int_def option.map_comp o_def split: option.splits)

lemma split_run:
  assumes o: "b \<and> opcode = OP_cand \<or> \<not> b \<and> opcode = OP_cior"
    and D: "D = [CondGoto (\<not> b) x m, CondGoto b y l] @ L"
    and m: "jump (P @ D @ R) m s = At (length P + 2) s" and L: "L = [] \<or> L = [LabelStmt m]"
    and a: "atomic ext (CondGoto b (Binary opcode p x y) l) s = Some r"
  shows "reaches ext (P @ D @ R) (At (length P) s) (resume (P @ D @ R) (length P + length D) r)"
proof -
  let ?p = "P @ D @ R"
  have n: "?p ! length P = CondGoto (\<not> b) x m" "?p ! Suc (length P) = CondGoto b y l" "Suc (length P) < length ?p"
      "length P < length ?p"
    by (simp_all add: D nth_append)
  have s0: "step ext ?p (At (length P) s) =
      (case cond x s of None \<Rightarrow> Stuck | Some v \<Rightarrow> if v = b then At (Suc (length P)) s else At (length P + 2) s)"
    using m n by (simp add: atomic_cond resume_def del: length_append split: option.splits)
  have s1: "step ext ?p (At (Suc (length P)) s) =
      (case cond y s of None \<Rightarrow> Stuck | Some v \<Rightarrow> if v = b then jump ?p l s else At (length P + 2) s)"
    using n by (simp add: atomic_cond resume_def del: length_append split: option.splits)
  have s2: "reaches ext ?p (At (length P + 2) s) (At (length P + length D) s)"
  proof (cases "L = []")
    case False
    then have "?p ! (length P + 2) = LabelStmt m" "length P + 2 < length ?p" "length D = 3"
      using L by (simp_all add: D nth_append)
    then have "step ext ?p (At (length P + 2) s) = At (length P + length D) s"
      by (simp add: atomic_def resume_def)
    then show ?thesis by (metis reaches_refl reaches_step)
  qed (simp add: D reaches_refl)
  have r: "r = (case cond x s of None \<Rightarrow> Traps | Some v \<Rightarrow>
      if v = b then (case cond y s of None \<Rightarrow> Traps | Some w \<Rightarrow> if w = b then Jumps l s else Normal s) else Normal s)"
    using a by (cases "cond x s"; cases "cond y s") (auto simp: atomic_cond split_cond [OF o])
  have res: "resume ?p (length P + length D) Traps = Stuck"
    "resume ?p (length P + length D) (Normal s) = At (length P + length D) s"
    "resume ?p (length P + length D) (Jumps l s) = jump ?p l s" by (simp_all add: resume_def)
  have y: "reaches ext ?p (step ext ?p (At (Suc (length P)) s)) (resume ?p (length P + length D)
      (case cond y s of None \<Rightarrow> Traps | Some w \<Rightarrow> if w = b then Jumps l s else Normal s))"
    unfolding s1 using s2 by (auto simp: res split: option.splits)
  have "reaches ext ?p (step ext ?p (At (length P) s)) (resume ?p (length P + length D) r)"
    unfolding s0 r using s2 reaches_step [OF y]
    by (cases "cond x s") (simp_all add: res reaches_refl)
  then show ?thesis by (rule reaches_step)
qed

definition next_label :: "stmt list \<Rightarrow> nat option" where
  "next_label ss = (case ss of LabelStmt m # _ \<Rightarrow> Some m | _ \<Rightarrow> None)"

text \<open>The branches of one iteration that return.\<close>

lemma LowerBrCondition_cases:
  assumes "LowerBrCondition (st # ss) n = Inr (C, n')"
  obtains (keep) c where "LowerBrCondition ss n = Inr (c, n')" "C = st # c"
  | (label) b opcode p x y l m where "st = CondGoto b (Binary opcode p x y) l"
      "b \<and> opcode = OP_cand \<or> \<not> b \<and> opcode = OP_cior" "next_label ss = Some m"
      "LowerBrCondition (CondGoto (\<not> b) x m # CondGoto b y l # ss) n = Inr (C, n')"
  | (fresh) b opcode p x y l where "st = CondGoto b (Binary opcode p x y) l"
      "b \<and> opcode = OP_cand \<or> \<not> b \<and> opcode = OP_cior"
      "LowerBrCondition (CondGoto (\<not> b) x n # CondGoto b y l # LabelStmt n # ss) (Suc n) = Inr (C, n')"
proof (cases "\<exists>b opcode p x y l. st = CondGoto b (Binary opcode p x y) l \<and> opcode \<in> {OP_cand, OP_cior}")
  case False
  then have "LowerBrCondition (st # ss) n = bind_result (LowerBrCondition ss n) (\<lambda>(c, n1). Inr (st # c, n1))"
    by (subst LowerBrCondition.simps) (auto split: stmt.splits expr.splits)
  with assms keep show ?thesis by (auto simp: bind_result_Inr)
next
  case True
  then obtain b opcode p x y l where st: "st = CondGoto b (Binary opcode p x y) l"
    and o: "opcode = OP_cand \<or> opcode = OP_cior" by auto
  have g: "b \<and> opcode = OP_cand \<or> \<not> b \<and> opcode = OP_cior"
    using assms o unfolding st by (subst (asm) LowerBrCondition.simps) (auto split: if_splits)
  have u: "LowerBrCondition (st # ss) n = (case ss of
                [] \<Rightarrow> Inl (Undefined ''null next statement'')
              | LabelStmt m # _ \<Rightarrow> LowerBrCondition (CondGoto (\<not> b) x m # CondGoto b y l # ss) n
              | _ \<Rightarrow> LowerBrCondition (CondGoto (\<not> b) x n # CondGoto b y l # LabelStmt n # ss) (Suc n))"
    unfolding st using g by (subst LowerBrCondition.simps) auto
  show ?thesis
  proof (cases "next_label ss")
    case None
    with assms u fresh [OF st g] show ?thesis
      by (auto simp: next_label_def split: list.splits stmt.splits)
  next
    case (Some m)
    with assms u label [OF st g Some] show ?thesis
      by (auto simp: next_label_def split: list.splits stmt.splits)
  qed
qed

lemma next_label_Some: "next_label ss = Some m \<Longrightarrow> \<exists>R. ss = LabelStmt m # R"
  by (auto simp: next_label_def split: list.splits stmt.splits)

lemma LowerBrCondition_run:
  assumes "LowerBrCondition ss n = Inr (C, n')" "distinct (labels (P @ ss))"
    "set (labels (P @ ss)) \<union> targets (P @ ss) \<subseteq> {..<n}"
    "reaches ext (P @ ss) (At 0 s) (final (length (P @ ss)) r)"
  shows "reaches ext (P @ C) (At 0 s) (final (length (P @ C)) r)"
  using assms
proof (induction "br_weight ss" arbitrary: ss n P C rule: less_induct)
  case less
  show ?case
  proof (cases ss)
    case Nil
    with less.prems show ?thesis by simp
  next
    case (Cons st R)
    from less.prems(1) [unfolded Cons] show ?thesis
    proof (cases rule: LowerBrCondition_cases)
      case (keep c)
      have e: "(P @ [st]) @ R = P @ ss" by (simp add: Cons)
      have w: "br_weight R < br_weight ss" by (simp only: Cons br_weight_tl)
      from less.hyps [OF w keep(1), of "P @ [st]", unfolded e, OF less.prems(2-4)] keep(2)
      show ?thesis by simp
    next
      case (label b opcode p x y l m)
      obtain R' where R: "R = LabelStmt m # R'" using next_label_Some label(3) by blast
      let ?D = "[CondGoto (\<not> b) x m, CondGoto b y l]"
      have j: "jump (P @ ?D @ R) m t = At (length P + 2) t" for t
        using jump_at [of "P @ ?D" m R' t] less.prems(2) by (simp add: R Cons label(1))
      have "reaches ext (P @ ?D @ R) (moved (length P) (length ?D - 1) (At 0 s))
          (moved (length P) (length ?D - 1) (final (length (P @ st # R)) r))"
        using less.prems(4) split_run [OF label(2), where D = ?D and L = "[]" and m = m and P = P and R = R and x = x and y = y and l = l] j
        unfolding Cons label(1)
        by (intro replace_run) (auto simp: atomic_cond)
      then have "reaches ext (P @ ?D @ R) (At 0 s) (final (length (P @ ?D @ R)) r)"
        by (simp only: moved_final list.distinct simp_thms)
      then show ?thesis
        using less.hyps [of "?D @ R" n C P] less.prems label R by (simp add: Cons)
    next
      case (fresh b opcode p x y l)
      let ?D = "[CondGoto (\<not> b) x n, CondGoto b y l, LabelStmt n]"
      have j: "jump (P @ ?D @ R) n t = At (length P + 2) t" for t
        using jump_at [of "P @ [CondGoto (\<not> b) x n, CondGoto b y l]" n R t] less.prems(2,3)
        by (auto simp: Cons fresh(1))
      have "reaches ext (P @ ?D @ R) (moved (length P) (length ?D - 1) (At 0 s))
          (moved (length P) (length ?D - 1) (final (length (P @ st # R)) r))"
        using less.prems(3,4) split_run [OF fresh(2), where D = ?D and L = "[LabelStmt n]" and m = n and P = P and R = R and x = x and y = y and l = l] j
        unfolding Cons fresh(1)
        by (intro replace_run) (auto simp: atomic_cond)
      then have "reaches ext (P @ ?D @ R) (At 0 s) (final (length (P @ ?D @ R)) r)"
        by (simp only: moved_final list.distinct simp_thms)
      moreover have up: "A \<subseteq> {..<Suc n} \<and> n \<notin> A" if "A \<subseteq> {..<n}" for A using that by auto
      ultimately show ?thesis
        using less.hyps [of "?D @ R" "Suc n" C P] less.prems fresh up by (simp add: Cons)
    qed
  qed
qed

definition LowerFunc :: "stmt list \<Rightarrow> nat \<Rightarrow> (stmt list \<times> nat) result" where
  "LowerFunc body n = bind_result (LowerBlock body n) (\<lambda>(c, n1). LowerBrCondition c n1)"

lemma targets_label [simp]: "targets [LabelStmt l] = {}" by simp

fun stmt_targets :: "stmt \<Rightarrow> nat set"
  and block_targets :: "stmt list \<Rightarrow> nat set" where
  "stmt_targets (If c t e) = block_targets t \<union> (case e of None \<Rightarrow> {} | Some b \<Rightarrow> block_targets b)"
| "stmt_targets (While c b) = block_targets b"
| "stmt_targets (Dowhile b c) = block_targets b"
| "stmt_targets (Doloop v start c incr b) = block_targets b"
| "stmt_targets (BlockStmt b) = block_targets b"
| "stmt_targets st = targets [st]"
| "block_targets [] = {}"
| "block_targets (st # ss) = stmt_targets st \<union> block_targets ss"

lemma lower_if_targets:
  assumes "lower_if te ee c t e n = Inr (C, n')"
  shows "targets C \<subseteq> targets t \<union> targets (else_part e) \<union> {n..<n'}"
proof -
  consider "C = [EvalStmt c]" | b where "CreateBrStmt b c t e n = Inr (C, n')"
    | "CreateBrFalseAndGotoStmt c t e n = Inr (C, n')"
    using assms(1) unfolding lower_if_def by (metis Inr_inject Pair_inject)
  then show ?thesis
  proof cases
    case 2
    then obtain body where b: "C = CondGoto b c n # body @ [LabelStmt n]" "n' = Suc n"
      "if t = [] then e = Some body else body = t" by (rule CreateBrStmt_ok)
    then show ?thesis by (auto split: if_splits)
  next
    case 3
    then obtain b where "e = Some b"
      "if OpCodeNoFallThrough (last t) then C = brfalse c n # t @ LabelStmt n # b \<and> n' = Suc n
       else C = brfalse c n # t @ Goto (Suc n) # LabelStmt n # b @ [LabelStmt (Suc n)] \<and> n' = Suc (Suc n)"
      unfolding CreateBrFalseAndGotoStmt_Inr by blast
    then show ?thesis by (auto split: if_splits)
  qed simp
qed

lemma lower_targets:
  shows "LowerStmt st n = Inr (C, n') \<Longrightarrow> targets C \<subseteq> stmt_targets st \<union> {n..<n'}"
    and "LowerBlock b n = Inr (C, n') \<Longrightarrow> targets C \<subseteq> block_targets b \<union> {n..<n'}"
proof (induction st n and b n arbitrary: C n' and C n' rule: LowerStmt_LowerBlock.induct)
  case (1 c t e n)
  from 1(3) obtain t1 e1 n1 n2 where
    l: "LowerBlock t n = Inr (t1, n1)" "LowerBlock (else_part e) n1 = Inr (else_part e1, n2)"
    "lower_if (t = []) (else_part e = []) c t1 e1 n2 = Inr (C, n')" by (rule if_lowered)
  have t: "targets t1 \<subseteq> block_targets t \<union> {n..<n1}" using 1 l(1) by blast
  have e: "targets (else_part e1) \<subseteq> block_targets (else_part e) \<union> {n1..<n2}"
    using 1 l(1,2) by (cases e) auto
  have s: "stmt_targets (If c t e) = block_targets t \<union> block_targets (else_part e)" by (cases e) simp_all
  have "n \<le> n1" "n1 \<le> n2" "n2 \<le> n'"
    using lower_labels(2) [OF l(1)] lower_labels(2) [OF l(2)] lower_if_labels [OF l(3)]
      lower_nil [OF l(1)] lower_nil [OF l(2)] by blast+
  then have "{n..<n1} \<subseteq> {n..<n'}" "{n1..<n2} \<subseteq> {n..<n'}" "{n2..<n'} \<subseteq> {n..<n'}" by auto
  with t e lower_if_targets [OF l(3)] show ?case unfolding s by blast
next
  case (2 c b n)
  then obtain b1 n1 where b: "LowerBlock b n = Inr (b1, n1)" "lower_while c b1 n1 = (C, n')"
    by (auto simp: result_simps)
  from 2(1) [OF b(1)] b(2) lower_labels(2) [OF b(1)] show ?case
    by (fastforce simp: lower_while_def)
next
  case (3 b c n)
  then obtain b1 n1 where b: "LowerBlock b n = Inr (b1, n1)" "lower_dowhile b1 c n1 = (C, n')"
    by (auto simp: result_simps)
  from 3(1) [OF b(1)] b(2) lower_labels(2) [OF b(1)] show ?case
    by (fastforce simp: lower_dowhile_def)
next
  case (4 v start c incr b n)
  then obtain b1 n1 w where b: "LowerBlock b n = Inr (b1, n1)"
    "lower_while c (b1 @ [end_assign v incr]) n1 = (w, n')" "C = start_assign v start # w"
    by (auto simp: result_simps lower_while_def)
  have "targets C = targets b1 \<union> {n1, Suc n1}" "n' = Suc (Suc n1)"
    using b(2,3) by (cases v; auto simp: lower_while_def start_assign_def end_assign_def)+
  with 4(1) [OF b(1)] lower_labels(2) [OF b(1)] show ?case by fastforce
next
  case (8 st ss n)
  then obtain c1 n1 c2 where b: "LowerStmt st n = Inr (c1, n1)" "LowerBlock ss n1 = Inr (c2, n')" "C = c1 @ c2"
    by (auto simp: result_simps)
  have "n \<le> n1" "n1 \<le> n'" using lower_labels(1) [OF b(1)] lower_labels(2) [OF b(2)] by blast+
  then have "{n..<n1} \<subseteq> {n..<n'}" "{n1..<n'} \<subseteq> {n..<n'}" by auto
  with 8(1) [OF b(1)] 8(2) [OF b(2)] show ?case unfolding b(3) targets_append block_targets.simps by blast
qed auto

section \<open>Properties\<close>

text \<open>
  The hypotheses on the labels of a function body: the labels it declares are
  distinct, they and its jump targets are in the label table, and jumps that leave
  the run leave the body.
\<close>

definition body_ok :: "stmt list \<Rightarrow> nat \<Rightarrow> bool" where
  "body_ok b n \<longleftrightarrow> (\<forall>l. count (block_labels b) l \<le> 1) \<and> set_mset (block_labels b) \<subseteq> {..<n} \<and> block_targets b \<subseteq> {..<n}"

lemma lowered_labels:
  assumes "LowerBlock b n = Inr (C, n')" "body_ok b n"
  shows "distinct (labels C)" "set (labels C) \<subseteq> {..<n'}" "targets C \<subseteq> {..<n'}"
    "set (labels C) = set_mset (block_labels b) \<union> {n..<n'}"
proof -
  have l: "n \<le> n'" "mset (labels C) = block_labels b + new_labels n n'" using lower_labels(2) [OF assms(1)] by auto
  have "set (labels C) = set_mset (mset (labels C))" by simp
  also have "\<dots> = set_mset (block_labels b) \<union> {n..<n'}" unfolding l(2) by simp
  finally show s: "set (labels C) = set_mset (block_labels b) \<union> {n..<n'}" .
  with assms(2) l(1) show "set (labels C) \<subseteq> {..<n'}" by (force simp: body_ok_def)
  show "targets C \<subseteq> {..<n'}" using lower_targets(2) [OF assms(1)] assms(2) l(1) by (force simp: body_ok_def)
  have "count (mset (labels C)) a = (if a \<in> set (labels C) then 1 else 0)" for a
  proof -
    have "count (block_labels b) a = (if a \<in># block_labels b then 1 else 0)"
      using assms(2) by (auto simp: body_ok_def count_eq_zero_iff le_Suc_eq)
    moreover have "a \<in># block_labels b \<Longrightarrow> a \<notin> {n..<n'}" using assms(2) by (auto simp: body_ok_def)
    ultimately show ?thesis unfolding l(2) s by (auto simp: count_mset_set')
  qed
  then show "distinct (labels C)" by (simp add: distinct_count_atmost_1)
qed

lemma LowerBlock_run:
  assumes l: "LowerBlock b n = Inr (C, n')" and b: "body_ok b n" and g: "list_all gosub_ok b"
    and e: "exec ext b s r" and r: "\<And>l t. r = Jumps l t \<Longrightarrow> l < n \<and> l \<notin># block_labels b"
  shows "reaches ext C (At 0 s) (final (length C) r)"
proof -
  have "outside C r" using r lowered_labels(4) [OF l b] by (cases r) (auto simp: outside_def)
  then show ?thesis
    using sem_okD [OF lowering_ok(2) [OF e l g], of "[]" "[]"] lowered_labels(1) [OF l b] by simp
qed

text \<open>
  Lowering a function body keeps its meaning: if the structured body, run from a
  state, ends normally, returns, traps or jumps out, then the lowered code, started
  at its first statement, reaches the same outcome in the same state. No conditional
  with an else part may have a then part that ends in a \<^verbatim>\<open>gosub\<close>, and an outcome that
  is a jump goes to a label that the body does not declare.
\<close>

theorem LowerBlock_correct:
  assumes "LowerBlock b n = Inr (C, n')" "body_ok b n" "list_all gosub_ok b" "exec ext b s r"
    "\<And>l t. r = Jumps l t \<Longrightarrow> l < n \<and> l \<notin># block_labels b"
  shows "reaches ext C (At 0 s) (final (length C) r)"
  using assms by (rule LowerBlock_run)

text \<open>
  (C2) \<^verbatim>\<open>LowerFunc\<close> keeps the meaning of a body that it lowers: when the structured body
  ends normally, returns, throws, traps or jumps out of the body, the lowered code
  reaches the same outcome in the same state, the short-circuit conditions split into
  jumps included. A switch, return, throw or retsub ends a run. The conditions: the labels are distinct and, with the jump targets,
  in the label table (\<open>body_ok\<close>); no run of the structured body ends in a jump to a label
  of the body itself, which the structured meaning does not follow; and no conditional
  with a non-empty else part has a then part that ends in a \<^verbatim>\<open>gosub\<close> (\<open>gosub_ok\<close>): such
  a conditional is lowered wrongly, as \<open>LowerFunc_gosub_wrong\<close> shows. What the finally
  block of a \<^verbatim>\<open>gosub\<close> does is a parameter, as for a call.
\<close>

theorem LowerFunc_correct:
  assumes f: "LowerFunc b n = Inr (C, n')" and b: "body_ok b n" and g: "list_all gosub_ok b"
    and e: "exec ext b s r" and r: "\<And>l t. r = Jumps l t \<Longrightarrow> l < n \<and> l \<notin># block_labels b"
  shows "reaches ext C (At 0 s) (final (length C) r)"
proof -
  obtain C0 n0 where l: "LowerBlock b n = Inr (C0, n0)" "LowerBrCondition C0 n0 = Inr (C, n')"
    using f by (auto simp: LowerFunc_def result_simps)
  show ?thesis
    using LowerBrCondition_run [OF l(2), of "[]"] lowered_labels [OF l(1) b] LowerBlock_run [OF l(1) b g e r]
    by simp
qed

text \<open>
  (C29) Lowering a block succeeds exactly when no conditional in it has a then part of
  nothing but nested empty blocks with an else part that is missing or not empty;
  on such a conditional the code uses a null pointer.
\<close>

theorem LowerBlock_succeeds: "is_ok (LowerBlock b n) \<longleftrightarrow> list_all lowerable b"
  by (rule lower_is_ok(2))

text \<open>
  A conditional jump whose condition is a short-circuit conjunction for
  \<^verbatim>\<open>brfalse\<close>, or disjunction for \<^verbatim>\<open>brtrue\<close>, is never lowered: the code follows the
  null successor of a statement that is in no list.
\<close>

theorem LowerBrCondition_crash:
  "LowerBrCondition (brfalse (Binary OP_cand p x y) l # ss) n = Inl (Undefined ''null successor'') \<and>
   LowerBrCondition (brtrue (Binary OP_cior p x y) l # ss) n = Inl (Undefined ''null successor'')"
  by (simp add: LowerBrCondition.simps)

text \<open>
  A then part that ends in a \<^verbatim>\<open>gosub\<close>: the structured body runs the finally block and
  ends, the lowered code comes back from it and falls into the else part.
\<close>

definition gosub_body :: "stmt list" where
  "gosub_body = [If (Constval PTY_u1 1) [Gosub 0] (Some [Dassign 0 (Constval PTY_i32 5)])]"

definition back_ext :: extern where
  "back_ext = \<lparr>other = \<lambda>_ _. None, finally_block = \<lambda>_ s. Some (Lretsub, s)\<rparr>"

definition count_state :: "int \<Rightarrow> state" where
  "count_state x = \<lparr>vars = (\<lambda>_. 0)(0 := x), regs = (\<lambda>_. 0)\<rparr>"

lemmas lower_simps = lower_dowhile_def lower_if_def CreateBrStmt_def CreateBrFalseAndGotoStmt_def
  CreateCondGotoStmt_def OpCodeNoFallThrough_def

lemmas eval_defs = count_state_def atomic_def cond_def wrap_def int_of_def ref_binary_def ref_compare_def
  prim_pred_defs prim_size_defs gosub_def back_ext_def

definition gosub_lowered :: "stmt list" where
  "gosub_lowered =
     [brfalse (Constval PTY_u1 1) 1, Gosub 0, LabelStmt 1, Dassign 0 (Constval PTY_i32 5)]"

theorem LowerFunc_gosub_wrong:
  "body_ok gosub_body 1 \<and> exec back_ext gosub_body (count_state 0) (Normal (count_state 0)) \<and>
   LowerFunc gosub_body 1 = Inr (gosub_lowered, 2) \<and>
   (step back_ext gosub_lowered ^^ 4) (At 0 (count_state 0)) = At (length gosub_lowered) (count_state 5)"
proof (intro conjI)
  show "body_ok gosub_body 1" by (simp add: body_ok_def gosub_body_def)
  show "exec back_ext gosub_body (count_state 0) (Normal (count_state 0))"
    unfolding gosub_body_def
    by (rule Cons [OF IfTrue [OF _ Cons [OF Atomic Nil]] Nil]) (simp_all add: eval_defs)
  show "LowerFunc gosub_body 1 = Inr (gosub_lowered, 2)"
    by (simp add: LowerFunc_def gosub_body_def gosub_lowered_def lower_simps
        LowerBrCondition.simps)
  show "(step back_ext gosub_lowered ^^ 4) (At 0 (count_state 0)) = At (length gosub_lowered) (count_state 5)"
    by (simp add: gosub_lowered_def eval_defs resume_def eval_nat_numeral)
qed

text \<open>A counting loop with a short-circuit condition and a \<^verbatim>\<open>gosub\<close>, for the two theorems above.\<close>

definition count_body :: "stmt list" where
  "count_body =
     [Dowhile [Dassign 0 (Binary OP_add PTY_i32 (Dread PTY_i32 0) (Constval PTY_i32 1))]
        (Binary OP_cand PTY_u1 (Compare OP_lt PTY_u1 PTY_i32 (Dread PTY_i32 0) (Constval PTY_i32 2))
           (Compare OP_ne PTY_u1 PTY_i32 (Dread PTY_i32 0) (Constval PTY_i32 7))),
      If (Constval PTY_u1 1) [Gosub 0] None, Leave Lreturn]"

lemma count_body_exec: "exec back_ext count_body (count_state 0) (Leaves Lreturn (count_state 2))"
proof -
  let ?b = "[Dassign 0 (Binary OP_add PTY_i32 (Dread PTY_i32 0) (Constval PTY_i32 1))]"
  let ?c = "Binary OP_cand PTY_u1 (Compare OP_lt PTY_u1 PTY_i32 (Dread PTY_i32 0) (Constval PTY_i32 2))
           (Compare OP_ne PTY_u1 PTY_i32 (Dread PTY_i32 0) (Constval PTY_i32 7))"
  have b: "exec back_ext ?b (count_state x) (Normal (count_state (x + 1)))" if "x = 0 \<or> x = 1" for x
    by (rule Cons [OF Atomic Nil]) (use that in \<open>auto simp: eval_defs fun_eq_iff\<close>)
  have "exec_stmt back_ext (Dowhile ?b ?c) (count_state 1) (Normal (count_state (1 + 1)))"
    by (rule DowhileEnd [OF b]) (simp_all add: eval_defs)
  moreover have "exec back_ext ?b (count_state 0) (Normal (count_state 1))" using b [of 0] by simp
  moreover have "cond ?c (count_state 1) = Some True" by (simp add: eval_defs)
  ultimately have "exec_stmt back_ext (Dowhile ?b ?c) (count_state 0) (Normal (count_state (1 + 1)))"
    by (blast intro: DowhileLoop)
  moreover have "exec back_ext [Leave Lreturn] (count_state (1 + 1)) (Leaves Lreturn (count_state (1 + 1)))"
    by (rule ConsLeave [OF Atomic]) (simp_all add: atomic_def)
  moreover have "exec_stmt back_ext (If (Constval PTY_u1 1) [Gosub 0] None) (count_state (1 + 1))
      (Normal (count_state (1 + 1)))"
    by (rule IfTrue [OF _ Cons [OF Atomic Nil]]) (simp_all add: eval_defs)
  ultimately show ?thesis unfolding count_body_def by (auto intro: Cons)
qed

lemma count_body_ok: "body_ok count_body 1"
  by (simp add: body_ok_def count_body_def)

lemma count_body_gosub_ok: "list_all gosub_ok count_body"
  by (simp add: count_body_def)

theorem LowerBlock_correct_witness:
  "\<exists>C n'. LowerBlock count_body 1 = Inr (C, n') \<and>
     reaches back_ext C (At 0 (count_state 0)) (Left Lreturn (count_state 2))"
proof -
  obtain C n' where l: "LowerBlock count_body 1 = Inr (C, n')"
    by (simp add: count_body_def lower_simps)
  with LowerBlock_correct [OF l count_body_ok count_body_gosub_ok count_body_exec] show ?thesis by (simp add: final_def)
qed

theorem LowerFunc_correct_witness:
  "\<exists>C n'. LowerFunc count_body 1 = Inr (C, n') \<and>
     reaches back_ext C (At 0 (count_state 0)) (Left Lreturn (count_state 2))"
proof -
  obtain C n' where l: "LowerFunc count_body 1 = Inr (C, n')"
    by (simp add: LowerFunc_def count_body_def lower_simps LowerBrCondition.simps)
  with LowerFunc_correct [OF l count_body_ok count_body_gosub_ok count_body_exec] show ?thesis by (simp add: final_def)
qed

end
