(* ===== verification/SwitchLower.thy ===== *)
theory SwitchLower
  imports MirLower Complex_Main
begin

text \<open>
  Lowering of switch statements: \<^verbatim>\<open>maple_be/src/be/switch_lowerer.cpp\<close>. The sorted
  table of cases is cut into dense clusters, which become indexed jumps, and single
  cases; the items are then arranged into a decision tree of comparisons. The
  generated code is a block of the lowered statements of \<open>MirLower\<close>, and runs on the
  same machine. The field \<^verbatim>\<open>jumpToDefaultBlockGenerated\<close> and the label table are
  passed along. Case tags are 64-bit words compared with sign; a constant made of a
  tag in the type of the operand reads as \<open>int_of\<close> (\<^verbatim>\<open>GetOrCreateIntConst\<close>).
\<close>

section \<open>The switch statement\<close>

record SwitchNode =
  switchOpnd :: expr
  defaultLabel :: nat
  switchTable :: "(int64 \<times> nat) list"

fun GetPrimType :: "expr \<Rightarrow> PrimType" where
  "GetPrimType (Constval p _) = p"
| "GetPrimType (Dread p _) = p"
| "GetPrimType (Regread p _) = p"
| "GetPrimType (Unary _ p _) = p"
| "GetPrimType (Binary _ p _ _) = p"
| "GetPrimType (Compare _ p _ _ _) = p"

abbreviation case_tag :: "SwitchNode \<Rightarrow> nat \<Rightarrow> int64" where
  "case_tag sw i \<equiv> fst (switchTable sw ! i)"

abbreviation case_label :: "SwitchNode \<Rightarrow> nat \<Rightarrow> nat" where
  "case_label sw i \<equiv> snd (switchTable sw ! i)"

abbreviation kClusterSwitchCutoff :: nat where "kClusterSwitchCutoff \<equiv> 6"

section \<open>Single-precision arithmetic\<close>

text \<open>
  The density of a range of tags is computed in \<^verbatim>\<open>float\<close>: 24 significant bits,
  round to nearest, ties to even. The values are between \<open>2\<close> to the \<open>-64\<close> and \<open>2\<close>
  to the \<open>64\<close>, so neither overflow nor subnormal numbers occur.
\<close>

fun bits :: "nat \<Rightarrow> nat" where
  "bits n = (if n = 0 then 0 else Suc (bits (n div 2)))"

declare bits.simps [simp del]

definition round_half_even :: "rat \<Rightarrow> int" where
  "round_half_even q =
     (let f = \<lfloor>q\<rfloor>; d = q - of_int f in
      if d < 1 / 2 then f else if d > 1 / 2 then f + 1 else if even f then f else f + 1)"

definition float_exponent :: "rat \<Rightarrow> int" where
  "float_exponent q =
     (let (a, b) = quotient_of \<bar>q\<bar>; k = int (bits (nat a)) - int (bits (nat b)) in
      if \<bar>q\<bar> \<ge> 2 powi k then k - 23 else k - 24)"

definition to_float :: "rat \<Rightarrow> rat" where
  "to_float q = (if q = 0 then 0 else of_int (round_half_even (q / 2 powi float_exponent q)) * 2 powi float_exponent q)"

definition kClusterSwitchDensityHigh :: rat where "kClusterSwitchDensityHigh = to_float (9 / 10)"
definition kClusterSwitchDensityLow :: rat where "kClusterSwitchDensityLow = to_float (7 / 10)"
definition kMaxRangeGotoTableSize :: rat where "kMaxRangeGotoTableSize = 127"

text \<open>
  The test of one pair of bounds. Two tags that are equal as floats make the
  quotient infinite, which is above every bound.
\<close>

definition dense_enough :: "SwitchNode \<Rightarrow> nat \<Rightarrow> nat \<Rightarrow> bool" where
  "dense_enough sw i j =
     (let tmp1 = to_float (of_nat (j - i));
          tmp2 = to_float (to_float (of_int (sint (case_tag sw j))) - to_float (of_int (sint (case_tag sw i))));
          currDensity = to_float (tmp1 / tmp2)
      in j - i \<ge> kClusterSwitchCutoff \<and>
         (tmp2 = 0 \<or> currDensity \<ge> kClusterSwitchDensityHigh \<or>
          (currDensity \<ge> kClusterSwitchDensityLow \<and> tmp2 < kMaxRangeGotoTableSize)))"

section \<open>Clusters and switch items\<close>

text \<open>The inner loop of \<^verbatim>\<open>FindClusters\<close> tries the ends from the largest down.\<close>

fun find_cluster_end :: "SwitchNode \<Rightarrow> nat \<Rightarrow> nat \<Rightarrow> nat option" where
  "find_cluster_end sw i j =
     (if j \<le> i then None else if dense_enough sw i j then Some j else find_cluster_end sw i (j - 1))"

declare find_cluster_end.simps [simp del]

lemma find_cluster_end_Some:
  "find_cluster_end sw i j = Some k \<Longrightarrow> i < k \<and> k \<le> j \<and> dense_enough sw i k"
  by (induction sw i j rule: find_cluster_end.induct)
    (subst (asm) (2) find_cluster_end.simps, auto split: if_splits)

function FindClusters_from :: "SwitchNode \<Rightarrow> nat \<Rightarrow> (nat \<times> nat) list" where
  "FindClusters_from sw i =
     (let len = length (switchTable sw) in
      if i + kClusterSwitchCutoff < len then
        (case find_cluster_end sw i (len - 1) of
           Some j \<Rightarrow> (i, j) # FindClusters_from sw (Suc j)
         | None \<Rightarrow> FindClusters_from sw (Suc i))
      else [])"
  by pat_completeness auto
termination
  by (relation "measure (\<lambda>(sw, i). length (switchTable sw) - i)") (auto dest: find_cluster_end_Some)

declare FindClusters_from.simps [simp del]

definition FindClusters :: "SwitchNode \<Rightarrow> (nat \<times> nat) list" where
  "FindClusters sw = FindClusters_from sw 0"

text \<open>
  The loop of \<^verbatim>\<open>InitSwitchItems\<close>: \<open>front\<close> is the cluster to come, and stays the last
  one when there is none. A cluster ends after it starts.
\<close>

function init_items :: "nat \<Rightarrow> nat \<times> nat \<Rightarrow> (nat \<times> nat) list \<Rightarrow> nat \<Rightarrow> (nat \<times> nat) list" where
  "init_items len front rest i =
     (if i < len then
        if i = fst front then
          (let i' = max (Suc i) (Suc (snd front)) in
           (i, snd front) # (case rest of [] \<Rightarrow> init_items len front [] i' | f # r \<Rightarrow> init_items len f r i'))
        else (i, 0) # init_items len front rest (Suc i)
      else [])"
  by pat_completeness auto
termination
  by (relation "measure (\<lambda>(len, front, rest, i). len - i)") auto

declare init_items.simps [simp del]

definition InitSwitchItems :: "SwitchNode \<Rightarrow> (nat \<times> nat) list \<Rightarrow> (nat \<times> nat) list" where
  "InitSwitchItems sw clusters =
     (let len = length (switchTable sw) in
      case clusters of [] \<Rightarrow> map (\<lambda>i. (i, 0)) [0..<len] | f # r \<Rightarrow> init_items len f r 0)"

section \<open>Statement builders\<close>

text \<open>
  The gap between two tags is filled with jumps to the default label. The index of
  an entry is truncated to 32 bits and then, like its label, to the 16 bits of
  \<^verbatim>\<open>SmallCasePair\<close>; the offset is the low 32 bits of the first tag.
\<close>

definition small_case :: "int64 \<Rightarrow> int32 \<Rightarrow> nat \<Rightarrow> uint16 \<times> uint16" where
  "small_case tag off l = (ucast (low32 (tag - sext32 off)), word_of_nat l)"

lemma fill_gap_measure:
  assumes "t \<noteq> prev" shows "unat (t - (prev + 1)) < unat (t - (prev :: 64 word))"
proof -
  have "t - prev \<noteq> 0" using assms by simp
  then have "0 < unat (t - prev)" by (simp add: unat_gt_0)
  moreover have "t - (prev + 1) = (t - prev) - 1" by simp
  ultimately show ?thesis by (metis \<open>t - prev \<noteq> 0\<close> measure_unat)
qed

function fill_gap :: "int64 \<Rightarrow> int32 \<Rightarrow> nat \<Rightarrow> int64 \<Rightarrow> (uint16 \<times> uint16) list" where
  "fill_gap t off dflt prev =
     (if t \<noteq> prev + 1 \<and> t \<noteq> prev then small_case (prev + 1) off dflt # fill_gap t off dflt (prev + 1) else [])"
  by pat_completeness auto
termination
  by (relation "measure (\<lambda>(t, off, dflt, prev). unat (t - prev))") (auto intro: fill_gap_measure)

declare fill_gap.simps [simp del]

fun range_entries :: "SwitchNode \<Rightarrow> int32 \<Rightarrow> int64 \<Rightarrow> nat list \<Rightarrow> (uint16 \<times> uint16) list" where
  "range_entries sw off prev [] = []"
| "range_entries sw off prev (i # is) =
     fill_gap (case_tag sw i) off (defaultLabel sw) prev @ small_case (case_tag sw i) off (case_label sw i) #
     range_entries sw off (case_tag sw i) is"

definition BuildRangeGotoNode :: "SwitchNode \<Rightarrow> nat \<Rightarrow> nat \<Rightarrow> stmt" where
  "BuildRangeGotoNode sw startIdx endIdx =
     (let off = low32 (case_tag sw startIdx) in
      RangeGoto (switchOpnd sw) off
        ((0, word_of_nat (case_label sw startIdx)) #
         range_entries sw off (case_tag sw startIdx) [Suc startIdx..<Suc endIdx]))"

definition BuildCmpNode :: "SwitchNode \<Rightarrow> Opcode \<Rightarrow> nat \<Rightarrow> expr" where
  "BuildCmpNode sw opCode idx =
     (let ty = GetPrimType (switchOpnd sw) in
      Compare opCode PTY_u32 ty (switchOpnd sw) (Constval ty (case_tag sw idx)))"

text \<open>\<open>None\<close> is the index \<open>-1\<close>, the default label.\<close>

definition label_of :: "SwitchNode \<Rightarrow> nat option \<Rightarrow> nat" where
  "label_of sw idx = (case idx of None \<Rightarrow> defaultLabel sw | Some i \<Rightarrow> case_label sw i)"

definition BuildGotoNode :: "SwitchNode \<Rightarrow> nat option \<Rightarrow> stmt" where
  "BuildGotoNode sw idx = Goto (label_of sw idx)"

definition BuildCondGotoNode :: "SwitchNode \<Rightarrow> nat option \<Rightarrow> bool \<Rightarrow> expr \<Rightarrow> stmt" where
  "BuildCondGotoNode sw idx op c = CondGoto op c (label_of sw idx)"

section \<open>The decision tree\<close>

type_synonym switch_items = "(nat \<times> nat) list"

text \<open>
  The loop over the dense items at the low side: the statements it adds, and the
  start index, the flag \<^verbatim>\<open>lowBlockNodeChecked\<close> and the label table after it.
\<close>

function low_dense :: "SwitchNode \<Rightarrow> switch_items \<Rightarrow> int \<Rightarrow> int \<Rightarrow> bool \<Rightarrow> nat \<Rightarrow>
    (stmt list \<times> int \<times> bool \<times> nat) result" where
  "low_dense sw items start end low n =
     (if start \<le> end \<and> snd (items ! nat start) \<noteq> 0 then
        (let it = items ! nat start;
             pre = (if \<not> low \<and> \<not> (IsUnsignedInteger (GetPrimType (switchOpnd sw)) \<and> case_tag sw (fst it) = 0)
                    then [BuildCondGotoNode sw None True (BuildCmpNode sw OP_lt (fst it))] else []);
             low' = (if start < end
                     then case_tag sw (snd it) + 1 = case_tag sw (fst (items ! nat (start + 1))) else True)
         in bind_result (LowerIfStmt (BuildCmpNode sw OP_le (snd it)) [BuildRangeGotoNode sw (fst it) (snd it)] None n)
              (\<lambda>(ifc, n1). bind_result (low_dense sw items (start + 1) end low' n1)
                (\<lambda>(c, r). Inr (pre @ ifc @ c, r))))
      else Inr ([], start, low, n))"
  by pat_completeness auto
termination
  by (relation "measure (\<lambda>(sw, items, start, end, low, n). nat (end + 1 - start))") auto

declare low_dense.simps [simp del]

text \<open>The loop over the dense items at the high side.\<close>

function high_dense :: "SwitchNode \<Rightarrow> switch_items \<Rightarrow> int \<Rightarrow> int \<Rightarrow> bool \<Rightarrow> nat \<Rightarrow>
    (stmt list \<times> int \<times> bool \<times> nat) result" where
  "high_dense sw items start end high n =
     (if start \<le> end \<and> snd (items ! nat end) \<noteq> 0 then
        (let it = items ! nat end; prior = items ! nat (end - 1);
             pre = (if \<not> high then [BuildCondGotoNode sw None True (BuildCmpNode sw OP_gt (snd it))] else []);
             high' = (if start < end
                      then case_tag sw (fst it) - 1 = case_tag sw (fst prior) \<or>
                           case_tag sw (fst it) - 1 = case_tag sw (snd prior) else True)
         in bind_result (LowerIfStmt (BuildCmpNode sw OP_ge (fst it)) [BuildRangeGotoNode sw (fst it) (snd it)] None n)
              (\<lambda>(ifc, n1). bind_result (high_dense sw items start (end - 1) high' n1)
                (\<lambda>(c, r). Inr (pre @ ifc @ c, r))))
      else Inr ([], end, high, n))"
  by pat_completeness auto
termination
  by (relation "measure (\<lambda>(sw, items, start, end, high, n). nat (end + 1 - start))") auto

declare high_dense.simps [simp del]

text \<open>The loop of equality checks: the statements, the start index and the flag after it.\<close>

function equal_checks :: "SwitchNode \<Rightarrow> switch_items \<Rightarrow> int \<Rightarrow> int \<Rightarrow> bool \<Rightarrow> bool \<Rightarrow>
    stmt list \<times> int \<times> bool" where
  "equal_checks sw items start end low high =
     (if start \<le> end \<and> snd (items ! nat start) = 0 then
        (let it = items ! nat start;
             st = (if start = end \<and> low \<and> high then BuildGotoNode sw (Some (fst it))
                   else BuildCondGotoNode sw (Some (fst it)) True (BuildCmpNode sw OP_eq (fst it)));
             low' = (if low \<and> start < end
                     then case_tag sw (fst it) + 1 = case_tag sw (fst (items ! nat (start + 1))) else low);
             (c, r) = equal_checks sw items (start + 1) end low' high
         in (st # c, r))
      else ([], start, low))"
  by pat_completeness auto
termination
  by (relation "measure (\<lambda>(sw, items, start, end, low, high). nat (end + 1 - start))") auto

declare equal_checks.simps [simp del]

text \<open>
  \<^verbatim>\<open>middleTag\<close>: half the difference above the lowest tag when the signs agree, else
  half the sum, both rounded towards zero.
\<close>

definition middle_tag :: "int64 \<Rightarrow> int64 \<Rightarrow> int64" where
  "middle_tag lowestTag highestTag =
     (if (lowestTag XOR highestTag) AND push_bit 63 1 = 0
      then word_of_int (c_div (sint (highestTag - lowestTag)) 2) + lowestTag
      else word_of_int (c_div (sint (highestTag + lowestTag)) 2))"

text \<open>The search for the middle item; it runs past the items when no tag is large enough.\<close>

function find_mid :: "SwitchNode \<Rightarrow> switch_items \<Rightarrow> int64 \<Rightarrow> int \<Rightarrow> int result" where
  "find_mid sw items middleTag mid =
     (if mid < 0 \<or> int (length items) \<le> mid then Inl (Undefined ''switch item out of range'')
      else if sint (case_tag sw (fst (items ! nat mid))) < sint middleTag then find_mid sw items middleTag (mid + 1)
      else Inr mid)"
  by pat_completeness auto
termination
  by (relation "measure (\<lambda>(sw, items, t, mid). nat (int (length items) - mid))") auto

declare find_mid.simps [simp del]

text \<open>
  \<^verbatim>\<open>BuildCodeForSwitchItems\<close>. The last component of the result is the flag
  \<^verbatim>\<open>jumpToDefaultBlockGenerated\<close>; the first argument bounds the depth of the
  recursion, which does not end when a middle item is the first one.
\<close>

definition goto_default :: "SwitchNode \<Rightarrow> bool \<Rightarrow> bool \<Rightarrow> bool \<Rightarrow> stmt list \<times> bool" where
  "goto_default sw low high gen = (if \<not> low \<or> \<not> high then ([BuildGotoNode sw None], True) else ([], gen))"

fun BuildCodeForSwitchItems :: "nat \<Rightarrow> SwitchNode \<Rightarrow> switch_items \<Rightarrow> int \<Rightarrow> int \<Rightarrow> bool \<Rightarrow> bool \<Rightarrow>
    bool \<Rightarrow> nat \<Rightarrow> (stmt list \<times> bool \<times> nat) result" where
  "BuildCodeForSwitchItems 0 sw items start end low high gen n = Inl (Undefined ''unbounded recursion'')"
| "BuildCodeForSwitchItems (Suc fuel) sw items start0 end0 low0 high0 gen n =
     (if start0 > end0 then Inr ([], gen, n)
      else bind_result (low_dense sw items start0 end0 low0 n) (\<lambda>(c1, start, low, n1).
       bind_result (high_dense sw items start end0 high0 n1) (\<lambda>(c2, end, high, n2).
        if start > end then
          (let (d, gen') = goto_default sw low high gen in Inr (c1 @ c2 @ d, gen', n2))
        else if start = end \<and> low \<and> high then
          Inr (c1 @ c2 @ [BuildGotoNode sw (Some (fst (items ! nat start)))], gen, n2)
        else if end < start + int kClusterSwitchCutoff then
          (let (c3, start', low') = equal_checks sw items start end low high in
           if start' \<le> end then
             bind_result (BuildCodeForSwitchItems fuel sw items start' end low' high gen n2)
               (\<lambda>(c4, r). Inr (c1 @ c2 @ c3 @ c4, r))
           else (let (d, gen') = goto_default sw low' high gen in Inr (c1 @ c2 @ c3 @ d, gen', n2)))
        else
          bind_result (find_mid sw items
              (middle_tag (case_tag sw (fst (items ! nat start))) (case_tag sw (fst (items ! nat end)))) start) (\<lambda>mid.
            if mid < 1 then Inl (Undefined ''switch item out of range'') else
            (let tagMid = case_tag sw (fst (items ! nat mid)); left = items ! nat (mid - 1);
                 leftHigh = (case_tag sw (fst left) + 1 = tagMid \<or> case_tag sw (snd left) + 1 = tagMid);
                 notGe = Unary OP_lnot PTY_u1 (BuildCmpNode sw OP_ge (fst (items ! nat mid)))
             in bind_result (BuildCodeForSwitchItems fuel sw items start (mid - 1) low leftHigh gen n2) (\<lambda>(t, gen1, n3).
                bind_result (BuildCodeForSwitchItems fuel sw items mid end True high gen1 n3) (\<lambda>(e, gen2, n4).
                bind_result (LowerIfStmt notGe t (Some e) n4) (\<lambda>(ifc, n5).
                  Inr (c1 @ c2 @ ifc, gen2, n5)))))))))"

declare BuildCodeForSwitchItems.simps(2) [simp del]

definition SortCasePair :: "SwitchNode \<Rightarrow> SwitchNode" where
  "SortCasePair sw = sw\<lparr>switchTable := sort_key (sint \<circ> fst) (switchTable sw)\<rparr>"

definition LowerSwitch :: "SwitchNode \<Rightarrow> nat \<Rightarrow> (stmt list \<times> nat) result" where
  "LowerSwitch sw0 n =
     (if switchTable sw0 = [] then Inr ([BuildGotoNode sw0 None], n)
      else (let sw = SortCasePair sw0; items = InitSwitchItems sw (FindClusters sw) in
        bind_result (BuildCodeForSwitchItems (Suc (length items)) sw items 0 (int (length items) - 1) False False False n)
          (\<lambda>(blk, gen, n1). Inr (if gen then blk else blk @ [BuildGotoNode sw None], n1))))"

section \<open>The tags of a sorted switch\<close>

abbreviation T :: "SwitchNode \<Rightarrow> nat \<Rightarrow> int" where
  "T sw k \<equiv> sint (case_tag sw k)"

abbreviation ncases :: "SwitchNode \<Rightarrow> nat" where
  "ncases sw \<equiv> length (switchTable sw)"

text \<open>
  The tags are read in the type of the operand as they are compared when sorted,
  they fit the 32-bit offset of an indexed jump, and the labels its 16-bit entries.
\<close>

definition case_ok :: "SwitchNode \<Rightarrow> int64 \<times> nat \<Rightarrow> bool" where
  "case_ok sw c \<longleftrightarrow> int_of (GetPrimType (switchOpnd sw)) (fst c) = sint (fst c) \<and>
     - (2 ^ 31) \<le> sint (fst c) \<and> sint (fst c) < 2 ^ 31 \<and> snd c < 2 ^ 16"

definition switch_ok :: "SwitchNode \<Rightarrow> bool" where
  "switch_ok sw \<longleftrightarrow> GetPrimType (switchOpnd sw) \<in> int_types \<and> defaultLabel sw < 2 ^ 16 \<and>
     (\<forall>c \<in> set (switchTable sw). case_ok sw c)"

definition sorted_switch :: "SwitchNode \<Rightarrow> bool" where
  "sorted_switch sw \<longleftrightarrow> switch_ok sw \<and> sorted_wrt (<) (map (sint \<circ> fst) (switchTable sw))"

definition operand_is :: "SwitchNode \<Rightarrow> state \<Rightarrow> int \<Rightarrow> bool" where
  "operand_is sw s x \<longleftrightarrow> eval (switchOpnd sw) s = Some x \<and> wrap (GetPrimType (switchOpnd sw)) x = x"

text \<open>The label a switch statement jumps to.\<close>

definition switch_target :: "SwitchNode \<Rightarrow> int \<Rightarrow> nat" where
  "switch_target sw x =
     (case map_of (map (\<lambda>(t, l). (sint t, l)) (switchTable sw)) x of None \<Rightarrow> defaultLabel sw | Some l \<Rightarrow> l)"

lemma sorted_T: "sorted_switch sw \<Longrightarrow> i < j \<Longrightarrow> j < ncases sw \<Longrightarrow> T sw i < T sw j"
  using sorted_wrt_nth_less [of "(<)" "map (sint \<circ> fst) (switchTable sw)" i j]
  by (simp add: sorted_switch_def)

lemma sorted_T_le: "sorted_switch sw \<Longrightarrow> i \<le> j \<Longrightarrow> j < ncases sw \<Longrightarrow> T sw i \<le> T sw j"
  using sorted_T [of sw i j] by (cases "i = j") auto

lemma sorted_T_iff: "sorted_switch sw \<Longrightarrow> i < ncases sw \<Longrightarrow> j < ncases sw \<Longrightarrow> T sw i < T sw j \<longleftrightarrow> i < j"
  using sorted_T [of sw i j] sorted_T_le [of sw j i] by (meson leD not_le_imp_less)

lemma sorted_case_ok: "sorted_switch sw \<Longrightarrow> k < ncases sw \<Longrightarrow> case_ok sw (switchTable sw ! k)"
  by (simp add: sorted_switch_def switch_ok_def)

lemma switch_target_none: "(\<And>k. k < ncases sw \<Longrightarrow> T sw k \<noteq> x) \<Longrightarrow> switch_target sw x = defaultLabel sw"
proof -
  assume n: "\<And>k. k < ncases sw \<Longrightarrow> T sw k \<noteq> x"
  have "sint (fst c) \<noteq> x" if "c \<in> set (switchTable sw)" for c using that n by (metis in_set_conv_nth)
  then have "map_of (map (\<lambda>(t, l). (sint t, l)) (switchTable sw)) x = None"
    by (force simp: map_of_eq_None_iff)
  then show ?thesis by (simp add: switch_target_def)
qed

lemma switch_target_at:
  assumes "sorted_switch sw" "k < ncases sw" "T sw k = x"
  shows "switch_target sw x = case_label sw k"
proof -
  have "distinct (map (sint \<circ> fst) (switchTable sw))"
    using assms(1) strict_sorted_iff by (auto simp: sorted_switch_def)
  then have "distinct (map fst (map (\<lambda>(t, l). (sint t, l)) (switchTable sw)))"
    by (simp add: comp_def case_prod_beta)
  moreover have "(x, case_label sw k) \<in> set (map (\<lambda>(t, l). (sint t, l)) (switchTable sw))"
    using assms(2,3) by (force simp: in_set_conv_nth case_prod_beta)
  ultimately show ?thesis by (simp add: switch_target_def)
qed

lemma switch_target_bound: "switch_ok sw \<Longrightarrow> switch_target sw x < 2 ^ 16"
  by (fastforce simp: switch_target_def switch_ok_def case_ok_def split: option.splits dest!: map_of_SomeD)

section \<open>Comparisons with a tag\<close>

lemma wrap_bool: "wrap PTY_u32 (bool_int b) = bool_int b" "wrap PTY_u1 (bool_int b) = bool_int b"
  by (cases b; simp add: wrap_def prim_pred_defs prim_size_defs)+

lemma cmp_cond:
  assumes "sorted_switch sw" "operand_is sw s x" "k < ncases sw"
  shows "cond (BuildCmpNode sw OP_lt k) s = Some (x < T sw k)"
    "cond (BuildCmpNode sw OP_le k) s = Some (x \<le> T sw k)"
    "cond (BuildCmpNode sw OP_gt k) s = Some (x > T sw k)"
    "cond (BuildCmpNode sw OP_ge k) s = Some (x \<ge> T sw k)"
    "cond (BuildCmpNode sw OP_eq k) s = Some (x = T sw k)"
    "cond (Unary OP_lnot PTY_u1 (BuildCmpNode sw OP_ge k)) s = Some (x < T sw k)"
proof -
  have "int_of (GetPrimType (switchOpnd sw)) (case_tag sw k) = T sw k"
    using sorted_case_ok [OF assms(1,3)] by (simp add: case_ok_def)
  then have e: "eval (BuildCmpNode sw opcode k) s = map_option (wrap PTY_u32) (ref_compare opcode x (T sw k))" for opcode
    using assms(2) by (simp add: BuildCmpNode_def operand_is_def Let_def)
  show "cond (BuildCmpNode sw OP_lt k) s = Some (x < T sw k)"
    "cond (BuildCmpNode sw OP_le k) s = Some (x \<le> T sw k)"
    "cond (BuildCmpNode sw OP_gt k) s = Some (x > T sw k)"
    "cond (BuildCmpNode sw OP_ge k) s = Some (x \<ge> T sw k)"
    "cond (BuildCmpNode sw OP_eq k) s = Some (x = T sw k)"
    "cond (Unary OP_lnot PTY_u1 (BuildCmpNode sw OP_ge k)) s = Some (x < T sw k)"
    by (simp_all add: cond_def e ref_compare_def wrap_bool ref_unary_def) auto
qed

section \<open>Indexed jumps\<close>

lemma sint_Suc:
  assumes "sint (t::int64) < sint (u::int64)" shows "sint (t + 1) = sint t + 1"
proof -
  have "sint (t + 1) = signed_take_bit 63 (sint t + sint (1::int64))" by (simp add: sint_word_ariths)
  also have "\<dots> = sint t + 1"
    using assms sint_lt [of u] sint_ge [of t] by (simp add: signed_take_bit_int_eq_self)
  finally show ?thesis .
qed

lemma fill_gap_spec:
  assumes "sint prev < sint t"
  shows "map snd (fill_gap t off dflt prev) = map (\<lambda>_. word_of_nat dflt) [sint prev + 1..sint t - 1]"
  using assms
proof (induction t off dflt prev rule: fill_gap.induct)
  case (1 t off dflt prev)
  have s: "sint (prev + 1) = sint prev + 1" using 1(2) by (rule sint_Suc)
  show ?case
  proof (cases "t = prev + 1")
    case True
    then show ?thesis using s by (subst fill_gap.simps) simp
  next
    case False
    then have "sint t \<noteq> sint (prev + 1)" by (metis signed_word_eqI)
    then have lt: "sint (prev + 1) < sint t" using 1(2) s by linarith
    with False 1 show ?thesis
      by (subst fill_gap.simps) (auto simp: small_case_def s upto_rec1 [of "sint prev + 1"])
  qed
qed

lemma range_entries_spec:
  assumes "sorted_switch sw" "a \<le> b" "b < ncases sw"
  shows "map snd (range_entries sw off (case_tag sw a) [Suc a..<Suc b]) =
     map (\<lambda>v. word_of_nat (switch_target sw v)) [T sw a + 1..T sw b]"
  using assms(2,3)
proof (induction "b - a" arbitrary: a)
  case 0
  then show ?case by simp
next
  case (Suc d)
  then have ab: "Suc a \<le> b" "a < Suc b" by simp_all
  have lt: "T sw a < T sw (Suc a)" using sorted_T [OF assms(1), of a "Suc a"] ab Suc.prems by simp
  have le: "T sw (Suc a) \<le> T sw b" using sorted_T_le [OF assms(1) ab(1)] Suc.prems by simp
  have gap: "switch_target sw v = defaultLabel sw" if "T sw a < v" "v < T sw (Suc a)" for v
  proof (rule switch_target_none)
    fix k assume "k < ncases sw"
    then show "T sw k \<noteq> v"
      using sorted_T_le [OF assms(1), of k a] sorted_T_le [OF assms(1), of "Suc a" k] that ab Suc.prems
      by (cases "k \<le> a") force+
  qed
  have split: "[T sw a + 1..T sw b] = [T sw a + 1..T sw (Suc a) - 1] @ T sw (Suc a) # [T sw (Suc a) + 1..T sw b]"
    by (rule upto_split3) (use lt le in simp_all)
  have u: "[Suc a..<Suc b] = Suc a # [Suc (Suc a)..<Suc b]" using ab by (simp add: upt_rec)
  have g: "map (\<lambda>v. word_of_nat (switch_target sw v)) [T sw a + 1..T sw (Suc a) - 1]
      = map (\<lambda>_. word_of_nat (defaultLabel sw) :: uint16) [T sw a + 1..T sw (Suc a) - 1]"
    using gap by simp
  have "map snd (range_entries sw off (case_tag sw (Suc a)) [Suc (Suc a)..<Suc b]) =
      map (\<lambda>v. word_of_nat (switch_target sw v)) [T sw (Suc a) + 1..T sw b]"
    using Suc.hyps(1) [of "Suc a"] Suc.hyps(2) Suc.prems ab by simp
  moreover have "switch_target sw (T sw (Suc a)) = case_label sw (Suc a)"
    using switch_target_at [OF assms(1), of "Suc a"] ab Suc.prems by simp
  ultimately show ?case
    unfolding u range_entries.simps split map_append list.map fill_gap_spec [OF lt] g
    by (simp add: small_case_def)
qed


lemma sint_low32:
  assumes "- (2 ^ 31) \<le> sint v" "sint v < 2 ^ 31"
  shows "sint (low32 v) = sint v"
proof -
  have "(word_of_int (sint v) :: int64) = v" by simp
  then have "low32 v = word_of_int (sint v)" using low32_word_of_int [of "sint v"] by metis
  then have "sint (low32 v) = signed_take_bit 31 (sint v)" by (simp only: sint_word_of_int32)
  with assms show ?thesis by (simp add: signed_take_bit_int_eq_self)
qed

lemma range_goto:
  assumes sw: "sorted_switch sw" and x: "operand_is sw s x" and ab: "a \<le> b" "b < ncases sw"
    and xab: "T sw a \<le> x" "x \<le> T sw b"
  shows "atomic ext (BuildRangeGotoNode sw a b) s = Some (Jumps (switch_target sw x) s)"
proof -
  have a: "a < ncases sw" using ab by simp
  let ?off = "low32 (case_tag sw a)"
  let ?tab = "(0, word_of_nat (case_label sw a)) # range_entries sw ?off (case_tag sw a) [Suc a..<Suc b]"
  have off: "sint ?off = T sw a" using sorted_case_ok [OF sw a] by (intro sint_low32) (simp_all add: case_ok_def)
  have "T sw a \<le> T sw b" using xab by linarith
  then have tab: "map snd ?tab = map (\<lambda>v. word_of_nat (switch_target sw v)) [T sw a..T sw b]"
    using range_entries_spec [OF sw ab, of ?off] switch_target_at [OF sw a] by (simp add: upto_rec1)
  then have len: "length ?tab = nat (T sw b - T sw a + 1)" by (metis length_map length_upto)
  have i: "nat (x - T sw a) < length ?tab" unfolding len using xab by linarith
  have "snd (?tab ! nat (x - T sw a)) = map snd ?tab ! nat (x - T sw a)" using i by (rule nth_map [symmetric])
  also have "\<dots> = word_of_nat (switch_target sw x)" unfolding tab using xab by (simp add: nth_upto)
  finally have "unat (snd (?tab ! nat (x - T sw a))) = switch_target sw x"
    using switch_target_bound [of sw x] sw by (simp add: sorted_switch_def unsigned_of_nat take_bit_nat_eq_self)
  moreover have "x - T sw a < int (length ?tab)" unfolding len using xab by linarith
  ultimately show ?thesis
    using x xab off by (simp add: BuildRangeGotoNode_def atomic_def operand_is_def Let_def)
qed

section \<open>Switch items\<close>

text \<open>The last case of an item, and the items as a partition of the sorted table.\<close>

definition item_end :: "nat \<times> nat \<Rightarrow> nat" where
  "item_end it = (if snd it = 0 then fst it else snd it)"

fun covers :: "switch_items \<Rightarrow> nat \<Rightarrow> nat \<Rightarrow> bool" where
  "covers [] a m \<longleftrightarrow> a = m"
| "covers (it # r) a m \<longleftrightarrow> fst it = a \<and> a \<le> item_end it \<and> covers r (Suc (item_end it)) m"

lemma covers_le: "covers items a m \<Longrightarrow> a \<le> m"
  by (induction items arbitrary: a) fastforce+

lemma covers_nth:
  "covers items a m \<Longrightarrow> i < length items \<Longrightarrow>
     a \<le> fst (items ! i) \<and> fst (items ! i) \<le> item_end (items ! i) \<and> item_end (items ! i) < m"
proof (induction items arbitrary: a i)
  case (Cons it r)
  then show ?case using covers_le [of r "Suc (item_end it)" m] by (cases i) fastforce+
qed simp

lemma covers_next:
  "covers items a m \<Longrightarrow> Suc i < length items \<Longrightarrow> fst (items ! Suc i) = Suc (item_end (items ! i))"
proof (induction items arbitrary: a i)
  case (Cons it r)
  then show ?case by (cases i; cases r) auto
qed simp

lemma covers_ends:
  "covers items a m \<Longrightarrow> items \<noteq> [] \<Longrightarrow>
     fst (items ! 0) = a \<and> Suc (item_end (items ! (length items - 1))) = m"
proof (induction items arbitrary: a)
  case (Cons it r)
  then show ?case by (cases r) auto
qed simp

lemma covers_mono:
  assumes "covers items a m" "i \<le> j" "j < length items"
  shows "fst (items ! i) \<le> fst (items ! j)"
  using assms(2,3)
proof (induction j rule: dec_induct)
  case (step j)
  then show ?case
    using covers_next [OF assms(1), of j] covers_nth [OF assms(1), of j] by simp
qed simp

lemma item_int:
  assumes "covers items 0 (ncases sw)" "0 \<le> i" "i < int (length items)"
  shows "fst (items ! nat i) \<le> item_end (items ! nat i)" "item_end (items ! nat i) < ncases sw"
    "fst (items ! nat i) < ncases sw"
  using covers_nth [OF assms(1), of "nat i"] assms(2,3) by linarith+

lemma item_next:
  assumes "covers items 0 (ncases sw)" "0 \<le> i" "i + 1 < int (length items)"
  shows "fst (items ! nat (i + 1)) = Suc (item_end (items ! nat i))"
  using covers_next [OF assms(1), of "nat i"] assms(2,3) by (simp add: nat_add_distrib)

section \<open>Code that decides a range of items\<close>

text \<open>
  \<open>live start end low high x\<close>: the value \<open>x\<close> of the operand can only match the items
  from \<open>start\<close> to \<open>end\<close>, and the flags tell which of their bounds are known to hold;
  with no item left, not both of them are set.
\<close>

definition live :: "SwitchNode \<Rightarrow> switch_items \<Rightarrow> int \<Rightarrow> int \<Rightarrow> bool \<Rightarrow> bool \<Rightarrow> int \<Rightarrow> bool" where
  "live sw items start end low high x \<longleftrightarrow>
     (\<forall>k < ncases sw. T sw k = x \<longrightarrow>
        start \<le> end \<and> fst (items ! nat start) \<le> k \<and> k \<le> item_end (items ! nat end)) \<and>
     (if start \<le> end then (low \<longrightarrow> T sw (fst (items ! nat start)) \<le> x) \<and>
                          (high \<longrightarrow> x \<le> T sw (item_end (items ! nat end)))
      else \<not> (low \<and> high))"

text \<open>
  \<open>decides C P\<close>: the code jumps to the label the switch asks for, or falls through
  with \<open>P\<close>.
\<close>

definition decides :: "extern \<Rightarrow> SwitchNode \<Rightarrow> state \<Rightarrow> int \<Rightarrow> stmt list \<Rightarrow> bool \<Rightarrow> bool" where
  "decides ext sw s x C P \<longleftrightarrow>
     sem_ok ext C s (Jumps (switch_target sw x) s) \<or> (sem_ok ext C s (Normal s) \<and> P)"

lemma decides_seq:
  "decides ext sw s x C1 P1 \<Longrightarrow> (P1 \<Longrightarrow> decides ext sw s x C2 P2) \<Longrightarrow> decides ext sw s x (C1 @ C2) P2"
  by (auto simp: decides_def intro: sem_seq sem_leave)

lemma decides_nil: "P \<Longrightarrow> decides ext sw s x [] P"
  by (simp add: decides_def sem_nil)

lemma decides_mono: "decides ext sw s x C P \<Longrightarrow> (P \<Longrightarrow> Q) \<Longrightarrow> decides ext sw s x C Q"
  by (auto simp: decides_def)

lemma decides_goto: "label_of sw idx = switch_target sw x \<Longrightarrow> decides ext sw s x [BuildGotoNode sw idx] P"
  by (auto simp: decides_def BuildGotoNode_def atomic_def intro!: sem_single)

lemma decides_cond_goto:
  assumes "cond c s = Some v" "v \<Longrightarrow> label_of sw idx = switch_target sw x"
  shows "decides ext sw s x [BuildCondGotoNode sw idx True c] (\<not> v)"
  using assms by (cases v) (auto simp: decides_def BuildCondGotoNode_def atomic_cond intro!: sem_single)

lemma LowerIfStmt_single: "LowerIfStmt c [st] None n = Inr ([brfalse c n, st, LabelStmt n], Suc n)"
  by (simp add: LowerIfStmt_def lower_if_def else_empty_def CreateBrStmt_def CreateCondGotoStmt_def Let_def)

lemma decides_if:
  assumes "cond c s = Some v" "v \<Longrightarrow> atomic ext st s = Some (Jumps (switch_target sw x) s)"
  shows "decides ext sw s x [brfalse c n, st, LabelStmt n] (\<not> v)"
proof (cases v)
  case True
  then have "sem_ok ext (brfalse c n # [st] @ [LabelStmt n]) s (Jumps (switch_target sw x) s)"
    using assms by (intro sem_br [where v = True]) (auto intro: sem_single)
  then show ?thesis by (simp add: decides_def)
next
  case False
  then have "sem_ok ext (brfalse c n # [st] @ [LabelStmt n]) s (Normal s)"
    using assms by (intro sem_br [where v = False]) auto
  then show ?thesis using False by (simp add: decides_def)
qed


lemma tag_Suc:
  assumes "sorted_switch sw" "j < ncases sw" "i < j" "case_tag sw i + 1 = case_tag sw j"
  shows "T sw j = T sw i + 1"
  using sint_Suc [OF sorted_T [OF assms(1,3,2)]] assms(4) by simp

lemma tag_pred:
  assumes "sorted_switch sw" "j < ncases sw" "i < j" "case_tag sw j - 1 = case_tag sw i"
  shows "T sw j = T sw i + 1"
  using tag_Suc [OF assms(1-3)] assms(4) by (metis diff_add_cancel)

lemma live_above:
  assumes sw: "sorted_switch sw" and cov: "covers items 0 (ncases sw)"
    and se: "0 \<le> start" "start \<le> end" "end < int (length items)"
    and l: "live sw items start end low high x" and gt: "T sw (item_end (items ! nat start)) < x"
    and low': "low' \<Longrightarrow> start < end \<Longrightarrow> T sw (fst (items ! nat (start + 1))) \<le> x"
  shows "live sw items (start + 1) end low' high x"
proof -
  let ?e = "item_end (items ! nat start)"
  have e: "?e < ncases sw" using item_int [OF cov, of start] se by simp
  have k: "Suc ?e \<le> k \<and> k \<le> item_end (items ! nat end)" if "k < ncases sw" "T sw k = x" for k
    using that l gt sorted_T_iff [OF sw e, of k] by (auto simp: live_def)
  show ?thesis
  proof (cases "start < end")
    case True
    then have "fst (items ! nat (start + 1)) = Suc ?e" using item_next [OF cov, of start] se by simp
    then show ?thesis using True k l low' by (simp add: live_def)
  next
    case False
    then have "start = end" using se by simp
    then show ?thesis using k l gt by (force simp: live_def)
  qed
qed

lemma unsigned_nonneg:
  assumes "sorted_switch sw" "operand_is sw s x" "IsUnsignedInteger (GetPrimType (switchOpnd sw))"
  shows "0 \<le> x"
proof -
  let ?p = "GetPrimType (switchOpnd sw)"
  have "?p \<in> int_types" using assms(1) by (simp add: sorted_switch_def switch_ok_def)
  then have "\<not> IsSignedInteger ?p" using assms(3) int_types_signed by blast
  then have "x = x mod 2 ^ GetPrimTypeBitSize ?p" using assms(2) by (simp add: operand_is_def wrap_def)
  then show ?thesis by (metis pos_mod_sign zero_less_power zero_less_numeral)
qed

lemma below_default:
  assumes sw: "sorted_switch sw" and l: "live sw items start end low high x" and se: "start \<le> end"
    and lt: "x < T sw (fst (items ! nat start))"
  shows "switch_target sw x = defaultLabel sw"
proof (rule switch_target_none)
  fix k assume k: "k < ncases sw"
  show "T sw k \<noteq> x"
  proof
    assume "T sw k = x"
    with l k have "fst (items ! nat start) \<le> k" by (auto simp: live_def)
    with sorted_T_le [OF sw this k] \<open>T sw k = x\<close> lt show False by simp
  qed
qed

lemma low_dense_ok:
  assumes sw: "sorted_switch sw" and x: "operand_is sw s x" and cov: "covers items 0 (ncases sw)"
    and "0 \<le> start" "end < int (length items)"
  shows "\<exists>C start' low' n'. low_dense sw items start end low n = Inr (C, start', low', n') \<and>
     start \<le> start' \<and> start' \<le> max start (end + 1) \<and> (start' \<le> end \<longrightarrow> snd (items ! nat start') = 0) \<and>
     n \<le> n' \<and> mset (labels C) = new_labels n n' \<and>
     (live sw items start end low high x \<longrightarrow> decides ext sw s x C (live sw items start' end low' high x))"
  using assms(4,5) sw x cov
proof (induction sw items start "end" low n rule: low_dense.induct)
  case (1 sw items start "end" low n)
  note sw = 1(4) and x = 1(5) and cov = 1(6) and s0 = 1(2) and el = 1(3)
  let ?it = "items ! nat start"
  show ?case
  proof (cases "start \<le> end \<and> snd ?it \<noteq> 0")
    case False
    then show ?thesis
      by (subst low_dense.simps) (auto simp: decides_nil)
  next
    case True
    let ?a = "fst ?it" and ?b = "snd ?it"
    have e: "item_end ?it = ?b" using True by (simp add: item_end_def)
    have ab: "?a \<le> ?b" "?b < ncases sw" "?a < ncases sw"
      using item_int [OF cov s0] True el e by simp_all
    define low1 where "low1 = (if start < end
        then case_tag sw ?b + 1 = case_tag sw (fst (items ! nat (start + 1))) else True)"
    define pre where "pre = (if \<not> low \<and> \<not> (IsUnsignedInteger (GetPrimType (switchOpnd sw)) \<and> case_tag sw ?a = 0)
        then [BuildCondGotoNode sw None True (BuildCmpNode sw OP_lt ?a)] else [])"
    let ?if = "[brfalse (BuildCmpNode sw OP_le ?b) n, BuildRangeGotoNode sw ?a ?b, LabelStmt n]"
    obtain C start' low' n' where ih:
      "low_dense sw items (start + 1) end low1 (Suc n) = Inr (C, start', low', n')"
      "start + 1 \<le> start'" "start' \<le> max (start + 1) (end + 1)" "start' \<le> end \<longrightarrow> snd (items ! nat start') = 0"
      "Suc n \<le> n'" "mset (labels C) = new_labels (Suc n) n'"
      "live sw items (start + 1) end low1 high x \<longrightarrow> decides ext sw s x C (live sw items start' end low' high x)"
      using 1(1) [OF True HOL.refl HOL.refl low1_def _ el sw x cov, of "Suc n"] s0 by auto
    have run: "low_dense sw items start end low n = Inr (pre @ ?if @ C, start', low', n')"
      using True ih(1) by (subst low_dense.simps) (simp add: LowerIfStmt_single low1_def pre_def Let_def)
    have lab: "mset (labels (pre @ ?if @ C)) = new_labels n n'"
      using ih(5,6) new_labels_split [of n "Suc n" n']
      by (simp add: pre_def BuildCondGotoNode_def BuildRangeGotoNode_def Let_def)
    have "decides ext sw s x (pre @ ?if @ C) (live sw items start' end low' high x)"
      if l: "live sw items start end low high x"
    proof -
      have 1: "decides ext sw s x pre (T sw ?a \<le> x)"
      proof (cases "pre = []")
        case True
        then have "T sw ?a \<le> x"
          using l \<open>start \<le> end \<and> _\<close> unsigned_nonneg [OF sw x] by (auto simp: pre_def live_def split: if_splits)
        with True show ?thesis by (simp add: decides_nil)
      next
        case False
        then show ?thesis
          using decides_cond_goto [OF cmp_cond(1) [OF sw x ab(3)], of sw None x ext] below_default [OF sw l] True
          by (auto simp: pre_def label_of_def not_less split: if_splits)
      qed
      have 2: "decides ext sw s x ?if (T sw ?b < x)" if "T sw ?a \<le> x"
        using decides_if [OF cmp_cond(2) [OF sw x ab(2)], of ext "BuildRangeGotoNode sw ?a ?b" sw x]
          range_goto [OF sw x ab(1,2) that] by (simp add: not_le)
      have 3: "live sw items (start + 1) end low1 high x" if "T sw ?b < x"
      proof (rule live_above [OF sw cov s0 _ el l])
        assume "low1" "start < end"
        then have "fst (items ! nat (start + 1)) = Suc ?b" "case_tag sw ?b + 1 = case_tag sw (Suc ?b)"
          using item_next [OF cov s0] el e by (simp_all add: low1_def)
        moreover have "Suc ?b < ncases sw"
          using item_int(3) [OF cov, of "start + 1"] calculation \<open>start < end\<close> s0 el by simp
        ultimately show "T sw (fst (items ! nat (start + 1))) \<le> x"
          using tag_Suc [OF sw, of "Suc ?b" ?b] that by simp
      qed (use True that e in simp_all)
      show ?thesis using 1 2 3 ih(7) by (blast intro: decides_seq)
    qed
    with run lab ih(2-5) True show ?thesis by fastforce
  qed
qed


lemma live_below:
  assumes sw: "sorted_switch sw" and cov: "covers items 0 (ncases sw)"
    and se: "0 \<le> start" "start \<le> end" "end < int (length items)"
    and l: "live sw items start end low high x" and lt: "x < T sw (fst (items ! nat end))"
    and high': "high' \<Longrightarrow> start < end \<Longrightarrow> x \<le> T sw (item_end (items ! nat (end - 1)))"
  shows "live sw items start (end - 1) low high' x"
proof -
  let ?a = "fst (items ! nat end)"
  have a: "?a < ncases sw" using item_int [OF cov, of "end"] se by simp
  have k: "fst (items ! nat start) \<le> k \<and> k < ?a" if "k < ncases sw" "T sw k = x" for k
    using that l lt sorted_T_iff [OF sw _ a, of k] by (auto simp: live_def)
  show ?thesis
  proof (cases "start < end")
    case True
    then have "?a = Suc (item_end (items ! nat (end - 1)))" using item_next [OF cov, of "end - 1"] se by simp
    then show ?thesis using True k l high' by (simp add: live_def less_Suc_eq_le)
  next
    case False
    then have "start = end" using se by simp
    then show ?thesis using k l lt by (force simp: live_def)
  qed
qed

lemma above_default:
  assumes sw: "sorted_switch sw" and l: "live sw items start end low high x" and se: "start \<le> end"
    and gt: "T sw (item_end (items ! nat end)) < x" and e: "item_end (items ! nat end) < ncases sw"
  shows "switch_target sw x = defaultLabel sw"
proof (rule switch_target_none)
  fix k assume k: "k < ncases sw"
  show "T sw k \<noteq> x"
  proof
    assume "T sw k = x"
    with l k have "k \<le> item_end (items ! nat end)" by (auto simp: live_def)
    with sorted_T_le [OF sw this e] \<open>T sw k = x\<close> gt show False by simp
  qed
qed

text \<open>
  The two tests for an adjacent item both mean that the item ends just below: for a
  single item the second test reads the first case of the table.
\<close>

lemma adjacent_item:
  assumes sw: "sorted_switch sw" and cov: "covers items 0 (ncases sw)" and i: "0 \<le> i" "i + 1 < int (length items)"
    and t: "T sw (fst (items ! nat (i + 1))) = T sw (fst (items ! nat i)) + 1 \<or>
            T sw (fst (items ! nat (i + 1))) = T sw (snd (items ! nat i)) + 1"
  shows "T sw (fst (items ! nat (i + 1))) = T sw (item_end (items ! nat i)) + 1"
proof -
  let ?it = "items ! nat i" and ?j = "fst (items ! nat (i + 1))"
  have j: "?j = Suc (item_end ?it)" "?j < ncases sw"
    using item_next [OF cov i] item_int(3) [OF cov, of "i + 1"] i by simp_all
  have e: "T sw (item_end ?it) < T sw ?j" using sorted_T [OF sw _ j(2)] j(1) by simp
  have le: "T sw m \<le> T sw (item_end ?it)" if "m \<le> item_end ?it" for m
    using sorted_T_le [OF sw that] j by simp
  have "fst ?it \<le> item_end ?it" using item_int(1) [OF cov, of i] i by simp
  moreover have "snd ?it \<le> item_end ?it" by (simp add: item_end_def)
  ultimately show ?thesis using t e le [of "fst ?it"] le [of "snd ?it"] by linarith
qed

lemma high_dense_ok:
  assumes sw: "sorted_switch sw" and x: "operand_is sw s x" and cov: "covers items 0 (ncases sw)"
    and "0 \<le> start" "end < int (length items)"
  shows "\<exists>C end' high' n'. high_dense sw items start end high n = Inr (C, end', high', n') \<and>
     end' \<le> end \<and> min end (start - 1) \<le> end' \<and> (start \<le> end' \<longrightarrow> snd (items ! nat end') = 0) \<and>
     n \<le> n' \<and> mset (labels C) = new_labels n n' \<and>
     (live sw items start end low high x \<longrightarrow> decides ext sw s x C (live sw items start end' low high' x))"
  using assms(4,5) sw x cov
proof (induction sw items start "end" high n rule: high_dense.induct)
  case (1 sw items start "end" high n)
  note sw = 1(4) and x = 1(5) and cov = 1(6) and s0 = 1(2) and el = 1(3)
  let ?it = "items ! nat end" and ?prior = "items ! nat (end - 1)"
  show ?case
  proof (cases "start \<le> end \<and> snd ?it \<noteq> 0")
    case False
    then show ?thesis
      by (subst high_dense.simps) (auto simp: decides_nil)
  next
    case True
    let ?a = "fst ?it" and ?b = "snd ?it"
    have e: "item_end ?it = ?b" using True by (simp add: item_end_def)
    have ab: "?a \<le> ?b" "?b < ncases sw" "?a < ncases sw"
      using item_int [OF cov, of "end"] s0 True el e by simp_all
    define high1 where "high1 = (if start < end
        then case_tag sw ?a - 1 = case_tag sw (fst ?prior) \<or> case_tag sw ?a - 1 = case_tag sw (snd ?prior) else True)"
    define pre where "pre = (if \<not> high then [BuildCondGotoNode sw None True (BuildCmpNode sw OP_gt ?b)] else [])"
    let ?if = "[brfalse (BuildCmpNode sw OP_ge ?a) n, BuildRangeGotoNode sw ?a ?b, LabelStmt n]"
    obtain C end' high' n' where ih:
      "high_dense sw items start (end - 1) high1 (Suc n) = Inr (C, end', high', n')"
      "end' \<le> end - 1" "min (end - 1) (start - 1) \<le> end'" "start \<le> end' \<longrightarrow> snd (items ! nat end') = 0"
      "Suc n \<le> n'" "mset (labels C) = new_labels (Suc n) n'"
      "live sw items start (end - 1) low high1 x \<longrightarrow> decides ext sw s x C (live sw items start end' low high' x)"
      using 1(1) [OF True HOL.refl HOL.refl HOL.refl high1_def s0 _ sw x cov, of "Suc n"] el by auto
    have run: "high_dense sw items start end high n = Inr (pre @ ?if @ C, end', high', n')"
      using True ih(1) by (subst high_dense.simps) (simp add: LowerIfStmt_single high1_def pre_def Let_def)
    have lab: "mset (labels (pre @ ?if @ C)) = new_labels n n'"
      using ih(5,6) new_labels_split [of n "Suc n" n']
      by (simp add: pre_def BuildCondGotoNode_def BuildRangeGotoNode_def Let_def)
    have "decides ext sw s x (pre @ ?if @ C) (live sw items start end' low high' x)"
      if l: "live sw items start end low high x"
    proof -
      have 1: "decides ext sw s x pre (x \<le> T sw ?b)"
      proof (cases high)
        case True
        then show ?thesis using l \<open>start \<le> end \<and> _\<close> e by (simp add: pre_def live_def decides_nil)
      next
        case False
        then show ?thesis
          using decides_cond_goto [OF cmp_cond(3) [OF sw x ab(2)], of sw None x ext] above_default [OF sw l] True ab e
          by (auto simp: pre_def label_of_def not_less)
      qed
      have 2: "decides ext sw s x ?if (x < T sw ?a)" if "x \<le> T sw ?b"
        using decides_if [OF cmp_cond(4) [OF sw x ab(3)], of ext "BuildRangeGotoNode sw ?a ?b" sw x]
          range_goto [OF sw x ab(1,2) _ that] by (simp add: not_le)
      have 3: "live sw items start (end - 1) low high1 x" if "x < T sw ?a"
      proof (rule live_below [OF sw cov s0 _ el l that])
        assume "high1" "start < end"
        have "fst ?prior < ?a" "snd ?prior < ?a"
          using item_next [OF cov, of "end - 1"] item_int(1) [OF cov, of "end - 1"] \<open>start < end\<close> s0 el
          by (auto simp: item_end_def split: if_splits)
        then have "T sw ?a = T sw (fst ?prior) + 1 \<or> T sw ?a = T sw (snd ?prior) + 1"
          using \<open>high1\<close> \<open>start < end\<close> tag_pred [OF sw ab(3)] by (auto simp: high1_def)
        then show "x \<le> T sw (item_end ?prior)"
          using adjacent_item [OF sw cov, of "end - 1"] \<open>start < end\<close> s0 el that by simp
      qed (use True in simp)
      show ?thesis using 1 2 3 ih(7) by (blast intro: decides_seq)
    qed
    with run lab ih(2-5) True show ?thesis by fastforce
  qed
qed

lemma equal_checks_ok:
  assumes sw: "sorted_switch sw" and x: "operand_is sw s x" and cov: "covers items 0 (ncases sw)"
    and "0 \<le> start" "end < int (length items)" "start \<le> end + 1"
  shows "\<exists>C start' low'. equal_checks sw items start end low high = (C, start', low') \<and>
     start \<le> start' \<and> start' \<le> end + 1 \<and> (start \<le> end \<and> snd (items ! nat start) = 0 \<longrightarrow> start < start') \<and>
     labels C = [] \<and>
     (live sw items start end low high x \<longrightarrow> decides ext sw s x C (live sw items start' end low' high x))"
  using assms(4-6) sw x cov
proof (induction sw items start "end" low high rule: equal_checks.induct)
  case (1 sw items start "end" low high)
  note sw = 1(5) and x = 1(6) and cov = 1(7) and s0 = 1(2) and el = 1(3)
  let ?it = "items ! nat start"
  show ?case
  proof (cases "start \<le> end \<and> snd ?it = 0")
    case False
    then show ?thesis using 1(4)
      by (subst equal_checks.simps) (auto simp: decides_nil)
  next
    case True
    let ?a = "fst ?it"
    have e: "item_end ?it = ?a" using True by (simp add: item_end_def)
    have a: "?a < ncases sw" using item_int [OF cov s0] True el by simp
    define low1 where "low1 = (if low \<and> start < end
        then case_tag sw ?a + 1 = case_tag sw (fst (items ! nat (start + 1))) else low)"
    define st where "st = (if start = end \<and> low \<and> high then BuildGotoNode sw (Some ?a)
                   else BuildCondGotoNode sw (Some ?a) True (BuildCmpNode sw OP_eq ?a))"
    obtain C start' low' where ih:
      "equal_checks sw items (start + 1) end low1 high = (C, start', low')"
      "start + 1 \<le> start'" "start' \<le> end + 1" "labels C = []"
      "live sw items (start + 1) end low1 high x \<longrightarrow> decides ext sw s x C (live sw items start' end low' high x)"
      using 1(1) [OF True HOL.refl st_def low1_def _ el _ sw x cov] s0 True by auto
    have run: "equal_checks sw items start end low high = (st # C, start', low')"
      using True ih(1) by (subst equal_checks.simps) (simp add: low1_def st_def Let_def)
    have lab: "labels (st # C) = []"
      using ih(4) by (simp add: st_def BuildCondGotoNode_def BuildGotoNode_def)
    have "decides ext sw s x ([st] @ C) (live sw items start' end low' high x)"
      if l: "live sw items start end low high x"
    proof -
      have at: "switch_target sw x = case_label sw ?a" if "x = T sw ?a"
        using switch_target_at [OF sw a] that by simp
      have 1: "decides ext sw s x [st] (x \<noteq> T sw ?a \<and> \<not> (start = end \<and> low \<and> high))"
      proof (cases "start = end \<and> low \<and> high")
        case True
        then have "x = T sw ?a" using l e by (simp add: live_def)
        with True at show ?thesis by (auto simp: st_def label_of_def intro: decides_goto)
      next
        case False
        then show ?thesis
          using decides_cond_goto [OF cmp_cond(5) [OF sw x a], of sw "Some ?a" x ext] at
          by (auto simp: st_def label_of_def)
      qed
      have 3: "live sw items (start + 1) end low1 high x" if n: "x \<noteq> T sw ?a \<and> \<not> (start = end \<and> low \<and> high)"
      proof -
        have k: "Suc ?a \<le> k \<and> k \<le> item_end (items ! nat end)" if "k < ncases sw" "T sw k = x" for k
        proof -
          have "k \<noteq> ?a" using n that by auto
          then show ?thesis using that l by (auto simp: live_def)
        qed
        show ?thesis
        proof (cases "start < end")
          case True
          then have nx: "fst (items ! nat (start + 1)) = Suc ?a" using item_next [OF cov s0] el e by simp
          then have "Suc ?a < ncases sw" using item_int(3) [OF cov, of "start + 1"] True s0 el by simp
          then have "T sw (Suc ?a) \<le> x" if low1
            using that True l n nx tag_Suc [OF sw, of "Suc ?a" ?a] by (auto simp: low1_def live_def split: if_splits)
          then show ?thesis using True nx k l by (simp add: live_def)
        next
          case False
          then have "start = end" using True by simp
          then show ?thesis using k n e by (force simp: live_def low1_def)
        qed
      qed
      show ?thesis using 1 3 ih(5) by (blast intro: decides_seq)
    qed
    with run lab ih(2,3) True show ?thesis by fastforce
  qed
qed

section \<open>The middle of the decision tree\<close>

lemma sint_range64: "- (2 ^ 63) \<le> v \<Longrightarrow> v < 2 ^ 63 \<Longrightarrow> sint (word_of_int v :: int64) = v"
  by (simp add: sint_word_of_int64 signed_take_bit_int_eq_self)

lemma c_div2: "2 * c_div a 2 \<le> a + 1 \<and> a - 1 \<le> 2 * c_div a 2"
proof (cases "a < 0")
  case True
  then have "c_div a 2 = - ((- a) div 2)" by (simp add: c_div_def)
  then show ?thesis by linarith
next
  case False
  then have "c_div a 2 = a div 2" by (simp add: c_div_nonneg)
  then show ?thesis by linarith
qed

lemma middle_tag_between:
  assumes "- (2 ^ 31) \<le> sint l" "sint l + 2 \<le> sint h" "sint h < 2 ^ 31"
  shows "sint l < sint (middle_tag l h)" "sint (middle_tag l h) \<le> sint h"
proof -
  have w: "h = word_of_int (sint h)" "l = word_of_int (sint l)" by simp_all
  have pw: "(2::int) ^ 31 = 2147483648" "(2::int) ^ 63 = 9223372036854775808" by simp_all
  have d: "sint (h - l) = sint h - sint l" and s: "sint (h + l) = sint h + sint l"
    using assms by (simp_all add: sint_word_ariths signed_take_bit_int_eq_self)
  have "middle_tag l h = word_of_int (c_div (sint h - sint l) 2 + sint l) \<or>
        middle_tag l h = word_of_int (c_div (sint h + sint l) 2)"
    using w(2) by (auto simp: middle_tag_def d s)
  moreover have "sint (word_of_int (c_div (sint h - sint l) 2 + sint l) :: int64) = c_div (sint h - sint l) 2 + sint l"
    using assms pw c_div2 [of "sint h - sint l"] by (intro sint_range64) linarith+
  moreover have "sint (word_of_int (c_div (sint h + sint l) 2) :: int64) = c_div (sint h + sint l) 2"
    using assms pw c_div2 [of "sint h + sint l"] by (intro sint_range64) linarith+
  ultimately have "sint (middle_tag l h) = c_div (sint h - sint l) 2 + sint l \<or>
      sint (middle_tag l h) = c_div (sint h + sint l) 2" by metis
  then show "sint l < sint (middle_tag l h)" "sint (middle_tag l h) \<le> sint h"
    using assms(2) c_div2 [of "sint h - sint l"] c_div2 [of "sint h + sint l"] by linarith+
qed

lemma find_mid_ok:
  assumes "0 \<le> mid" "mid \<le> end" "end < int (length items)"
    "sint mt \<le> T sw (fst (items ! nat end))"
  shows "\<exists>m. find_mid sw items mt mid = Inr m \<and> mid \<le> m \<and> m \<le> end \<and>
     (T sw (fst (items ! nat mid)) < sint mt \<longrightarrow> mid < m)"
  using assms
proof (induction sw items mt mid rule: find_mid.induct)
  case (1 sw items mt mid)
  show ?case
  proof (cases "T sw (fst (items ! nat mid)) < sint mt")
    case True
    then have "mid \<noteq> end" using 1(5) by auto
    then obtain m where "find_mid sw items mt (mid + 1) = Inr m" "mid + 1 \<le> m" "m \<le> end"
      using 1(1) True 1(2-5) by auto
    then show ?thesis using True 1(2-4) by (subst find_mid.simps) auto
  next
    case False
    then show ?thesis using 1(2-4) by (subst find_mid.simps) auto
  qed
qed

lemma live_left:
  assumes sw: "sorted_switch sw" and cov: "covers items 0 (ncases sw)"
    and se: "0 \<le> start" "start < mid" "mid \<le> end" "end < int (length items)"
    and l: "live sw items start end low high x" and lt: "x < T sw (fst (items ! nat mid))"
    and high': "high' \<Longrightarrow> x \<le> T sw (item_end (items ! nat (mid - 1)))"
  shows "live sw items start (mid - 1) low high' x"
proof -
  let ?a = "fst (items ! nat mid)"
  have a: "?a < ncases sw" using item_int [OF cov, of mid] se by simp
  have "fst (items ! nat start) \<le> k \<and> k < ?a" if "k < ncases sw" "T sw k = x" for k
    using that l lt sorted_T_iff [OF sw _ a, of k] by (auto simp: live_def)
  moreover have "?a = Suc (item_end (items ! nat (mid - 1)))" using item_next [OF cov, of "mid - 1"] se by simp
  ultimately show ?thesis using se l high' by (simp add: live_def less_Suc_eq_le)
qed

lemma live_right:
  assumes sw: "sorted_switch sw" and cov: "covers items 0 (ncases sw)"
    and se: "0 \<le> start" "start < mid" "mid \<le> end" "end < int (length items)"
    and l: "live sw items start end low high x" and ge: "T sw (fst (items ! nat mid)) \<le> x"
  shows "live sw items mid end True high x"
proof -
  have "fst (items ! nat mid) \<le> k" if "k < ncases sw" "T sw k = x" for k
    using that ge sorted_T_iff [OF sw that(1), of "fst (items ! nat mid)"] item_int(3) [OF cov, of mid] se
    by (auto simp: not_less [symmetric])
  then show ?thesis using se l ge by (simp add: live_def)
qed

lemma LowerIfStmt_total: "\<exists>C n'. LowerIfStmt c t (Some e) n = Inr (C, n')"
proof -
  have "is_ok (LowerIfStmt c t (Some e) n)"
    by (simp add: LowerIfStmt_def lower_if_def create_is_ok else_empty_def)
  then show ?thesis by (auto simp: is_ok_Inr)
qed

lemma LowerIfStmt_sem:
  assumes "LowerIfStmt c t (Some e) n = Inr (C, n')" "cond c s = Some v" "sem_ok ext (if v then t else e) s r"
    and "\<not> is_normal r"
  shows "sem_ok ext C s r"
  using lower_if_ok [where ext = ext and r = r, OF assms(1) [unfolded LowerIfStmt_def] _ _ _ assms(2)] assms(3,4)
  by (cases v) (simp_all add: else_empty_def)

lemma LowerIfStmt_labels:
  assumes "LowerIfStmt c t (Some e) n = Inr (C, n')"
  shows "n \<le> n' \<and> mset (labels C) = mset (labels t) + mset (labels e) + new_labels n n'"
  using lower_if_labels [OF assms [unfolded LowerIfStmt_def]] by (simp add: else_empty_def)


section \<open>The generated code\<close>

lemma decides_default:
  assumes l: "live sw items start end low high x" and se: "end < start"
    and d: "goto_default sw low high gen = (D, gen')"
  shows "decides ext sw s x D False \<and> labels D = []"
proof -
  have "switch_target sw x = defaultLabel sw" using l se by (intro switch_target_none) (auto simp: live_def)
  then have "decides ext sw s x [BuildGotoNode sw None] False" by (intro decides_goto) (simp add: label_of_def)
  moreover have "D = [BuildGotoNode sw None]" using l se d by (auto simp: live_def goto_default_def split: if_splits)
  ultimately show ?thesis by (simp add: BuildGotoNode_def)
qed

lemma goto_default_labels: "goto_default sw low high gen = (D, gen') \<Longrightarrow> labels D = []"
  by (auto simp: goto_default_def BuildGotoNode_def split: if_splits)

lemma decides_False: "decides ext sw s x C False \<longleftrightarrow> sem_ok ext C s (Jumps (switch_target sw x) s)"
  by (simp add: decides_def)

lemma BuildCode_ok:
  assumes sw: "sorted_switch sw" and x: "operand_is sw s x" and cov: "covers items 0 (ncases sw)"
    and "0 \<le> start0" "start0 \<le> end0" "end0 < int (length items)" "nat (end0 + 1 - start0) < fuel"
  shows "\<exists>C gen' n'. BuildCodeForSwitchItems fuel sw items start0 end0 low0 high0 gen n = Inr (C, gen', n') \<and>
     n \<le> n' \<and> mset (labels C) = new_labels n n' \<and>
     (live sw items start0 end0 low0 high0 x \<longrightarrow> decides ext sw s x C False)"
  using assms(4-7)
proof (induction fuel arbitrary: start0 end0 low0 high0 gen n)
  case (Suc fuel)
  have m: "max start0 (end0 + 1) = end0 + 1" using Suc.prems(2) by simp
  obtain c1 start low n1 where L: "low_dense sw items start0 end0 low0 n = Inr (c1, start, low, n1)"
    "start0 \<le> start" "start \<le> end0 + 1" "start \<le> end0 \<longrightarrow> snd (items ! nat start) = 0"
    "n \<le> n1" "mset (labels c1) = new_labels n n1"
    "live sw items start0 end0 low0 high0 x \<longrightarrow> decides ext sw s x c1 (live sw items start end0 low high0 x)"
    using low_dense_ok [OF sw x cov Suc.prems(1,3), of low0 n high0 ext, unfolded m] by blast
  have s0: "0 \<le> start" using L(2) Suc.prems(1) by simp
  have m2: "min end0 (start - 1) = start - 1" using L(3) by simp
  obtain c2 "end" high n2 where H: "high_dense sw items start end0 high0 n1 = Inr (c2, end, high, n2)"
    "end \<le> end0" "start - 1 \<le> end" "n1 \<le> n2" "mset (labels c2) = new_labels n1 n2"
    "live sw items start end0 low high0 x \<longrightarrow> decides ext sw s x c2 (live sw items start end low high x)"
    using high_dense_ok [OF sw x cov s0 Suc.prems(3), of high0 n1 low ext, unfolded m2] by blast
  have el: "end < int (length items)" using H(2) Suc.prems(3) by simp
  have lab12: "n \<le> n2 \<and> mset (labels (c1 @ c2)) = new_labels n n2"
    using L(5,6) H(4,5) new_labels_split [of n n1 n2] by simp
  have dec12: "live sw items start0 end0 low0 high0 x \<longrightarrow> decides ext sw s x (c1 @ c2) (live sw items start end low high x)"
    using L(7) H(6) by (blast intro: decides_seq)
  note body = BuildCodeForSwitchItems.simps(2) [of fuel sw items start0 end0 low0 high0 gen n]
  consider (none) "end < start" | (one) "start = end" "low" "high"
    | (few) "start \<le> end" "\<not> (start = end \<and> low \<and> high)" "end < start + int kClusterSwitchCutoff"
    | (many) "start + int kClusterSwitchCutoff \<le> end" by force
  then show ?case
  proof cases
    case none
    obtain D gen' where D: "goto_default sw low high gen = (D, gen')" by fastforce
    have "BuildCodeForSwitchItems (Suc fuel) sw items start0 end0 low0 high0 gen n = Inr ((c1 @ c2) @ D, gen', n2)"
      using none L(1) H(1) D Suc.prems(2) by (simp add: body)
    moreover have "live sw items start0 end0 low0 high0 x \<longrightarrow> decides ext sw s x ((c1 @ c2) @ D) False"
      using dec12 decides_default [OF _ none D] by (blast intro: decides_seq)
    ultimately show ?thesis using lab12 goto_default_labels [OF D] by fastforce
  next
    case one
    let ?a = "fst (items ! nat start)"
    have d: "snd (items ! nat start) = 0" "item_end (items ! nat start) = ?a" "?a < ncases sw"
      using L(4) one H(2) item_int(3) [OF cov s0] el by (auto simp: item_end_def)
    have "BuildCodeForSwitchItems (Suc fuel) sw items start0 end0 low0 high0 gen n
        = Inr ((c1 @ c2) @ [BuildGotoNode sw (Some ?a)], gen, n2)"
      using one L(1) H(1) Suc.prems(2) by (simp add: body)
    moreover have "decides ext sw s x [BuildGotoNode sw (Some ?a)] False" if "live sw items start end low high x"
      using that one d switch_target_at [OF sw d(3)] by (intro decides_goto) (auto simp: live_def label_of_def)
    then have "live sw items start0 end0 low0 high0 x \<longrightarrow> decides ext sw s x ((c1 @ c2) @ [BuildGotoNode sw (Some ?a)]) False"
      using dec12 by (blast intro: decides_seq)
    moreover have "labels [BuildGotoNode sw (Some ?a)] = []" by (simp add: BuildGotoNode_def)
    ultimately show ?thesis using lab12 by fastforce
  next
    case few
    have e1: "start \<le> end + 1" using few(1) by simp
    obtain c3 start' low' where E: "equal_checks sw items start end low high = (c3, start', low')"
      "start \<le> start'" "start' \<le> end + 1"
      "start \<le> end \<and> snd (items ! nat start) = 0 \<longrightarrow> start < start'" "labels c3 = []"
      "live sw items start end low high x \<longrightarrow> decides ext sw s x c3 (live sw items start' end low' high x)"
      using equal_checks_ok [OF sw x cov s0 el e1, of low high ext] by blast
    have dec3: "live sw items start0 end0 low0 high0 x \<longrightarrow>
        decides ext sw s x ((c1 @ c2) @ c3) (live sw items start' end low' high x)"
      using dec12 E(6) by (blast intro: decides_seq)
    show ?thesis
    proof (cases "start' \<le> end")
      case True
      have "start < start'" using E(4) L(4) few(1) H(2) by simp
      then have p: "0 \<le> start'" "nat (end + 1 - start') < fuel" using s0 Suc.prems(4) L(2) H(2) True by linarith+
      obtain C gen' n' where R: "BuildCodeForSwitchItems fuel sw items start' end low' high gen n2 = Inr (C, gen', n')"
        "n2 \<le> n'" "mset (labels C) = new_labels n2 n'"
        "live sw items start' end low' high x \<longrightarrow> decides ext sw s x C False"
        using Suc.IH [OF p(1) True el p(2), of low' high gen n2] by blast
      have "BuildCodeForSwitchItems (Suc fuel) sw items start0 end0 low0 high0 gen n
          = Inr (((c1 @ c2) @ c3) @ C, gen', n')"
        using few(1,3) L(1) H(1) E(1) R(1) True Suc.prems(2) by (simp add: body few(2))
      moreover have "live sw items start0 end0 low0 high0 x \<longrightarrow> decides ext sw s x (((c1 @ c2) @ c3) @ C) False"
        using dec3 R(4) by (blast intro: decides_seq)
      moreover have "mset (labels (((c1 @ c2) @ c3) @ C)) = new_labels n n'"
        using lab12 E(5) R(2,3) new_labels_split [of n n2 n'] by (simp add: add.assoc [symmetric])
      moreover have "n \<le> n'" using lab12 R(2) by linarith
      ultimately show ?thesis by blast
    next
      case False
      then have f: "end < start'" by simp
      obtain D gen' where D: "goto_default sw low' high gen = (D, gen')" by fastforce
      have "BuildCodeForSwitchItems (Suc fuel) sw items start0 end0 low0 high0 gen n
          = Inr (((c1 @ c2) @ c3) @ D, gen', n2)"
        using few(1,3) L(1) H(1) E(1) D False Suc.prems(2) by (simp add: body few(2))
      moreover have "live sw items start0 end0 low0 high0 x \<longrightarrow> decides ext sw s x (((c1 @ c2) @ c3) @ D) False"
        using dec3 decides_default [OF _ f D] by (blast intro: decides_seq)
      moreover have "mset (labels (((c1 @ c2) @ c3) @ D)) = new_labels n n2"
        using lab12 E(5) goto_default_labels [OF D] by simp
      ultimately show ?thesis using lab12 by blast
    qed
  next
    case many
    let ?i = "\<lambda>k. fst (items ! nat k)"
    let ?mt = "middle_tag (case_tag sw (?i start)) (case_tag sw (?i end))"
    have idx: "?i k < ncases sw" if "start \<le> k" "k \<le> end" for k
      using item_int(3) [OF cov, of k] s0 el that by simp
    have lt: "T sw (?i k) < T sw (?i (k + 1))" if "start \<le> k" "k < end" for k
      using item_next [OF cov, of k] item_int(1) [OF cov, of k] sorted_T [OF sw _ idx [of "k + 1"], of "?i k"] s0 el that
      by simp
    have mono: "T sw (?i (start + 2)) \<le> T sw (?i end)"
    proof -
      have "?i (start + 2) \<le> ?i end"
        using covers_mono [OF cov, of "nat (start + 2)" "nat end"] s0 el many by simp
      then show ?thesis using sorted_T_le [OF sw _ idx [of "end"]] many by simp
    qed
    have gap: "T sw (?i start) + 2 \<le> T sw (?i end)"
      using lt [of start] lt [of "start + 1"] mono many by (simp add: add.assoc)
    have "start \<le> end" using many by simp
    note mid_ok = middle_tag_between [of "case_tag sw (?i start)" "case_tag sw (?i end)", OF _ gap]
    have mt: "T sw (?i start) < sint ?mt" "sint ?mt \<le> T sw (?i end)"
      using mid_ok sorted_case_ok [OF sw idx [of start]] sorted_case_ok [OF sw idx [of "end"]] \<open>start \<le> end\<close>
      by (auto simp: case_ok_def)
    obtain mid where M: "find_mid sw items ?mt start = Inr mid" "start < mid" "mid \<le> end"
      using find_mid_ok [OF s0 \<open>start \<le> end\<close> el mt(2)] mt(1) by blast
    have m1: "\<not> mid < 1" using M(2) s0 by simp
    define leftHigh where "leftHigh = (case_tag sw (fst (items ! nat (mid - 1))) + 1 = case_tag sw (?i mid) \<or>
      case_tag sw (snd (items ! nat (mid - 1))) + 1 = case_tag sw (?i mid))"
    have pl: "start \<le> mid - 1" "mid - 1 < int (length items)" "nat (mid - 1 + 1 - start) < fuel"
      using M(2,3) el Suc.prems(4) L(2) H(2) many by linarith+
    have pr: "0 \<le> mid" "nat (end + 1 - mid) < fuel" using M(2,3) s0 Suc.prems(4) L(2) H(2) many by linarith+
    obtain t gen1 n3 where l: "BuildCodeForSwitchItems fuel sw items start (mid - 1) low leftHigh gen n2 = Inr (t, gen1, n3)"
      "n2 \<le> n3" "mset (labels t) = new_labels n2 n3"
      "live sw items start (mid - 1) low leftHigh x \<longrightarrow> decides ext sw s x t False"
      using Suc.IH [OF s0 pl, of low leftHigh gen n2] by blast
    obtain e gen2 n4 where r: "BuildCodeForSwitchItems fuel sw items mid end True high gen1 n3 = Inr (e, gen2, n4)"
      "n3 \<le> n4" "mset (labels e) = new_labels n3 n4"
      "live sw items mid end True high x \<longrightarrow> decides ext sw s x e False"
      using Suc.IH [OF pr(1) M(3) el pr(2), of True high gen1 n3] by blast
    let ?c = "Unary OP_lnot PTY_u1 (BuildCmpNode sw OP_ge (?i mid))"
    obtain ifc n5 where i: "LowerIfStmt ?c t (Some e) n4 = Inr (ifc, n5)" using LowerIfStmt_total by blast
    have "BuildCodeForSwitchItems (Suc fuel) sw items start0 end0 low0 high0 gen n = Inr ((c1 @ c2) @ ifc, gen2, n5)"
      using many L(1) H(1) M(1) m1 l(1) [unfolded leftHigh_def] r(1) i Suc.prems(2) by (simp add: body)
    moreover have "decides ext sw s x ifc False" if a: "live sw items start end low high x"
    proof -
      have c: "cond ?c s = Some (x < T sw (?i mid))"
        using cmp_cond(6) [OF sw x] idx [of mid] M(2,3) by simp
      have lh: "x \<le> T sw (item_end (items ! nat (mid - 1)))" if "leftHigh" "x < T sw (?i mid)"
      proof -
        have "fst (items ! nat (mid - 1)) < ?i mid" "snd (items ! nat (mid - 1)) < ?i mid"
          using item_next [OF cov, of "mid - 1"] item_int(1) [OF cov, of "mid - 1"] M(2,3) s0 el
          by (auto simp: item_end_def split: if_splits)
        then have "T sw (?i mid) = T sw (fst (items ! nat (mid - 1))) + 1 \<or>
            T sw (?i mid) = T sw (snd (items ! nat (mid - 1))) + 1"
          using that(1) tag_Suc [OF sw idx [of mid]] M(2,3) by (auto simp: leftHigh_def)
        then show ?thesis
          using adjacent_item [OF sw cov, of "mid - 1"] M(2,3) s0 el that(2) by simp
      qed
      have "sem_ok ext (if x < T sw (?i mid) then t else e) s (Jumps (switch_target sw x) s)"
        using l(4) r(4) live_left [OF sw cov s0 M(2,3) el a _ lh] live_right [OF sw cov s0 M(2,3) el a]
        by (auto simp: decides_False)
      then show ?thesis unfolding decides_False by (rule LowerIfStmt_sem [OF i c]) simp
    qed
    then have "live sw items start0 end0 low0 high0 x \<longrightarrow> decides ext sw s x ((c1 @ c2) @ ifc) False"
      using dec12 by (blast intro: decides_seq)
    moreover have "n \<le> n5 \<and> mset (labels ((c1 @ c2) @ ifc)) = new_labels n n5"
    proof -
      have n: "n \<le> n2" "n2 \<le> n3" "n3 \<le> n4" "n4 \<le> n5" "n2 \<le> n4" "n2 \<le> n5" "n \<le> n5"
        using lab12 l(2) r(2) LowerIfStmt_labels [OF i] by auto
      have "mset (labels ifc) = new_labels n2 n5"
        using l(3) r(3) LowerIfStmt_labels [OF i] new_labels_split [OF n(2,3)] new_labels_split [OF n(5,4)] by metis
      then have "mset (labels ((c1 @ c2) @ ifc)) = new_labels n n2 + new_labels n2 n5"
        unfolding labels_append [of "c1 @ c2"] mset_append using lab12 by simp
      then show ?thesis using n new_labels_split [OF n(1,6)] by simp
    qed
    ultimately show ?thesis by blast
  qed
qed simp

section \<open>Clusters cover the table\<close>

fun clusters_ok :: "nat \<Rightarrow> nat \<Rightarrow> (nat \<times> nat) list \<Rightarrow> bool" where
  "clusters_ok len i [] \<longleftrightarrow> True"
| "clusters_ok len i ((a, b) # r) \<longleftrightarrow> i \<le> a \<and> a < b \<and> b < len \<and> clusters_ok len (Suc b) r"

lemma clusters_ok_mono: "clusters_ok len j r \<Longrightarrow> i \<le> j \<Longrightarrow> clusters_ok len i r"
  by (cases r) auto

lemma FindClusters_from_ok: "clusters_ok (ncases sw) i (FindClusters_from sw i)"
proof (induction sw i rule: FindClusters_from.induct)
  case (1 sw i)
  show ?case
  proof (cases "find_cluster_end sw i (ncases sw - 1)")
    case None
    then have "clusters_ok (ncases sw) (Suc i) (FindClusters_from sw (Suc i))" if "i + kClusterSwitchCutoff < ncases sw"
      using 1 that by auto
    then have "clusters_ok (ncases sw) i (FindClusters_from sw (Suc i))" if "i + kClusterSwitchCutoff < ncases sw"
      using that clusters_ok_mono [of "ncases sw" "Suc i" _ i] by simp
    then show ?thesis
      using None by (subst FindClusters_from.simps) (auto simp: Let_def)
  next
    case (Some j)
    then have "clusters_ok (ncases sw) (Suc j) (FindClusters_from sw (Suc j))" if "i + kClusterSwitchCutoff < ncases sw"
      using 1 that by auto
    with Some find_cluster_end_Some [OF Some] show ?thesis
      by (subst FindClusters_from.simps) (auto simp: Let_def)
  qed
qed

lemma init_items_single: "fst front < i \<Longrightarrow> i \<le> len \<Longrightarrow> covers (init_items len front [] i) i len"
proof (induction "len - i" arbitrary: i)
  case 0
  then show ?case by (subst init_items.simps) simp
next
  case (Suc d)
  then show ?case by (subst init_items.simps) (simp add: item_end_def)
qed

lemma init_items_covers:
  "i \<le> fst front \<Longrightarrow> fst front < snd front \<Longrightarrow> snd front < len \<Longrightarrow> clusters_ok len (Suc (snd front)) rest \<Longrightarrow>
   covers (init_items len front rest i) i len"
proof (induction len front rest i rule: init_items.induct)
  case (1 len front rest i)
  have il: "i < len" using 1(4-6) by simp
  show ?case
  proof (cases "i = fst front")
    case True
    have m: "max (Suc i) (Suc (snd front)) = Suc (snd front)" using True 1(5) by simp
    have e: "item_end (i, snd front) = snd front" using 1(5) by (simp add: item_end_def)
    have "covers (case rest of [] \<Rightarrow> init_items len front [] (Suc (snd front))
        | f # r \<Rightarrow> init_items len f r (Suc (snd front))) (Suc (snd front)) len"
    proof (cases rest)
      case Nil
      then show ?thesis using 1(5,6) init_items_single [of front "Suc (snd front)" len] by simp
    next
      case (Cons f r)
      then show ?thesis using 1(2) [OF il True m [symmetric], of f r] 1(7) by (cases f) auto
    qed
    then show ?thesis
      using True il e 1(5) by (subst init_items.simps) (simp add: m Let_def)
  next
    case False
    then show ?thesis using 1(3-7) il by (subst init_items.simps) (simp add: item_end_def)
  qed
qed

lemma covers_singles: "covers (map (\<lambda>i. (i, 0)) [a..<b]) a b \<longleftrightarrow> a \<le> b"
proof (induction "b - a" arbitrary: a)
  case 0
  then show ?case by simp
next
  case (Suc d)
  then show ?case using Suc.hyps(1) [of "Suc a"] by (simp add: upt_rec item_end_def)
qed

lemma InitSwitchItems_covers: "covers (InitSwitchItems sw (FindClusters sw)) 0 (ncases sw)"
  using FindClusters_from_ok [of sw 0] init_items_covers [of 0 _ "ncases sw"]
  by (auto simp: InitSwitchItems_def FindClusters_def covers_singles Let_def split: list.split)

section \<open>Properties\<close>

lemma SortCasePair_sorted:
  assumes "switch_ok sw" "distinct (map fst (switchTable sw))"
  shows "sorted_switch (SortCasePair sw)"
proof -
  let ?t = "switchTable sw"
  have "distinct (map (sint \<circ> fst) ?t)"
    using assms(2) by (auto simp: distinct_map inj_on_def intro: signed_word_eqI)
  then have "distinct (map (sint \<circ> fst) (sort_key (sint \<circ> fst) ?t))"
    by (simp add: distinct_map)
  then have "sorted_wrt (<) (map (sint \<circ> fst) (sort_key (sint \<circ> fst) ?t))"
    by (simp add: strict_sorted_iff)
  moreover have "switch_ok (SortCasePair sw)"
    using assms(1) by (simp add: switch_ok_def SortCasePair_def case_ok_def)
  ultimately show ?thesis by (simp add: sorted_switch_def SortCasePair_def)
qed

lemma SortCasePair_target:
  assumes "distinct (map fst (switchTable sw))"
  shows "switch_target (SortCasePair sw) = switch_target sw"
proof -
  let ?f = "map (\<lambda>(t, l). (sint t, l)) :: (int64 \<times> nat) list \<Rightarrow> (int \<times> nat) list"
  let ?t = "switchTable sw" and ?u = "sort_key (sint \<circ> fst) (switchTable sw)"
  have k: "map fst (?f xs) = map (sint \<circ> fst) xs" for xs by (simp add: comp_def case_prod_beta)
  have "distinct (map (sint \<circ> fst) ?t)"
    using assms by (auto simp: distinct_map inj_on_def intro: signed_word_eqI)
  then have "distinct (map fst (?f ?t))" "distinct (map fst (?f ?u))"
    unfolding k by (simp_all add: distinct_map)
  then have "map_of (?f ?u) = map_of (?f ?t)" by (subst map_of_inject_set) simp_all
  then show ?thesis by (auto simp: switch_target_def SortCasePair_def fun_eq_iff split: option.splits)
qed

lemma distinct_new_labels: "mset xs = new_labels n n' \<Longrightarrow> distinct xs \<and> set xs = {n..<n'}"
  by (metis distinct_upt mset_eq_imp_distinct_iff mset_upt set_mset_mset set_upt)

text \<open>
  (C1) The lowered code of a switch statement jumps to the label of the case whose
  tag is the value of the operand, and to the default label when there is none,
  leaving the state unchanged; the lowering always succeeds. The tags have to be
  distinct, to be read alike as signed 64-bit values and in the type of the operand,
  and to fit the 32-bit offset of an indexed jump; the labels have to fit its 16-bit
  entries.
\<close>

theorem LowerSwitch_correct:
  assumes ok: "switch_ok sw" and d: "distinct (map fst (switchTable sw))" and x: "operand_is sw s x"
    and n: "switch_target sw x < n"
  shows "\<exists>C n'. LowerSwitch sw n = Inr (C, n') \<and> reaches ext C (At 0 s) (Exited (switch_target sw x) s)"
proof -
  let ?t = "switch_target sw x"
  have exits: "reaches ext C (At 0 s) (Exited ?t s)"
    if "sem_ok ext C s (Jumps ?t s)" "mset (labels C) = new_labels n n'" for C n'
    using sem_okD [OF that(1), of "[]" "[]"] distinct_new_labels [OF that(2)] n by (simp add: outside_def final_def)
  show ?thesis
  proof (cases "switchTable sw = []")
    case True
    then have "?t = defaultLabel sw" by (simp add: switch_target_def)
    then have "sem_ok ext [BuildGotoNode sw None] s (Jumps ?t s)"
      by (auto simp: BuildGotoNode_def label_of_def atomic_def intro!: sem_single)
    from exits [OF this, of n] True show ?thesis by (simp add: LowerSwitch_def BuildGotoNode_def)
  next
    case False
    define sw' where "sw' = SortCasePair sw"
    define items where "items = InitSwitchItems sw' (FindClusters sw')"
    have sw: "sorted_switch sw'" unfolding sw'_def using ok d by (rule SortCasePair_sorted)
    have x': "operand_is sw' s x" using x by (simp add: operand_is_def sw'_def SortCasePair_def)
    have t: "switch_target sw' x = ?t" unfolding sw'_def by (simp add: SortCasePair_target [OF d])
    have cov: "covers items 0 (ncases sw')" unfolding items_def by (rule InitSwitchItems_covers)
    have "0 < ncases sw'" using False by (simp add: sw'_def SortCasePair_def)
    with cov have ne: "items \<noteq> []" by (cases items) auto
    then have p: "0 \<le> int (length items) - 1" "int (length items) - 1 < int (length items)"
        "nat (int (length items) - 1 + 1 - 0) < Suc (length items)" by (cases items; simp)+
    have last: "nat (int (length items) - 1) = length items - 1" by linarith
    have l: "live sw' items 0 (int (length items) - 1) False False x"
      using covers_ends [OF cov ne] p(1) last by (auto simp: live_def last)
    obtain C gen n' where B:
      "BuildCodeForSwitchItems (Suc (length items)) sw' items 0 (int (length items) - 1) False False False n = Inr (C, gen, n')"
      "mset (labels C) = new_labels n n'" "decides ext sw' s x C False"
      using BuildCode_ok [OF sw x' cov _ p, of False False False n ext] l by auto
    let ?C = "if gen then C else C @ [BuildGotoNode sw' None]"
    have "LowerSwitch sw n = Inr (?C, n')"
      using False B(1) by (simp add: LowerSwitch_def sw'_def items_def Let_def)
    moreover have "sem_ok ext ?C s (Jumps ?t s)" using B(3) by (auto simp: decides_False t intro: sem_leave)
    moreover have "mset (labels ?C) = new_labels n n'" using B(2) by (simp add: BuildGotoNode_def)
    ultimately show ?thesis using exits by blast
  qed
qed

text \<open>A switch with three cases, for the theorem above.\<close>

definition near_switch :: SwitchNode where
  "near_switch = \<lparr>switchOpnd = Dread PTY_i32 0, defaultLabel = 9,
     switchTable = [(5, 1), (1, 2), (- 7, 3)]\<rparr>"

definition near_state :: state where
  "near_state = \<lparr>vars = (\<lambda>_. 5), regs = (\<lambda>_. 0)\<rparr>"

theorem LowerSwitch_correct_witness:
  "\<exists>C n'. LowerSwitch near_switch 10 = Inr (C, n') \<and>
     reaches back_ext C (At 0 near_state) (Exited 1 near_state)"
proof -
  have "switch_ok near_switch"
    by (simp add: switch_ok_def case_ok_def near_switch_def int_types_def int_of_def prim_pred_defs prim_size_defs)
  moreover have "distinct (map fst (switchTable near_switch))" by (simp add: near_switch_def)
  moreover have "operand_is near_switch near_state 5"
    by (simp add: operand_is_def near_switch_def near_state_def wrap_def prim_pred_defs prim_size_defs)
  moreover have "switch_target near_switch 5 = 1" by (simp add: switch_target_def near_switch_def)
  ultimately show ?thesis using LowerSwitch_correct [of near_switch near_state 5 10] by simp
qed

section \<open>Tags beyond 32 bits\<close>

text \<open>Seven consecutive 64-bit tags, the first of them two to the 33.\<close>

definition far_switch :: SwitchNode where
  "far_switch = \<lparr>switchOpnd = Regread PTY_i64 0, defaultLabel = 9,
     switchTable = [(8589934592, 1), (8589934593, 2), (8589934594, 3), (8589934595, 4),
                    (8589934596, 5), (8589934597, 6), (8589934598, 7)]\<rparr>"

definition far_state :: state where
  "far_state = \<lparr>vars = (\<lambda>_. 0), regs = (\<lambda>_. 8589934595)\<rparr>"

lemma far_sorted: "SortCasePair far_switch = far_switch"
  by (simp add: SortCasePair_def far_switch_def)

lemma far_floats: "to_float 8589934598 = 8589934592" "to_float 8589934592 = 8589934592"
proof -
  have "\<lfloor>4294967299 / 512 :: rat\<rfloor> = 8388608" by (simp add: floor_eq_iff)
  then show "to_float 8589934598 = 8589934592" "to_float 8589934592 = 8589934592"
    by (simp_all add: to_float_def float_exponent_def round_half_even_def bits.simps power_int_def Let_def)
qed

lemma to_float_0: "to_float 0 = 0" by (simp add: to_float_def)

lemma far_dense: "dense_enough far_switch 0 6"
  by (simp add: dense_enough_def far_switch_def far_floats to_float_0 Let_def)

lemma far_items: "InitSwitchItems far_switch (FindClusters far_switch) = [(0, 6)]"
proof -
  have len: "length (switchTable far_switch) = 7" by (simp add: far_switch_def)
  have "find_cluster_end far_switch 0 6 = Some 6" using far_dense by (simp add: find_cluster_end.simps)
  then have "FindClusters far_switch = [(0, 6)]"
    by (simp add: FindClusters_def FindClusters_from.simps len)
  then show ?thesis by (simp add: InitSwitchItems_def len init_items.simps)
qed

definition far_code :: "stmt list" where
  "far_code = [brtrue (BuildCmpNode far_switch OP_lt 0) 9, brfalse (BuildCmpNode far_switch OP_le 6) 100,
     BuildRangeGotoNode far_switch 0 6, LabelStmt 100, Goto 9]"

lemma far_lowered: "LowerSwitch far_switch 100 = Inr (far_code, 101)"
  by (simp add: LowerSwitch_def far_sorted far_items Let_def BuildCodeForSwitchItems.simps(2) low_dense.simps
      high_dense.simps LowerIfStmt_single far_code_def goto_default_def BuildGotoNode_def BuildCondGotoNode_def
      label_of_def)
   (simp add: far_switch_def prim_pred_defs)

lemma far_range: "atomic ext (BuildRangeGotoNode far_switch 0 6) far_state = Some Traps"
  by (simp add: BuildRangeGotoNode_def far_switch_def atomic_def far_state_def fill_gap.simps low32_def
    wrap_def prim_pred_defs prim_size_defs Let_def upt_rec)

text \<open>
  A dense cluster of 64-bit tags outside the 32-bit range is lowered to an
  indexed jump whose 32-bit offset lost the high bits of the tags: a value that
  matches a case indexes far outside the table, and the run goes wrong.
\<close>

theorem LowerSwitch_far_tags:
  "\<exists>C n'. LowerSwitch far_switch 100 = Inr (C, n') \<and> reaches ext C (At 0 far_state) Stuck \<and>
     operand_is far_switch far_state 8589934595 \<and> switch_target far_switch 8589934595 = 4"
proof -
  have c: "cond (BuildCmpNode far_switch OP_lt 0) far_state = Some False"
    "cond (BuildCmpNode far_switch OP_le 6) far_state = Some True"
    by (simp_all add: BuildCmpNode_def cond_def far_switch_def far_state_def wrap_def int_of_def ref_compare_def
        prim_pred_defs prim_size_defs)
  have "(step ext far_code ^^ 3) (At 0 far_state) = Stuck"
    by (simp add: far_code_def numeral_3_eq_3 atomic_cond c resume_def far_range)
  then have "reaches ext far_code (At 0 far_state) Stuck" by (auto simp: reaches_def)
  moreover have "operand_is far_switch far_state 8589934595" "switch_target far_switch 8589934595 = 4"
    by (simp_all add: operand_is_def switch_target_def far_switch_def far_state_def wrap_def prim_pred_defs prim_size_defs)
  ultimately show ?thesis using far_lowered by blast
qed

end
