(* ===== verification/BinBuf.thy ===== *)
theory BinBuf
  imports PrimTypes "HOL-Library.Monad_Syntax"
begin

text \<open>
  The byte buffer of the binary Maple IR: \<^verbatim>\<open>BinaryMplExport\<close> writes it
  (\<^verbatim>\<open>src/bin_mpl_export.cpp\<close>) and \<^verbatim>\<open>BinaryMplImport\<close> reads it
  (\<^verbatim>\<open>src/bin_mpl_import.cpp\<close>). This theory holds the state of the two
  sides, the numbers (four-byte little-endian and LEB128), the strings with their
  marks, and the interface \<open>codec\<close>: what a pair of a writer and a reader promises,
  how such pairs compose, and what follows for counted sequences. \<open>None\<close> is a
  \<^verbatim>\<open>CHECK_FATAL\<close> or an access through a null pointer.
\<close>

unbundle bit_operations_syntax

named_theorems codes_intros
named_theorems grows_intros

section \<open>The two sides\<close>

text \<open>
  A \<^verbatim>\<open>GStrIdx\<close> or \<^verbatim>\<open>UStrIdx\<close> is an index of an interning table whose
  entry 0 is the empty string: the models carry the string. A \<^verbatim>\<open>TyIdx\<close> stays
  an index, since the importing module numbers its types itself.
\<close>

type_synonym TyIdx = uint32
type_synonym LabelIdx = uint32
type_synonym PUIdx = uint32
type_synonym PregIdx = int32
type_synonym FieldID = int32

record SrcPosition =
  RawData :: uint32
  LineNum :: uint32

definition FileNum :: "SrcPosition \<Rightarrow> uint16" where
  "FileNum p = ucast (RawData p)"

record exporter =
  xbuf :: "uint8 list"
  gStrMark :: "(string \<times> int64) list"
  uStrMark :: "(string \<times> int64) list"
  typMark :: "(TyIdx \<times> int64) list"
  typeMarkOffset :: nat
  lastOutputSrcPosition :: SrcPosition

record importer =
  ibuf :: "uint8 list"
  bufI :: nat
  gStrTab :: "string list"
  uStrTab :: "string list"
  typTab :: "TyIdx list"
  byNameTypes :: "(string \<times> TyIdx) list"
  typeTableSize :: nat
  addrTakenLabels :: "LabelIdx list"
  potentialAssigned :: "string list"
  retypedLocals :: "uint32 list"

definition remaining :: "importer \<Rightarrow> uint8 list" where
  "remaining i = drop (bufI i) (ibuf i)"

section \<open>Bytes and fixed-width integers\<close>

definition Write :: "uint8 \<Rightarrow> exporter \<Rightarrow> exporter option" where
  "Write b x = Some (x\<lparr>xbuf := xbuf x @ [b]\<rparr>)"

definition Read :: "importer \<Rightarrow> (uint8 \<times> importer) option" where
  "Read i = (if bufI i < length (ibuf i) then Some (ibuf i ! bufI i, i\<lparr>bufI := bufI i + 1\<rparr>) else None)"

definition WriteInt :: "int32 \<Rightarrow> exporter \<Rightarrow> exporter option" where
  "WriteInt n x = do {
     x \<leftarrow> Write (ucast (n AND 0xFF)) x;
     x \<leftarrow> Write (ucast (drop_bit 8 n AND 0xFF)) x;
     x \<leftarrow> Write (ucast (drop_bit 16 n AND 0xFF)) x;
     Write (ucast (drop_bit 24 n AND 0xFF)) x }"

definition ReadInt :: "importer \<Rightarrow> (int32 \<times> importer) option" where
  "ReadInt i = do {
     (x0, i) \<leftarrow> Read i;
     (x1, i) \<leftarrow> Read i;
     (x2, i) \<leftarrow> Read i;
     (x3, i) \<leftarrow> Read i;
     Some (push_bit 8 (push_bit 8 (push_bit 8 (ucast x3) + ucast x2) + ucast x1) + ucast x0, i) }"

definition ExpandFourBuffSize :: "exporter \<Rightarrow> exporter option" where
  "ExpandFourBuffSize x = WriteInt 0 x"

definition Fixup :: "nat \<Rightarrow> int32 \<Rightarrow> exporter \<Rightarrow> exporter option" where
  "Fixup i n x =
     (if i + 4 \<le> length (xbuf x)
      then Some (x\<lparr>xbuf := (xbuf x)[i := ucast (n AND 0xFF), i + 1 := ucast (drop_bit 8 n AND 0xFF),
                                   i + 2 := ucast (drop_bit 16 n AND 0xFF), i + 3 := ucast (drop_bit 24 n AND 0xFF)]\<rparr>)
      else None)"

definition WriteInt64 :: "int64 \<Rightarrow> exporter \<Rightarrow> exporter option" where
  "WriteInt64 n x = do {
     x \<leftarrow> WriteInt (ucast (n AND 0xFFFFFFFF)) x;
     WriteInt (ucast (drop_bit 32 n AND 0xFFFFFFFF)) x }"

definition ReadInt64 :: "importer \<Rightarrow> (int64 \<times> importer) option" where
  "ReadInt64 i = do {
     (x0, i) \<leftarrow> ReadInt i;
     (x1, i) \<leftarrow> ReadInt i;
     Some (push_bit 32 (ucast x1) + ucast x0, i) }"

section \<open>LEB128 numbers\<close>

lemma signed_drop_bit_7_abs:
  fixes n :: int64
  assumes "n <s - 0x40 \<or> 0x40 \<le>s n"
  shows "nat \<bar>sint (signed_drop_bit 7 n)\<bar> < nat \<bar>sint n\<bar>"
proof -
  have "sint (signed_drop_bit 7 n) = sint n div 128"
    by (simp add: sint_signed_drop_bit_eq drop_bit_eq_div)
  moreover have "sint n < - 64 \<or> 64 \<le> sint n"
    using assms by (simp add: word_sless_alt word_sle_eq)
  ultimately show ?thesis by auto
qed

function WriteNum :: "int64 \<Rightarrow> exporter \<Rightarrow> exporter option" where
  "WriteNum n x =
     (if n <s - 0x40 \<or> 0x40 \<le>s n
      then do { x \<leftarrow> Write (ucast ((n AND 0x7F) + 0x80)) x; WriteNum (signed_drop_bit 7 n) x }
      else Write (ucast (n AND 0x7F)) x)"
  by auto
termination
  by (relation "measure (\<lambda>(n, _). nat \<bar>sint n\<bar>)") (use signed_drop_bit_7_abs in auto)

declare WriteNum.simps [simp del]

text \<open>
  The loop of \<^verbatim>\<open>ReadNum\<close>: \<open>n\<close> is the shift, \<open>y\<close> what was read so far, \<open>b\<close> the
  current byte. A shift by 64 or more is undefined in C++.
\<close>

partial_function (option) ReadNum_loop :: "nat \<Rightarrow> int64 \<Rightarrow> uint64 \<Rightarrow> importer \<Rightarrow> (int64 \<times> importer) option" where
  "ReadNum_loop n y b i =
     (if 64 \<le> n then None
      else if 0x80 \<le> b
      then do { (b', i) \<leftarrow> Read i; ReadNum_loop (n + 7) (y + push_bit n (b - 0x80)) (ucast b') i }
      else Some (y + push_bit n ((b AND 0x3F) - (b AND 0x40)), i))"

definition ReadNum :: "importer \<Rightarrow> (int64 \<times> importer) option" where
  "ReadNum i = do { (b, i) \<leftarrow> Read i; ReadNum_loop 0 0 (ucast b) i }"

section \<open>Strings\<close>

definition byte_of_char :: "char \<Rightarrow> uint8" where
  "byte_of_char c = word_of_nat (of_char c)"

definition char_of_byte :: "uint8 \<Rightarrow> char" where
  "char_of_byte b = char_of (unat b)"

fun write_chars :: "string \<Rightarrow> exporter \<Rightarrow> exporter option" where
  "write_chars [] x = Some x"
| "write_chars (c # s) x = do { x \<leftarrow> Write (byte_of_char c) x; write_chars s x }"

definition WriteAsciiStr :: "string \<Rightarrow> exporter \<Rightarrow> exporter option" where
  "WriteAsciiStr s x = do { x \<leftarrow> WriteNum (word_of_nat (length s)) x; write_chars s x }"

text \<open>A \<^verbatim>\<open>for\<close> loop of the import: the body runs \<open>n\<close> times and its results are kept in order.\<close>

fun read_n :: "nat \<Rightarrow> (importer \<Rightarrow> ('b \<times> importer) option) \<Rightarrow> importer \<Rightarrow> ('b list \<times> importer) option" where
  "read_n 0 R i = Some ([], i)"
| "read_n (Suc n) R i = do { (v, i) \<leftarrow> R i; (vs, i) \<leftarrow> read_n n R i; Some (v # vs, i) }"

definition ReadAsciiStr :: "importer \<Rightarrow> (string \<times> importer) option" where
  "ReadAsciiStr i = do {
     (n, i) \<leftarrow> ReadNum i;
     (bs, i) \<leftarrow> read_n (nat (sint n)) Read i;
     Some (map char_of_byte bs, i) }"

abbreviation (input) kBinString :: int64 where "kBinString \<equiv> 1"
abbreviation (input) kBinUsrString :: int64 where "kBinUsrString \<equiv> 1"

definition OutputStr :: "string \<Rightarrow> exporter \<Rightarrow> exporter option" where
  "OutputStr s x =
     (if s = '''' then WriteNum 0 x
      else case map_of (gStrMark x) s of
        Some m \<Rightarrow> WriteNum (- m) x
      | None \<Rightarrow> do {
          x \<leftarrow> Some (x\<lparr>gStrMark := (s, word_of_nat (length (gStrMark x))) # gStrMark x\<rparr>);
          x \<leftarrow> WriteNum kBinString x;
          WriteAsciiStr s x })"

definition OutputUsrStr :: "string \<Rightarrow> exporter \<Rightarrow> exporter option" where
  "OutputUsrStr s x =
     (if s = '''' then WriteNum 0 x
      else case map_of (uStrMark x) s of
        Some m \<Rightarrow> WriteNum (- m) x
      | None \<Rightarrow> do {
          x \<leftarrow> Some (x\<lparr>uStrMark := (s, word_of_nat (length (uStrMark x))) # uStrMark x\<rparr>);
          x \<leftarrow> WriteNum kBinUsrString x;
          WriteAsciiStr s x })"

definition ImportStr :: "importer \<Rightarrow> (string \<times> importer) option" where
  "ImportStr i = do {
     (tag, i) \<leftarrow> ReadNum i;
     if tag = 0 then Some ('''', i)
     else if tag <s 0
     then (if - tag <s word_of_nat (length (gStrTab i)) then Some (gStrTab i ! unat (- tag), i) else None)
     else if tag = kBinString
     then do { (s, i) \<leftarrow> ReadAsciiStr i; Some (s, i\<lparr>gStrTab := gStrTab i @ [s]\<rparr>) }
     else None }"

definition ImportUsrStr :: "importer \<Rightarrow> (string \<times> importer) option" where
  "ImportUsrStr i = do {
     (tag, i) \<leftarrow> ReadNum i;
     if tag = 0 then Some ('''', i)
     else if tag <s 0
     then (if - tag <s word_of_nat (length (uStrTab i)) then Some (uStrTab i ! unat (- tag), i) else None)
     else if tag = kBinUsrString
     then do { (s, i) \<leftarrow> ReadAsciiStr i; Some (s, i\<lparr>uStrTab := uStrTab i @ [s]\<rparr>) }
     else None }"

section \<open>What the two sides share\<close>

text \<open>
  The exporting module knows its types, global symbols and functions by index, the
  importing module finds its own by name; \<open>tyOf\<close> is the importing module's index
  for a type of the exporting one. \<open>localSym\<close> gives the name of a local symbol of
  the function being imported and whether its type is a pointer.
\<close>

record MIRTypeInfo =
  isFunctionKind :: bool
  nameStrIdx :: string
  nameIsLocal :: bool

record xmodule =
  typeTable :: "TyIdx \<Rightarrow> MIRTypeInfo option"
  gsymName :: "24 word \<Rightarrow> string option"
  funcName :: "PUIdx \<Rightarrow> string option"

record imodule =
  typeNameTab :: "string \<Rightarrow> TyIdx"
  gsymIdx :: "string \<Rightarrow> 24 word option"
  symFunction :: "string \<Rightarrow> PUIdx option"
  typePrimType :: "TyIdx \<Rightarrow> PrimType"
  localSym :: "uint32 \<Rightarrow> (string \<times> bool) option"

record modules =
  xmod :: xmodule
  imod :: imodule
  tyOf :: "TyIdx \<Rightarrow> TyIdx"

text \<open>The marks of the exporter and the table of the importer: \<open>off\<close> entries of the table belong to no mark.\<close>

definition marks_ok :: "'k \<Rightarrow> nat \<Rightarrow> ('k \<times> int64) list \<Rightarrow> 'v list \<Rightarrow> ('k \<Rightarrow> 'v) \<Rightarrow> bool" where
  "marks_ok z off marks tab f \<longleftrightarrow>
     length tab = length marks + off \<and> tab \<noteq> [] \<and>
     (\<forall>k m. map_of marks k = Some m \<and> k \<noteq> z \<longrightarrow> 0 < unat m \<and> unat m < length tab \<and> tab ! unat m = f k)"

definition names_ok :: "modules \<Rightarrow> bool" where
  "names_ok c \<longleftrightarrow>
     (\<forall>ty t. typeTable (xmod c) ty = Some t \<and> \<not> nameIsLocal t \<and> nameStrIdx t \<noteq> '''' \<longrightarrow>
        tyOf c ty \<noteq> 0 \<and> typeNameTab (imod c) (nameStrIdx t) = tyOf c ty)"

definition agrees :: "modules \<Rightarrow> exporter \<Rightarrow> importer \<Rightarrow> bool" where
  "agrees c x i \<longleftrightarrow>
     marks_ok '''' 0 (gStrMark x) (gStrTab i) id \<and>
     marks_ok '''' 0 (uStrMark x) (uStrTab i) id \<and>
     marks_ok 0 (typeMarkOffset x) (typMark x) (typTab i) (tyOf c) \<and>
     length (gStrTab i) \<le> length (xbuf x) + 256 \<and>
     length (uStrTab i) \<le> length (xbuf x) + 256 \<and>
     length (typTab i) \<le> length (xbuf x) + 256 \<and>
     names_ok c"

text \<open>
  \<open>codes c p out imp v p'\<close>: what \<open>out\<close> appends to the buffer, \<open>imp\<close> reads back as
  \<open>v\<close>, from every importer that agrees with the exporter, and the two agree
  afterwards. \<open>p\<close> and \<open>p'\<close> are the last source position before and after. The size of a
  file is kept in 32 bits by the format.
\<close>

definition codes ::
    "modules \<Rightarrow> SrcPosition \<Rightarrow> (exporter \<Rightarrow> exporter option) \<Rightarrow> (importer \<Rightarrow> ('b \<times> importer) option) \<Rightarrow>
     'b \<Rightarrow> SrcPosition \<Rightarrow> bool" where
  "codes c p out imp v p' \<longleftrightarrow>
     (\<forall>x x'. out x = Some x' \<longrightarrow> lastOutputSrcPosition x = p \<longrightarrow>
        lastOutputSrcPosition x' = p' \<and>
        (\<exists>bs. xbuf x' = xbuf x @ bs \<and>
          (length (xbuf x') < 2 ^ 31 \<longrightarrow>
            (\<forall>i rest. agrees c x i \<and> remaining i = bs @ rest \<longrightarrow>
              (\<exists>i'. imp i = Some (v, i') \<and> agrees c x' i' \<and> remaining i' = rest)))))"

definition grows :: "(exporter \<Rightarrow> exporter option) \<Rightarrow> bool" where
  "grows out \<longleftrightarrow> (\<forall>x x'. out x = Some x' \<longrightarrow> (\<exists>b bs. xbuf x' = xbuf x @ b # bs))"

lemma codesI:
  assumes "\<And>x x'. out x = Some x' \<Longrightarrow> lastOutputSrcPosition x = p \<Longrightarrow>
      lastOutputSrcPosition x' = p' \<and>
      (\<exists>bs. xbuf x' = xbuf x @ bs \<and>
        (length (xbuf x') < 2 ^ 31 \<longrightarrow>
          (\<forall>i rest. agrees c x i \<and> remaining i = bs @ rest \<longrightarrow>
            (\<exists>i'. imp i = Some (v, i') \<and> agrees c x' i' \<and> remaining i' = rest))))"
  shows "codes c p out imp v p'"
  using assms by (auto simp: codes_def)

lemma codes_return [codes_intros]: "v = w \<Longrightarrow> codes c p Some (\<lambda>i. Some (v, i)) w p"
  by (auto simp: codes_def)

lemma codes_bind:
  assumes a: "codes c p out1 imp1 v p1" and b: "codes c p1 out2 (imp2 v) w p2"
  shows "codes c p (\<lambda>x. Option.bind (out1 x) out2) (\<lambda>i. Option.bind (imp1 i) (\<lambda>(u, i). imp2 u i)) w p2"
proof (rule codesI)
  fix x x2 assume o: "Option.bind (out1 x) out2 = Some x2" and p: "lastOutputSrcPosition x = p"
  then obtain x1 where x1: "out1 x = Some x1" and x2: "out2 x1 = Some x2"
    by (auto simp: Option.bind_eq_Some_conv)
  from a x1 p obtain bs1 where p1: "lastOutputSrcPosition x1 = p1" and bs1: "xbuf x1 = xbuf x @ bs1"
    and r1: "length (xbuf x1) < 2 ^ 31 \<Longrightarrow> agrees c x i \<Longrightarrow> remaining i = bs1 @ rest \<Longrightarrow>
       \<exists>i'. imp1 i = Some (v, i') \<and> agrees c x1 i' \<and> remaining i' = rest" for i rest
    unfolding codes_def by blast
  from b x2 p1 obtain bs2 where p2: "lastOutputSrcPosition x2 = p2" and bs2: "xbuf x2 = xbuf x1 @ bs2"
    and r2: "length (xbuf x2) < 2 ^ 31 \<Longrightarrow> agrees c x1 i \<Longrightarrow> remaining i = bs2 @ rest \<Longrightarrow>
       \<exists>i'. imp2 v i = Some (w, i') \<and> agrees c x2 i' \<and> remaining i' = rest" for i rest
    unfolding codes_def by blast
  have "\<exists>i'. Option.bind (imp1 i) (\<lambda>(u, i). imp2 u i) = Some (w, i') \<and> agrees c x2 i' \<and> remaining i' = rest"
    if "length (xbuf x2) < 2 ^ 31" and "agrees c x i" and "remaining i = (bs1 @ bs2) @ rest" for i rest
    using r1 [of i "bs2 @ rest"] r2 that bs2 by fastforce
  then show "lastOutputSrcPosition x2 = p2 \<and>
      (\<exists>bs. xbuf x2 = xbuf x @ bs \<and>
        (length (xbuf x2) < 2 ^ 31 \<longrightarrow>
          (\<forall>i rest. agrees c x i \<and> remaining i = bs @ rest \<longrightarrow>
            (\<exists>i'. Option.bind (imp1 i) (\<lambda>(u, i). imp2 u i) = Some (w, i') \<and> agrees c x2 i' \<and> remaining i' = rest))))"
    using p2 bs1 bs2 by (intro conjI exI [of _ "bs1 @ bs2"]) auto
qed

lemma codes_map:
  assumes "codes c p out imp v p'" and "f v = w"
  shows "codes c p out (\<lambda>i. Option.bind (imp i) (\<lambda>(u, i). Some (f u, i))) w p'"
proof -
  have "codes c p (\<lambda>x. Option.bind (out x) Some) (\<lambda>i. Option.bind (imp i) (\<lambda>(u, i). Some (f u, i))) w p'"
    by (rule codes_bind [OF assms(1)], rule codes_return, rule assms(2))
  then show ?thesis by simp
qed

text \<open>The import may go on without reading: it checks, converts or records what was read.\<close>

lemma codes_then:
  assumes "codes c p out imp v p'"
    and "\<And>i. \<exists>i'. K v i = Some (w, i') \<and> remaining i' = remaining i \<and> (\<forall>x. agrees c x i' = agrees c x i)"
  shows "codes c p out (\<lambda>i. Option.bind (imp i) (\<lambda>(u, i). K u i)) w p'"
proof -
  have "codes c p' Some (K v) w p'"
    using assms(2) by (fastforce simp: codes_def)
  then have "codes c p (\<lambda>x. Option.bind (out x) Some) (\<lambda>i. Option.bind (imp i) (\<lambda>(u, i). K u i)) w p'"
    by (rule codes_bind [OF assms(1)])
  then show ?thesis by simp
qed

lemma codes_round_trip:
  assumes "codes c p out imp v p'" and "out x = Some x'" and "lastOutputSrcPosition x = p"
    and "length (xbuf x') < 2 ^ 31" and "agrees c x i"
    and "remaining i = drop (length (xbuf x)) (xbuf x') @ rest"
  shows "\<exists>i'. imp i = Some (v, i') \<and> remaining i' = rest \<and> agrees c x' i'"
proof -
  obtain bs where "xbuf x' = xbuf x @ bs"
    and "\<forall>i rest. agrees c x i \<and> remaining i = bs @ rest \<longrightarrow>
        (\<exists>i'. imp i = Some (v, i') \<and> agrees c x' i' \<and> remaining i' = rest)"
    using assms(1-4) unfolding codes_def by blast
  then show ?thesis using assms(5,6) by auto
qed

lemma codes_append: "codes c p out imp v p' \<Longrightarrow> out x = Some x' \<Longrightarrow> lastOutputSrcPosition x = p \<Longrightarrow>
    \<exists>bs. xbuf x' = xbuf x @ bs"
  unfolding codes_def by blast

section \<open>The basic codecs\<close>

lemma remaining_Read: "remaining i = b # bs \<Longrightarrow> \<exists>i'. Read i = Some (b, i') \<and> remaining i' = bs \<and> (\<forall>c x. agrees c x i' = agrees c x i)"
  by (cases "bufI i < length (ibuf i)")
     (auto simp: remaining_def Read_def agrees_def Cons_nth_drop_Suc [symmetric])

lemma agrees_append: "agrees c x i \<Longrightarrow> agrees c (x\<lparr>xbuf := xbuf x @ bs\<rparr>) i"
  by (auto simp: agrees_def)

lemma agrees_longer: "agrees c x i \<Longrightarrow> xbuf x' = xbuf x @ bs \<Longrightarrow> gStrMark x' = gStrMark x \<Longrightarrow> uStrMark x' = uStrMark x \<Longrightarrow>
    typMark x' = typMark x \<Longrightarrow> typeMarkOffset x' = typeMarkOffset x \<Longrightarrow> agrees c x' i"
  by (auto simp: agrees_def)

lemma codes_Write [codes_intros]: "codes c p (Write b) Read b p"
proof (rule codesI)
  fix x x' assume "Write b x = Some x'" and "lastOutputSrcPosition x = p"
  then show "lastOutputSrcPosition x' = p \<and>
      (\<exists>bs. xbuf x' = xbuf x @ bs \<and>
        (length (xbuf x') < 2 ^ 31 \<longrightarrow>
          (\<forall>i rest. agrees c x i \<and> remaining i = bs @ rest \<longrightarrow>
            (\<exists>i'. Read i = Some (b, i') \<and> agrees c x' i' \<and> remaining i' = rest))))"
    using remaining_Read agrees_append by (fastforce simp: Write_def)
qed

lemma byte32: "(ucast (ucast (m AND 0xFF) :: uint8) :: int32) = take_bit 8 m"
proof -
  have "(0xFF::int32) = mask 8" by (simp add: mask_eq_exp_minus_1)
  then show ?thesis by (auto simp: bit_eq_iff bit_simps simp flip: take_bit_eq_mask)
qed

lemma split_word: "push_bit n (drop_bit n m) + take_bit n m = (m :: 'a::len word)"
  by (rule bits_ident)

lemma four_bytes:
  fixes n :: int32
  shows "push_bit 8 (push_bit 8 (push_bit 8 (ucast (ucast (drop_bit 24 n AND 0xFF) :: uint8)) +
      ucast (ucast (drop_bit 16 n AND 0xFF) :: uint8)) + ucast (ucast (drop_bit 8 n AND 0xFF) :: uint8)) +
      ucast (ucast (n AND 0xFF) :: uint8) = n" (is "?l = n")
proof -
  have s: "push_bit 8 (drop_bit (k + 8) n) + take_bit 8 (drop_bit k n) = drop_bit k n" for k
    using split_word [of 8 "drop_bit k n"] by (simp add: drop_bit_drop_bit add.commute)
  have "take_bit 8 (drop_bit 24 n) = drop_bit 24 n" by (auto simp: bit_eq_iff bit_simps dest: bit_imp_le_length)
  then show ?thesis
    using s [of 0] s [of 8] s [of 16] by (simp add: byte32)
qed

lemma codes_WriteInt [codes_intros]: "codes c p (WriteInt n) ReadInt n p"
  unfolding WriteInt_def ReadInt_def
  by (rule codes_bind codes_Write codes_map four_bytes)+

lemma eight_bytes:
  fixes n :: int64
  shows "push_bit 32 (ucast (ucast (drop_bit 32 n AND 0xFFFFFFFF) :: int32)) + ucast (ucast (n AND 0xFFFFFFFF) :: int32) = n"
proof -
  have "(0xFFFFFFFF::int64) = mask 32" by (simp add: mask_eq_exp_minus_1)
  then have b: "(ucast (ucast (m AND 0xFFFFFFFF) :: int32) :: int64) = take_bit 32 m" for m :: int64
    by (auto simp: bit_eq_iff bit_simps simp flip: take_bit_eq_mask)
  have "take_bit 32 (drop_bit 32 n) = drop_bit 32 n" by (auto simp: bit_eq_iff bit_simps dest: bit_imp_le_length)
  then show ?thesis
    using split_word [of 32 n] by (simp add: b)
qed

lemma codes_WriteInt64 [codes_intros]: "codes c p (WriteInt64 n) ReadInt64 n p"
  unfolding WriteInt64_def ReadInt64_def
  by (rule codes_bind codes_WriteInt codes_map eight_bytes)+

lemma low7: fixes n :: int64 shows "push_bit 7 (signed_drop_bit 7 n) + (n AND 0x7F) = n"
proof -
  have "n AND 0x7F = take_bit 7 n" by (simp add: take_bit_eq_mask mask_eq_exp_minus_1)
  moreover have "push_bit 7 (signed_drop_bit 7 n) = push_bit 7 (drop_bit 7 n)"
    by (auto simp: bit_eq_iff bit_simps)
  ultimately show ?thesis using split_word [of 7 n] by simp
qed

lemma last_byte: fixes n :: int64 
  assumes "\<not> (n <s - 0x40 \<or> 0x40 \<le>s n)"
  shows "((n AND 0x7F) AND 0x3F) - ((n AND 0x7F) AND 0x40) = n"
proof -
  have "\<forall>k\<in>{-64..63::int}. ((word_of_int k AND 0x7F) AND 0x3F) - ((word_of_int k AND 0x7F) AND 0x40) = (word_of_int k :: int64)"
    by code_simp
  moreover have "sint n \<in> {-64..63}" using assms by (auto simp: word_sless_alt word_sle_eq)
  ultimately have "((word_of_int (sint n) AND 0x7F) AND 0x3F) - ((word_of_int (sint n) AND 0x7F) AND 0x40) = (word_of_int (sint n) :: int64)" by blast
  then show ?thesis by simp
qed

subsection \<open>LEB128\<close>

text \<open>The bytes of a number.\<close>

function leb128 :: "int64 \<Rightarrow> uint8 list" where
  "leb128 n =
     (if n <s - 0x40 \<or> 0x40 \<le>s n
      then ucast ((n AND 0x7F) + 0x80) # leb128 (signed_drop_bit 7 n)
      else [ucast (n AND 0x7F)])"
  by auto
termination
  by (relation "measure (\<lambda>n. nat \<bar>sint n\<bar>)") (use signed_drop_bit_7_abs in auto)

declare leb128.simps [simp del]

lemma WriteNum_leb128: "WriteNum n x = Some (x\<lparr>xbuf := xbuf x @ leb128 n\<rparr>)"
  by (induction n x rule: WriteNum.induct) (subst WriteNum.simps, subst leb128.simps, simp add: Write_def)

lemma leb128_nonempty: "\<exists>b bs. leb128 n = b # bs"
  by (subst leb128.simps) auto

lemma low7_less: "unat ((n :: int64) AND 0x7F) < 128"
proof -
  have "n AND 0x7F = take_bit 7 n" by (simp add: take_bit_eq_mask mask_eq_exp_minus_1)
  then show ?thesis by (simp add: unsigned_take_bit_eq take_bit_eq_mod unat_mod)
qed

lemma byte64: "unat (w :: int64) < 256 \<Longrightarrow> ucast (ucast w :: uint8) = w"
  by (simp add: word_unat_eq_iff unsigned_ucast_eq take_bit_eq_mod unat_mod)

lemma continuation_byte:
  fixes n :: int64
  defines "b \<equiv> ucast (ucast ((n AND 0x7F) + 0x80) :: uint8) :: int64"
  shows "0x80 \<le> b" and "b - 0x80 = n AND 0x7F"
proof -
  have u: "unat ((n AND 0x7F) + 0x80) = unat (n AND 0x7F) + 128"
    using low7_less [of n] by (subst unat_add_lem [THEN iffD1]) simp_all
  then have "b = (n AND 0x7F) + 0x80"
    unfolding b_def using low7_less [of n] by (intro byte64) simp
  then show "0x80 \<le> b" and "b - 0x80 = n AND 0x7F"
    using u by (simp_all add: word_le_nat_alt)
qed

lemma ReadNum_loop_leb128:
  assumes "- (2 ^ (63 - k)) \<le> sint n" and "sint n < 2 ^ (63 - k)" and "k \<le> 63"
    and "remaining i = leb128 n @ rest"
  shows "\<exists>i'. Option.bind (Read i) (\<lambda>(b, i). ReadNum_loop k y (ucast b) i) = Some (y + push_bit k n, i') \<and>
      remaining i' = rest \<and> (\<forall>c x. agrees c x i' = agrees c x i)"
  using assms
proof (induction n arbitrary: k y i rule: leb128.induct)
  case (1 n)
  show ?case
  proof (cases "n <s - 0x40 \<or> 0x40 \<le>s n")
    case True
    have n: "sint n < - 64 \<or> 64 \<le> sint n"
      using True by (simp add: word_sless_alt word_sle_eq)
    have k: "k + 7 \<le> 63"
    proof (rule ccontr)
      assume "\<not> k + 7 \<le> 63"
      then have "(2::int) ^ (63 - k) \<le> 2 ^ 6" by (intro power_increasing) auto
      then show False using n 1(2,3) by auto
    qed
    have p: "(2::int) ^ (63 - k) = 128 * 2 ^ (63 - (k + 7))"
      using k power_add [of "2::int" 7 "63 - (k + 7)"] by simp
    have s: "sint (signed_drop_bit 7 n) = sint n div 128"
      by (simp add: sint_signed_drop_bit_eq drop_bit_eq_div)
    have d: "- (2 ^ (63 - (k + 7))) \<le> sint (signed_drop_bit 7 n)" "sint (signed_drop_bit 7 n) < 2 ^ (63 - (k + 7))"
      using 1(2,3) unfolding s p by linarith+
    have "remaining i = ucast ((n AND 0x7F) + 0x80) # leb128 (signed_drop_bit 7 n) @ rest"
      using 1(5) True leb128.simps [of n] by simp
    then obtain i1 where i1: "Read i = Some (ucast ((n AND 0x7F) + 0x80), i1)"
        and r: "remaining i1 = leb128 (signed_drop_bit 7 n) @ rest" and a: "\<forall>c x. agrees c x i1 = agrees c x i"
      using remaining_Read by blast
    have e: "y + push_bit k (n AND 0x7F) + push_bit (k + 7) (signed_drop_bit 7 n) = y + push_bit k n"
      using low7 [of n] push_bit_add [of k "push_bit 7 (signed_drop_bit 7 n)" "n AND 0x7F"]
      by (simp add: push_bit_push_bit add.commute)
    show ?thesis
      using 1(1) [OF True d k r, of "y + push_bit k (n AND 0x7F)"] a k
      unfolding e i1 by (subst (1) ReadNum_loop.simps) (simp add: continuation_byte)
  next
    case False
    then have "remaining i = ucast (n AND 0x7F) # rest"
      using 1(5) leb128.simps [of n] by simp
    then obtain i1 where i1: "Read i = Some (ucast (n AND 0x7F), i1)"
        and r: "remaining i1 = rest" "\<forall>c x. agrees c x i1 = agrees c x i"
      using remaining_Read by blast
    have b: "ucast (ucast (n AND 0x7F) :: uint8) = n AND 0x7F" "\<not> 0x80 \<le> n AND 0x7F"
      using low7_less [of n] by (simp_all add: byte64 word_le_nat_alt)
    show ?thesis
      using r 1(4) last_byte [OF False] unfolding i1 by (subst ReadNum_loop.simps) (simp add: b)
  qed
qed

lemma ReadNum_leb128:
  assumes "remaining i = leb128 n @ rest"
  shows "\<exists>i'. ReadNum i = Some (n, i') \<and> remaining i' = rest \<and> (\<forall>c x. agrees c x i' = agrees c x i)"
  using ReadNum_loop_leb128 [of 0 n i rest 0] assms sint_greater_eq [of n] sint_less [of n]
  by (simp add: ReadNum_def)

lemma codes_WriteNum [codes_intros]: "codes c p (WriteNum n) ReadNum n p"
proof (rule codesI)
  fix x x' assume "WriteNum n x = Some x'" and "lastOutputSrcPosition x = p"
  then show "lastOutputSrcPosition x' = p \<and>
      (\<exists>bs. xbuf x' = xbuf x @ bs \<and>
        (length (xbuf x') < 2 ^ 31 \<longrightarrow>
          (\<forall>i rest. agrees c x i \<and> remaining i = bs @ rest \<longrightarrow>
            (\<exists>i'. ReadNum i = Some (n, i') \<and> agrees c x' i' \<and> remaining i' = rest))))"
    using ReadNum_leb128 agrees_append by (fastforce simp: WriteNum_leb128)
qed

lemma grows_WriteNum [grows_intros]: "grows (WriteNum n)"
  using leb128_nonempty [of n] by (auto simp: grows_def WriteNum_leb128)

subsection \<open>Loops\<close>

text \<open>A loop of the export that writes the elements of a vector, and the counted loops of the format.\<close>

fun write_all :: "('a \<Rightarrow> exporter \<Rightarrow> exporter option) \<Rightarrow> 'a list \<Rightarrow> exporter \<Rightarrow> exporter option" where
  "write_all W [] x = Some x"
| "write_all W (v # vs) x = do { x \<leftarrow> W v x; write_all W vs x }"

lemma write_all_cong [fundef_cong]:
  "vs = vs' \<Longrightarrow> x = x' \<Longrightarrow> (\<And>v y. v \<in> set vs' \<Longrightarrow> W v y = W' v y) \<Longrightarrow> write_all W vs x = write_all W' vs' x'"
proof (induction vs arbitrary: vs' x x')
  case (Cons v vs)
  then show ?case by (cases "W' v x'") auto
qed simp

lemma read_n_mono [partial_function_mono]:
  assumes "\<And>i. mono_option (\<lambda>f. R f i)"
  shows "mono_option (\<lambda>f. read_n n (R f) i)"
proof (induction n arbitrary: i)
  case (Suc n)
  have "mono_option (\<lambda>f. case u of (v, i) \<Rightarrow> Option.bind (read_n n (R f) i) (\<lambda>(vs, i). Some (v # vs, i)))" for u
    by (cases u) (simp only: prod.case, intro bind_mono Suc option.const_mono)
  then show ?case
    unfolding read_n.simps by (intro bind_mono assms)
qed (simp add: option.const_mono)

text \<open>\<open>img p v\<close> is what is read back for \<open>v\<close> when \<open>p\<close> is the last position, \<open>pos v p\<close> the last position after \<open>v\<close>.\<close>

fun img_all :: "(SrcPosition \<Rightarrow> 'a \<Rightarrow> 'b) \<Rightarrow> ('a \<Rightarrow> SrcPosition \<Rightarrow> SrcPosition) \<Rightarrow> SrcPosition \<Rightarrow> 'a list \<Rightarrow> 'b list" where
  "img_all img pos p [] = []"
| "img_all img pos p (v # vs) = img p v # img_all img pos (pos v p) vs"

lemma codes_write_all:
  assumes "\<And>v p. v \<in> set vs \<Longrightarrow> codes c p (W v) R (img p v) (pos v p)"
  shows "codes c p (write_all W vs) (read_n (length vs) R) (img_all img pos p vs) (fold pos vs p)"
  using assms
proof (induction vs arbitrary: p)
  case Nil
  have "write_all W [] = Some" and "read_n 0 R = (\<lambda>i. Some ([], i))" by auto
  then show ?case by (simp add: codes_return)
next
  case (Cons v vs)
  have w: "write_all W (v # vs) = (\<lambda>x. do { x \<leftarrow> W v x; write_all W vs x })"
    and r: "read_n (Suc (length vs)) R = (\<lambda>i. do { (v, i) \<leftarrow> R i; (vs, i) \<leftarrow> read_n (length vs) R i; Some (v # vs, i) })"
    by auto
  have "codes c p (write_all W (v # vs)) (read_n (Suc (length vs)) R)
      (img p v # img_all img pos (pos v p) vs) (fold pos vs (pos v p))"
    unfolding w r
    by (rule codes_bind, rule Cons(2), simp, rule codes_map, rule Cons(1), rule Cons(2)) simp_all
  then show ?case by (simp only: img_all.simps fold_simps length_Cons)
qed

lemma img_all_const: "(\<And>v p. v \<in> set vs \<Longrightarrow> img p v = f v) \<Longrightarrow> img_all img pos p vs = map f vs"
  by (induction vs arbitrary: p) auto

lemma fold_id: "(\<And>v p. v \<in> set vs \<Longrightarrow> pos v p = p) \<Longrightarrow> fold pos vs p = p"
  by (induction vs arbitrary: p) auto

lemma codes_cases:
  assumes "codes c p out imp0 v0 p'"
    and "\<And>x x'. out x = Some x' \<Longrightarrow> length (xbuf x') < 2 ^ 31 \<Longrightarrow> P"
    and "P \<Longrightarrow> codes c p out imp v p'"
  shows "codes c p out imp v p'"
proof (cases P)
  case False
  then show ?thesis
    using assms(1,2) unfolding codes_def by blast
qed (rule assms(3))

lemma length_write_all:
  assumes "\<And>v. v \<in> set vs \<Longrightarrow> grows (W v)" and "write_all W vs x = Some x'"
  shows "length (xbuf x) + length vs \<le> length (xbuf x')"
  using assms
proof (induction vs arbitrary: x)
  case (Cons v vs)
  then obtain x1 where x1: "W v x = Some x1" "write_all W vs x1 = Some x'"
    by (auto simp: Option.bind_eq_Some_conv)
  moreover have "length (xbuf x) < length (xbuf x1)"
    using Cons.prems(1) [of v] x1 by (fastforce simp: grows_def)
  ultimately show ?case using Cons.IH [of x1] Cons.prems(1) by force
qed simp

definition write_counted :: "('a \<Rightarrow> exporter \<Rightarrow> exporter option) \<Rightarrow> 'a list \<Rightarrow> exporter \<Rightarrow> exporter option" where
  "write_counted W vs x = do { x \<leftarrow> WriteNum (word_of_nat (length vs)) x; write_all W vs x }"

text \<open>\<open>cnt\<close> is the conversion of the count to the type of the loop's bound.\<close>

definition read_counted :: "(int64 \<Rightarrow> nat) \<Rightarrow> (importer \<Rightarrow> ('b \<times> importer) option) \<Rightarrow> importer \<Rightarrow> ('b list \<times> importer) option" where
  "read_counted cnt R i = do { (n, i) \<leftarrow> ReadNum i; read_n (cnt n) R i }"

lemma read_counted_mono [partial_function_mono]:
  assumes "\<And>i. mono_option (\<lambda>f. R f i)"
  shows "mono_option (\<lambda>f. read_counted cnt (R f) i)"
proof -
  have "mono_option (\<lambda>f. case u of (n, i) \<Rightarrow> read_n (cnt n) (R f) i)" for u
    by (cases u) (auto intro!: read_n_mono assms)
  then show ?thesis
    unfolding read_counted_def by (auto intro!: bind_mono option.const_mono)
qed

definition count64 :: "int64 \<Rightarrow> nat" where "count64 n = nat (sint n)"
definition count32 :: "int64 \<Rightarrow> nat" where "count32 n = unat (ucast n :: uint32)"
definition count8 :: "int64 \<Rightarrow> nat" where "count8 n = unat (ucast n :: uint8)"

lemma count64_of_nat: "n < 2 ^ 31 \<Longrightarrow> count64 (word_of_nat n) = n"
  by (simp add: count64_def signed_of_nat signed_take_bit_int_eq_self)

lemma count32_of_nat: "n < 2 ^ 31 \<Longrightarrow> count32 (word_of_nat n) = n"
  by (simp add: count32_def unsigned_ucast_eq take_bit_eq_mod unat_of_nat)

lemma count8_of_nat: "n < 256 \<Longrightarrow> count8 (word_of_nat n) = n"
  by (simp add: count8_def unsigned_ucast_eq take_bit_eq_mod unat_of_nat)

lemma codes_counted:
  assumes law: "\<And>v p. v \<in> set vs \<Longrightarrow> codes c p (W v) R (img p v) (pos v p)"
    and wide: "\<And>v. v \<in> set vs \<Longrightarrow> grows (W v)"
    and cnt: "length vs < 2 ^ 31 \<Longrightarrow> cnt (word_of_nat (length vs)) = length vs"
  shows "codes c p (write_counted W vs) (read_counted cnt R) (img_all img pos p vs) (fold pos vs p)"
proof (rule codes_cases [where P = "length vs < 2 ^ 31"])
  have w: "write_counted W vs = (\<lambda>x. do { x \<leftarrow> WriteNum (word_of_nat (length vs)) x; write_all W vs x })"
    by (simp add: write_counted_def fun_eq_iff)
  show "codes c p (write_counted W vs) (\<lambda>i. do { (n, i) \<leftarrow> ReadNum i; read_n (length vs) R i })
      (img_all img pos p vs) (fold pos vs p)"
    unfolding w by (rule codes_bind, rule codes_WriteNum, rule codes_write_all, rule law)
  show "codes c p (write_counted W vs) (read_counted cnt R) (img_all img pos p vs) (fold pos vs p)" if "length vs < 2 ^ 31"
    unfolding w read_counted_def
    by (rule codes_bind, rule codes_WriteNum) (simp only: cnt [OF that], rule codes_write_all, rule law)
next
  fix x x' assume "write_counted W vs x = Some x'" and "length (xbuf x') < 2 ^ 31"
  then show "length vs < 2 ^ 31"
    using length_write_all [OF wide] by (fastforce simp: write_counted_def WriteNum_leb128)
qed

subsection \<open>The interface\<close>

text \<open>
  What a pair of a writer and a reader of one kind of object promises: the reader
  gives back the image of what was written, and an object takes at least one byte.
  \<open>pos_codec\<close> is for objects that carry source positions, \<open>codec\<close> for the others.
\<close>

locale pos_codec =
  fixes c :: modules
    and W :: "'a \<Rightarrow> exporter \<Rightarrow> exporter option"
    and R :: "importer \<Rightarrow> ('b \<times> importer) option"
    and img :: "SrcPosition \<Rightarrow> 'a \<Rightarrow> 'b"
    and pos :: "'a \<Rightarrow> SrcPosition \<Rightarrow> SrcPosition"
    and ok :: "'a \<Rightarrow> bool"
  assumes law: "ok v \<Longrightarrow> codes c p (W v) R (img p v) (pos v p)"
    and wide: "grows (W v)"
begin

lemma counted:
  assumes "list_all ok vs" and "length vs < 2 ^ 31 \<Longrightarrow> cnt (word_of_nat (length vs)) = length vs"
  shows "codes c p (write_counted W vs) (read_counted cnt R) (img_all img pos p vs) (fold pos vs p)"
  using assms by (intro codes_counted law wide) (auto simp: list_all_iff)

lemma round_trip:
  assumes "ok v" and "W v x = Some x'" and "length (xbuf x') < 2 ^ 31"
    and "agrees c x i" and "remaining i = drop (length (xbuf x)) (xbuf x') @ rest"
  shows "\<exists>i'. R i = Some (img (lastOutputSrcPosition x) v, i') \<and> remaining i' = rest \<and> agrees c x' i'"
  using codes_round_trip [OF law [OF assms(1)] assms(2) HOL.refl assms(3-5)] .

end

locale codec =
  fixes c :: modules
    and W :: "'a \<Rightarrow> exporter \<Rightarrow> exporter option"
    and R :: "importer \<Rightarrow> ('b \<times> importer) option"
    and img :: "'a \<Rightarrow> 'b"
    and ok :: "'a \<Rightarrow> bool"
  assumes same_pos: "ok v \<Longrightarrow> codes c p (W v) R (img v) p"
    and takes_a_byte: "grows (W v)"

sublocale codec \<subseteq> pos: pos_codec c W R "\<lambda>p. img" "\<lambda>v p. p" ok
  by unfold_locales (simp_all add: same_pos takes_a_byte)

context codec
begin

lemma counted_same_pos:
  assumes "list_all ok vs" and "length vs < 2 ^ 31 \<Longrightarrow> cnt (word_of_nat (length vs)) = length vs"
  shows "codes c p (write_counted W vs) (read_counted cnt R) (map img vs) p"
  using pos.counted [of vs cnt p] assms by (simp add: img_all_const fold_id)

end

text \<open>Every writer appends to the buffer; the writers of the format's objects append at least a byte.\<close>

definition extends :: "(exporter \<Rightarrow> exporter option) \<Rightarrow> bool" where
  "extends out \<longleftrightarrow> (\<forall>x x'. out x = Some x' \<longrightarrow> (\<exists>bs. xbuf x' = xbuf x @ bs))"

lemma grows_extends: "grows out \<Longrightarrow> extends out"
  unfolding grows_def extends_def by blast

lemma extends_Some [grows_intros]: "extends Some"
  by (simp add: extends_def)

lemma extends_None [grows_intros]: "extends (\<lambda>x. None)"
  by (simp add: extends_def)

lemma grows_None [grows_intros]: "grows (\<lambda>x. None)"
  by (simp add: grows_def)

lemma extends_bind [grows_intros]:
  assumes "extends out1" and "extends out2"
  shows "extends (\<lambda>x. Option.bind (out1 x) out2)"
  unfolding extends_def
proof (intro allI impI)
  fix x x2 assume "Option.bind (out1 x) out2 = Some x2"
  then obtain x1 where "out1 x = Some x1" "out2 x1 = Some x2" by (auto simp: Option.bind_eq_Some_conv)
  then show "\<exists>bs. xbuf x2 = xbuf x @ bs"
    using assms by (fastforce simp: extends_def)
qed

lemma grows_bind [grows_intros]:
  assumes "grows out1" and "extends out2"
  shows "grows (\<lambda>x. Option.bind (out1 x) out2)"
  unfolding grows_def
proof (intro allI impI)
  fix x x2 assume "Option.bind (out1 x) out2 = Some x2"
  then obtain x1 where "out1 x = Some x1" "out2 x1 = Some x2" by (auto simp: Option.bind_eq_Some_conv)
  then show "\<exists>b bs. xbuf x2 = xbuf x @ b # bs"
    using assms by (fastforce simp: grows_def extends_def)
qed

lemma extends_write_all [grows_intros]:
  assumes "\<And>v. v \<in> set vs \<Longrightarrow> extends (W v)"
  shows "extends (write_all W vs)"
  using assms
proof (induction vs)
  case Nil
  have "write_all W [] = Some" by auto
  then show ?case by (simp add: extends_Some)
next
  case (Cons v vs)
  have "write_all W (v # vs) = (\<lambda>x. Option.bind (W v x) (write_all W vs))" by auto
  then show ?case using Cons by (simp add: extends_bind)
qed

lemma grows_write_counted [grows_intros]:
  assumes "\<And>v. v \<in> set vs \<Longrightarrow> extends (W v)"
  shows "grows (write_counted W vs)"
proof -
  have "write_counted W vs = (\<lambda>x. Option.bind (WriteNum (word_of_nat (length vs)) x) (write_all W vs))"
    by (simp add: write_counted_def fun_eq_iff)
  then show ?thesis using assms by (simp add: grows_bind grows_WriteNum extends_write_all)
qed

interpretation num: codec c WriteNum ReadNum id "\<lambda>_. True" for c
  by unfold_locales (simp_all add: codes_WriteNum grows_WriteNum)

subsection \<open>Strings\<close>

lemma char_of_byte_of_char [simp]: "char_of_byte (byte_of_char ch) = ch"
  by (simp add: char_of_byte_def byte_of_char_def unat_of_nat)

lemma write_chars_eq: "write_chars s = write_all (\<lambda>ch. Write (byte_of_char ch)) s"
proof
  show "write_chars s x = write_all (\<lambda>ch. Write (byte_of_char ch)) s x" for x
    by (induction s arbitrary: x) (simp_all add: Write_def)
qed

interpretation char: codec c "\<lambda>ch. Write (byte_of_char ch)" Read byte_of_char "\<lambda>_. True" for c
  by unfold_locales (auto simp: codes_Write grows_def Write_def)

lemma codes_WriteAsciiStr [codes_intros]: "codes c p (WriteAsciiStr s) ReadAsciiStr s p"
proof -
  have w: "WriteAsciiStr s = write_counted (\<lambda>ch. Write (byte_of_char ch)) s"
    by (simp add: WriteAsciiStr_def write_counted_def write_chars_eq fun_eq_iff)
  have r: "ReadAsciiStr = (\<lambda>i. do { (bs, i) \<leftarrow> read_counted count64 Read i; Some (map char_of_byte bs, i) })"
    by (simp add: ReadAsciiStr_def read_counted_def count64_def fun_eq_iff Option.bind_assoc split_def)
  show ?thesis
    unfolding w r
    by (rule codes_map, rule char.counted_same_pos) (simp_all add: list_all_iff count64_of_nat comp_def)
qed

lemma WriteAsciiStr_state: "WriteAsciiStr s x = Some (x\<lparr>xbuf := xbuf x @ leb128 (word_of_nat (length s)) @ map byte_of_char s\<rparr>)"
proof -
  have "write_chars s x = Some (x\<lparr>xbuf := xbuf x @ map byte_of_char s\<rparr>)" for x
    by (induction s arbitrary: x) (simp_all add: Write_def)
  then show ?thesis by (simp add: WriteAsciiStr_def WriteNum_leb128)
qed

lemma marks_ok_hit:
  assumes "marks_ok z off marks tab f" and "map_of marks k = Some m" and "k \<noteq> z" and "length tab < 2 ^ 32"
  shows "- m \<noteq> 0" and "- m <s 0" and "m <s word_of_nat (length tab)" and "unat m < length tab" and "tab ! unat m = f k"
proof -
  have m: "0 < unat m" "unat m < length tab" "tab ! unat m = f k"
    using assms by (auto simp: marks_ok_def)
  show "- m \<noteq> 0" and "unat m < length tab" and "tab ! unat m = f k"
    using m by auto
  have s: "sint w = int (unat w)" if "unat w < 2 ^ 32" for w :: int64
  proof -
    have "int (unat w) < int (2 ^ 32)" using that by (simp only: of_nat_less_iff)
    then have "uint w < 2 ^ 63" by simp
    moreover have "- (2 ^ 63) \<le> uint w" by (rule order.trans [OF _ uint_ge_0]) simp
    ultimately show ?thesis by (simp add: sint_uint signed_take_bit_int_eq_self)
  qed
  have t: "sint (word_of_nat (length tab) :: int64) = int (length tab)"
    using s [of "word_of_nat (length tab)"] assms(4) by (simp add: unat_of_nat)
  have i: "sint m = int (unat m)" using m assms(4) by (simp add: s)
  have "int (unat m) < int (2 ^ 32)" using m(2) assms(4) by (simp only: of_nat_less_iff)
  then have l: "int (unat m) < 2 ^ 32" by simp
  show "m <s word_of_nat (length tab)"
    unfolding word_sless_alt t i using m(2) by (simp only: of_nat_less_iff)
  have "0 \<le> sint m" and "sint m < 2 ^ 32" unfolding i using l by simp_all
  then have "sint (- m) = - sint m"
    unfolding sint_word_ariths by (intro signed_take_bit_int_eq_self) auto
  moreover have "0 < sint m" unfolding i using m(1) by (simp only: of_nat_0_less_iff)
  ultimately show "- m <s 0"
    unfolding word_sless_alt by simp
qed

lemma marks_ok_new:
  assumes "marks_ok z off marks tab f" and "length tab < 2 ^ 32"
  shows "marks_ok z off ((k, word_of_nat (length marks + off)) # marks) (tab @ [f k]) f"
proof -
  have "unat (word_of_nat (length tab) :: int64) = length tab"
    using assms(2) by (simp add: unat_of_nat)
  moreover have "length marks + off = length tab" and "tab \<noteq> []"
    using assms(1) by (auto simp: marks_ok_def)
  ultimately show ?thesis
    using assms(1) by (auto simp: marks_ok_def nth_append less_SucI simp del: of_nat_add split: if_splits)
qed

text \<open>A new string: the tag and the characters, read back before the importer files the string.\<close>

lemma read_bytes:
  assumes "remaining i = bs @ rest"
  shows "\<exists>i'. read_n (length bs) Read i = Some (bs, i') \<and> remaining i' = rest \<and> (\<forall>c x. agrees c x i' = agrees c x i)"
  using assms
proof (induction bs arbitrary: i)
  case (Cons b bs)
  obtain i1 where i1: "Read i = Some (b, i1)" "remaining i1 = bs @ rest" "\<forall>c x. agrees c x i1 = agrees c x i"
    using remaining_Read [of i b "bs @ rest"] Cons(2) by auto
  then show ?case using Cons(1) [OF i1(2)] by auto
qed simp

lemma new_string:
  assumes "remaining i = leb128 1 @ leb128 (word_of_nat (length s)) @ map byte_of_char s @ rest"
    and "length s < 2 ^ 31"
  shows "\<exists>i1 i2. ReadNum i = Some (1, i1) \<and> ReadAsciiStr i1 = Some (s, i2) \<and> remaining i2 = rest \<and>
      (\<forall>c x. agrees c x i2 = agrees c x i)"
proof -
  obtain i1 where i1: "ReadNum i = Some (1, i1)" "remaining i1 = leb128 (word_of_nat (length s)) @ map byte_of_char s @ rest"
      "\<forall>c x. agrees c x i1 = agrees c x i"
    using ReadNum_leb128 [OF assms(1)] by auto
  then obtain i2 where i2: "ReadNum i1 = Some (word_of_nat (length s), i2)" "remaining i2 = map byte_of_char s @ rest"
      "\<forall>c x. agrees c x i2 = agrees c x i1"
    using ReadNum_leb128 by blast
  obtain i3 where "read_n (length s) Read i2 = Some (map byte_of_char s, i3)" "remaining i3 = rest"
      "\<forall>c x. agrees c x i3 = agrees c x i2"
    using read_bytes [OF i2(2)] by auto
  then show ?thesis
    using i1 i2 count64_of_nat [OF assms(2)] by (auto simp: ReadAsciiStr_def count64_def comp_def)
qed

lemma codes_OutputStr [codes_intros]: "codes c p (OutputStr s) ImportStr s p"
proof (rule codesI)
  fix x x' assume o: "OutputStr s x = Some x'" and p: "lastOutputSrcPosition x = p"
  consider "s = ''''" | m where "s \<noteq> ''''" "map_of (gStrMark x) s = Some m" | "s \<noteq> ''''" "map_of (gStrMark x) s = None"
    by fastforce
  then show "lastOutputSrcPosition x' = p \<and>
      (\<exists>bs. xbuf x' = xbuf x @ bs \<and>
        (length (xbuf x') < 2 ^ 31 \<longrightarrow>
          (\<forall>i rest. agrees c x i \<and> remaining i = bs @ rest \<longrightarrow>
            (\<exists>i'. ImportStr i = Some (s, i') \<and> agrees c x' i' \<and> remaining i' = rest))))"
  proof cases
    case 1
    then show ?thesis using o p ReadNum_leb128 agrees_append
      by (fastforce simp: OutputStr_def ImportStr_def WriteNum_leb128)
  next
    case (2 m)
    then have x': "x' = x\<lparr>xbuf := xbuf x @ leb128 (- m)\<rparr>"
      using o by (simp add: OutputStr_def WriteNum_leb128)
    have "\<exists>i'. ImportStr i = Some (s, i') \<and> agrees c x' i' \<and> remaining i' = rest"
      if i: "agrees c x i" "remaining i = leb128 (- m) @ rest" "length (xbuf x') < 2 ^ 31" for i rest
    proof -
      obtain i1 where i1: "ReadNum i = Some (- m, i1)" "remaining i1 = rest" "agrees c x i1"
        using ReadNum_leb128 [OF i(2)] i(1) by blast
      have "marks_ok '''' 0 (gStrMark x) (gStrTab i1) id" and "length (gStrTab i1) < 2 ^ 32"
        using i1(3) i(3) by (auto simp: agrees_def x')
      note h = marks_ok_hit [OF this(1) 2(2,1) this(2)]
      show ?thesis
        using i1 h agrees_append [of c x i1] by (auto simp: ImportStr_def x')
    qed
    then show ?thesis using p by (auto simp: x')
  next
    case 3
    define bs where "bs = leb128 1 @ leb128 (word_of_nat (length s)) @ map byte_of_char s"
    have x': "x' = x\<lparr>gStrMark := (s, word_of_nat (length (gStrMark x))) # gStrMark x, xbuf := xbuf x @ bs\<rparr>"
      using o 3 by (simp add: OutputStr_def WriteNum_leb128 WriteAsciiStr_state bs_def)
    have "\<exists>i'. ImportStr i = Some (s, i') \<and> agrees c x' i' \<and> remaining i' = rest"
      if i: "agrees c x i" "remaining i = bs @ rest" "length (xbuf x') < 2 ^ 31" for i rest
    proof -
      have "length s < 2 ^ 31" using i(3) by (simp add: x' bs_def)
      then obtain i1 i2 where i2: "ReadNum i = Some (1, i1)" "ReadAsciiStr i1 = Some (s, i2)" "remaining i2 = rest" "agrees c x i2"
        using new_string [of i s rest] i(1,2) unfolding bs_def by auto
      have "marks_ok '''' 0 (gStrMark x) (gStrTab i2) id" and "length (gStrTab i2) < 2 ^ 32"
        using i2(4) i(3) by (auto simp: agrees_def x')
      note n = marks_ok_new [OF this, of s]
      then have "agrees c x' (i2\<lparr>gStrTab := gStrTab i2 @ [s]\<rparr>)"
        using i2(4) leb128_nonempty [of 1] by (auto simp: agrees_def x' bs_def)
      then show ?thesis
        using i2 by (auto simp: ImportStr_def remaining_def word_sless_alt)
    qed
    then show ?thesis using p by (auto simp: x')
  qed
qed

lemma codes_OutputUsrStr [codes_intros]: "codes c p (OutputUsrStr s) ImportUsrStr s p"
proof (rule codesI)
  fix x x' assume o: "OutputUsrStr s x = Some x'" and p: "lastOutputSrcPosition x = p"
  consider "s = ''''" | m where "s \<noteq> ''''" "map_of (uStrMark x) s = Some m" | "s \<noteq> ''''" "map_of (uStrMark x) s = None"
    by fastforce
  then show "lastOutputSrcPosition x' = p \<and>
      (\<exists>bs. xbuf x' = xbuf x @ bs \<and>
        (length (xbuf x') < 2 ^ 31 \<longrightarrow>
          (\<forall>i rest. agrees c x i \<and> remaining i = bs @ rest \<longrightarrow>
            (\<exists>i'. ImportUsrStr i = Some (s, i') \<and> agrees c x' i' \<and> remaining i' = rest))))"
  proof cases
    case 1
    then show ?thesis using o p ReadNum_leb128 agrees_append
      by (fastforce simp: OutputUsrStr_def ImportUsrStr_def WriteNum_leb128)
  next
    case (2 m)
    then have x': "x' = x\<lparr>xbuf := xbuf x @ leb128 (- m)\<rparr>"
      using o by (simp add: OutputUsrStr_def WriteNum_leb128)
    have "\<exists>i'. ImportUsrStr i = Some (s, i') \<and> agrees c x' i' \<and> remaining i' = rest"
      if i: "agrees c x i" "remaining i = leb128 (- m) @ rest" "length (xbuf x') < 2 ^ 31" for i rest
    proof -
      obtain i1 where i1: "ReadNum i = Some (- m, i1)" "remaining i1 = rest" "agrees c x i1"
        using ReadNum_leb128 [OF i(2)] i(1) by blast
      have "marks_ok '''' 0 (uStrMark x) (uStrTab i1) id" and "length (uStrTab i1) < 2 ^ 32"
        using i1(3) i(3) by (auto simp: agrees_def x')
      note h = marks_ok_hit [OF this(1) 2(2,1) this(2)]
      show ?thesis
        using i1 h agrees_append [of c x i1] by (auto simp: ImportUsrStr_def x')
    qed
    then show ?thesis using p by (auto simp: x')
  next
    case 3
    define bs where "bs = leb128 1 @ leb128 (word_of_nat (length s)) @ map byte_of_char s"
    have x': "x' = x\<lparr>uStrMark := (s, word_of_nat (length (uStrMark x))) # uStrMark x, xbuf := xbuf x @ bs\<rparr>"
      using o 3 by (simp add: OutputUsrStr_def WriteNum_leb128 WriteAsciiStr_state bs_def)
    have "\<exists>i'. ImportUsrStr i = Some (s, i') \<and> agrees c x' i' \<and> remaining i' = rest"
      if i: "agrees c x i" "remaining i = bs @ rest" "length (xbuf x') < 2 ^ 31" for i rest
    proof -
      have "length s < 2 ^ 31" using i(3) by (simp add: x' bs_def)
      then obtain i1 i2 where i2: "ReadNum i = Some (1, i1)" "ReadAsciiStr i1 = Some (s, i2)" "remaining i2 = rest" "agrees c x i2"
        using new_string [of i s rest] i(1,2) unfolding bs_def by auto
      have "marks_ok '''' 0 (uStrMark x) (uStrTab i2) id" and "length (uStrTab i2) < 2 ^ 32"
        using i2(4) i(3) by (auto simp: agrees_def x')
      note n = marks_ok_new [OF this, of s]
      then have "agrees c x' (i2\<lparr>uStrTab := uStrTab i2 @ [s]\<rparr>)"
        using i2(4) leb128_nonempty [of 1] by (auto simp: agrees_def x' bs_def)
      then show ?thesis
        using i2 by (auto simp: ImportUsrStr_def remaining_def word_sless_alt)
    qed
    then show ?thesis using p by (auto simp: x')
  qed
qed


lemma grows_OutputStr [grows_intros]: "grows (OutputStr s)"
  unfolding grows_def
proof (intro allI impI)
  fix x x' assume "OutputStr s x = Some x'"
  moreover obtain b bs where "leb128 0 = b # bs" using leb128_nonempty by blast
  moreover obtain b1 bs1 where "leb128 1 = b1 # bs1" using leb128_nonempty by blast
  ultimately show "\<exists>b bs. xbuf x' = xbuf x @ b # bs"
    using leb128_nonempty
    by (fastforce simp: OutputStr_def WriteNum_leb128 WriteAsciiStr_state split: if_splits option.splits)
qed

lemma grows_OutputUsrStr [grows_intros]: "grows (OutputUsrStr s)"
  unfolding grows_def
proof (intro allI impI)
  fix x x' assume "OutputUsrStr s x = Some x'"
  moreover obtain b bs where "leb128 0 = b # bs" using leb128_nonempty by blast
  moreover obtain b1 bs1 where "leb128 1 = b1 # bs1" using leb128_nonempty by blast
  ultimately show "\<exists>b bs. xbuf x' = xbuf x @ b # bs"
    using leb128_nonempty
    by (fastforce simp: OutputUsrStr_def WriteNum_leb128 WriteAsciiStr_state split: if_splits option.splits)
qed

interpretation str: codec c OutputStr ImportStr id "\<lambda>_. True" for c
  by unfold_locales (simp_all add: codes_OutputStr grows_OutputStr)

interpretation ustr: codec c OutputUsrStr ImportUsrStr id "\<lambda>_. True" for c
  by unfold_locales (simp_all add: codes_OutputUsrStr grows_OutputUsrStr)

section \<open>Properties\<close>

text \<open>
  (C27) Every 64-bit number is read back from the bytes \<^verbatim>\<open>WriteNum\<close> writes
  for it, and nothing after them is touched.
\<close>

theorem ReadNum_WriteNum:
  assumes "WriteNum n x = Some x'" and "remaining i = drop (length (xbuf x)) (xbuf x') @ rest"
  shows "\<exists>i'. ReadNum i = Some (n, i') \<and> remaining i' = rest"
  using assms ReadNum_leb128 [of i n rest] by (auto simp: WriteNum_leb128)

text \<open>An exporter and an importer whose tables are empty.\<close>

definition empty_exporter :: exporter where
  "empty_exporter = \<lparr>xbuf = [], gStrMark = [], uStrMark = [], typMark = [], typeMarkOffset = 0,
     lastOutputSrcPosition = \<lparr>RawData = 0, LineNum = 0\<rparr>\<rparr>"

definition empty_importer :: "uint8 list \<Rightarrow> importer" where
  "empty_importer bs = \<lparr>ibuf = bs, bufI = 0, gStrTab = [], uStrTab = [], typTab = [], byNameTypes = [],
     typeTableSize = 0, addrTakenLabels = [], potentialAssigned = [], retypedLocals = []\<rparr>"

theorem ReadNum_WriteNum_witness:
  "\<exists>x' i'. WriteNum (- 200) empty_exporter = Some x' \<and> ReadNum (empty_importer (xbuf x' @ [7])) = Some (- 200, i') \<and>
     remaining i' = [7]"
proof -
  obtain x' where x': "WriteNum (- 200) empty_exporter = Some x'" by (simp add: WriteNum_leb128)
  have "\<exists>i'. ReadNum (empty_importer (xbuf x' @ [7])) = Some (- 200, i') \<and> remaining i' = [7]"
    by (rule ReadNum_WriteNum [OF x']) (simp add: remaining_def empty_importer_def empty_exporter_def)
  then show ?thesis using x' by blast
qed

lemma length_leb128:
  assumes "- (2 ^ (6 + 7 * k)) \<le> sint n" and "sint n < 2 ^ (6 + 7 * k)"
  shows "length (leb128 n) \<le> Suc k"
  using assms
proof (induction k arbitrary: n)
  case 0
  then have "\<not> (n <s - 0x40 \<or> 0x40 \<le>s n)" by (simp add: word_sless_alt word_sle_eq)
  then show ?case by (subst leb128.simps) simp
next
  case (Suc k)
  have s: "sint (signed_drop_bit 7 n) = sint n div 128"
    by (simp add: sint_signed_drop_bit_eq drop_bit_eq_div)
  have p: "(2::int) ^ (6 + 7 * Suc k) = 128 * 2 ^ (6 + 7 * k)"
    by (simp add: power_add)
  have "length (leb128 (signed_drop_bit 7 n)) \<le> Suc k"
    using Suc.prems unfolding p by (intro Suc.IH) (unfold s, linarith+)
  then show ?case by (subst leb128.simps) simp
qed

text \<open>
  A number takes between one and ten bytes, and one byte exactly when it is
  between -64 and 63.
\<close>

theorem WriteNum_size:
  assumes "WriteNum n x = Some x'"
  shows "length (xbuf x') \<le> length (xbuf x) + 10 \<and> length (xbuf x) < length (xbuf x') \<and>
    (length (xbuf x') = length (xbuf x) + 1 \<longleftrightarrow> - 64 \<le> sint n \<and> sint n < 64)"
proof -
  have "- (2 ^ (6 + 7 * 9)) \<le> sint n" and "sint n < 2 ^ (6 + 7 * 9)"
    using sint_greater_eq [of n] sint_less [of n] by simp_all
  then have "length (leb128 n) \<le> Suc 9" by (rule length_leb128)
  moreover have "n <s - 0x40 \<or> 0x40 \<le>s n \<longleftrightarrow> \<not> (- 64 \<le> sint n \<and> sint n < 64)"
    by (auto simp: word_sless_alt word_sle_eq)
  moreover have "length (leb128 n) = 1 \<longleftrightarrow> \<not> (n <s - 0x40 \<or> 0x40 \<le>s n)"
    using leb128_nonempty [of "signed_drop_bit 7 n"] by (subst leb128.simps) auto
  ultimately show ?thesis
    using assms leb128_nonempty [of n] by (auto simp: WriteNum_leb128)
qed

theorem WriteNum_size_witness:
  "\<exists>x'. WriteNum 1000 empty_exporter = Some x' \<and> length (xbuf x') \<le> 10 \<and> length (xbuf x') \<noteq> 1"
proof -
  obtain x' where x': "WriteNum 1000 empty_exporter = Some x'" by (simp add: WriteNum_leb128)
  have "sint (1000 :: int64) = 1000" by simp
  with WriteNum_size [OF x'] show ?thesis using x' by (auto simp: empty_exporter_def)
qed

end
