(* ===== verification/BinRef.thy ===== *)
theory BinRef
  imports BinBuf MirConst
begin

text \<open>
  The references and enumerations of the binary format: types, global symbols and
  functions (\<^verbatim>\<open>OutputType\<close>, \<^verbatim>\<open>OutputFuncViaSymName\<close> and their
  importing counterparts), opcodes and primitive types.

  Of \<^verbatim>\<open>OutputType\<close> the branches that refer to a type by its mark or by its
  global name are modelled; the description of a type's structure is not, and a type
  that would need one makes the model stop.
\<close>

unbundle bit_operations_syntax

lemma agrees_records [simp]:
  "agrees c x (i\<lparr>potentialAssigned := l\<rparr>) = agrees c x i"
  "agrees c x (i\<lparr>addrTakenLabels := ls\<rparr>) = agrees c x i"
  "agrees c x (i\<lparr>retypedLocals := rs\<rparr>) = agrees c x i"
  by (simp_all add: agrees_def)

lemma remaining_records [simp]:
  "remaining (i\<lparr>potentialAssigned := l\<rparr>) = remaining i"
  "remaining (i\<lparr>addrTakenLabels := ls\<rparr>) = remaining i"
  "remaining (i\<lparr>retypedLocals := rs\<rparr>) = remaining i"
  "remaining (i\<lparr>gStrTab := g\<rparr>) = remaining i"
  "remaining (i\<lparr>typTab := t\<rparr>) = remaining i"
  by (simp_all add: remaining_def)

section \<open>References to types, symbols and functions\<close>

abbreviation (input) kBinKindTypeViaTypename :: int64 where "kBinKindTypeViaTypename \<equiv> 58"
abbreviation (input) kBinKindSymViaSymname :: int64 where "kBinKindSymViaSymname \<equiv> 59"
abbreviation (input) kBinKindFuncViaSymname :: int64 where "kBinKindFuncViaSymname \<equiv> 60"
abbreviation (input) kBinOpExpression :: int64 where "kBinOpExpression \<equiv> 45"

text \<open>\<open>output_type_name\<close> is the tail of \<^verbatim>\<open>OutputType\<close> for a type with a global name.\<close>

definition output_type_name :: "MIRTypeInfo \<Rightarrow> exporter \<Rightarrow> exporter option" where
  "output_type_name t x =
     (if \<not> nameIsLocal t \<and> nameStrIdx t \<noteq> ''''
      then do { x \<leftarrow> WriteNum kBinKindTypeViaTypename x; OutputStr (nameStrIdx t) x }
      else None)"

definition OutputTypeViaTypeName :: "xmodule \<Rightarrow> TyIdx \<Rightarrow> exporter \<Rightarrow> exporter option" where
  "OutputTypeViaTypeName m ty x =
     (if ty = 0 then WriteNum 0 x
      else case typeTable m ty of
        None \<Rightarrow> None
      | Some t \<Rightarrow>
          (case map_of (typMark x) ty of
            Some k \<Rightarrow>
              if \<not> isFunctionKind t then WriteNum (- k) x
              else output_type_name t (x\<lparr>typeMarkOffset := typeMarkOffset x + 1\<rparr>)
          | None \<Rightarrow>
              output_type_name t
                (x\<lparr>typMark := (ty, word_of_nat (length (typMark x) + typeMarkOffset x)) # typMark x\<rparr>)))"

text \<open>A name that the importing module does not know becomes a by-name type, which is interned.\<close>

definition type_by_name :: "imodule \<Rightarrow> string \<Rightarrow> importer \<Rightarrow> TyIdx \<times> importer" where
  "type_by_name m nm i =
     (if typeNameTab m nm \<noteq> 0 then (typeNameTab m nm, i)
      else case map_of (byNameTypes i) nm of
        Some ty \<Rightarrow> (ty, i)
      | None \<Rightarrow>
          (let ty = word_of_nat (typeTableSize i) in
           (ty, i\<lparr>byNameTypes := (nm, ty) # byNameTypes i, typeTableSize := typeTableSize i + 1\<rparr>)))"

definition ImportType :: "imodule \<Rightarrow> importer \<Rightarrow> (TyIdx \<times> importer) option" where
  "ImportType m i = do {
     (tag, i) \<leftarrow> ReadNum i;
     if tag = 0 then Some (0, i)
     else if tag <s 0
     then (if unat (- tag) < length (typTab i) then Some (typTab i ! unat (- tag), i) else None)
     else if tag = kBinKindTypeViaTypename
     then do {
       (nm, i) \<leftarrow> ImportStr i;
       (ty, i) \<leftarrow> Some (type_by_name m nm i);
       Some (ty, i\<lparr>typTab := typTab i @ [ty]\<rparr>) }
     else None }"

record StIdx =
  st_scope :: uint8
  st_idx :: "24 word"

definition Islocal :: "StIdx \<Rightarrow> bool" where
  "Islocal st \<longleftrightarrow> 1 < st_scope st"

text \<open>The reference to a symbol in \<^verbatim>\<open>addrof\<close>, \<^verbatim>\<open>dread\<close> and \<^verbatim>\<open>dassign\<close>.\<close>

definition output_stidx :: "xmodule \<Rightarrow> StIdx \<Rightarrow> exporter \<Rightarrow> exporter option" where
  "output_stidx m st x = do {
     x \<leftarrow> WriteNum (ucast (st_scope st)) x;
     if Islocal st then WriteNum (ucast (st_idx st)) x
     else case gsymName m (st_idx st) of
       None \<Rightarrow> None
     | Some nm \<Rightarrow> do { x \<leftarrow> WriteNum kBinKindSymViaSymname x; OutputStr nm x } }"

definition import_stidx :: "imodule \<Rightarrow> bool \<Rightarrow> importer \<Rightarrow> (StIdx \<times> importer) option" where
  "import_stidx m assigned i = do {
     (n, i) \<leftarrow> ReadNum i;
     if 1 < (ucast n :: uint8)
     then do { (k, i) \<leftarrow> ReadNum i; Some (\<lparr>st_scope = ucast n, st_idx = ucast k\<rparr>, i) }
     else do {
       (stag, i) \<leftarrow> ReadNum i;
       if (ucast stag :: int32) \<noteq> ucast kBinKindSymViaSymname then None
       else do {
         (nm, i) \<leftarrow> ImportStr i;
         k \<leftarrow> gsymIdx m nm;
         Some (\<lparr>st_scope = ucast n, st_idx = k\<rparr>,
               if assigned then i\<lparr>potentialAssigned := nm # potentialAssigned i\<rparr> else i) } } }"

definition OutputFuncViaSymName :: "xmodule \<Rightarrow> PUIdx \<Rightarrow> exporter \<Rightarrow> exporter option" where
  "OutputFuncViaSymName m pu x =
     (case funcName m pu of
        None \<Rightarrow> None
      | Some nm \<Rightarrow> do { x \<leftarrow> WriteNum kBinKindFuncViaSymname x; OutputStr nm x })"

definition ImportFuncViaSymName :: "imodule \<Rightarrow> importer \<Rightarrow> (PUIdx \<times> importer) option" where
  "ImportFuncViaSymName m i = do {
     (tag, i) \<leftarrow> ReadNum i;
     if tag \<noteq> kBinKindFuncViaSymname then None
     else do {
       (nm, i) \<leftarrow> ImportStr i;
       pu \<leftarrow> symFunction m nm;
       Some (pu, i) } }"

subsection \<open>What the import makes of them\<close>

definition img_type :: "modules \<Rightarrow> TyIdx \<Rightarrow> TyIdx" where
  "img_type c ty = (if ty = 0 then 0 else tyOf c ty)"

definition img_stidx :: "modules \<Rightarrow> StIdx \<Rightarrow> StIdx" where
  "img_stidx c st =
     (if Islocal st then st
      else case gsymName (xmod c) (st_idx st) of
        None \<Rightarrow> st
      | Some nm \<Rightarrow> (case gsymIdx (imod c) nm of None \<Rightarrow> st | Some k \<Rightarrow> st\<lparr>st_idx := k\<rparr>))"

definition img_func :: "modules \<Rightarrow> PUIdx \<Rightarrow> PUIdx" where
  "img_func c pu =
     (case funcName (xmod c) pu of
        None \<Rightarrow> pu
      | Some nm \<Rightarrow> (case symFunction (imod c) nm of None \<Rightarrow> pu | Some q \<Rightarrow> q))"

text \<open>The importing module knows the global symbol and the function that a reference names.\<close>

definition ok_stidx :: "modules \<Rightarrow> StIdx \<Rightarrow> bool" where
  "ok_stidx c st \<longleftrightarrow>
     Islocal st \<or> (case gsymName (xmod c) (st_idx st) of None \<Rightarrow> True | Some nm \<Rightarrow> gsymIdx (imod c) nm \<noteq> None)"

definition ok_func :: "modules \<Rightarrow> PUIdx \<Rightarrow> bool" where
  "ok_func c pu \<longleftrightarrow> (case funcName (xmod c) pu of None \<Rightarrow> True | Some nm \<Rightarrow> symFunction (imod c) nm \<noteq> None)"

lemma codes_None [codes_intros]: "codes c p (\<lambda>x. None) imp v p'"
  by (simp add: codes_def)

lemma ucast_narrow [simp]:
  "ucast (ucast (w :: uint8) :: int64) = w" "ucast (ucast (k :: 24 word) :: int64) = k"
  "ucast (ucast (n :: uint32) :: int64) = n"
  by (rule bit_word_eqI, auto simp: bit_simps min_def)+

lemma ucast_scast [simp]: "ucast (scast (s :: int32) :: int64) = s"
proof (rule bit_word_eqI)
  fix n assume "n < LENGTH(32)"
  then show "bit (ucast (scast s :: int64) :: int32) n = bit s n"
    by (cases "n = 31") (auto simp: bit_simps min_def)
qed

lemma codes_output_stidx [codes_intros]:
  assumes "ok_stidx c st"
  shows "codes c p (output_stidx (xmod c) st) (import_stidx (imod c) a) (img_stidx c st) p"
proof (cases "Islocal st")
  case True
  show ?thesis
    unfolding output_stidx_def import_stidx_def
    by (rule codes_bind [OF codes_WriteNum])
       (use True in \<open>auto simp: Islocal_def img_stidx_def intro!: codes_map codes_intros\<close>)
next
  case False
  then have n: "\<not> 1 < st_scope st" by (simp add: Islocal_def)
  show ?thesis
  proof (cases "gsymName (xmod c) (st_idx st)")
    case None
    then show ?thesis
      unfolding output_stidx_def import_stidx_def
      by (intro codes_bind [OF codes_WriteNum]) (simp add: False codes_None)
  next
    case (Some nm)
    then obtain k where k: "gsymIdx (imod c) nm = Some k"
      using assms False by (auto simp: ok_stidx_def)
    have e: "img_stidx c st = st\<lparr>st_idx := k\<rparr>"
      using False Some k by (simp add: img_stidx_def)
    show ?thesis
      unfolding output_stidx_def import_stidx_def e
      by (rule codes_bind [OF codes_WriteNum], simp add: False n Some, rule codes_bind [OF codes_WriteNum], simp,
          rule codes_then [OF codes_OutputStr]) (simp add: k)
  qed
qed

lemma codes_OutputFuncViaSymName [codes_intros]:
  assumes "ok_func c pu"
  shows "codes c p (OutputFuncViaSymName (xmod c) pu) (ImportFuncViaSymName (imod c)) (img_func c pu) p"
proof (cases "funcName (xmod c) pu")
  case (Some nm)
  then obtain q where q: "symFunction (imod c) nm = Some q"
    using assms by (auto simp: ok_func_def)
  then have e: "img_func c pu = q" using Some by (simp add: img_func_def)
  show ?thesis
    unfolding OutputFuncViaSymName_def ImportFuncViaSymName_def e Some option.case
    by (rule codes_bind [OF codes_WriteNum], simp, rule codes_then [OF codes_OutputStr]) (simp add: q)
qed (simp add: OutputFuncViaSymName_def codes_def)

lemma marks_ok_skip: "marks_ok z off marks tab f \<Longrightarrow> marks_ok z (Suc off) marks (tab @ [v]) f"
  by (auto simp: marks_ok_def nth_append)

text \<open>Writing the name does not look at the type marks.\<close>

definition write_type_name :: "string \<Rightarrow> exporter \<Rightarrow> exporter option" where
  "write_type_name nm x = do { x \<leftarrow> WriteNum kBinKindTypeViaTypename x; OutputStr nm x }"

lemma write_type_name_marks:
  "write_type_name nm (x\<lparr>typMark := tm, typeMarkOffset := off\<rparr>) =
     map_option (\<lambda>y. y\<lparr>typMark := tm, typeMarkOffset := off\<rparr>) (write_type_name nm x)"
  by (simp add: write_type_name_def WriteNum_leb128 OutputStr_def WriteAsciiStr_state split: option.split)

lemma write_type_name_keeps:
  "write_type_name nm x = Some y \<Longrightarrow> typMark y = typMark x \<and> typeMarkOffset y = typeMarkOffset x"
  by (auto simp: write_type_name_def WriteNum_leb128 OutputStr_def WriteAsciiStr_state split: if_splits option.splits)

lemma codes_write_type_name:
  "codes c p (write_type_name nm)
     (\<lambda>i. do { (tag, i) \<leftarrow> ReadNum i; (s, i) \<leftarrow> ImportStr i; Some ((tag, s), i) }) (kBinKindTypeViaTypename, nm) p"
  unfolding write_type_name_def
  by (rule codes_bind [OF codes_WriteNum], rule codes_map [OF codes_OutputStr]) simp

lemma grows_write_type_name: "grows (write_type_name nm)"
  unfolding write_type_name_def
  by (intro grows_intros grows_extends)

lemma named_type:
  assumes t: "typeTable (xmod c) ty = Some t" "\<not> nameIsLocal t" "nameStrIdx t \<noteq> []" "ty \<noteq> 0"
    and y: "write_type_name (nameStrIdx t) x = Some y"
    and x': "x' = y\<lparr>typMark := tm, typeMarkOffset := off\<rparr>"
    and m: "\<And>tab. marks_ok 0 (typeMarkOffset x) (typMark x) tab (tyOf c) \<Longrightarrow> length tab < 2 ^ 32 \<Longrightarrow>
       marks_ok 0 off tm (tab @ [tyOf c ty]) (tyOf c)"
  shows "lastOutputSrcPosition x' = lastOutputSrcPosition x \<and>
      (\<exists>bs. xbuf x' = xbuf x @ bs \<and>
        (length (xbuf x') < 2 ^ 31 \<longrightarrow>
          (\<forall>i rest. agrees c x i \<and> remaining i = bs @ rest \<longrightarrow>
            (\<exists>i'. ImportType (imod c) i = Some (img_type c ty, i') \<and> agrees c x' i' \<and> remaining i' = rest))))"
proof -
  obtain bs where l: "lastOutputSrcPosition y = lastOutputSrcPosition x" and g: "xbuf y = xbuf x @ bs"
    and r: "length (xbuf y) < 2 ^ 31 \<Longrightarrow> agrees c x i \<Longrightarrow> remaining i = bs @ rest \<Longrightarrow>
      \<exists>i'. do { (tag, i) \<leftarrow> ReadNum i; (s, i) \<leftarrow> ImportStr i; Some ((tag, s), i) } =
        Some ((kBinKindTypeViaTypename, nameStrIdx t), i') \<and> agrees c y i' \<and> remaining i' = rest" for i rest
    using codes_write_type_name [of c "lastOutputSrcPosition x" "nameStrIdx t"] y unfolding codes_def by blast
  have ne: "bs \<noteq> []"
    using grows_write_type_name y g unfolding grows_def by fastforce
  have "\<exists>i'. ImportType (imod c) i = Some (img_type c ty, i') \<and> agrees c x' i' \<and> remaining i' = rest"
    if len: "length (xbuf x') < 2 ^ 31" and i: "agrees c x i" "remaining i = bs @ rest" for i rest
  proof -
    have "length (xbuf y) < 2 ^ 31" using len by (simp add: x')
    then obtain i2 where "do { (tag, i) \<leftarrow> ReadNum i; (s, i) \<leftarrow> ImportStr i; Some ((tag, s), i) } =
        Some ((kBinKindTypeViaTypename, nameStrIdx t), i2)" and i2: "agrees c y i2" "remaining i2 = rest"
      using r [OF _ i] by blast
    then obtain i1 where i1: "ReadNum i = Some (kBinKindTypeViaTypename, i1)" "ImportStr i1 = Some (nameStrIdx t, i2)"
      by (auto simp: Option.bind_eq_Some_conv)
    have n: "tyOf c ty \<noteq> 0" "typeNameTab (imod c) (nameStrIdx t) = tyOf c ty"
      using i2(1) t by (auto simp: agrees_def names_ok_def)
    have k: "marks_ok 0 (typeMarkOffset x) (typMark x) (typTab i2) (tyOf c)"
      using i2(1) write_type_name_keeps [OF y] by (simp add: agrees_def)
    then have "length (typTab i2) = length (typTab i)"
      using i(1) by (simp add: agrees_def marks_ok_def)
    then have lt: "length (typTab i2) \<le> length (xbuf x) + 256"
      using i(1) by (simp add: agrees_def)
    have "agrees c x' (i2\<lparr>typTab := typTab i2 @ [tyOf c ty]\<rparr>)"
      using i2(1) m [OF k] lt len g ne by (cases bs) (simp_all add: agrees_def x')
    then show ?thesis
      using i1 i2 n t(4) by (auto simp: ImportType_def type_by_name_def img_type_def word_sless_alt)
  qed
  then show ?thesis using g l by (auto simp: x')
qed

lemma codes_OutputTypeViaTypeName [codes_intros]:
  "codes c p (OutputTypeViaTypeName (xmod c) ty) (ImportType (imod c)) (img_type c ty) p"
proof (rule codesI)
  fix x x' assume o: "OutputTypeViaTypeName (xmod c) ty x = Some x'" and p: "lastOutputSrcPosition x = p"
  let ?goal = "lastOutputSrcPosition x' = p \<and>
      (\<exists>bs. xbuf x' = xbuf x @ bs \<and>
        (length (xbuf x') < 2 ^ 31 \<longrightarrow>
          (\<forall>i rest. agrees c x i \<and> remaining i = bs @ rest \<longrightarrow>
            (\<exists>i'. ImportType (imod c) i = Some (img_type c ty, i') \<and> agrees c x' i' \<and> remaining i' = rest))))"
  show ?goal
  proof (cases "ty = 0")
    case True
    then show ?thesis using o p ReadNum_leb128 agrees_append
      by (fastforce simp: OutputTypeViaTypeName_def ImportType_def WriteNum_leb128 img_type_def)
  next
    case False
    then obtain t where t: "typeTable (xmod c) ty = Some t"
      using o by (auto simp: OutputTypeViaTypeName_def split: option.splits)
    have named: ?goal if "output_type_name t (x\<lparr>typMark := tm, typeMarkOffset := off\<rparr>) = Some x'"
        and m: "\<And>tab. marks_ok 0 (typeMarkOffset x) (typMark x) tab (tyOf c) \<Longrightarrow> length tab < 2 ^ 32 \<Longrightarrow>
           marks_ok 0 off tm (tab @ [tyOf c ty]) (tyOf c)" for tm off
    proof -
      have n: "\<not> nameIsLocal t" "nameStrIdx t \<noteq> []"
          and "write_type_name (nameStrIdx t) (x\<lparr>typMark := tm, typeMarkOffset := off\<rparr>) = Some x'"
        using that(1) by (auto simp: output_type_name_def write_type_name_def split: if_splits)
      then obtain y where "write_type_name (nameStrIdx t) x = Some y" "x' = y\<lparr>typMark := tm, typeMarkOffset := off\<rparr>"
        unfolding write_type_name_marks by auto
      from named_type [OF t n False this m] p show ?thesis by simp
    qed
    show ?thesis
    proof (cases "map_of (typMark x) ty")
      case None
      then show ?thesis
        using o t False by (intro named [where off = "typeMarkOffset x"])
          (auto simp: OutputTypeViaTypeName_def simp del: of_nat_add intro: marks_ok_new)
    next
      case (Some k)
      show ?thesis
      proof (cases "isFunctionKind t")
        case True
        then show ?thesis
          using o t False Some by (intro named [where tm = "typMark x"])
            (auto simp: OutputTypeViaTypeName_def intro: marks_ok_skip)
      next
        case nf: False
        then have x': "x' = x\<lparr>xbuf := xbuf x @ leb128 (- k)\<rparr>"
          using o t False Some by (simp add: OutputTypeViaTypeName_def WriteNum_leb128)
        have "\<exists>i'. ImportType (imod c) i = Some (img_type c ty, i') \<and> agrees c x' i' \<and> remaining i' = rest"
          if i: "agrees c x i" "remaining i = leb128 (- k) @ rest" "length (xbuf x') < 2 ^ 31" for i rest
        proof -
          obtain i1 where i1: "ReadNum i = Some (- k, i1)" "remaining i1 = rest" "agrees c x i1"
            using ReadNum_leb128 [OF i(2)] i(1) by blast
          have "marks_ok 0 (typeMarkOffset x) (typMark x) (typTab i1) (tyOf c)" and "length (typTab i1) < 2 ^ 32"
            using i1(3) i(3) by (auto simp: agrees_def x')
          note h = marks_ok_hit [OF this(1) Some False this(2)]
          show ?thesis
            using i1 h False agrees_append [of c x i1] by (auto simp: ImportType_def x' img_type_def)
        qed
        then show ?thesis using p by (auto simp: x')
      qed
    qed
  qed
qed

lemma grows_output_type_name: "grows (output_type_name t)"
  using grows_write_type_name [of "nameStrIdx t"]
  by (simp add: grows_def output_type_name_def write_type_name_def)

lemma grows_OutputTypeViaTypeName [grows_intros]: "grows (OutputTypeViaTypeName m ty)"
  using grows_WriteNum grows_output_type_name
  unfolding grows_def OutputTypeViaTypeName_def
  by (fastforce split: if_splits option.splits)

interpretation type_ref: codec c "OutputTypeViaTypeName (xmod c)" "ImportType (imod c)" "img_type c" "\<lambda>_. True" for c
  by unfold_locales (simp_all add: codes_OutputTypeViaTypeName grows_OutputTypeViaTypeName)

section \<open>Enumerations\<close>

text \<open>
  The opcodes of expressions with their codes in \<^verbatim>\<open>enum Opcode\<close> (the position
  in \<^verbatim>\<open>opcodes.def\<close>) and the primitive types in the order of their enumeration.
\<close>

datatype (plugins only: code size) ExprOp =
    OP_constval | OP_conststr | OP_addroflabel | OP_addroffunc | OP_sizeoftype | OP_addrof | OP_dread
    | OP_regread | OP_gcmalloc | OP_gcpermalloc | OP_stackmalloc | OP_abs | OP_bnot | OP_lnot | OP_neg
    | OP_recip | OP_sqrt | OP_alloca | OP_malloc | OP_ceil | OP_cvt | OP_floor | OP_trunc | OP_retype
    | OP_iread | OP_iaddrof | OP_sext | OP_zext | OP_extractbits | OP_gcmallocjarray | OP_gcpermallocjarray
    | OP_sub | OP_mul | OP_div | OP_rem | OP_ashr | OP_lshr | OP_shl | OP_max | OP_min | OP_band | OP_bior
    | OP_bxor | OP_cand | OP_cior | OP_land | OP_lior | OP_add | OP_eq | OP_ne | OP_lt | OP_gt | OP_le | OP_ge
    | OP_cmpg | OP_cmpl | OP_cmp | OP_resolveinterfacefunc | OP_resolvevirtualfunc | OP_select | OP_array
    | OP_intrinsicop | OP_intrinsicopwithtype | OP_round | OP_ireadoff | OP_ireadfpoff | OP_fieldsdist
    | OP_conststr16 | OP_depositbits | OP_stackmallocjarray | OP_CG_array_elem_add | OP_ireadpcoff | OP_addroffpc

primrec ExprOp_num :: "ExprOp \<Rightarrow> nat" where
  "ExprOp_num OP_constval = 93"
| "ExprOp_num OP_conststr = 94"
| "ExprOp_num OP_addroflabel = 92"
| "ExprOp_num OP_addroffunc = 91"
| "ExprOp_num OP_sizeoftype = 23"
| "ExprOp_num OP_addrof = 21"
| "ExprOp_num OP_dread = 19"
| "ExprOp_num OP_regread = 90"
| "ExprOp_num OP_gcmalloc = 112"
| "ExprOp_num OP_gcpermalloc = 113"
| "ExprOp_num OP_stackmalloc = 114"
| "ExprOp_num OP_abs = 102"
| "ExprOp_num OP_bnot = 103"
| "ExprOp_num OP_lnot = 104"
| "ExprOp_num OP_neg = 105"
| "ExprOp_num OP_recip = 106"
| "ExprOp_num OP_sqrt = 107"
| "ExprOp_num OP_alloca = 110"
| "ExprOp_num OP_malloc = 111"
| "ExprOp_num OP_ceil = 96"
| "ExprOp_num OP_cvt = 97"
| "ExprOp_num OP_floor = 98"
| "ExprOp_num OP_trunc = 101"
| "ExprOp_num OP_retype = 99"
| "ExprOp_num OP_iread = 20"
| "ExprOp_num OP_iaddrof = 22"
| "ExprOp_num OP_sext = 108"
| "ExprOp_num OP_zext = 109"
| "ExprOp_num OP_extractbits = 150"
| "ExprOp_num OP_gcmallocjarray = 115"
| "ExprOp_num OP_gcpermallocjarray = 116"
| "ExprOp_num OP_sub = 121"
| "ExprOp_num OP_mul = 122"
| "ExprOp_num OP_div = 123"
| "ExprOp_num OP_rem = 124"
| "ExprOp_num OP_ashr = 125"
| "ExprOp_num OP_lshr = 126"
| "ExprOp_num OP_shl = 127"
| "ExprOp_num OP_max = 128"
| "ExprOp_num OP_min = 129"
| "ExprOp_num OP_band = 130"
| "ExprOp_num OP_bior = 131"
| "ExprOp_num OP_bxor = 132"
| "ExprOp_num OP_cand = 145"
| "ExprOp_num OP_cior = 146"
| "ExprOp_num OP_land = 143"
| "ExprOp_num OP_lior = 144"
| "ExprOp_num OP_add = 120"
| "ExprOp_num OP_eq = 134"
| "ExprOp_num OP_ne = 139"
| "ExprOp_num OP_lt = 138"
| "ExprOp_num OP_gt = 136"
| "ExprOp_num OP_le = 137"
| "ExprOp_num OP_ge = 135"
| "ExprOp_num OP_cmpg = 142"
| "ExprOp_num OP_cmpl = 141"
| "ExprOp_num OP_cmp = 140"
| "ExprOp_num OP_resolveinterfacefunc = 118"
| "ExprOp_num OP_resolvevirtualfunc = 119"
| "ExprOp_num OP_select = 147"
| "ExprOp_num OP_array = 25"
| "ExprOp_num OP_intrinsicop = 148"
| "ExprOp_num OP_intrinsicopwithtype = 149"
| "ExprOp_num OP_round = 100"
| "ExprOp_num OP_ireadoff = 88"
| "ExprOp_num OP_ireadfpoff = 89"
| "ExprOp_num OP_fieldsdist = 24"
| "ExprOp_num OP_conststr16 = 95"
| "ExprOp_num OP_depositbits = 151"
| "ExprOp_num OP_stackmallocjarray = 117"
| "ExprOp_num OP_CG_array_elem_add = 133"
| "ExprOp_num OP_ireadpcoff = 153"
| "ExprOp_num OP_addroffpc = 155"

definition ExprOp_enum :: "ExprOp list" where
  "ExprOp_enum =
     [OP_constval, OP_conststr, OP_addroflabel, OP_addroffunc, OP_sizeoftype, OP_addrof, OP_dread, OP_regread
      , OP_gcmalloc, OP_gcpermalloc, OP_stackmalloc, OP_abs, OP_bnot, OP_lnot, OP_neg, OP_recip, OP_sqrt
      , OP_alloca, OP_malloc, OP_ceil, OP_cvt, OP_floor, OP_trunc, OP_retype, OP_iread, OP_iaddrof, OP_sext
      , OP_zext, OP_extractbits, OP_gcmallocjarray, OP_gcpermallocjarray, OP_sub, OP_mul, OP_div, OP_rem
      , OP_ashr, OP_lshr, OP_shl, OP_max, OP_min, OP_band, OP_bior, OP_bxor, OP_cand, OP_cior, OP_land
      , OP_lior, OP_add, OP_eq, OP_ne, OP_lt, OP_gt, OP_le, OP_ge, OP_cmpg, OP_cmpl, OP_cmp
      , OP_resolveinterfacefunc, OP_resolvevirtualfunc, OP_select, OP_array, OP_intrinsicop
      , OP_intrinsicopwithtype, OP_round, OP_ireadoff, OP_ireadfpoff, OP_fieldsdist, OP_conststr16
      , OP_depositbits, OP_stackmallocjarray, OP_CG_array_elem_add, OP_ireadpcoff, OP_addroffpc]"

definition ExprOp_of :: "nat \<Rightarrow> ExprOp option" where
  "ExprOp_of n = find (\<lambda>op. ExprOp_num op = n) ExprOp_enum"

definition PrimType_enum :: "PrimType list" where
  "PrimType_enum =
     [PTY_begin, PTY_void, PTY_i8, PTY_i16, PTY_i32, PTY_i64, PTY_i128, PTY_u8, PTY_u16, PTY_u32, PTY_u64
      , PTY_u128, PTY_u1, PTY_ptr, PTY_ref, PTY_a32, PTY_a64, PTY_f32, PTY_f64, PTY_f128, PTY_c64, PTY_c128
      , PTY_simplestr, PTY_simpleobj, PTY_dynany, PTY_dynundef, PTY_dynnull, PTY_dynbool, PTY_dyni32
      , PTY_dynstr, PTY_dynobj, PTY_dynf64, PTY_dynf32, PTY_dynnone, PTY_constStr, PTY_gen, PTY_agg, PTY_v2i64
      , PTY_v4i32, PTY_v8i16, PTY_v16i8, PTY_v2u64, PTY_v4u32, PTY_v8u16, PTY_v16u8, PTY_v2f64, PTY_v4f32
      , PTY_v2i32, PTY_v4i16, PTY_v8i8, PTY_v2u32, PTY_v4u16, PTY_v8u8, PTY_v2f32, PTY_reservedpty1
      , PTY_reservedpty2, PTY_reservedpty3, PTY_reservedpty4, PTY_reservedpty5, PTY_reservedpty6
      , PTY_reservedpty7, PTY_reservedpty8, PTY_reservedpty9, PTY_reservedpty10, PTY_unknown, PTY_end]"

primrec PrimType_num :: "PrimType \<Rightarrow> nat" where
  "PrimType_num PTY_begin = 0"
| "PrimType_num PTY_void = 1"
| "PrimType_num PTY_i8 = 2"
| "PrimType_num PTY_i16 = 3"
| "PrimType_num PTY_i32 = 4"
| "PrimType_num PTY_i64 = 5"
| "PrimType_num PTY_i128 = 6"
| "PrimType_num PTY_u8 = 7"
| "PrimType_num PTY_u16 = 8"
| "PrimType_num PTY_u32 = 9"
| "PrimType_num PTY_u64 = 10"
| "PrimType_num PTY_u128 = 11"
| "PrimType_num PTY_u1 = 12"
| "PrimType_num PTY_ptr = 13"
| "PrimType_num PTY_ref = 14"
| "PrimType_num PTY_a32 = 15"
| "PrimType_num PTY_a64 = 16"
| "PrimType_num PTY_f32 = 17"
| "PrimType_num PTY_f64 = 18"
| "PrimType_num PTY_f128 = 19"
| "PrimType_num PTY_c64 = 20"
| "PrimType_num PTY_c128 = 21"
| "PrimType_num PTY_simplestr = 22"
| "PrimType_num PTY_simpleobj = 23"
| "PrimType_num PTY_dynany = 24"
| "PrimType_num PTY_dynundef = 25"
| "PrimType_num PTY_dynnull = 26"
| "PrimType_num PTY_dynbool = 27"
| "PrimType_num PTY_dyni32 = 28"
| "PrimType_num PTY_dynstr = 29"
| "PrimType_num PTY_dynobj = 30"
| "PrimType_num PTY_dynf64 = 31"
| "PrimType_num PTY_dynf32 = 32"
| "PrimType_num PTY_dynnone = 33"
| "PrimType_num PTY_constStr = 34"
| "PrimType_num PTY_gen = 35"
| "PrimType_num PTY_agg = 36"
| "PrimType_num PTY_v2i64 = 37"
| "PrimType_num PTY_v4i32 = 38"
| "PrimType_num PTY_v8i16 = 39"
| "PrimType_num PTY_v16i8 = 40"
| "PrimType_num PTY_v2u64 = 41"
| "PrimType_num PTY_v4u32 = 42"
| "PrimType_num PTY_v8u16 = 43"
| "PrimType_num PTY_v16u8 = 44"
| "PrimType_num PTY_v2f64 = 45"
| "PrimType_num PTY_v4f32 = 46"
| "PrimType_num PTY_v2i32 = 47"
| "PrimType_num PTY_v4i16 = 48"
| "PrimType_num PTY_v8i8 = 49"
| "PrimType_num PTY_v2u32 = 50"
| "PrimType_num PTY_v4u16 = 51"
| "PrimType_num PTY_v8u8 = 52"
| "PrimType_num PTY_v2f32 = 53"
| "PrimType_num PTY_reservedpty1 = 54"
| "PrimType_num PTY_reservedpty2 = 55"
| "PrimType_num PTY_reservedpty3 = 56"
| "PrimType_num PTY_reservedpty4 = 57"
| "PrimType_num PTY_reservedpty5 = 58"
| "PrimType_num PTY_reservedpty6 = 59"
| "PrimType_num PTY_reservedpty7 = 60"
| "PrimType_num PTY_reservedpty8 = 61"
| "PrimType_num PTY_reservedpty9 = 62"
| "PrimType_num PTY_reservedpty10 = 63"
| "PrimType_num PTY_unknown = 64"
| "PrimType_num PTY_end = 65"

definition PrimType_of :: "nat \<Rightarrow> PrimType option" where
  "PrimType_of n = (if n < length PrimType_enum then Some (PrimType_enum ! n) else None)"

lemma ExprOp_of_num [simp]: "ExprOp_of (ExprOp_num op) = Some op"
  by (cases op) (simp_all add: ExprOp_of_def ExprOp_enum_def)

lemma ExprOp_num_less: "ExprOp_num op < 256"
  by (cases op) simp_all

lemma PrimType_of_num [simp]: "PrimType_of (PrimType_num t) = Some t"
  by (cases t) (simp_all add: PrimType_of_def PrimType_enum_def)

lemma PrimType_num_less: "PrimType_num t < 256"
  by (cases t) simp_all

definition write_prim :: "PrimType \<Rightarrow> exporter \<Rightarrow> exporter option" where
  "write_prim t x = WriteNum (word_of_nat (PrimType_num t)) x"

definition read_prim :: "importer \<Rightarrow> (PrimType \<times> importer) option" where
  "read_prim i = do { (n, i) \<leftarrow> ReadNum i; t \<leftarrow> PrimType_of (count8 n); Some (t, i) }"

definition write_op :: "ExprOp \<Rightarrow> exporter \<Rightarrow> exporter option" where
  "write_op op x = WriteNum (word_of_nat (ExprOp_num op)) x"

definition read_op :: "importer \<Rightarrow> (ExprOp \<times> importer) option" where
  "read_op i = do { (n, i) \<leftarrow> ReadNum i; op \<leftarrow> ExprOp_of (count8 n); Some (op, i) }"

lemma codes_write_prim [codes_intros]: "codes c p (write_prim t) read_prim t p"
  unfolding write_prim_def read_prim_def
  by (rule codes_then [OF codes_WriteNum]) (simp add: count8_of_nat PrimType_num_less)

lemma codes_write_op [codes_intros]: "codes c p (write_op op) read_op op p"
  unfolding write_op_def read_op_def
  by (rule codes_then [OF codes_WriteNum]) (simp add: count8_of_nat ExprOp_num_less)

lemma grows_write_prim [grows_intros]: "grows (write_prim t)"
  unfolding write_prim_def by (rule grows_WriteNum)

lemma grows_write_op [grows_intros]: "grows (write_op op)"
  unfolding write_op_def by (rule grows_WriteNum)

lemma grows_OutputFuncViaSymName [grows_intros]: "grows (OutputFuncViaSymName m pu)"
  unfolding OutputFuncViaSymName_def by (cases "funcName m pu") (auto intro!: grows_intros intro: grows_extends)

lemma grows_output_stidx [grows_intros]: "grows (output_stidx m st)"
  unfolding output_stidx_def
  by (cases "Islocal st"; cases "gsymName m (st_idx st)") (simp_all, (intro grows_intros grows_extends)+)

section \<open>The states before the first byte\<close>

definition zero_pos :: SrcPosition where
  "zero_pos = \<lparr>RawData = 0, LineNum = 0\<rparr>"

text \<open>\<^verbatim>\<open>BinaryMplExport::Init\<close> marks the empty string and the primitive types.\<close>

definition Init_exporter :: exporter where
  "Init_exporter =
     \<lparr>xbuf = [], gStrMark = [([], 0)], uStrMark = [([], 0)],
      typMark = map (\<lambda>k. (word_of_nat k, word_of_nat k)) [0..<PrimType_num PTY_end],
      typeMarkOffset = 0, lastOutputSrcPosition = zero_pos\<rparr>"

definition Reset_importer :: "uint8 list \<Rightarrow> importer" where
  "Reset_importer bs =
     \<lparr>ibuf = bs, bufI = 0, gStrTab = [[]], uStrTab = [[]],
      typTab = map word_of_nat [0..<PrimType_num PTY_end], byNameTypes = [], typeTableSize = PrimType_num PTY_end,
      addrTakenLabels = [], potentialAssigned = [], retypedLocals = []\<rparr>"

lemma PrimType_num_end: "PrimType_num PTY_end = 65"
  by simp

lemma map_of_same:
  "map_of (map (\<lambda>k. (f k, g k)) ks) a = Some m \<Longrightarrow> \<exists>k\<in>set ks. f k = a \<and> g k = m"
  by (induction ks) (auto split: if_splits)

lemma agrees_init:
  assumes "names_ok c" and "\<And>k. k < PrimType_num PTY_end \<Longrightarrow> tyOf c (word_of_nat k) = word_of_nat k"
  shows "agrees c Init_exporter (Reset_importer bs)"
proof -
  have "marks_ok 0 0 (typMark Init_exporter) (typTab (Reset_importer bs)) (tyOf c)"
    unfolding marks_ok_def
  proof (intro conjI allI impI)
    fix ty :: TyIdx and m :: int64
    assume a: "map_of (typMark Init_exporter) ty = Some m \<and> ty \<noteq> 0"
    then obtain k where k: "k < PrimType_num PTY_end" "word_of_nat k = ty" "word_of_nat k = m"
      by (auto simp: Init_exporter_def dest!: map_of_same)
    have u: "unat m = k"
      using k(1) unfolding k(3) [symmetric] PrimType_num_end by (simp add: unat_of_nat)
    show "0 < unat m" using a k u by (cases k) auto
    show "unat m < length (typTab (Reset_importer bs))" using k u by (simp add: Reset_importer_def)
    show "typTab (Reset_importer bs) ! unat m = tyOf c ty"
      using k u assms(2) by (auto simp: Reset_importer_def)
  qed (simp_all add: Init_exporter_def Reset_importer_def PrimType_num_end)
  moreover have "marks_ok [] 0 [([], 0)] [[]] id" by (simp add: marks_ok_def)
  ultimately show ?thesis
    using assms(1) by (simp add: agrees_def Init_exporter_def Reset_importer_def PrimType_num_end)
qed

lemma remaining_Reset [simp]: "remaining (Reset_importer bs) = bs"
  by (simp add: remaining_def Reset_importer_def)

section \<open>Writers that do not stop\<close>

text \<open>
  \<open>exports m S k out\<close>: from every state in which the types of \<open>S\<close> are marked,
  \<open>out\<close> returns, keeps them marked and appends at most \<open>k\<close> bytes.
\<close>

named_theorems exports_intros

definition exports :: "TyIdx set \<Rightarrow> nat \<Rightarrow> (exporter \<Rightarrow> exporter option) \<Rightarrow> bool" where
  "exports S k out \<longleftrightarrow>
     (\<forall>x. S \<subseteq> dom (map_of (typMark x)) \<longrightarrow>
        (\<exists>x'. out x = Some x' \<and> S \<subseteq> dom (map_of (typMark x')) \<and> length (xbuf x') \<le> length (xbuf x) + k))"

lemma exports_bind [exports_intros]:
  assumes "exports S k out1" and "exports S l out2"
  shows "exports S (k + l) (\<lambda>x. Option.bind (out1 x) out2)"
  unfolding exports_def
proof (intro allI impI)
  fix x :: exporter assume "S \<subseteq> dom (map_of (typMark x))"
  then obtain x1 where x1: "out1 x = Some x1" "S \<subseteq> dom (map_of (typMark x1))" "length (xbuf x1) \<le> length (xbuf x) + k"
    using assms(1) by (fastforce simp: exports_def)
  then obtain x2 where "out2 x1 = Some x2" "S \<subseteq> dom (map_of (typMark x2))" "length (xbuf x2) \<le> length (xbuf x1) + l"
    using assms(2) by (fastforce simp: exports_def)
  then show "\<exists>x'. Option.bind (out1 x) out2 = Some x' \<and> S \<subseteq> dom (map_of (typMark x')) \<and>
      length (xbuf x') \<le> length (xbuf x) + (k + l)"
    using x1 by auto
qed

lemma exports_Some [exports_intros]: "exports S 0 Some"
  by (simp add: exports_def)

lemma leb128_at_most_10: "length (leb128 n) \<le> 10"
  using sint_greater_eq [of n] sint_less [of n] length_leb128 [of 9 n] by simp

lemma leb128_le: "10 \<le> k \<Longrightarrow> length (leb128 n) \<le> k"
  using leb128_at_most_10 [of n] by linarith

lemma exports_WriteNum [exports_intros]: "exports S 10 (WriteNum n)"
  using leb128_at_most_10 [of n] by (simp add: exports_def WriteNum_leb128)

lemma exports_write_op [exports_intros]: "exports S 10 (write_op op)"
  unfolding write_op_def by (rule exports_WriteNum)

lemma exports_write_prim [exports_intros]: "exports S 10 (write_prim t)"
  unfolding write_prim_def by (rule exports_WriteNum)

lemma exports_WriteAsciiStr [exports_intros]: "exports S (10 + length s) (WriteAsciiStr s)"
  using leb128_at_most_10 by (simp add: exports_def WriteAsciiStr_state)

lemma exports_OutputStr [exports_intros]: "exports S (20 + length s) (OutputStr s)"
  unfolding exports_def
proof (intro allI impI)
  fix x :: exporter assume "S \<subseteq> dom (map_of (typMark x))"
  then show "\<exists>x'. OutputStr s x = Some x' \<and> S \<subseteq> dom (map_of (typMark x')) \<and>
      length (xbuf x') \<le> length (xbuf x) + (20 + length s)"
    using leb128_at_most_10 add_mono [OF leb128_at_most_10 leb128_at_most_10]
    by (auto simp: OutputStr_def WriteNum_leb128 WriteAsciiStr_state leb128_le split: option.split)
qed

lemma exports_OutputUsrStr [exports_intros]: "exports S (20 + length s) (OutputUsrStr s)"
  unfolding exports_def
proof (intro allI impI)
  fix x :: exporter assume "S \<subseteq> dom (map_of (typMark x))"
  then show "\<exists>x'. OutputUsrStr s x = Some x' \<and> S \<subseteq> dom (map_of (typMark x')) \<and>
      length (xbuf x') \<le> length (xbuf x) + (20 + length s)"
    using leb128_at_most_10 add_mono [OF leb128_at_most_10 leb128_at_most_10]
    by (auto simp: OutputUsrStr_def WriteNum_leb128 WriteAsciiStr_state leb128_le split: option.split)
qed

lemma exports_null_type [exports_intros]: "exports S 10 (OutputTypeViaTypeName m 0)"
  using leb128_at_most_10 by (simp add: exports_def OutputTypeViaTypeName_def WriteNum_leb128)

lemma exports_marked_type:
  assumes "ty \<in> S" and "ty \<noteq> 0" and "typeTable m ty = Some t" and "\<not> isFunctionKind t"
  shows "exports S 10 (OutputTypeViaTypeName m ty)"
  unfolding exports_def
proof (intro allI impI)
  fix x :: exporter assume S: "S \<subseteq> dom (map_of (typMark x))"
  then obtain k where "map_of (typMark x) ty = Some k" using assms(1) by blast
  then show "\<exists>x'. OutputTypeViaTypeName m ty x = Some x' \<and> S \<subseteq> dom (map_of (typMark x')) \<and>
      length (xbuf x') \<le> length (xbuf x) + 10"
    using S assms by (simp add: OutputTypeViaTypeName_def WriteNum_leb128 leb128_le)
qed

lemma exports_named_type:
  assumes "typeTable m ty = Some t" and "ty \<noteq> 0" and "\<not> nameIsLocal t" and "nameStrIdx t \<noteq> []"
  shows "exports S (30 + length (nameStrIdx t)) (OutputTypeViaTypeName m ty)"
  unfolding exports_def
proof (intro allI impI)
  fix x :: exporter assume S: "S \<subseteq> dom (map_of (typMark x))"
  have n: "\<exists>x'. output_type_name t y = Some x' \<and> S \<subseteq> dom (map_of (typMark x')) \<and>
      length (xbuf x') \<le> length (xbuf y) + (30 + length (nameStrIdx t))"
    if "S \<subseteq> dom (map_of (typMark y))" for y
  proof -
    have "exports S (10 + (20 + length (nameStrIdx t))) (output_type_name t)"
      unfolding output_type_name_def using assms(3,4) by (simp only: simp_thms if_True) (intro exports_intros)
    then show ?thesis using that by (simp add: exports_def)
  qed
  show "\<exists>x'. OutputTypeViaTypeName m ty x = Some x' \<and> S \<subseteq> dom (map_of (typMark x')) \<and>
      length (xbuf x') \<le> length (xbuf x) + (30 + length (nameStrIdx t))"
  proof (cases "map_of (typMark x) ty")
    case None
    then show ?thesis
      using S assms(1,2) n [of "x\<lparr>typMark := (ty, word_of_nat (length (typMark x) + typeMarkOffset x)) # typMark x\<rparr>"]
      by (auto simp: OutputTypeViaTypeName_def)
  next
    case (Some k)
    then show ?thesis
      using S assms(1,2) leb128_at_most_10 n [of "x\<lparr>typeMarkOffset := typeMarkOffset x + 1\<rparr>"]
      by (auto simp: OutputTypeViaTypeName_def WriteNum_leb128 leb128_le)
  qed
qed

lemma exports_OutputFuncViaSymName [exports_intros]:
  "funcName m pu = Some nm \<Longrightarrow> exports S (10 + (20 + length nm)) (OutputFuncViaSymName m pu)"
  unfolding OutputFuncViaSymName_def by (simp only: option.case) (intro exports_intros)

lemma exports_local_stidx: "Islocal st \<Longrightarrow> exports S (10 + 10) (output_stidx m st)"
  unfolding output_stidx_def by (simp only: if_True) (intro exports_intros)

lemma exports_global_stidx:
  "\<not> Islocal st \<Longrightarrow> gsymName m (st_idx st) = Some nm \<Longrightarrow> exports S (10 + (10 + (20 + length nm))) (output_stidx m st)"
  unfolding output_stidx_def by (simp only: if_False option.case) (intro exports_intros)

lemma exports_write_all_Nil [exports_intros]: "exports S 0 (write_all W [])"
  by (simp add: exports_def)

lemma exports_write_all_Cons [exports_intros]:
  assumes "exports S k (W v)" and "exports S l (write_all W vs)"
  shows "exports S (k + l) (write_all W (v # vs))"
proof -
  have "write_all W (v # vs) = (\<lambda>x. Option.bind (W v x) (write_all W vs))" by auto
  then show ?thesis using exports_bind [OF assms] by simp
qed

lemma exports_write_counted [exports_intros]:
  assumes "exports S k (write_all W vs)"
  shows "exports S (10 + k) (write_counted W vs)"
proof -
  have "write_counted W vs = (\<lambda>x. Option.bind (WriteNum (word_of_nat (length vs)) x) (write_all W vs))"
    by (simp add: write_counted_def fun_eq_iff)
  then show ?thesis using exports_bind [OF exports_WriteNum assms] by simp
qed

end
