(* ===== verification/BinExpr.thy ===== *)
theory BinExpr
  imports BinRef
begin

text \<open>
  Export and import of constants and expressions of a function body
  (\<^verbatim>\<open>src/bin_mpl_export.cpp\<close>, \<^verbatim>\<open>src/bin_func_export.cpp\<close> and their
  importing counterparts). The main result is that the import rebuilds every exported
  expression from its bytes, up to the fields the format does not carry.
\<close>

unbundle bit_operations_syntax

lemma write_counted_cong [fundef_cong]:
  assumes "vs = vs'" and "\<And>v. v \<in> set vs' \<Longrightarrow> W v = W' v"
  shows "write_counted W vs = write_counted W' vs'"
proof
  fix x
  have "write_all W vs y = write_all W' vs' y" for y
    using assms by (intro write_all_cong) auto
  then show "write_counted W vs x = write_counted W' vs' x"
    using assms(1) by (simp add: write_counted_def)
qed

section \<open>Constants\<close>

text \<open>
  The kinds of constants whose form needs no description of a symbol or a function:
  a floating-point constant is its bits. Addresses of global symbols and functions,
  16-bit strings and \<^verbatim>\<open>kConstStConst\<close> are not modelled.
\<close>

datatype MIRConst =
    IntConst TyIdx int64
  | AddrofLocalConst TyIdx uint32 FieldID int32
  | LblConst TyIdx LabelIdx
  | StrConst TyIdx string
  | FloatConst TyIdx int32
  | DoubleConst TyIdx int64
  | AggConst TyIdx "(uint32 \<times> MIRConst option) list"

primrec GetKind :: "MIRConst \<Rightarrow> int64" where
  "GetKind (IntConst _ _) = 1"
| "GetKind (AddrofLocalConst _ _ _ _) = 2"
| "GetKind (LblConst _ _) = 4"
| "GetKind (StrConst _ _) = 5"
| "GetKind (FloatConst _ _) = 7"
| "GetKind (DoubleConst _ _) = 8"
| "GetKind (AggConst _ _) = 10"

primrec const_type :: "MIRConst \<Rightarrow> TyIdx" where
  "const_type (IntConst ty _) = ty"
| "const_type (AddrofLocalConst ty _ _ _) = ty"
| "const_type (LblConst ty _) = ty"
| "const_type (StrConst ty _) = ty"
| "const_type (FloatConst ty _) = ty"
| "const_type (DoubleConst ty _) = ty"
| "const_type (AggConst ty _) = ty"

abbreviation (input) kBinKindConstInt :: int64 where "kBinKindConstInt \<equiv> 20"
abbreviation (input) kBinKindConstStr :: int64 where "kBinKindConstStr \<equiv> 23"
abbreviation (input) kBinKindConstFloat :: int64 where "kBinKindConstFloat \<equiv> 25"
abbreviation (input) kBinKindConstDouble :: int64 where "kBinKindConstDouble \<equiv> 26"
abbreviation (input) kBinKindConstAgg :: int64 where "kBinKindConstAgg \<equiv> 27"
abbreviation (input) kBinKindConstAddrofLabel :: int64 where "kBinKindConstAddrofLabel \<equiv> 66"
abbreviation (input) kBinKindConstAddrofLocal :: int64 where "kBinKindConstAddrofLocal \<equiv> 67"

definition OutputConstBase :: "xmodule \<Rightarrow> MIRConst \<Rightarrow> exporter \<Rightarrow> exporter option" where
  "OutputConstBase m k x = do { x \<leftarrow> WriteNum (GetKind k) x; OutputTypeViaTypeName m (const_type k) x }"

text \<open>The functions of the \<^verbatim>\<open>OutputConstFactory\<close>, one per kind of constant.\<close>

definition OutputConstInt :: "xmodule \<Rightarrow> TyIdx \<Rightarrow> int64 \<Rightarrow> exporter \<Rightarrow> exporter option" where
  "OutputConstInt m ty v = (\<lambda>x. do {
     x \<leftarrow> WriteNum kBinKindConstInt x; x \<leftarrow> OutputConstBase m (IntConst ty v) x; WriteNum v x })"

definition OutputConstAddrofLocal :: "xmodule \<Rightarrow> TyIdx \<Rightarrow> uint32 \<Rightarrow> FieldID \<Rightarrow> int32 \<Rightarrow> exporter \<Rightarrow> exporter option" where
  "OutputConstAddrofLocal m ty full fid ofst = (\<lambda>x. do {
     x \<leftarrow> WriteNum kBinKindConstAddrofLocal x; x \<leftarrow> OutputConstBase m (AddrofLocalConst ty full fid ofst) x;
     x \<leftarrow> WriteNum (ucast full) x; x \<leftarrow> WriteNum (scast fid) x; WriteNum (scast ofst) x })"

definition OutputConstLbl :: "xmodule \<Rightarrow> TyIdx \<Rightarrow> LabelIdx \<Rightarrow> exporter \<Rightarrow> exporter option" where
  "OutputConstLbl m ty l = (\<lambda>x. do {
     x \<leftarrow> WriteNum kBinKindConstAddrofLabel x; x \<leftarrow> OutputConstBase m (LblConst ty l) x; WriteNum (ucast l) x })"

definition OutputConstStr :: "xmodule \<Rightarrow> TyIdx \<Rightarrow> string \<Rightarrow> exporter \<Rightarrow> exporter option" where
  "OutputConstStr m ty s = (\<lambda>x. do {
     x \<leftarrow> WriteNum kBinKindConstStr x; x \<leftarrow> OutputConstBase m (StrConst ty s) x; OutputUsrStr s x })"

definition OutputConstFloat :: "xmodule \<Rightarrow> TyIdx \<Rightarrow> int32 \<Rightarrow> exporter \<Rightarrow> exporter option" where
  "OutputConstFloat m ty b = (\<lambda>x. do {
     x \<leftarrow> WriteNum kBinKindConstFloat x; x \<leftarrow> OutputConstBase m (FloatConst ty b) x; WriteNum (scast b) x })"

definition OutputConstDouble :: "xmodule \<Rightarrow> TyIdx \<Rightarrow> int64 \<Rightarrow> exporter \<Rightarrow> exporter option" where
  "OutputConstDouble m ty b = (\<lambda>x. do {
     x \<leftarrow> WriteNum kBinKindConstDouble x; x \<leftarrow> OutputConstBase m (DoubleConst ty b) x; WriteNum b x })"

fun OutputConst :: "xmodule \<Rightarrow> MIRConst option \<Rightarrow> exporter \<Rightarrow> exporter option" where
  "OutputConst m None = WriteNum 0"
| "OutputConst m (Some (IntConst ty v)) = OutputConstInt m ty v"
| "OutputConst m (Some (AddrofLocalConst ty full fid ofst)) = OutputConstAddrofLocal m ty full fid ofst"
| "OutputConst m (Some (LblConst ty l)) = OutputConstLbl m ty l"
| "OutputConst m (Some (StrConst ty s)) = OutputConstStr m ty s"
| "OutputConst m (Some (FloatConst ty b)) = OutputConstFloat m ty b"
| "OutputConst m (Some (DoubleConst ty b)) = OutputConstDouble m ty b"
| "OutputConst m (Some (AggConst ty fs)) = (\<lambda>x. do {
     x \<leftarrow> WriteNum kBinKindConstAgg x; x \<leftarrow> OutputConstBase m (AggConst ty fs) x;
     write_counted (\<lambda>(fid, k) x. do { x \<leftarrow> WriteNum (ucast fid) x; OutputConst m k x }) fs x })"

lemmas OutputConst_unfold = OutputConst.simps OutputConstInt_def OutputConstAddrofLocal_def OutputConstLbl_def
  OutputConstStr_def OutputConstFloat_def OutputConstDouble_def

text \<open>\<^verbatim>\<open>GetOrCreateFloatConst\<close> and \<^verbatim>\<open>GetOrCreateDoubleConst\<close> have one NaN each; other values keep their bits.\<close>

definition isnan32 :: "int32 \<Rightarrow> bool" where
  "isnan32 b \<longleftrightarrow> drop_bit 23 b AND 0xFF = 0xFF \<and> b AND 0x7FFFFF \<noteq> 0"

definition isnan64 :: "int64 \<Rightarrow> bool" where
  "isnan64 b \<longleftrightarrow> drop_bit 52 b AND 0x7FF = 0x7FF \<and> b AND 0xFFFFFFFFFFFFF \<noteq> 0"

definition GetOrCreateFloatConst :: "int32 \<Rightarrow> MIRConst" where
  "GetOrCreateFloatConst b = FloatConst (word_of_nat (PrimType_num PTY_f32)) (if isnan32 b then 0x7FC00000 else b)"

definition GetOrCreateDoubleConst :: "int64 \<Rightarrow> MIRConst" where
  "GetOrCreateDoubleConst b = DoubleConst (word_of_nat (PrimType_num PTY_f64)) (if isnan64 b then 0x7FF8000000000000 else b)"

definition import_int_const :: "imodule \<Rightarrow> int64 \<Rightarrow> TyIdx \<Rightarrow> MIRConst option" where
  "import_int_const m v ty =
     (case new_MIRIntConst v (typePrimType m ty) of Inl _ \<Rightarrow> None | Inr k \<Rightarrow> Some (IntConst ty (ic_value k)))"

definition ImportConstBase :: "imodule \<Rightarrow> importer \<Rightarrow> ((int64 \<times> TyIdx) \<times> importer) option" where
  "ImportConstBase m i = do { (kind, i) \<leftarrow> ReadNum i; (ty, i) \<leftarrow> ImportType m i; Some ((kind, ty), i) }"

partial_function (option) ImportConst :: "imodule \<Rightarrow> importer \<Rightarrow> (MIRConst option \<times> importer) option" where
  "ImportConst m i = do {
     (tag, i) \<leftarrow> ReadNum i;
     if tag = 0 then Some (None, i)
     else do {
       ((kind, ty), i) \<leftarrow> ImportConstBase m i;
       if tag = kBinKindConstInt
       then do { (v, i) \<leftarrow> ReadNum i; k \<leftarrow> import_int_const m v ty; Some (Some k, i) }
       else if tag = kBinKindConstAddrofLocal
       then do {
         (full, i) \<leftarrow> ReadNum i; (fid, i) \<leftarrow> ReadNum i; (ofst, i) \<leftarrow> ReadNum i;
         Some (Some (AddrofLocalConst ty (ucast full) (ucast fid) (ucast ofst)), i) }
       else if tag = kBinKindConstAddrofLabel
       then do {
         (l, i) \<leftarrow> ReadNum i;
         Some (Some (LblConst ty (ucast l)), i\<lparr>addrTakenLabels := ucast l # addrTakenLabels i\<rparr>) }
       else if tag = kBinKindConstStr
       then do { (s, i) \<leftarrow> ImportUsrStr i; Some (Some (StrConst ty s), i) }
       else if tag = kBinKindConstFloat
       then do { (b, i) \<leftarrow> ReadNum i; Some (Some (GetOrCreateFloatConst (ucast b)), i) }
       else if tag = kBinKindConstDouble
       then do { (b, i) \<leftarrow> ReadNum i; Some (Some (GetOrCreateDoubleConst b), i) }
       else if tag = kBinKindConstAgg
       then do {
         (fs, i) \<leftarrow> read_counted count64
            (\<lambda>i. do { (fid, i) \<leftarrow> ReadNum i; (k, i) \<leftarrow> ImportConst m i; Some ((ucast fid :: uint32, k), i) }) i;
         Some (Some (AggConst ty fs), i) }
       else None } }"

text \<open>
  A constant with the types of the importing module, and the constants that come back as such:
  the import constructs an integer constant anew, which must not change it, and takes a
  floating-point constant from the table of its bits, which has the types \<^verbatim>\<open>f32\<close> and \<^verbatim>\<open>f64\<close>
  and one NaN for each.
\<close>

fun img_const :: "modules \<Rightarrow> MIRConst \<Rightarrow> MIRConst" where
  "img_const c (IntConst ty v) = IntConst (img_type c ty) v"
| "img_const c (AddrofLocalConst ty full fid ofst) = AddrofLocalConst (img_type c ty) full fid ofst"
| "img_const c (LblConst ty l) = LblConst (img_type c ty) l"
| "img_const c (StrConst ty s) = StrConst (img_type c ty) s"
| "img_const c (FloatConst ty b) = FloatConst (img_type c ty) b"
| "img_const c (DoubleConst ty b) = DoubleConst (img_type c ty) b"
| "img_const c (AggConst ty fs) = AggConst (img_type c ty) (map (\<lambda>(fid, k). (fid, map_option (img_const c) k)) fs)"

fun ok_const :: "modules \<Rightarrow> MIRConst \<Rightarrow> bool" where
  "ok_const c (IntConst ty v) \<longleftrightarrow> import_int_const (imod c) v (img_type c ty) = Some (IntConst (img_type c ty) v)"
| "ok_const c (FloatConst ty b) \<longleftrightarrow>
     img_type c ty = word_of_nat (PrimType_num PTY_f32) \<and> (isnan32 b \<longrightarrow> b = 0x7FC00000)"
| "ok_const c (DoubleConst ty b) \<longleftrightarrow>
     img_type c ty = word_of_nat (PrimType_num PTY_f64) \<and> (isnan64 b \<longrightarrow> b = 0x7FF8000000000000)"
| "ok_const c (AggConst ty fs) \<longleftrightarrow> list_all (\<lambda>(fid, k). pred_option (ok_const c) k) fs"
| "ok_const c k \<longleftrightarrow> True"

lemma ok_float_const:
  "ok_const c (FloatConst ty b) \<Longrightarrow> GetOrCreateFloatConst b = FloatConst (img_type c ty) b"
  "ok_const c (DoubleConst ty b') \<Longrightarrow> GetOrCreateDoubleConst b' = DoubleConst (img_type c ty) b'"
  by (auto simp: GetOrCreateFloatConst_def GetOrCreateDoubleConst_def)

lemma codes_OutputConstBase [codes_intros]:
  "codes c p (OutputConstBase (xmod c) k) (ImportConstBase (imod c)) (GetKind k, img_type c (const_type k)) p"
  unfolding OutputConstBase_def ImportConstBase_def
  by (rule codes_bind, rule codes_intros, rule codes_then, rule codes_intros) simp

lemma grows_OutputConstBase [grows_intros]: "grows (OutputConstBase m k)"
  unfolding OutputConstBase_def by (intro grows_intros grows_extends)

lemma grows_OutputConst_Some: "grows (OutputConst m (Some k))"
proof (induction k)
  case (AggConst ty fs)
  have "grows (case v of (fid, k) \<Rightarrow> \<lambda>x. do { x \<leftarrow> WriteNum (ucast fid) x; OutputConst m k x })" if v: "v \<in> set fs" for v
  proof -
    obtain fid k where e: "v = (fid, k)" by (cases v)
    have "grows (OutputConst m k)"
    proof (cases k)
      case (Some k')
      then show ?thesis using AggConst [OF v] by (simp add: e)
    qed (simp add: grows_WriteNum)
    then show ?thesis
      unfolding e prod.case by (intro grows_intros grows_extends)
  qed
  then show ?case
    unfolding OutputConst_unfold by (intro grows_intros grows_extends)
qed (simp only: OutputConst_unfold, (intro grows_intros grows_extends))+

lemma grows_OutputConst [grows_intros]: "grows (OutputConst m k)"
  by (cases k) (simp_all only: grows_OutputConst_Some OutputConst.simps(1) grows_WriteNum)

lemma codes_OutputConst_None: "codes c p (OutputConst (xmod c) None) (ImportConst (imod c)) None p"
  by (subst ImportConst.simps [abs_def], simp only: OutputConst_unfold, rule codes_then [OF codes_WriteNum]) simp

lemma codes_OutputConst_Some:
  assumes "ok_const c k"
  shows "codes c p (OutputConst (xmod c) (Some k)) (ImportConst (imod c)) (Some (img_const c k)) p"
  using assms
proof (induction k arbitrary: p)
  case (AggConst ty fs)
  let ?W = "\<lambda>(fid, k) x. do { x \<leftarrow> WriteNum (ucast fid) x; OutputConst (xmod c) k x }"
  let ?R = "\<lambda>i. do { (fid, i) \<leftarrow> ReadNum i; (k, i) \<leftarrow> ImportConst (imod c) i; Some ((ucast fid :: uint32, k), i) }"
  let ?img = "\<lambda>(fid, k). (fid, map_option (img_const c) k)"
  have "codes c p (?W v) ?R (?img v) p" if v: "v \<in> set fs" for p v
  proof -
    obtain fid k where e: "v = (fid, k)" by (cases v)
    have k: "codes c p (OutputConst (xmod c) k) (ImportConst (imod c)) (map_option (img_const c) k) p" for p
    proof (cases k)
      case (Some k')
      then have "ok_const c k'" using AggConst(2) v by (auto simp: e list_all_iff)
      then show ?thesis using AggConst(1) [OF v] by (simp add: e Some)
    qed (simp only: codes_OutputConst_None option.map)
    show ?thesis
      unfolding e prod.case
      by (rule codes_bind [OF codes_WriteNum], rule codes_then [OF k]) simp
  qed
  then have "codes c p (write_counted ?W fs) (read_counted count64 ?R)
      (img_all (\<lambda>p. ?img) (\<lambda>v p. p) p fs) (fold (\<lambda>v p. p) fs p)" for p
    by (intro codes_counted) (auto simp: count64_of_nat intro!: grows_intros intro: grows_extends)
  then have fields: "codes c p (write_counted ?W fs) (read_counted count64 ?R) (map ?img fs) p" for p
    by (simp add: img_all_const fold_id)
  show ?case
    by (subst ImportConst.simps [abs_def], simp only: OutputConst_unfold)
       ((rule codes_bind, rule codes_intros, simp)+, rule codes_then, rule fields, simp)
next
  case (FloatConst ty b)
  note k = ok_float_const(1) [OF FloatConst]
  show ?case
    by (subst ImportConst.simps [abs_def], simp only: OutputConst_unfold)
       ((rule codes_bind, rule codes_intros, simp)+, rule codes_then, rule codes_intros, simp add: k)
next
  case (DoubleConst ty b)
  note k = ok_float_const(2) [OF DoubleConst]
  show ?case
    by (subst ImportConst.simps [abs_def], simp only: OutputConst_unfold)
       ((rule codes_bind, rule codes_intros, simp)+, rule codes_then, rule codes_intros, simp add: k)
qed (subst ImportConst.simps [abs_def], simp only: OutputConst_unfold,
     (rule codes_bind, rule codes_intros, simp)+, rule codes_then, rule codes_intros, simp)+

lemma codes_OutputConst [codes_intros]:
  "pred_option (ok_const c) k \<Longrightarrow>
   codes c p (OutputConst (xmod c) k) (ImportConst (imod c)) (map_option (img_const c) k) p"
  by (cases k) (simp_all add: codes_OutputConst_None codes_OutputConst_Some del: OutputConst.simps)

interpretation const: codec c "OutputConst (xmod c)" "ImportConst (imod c)" "map_option (img_const c)" "pred_option (ok_const c)" for c
  by unfold_locales (simp_all add: codes_OutputConst grows_OutputConst)

section \<open>Expressions\<close>

text \<open>
  The groups of case labels in the \<^verbatim>\<open>switch\<close> of \<^verbatim>\<open>ImportExpression\<close>; the
  opcodes of \<open>C_default\<close> have no case there, while \<^verbatim>\<open>OutputExpression\<close> writes
  their operands.
\<close>

datatype (plugins only: code size) expr_class =
    C_constval | C_conststr | C_addroflabel | C_addroffunc | C_sizeoftype | C_addrof | C_regread | C_gcmalloc
    | C_unary | C_typecvt | C_retype | C_iread | C_extractbits | C_jarraymalloc | C_binary | C_compare
    | C_resolvefunc | C_select | C_array | C_intrinsicop | C_intrinsicopwithtype | C_default

primrec expr_class_of :: "ExprOp \<Rightarrow> expr_class" where
  "expr_class_of OP_constval = C_constval"
| "expr_class_of OP_conststr = C_conststr"
| "expr_class_of OP_addroflabel = C_addroflabel"
| "expr_class_of OP_addroffunc = C_addroffunc"
| "expr_class_of OP_sizeoftype = C_sizeoftype"
| "expr_class_of OP_addrof = C_addrof"
| "expr_class_of OP_dread = C_addrof"
| "expr_class_of OP_regread = C_regread"
| "expr_class_of OP_gcmalloc = C_gcmalloc"
| "expr_class_of OP_gcpermalloc = C_gcmalloc"
| "expr_class_of OP_stackmalloc = C_gcmalloc"
| "expr_class_of OP_abs = C_unary"
| "expr_class_of OP_bnot = C_unary"
| "expr_class_of OP_lnot = C_unary"
| "expr_class_of OP_neg = C_unary"
| "expr_class_of OP_recip = C_unary"
| "expr_class_of OP_sqrt = C_unary"
| "expr_class_of OP_alloca = C_unary"
| "expr_class_of OP_malloc = C_unary"
| "expr_class_of OP_ceil = C_typecvt"
| "expr_class_of OP_cvt = C_typecvt"
| "expr_class_of OP_floor = C_typecvt"
| "expr_class_of OP_trunc = C_typecvt"
| "expr_class_of OP_retype = C_retype"
| "expr_class_of OP_iread = C_iread"
| "expr_class_of OP_iaddrof = C_iread"
| "expr_class_of OP_sext = C_extractbits"
| "expr_class_of OP_zext = C_extractbits"
| "expr_class_of OP_extractbits = C_extractbits"
| "expr_class_of OP_gcmallocjarray = C_jarraymalloc"
| "expr_class_of OP_gcpermallocjarray = C_jarraymalloc"
| "expr_class_of OP_sub = C_binary"
| "expr_class_of OP_mul = C_binary"
| "expr_class_of OP_div = C_binary"
| "expr_class_of OP_rem = C_binary"
| "expr_class_of OP_ashr = C_binary"
| "expr_class_of OP_lshr = C_binary"
| "expr_class_of OP_shl = C_binary"
| "expr_class_of OP_max = C_binary"
| "expr_class_of OP_min = C_binary"
| "expr_class_of OP_band = C_binary"
| "expr_class_of OP_bior = C_binary"
| "expr_class_of OP_bxor = C_binary"
| "expr_class_of OP_cand = C_binary"
| "expr_class_of OP_cior = C_binary"
| "expr_class_of OP_land = C_binary"
| "expr_class_of OP_lior = C_binary"
| "expr_class_of OP_add = C_binary"
| "expr_class_of OP_eq = C_compare"
| "expr_class_of OP_ne = C_compare"
| "expr_class_of OP_lt = C_compare"
| "expr_class_of OP_gt = C_compare"
| "expr_class_of OP_le = C_compare"
| "expr_class_of OP_ge = C_compare"
| "expr_class_of OP_cmpg = C_compare"
| "expr_class_of OP_cmpl = C_compare"
| "expr_class_of OP_cmp = C_compare"
| "expr_class_of OP_resolveinterfacefunc = C_resolvefunc"
| "expr_class_of OP_resolvevirtualfunc = C_resolvefunc"
| "expr_class_of OP_select = C_select"
| "expr_class_of OP_array = C_array"
| "expr_class_of OP_intrinsicop = C_intrinsicop"
| "expr_class_of OP_intrinsicopwithtype = C_intrinsicopwithtype"
| "expr_class_of OP_round = C_default"
| "expr_class_of OP_ireadoff = C_default"
| "expr_class_of OP_ireadfpoff = C_default"
| "expr_class_of OP_fieldsdist = C_default"
| "expr_class_of OP_conststr16 = C_default"
| "expr_class_of OP_depositbits = C_default"
| "expr_class_of OP_stackmallocjarray = C_default"
| "expr_class_of OP_CG_array_elem_add = C_default"
| "expr_class_of OP_ireadpcoff = C_default"
| "expr_class_of OP_addroffpc = C_default"

text \<open>
  One constructor per node class, with the fields of the class; where the class
  serves several opcodes, the opcode is the first field. The operand count is the
  number of operands.
\<close>

datatype BaseNode =
    ConstvalNode PrimType "MIRConst option"
  | ConststrNode PrimType string
  | AddroflabelNode PrimType LabelIdx
  | AddroffuncNode PrimType PUIdx
  | SizeoftypeNode PrimType TyIdx
  | AddrofNode ExprOp PrimType FieldID StIdx
  | RegreadNode PrimType PregIdx
  | GCMallocNode ExprOp PrimType TyIdx
  | UnaryNode ExprOp PrimType BaseNode
  | TypeCvtNode ExprOp PrimType PrimType BaseNode
  | RetypeNode PrimType PrimType TyIdx BaseNode
  | IreadNode ExprOp PrimType TyIdx FieldID BaseNode
  | ExtractbitsNode ExprOp PrimType uint8 uint8 BaseNode
  | JarrayMallocNode ExprOp PrimType TyIdx BaseNode
  | BinaryNode ExprOp PrimType BaseNode BaseNode
  | CompareNode ExprOp PrimType PrimType BaseNode BaseNode
  | ResolveFuncNode ExprOp PrimType PUIdx BaseNode BaseNode
  | TernaryNode ExprOp PrimType BaseNode BaseNode BaseNode
  | ArrayNode PrimType TyIdx bool "BaseNode list"
  | IntrinsicopNode ExprOp PrimType uint32 TyIdx "BaseNode list"
  | OtherNode ExprOp PrimType "BaseNode list"

definition OutputBaseNode :: "ExprOp \<Rightarrow> PrimType \<Rightarrow> uint8 \<Rightarrow> exporter \<Rightarrow> exporter option" where
  "OutputBaseNode op ty n x = do { x \<leftarrow> write_op op x; x \<leftarrow> write_prim ty x; WriteNum (ucast n) x }"

definition ImportBaseNode :: "importer \<Rightarrow> ((ExprOp \<times> PrimType \<times> uint8) \<times> importer) option" where
  "ImportBaseNode i = do {
     (op, i) \<leftarrow> read_op i; (typ, i) \<leftarrow> read_prim i; (n, i) \<leftarrow> ReadNum i; Some ((op, typ, ucast n), i) }"

fun OutputExpression :: "xmodule \<Rightarrow> BaseNode \<Rightarrow> exporter \<Rightarrow> exporter option" where
  "OutputExpression m (ConstvalNode ty k) = (\<lambda>x. do {
     x \<leftarrow> WriteNum kBinOpExpression x; x \<leftarrow> OutputBaseNode OP_constval ty 0 x; OutputConst m k x })"
| "OutputExpression m (ConststrNode ty s) = (\<lambda>x. do {
     x \<leftarrow> WriteNum kBinOpExpression x; x \<leftarrow> OutputBaseNode OP_conststr ty 0 x; OutputUsrStr s x })"
| "OutputExpression m (AddroflabelNode ty l) = (\<lambda>x. do {
     x \<leftarrow> WriteNum kBinOpExpression x; x \<leftarrow> OutputBaseNode OP_addroflabel ty 0 x; WriteNum (ucast l) x })"
| "OutputExpression m (AddroffuncNode ty pu) = (\<lambda>x. do {
     x \<leftarrow> WriteNum kBinOpExpression x; x \<leftarrow> OutputBaseNode OP_addroffunc ty 0 x; OutputFuncViaSymName m pu x })"
| "OutputExpression m (SizeoftypeNode ty tid) = (\<lambda>x. do {
     x \<leftarrow> WriteNum kBinOpExpression x; x \<leftarrow> OutputBaseNode OP_sizeoftype ty 0 x; OutputTypeViaTypeName m tid x })"
| "OutputExpression m (AddrofNode op ty fid st) = (\<lambda>x. do {
     x \<leftarrow> WriteNum kBinOpExpression x; x \<leftarrow> OutputBaseNode op ty 0 x;
     x \<leftarrow> WriteNum (scast fid) x; output_stidx m st x })"
| "OutputExpression m (RegreadNode ty r) = (\<lambda>x. do {
     x \<leftarrow> WriteNum kBinOpExpression x; x \<leftarrow> OutputBaseNode OP_regread ty 0 x; WriteNum (scast r) x })"
| "OutputExpression m (GCMallocNode op ty tid) = (\<lambda>x. do {
     x \<leftarrow> WriteNum kBinOpExpression x; x \<leftarrow> OutputBaseNode op ty 0 x; OutputTypeViaTypeName m tid x })"
| "OutputExpression m (UnaryNode op ty e) = (\<lambda>x. do {
     x \<leftarrow> WriteNum kBinOpExpression x; x \<leftarrow> OutputBaseNode op ty 1 x; OutputExpression m e x })"
| "OutputExpression m (TypeCvtNode op ty from e) = (\<lambda>x. do {
     x \<leftarrow> WriteNum kBinOpExpression x; x \<leftarrow> OutputBaseNode op ty 1 x;
     x \<leftarrow> write_prim from x; OutputExpression m e x })"
| "OutputExpression m (RetypeNode ty from tid e) = (\<lambda>x. do {
     x \<leftarrow> WriteNum kBinOpExpression x; x \<leftarrow> OutputBaseNode OP_retype ty 1 x;
     x \<leftarrow> OutputTypeViaTypeName m tid x; OutputExpression m e x })"
| "OutputExpression m (IreadNode op ty tid fid e) = (\<lambda>x. do {
     x \<leftarrow> WriteNum kBinOpExpression x; x \<leftarrow> OutputBaseNode op ty 1 x;
     x \<leftarrow> OutputTypeViaTypeName m tid x; x \<leftarrow> WriteNum (scast fid) x; OutputExpression m e x })"
| "OutputExpression m (ExtractbitsNode op ty ofst bits e) = (\<lambda>x. do {
     x \<leftarrow> WriteNum kBinOpExpression x; x \<leftarrow> OutputBaseNode op ty 1 x;
     x \<leftarrow> WriteNum (ucast ofst) x; x \<leftarrow> WriteNum (ucast bits) x; OutputExpression m e x })"
| "OutputExpression m (JarrayMallocNode op ty tid e) = (\<lambda>x. do {
     x \<leftarrow> WriteNum kBinOpExpression x; x \<leftarrow> OutputBaseNode op ty 1 x;
     x \<leftarrow> OutputTypeViaTypeName m tid x; OutputExpression m e x })"
| "OutputExpression m (BinaryNode op ty e1 e2) = (\<lambda>x. do {
     x \<leftarrow> WriteNum kBinOpExpression x; x \<leftarrow> OutputBaseNode op ty 2 x;
     x \<leftarrow> OutputExpression m e1 x; OutputExpression m e2 x })"
| "OutputExpression m (CompareNode op ty oty e1 e2) = (\<lambda>x. do {
     x \<leftarrow> WriteNum kBinOpExpression x; x \<leftarrow> OutputBaseNode op ty 2 x; x \<leftarrow> write_prim oty x;
     x \<leftarrow> OutputExpression m e1 x; OutputExpression m e2 x })"
| "OutputExpression m (ResolveFuncNode op ty pu e1 e2) = (\<lambda>x. do {
     x \<leftarrow> WriteNum kBinOpExpression x; x \<leftarrow> OutputBaseNode op ty 2 x; x \<leftarrow> OutputFuncViaSymName m pu x;
     x \<leftarrow> OutputExpression m e1 x; OutputExpression m e2 x })"
| "OutputExpression m (TernaryNode op ty e1 e2 e3) = (\<lambda>x. do {
     x \<leftarrow> WriteNum kBinOpExpression x; x \<leftarrow> OutputBaseNode op ty 3 x;
     x \<leftarrow> OutputExpression m e1 x; x \<leftarrow> OutputExpression m e2 x; OutputExpression m e3 x })"
| "OutputExpression m (ArrayNode ty tid bc es) = (\<lambda>x. do {
     x \<leftarrow> WriteNum kBinOpExpression x; x \<leftarrow> OutputBaseNode OP_array ty (word_of_nat (length es)) x;
     x \<leftarrow> OutputTypeViaTypeName m tid x; x \<leftarrow> WriteNum (bool_int bc) x;
     write_counted (OutputExpression m) es x })"
| "OutputExpression m (IntrinsicopNode op ty intrn tid es) = (\<lambda>x. do {
     x \<leftarrow> WriteNum kBinOpExpression x; x \<leftarrow> OutputBaseNode op ty (word_of_nat (length es)) x;
     x \<leftarrow> WriteNum (ucast intrn) x;
     x \<leftarrow> (if expr_class_of op = C_intrinsicopwithtype then OutputTypeViaTypeName m tid x else Some x);
     write_counted (OutputExpression m) es x })"
| "OutputExpression m (OtherNode op ty es) = (\<lambda>x. do {
     x \<leftarrow> WriteNum kBinOpExpression x; x \<leftarrow> OutputBaseNode op ty (word_of_nat (length es)) x;
     write_all (OutputExpression m) es x })"

partial_function (option) ImportExpression :: "imodule \<Rightarrow> importer \<Rightarrow> (BaseNode \<times> importer) option" where
  "ImportExpression m i = do {
     (tag, i) \<leftarrow> ReadNum i;
     if tag \<noteq> kBinOpExpression then None
     else do {
       ((op, typ, numOpr), i) \<leftarrow> ImportBaseNode i;
       case expr_class_of op of
         C_constval \<Rightarrow> do { (k, i) \<leftarrow> ImportConst m i; Some (ConstvalNode typ k, i) }
       | C_conststr \<Rightarrow> do { (s, i) \<leftarrow> ImportUsrStr i; Some (ConststrNode typ s, i) }
       | C_addroflabel \<Rightarrow> do {
           (l, i) \<leftarrow> ReadNum i;
           Some (AddroflabelNode typ (ucast l), i\<lparr>addrTakenLabels := ucast l # addrTakenLabels i\<rparr>) }
       | C_addroffunc \<Rightarrow> do { (pu, i) \<leftarrow> ImportFuncViaSymName m i; Some (AddroffuncNode typ pu, i) }
       | C_sizeoftype \<Rightarrow> do { (tid, i) \<leftarrow> ImportType m i; Some (SizeoftypeNode kPtyInvalid tid, i) }
       | C_addrof \<Rightarrow> do {
           (fid, i) \<leftarrow> ReadNum i; (st, i) \<leftarrow> import_stidx m (op = OP_addrof) i;
           Some (AddrofNode op typ (ucast fid) st, i) }
       | C_regread \<Rightarrow> do { (r, i) \<leftarrow> ReadNum i; Some (RegreadNode typ (ucast r), i) }
       | C_gcmalloc \<Rightarrow> do { (tid, i) \<leftarrow> ImportType m i; Some (GCMallocNode op typ tid, i) }
       | C_unary \<Rightarrow>
           if numOpr \<noteq> 1 then None
           else do { (e, i) \<leftarrow> ImportExpression m i; Some (UnaryNode op typ e, i) }
       | C_typecvt \<Rightarrow>
           if numOpr \<noteq> 1 then None
           else do { (from, i) \<leftarrow> read_prim i; (e, i) \<leftarrow> ImportExpression m i; Some (TypeCvtNode op typ from e, i) }
       | C_retype \<Rightarrow>
           if numOpr \<noteq> 1 then None
           else do {
             (tid, i) \<leftarrow> ImportType m i; (e, i) \<leftarrow> ImportExpression m i; Some (RetypeNode typ kPtyInvalid tid e, i) }
       | C_iread \<Rightarrow>
           if numOpr \<noteq> 1 then None
           else do {
             (tid, i) \<leftarrow> ImportType m i; (fid, i) \<leftarrow> ReadNum i; (e, i) \<leftarrow> ImportExpression m i;
             Some (IreadNode op typ tid (ucast fid) e, i) }
       | C_extractbits \<Rightarrow>
           if numOpr \<noteq> 1 then None
           else do {
             (ofst, i) \<leftarrow> ReadNum i; (bits, i) \<leftarrow> ReadNum i; (e, i) \<leftarrow> ImportExpression m i;
             Some (ExtractbitsNode op typ (ucast ofst) (ucast bits) e, i) }
       | C_jarraymalloc \<Rightarrow>
           if numOpr \<noteq> 1 then None
           else do {
             (tid, i) \<leftarrow> ImportType m i; (e, i) \<leftarrow> ImportExpression m i; Some (JarrayMallocNode op typ tid e, i) }
       | C_binary \<Rightarrow>
           if numOpr \<noteq> 2 then None
           else do {
             (e1, i) \<leftarrow> ImportExpression m i; (e2, i) \<leftarrow> ImportExpression m i; Some (BinaryNode op typ e1 e2, i) }
       | C_compare \<Rightarrow>
           if numOpr \<noteq> 2 then None
           else do {
             (oty, i) \<leftarrow> read_prim i; (e1, i) \<leftarrow> ImportExpression m i; (e2, i) \<leftarrow> ImportExpression m i;
             Some (CompareNode op typ oty e1 e2, i) }
       | C_resolvefunc \<Rightarrow>
           if numOpr \<noteq> 2 then None
           else do {
             (pu, i) \<leftarrow> ImportFuncViaSymName m i;
             (e1, i) \<leftarrow> ImportExpression m i; (e2, i) \<leftarrow> ImportExpression m i;
             Some (ResolveFuncNode op typ pu e1 e2, i) }
       | C_select \<Rightarrow>
           if numOpr \<noteq> 3 then None
           else do {
             (e1, i) \<leftarrow> ImportExpression m i; (e2, i) \<leftarrow> ImportExpression m i; (e3, i) \<leftarrow> ImportExpression m i;
             Some (TernaryNode op typ e1 e2 e3, i) }
       | C_array \<Rightarrow> do {
           (tid, i) \<leftarrow> ImportType m i; (bc, i) \<leftarrow> ReadNum i;
           (es, i) \<leftarrow> read_counted count32 (ImportExpression m) i;
           Some (ArrayNode typ tid ((ucast bc :: uint32) \<noteq> 0) es, i) }
       | C_intrinsicop \<Rightarrow> do {
           (intrn, i) \<leftarrow> ReadNum i;
           (es, i) \<leftarrow> read_counted count32 (ImportExpression m) i;
           Some (IntrinsicopNode op typ (ucast intrn) 0 es, i) }
       | C_intrinsicopwithtype \<Rightarrow> do {
           (intrn, i) \<leftarrow> ReadNum i; (tid, i) \<leftarrow> ImportType m i;
           (es, i) \<leftarrow> read_counted count32 (ImportExpression m) i;
           Some (IntrinsicopNode op typ (ucast intrn) tid es, i) }
       | C_default \<Rightarrow> None } }"

subsection \<open>What the import rebuilds\<close>

text \<open>
  The image of an expression: the same expression with its references in the numbering of
  the importing module.
\<close>

fun img_expr :: "modules \<Rightarrow> BaseNode \<Rightarrow> BaseNode" where
  "img_expr c (ConstvalNode ty k) = ConstvalNode ty (map_option (img_const c) k)"
| "img_expr c (ConststrNode ty s) = ConststrNode ty s"
| "img_expr c (AddroflabelNode ty l) = AddroflabelNode ty l"
| "img_expr c (AddroffuncNode ty pu) = AddroffuncNode ty (img_func c pu)"
| "img_expr c (SizeoftypeNode ty tid) = SizeoftypeNode ty (img_type c tid)"
| "img_expr c (AddrofNode op ty fid st) = AddrofNode op ty fid (img_stidx c st)"
| "img_expr c (RegreadNode ty r) = RegreadNode ty r"
| "img_expr c (GCMallocNode op ty tid) = GCMallocNode op ty (img_type c tid)"
| "img_expr c (UnaryNode op ty e) = UnaryNode op ty (img_expr c e)"
| "img_expr c (TypeCvtNode op ty from e) = TypeCvtNode op ty from (img_expr c e)"
| "img_expr c (RetypeNode ty from tid e) = RetypeNode ty from (img_type c tid) (img_expr c e)"
| "img_expr c (IreadNode op ty tid fid e) = IreadNode op ty (img_type c tid) fid (img_expr c e)"
| "img_expr c (ExtractbitsNode op ty ofst bits e) = ExtractbitsNode op ty ofst bits (img_expr c e)"
| "img_expr c (JarrayMallocNode op ty tid e) = JarrayMallocNode op ty (img_type c tid) (img_expr c e)"
| "img_expr c (BinaryNode op ty e1 e2) = BinaryNode op ty (img_expr c e1) (img_expr c e2)"
| "img_expr c (CompareNode op ty oty e1 e2) = CompareNode op ty oty (img_expr c e1) (img_expr c e2)"
| "img_expr c (ResolveFuncNode op ty pu e1 e2) = ResolveFuncNode op ty (img_func c pu) (img_expr c e1) (img_expr c e2)"
| "img_expr c (TernaryNode op ty e1 e2 e3) = TernaryNode op ty (img_expr c e1) (img_expr c e2) (img_expr c e3)"
| "img_expr c (ArrayNode ty tid bc es) = ArrayNode ty (img_type c tid) bc (map (img_expr c) es)"
| "img_expr c (IntrinsicopNode op ty intrn tid es) =
     IntrinsicopNode op ty intrn (img_type c tid) (map (img_expr c) es)"
| "img_expr c (OtherNode op ty es) = OtherNode op ty (map (img_expr c) es)"

text \<open>
  The expressions that the format carries: the opcodes belong to their node classes, the
  importing module knows the references, and no field is lost that is set. The format
  has no place for the primitive type of \<^verbatim>\<open>sizeoftype\<close>, the source type of \<^verbatim>\<open>retype\<close> and
  the type of an \<^verbatim>\<open>intrinsicop\<close> without a type.
\<close>

fun ok_expr :: "modules \<Rightarrow> BaseNode \<Rightarrow> bool" where
  "ok_expr c (ConstvalNode ty k) \<longleftrightarrow> pred_option (ok_const c) k"
| "ok_expr c (ConststrNode ty s) \<longleftrightarrow> True"
| "ok_expr c (AddroflabelNode ty l) \<longleftrightarrow> True"
| "ok_expr c (AddroffuncNode ty pu) \<longleftrightarrow> ok_func c pu"
| "ok_expr c (SizeoftypeNode ty tid) \<longleftrightarrow> ty = kPtyInvalid"
| "ok_expr c (AddrofNode op ty fid st) \<longleftrightarrow> expr_class_of op = C_addrof \<and> ok_stidx c st"
| "ok_expr c (RegreadNode ty r) \<longleftrightarrow> True"
| "ok_expr c (GCMallocNode op ty tid) \<longleftrightarrow> expr_class_of op = C_gcmalloc"
| "ok_expr c (UnaryNode op ty e) \<longleftrightarrow> expr_class_of op = C_unary \<and> ok_expr c e"
| "ok_expr c (TypeCvtNode op ty from e) \<longleftrightarrow> expr_class_of op = C_typecvt \<and> ok_expr c e"
| "ok_expr c (RetypeNode ty from tid e) \<longleftrightarrow> from = kPtyInvalid \<and> ok_expr c e"
| "ok_expr c (IreadNode op ty tid fid e) \<longleftrightarrow> expr_class_of op = C_iread \<and> ok_expr c e"
| "ok_expr c (ExtractbitsNode op ty ofst bits e) \<longleftrightarrow> expr_class_of op = C_extractbits \<and> ok_expr c e"
| "ok_expr c (JarrayMallocNode op ty tid e) \<longleftrightarrow> expr_class_of op = C_jarraymalloc \<and> ok_expr c e"
| "ok_expr c (BinaryNode op ty e1 e2) \<longleftrightarrow> expr_class_of op = C_binary \<and> ok_expr c e1 \<and> ok_expr c e2"
| "ok_expr c (CompareNode op ty oty e1 e2) \<longleftrightarrow> expr_class_of op = C_compare \<and> ok_expr c e1 \<and> ok_expr c e2"
| "ok_expr c (ResolveFuncNode op ty pu e1 e2) \<longleftrightarrow>
     expr_class_of op = C_resolvefunc \<and> ok_func c pu \<and> ok_expr c e1 \<and> ok_expr c e2"
| "ok_expr c (TernaryNode op ty e1 e2 e3) \<longleftrightarrow>
     expr_class_of op = C_select \<and> ok_expr c e1 \<and> ok_expr c e2 \<and> ok_expr c e3"
| "ok_expr c (ArrayNode ty tid bc es) \<longleftrightarrow> list_all (ok_expr c) es"
| "ok_expr c (IntrinsicopNode op ty intrn tid es) \<longleftrightarrow>
     (expr_class_of op = C_intrinsicop \<and> tid = 0 \<or> expr_class_of op = C_intrinsicopwithtype) \<and> list_all (ok_expr c) es"
| "ok_expr c (OtherNode op ty es) \<longleftrightarrow> False"

lemma codes_OutputBaseNode [codes_intros]: "codes c p (OutputBaseNode op ty n) ImportBaseNode (op, ty, n) p"
  unfolding OutputBaseNode_def ImportBaseNode_def
  by ((rule codes_bind, rule codes_intros)+, rule codes_then, rule codes_intros) simp

lemma grows_OutputBaseNode [grows_intros]: "grows (OutputBaseNode op ty n)"
  unfolding OutputBaseNode_def by (intro grows_intros grows_extends)

lemma exports_OutputBaseNode [exports_intros]: "exports S (10 + (10 + 10)) (OutputBaseNode op ty n)"
  unfolding OutputBaseNode_def by (intro exports_intros)

lemma extends_if [grows_intros]:
  "(b \<Longrightarrow> extends f) \<Longrightarrow> (\<not> b \<Longrightarrow> extends g) \<Longrightarrow> extends (\<lambda>x. if b then f x else g x)"
  by (cases b) simp_all

lemma grows_OutputExpression [grows_intros]: "grows (OutputExpression m e)"
  by (induction e) (simp only: OutputExpression.simps, (intro grows_intros grows_extends; assumption))+

lemma codes_expr_list:
  assumes "\<And>e p. e \<in> set es \<Longrightarrow> codes c p (OutputExpression (xmod c) e) (ImportExpression (imod c)) (img_expr c e) p"
  shows "codes c p (write_counted (OutputExpression (xmod c)) es) (read_counted count32 (ImportExpression (imod c)))
      (map (img_expr c) es) p"
proof -
  have "codes c p (write_counted (OutputExpression (xmod c)) es) (read_counted count32 (ImportExpression (imod c)))
      (img_all (\<lambda>p. img_expr c) (\<lambda>v p. p) p es) (fold (\<lambda>v p. p) es p)"
    by (intro codes_counted assms grows_OutputExpression count32_of_nat) auto
  then show ?thesis by (simp add: img_all_const fold_id)
qed

lemma ucast_bool_int [simp]: "(ucast (bool_int b :: int64) :: uint32) \<noteq> 0 \<longleftrightarrow> b"
  by (simp add: bool_int_def)

lemma codes_OutputExpression [codes_intros]:
  assumes "ok_expr c e"
  shows "codes c p (OutputExpression (xmod c) e) (ImportExpression (imod c)) (img_expr c e) p"
  using assms
proof (induction e arbitrary: p)
  case (ConstvalNode ty k)
  then have k: "pred_option (ok_const c) k" by simp
  show ?case
    by (subst ImportExpression.simps [abs_def], simp only: OutputExpression.simps)
       ((rule codes_bind, rule codes_intros, simp?)+, rule codes_then, rule codes_OutputConst [OF k], simp)
next
  case (AddroffuncNode ty pu)
  then have k: "ok_func c pu" by simp
  show ?case
    by (subst ImportExpression.simps [abs_def], simp only: OutputExpression.simps)
       ((rule codes_bind, rule codes_intros, simp?)+, rule codes_then, rule codes_OutputFuncViaSymName [OF k], simp)
next
  case (AddrofNode op ty fid st)
  then have k: "ok_stidx c st" and cl: "expr_class_of op = C_addrof" by simp_all
  show ?case
    by (subst ImportExpression.simps [abs_def], simp only: OutputExpression.simps)
       ((rule codes_bind, rule codes_intros, (simp add: cl)?)+, rule codes_then, rule codes_output_stidx [OF k], simp)
next
  case (GCMallocNode op ty tid)
  then have cl: "expr_class_of op = C_gcmalloc" by simp
  show ?case
    by (subst ImportExpression.simps [abs_def], simp only: OutputExpression.simps)
       ((rule codes_bind, rule codes_intros, (simp add: cl)?)+, rule codes_then, rule codes_intros, simp)
next
  case (UnaryNode op ty e)
  then have ih: "codes c p (OutputExpression (xmod c) e) (ImportExpression (imod c)) (img_expr c e) p"
    and cl: "expr_class_of op = C_unary" for p by simp_all
  show ?case
    by (subst ImportExpression.simps [abs_def], simp only: OutputExpression.simps)
       ((rule codes_bind, rule codes_intros, (simp add: cl)?)+, rule codes_then, rule ih, simp)
next
  case (TypeCvtNode op ty fty e)
  then have ih: "codes c p (OutputExpression (xmod c) e) (ImportExpression (imod c)) (img_expr c e) p"
    and cl: "expr_class_of op = C_typecvt" for p by simp_all
  show ?case
    by (subst ImportExpression.simps [abs_def], simp only: OutputExpression.simps)
       ((rule codes_bind, rule codes_intros, (simp add: cl)?)+, rule codes_then, rule ih, simp)
next
  case (RetypeNode ty fty tid e)
  then have ih: "codes c p (OutputExpression (xmod c) e) (ImportExpression (imod c)) (img_expr c e) p"
    and fty: "fty = kPtyInvalid" for p by simp_all
  show ?case
    by (subst ImportExpression.simps [abs_def], simp only: OutputExpression.simps)
       ((rule codes_bind, rule codes_intros, simp?)+, rule codes_then, rule ih, simp add: fty)
next
  case (SizeoftypeNode ty tid)
  then have ty: "ty = kPtyInvalid" by simp
  show ?case
    by (subst ImportExpression.simps [abs_def], simp only: OutputExpression.simps)
       ((rule codes_bind, rule codes_intros, simp?)+, rule codes_then, rule codes_intros, simp add: ty)
next
  case (IreadNode op ty tid fid e)
  then have ih: "codes c p (OutputExpression (xmod c) e) (ImportExpression (imod c)) (img_expr c e) p"
    and cl: "expr_class_of op = C_iread" for p by simp_all
  show ?case
    by (subst ImportExpression.simps [abs_def], simp only: OutputExpression.simps)
       ((rule codes_bind, rule codes_intros, (simp add: cl)?)+, rule codes_then, rule ih, simp)
next
  case (ExtractbitsNode op ty ofst bits e)
  then have ih: "codes c p (OutputExpression (xmod c) e) (ImportExpression (imod c)) (img_expr c e) p"
    and cl: "expr_class_of op = C_extractbits" for p by simp_all
  show ?case
    by (subst ImportExpression.simps [abs_def], simp only: OutputExpression.simps)
       ((rule codes_bind, rule codes_intros, (simp add: cl)?)+, rule codes_then, rule ih, simp)
next
  case (JarrayMallocNode op ty tid e)
  then have ih: "codes c p (OutputExpression (xmod c) e) (ImportExpression (imod c)) (img_expr c e) p"
    and cl: "expr_class_of op = C_jarraymalloc" for p by simp_all
  show ?case
    by (subst ImportExpression.simps [abs_def], simp only: OutputExpression.simps)
       ((rule codes_bind, rule codes_intros, (simp add: cl)?)+, rule codes_then, rule ih, simp)
next
  case (BinaryNode op ty e1 e2)
  then have ih: "codes c p (OutputExpression (xmod c) e1) (ImportExpression (imod c)) (img_expr c e1) p"
      "codes c p (OutputExpression (xmod c) e2) (ImportExpression (imod c)) (img_expr c e2) p"
    and cl: "expr_class_of op = C_binary" for p by simp_all
  show ?case
    by (subst ImportExpression.simps [abs_def], simp only: OutputExpression.simps)
       ((rule codes_bind, rule codes_intros ih(1), (simp add: cl)?)+, rule codes_then, rule ih(2), simp)
next
  case (CompareNode op ty oty e1 e2)
  then have ih: "codes c p (OutputExpression (xmod c) e1) (ImportExpression (imod c)) (img_expr c e1) p"
      "codes c p (OutputExpression (xmod c) e2) (ImportExpression (imod c)) (img_expr c e2) p"
    and cl: "expr_class_of op = C_compare" for p by simp_all
  show ?case
    by (subst ImportExpression.simps [abs_def], simp only: OutputExpression.simps)
       ((rule codes_bind, rule codes_intros ih(1), (simp add: cl)?)+, rule codes_then, rule ih(2), simp)
next
  case (ResolveFuncNode op ty pu e1 e2)
  then have ih: "codes c p (OutputExpression (xmod c) e1) (ImportExpression (imod c)) (img_expr c e1) p"
      "codes c p (OutputExpression (xmod c) e2) (ImportExpression (imod c)) (img_expr c e2) p"
    and cl: "expr_class_of op = C_resolvefunc" and f: "ok_func c pu" for p by simp_all
  show ?case
    by (subst ImportExpression.simps [abs_def], simp only: OutputExpression.simps)
       ((rule codes_bind, rule codes_OutputFuncViaSymName [OF f] codes_intros ih(1), (simp add: cl)?)+, rule codes_then, rule ih(2), simp)
next
  case (TernaryNode op ty e1 e2 e3)
  then have ih: "codes c p (OutputExpression (xmod c) e1) (ImportExpression (imod c)) (img_expr c e1) p"
      "codes c p (OutputExpression (xmod c) e2) (ImportExpression (imod c)) (img_expr c e2) p"
      "codes c p (OutputExpression (xmod c) e3) (ImportExpression (imod c)) (img_expr c e3) p"
    and cl: "expr_class_of op = C_select" for p by simp_all
  show ?case
    by (subst ImportExpression.simps [abs_def], simp only: OutputExpression.simps)
       ((rule codes_bind, rule codes_intros ih(1,2), (simp add: cl)?)+, rule codes_then, rule ih(3), simp)
next
  case (ArrayNode ty tid bc es)
  then have ih: "codes c p (write_counted (OutputExpression (xmod c)) es)
      (read_counted count32 (ImportExpression (imod c))) (map (img_expr c) es) p" for p
    by (intro codes_expr_list) (auto simp: list_all_iff)
  show ?case
    by (subst ImportExpression.simps [abs_def], simp only: OutputExpression.simps)
       ((rule codes_bind, rule codes_intros, simp?)+, rule codes_then, rule ih, simp)
next
  case (IntrinsicopNode op ty intrn tid es)
  then have ih: "codes c p (write_counted (OutputExpression (xmod c)) es)
      (read_counted count32 (ImportExpression (imod c))) (map (img_expr c) es) p" for p
    by (intro codes_expr_list) (auto simp: list_all_iff)
  have "expr_class_of op = C_intrinsicop \<and> tid = 0 \<or> expr_class_of op = C_intrinsicopwithtype" using IntrinsicopNode by simp
  then show ?case
  proof
    assume "expr_class_of op = C_intrinsicop \<and> tid = 0"
    then have op: "expr_class_of op = C_intrinsicop" and tid: "img_type c tid = 0" by (simp_all add: img_type_def)
    show ?thesis
      by (subst ImportExpression.simps [abs_def], simp only: OutputExpression.simps op)
         ((rule codes_bind, rule codes_intros, (simp add: op)?)+, rule codes_then, rule ih, simp add: op tid)
  next
    assume op: "expr_class_of op = C_intrinsicopwithtype"
    show ?thesis
      by (subst ImportExpression.simps [abs_def], simp only: OutputExpression.simps op)
         ((rule codes_bind, rule codes_intros, (simp add: op)?)+, rule codes_then, rule ih, simp add: op)
  qed
next
  case (OtherNode op ty es)
  then show ?case by simp
qed (subst ImportExpression.simps [abs_def], simp only: OutputExpression.simps,
     (rule codes_bind, rule codes_intros, simp?)+, rule codes_then, rule codes_intros, simp)+

interpretation expr: codec c "OutputExpression (xmod c)" "ImportExpression (imod c)" "img_expr c" "ok_expr c" for c
  by unfold_locales (simp_all add: codes_OutputExpression grows_OutputExpression)

section \<open>Properties\<close>

text \<open>
  (C16) The import of the bytes that \<^verbatim>\<open>OutputExpression\<close> wrote for an
  expression gives back the same expression, its references in the numbering of the
  importing module; the bytes after them are left, and the tables of strings and types
  of the two sides still agree. It holds of the expressions that the format carries (\<open>ok_expr\<close>):
  the importing module knows the functions and global symbols named; there is no \<^verbatim>\<open>sizeoftype\<close> with
  a primitive type and no \<^verbatim>\<open>retype\<close> with a source type, both of which are lost (\<open>import_loses\<close>), and
  no \<^verbatim>\<open>intrinsicop\<close> without a type that has one nevertheless; integer constants are
  reduced to their type; floating-point constants are of \<^verbatim>\<open>f32\<close> and \<^verbatim>\<open>f64\<close>, a NaN being the standard
  one; and no opcode is one that the format has no case for (\<open>ImportExpression_default_fatal\<close>).
\<close>

theorem ImportExpression_OutputExpression:
  assumes "ok_expr c e" and "OutputExpression (xmod c) e x = Some x'" and "length (xbuf x') < 2 ^ 31"
    and "agrees c x i" and "remaining i = drop (length (xbuf x)) (xbuf x') @ rest"
  shows "\<exists>i'. ImportExpression (imod c) i = Some (img_expr c e, i') \<and> remaining i' = rest \<and> agrees c x' i'"
  using expr.pos.round_trip [OF assms] .

text \<open>
  What the import of \<^verbatim>\<open>sizeoftype\<close> and of \<^verbatim>\<open>retype\<close> makes of the types that the format does not
  carry: the primitive type of the first, though it is written, and the source type of the second.
\<close>

theorem import_loses:
  "codes c p (OutputExpression (xmod c) (SizeoftypeNode PTY_i32 tid)) (ImportExpression (imod c))
     (SizeoftypeNode kPtyInvalid (img_type c tid)) p"
  "codes c p (OutputExpression (xmod c) (RetypeNode PTY_i32 PTY_u32 tid (RegreadNode PTY_u32 7))) (ImportExpression (imod c))
     (RetypeNode PTY_i32 kPtyInvalid (img_type c tid) (RegreadNode PTY_u32 7)) p"
proof -
  show "codes c p (OutputExpression (xmod c) (SizeoftypeNode PTY_i32 tid)) (ImportExpression (imod c))
     (SizeoftypeNode kPtyInvalid (img_type c tid)) p"
    by (subst ImportExpression.simps [abs_def], simp only: OutputExpression.simps)
       ((rule codes_bind, rule codes_intros, simp?)+, rule codes_then, rule codes_intros, simp)
  have rt: "codes c p (OutputExpression (xmod c) (RetypeNode ty fty tid e)) (ImportExpression (imod c))
      (RetypeNode ty kPtyInvalid (img_type c tid) e') p"
    if "codes c p (OutputExpression (xmod c) e) (ImportExpression (imod c)) e' p" for ty fty e e'
    by (subst ImportExpression.simps [abs_def], simp only: OutputExpression.simps)
       ((rule codes_bind, rule codes_intros, simp?)+, rule codes_then, rule that, simp)
  show "codes c p (OutputExpression (xmod c) (RetypeNode PTY_i32 PTY_u32 tid (RegreadNode PTY_u32 7))) (ImportExpression (imod c))
     (RetypeNode PTY_i32 kPtyInvalid (img_type c tid) (RegreadNode PTY_u32 7)) p"
    by (rule rt) (use codes_OutputExpression [of c "RegreadNode PTY_u32 7" p] in simp)
qed

text \<open>A pair of modules that number a global symbol, a function and a class differently.\<close>

definition sample_modules :: modules where
  "sample_modules =
     \<lparr>xmod = \<lparr>typeTable = (\<lambda>ty. if ty < 65 then Some \<lparr>isFunctionKind = False, nameStrIdx = [], nameIsLocal = False\<rparr>
                               else if ty = 70 then Some \<lparr>isFunctionKind = False, nameStrIdx = ''Point'', nameIsLocal = False\<rparr>
                               else None),
              gsymName = (\<lambda>k. if k = 3 then Some ''counter'' else None),
              funcName = (\<lambda>pu. if pu = 2 then Some ''main'' else None)\<rparr>,
      imod = \<lparr>typeNameTab = (\<lambda>nm. if nm = ''Point'' then 90 else 0),
              gsymIdx = (\<lambda>nm. if nm = ''counter'' then Some 8 else None),
              symFunction = (\<lambda>nm. if nm = ''main'' then Some 5 else None),
              typePrimType = (\<lambda>ty. if ty = 4 then PTY_i32 else PTY_agg),
              localSym = (\<lambda>k. if k = 1 then Some (''tmp'', False) else None)\<rparr>,
      tyOf = (\<lambda>ty. if ty = 70 then 90 else ty)\<rparr>"

definition sample_expr :: BaseNode where
  "sample_expr =
     CompareNode OP_lt PTY_u1 PTY_i32
       (BinaryNode OP_add PTY_i32 (AddrofNode OP_dread PTY_i32 0 \<lparr>st_scope = 1, st_idx = 3\<rparr>)
                                  (ConstvalNode PTY_i32 (Some (IntConst 4 (- 200)))))
       (IreadNode OP_iread PTY_i32 70 (- 1) (IreadNode OP_iaddrof PTY_ptr 70 2 (RegreadNode PTY_ptr (- 3))))"

lemma agrees_sample: "agrees sample_modules Init_exporter (Reset_importer bs)"
proof (rule agrees_init)
  show "names_ok sample_modules"
    by (auto simp: names_ok_def sample_modules_def split: if_splits)
  show "tyOf sample_modules (word_of_nat k) = word_of_nat k" if "k < PrimType_num PTY_end" for k
  proof -
    have "(word_of_nat k :: TyIdx) \<noteq> 70"
    proof
      assume "(word_of_nat k :: TyIdx) = 70"
      then have "unat (word_of_nat k :: TyIdx) = unat (70 :: TyIdx)" by simp
      then show False using that by (simp add: PrimType_num_end unat_of_nat)
    qed
    then show ?thesis by (simp add: sample_modules_def)
  qed
qed

lemma sample_simps:
  "typeTable (xmod sample_modules) 70 = Some \<lparr>isFunctionKind = False, nameStrIdx = ''Point'', nameIsLocal = False\<rparr>"
  "typeTable (xmod sample_modules) 4 = Some \<lparr>isFunctionKind = False, nameStrIdx = [], nameIsLocal = False\<rparr>"
  "gsymName (xmod sample_modules) 3 = Some ''counter''" "gsymIdx (imod sample_modules) ''counter'' = Some 8"
  "funcName (xmod sample_modules) 2 = Some ''main''" "symFunction (imod sample_modules) ''main'' = Some 5"
  "typePrimType (imod sample_modules) 4 = PTY_i32" "tyOf sample_modules 4 = 4" "tyOf sample_modules 70 = 90"
  "localSym (imod sample_modules) 1 = Some (''tmp'', False)"
  by (simp_all add: sample_modules_def)

lemma sample_expr_ok: "ok_expr sample_modules sample_expr"
proof -
  have "new_MIRIntConst (- 200) PTY_i32 = Inr \<lparr>ic_value = - 200, ic_type = PTY_i32\<rparr>" by code_simp
  then show ?thesis
    by (simp add: sample_expr_def sample_simps ok_stidx_def import_int_const_def img_type_def)
qed

lemma exports_sample_expr: "\<exists>k. exports {4} k (OutputExpression (xmod sample_modules) sample_expr) \<and> k < 1000"
  unfolding sample_expr_def OutputExpression.simps OutputConst_unfold OutputConstBase_def
  by (rule exI, rule conjI)
     ((rule exports_bind exports_WriteNum exports_OutputBaseNode exports_write_prim
        exports_named_type [OF sample_simps(1)] exports_marked_type [OF _ _ sample_simps(2)]
        exports_global_stidx [where nm = "''counter''"] | simp add: Islocal_def sample_simps)+)

lemma exports_Init:
  assumes "exports S k out" and "S \<subseteq> word_of_nat ` {..<PrimType_num PTY_end}"
  obtains x' where "out Init_exporter = Some x'" and "length (xbuf x') \<le> k"
proof -
  have "dom (map_of (typMark Init_exporter)) = word_of_nat ` {..<PrimType_num PTY_end}"
    by (simp add: Init_exporter_def dom_map_of_conv_image_fst image_comp atLeast0LessThan)
  then have "\<exists>x'. out Init_exporter = Some x' \<and> length (xbuf x') \<le> k"
    using assms(1) [unfolded exports_def, rule_format, of Init_exporter] assms(2)
    by (auto simp: Init_exporter_def)
  then show thesis using that by blast
qed

lemma four_is_primitive: "{4 :: TyIdx} \<subseteq> word_of_nat ` {..<PrimType_num PTY_end}"
  by (auto intro!: image_eqI [of _ _ 4])

theorem ImportExpression_OutputExpression_witness:
  "\<exists>x' i'. OutputExpression (xmod sample_modules) sample_expr Init_exporter = Some x' \<and>
     ImportExpression (imod sample_modules) (Reset_importer (xbuf x')) =
       Some (CompareNode OP_lt PTY_u1 PTY_i32
         (BinaryNode OP_add PTY_i32 (AddrofNode OP_dread PTY_i32 0 \<lparr>st_scope = 1, st_idx = 8\<rparr>)
                                    (ConstvalNode PTY_i32 (Some (IntConst 4 (- 200)))))
         (IreadNode OP_iread PTY_i32 90 (- 1) (IreadNode OP_iaddrof PTY_ptr 90 2 (RegreadNode PTY_ptr (- 3)))), i')"
proof -
  obtain k where k: "exports {4} k (OutputExpression (xmod sample_modules) sample_expr)" "k < 1000"
    using exports_sample_expr by blast
  obtain x' where x': "OutputExpression (xmod sample_modules) sample_expr Init_exporter = Some x'" "length (xbuf x') \<le> k"
    using exports_Init [OF k(1) four_is_primitive] .
  with k(2) have "\<exists>i'. ImportExpression (imod sample_modules) (Reset_importer (xbuf x')) =
      Some (img_expr sample_modules sample_expr, i') \<and> remaining i' = [] \<and> agrees sample_modules x' i'"
    by (intro ImportExpression_OutputExpression [OF sample_expr_ok x'(1) _ agrees_sample])
       (simp_all add: Init_exporter_def)
  then show ?thesis
    using x'(1) by (auto simp: sample_expr_def sample_simps img_type_def img_stidx_def Islocal_def)
qed

text \<open>
  An expression that the format has no case for (\<^verbatim>\<open>round\<close>,
  \<^verbatim>\<open>ireadoff\<close>, \<^verbatim>\<open>ireadfpoff\<close>, \<^verbatim>\<open>fieldsdist\<close>, \<^verbatim>\<open>conststr16\<close>,
  \<^verbatim>\<open>depositbits\<close>, \<^verbatim>\<open>stackmallocjarray\<close> and the forms made by the code generator) is exported without complaint, and
  every import of the file stops there.
\<close>

theorem ImportExpression_default_fatal:
  assumes "expr_class_of op = C_default" and "OutputExpression (xmod c) (OtherNode op ty es) x = Some x'"
    and "length (xbuf x') < 2 ^ 31" and "agrees c x i"
    and "remaining i = drop (length (xbuf x)) (xbuf x') @ rest"
  shows "ImportExpression (imod c) i = None"
proof -
  let ?p = "lastOutputSrcPosition x"
  let ?R = "\<lambda>i. do { (tag, i) \<leftarrow> ReadNum i; (b, i) \<leftarrow> ImportBaseNode i; Some ((tag, b), i) }"
  have h: "codes c ?p (\<lambda>x. do { x \<leftarrow> WriteNum kBinOpExpression x; OutputBaseNode op ty (word_of_nat (length es)) x })
      ?R (kBinOpExpression, op, ty, word_of_nat (length es)) ?p"
    by (rule codes_bind, rule codes_intros, rule codes_then, rule codes_intros) simp
  obtain x1 where x1: "do { x \<leftarrow> WriteNum kBinOpExpression x; OutputBaseNode op ty (word_of_nat (length es)) x } = Some x1"
      and x2: "write_all (OutputExpression (xmod c)) es x1 = Some x'"
    using assms(2) by (auto simp: Option.bind_eq_Some_conv)
  obtain bs1 where b1: "xbuf x1 = xbuf x @ bs1" using codes_append [OF h x1 HOL.refl] by blast
  obtain bs2 where b2: "xbuf x' = xbuf x1 @ bs2"
    using extends_write_all [of es "OutputExpression (xmod c)"] x2 grows_extends [OF grows_OutputExpression]
    unfolding extends_def by blast
  have "\<exists>i'. ?R i = Some ((kBinOpExpression, op, ty, word_of_nat (length es)), i') \<and> remaining i' = bs2 @ rest \<and> agrees c x1 i'"
    using b1 b2 assms(3,5) by (intro codes_round_trip [OF h x1 HOL.refl _ assms(4)]) auto
  then show ?thesis
    using assms(1) by (subst ImportExpression.simps) (auto simp: Option.bind_eq_Some_conv)
qed

theorem ImportExpression_default_fatal_witness:
  "\<exists>x'. OutputExpression (xmod sample_modules) (OtherNode OP_round PTY_i32 [RegreadNode PTY_f32 1]) Init_exporter = Some x' \<and>
     ImportExpression (imod sample_modules) (Reset_importer (xbuf x')) = None"
proof -
  let ?e = "OtherNode OP_round PTY_i32 [RegreadNode PTY_f32 1]"
  have "\<exists>k. exports {} k (OutputExpression (xmod sample_modules) ?e) \<and> k < 1000"
    unfolding OutputExpression.simps
    by (rule exI, rule conjI)
       ((rule exports_bind exports_WriteNum exports_OutputBaseNode exports_write_all_Cons exports_write_all_Nil | simp)+)
  then obtain k where k: "exports {} k (OutputExpression (xmod sample_modules) ?e)" "k < 1000" by blast
  obtain x' where x': "OutputExpression (xmod sample_modules) ?e Init_exporter = Some x'" "length (xbuf x') \<le> k"
    using exports_Init [OF k(1)] by blast
  have "ImportExpression (imod sample_modules) (Reset_importer (xbuf x')) = None"
    using x' k(2) by (intro ImportExpression_default_fatal [OF _ x'(1) _ agrees_sample, where rest = "[]"])
      (simp_all add: Init_exporter_def)
  then show ?thesis using x'(1) by blast
qed

text \<open>
  Strings are written once and then referred to by their mark: a sequence of
  strings, repeated ones included, is read back as it was written.
\<close>

theorem ImportStr_OutputStr:
  assumes "write_all OutputStr ss x = Some x'" and "length (xbuf x') < 2 ^ 31"
    and "agrees c x i" and "remaining i = drop (length (xbuf x)) (xbuf x') @ rest"
  shows "\<exists>i'. read_n (length ss) ImportStr i = Some (ss, i') \<and> remaining i' = rest \<and> agrees c x' i'"
proof -
  let ?p = "lastOutputSrcPosition x"
  have "codes c ?p (write_all OutputStr ss) (read_n (length ss) ImportStr)
      (img_all (\<lambda>p. id) (\<lambda>v p. p) ?p ss) (fold (\<lambda>v p. p) ss ?p)"
    by (rule codes_write_all) (simp add: codes_OutputStr)
  then have "codes c ?p (write_all OutputStr ss) (read_n (length ss) ImportStr) ss ?p"
    by (simp add: img_all_const [of ss _ id] fold_id)
  from codes_round_trip [OF this assms(1) _ assms(2-4)] show ?thesis by simp
qed

theorem ImportStr_OutputStr_witness:
  "\<exists>x' i'. write_all OutputStr [''x'', ''yy'', ''x''] Init_exporter = Some x' \<and>
     read_n 3 ImportStr (Reset_importer (xbuf x')) = Some ([''x'', ''yy'', ''x''], i') \<and> remaining i' = []"
proof -
  have "\<exists>k. exports {} k (write_all OutputStr [''x'', ''yy'', ''x'']) \<and> k < 1000"
    by (rule exI, rule conjI) ((rule exports_intros | simp)+)
  then obtain k where k: "exports {} k (write_all OutputStr [''x'', ''yy'', ''x''])" "k < 1000" by blast
  obtain x' where x': "write_all OutputStr [''x'', ''yy'', ''x''] Init_exporter = Some x'" "length (xbuf x') \<le> k"
    using exports_Init [OF k(1)] by blast
  have "\<exists>i'. read_n (length [''x'', ''yy'', ''x'']) ImportStr (Reset_importer (xbuf x')) = Some ([''x'', ''yy'', ''x''], i') \<and>
      remaining i' = [] \<and> agrees sample_modules x' i'"
    using x' k(2) by (intro ImportStr_OutputStr [OF x'(1) _ agrees_sample]) (simp_all add: Init_exporter_def)
  then show ?thesis using x'(1) by (auto simp: numeral_3_eq_3)
qed

end
