(* ===== verification/StmtOps.thy ===== *)
theory StmtOps
  imports BinExpr
begin

text \<open>
  The opcodes of statements (\<^verbatim>\<open>include/opcodes.def\<close>), their codes in the binary
  format, and the groups of case labels of \<^verbatim>\<open>ImportBlockNode\<close>.
\<close>

unbundle bit_operations_syntax

section \<open>Opcodes\<close>

text \<open>
  The opcodes of statements with their codes, and the groups of case labels in the
  \<^verbatim>\<open>switch\<close> of \<^verbatim>\<open>ImportBlockNode\<close>; both sides stop at an opcode of
  \<open>S_default\<close>.
\<close>

datatype (plugins only: size) StmtOp =
    OP_dassign | OP_regassign | OP_iassign | OP_call | OP_virtualcall | OP_virtualicall | OP_superclasscall
    | OP_interfacecall | OP_interfaceicall | OP_customcall | OP_polymorphiccall | OP_callassigned
    | OP_virtualcallassigned | OP_virtualicallassigned | OP_superclasscallassigned | OP_interfacecallassigned
    | OP_interfaceicallassigned | OP_customcallassigned | OP_polymorphiccallassigned | OP_icall
    | OP_icallassigned | OP_intrinsiccall | OP_xintrinsiccall | OP_intrinsiccallassigned
    | OP_xintrinsiccallassigned | OP_intrinsiccallwithtype | OP_intrinsiccallwithtypeassigned | OP_syncenter
    | OP_syncexit | OP_return | OP_jscatch | OP_cppcatch | OP_finally | OP_endtry | OP_cleanuptry | OP_retsub
    | OP_membaracquire | OP_membarrelease | OP_membarstorestore | OP_membarstoreload | OP_eval | OP_throw
    | OP_free | OP_decref | OP_incref | OP_decrefreset | OP_assertnonnull | OP_igoto | OP_label | OP_goto
    | OP_gosub | OP_brfalse | OP_brtrue | OP_switch | OP_jstry | OP_cpptry | OP_try | OP_catch | OP_comment
    | OP_dowhile | OP_while | OP_if | OP_block | OP_asm | OP_piassign | OP_maydassign | OP_doloop
    | OP_multiway | OP_foreachelem | OP_assertge | OP_assertlt | OP_iassignoff | OP_iassignfpoff
    | OP_rangegoto | OP_callinstant | OP_callinstantassigned | OP_virtualcallinstant
    | OP_virtualcallinstantassigned | OP_superclasscallinstant | OP_superclasscallinstantassigned
    | OP_interfacecallinstant | OP_interfacecallinstantassigned | OP_iassignpcoff | OP_checkpoint

primrec StmtOp_num :: "StmtOp \<Rightarrow> nat" where
  "StmtOp_num OP_dassign = 1"
| "StmtOp_num OP_regassign = 28"
| "StmtOp_num OP_iassign = 4"
| "StmtOp_num OP_call = 34"
| "StmtOp_num OP_virtualcall = 35"
| "StmtOp_num OP_virtualicall = 42"
| "StmtOp_num OP_superclasscall = 36"
| "StmtOp_num OP_interfacecall = 37"
| "StmtOp_num OP_interfaceicall = 41"
| "StmtOp_num OP_customcall = 38"
| "StmtOp_num OP_polymorphiccall = 39"
| "StmtOp_num OP_callassigned = 46"
| "StmtOp_num OP_virtualcallassigned = 47"
| "StmtOp_num OP_virtualicallassigned = 54"
| "StmtOp_num OP_superclasscallassigned = 48"
| "StmtOp_num OP_interfacecallassigned = 49"
| "StmtOp_num OP_interfaceicallassigned = 53"
| "StmtOp_num OP_customcallassigned = 50"
| "StmtOp_num OP_polymorphiccallassigned = 51"
| "StmtOp_num OP_icall = 40"
| "StmtOp_num OP_icallassigned = 52"
| "StmtOp_num OP_intrinsiccall = 43"
| "StmtOp_num OP_xintrinsiccall = 45"
| "StmtOp_num OP_intrinsiccallassigned = 55"
| "StmtOp_num OP_xintrinsiccallassigned = 57"
| "StmtOp_num OP_intrinsiccallwithtype = 44"
| "StmtOp_num OP_intrinsiccallwithtypeassigned = 56"
| "StmtOp_num OP_syncenter = 78"
| "StmtOp_num OP_syncexit = 79"
| "StmtOp_num OP_return = 32"
| "StmtOp_num OP_jscatch = 70"
| "StmtOp_num OP_cppcatch = 72"
| "StmtOp_num OP_finally = 73"
| "StmtOp_num OP_endtry = 75"
| "StmtOp_num OP_cleanuptry = 74"
| "StmtOp_num OP_retsub = 77"
| "StmtOp_num OP_membaracquire = 83"
| "StmtOp_num OP_membarrelease = 84"
| "StmtOp_num OP_membarstorestore = 86"
| "StmtOp_num OP_membarstoreload = 85"
| "StmtOp_num OP_eval = 14"
| "StmtOp_num OP_throw = 69"
| "StmtOp_num OP_free = 15"
| "StmtOp_num OP_decref = 80"
| "StmtOp_num OP_incref = 81"
| "StmtOp_num OP_decrefreset = 82"
| "StmtOp_num OP_assertnonnull = 18"
| "StmtOp_num OP_igoto = 156"
| "StmtOp_num OP_label = 87"
| "StmtOp_num OP_goto = 29"
| "StmtOp_num OP_gosub = 76"
| "StmtOp_num OP_brfalse = 30"
| "StmtOp_num OP_brtrue = 31"
| "StmtOp_num OP_switch = 10"
| "StmtOp_num OP_jstry = 66"
| "StmtOp_num OP_cpptry = 68"
| "StmtOp_num OP_try = 67"
| "StmtOp_num OP_catch = 71"
| "StmtOp_num OP_comment = 13"
| "StmtOp_num OP_dowhile = 7"
| "StmtOp_num OP_while = 9"
| "StmtOp_num OP_if = 8"
| "StmtOp_num OP_block = 5"
| "StmtOp_num OP_asm = 157"
| "StmtOp_num OP_piassign = 2"
| "StmtOp_num OP_maydassign = 3"
| "StmtOp_num OP_doloop = 6"
| "StmtOp_num OP_multiway = 11"
| "StmtOp_num OP_foreachelem = 12"
| "StmtOp_num OP_assertge = 16"
| "StmtOp_num OP_assertlt = 17"
| "StmtOp_num OP_iassignoff = 26"
| "StmtOp_num OP_iassignfpoff = 27"
| "StmtOp_num OP_rangegoto = 33"
| "StmtOp_num OP_callinstant = 58"
| "StmtOp_num OP_callinstantassigned = 59"
| "StmtOp_num OP_virtualcallinstant = 60"
| "StmtOp_num OP_virtualcallinstantassigned = 61"
| "StmtOp_num OP_superclasscallinstant = 62"
| "StmtOp_num OP_superclasscallinstantassigned = 63"
| "StmtOp_num OP_interfacecallinstant = 64"
| "StmtOp_num OP_interfacecallinstantassigned = 65"
| "StmtOp_num OP_iassignpcoff = 152"
| "StmtOp_num OP_checkpoint = 154"

definition StmtOp_enum :: "StmtOp list" where
  "StmtOp_enum =
     [OP_dassign, OP_regassign, OP_iassign, OP_call, OP_virtualcall, OP_virtualicall, OP_superclasscall
      , OP_interfacecall, OP_interfaceicall, OP_customcall, OP_polymorphiccall, OP_callassigned
      , OP_virtualcallassigned, OP_virtualicallassigned, OP_superclasscallassigned, OP_interfacecallassigned
      , OP_interfaceicallassigned, OP_customcallassigned, OP_polymorphiccallassigned, OP_icall
      , OP_icallassigned, OP_intrinsiccall, OP_xintrinsiccall, OP_intrinsiccallassigned
      , OP_xintrinsiccallassigned, OP_intrinsiccallwithtype, OP_intrinsiccallwithtypeassigned, OP_syncenter
      , OP_syncexit, OP_return, OP_jscatch, OP_cppcatch, OP_finally, OP_endtry, OP_cleanuptry, OP_retsub
      , OP_membaracquire, OP_membarrelease, OP_membarstorestore, OP_membarstoreload, OP_eval, OP_throw
      , OP_free, OP_decref, OP_incref, OP_decrefreset, OP_assertnonnull, OP_igoto, OP_label, OP_goto, OP_gosub
      , OP_brfalse, OP_brtrue, OP_switch, OP_jstry, OP_cpptry, OP_try, OP_catch, OP_comment, OP_dowhile
      , OP_while, OP_if, OP_block, OP_asm, OP_piassign, OP_maydassign, OP_doloop, OP_multiway, OP_foreachelem
      , OP_assertge, OP_assertlt, OP_iassignoff, OP_iassignfpoff, OP_rangegoto, OP_callinstant
      , OP_callinstantassigned, OP_virtualcallinstant, OP_virtualcallinstantassigned, OP_superclasscallinstant
      , OP_superclasscallinstantassigned, OP_interfacecallinstant, OP_interfacecallinstantassigned
      , OP_iassignpcoff, OP_checkpoint]"

definition StmtOp_of :: "nat \<Rightarrow> StmtOp option" where
  "StmtOp_of n = find (\<lambda>op. StmtOp_num op = n) StmtOp_enum"

datatype (plugins only: size) stmt_class =
    S_dassign | S_regassign | S_iassign | S_call | S_polymorphiccall | S_callassigned
    | S_polymorphiccallassigned | S_icall | S_icallassigned | S_intrinsiccall | S_intrinsiccallassigned
    | S_intrinsiccallwithtype | S_intrinsiccallwithtypeassigned | S_nary | S_plain | S_unary | S_label
    | S_goto | S_condgoto | S_switch | S_jstry | S_try | S_catch | S_comment | S_while | S_if | S_block
    | S_asm | S_default

primrec stmt_class_of :: "StmtOp \<Rightarrow> stmt_class" where
  "stmt_class_of OP_dassign = S_dassign"
| "stmt_class_of OP_regassign = S_regassign"
| "stmt_class_of OP_iassign = S_iassign"
| "stmt_class_of OP_call = S_call"
| "stmt_class_of OP_virtualcall = S_call"
| "stmt_class_of OP_virtualicall = S_call"
| "stmt_class_of OP_superclasscall = S_call"
| "stmt_class_of OP_interfacecall = S_call"
| "stmt_class_of OP_interfaceicall = S_call"
| "stmt_class_of OP_customcall = S_call"
| "stmt_class_of OP_polymorphiccall = S_polymorphiccall"
| "stmt_class_of OP_callassigned = S_callassigned"
| "stmt_class_of OP_virtualcallassigned = S_callassigned"
| "stmt_class_of OP_virtualicallassigned = S_callassigned"
| "stmt_class_of OP_superclasscallassigned = S_callassigned"
| "stmt_class_of OP_interfacecallassigned = S_callassigned"
| "stmt_class_of OP_interfaceicallassigned = S_callassigned"
| "stmt_class_of OP_customcallassigned = S_callassigned"
| "stmt_class_of OP_polymorphiccallassigned = S_polymorphiccallassigned"
| "stmt_class_of OP_icall = S_icall"
| "stmt_class_of OP_icallassigned = S_icallassigned"
| "stmt_class_of OP_intrinsiccall = S_intrinsiccall"
| "stmt_class_of OP_xintrinsiccall = S_intrinsiccall"
| "stmt_class_of OP_intrinsiccallassigned = S_intrinsiccallassigned"
| "stmt_class_of OP_xintrinsiccallassigned = S_intrinsiccallassigned"
| "stmt_class_of OP_intrinsiccallwithtype = S_intrinsiccallwithtype"
| "stmt_class_of OP_intrinsiccallwithtypeassigned = S_intrinsiccallwithtypeassigned"
| "stmt_class_of OP_syncenter = S_nary"
| "stmt_class_of OP_syncexit = S_nary"
| "stmt_class_of OP_return = S_nary"
| "stmt_class_of OP_jscatch = S_plain"
| "stmt_class_of OP_cppcatch = S_plain"
| "stmt_class_of OP_finally = S_plain"
| "stmt_class_of OP_endtry = S_plain"
| "stmt_class_of OP_cleanuptry = S_plain"
| "stmt_class_of OP_retsub = S_plain"
| "stmt_class_of OP_membaracquire = S_plain"
| "stmt_class_of OP_membarrelease = S_plain"
| "stmt_class_of OP_membarstorestore = S_plain"
| "stmt_class_of OP_membarstoreload = S_plain"
| "stmt_class_of OP_eval = S_unary"
| "stmt_class_of OP_throw = S_unary"
| "stmt_class_of OP_free = S_unary"
| "stmt_class_of OP_decref = S_unary"
| "stmt_class_of OP_incref = S_unary"
| "stmt_class_of OP_decrefreset = S_unary"
| "stmt_class_of OP_assertnonnull = S_unary"
| "stmt_class_of OP_igoto = S_unary"
| "stmt_class_of OP_label = S_label"
| "stmt_class_of OP_goto = S_goto"
| "stmt_class_of OP_gosub = S_goto"
| "stmt_class_of OP_brfalse = S_condgoto"
| "stmt_class_of OP_brtrue = S_condgoto"
| "stmt_class_of OP_switch = S_switch"
| "stmt_class_of OP_jstry = S_jstry"
| "stmt_class_of OP_cpptry = S_try"
| "stmt_class_of OP_try = S_try"
| "stmt_class_of OP_catch = S_catch"
| "stmt_class_of OP_comment = S_comment"
| "stmt_class_of OP_dowhile = S_while"
| "stmt_class_of OP_while = S_while"
| "stmt_class_of OP_if = S_if"
| "stmt_class_of OP_block = S_block"
| "stmt_class_of OP_asm = S_asm"
| "stmt_class_of OP_piassign = S_default"
| "stmt_class_of OP_maydassign = S_default"
| "stmt_class_of OP_doloop = S_default"
| "stmt_class_of OP_multiway = S_default"
| "stmt_class_of OP_foreachelem = S_default"
| "stmt_class_of OP_assertge = S_default"
| "stmt_class_of OP_assertlt = S_default"
| "stmt_class_of OP_iassignoff = S_default"
| "stmt_class_of OP_iassignfpoff = S_default"
| "stmt_class_of OP_rangegoto = S_default"
| "stmt_class_of OP_callinstant = S_default"
| "stmt_class_of OP_callinstantassigned = S_default"
| "stmt_class_of OP_virtualcallinstant = S_default"
| "stmt_class_of OP_virtualcallinstantassigned = S_default"
| "stmt_class_of OP_superclasscallinstant = S_default"
| "stmt_class_of OP_superclasscallinstantassigned = S_default"
| "stmt_class_of OP_interfacecallinstant = S_default"
| "stmt_class_of OP_interfacecallinstantassigned = S_default"
| "stmt_class_of OP_iassignpcoff = S_default"
| "stmt_class_of OP_checkpoint = S_default"

lemma StmtOp_of_num [simp]: "StmtOp_of (StmtOp_num op) = Some op"
  by (cases op) (simp_all add: StmtOp_of_def StmtOp_enum_def)

lemma StmtOp_num_less: "StmtOp_num op < 256"
  by (cases op) simp_all

definition write_stmt_op :: "StmtOp \<Rightarrow> exporter \<Rightarrow> exporter option" where
  "write_stmt_op op x = WriteNum (word_of_nat (StmtOp_num op)) x"

definition read_stmt_op :: "importer \<Rightarrow> (StmtOp \<times> importer) option" where
  "read_stmt_op i = do { (n, i) \<leftarrow> ReadNum i; op \<leftarrow> StmtOp_of (count8 n); Some (op, i) }"

lemma codes_write_stmt_op [codes_intros]: "codes c p (write_stmt_op op) read_stmt_op op p"
  unfolding write_stmt_op_def read_stmt_op_def
  by (rule codes_then [OF codes_WriteNum]) (simp add: count8_of_nat StmtOp_num_less)

lemma grows_write_stmt_op [grows_intros]: "grows (write_stmt_op op)"
  unfolding write_stmt_op_def by (rule grows_WriteNum)

end
