(* ===== verification/BinStmt.thy ===== *)
theory BinStmt
  imports StmtOps "HOL-Library.Sublist"
begin

text \<open>
  Export and import of statements and blocks (\<^verbatim>\<open>OutputBlockNode\<close> in
  \<^verbatim>\<open>src/bin_func_export.cpp\<close>, \<^verbatim>\<open>ImportBlockNode\<close> in
  \<^verbatim>\<open>src/bin_func_import.cpp\<close>), with the source positions: a statement without a
  position is written with the last one. The number of statements of a block is
  patched into the buffer after they are written.
\<close>

unbundle bit_operations_syntax

section \<open>Statements\<close>

type_synonym CallReturnPair = "StIdx \<times> FieldID \<times> PregIdx"

text \<open>
  One constructor per node class, the opcode first where the class serves several. The
  primitive type of an intrinsic call is not written and is recomputed from the type of
  the returned symbol; the exception type of \<^verbatim>\<open>cppcatch\<close> is not written at all;
  neither is a field here, and no round trip is claimed for \<^verbatim>\<open>cppcatch\<close>. A nested block is a
  statement whose position is the block's.
\<close>

datatype StmtNode =
    DassignNode FieldID StIdx BaseNode
  | RegassignNode PrimType PregIdx BaseNode
  | IassignNode TyIdx FieldID BaseNode BaseNode
  | CallNode StmtOp PUIdx TyIdx "CallReturnPair list" "BaseNode list"
  | IcallNode StmtOp TyIdx "CallReturnPair list" "BaseNode list"
  | IntrinsiccallNode StmtOp uint32 TyIdx "CallReturnPair list" "BaseNode list"
  | NaryStmtNode StmtOp "BaseNode list"
  | PlainStmtNode StmtOp
  | UnaryStmtNode StmtOp BaseNode
  | LabelNode LabelIdx
  | GotoNode StmtOp uint32
  | CondGotoNode StmtOp uint32 BaseNode
  | SwitchStmtNode LabelIdx "(int64 \<times> LabelIdx) list" BaseNode
  | JsTryNode uint16 uint16
  | TryNode StmtOp "LabelIdx list"
  | CatchNode "TyIdx list"
  | CommentNode string
  | AsmNode uint32 string "CallReturnPair list" "string list" "string list" "LabelIdx list" "string list" "BaseNode list"
  | WhileStmtNode StmtOp BlockNode BaseNode
  | IfStmtNode BlockNode "BlockNode option" BaseNode
  | BlockStmt "(SrcPosition \<times> StmtNode) list"
  | OtherStmtNode StmtOp
and BlockNode = Block (block_pos: SrcPosition) (block_stmts: "(SrcPosition \<times> StmtNode) list")

fun stmt_op :: "StmtNode \<Rightarrow> StmtOp" where
  "stmt_op (DassignNode _ _ _) = OP_dassign"
| "stmt_op (RegassignNode _ _ _) = OP_regassign"
| "stmt_op (IassignNode _ _ _ _) = OP_iassign"
| "stmt_op (CallNode op _ _ _ _) = op"
| "stmt_op (IcallNode op _ _ _) = op"
| "stmt_op (IntrinsiccallNode op _ _ _ _) = op"
| "stmt_op (NaryStmtNode op _) = op"
| "stmt_op (PlainStmtNode op) = op"
| "stmt_op (UnaryStmtNode op _) = op"
| "stmt_op (LabelNode _) = OP_label"
| "stmt_op (GotoNode op _) = op"
| "stmt_op (CondGotoNode op _ _) = op"
| "stmt_op (SwitchStmtNode _ _ _) = OP_switch"
| "stmt_op (JsTryNode _ _) = OP_jstry"
| "stmt_op (TryNode op _) = op"
| "stmt_op (CatchNode _) = OP_catch"
| "stmt_op (CommentNode _) = OP_comment"
| "stmt_op (AsmNode _ _ _ _ _ _ _ _) = OP_asm"
| "stmt_op (WhileStmtNode op _ _) = op"
| "stmt_op (IfStmtNode _ _ _) = OP_if"
| "stmt_op (BlockStmt _) = OP_block"
| "stmt_op (OtherStmtNode op) = op"

abbreviation (input) kBinNodeBlock :: int64 where "kBinNodeBlock \<equiv> 43"
abbreviation (input) kBinOpStatement :: int64 where "kBinOpStatement \<equiv> 44"
abbreviation (input) kBinReturnvals :: int64 where "kBinReturnvals \<equiv> 46"
abbreviation (input) kScopeLocal :: uint8 where "kScopeLocal \<equiv> 2"

subsection \<open>Source positions and return values\<close>

definition OutputSrcPos :: "SrcPosition \<Rightarrow> exporter \<Rightarrow> exporter option" where
  "OutputSrcPos pos x =
     (if FileNum pos = 0 \<or> LineNum pos = 0
      then do {
        y \<leftarrow> WriteNum (ucast (RawData (lastOutputSrcPosition x))) x;
        WriteNum (ucast (LineNum (lastOutputSrcPosition x))) y }
      else do {
        x \<leftarrow> WriteNum (ucast (RawData pos)) x;
        x \<leftarrow> WriteNum (ucast (LineNum pos)) x;
        Some (x\<lparr>lastOutputSrcPosition := pos\<rparr>) })"

definition ImportSrcPos :: "importer \<Rightarrow> (SrcPosition \<times> importer) option" where
  "ImportSrcPos i = do {
     (r, i) \<leftarrow> ReadNum i; (l, i) \<leftarrow> ReadNum i; Some (\<lparr>RawData = ucast r, LineNum = ucast l\<rparr>, i) }"

definition output_return_value :: "CallReturnPair \<Rightarrow> exporter \<Rightarrow> exporter option" where
  "output_return_value r x = do {
     x \<leftarrow> WriteNum (ucast (st_idx (fst r))) x;
     x \<leftarrow> WriteNum (scast (fst (snd r))) x;
     WriteNum (scast (snd (snd r))) x }"

definition OutputReturnValues :: "CallReturnPair list \<Rightarrow> exporter \<Rightarrow> exporter option" where
  "OutputReturnValues rs x = do { x \<leftarrow> WriteNum kBinReturnvals x; write_counted output_return_value rs x }"

text \<open>A returned symbol whose name starts with \<^verbatim>\<open>L_STR\<close> gets a pointer type of its own.\<close>

definition import_return_value :: "imodule \<Rightarrow> importer \<Rightarrow> (CallReturnPair \<times> importer) option" where
  "import_return_value m i = do {
     (idx, i) \<leftarrow> ReadNum i; (fid, i) \<leftarrow> ReadNum i; (ridx, i) \<leftarrow> ReadNum i;
     let idx = (ucast idx :: uint32); r = (\<lparr>st_scope = kScopeLocal, st_idx = ucast idx\<rparr>, ucast fid, ucast ridx) in
     if idx = 0 then Some (r, i)
     else do {
       (nm, ptr) \<leftarrow> localSym m idx;
       if prefix ''L_STR'' nm
       then (if ptr then Some (r, i\<lparr>retypedLocals := idx # retypedLocals i\<rparr>) else None)
       else Some (r, i) } }"

definition ImportReturnValues :: "imodule \<Rightarrow> importer \<Rightarrow> (CallReturnPair list \<times> importer) option" where
  "ImportReturnValues m i = do {
     (tag, i) \<leftarrow> ReadNum i;
     if tag \<noteq> kBinReturnvals then None else read_counted count32 (import_return_value m) i }"

subsection \<open>Statements without blocks\<close>

text \<open>A \<^verbatim>\<open>MapleString\<close> goes through its \<^verbatim>\<open>c_str()\<close>.\<close>

definition c_str :: "string \<Rightarrow> string" where
  "c_str s = takeWhile (\<lambda>ch. ch \<noteq> CHR 0x00) s"

definition is_assigned :: "StmtOp \<Rightarrow> bool" where
  "is_assigned op \<longleftrightarrow>
     (case stmt_class_of op of
        S_callassigned \<Rightarrow> True | S_polymorphiccallassigned \<Rightarrow> True | S_icallassigned \<Rightarrow> True
      | S_intrinsiccallassigned \<Rightarrow> True | S_intrinsiccallwithtypeassigned \<Rightarrow> True | _ \<Rightarrow> False)"

definition has_type :: "StmtOp \<Rightarrow> bool" where
  "has_type op \<longleftrightarrow>
     (case stmt_class_of op of
        S_polymorphiccall \<Rightarrow> True | S_polymorphiccallassigned \<Rightarrow> True
      | S_intrinsiccallwithtype \<Rightarrow> True | S_intrinsiccallwithtypeassigned \<Rightarrow> True | _ \<Rightarrow> False)"

text \<open>What \<^verbatim>\<open>OutputBlockNode\<close> writes after the opcode of a statement without blocks.\<close>

fun output_fields :: "xmodule \<Rightarrow> StmtNode \<Rightarrow> exporter \<Rightarrow> exporter option" where
  "output_fields m (DassignNode fid st e) = (\<lambda>x. do {
     x \<leftarrow> WriteNum (scast fid) x; x \<leftarrow> output_stidx m st x; OutputExpression m e x })"
| "output_fields m (RegassignNode ty r e) = (\<lambda>x. do {
     x \<leftarrow> write_prim ty x; x \<leftarrow> WriteNum (scast r) x; OutputExpression m e x })"
| "output_fields m (IassignNode tid fid a e) = (\<lambda>x. do {
     x \<leftarrow> OutputTypeViaTypeName m tid x; x \<leftarrow> WriteNum (scast fid) x;
     x \<leftarrow> OutputExpression m a x; OutputExpression m e x })"
| "output_fields m (CallNode op pu tid rs es) = (\<lambda>x. do {
     x \<leftarrow> OutputFuncViaSymName m pu x;
     x \<leftarrow> (if has_type op then OutputTypeViaTypeName m tid x else Some x);
     x \<leftarrow> (if is_assigned op then OutputReturnValues rs x else Some x);
     write_counted (OutputExpression m) es x })"
| "output_fields m (IcallNode op tid rs es) = (\<lambda>x. do {
     x \<leftarrow> OutputTypeViaTypeName m tid x;
     x \<leftarrow> (if is_assigned op then OutputReturnValues rs x else Some x);
     write_counted (OutputExpression m) es x })"
| "output_fields m (IntrinsiccallNode op intrn tid rs es) = (\<lambda>x. do {
     x \<leftarrow> WriteNum (ucast intrn) x;
     x \<leftarrow> (if has_type op then OutputTypeViaTypeName m tid x else Some x);
     x \<leftarrow> (if is_assigned op then OutputReturnValues rs x else Some x);
     write_counted (OutputExpression m) es x })"
| "output_fields m (NaryStmtNode op es) = write_counted (OutputExpression m) es"
| "output_fields m (PlainStmtNode op) = Some"
| "output_fields m (UnaryStmtNode op e) = OutputExpression m e"
| "output_fields m (LabelNode l) = WriteNum (ucast l)"
| "output_fields m (GotoNode op l) = WriteNum (ucast l)"
| "output_fields m (CondGotoNode op l e) = (\<lambda>x. do { x \<leftarrow> WriteNum (ucast l) x; OutputExpression m e x })"
| "output_fields m (SwitchStmtNode dflt tab e) = (\<lambda>x. do {
     x \<leftarrow> WriteNum (ucast dflt) x;
     x \<leftarrow> write_counted (\<lambda>cp x. do { x \<leftarrow> WriteNum (fst cp) x; WriteNum (ucast (snd cp)) x }) tab x;
     OutputExpression m e x })"
| "output_fields m (JsTryNode ca fi) = (\<lambda>x. do { x \<leftarrow> WriteNum (ucast ca) x; WriteNum (ucast fi) x })"
| "output_fields m (TryNode op ls) = write_counted (\<lambda>l. WriteNum (ucast l)) ls"
| "output_fields m (CatchNode tids) = write_counted (OutputTypeViaTypeName m) tids"
| "output_fields m (CommentNode s) = WriteAsciiStr (c_str s)"
| "output_fields m (AsmNode q s outs oc clob ls ic es) = (\<lambda>x.
     if length oc < length outs \<or> length ic < length es mod 256 then None
     else do {
       x \<leftarrow> WriteNum (ucast q) x;
       x \<leftarrow> WriteAsciiStr (c_str s) x;
       x \<leftarrow> write_counted OutputUsrStr (take (length outs) oc) x;
       x \<leftarrow> OutputReturnValues outs x;
       x \<leftarrow> write_counted OutputUsrStr clob x;
       x \<leftarrow> write_counted (\<lambda>l. WriteNum (ucast l)) ls x;
       x \<leftarrow> WriteNum (word_of_nat (length es)) x;
       x \<leftarrow> write_all OutputUsrStr (take (length es mod 256) ic) x;
       write_all (OutputExpression m) es x })"
| "output_fields m (WhileStmtNode op b e) = (\<lambda>x. None)"
| "output_fields m (IfStmtNode t el e) = (\<lambda>x. None)"
| "output_fields m (BlockStmt b) = (\<lambda>x. None)"
| "output_fields m (OtherStmtNode op) = (\<lambda>x. None)"

abbreviation import_args :: "imodule \<Rightarrow> importer \<Rightarrow> (BaseNode list \<times> importer) option" where
  "import_args m \<equiv> read_counted count8 (ImportExpression m)"

text \<open>The cases of \<^verbatim>\<open>ImportBlockNode\<close> for the statements without blocks, one definition per node class.\<close>

definition import_dassign :: "imodule \<Rightarrow> importer \<Rightarrow> (StmtNode \<times> importer) option" where
  "import_dassign m = (\<lambda>i. do {
     (fid, i) \<leftarrow> ReadNum i; (st, i) \<leftarrow> import_stidx m True i; (e, i) \<leftarrow> ImportExpression m i;
     Some (DassignNode (ucast fid) st e, i) })"

definition import_regassign :: "imodule \<Rightarrow> importer \<Rightarrow> (StmtNode \<times> importer) option" where
  "import_regassign m = (\<lambda>i. do {
     (ty, i) \<leftarrow> read_prim i; (r, i) \<leftarrow> ReadNum i; (e, i) \<leftarrow> ImportExpression m i;
     Some (RegassignNode ty (ucast r) e, i) })"

definition import_iassign :: "imodule \<Rightarrow> importer \<Rightarrow> (StmtNode \<times> importer) option" where
  "import_iassign m = (\<lambda>i. do {
     (tid, i) \<leftarrow> ImportType m i; (fid, i) \<leftarrow> ReadNum i;
     (a, i) \<leftarrow> ImportExpression m i; (e, i) \<leftarrow> ImportExpression m i;
     Some (IassignNode tid (ucast fid) a e, i) })"

definition import_call :: "imodule \<Rightarrow> StmtOp \<Rightarrow> importer \<Rightarrow> (StmtNode \<times> importer) option" where
  "import_call m op = (\<lambda>i. do {
     (pu, i) \<leftarrow> ImportFuncViaSymName m i; (es, i) \<leftarrow> import_args m i; Some (CallNode op pu 0 [] es, i) })"

definition import_callassigned :: "imodule \<Rightarrow> StmtOp \<Rightarrow> importer \<Rightarrow> (StmtNode \<times> importer) option" where
  "import_callassigned m op = (\<lambda>i. do {
     (pu, i) \<leftarrow> ImportFuncViaSymName m i; (rs, i) \<leftarrow> ImportReturnValues m i; (es, i) \<leftarrow> import_args m i;
     Some (CallNode op pu 0 rs es, i) })"

definition import_polymorphiccall :: "imodule \<Rightarrow> StmtOp \<Rightarrow> importer \<Rightarrow> (StmtNode \<times> importer) option" where
  "import_polymorphiccall m op = (\<lambda>i. do {
     (pu, i) \<leftarrow> ImportFuncViaSymName m i; (tid, i) \<leftarrow> ImportType m i; (es, i) \<leftarrow> import_args m i;
     Some (CallNode op pu tid [] es, i) })"

definition import_polymorphiccallassigned :: "imodule \<Rightarrow> StmtOp \<Rightarrow> importer \<Rightarrow> (StmtNode \<times> importer) option" where
  "import_polymorphiccallassigned m op = (\<lambda>i. do {
     (pu, i) \<leftarrow> ImportFuncViaSymName m i; (tid, i) \<leftarrow> ImportType m i; (rs, i) \<leftarrow> ImportReturnValues m i;
     (es, i) \<leftarrow> import_args m i;
     Some (CallNode op pu tid rs es, i) })"

definition import_icall :: "imodule \<Rightarrow> StmtOp \<Rightarrow> importer \<Rightarrow> (StmtNode \<times> importer) option" where
  "import_icall m op = (\<lambda>i. do {
     (tid, i) \<leftarrow> ImportType m i; (es, i) \<leftarrow> import_args m i; Some (IcallNode op tid [] es, i) })"

definition import_icallassigned :: "imodule \<Rightarrow> StmtOp \<Rightarrow> importer \<Rightarrow> (StmtNode \<times> importer) option" where
  "import_icallassigned m op = (\<lambda>i. do {
     (tid, i) \<leftarrow> ImportType m i; (rs, i) \<leftarrow> ImportReturnValues m i; (es, i) \<leftarrow> import_args m i;
     Some (IcallNode op tid rs es, i) })"

definition import_intrinsiccall :: "imodule \<Rightarrow> StmtOp \<Rightarrow> importer \<Rightarrow> (StmtNode \<times> importer) option" where
  "import_intrinsiccall m op = (\<lambda>i. do {
     (intrn, i) \<leftarrow> ReadNum i; (es, i) \<leftarrow> import_args m i;
     Some (IntrinsiccallNode op (ucast intrn) 0 [] es, i) })"

definition import_intrinsiccallassigned :: "imodule \<Rightarrow> StmtOp \<Rightarrow> importer \<Rightarrow> (StmtNode \<times> importer) option" where
  "import_intrinsiccallassigned m op = (\<lambda>i. do {
     (intrn, i) \<leftarrow> ReadNum i; (rs, i) \<leftarrow> ImportReturnValues m i; (es, i) \<leftarrow> import_args m i;
     Some (IntrinsiccallNode op (ucast intrn) 0 rs es, i) })"

definition import_intrinsiccallwithtype :: "imodule \<Rightarrow> StmtOp \<Rightarrow> importer \<Rightarrow> (StmtNode \<times> importer) option" where
  "import_intrinsiccallwithtype m op = (\<lambda>i. do {
     (intrn, i) \<leftarrow> ReadNum i; (tid, i) \<leftarrow> ImportType m i; (es, i) \<leftarrow> import_args m i;
     Some (IntrinsiccallNode op (ucast intrn) tid [] es, i) })"

definition import_intrinsiccallwithtypeassigned :: "imodule \<Rightarrow> StmtOp \<Rightarrow> importer \<Rightarrow> (StmtNode \<times> importer) option" where
  "import_intrinsiccallwithtypeassigned m op = (\<lambda>i. do {
     (intrn, i) \<leftarrow> ReadNum i; (tid, i) \<leftarrow> ImportType m i; (rs, i) \<leftarrow> ImportReturnValues m i;
     (es, i) \<leftarrow> import_args m i;
     Some (IntrinsiccallNode op (ucast intrn) tid rs es, i) })"

definition import_nary :: "imodule \<Rightarrow> StmtOp \<Rightarrow> importer \<Rightarrow> (StmtNode \<times> importer) option" where
  "import_nary m op = (\<lambda>i. do { (es, i) \<leftarrow> import_args m i; Some (NaryStmtNode op es, i) })"

definition import_unary :: "imodule \<Rightarrow> StmtOp \<Rightarrow> importer \<Rightarrow> (StmtNode \<times> importer) option" where
  "import_unary m op = (\<lambda>i. do { (e, i) \<leftarrow> ImportExpression m i; Some (UnaryStmtNode op e, i) })"

definition import_label :: "importer \<Rightarrow> (StmtNode \<times> importer) option" where
  "import_label = (\<lambda>i. do { (l, i) \<leftarrow> ReadNum i; Some (LabelNode (ucast l), i) })"

definition import_goto :: "StmtOp \<Rightarrow> importer \<Rightarrow> (StmtNode \<times> importer) option" where
  "import_goto op = (\<lambda>i. do { (l, i) \<leftarrow> ReadNum i; Some (GotoNode op (ucast l), i) })"

definition import_condgoto :: "imodule \<Rightarrow> StmtOp \<Rightarrow> importer \<Rightarrow> (StmtNode \<times> importer) option" where
  "import_condgoto m op = (\<lambda>i. do {
     (l, i) \<leftarrow> ReadNum i; (e, i) \<leftarrow> ImportExpression m i; Some (CondGotoNode op (ucast l) e, i) })"

definition import_switch :: "imodule \<Rightarrow> importer \<Rightarrow> (StmtNode \<times> importer) option" where
  "import_switch m = (\<lambda>i. do {
     (dflt, i) \<leftarrow> ReadNum i;
     (tab, i) \<leftarrow> read_counted count32
        (\<lambda>i. do { (t, i) \<leftarrow> ReadNum i; (l, i) \<leftarrow> ReadNum i; Some ((t, ucast l :: LabelIdx), i) }) i;
     (e, i) \<leftarrow> ImportExpression m i;
     Some (SwitchStmtNode (ucast dflt) tab e, i) })"

definition import_jstry :: "importer \<Rightarrow> (StmtNode \<times> importer) option" where
  "import_jstry = (\<lambda>i. do {
     (ca, i) \<leftarrow> ReadNum i; (fi, i) \<leftarrow> ReadNum i; Some (JsTryNode (ucast ca) (ucast fi), i) })"

text \<open>The constructor of \<^verbatim>\<open>TryNode\<close> gives it the opcode \<^verbatim>\<open>try\<close>.\<close>

definition import_try :: "importer \<Rightarrow> (StmtNode \<times> importer) option" where
  "import_try = (\<lambda>i. do {
     (ls, i) \<leftarrow> read_counted count32 (\<lambda>i. do { (l, i) \<leftarrow> ReadNum i; Some (ucast l :: LabelIdx, i) }) i;
     Some (TryNode OP_try ls, i) })"

definition import_catch :: "imodule \<Rightarrow> importer \<Rightarrow> (StmtNode \<times> importer) option" where
  "import_catch m = (\<lambda>i. do { (tids, i) \<leftarrow> read_counted count32 (ImportType m) i; Some (CatchNode tids, i) })"

definition import_comment :: "importer \<Rightarrow> (StmtNode \<times> importer) option" where
  "import_comment = (\<lambda>i. do { (s, i) \<leftarrow> ReadAsciiStr i; Some (CommentNode s, i) })"

definition import_asm :: "imodule \<Rightarrow> importer \<Rightarrow> (StmtNode \<times> importer) option" where
  "import_asm m = (\<lambda>i. do {
     (q, i) \<leftarrow> ReadNum i;
     (s, i) \<leftarrow> ReadAsciiStr i;
     (oc, i) \<leftarrow> read_counted unat ImportUsrStr i;
     (outs, i) \<leftarrow> ImportReturnValues m i;
     (clob, i) \<leftarrow> read_counted unat ImportUsrStr i;
     (ls, i) \<leftarrow> read_counted unat (\<lambda>i. do { (l, i) \<leftarrow> ReadNum i; Some (ucast l :: LabelIdx, i) }) i;
     (ic, i) \<leftarrow> read_counted count8 ImportUsrStr i;
     (es, i) \<leftarrow> read_n (length ic) (ImportExpression m) i;
     Some (AsmNode (ucast q) s outs oc clob ls ic es, i) })"

definition import_fields :: "imodule \<Rightarrow> StmtOp \<Rightarrow> importer \<Rightarrow> (StmtNode \<times> importer) option" where
  "import_fields m op =
     (case stmt_class_of op of
        S_dassign \<Rightarrow> import_dassign m
      | S_regassign \<Rightarrow> import_regassign m
      | S_iassign \<Rightarrow> import_iassign m
      | S_call \<Rightarrow> import_call m op
      | S_callassigned \<Rightarrow> import_callassigned m op
      | S_polymorphiccall \<Rightarrow> import_polymorphiccall m op
      | S_polymorphiccallassigned \<Rightarrow> import_polymorphiccallassigned m op
      | S_icall \<Rightarrow> import_icall m op
      | S_icallassigned \<Rightarrow> import_icallassigned m op
      | S_intrinsiccall \<Rightarrow> import_intrinsiccall m op
      | S_intrinsiccallassigned \<Rightarrow> import_intrinsiccallassigned m op
      | S_intrinsiccallwithtype \<Rightarrow> import_intrinsiccallwithtype m op
      | S_intrinsiccallwithtypeassigned \<Rightarrow> import_intrinsiccallwithtypeassigned m op
      | S_nary \<Rightarrow> import_nary m op
      | S_plain \<Rightarrow> (\<lambda>i. Some (PlainStmtNode op, i))
      | S_unary \<Rightarrow> import_unary m op
      | S_label \<Rightarrow> import_label
      | S_goto \<Rightarrow> import_goto op
      | S_condgoto \<Rightarrow> import_condgoto m op
      | S_switch \<Rightarrow> import_switch m
      | S_jstry \<Rightarrow> import_jstry
      | S_try \<Rightarrow> import_try
      | S_catch \<Rightarrow> import_catch m
      | S_comment \<Rightarrow> import_comment
      | S_asm \<Rightarrow> import_asm m
      | S_while \<Rightarrow> (\<lambda>i. None) | S_if \<Rightarrow> (\<lambda>i. None) | S_block \<Rightarrow> (\<lambda>i. None) | S_default \<Rightarrow> (\<lambda>i. None))"

section \<open>Blocks\<close>

text \<open>The count of the statements is written over the place holder once they are written.\<close>

definition fixed_up :: "nat \<Rightarrow> (exporter \<Rightarrow> exporter option) \<Rightarrow> exporter \<Rightarrow> exporter option" where
  "fixed_up num body x = do {
     y \<leftarrow> ExpandFourBuffSize x; y \<leftarrow> body y; Fixup (length (xbuf x)) (word_of_nat num) y }"

definition write_block :: "SrcPosition \<Rightarrow> nat \<Rightarrow> (exporter \<Rightarrow> exporter option) \<Rightarrow> exporter \<Rightarrow> exporter option" where
  "write_block pos num body = (\<lambda>x. do {
     x \<leftarrow> WriteNum kBinNodeBlock x;
     x \<leftarrow> OutputSrcPos (if num = 0 then zero_pos else pos) x;
     fixed_up num body x })"

definition write_stmt_head :: "SrcPosition \<Rightarrow> StmtOp \<Rightarrow> exporter \<Rightarrow> exporter option" where
  "write_stmt_head pos op = (\<lambda>x. do {
     x \<leftarrow> WriteNum kBinOpStatement x; x \<leftarrow> OutputSrcPos pos x; write_stmt_op op x })"

fun OutputBlockNode :: "xmodule \<Rightarrow> BlockNode \<Rightarrow> exporter \<Rightarrow> exporter option"
  and output_stmts :: "xmodule \<Rightarrow> (SrcPosition \<times> StmtNode) list \<Rightarrow> exporter \<Rightarrow> exporter option"
  and output_stmt :: "xmodule \<Rightarrow> SrcPosition \<Rightarrow> StmtNode \<Rightarrow> exporter \<Rightarrow> exporter option" where
  "OutputBlockNode m (Block pos ss) = write_block pos (length ss) (output_stmts m ss)"
| "output_stmts m [] = Some"
| "output_stmts m ((pos, s) # ss) = (\<lambda>x. do { x \<leftarrow> output_stmt m pos s x; output_stmts m ss x })"
| "output_stmt m pos s = (\<lambda>x. do {
     x \<leftarrow> write_stmt_head pos (stmt_op s) x;
     (case s of
        WhileStmtNode op b e \<Rightarrow> do { x \<leftarrow> OutputBlockNode m b x; OutputExpression m e x }
      | IfStmtNode t None e \<Rightarrow> do {
          x \<leftarrow> WriteNum 0 x; x \<leftarrow> OutputBlockNode m t x; OutputExpression m e x }
      | IfStmtNode t (Some el) e \<Rightarrow> do {
          x \<leftarrow> WriteNum 1 x; x \<leftarrow> OutputBlockNode m t x; x \<leftarrow> OutputBlockNode m el x; OutputExpression m e x }
      | BlockStmt ss \<Rightarrow> write_block pos (length ss) (output_stmts m ss) x
      | _ \<Rightarrow> output_fields m s x) })"

text \<open>The tag of a block is only checked by an \<^verbatim>\<open>ASSERT\<close>, which release builds leave out.\<close>

partial_function (option) ImportBlockNode :: "imodule \<Rightarrow> importer \<Rightarrow> (BlockNode \<times> importer) option" where
  "ImportBlockNode m i = do {
     (tag, i) \<leftarrow> ReadNum i;
     (pos, i) \<leftarrow> ImportSrcPos i;
     (num, i) \<leftarrow> ReadInt i;
     (ss, i) \<leftarrow> read_n (nat (sint num)) (\<lambda>i. do {
        (tag, i) \<leftarrow> ReadNum i;
        if tag \<noteq> kBinOpStatement then None
        else do {
          (spos, i) \<leftarrow> ImportSrcPos i;
          (op, i) \<leftarrow> read_stmt_op i;
          if stmt_class_of op = S_while
          then do { (b, i) \<leftarrow> ImportBlockNode m i; (e, i) \<leftarrow> ImportExpression m i; Some ((spos, WhileStmtNode op b e), i) }
          else if stmt_class_of op = S_if
          then do {
            (has_else, i) \<leftarrow> ReadNum i;
            (t, i) \<leftarrow> ImportBlockNode m i;
            if has_else \<noteq> 0
            then do {
              (el, i) \<leftarrow> ImportBlockNode m i; (e, i) \<leftarrow> ImportExpression m i; Some ((spos, IfStmtNode t (Some el) e), i) }
            else do { (e, i) \<leftarrow> ImportExpression m i; Some ((spos, IfStmtNode t None e), i) } }
          else if stmt_class_of op = S_block
          then do { (b, i) \<leftarrow> ImportBlockNode m i; Some ((spos, BlockStmt (block_stmts b)), i) }
          else do { (s, i) \<leftarrow> import_fields m op i; Some ((spos, s), i) } } }) i;
     Some (Block pos ss, i) }"

declare output_stmt.simps [simp del]

section \<open>What the import makes of it\<close>

text \<open>A statement without a position gets the last position that was written.\<close>

definition img_pos :: "SrcPosition \<Rightarrow> SrcPosition \<Rightarrow> SrcPosition" where
  "img_pos p pos = (if FileNum pos = 0 \<or> LineNum pos = 0 then p else pos)"

text \<open>
  A return value comes back as it was if it is kept in a local symbol that the importing
  function knows, or in a register: then the index of its symbol is 0, and the scope of this
  null index, which names no symbol, is set to local.
\<close>

definition img_ret :: "CallReturnPair \<Rightarrow> CallReturnPair" where
  "img_ret r = (if st_idx (fst r) = 0 then (\<lparr>st_scope = kScopeLocal, st_idx = 0\<rparr>, snd r) else r)"

definition ok_ret :: "modules \<Rightarrow> CallReturnPair \<Rightarrow> bool" where
  "ok_ret c r \<longleftrightarrow>
     st_idx (fst r) = 0 \<or>
     st_scope (fst r) = kScopeLocal \<and>
     (case localSym (imod c) (ucast (st_idx (fst r))) of
        None \<Rightarrow> False | Some (nm, ptr) \<Rightarrow> prefix ''L_STR'' nm \<longrightarrow> ptr)"

text \<open>The image of a statement: the same statement, its references in the numbering of the importing module.\<close>

fun img_fields :: "modules \<Rightarrow> StmtNode \<Rightarrow> StmtNode" where
  "img_fields c (DassignNode fid st e) = DassignNode fid (img_stidx c st) (img_expr c e)"
| "img_fields c (RegassignNode ty r e) = RegassignNode ty r (img_expr c e)"
| "img_fields c (IassignNode tid fid a e) = IassignNode (img_type c tid) fid (img_expr c a) (img_expr c e)"
| "img_fields c (CallNode op pu tid rs es) = CallNode op (img_func c pu) (img_type c tid) (map img_ret rs) (map (img_expr c) es)"
| "img_fields c (IcallNode op tid rs es) = IcallNode op (img_type c tid) (map img_ret rs) (map (img_expr c) es)"
| "img_fields c (IntrinsiccallNode op intrn tid rs es) =
     IntrinsiccallNode op intrn (img_type c tid) (map img_ret rs) (map (img_expr c) es)"
| "img_fields c (NaryStmtNode op es) = NaryStmtNode op (map (img_expr c) es)"
| "img_fields c (UnaryStmtNode op e) = UnaryStmtNode op (img_expr c e)"
| "img_fields c (CondGotoNode op l e) = CondGotoNode op l (img_expr c e)"
| "img_fields c (SwitchStmtNode dflt tab e) = SwitchStmtNode dflt tab (img_expr c e)"
| "img_fields c (CatchNode tids) = CatchNode (map (img_type c) tids)"
| "img_fields c (AsmNode q s outs oc clob ls ic es) = AsmNode q s (map img_ret outs) oc clob ls ic (map (img_expr c) es)"
| "img_fields c s = s"

text \<open>
  The statements that the format carries: the opcode fits the node class, an operand count fits in
  the byte it is read into, the symbols, functions and operands can be resolved, and no field is
  lost that is set. Lost are the type of a call without one and the return values of a call that
  assigns none, the opcode \<^verbatim>\<open>cpptry\<close> (it becomes \<^verbatim>\<open>try\<close>), the exception type of \<^verbatim>\<open>cppcatch\<close>,
  what follows a NUL in a comment or the text of an \<^verbatim>\<open>asm\<close>, and the constraints of an \<^verbatim>\<open>asm\<close> beyond
  its outputs and inputs.
\<close>

definition carried_call :: "StmtOp \<Rightarrow> TyIdx \<Rightarrow> CallReturnPair list \<Rightarrow> bool" where
  "carried_call op tid rs \<longleftrightarrow> (has_type op \<or> tid = 0) \<and> (is_assigned op \<or> rs = [])"

definition ok_args :: "modules \<Rightarrow> BaseNode list \<Rightarrow> bool" where
  "ok_args c es \<longleftrightarrow> length es < 256 \<and> list_all (ok_expr c) es"

fun ok_fields :: "modules \<Rightarrow> StmtNode \<Rightarrow> bool" where
  "ok_fields c (DassignNode fid st e) \<longleftrightarrow> ok_stidx c st \<and> ok_expr c e"
| "ok_fields c (RegassignNode ty r e) \<longleftrightarrow> ok_expr c e"
| "ok_fields c (IassignNode tid fid a e) \<longleftrightarrow> ok_expr c a \<and> ok_expr c e"
| "ok_fields c (CallNode op pu tid rs es) \<longleftrightarrow>
     stmt_class_of op \<in> {S_call, S_callassigned, S_polymorphiccall, S_polymorphiccallassigned} \<and>
     carried_call op tid rs \<and> ok_func c pu \<and> list_all (ok_ret c) rs \<and> ok_args c es"
| "ok_fields c (IcallNode op tid rs es) \<longleftrightarrow>
     stmt_class_of op \<in> {S_icall, S_icallassigned} \<and> (is_assigned op \<or> rs = []) \<and> list_all (ok_ret c) rs \<and> ok_args c es"
| "ok_fields c (IntrinsiccallNode op intrn tid rs es) \<longleftrightarrow>
     stmt_class_of op \<in> {S_intrinsiccall, S_intrinsiccallassigned, S_intrinsiccallwithtype, S_intrinsiccallwithtypeassigned} \<and>
     carried_call op tid rs \<and> list_all (ok_ret c) rs \<and> ok_args c es"
| "ok_fields c (NaryStmtNode op es) \<longleftrightarrow> stmt_class_of op = S_nary \<and> ok_args c es"
| "ok_fields c (PlainStmtNode op) \<longleftrightarrow> stmt_class_of op = S_plain \<and> op \<noteq> OP_cppcatch"
| "ok_fields c (UnaryStmtNode op e) \<longleftrightarrow> stmt_class_of op = S_unary \<and> ok_expr c e"
| "ok_fields c (LabelNode l) \<longleftrightarrow> True"
| "ok_fields c (GotoNode op l) \<longleftrightarrow> stmt_class_of op = S_goto"
| "ok_fields c (CondGotoNode op l e) \<longleftrightarrow> stmt_class_of op = S_condgoto \<and> ok_expr c e"
| "ok_fields c (SwitchStmtNode dflt tab e) \<longleftrightarrow> ok_expr c e"
| "ok_fields c (JsTryNode ca fi) \<longleftrightarrow> True"
| "ok_fields c (TryNode op ls) \<longleftrightarrow> op = OP_try"
| "ok_fields c (CatchNode tids) \<longleftrightarrow> True"
| "ok_fields c (CommentNode s) \<longleftrightarrow> c_str s = s"
| "ok_fields c (AsmNode q s outs oc clob ls ic es) \<longleftrightarrow>
     c_str s = s \<and> length oc = length outs \<and> length ic = length es \<and> list_all (ok_ret c) outs \<and> ok_args c es"
| "ok_fields c s \<longleftrightarrow> False"

subsection \<open>Positions and return values\<close>

lemma codes_cong:
  assumes "\<And>x. lastOutputSrcPosition x = p \<Longrightarrow> out x = out' x" and "codes c p out' imp v p'"
  shows "codes c p out imp v p'"
proof (rule codesI)
  fix x x' assume "out x = Some x'" and p: "lastOutputSrcPosition x = p"
  then have "out' x = Some x'" using assms(1) by simp
  then show "lastOutputSrcPosition x' = p' \<and>
      (\<exists>bs. xbuf x' = xbuf x @ bs \<and>
        (length (xbuf x') < 2 ^ 31 \<longrightarrow>
          (\<forall>i rest. agrees c x i \<and> remaining i = bs @ rest \<longrightarrow>
            (\<exists>i'. imp i = Some (v, i') \<and> agrees c x' i' \<and> remaining i' = rest))))"
    using assms(2) p unfolding codes_def by blast
qed

lemma codes_set_last: "v = w \<Longrightarrow> codes c p (\<lambda>x. Some (x\<lparr>lastOutputSrcPosition := q\<rparr>)) (\<lambda>i. Some (v, i)) w q"
  by (auto simp: codes_def agrees_def)

lemma codes_OutputSrcPos [codes_intros]: "codes c p (OutputSrcPos pos) ImportSrcPos (img_pos p pos) (img_pos p pos)"
proof -
  have same: "codes c p (\<lambda>x. do { x \<leftarrow> WriteNum (ucast (RawData q)) x; WriteNum (ucast (LineNum q)) x }) ImportSrcPos q p" for q
    unfolding ImportSrcPos_def
    by (rule codes_bind, rule codes_intros, rule codes_then, rule codes_intros) simp
  show ?thesis
  proof (cases "FileNum pos = 0 \<or> LineNum pos = 0")
    case True
    have o: "OutputSrcPos pos x = (do { x \<leftarrow> WriteNum (ucast (RawData p)) x; WriteNum (ucast (LineNum p)) x })"
      if "lastOutputSrcPosition x = p" for x using True that by (simp add: OutputSrcPos_def)
    have "codes c p (OutputSrcPos pos) ImportSrcPos p p"
      by (rule codes_cong [OF o same])
    then show ?thesis using True by (simp add: img_pos_def)
  next
    case False
    have "OutputSrcPos pos = (\<lambda>x. do {
        x \<leftarrow> WriteNum (ucast (RawData pos)) x; x \<leftarrow> WriteNum (ucast (LineNum pos)) x;
        Some (x\<lparr>lastOutputSrcPosition := pos\<rparr>) })"
      using False by (simp add: OutputSrcPos_def fun_eq_iff)
    moreover have "img_pos p pos = pos" using False by (simp add: img_pos_def)
    ultimately show ?thesis
      unfolding ImportSrcPos_def
      by (simp only:) (rule codes_bind, rule codes_WriteNum, rule codes_bind, rule codes_WriteNum,
          rule codes_set_last, simp)
  qed
qed

lemma extends_last_position [grows_intros]: "extends (\<lambda>x. Some (x\<lparr>lastOutputSrcPosition := pos\<rparr>))"
  by (simp add: extends_def)

lemma grows_OutputSrcPos [grows_intros]: "grows (OutputSrcPos pos)"
proof (cases "FileNum pos = 0 \<or> LineNum pos = 0")
  case True
  have g: "grows (\<lambda>x. do { x \<leftarrow> WriteNum a x; WriteNum b x })" for a b
    by (intro grows_intros grows_extends)
  show ?thesis
    unfolding grows_def
  proof (intro allI impI)
    fix x x' assume "OutputSrcPos pos x = Some x'"
    then show "\<exists>b bs. xbuf x' = xbuf x @ b # bs"
      using g True unfolding grows_def OutputSrcPos_def by (metis (no_types, lifting))
  qed
next
  case False
  have "OutputSrcPos pos = (\<lambda>x. do {
      x \<leftarrow> WriteNum (ucast (RawData pos)) x; x \<leftarrow> WriteNum (ucast (LineNum pos)) x;
      Some (x\<lparr>lastOutputSrcPosition := pos\<rparr>) })"
    using False by (simp add: OutputSrcPos_def fun_eq_iff)
  then show ?thesis by (simp only:) (intro grows_intros grows_extends)
qed

lemma ucast_24 [simp]:
  "(ucast (ucast (k :: 24 word) :: int64) :: uint32) = ucast k" "(ucast (ucast k :: uint32) :: 24 word) = k"
  by (auto simp: bit_eq_iff bit_simps)

lemma ucast_24_eq_0 [simp]: "(ucast (k :: 24 word) :: uint32) = 0 \<longleftrightarrow> k = 0"
proof
  assume "(ucast k :: uint32) = 0"
  then have "(ucast (ucast k :: uint32) :: 24 word) = 0" by simp
  then show "k = 0" by (simp only: ucast_24)
qed simp

lemma local_ret: "st_scope st = kScopeLocal \<Longrightarrow> \<lparr>st_scope = kScopeLocal, st_idx = st_idx st\<rparr> = st"
  by (cases st) simp

lemma codes_output_return_value:
  assumes "ok_ret c r"
  shows "codes c p (output_return_value r) (import_return_value (imod c)) (img_ret r) p"
  unfolding output_return_value_def import_return_value_def
  by (rule codes_bind, rule codes_intros, rule codes_bind, rule codes_intros, rule codes_then, rule codes_intros)
     (use assms in \<open>auto simp: ok_ret_def img_ret_def Let_def local_ret split: option.splits\<close>)

interpretation ret: codec c output_return_value "import_return_value (imod c)" img_ret "ok_ret c" for c
proof unfold_locales
  show "grows (output_return_value r)" for r
    unfolding output_return_value_def by (intro grows_intros grows_extends)
qed (rule codes_output_return_value)

lemma codes_OutputReturnValues [codes_intros]:
  assumes "list_all (ok_ret c) rs"
  shows "codes c p (OutputReturnValues rs) (ImportReturnValues (imod c)) (map img_ret rs) p"
  unfolding OutputReturnValues_def ImportReturnValues_def
  by (rule codes_bind, rule codes_intros) (simp, rule ret.counted_same_pos [OF assms], rule count32_of_nat)

lemma grows_OutputReturnValues [grows_intros]: "grows (OutputReturnValues rs)"
  unfolding OutputReturnValues_def
  by (intro grows_intros grows_extends ret.takes_a_byte)

subsection \<open>The vectors of a statement\<close>

interpretation lab: codec c "\<lambda>l. WriteNum (ucast l)" "\<lambda>i. do { (l, i) \<leftarrow> ReadNum i; Some (ucast l :: LabelIdx, i) }" id "\<lambda>_. True" for c
proof unfold_locales
  show "codes c p (WriteNum (ucast l)) (\<lambda>i. do { (l, i) \<leftarrow> ReadNum i; Some (ucast l :: LabelIdx, i) }) (id l) p" for p l
    by (rule codes_then, rule codes_intros) simp
qed (rule grows_WriteNum)

interpretation casepair: codec c "\<lambda>cp x. do { x \<leftarrow> WriteNum (fst cp) x; WriteNum (ucast (snd cp)) x }"
    "\<lambda>i. do { (t, i) \<leftarrow> ReadNum i; (l, i) \<leftarrow> ReadNum i; Some ((t, ucast l :: LabelIdx), i) }" id "\<lambda>_. True" for c
proof unfold_locales
  show "codes c p (\<lambda>x. do { x \<leftarrow> WriteNum (fst cp) x; WriteNum (ucast (snd cp)) x })
      (\<lambda>i. do { (t, i) \<leftarrow> ReadNum i; (l, i) \<leftarrow> ReadNum i; Some ((t, ucast l :: LabelIdx), i) }) (id cp) p" for p cp
    by (rule codes_bind, rule codes_intros, rule codes_then, rule codes_intros) simp
  show "grows (\<lambda>x. do { x \<leftarrow> WriteNum (fst cp) x; WriteNum (ucast (snd cp)) x })" for cp :: "int64 \<times> LabelIdx"
    by (intro grows_intros grows_extends)
qed

lemma codes_args [codes_intros]:
  "ok_args c es \<Longrightarrow> codes c p (write_counted (OutputExpression (xmod c)) es) (import_args (imod c)) (map (img_expr c) es) p"
  unfolding ok_args_def by (rule expr.counted_same_pos) (auto intro: count8_of_nat)

lemma codes_labels [codes_intros]:
  "codes c p (write_counted (\<lambda>l. WriteNum (ucast l)) ls)
     (read_counted count32 (\<lambda>i. do { (l, i) \<leftarrow> ReadNum i; Some (ucast l :: LabelIdx, i) })) ls p"
  "codes c p (write_counted (\<lambda>l. WriteNum (ucast l)) ls)
     (read_counted unat (\<lambda>i. do { (l, i) \<leftarrow> ReadNum i; Some (ucast l :: LabelIdx, i) })) ls p"
  using lab.counted_same_pos [of ls count32 c p] lab.counted_same_pos [of ls unat c p]
  by (simp_all add: list_all_iff count32_of_nat unat_of_nat)

lemma codes_ustrs [codes_intros]:
  "codes c p (write_counted OutputUsrStr ss) (read_counted unat ImportUsrStr) ss p"
  using ustr.counted_same_pos [of ss unat c p] by (simp add: list_all_iff unat_of_nat)

lemma codes_types [codes_intros]:
  "codes c p (write_counted (OutputTypeViaTypeName (xmod c)) tids) (read_counted count32 (ImportType (imod c))) (map (img_type c) tids) p"
  by (rule type_ref.counted_same_pos) (auto simp: list_all_iff intro: count32_of_nat)

lemma codes_casepairs [codes_intros]:
  "codes c p (write_counted (\<lambda>cp x. do { x \<leftarrow> WriteNum (fst cp) x; WriteNum (ucast (snd cp)) x }) tab)
     (read_counted count32 (\<lambda>i. do { (t, i) \<leftarrow> ReadNum i; (l, i) \<leftarrow> ReadNum i; Some ((t, ucast l :: LabelIdx), i) })) tab p"
  using casepair.counted_same_pos [of tab count32 c p] by (simp add: list_all_iff count32_of_nat)


subsection \<open>Statements without blocks\<close>

lemmas fields_unfold = output_fields.simps img_fields.simps stmt_op.simps has_type_def is_assigned_def
  import_dassign_def import_regassign_def import_iassign_def import_call_def
  import_callassigned_def import_polymorphiccall_def import_polymorphiccallassigned_def import_icall_def
  import_icallassigned_def import_intrinsiccall_def import_intrinsiccallassigned_def import_intrinsiccallwithtype_def
  import_intrinsiccallwithtypeassigned_def import_nary_def import_unary_def import_label_def
  import_goto_def import_condgoto_def import_switch_def import_jstry_def
  import_try_def import_catch_def import_comment_def import_asm_def
  import_fields_def
  stmt_class_of.simps stmt_class.case if_False if_True bind.simps

lemma codes_CallNode:
  assumes "ok_fields c (CallNode op pu tid rs es)"
  shows "codes c p (output_fields (xmod c) (CallNode op pu tid rs es)) (import_fields (imod c) op) (img_fields c (CallNode op pu tid rs es)) p"
proof -
  have ok: "ok_func c pu" "list_all (ok_ret c) rs" "ok_args c es" and carried: "carried_call op tid rs" using assms by simp_all
  consider "stmt_class_of op = S_call" | "stmt_class_of op = S_callassigned"
    | "stmt_class_of op = S_polymorphiccall" | "stmt_class_of op = S_polymorphiccallassigned"
    using assms by auto
  then show ?thesis
    by cases (simp only: fields_unfold,
      ((rule codes_bind, rule codes_intros, (rule ok)?)+, rule codes_then, rule codes_intros, rule ok,
        use carried in \<open>simp add: carried_call_def has_type_def is_assigned_def img_type_def\<close>))+
qed

lemma codes_IcallNode:
  assumes "ok_fields c (IcallNode op tid rs es)"
  shows "codes c p (output_fields (xmod c) (IcallNode op tid rs es)) (import_fields (imod c) op) (img_fields c (IcallNode op tid rs es)) p"
proof -
  have ok: "list_all (ok_ret c) rs" "ok_args c es" and carried: "is_assigned op \<or> rs = []" using assms by simp_all
  consider "stmt_class_of op = S_icall" | "stmt_class_of op = S_icallassigned"
    using assms by auto
  then show ?thesis
    by cases (simp only: fields_unfold,
      ((rule codes_bind, rule codes_intros, (rule ok)?)+, rule codes_then, rule codes_intros, rule ok,
        use carried in \<open>simp add: carried_call_def has_type_def is_assigned_def img_type_def\<close>))+
qed

lemma codes_IntrinsiccallNode:
  assumes "ok_fields c (IntrinsiccallNode op intrn tid rs es)"
  shows "codes c p (output_fields (xmod c) (IntrinsiccallNode op intrn tid rs es)) (import_fields (imod c) op)
    (img_fields c (IntrinsiccallNode op intrn tid rs es)) p"
proof -
  have ok: "list_all (ok_ret c) rs" "ok_args c es" and carried: "carried_call op tid rs" using assms by simp_all
  consider "stmt_class_of op = S_intrinsiccall" | "stmt_class_of op = S_intrinsiccallassigned"
    | "stmt_class_of op = S_intrinsiccallwithtype" | "stmt_class_of op = S_intrinsiccallwithtypeassigned"
    using assms by auto
  then show ?thesis
    by cases (simp only: fields_unfold,
      ((rule codes_bind, rule codes_intros, (rule ok)?)+, rule codes_then, rule codes_intros, rule ok,
        use carried in \<open>simp add: carried_call_def has_type_def is_assigned_def img_type_def\<close>))+
qed

lemma codes_write_exprs:
  "list_all (ok_expr c) es \<Longrightarrow>
   codes c p (write_all (OutputExpression (xmod c)) es) (read_n (length es) (ImportExpression (imod c))) (map (img_expr c) es) p"
  using codes_write_all [of es c "OutputExpression (xmod c)" "ImportExpression (imod c)" "\<lambda>p. img_expr c" "\<lambda>v p. p" p]
  by (simp add: expr.same_pos list_all_iff img_all_const fold_id)

lemma codes_inputs:
  assumes "length ic < 256"
  shows "codes c p (\<lambda>x. do { x \<leftarrow> WriteNum (word_of_nat (length ic)) x; write_all OutputUsrStr ic x })
    (read_counted count8 ImportUsrStr) ic p"
  using ustr.counted_same_pos [of ic count8 c p] assms
  by (simp add: list_all_iff count8_of_nat write_counted_def [abs_def])

lemma codes_AsmNode:
  assumes "ok_fields c (AsmNode q s outs oc clob ls ic es)"
  shows "codes c p (output_fields (xmod c) (AsmNode q s outs oc clob ls ic es)) (import_fields (imod c) OP_asm)
    (img_fields c (AsmNode q s outs oc clob ls ic es)) p"
proof -
  have ok: "list_all (ok_ret c) outs" "list_all (ok_expr c) es" and n: "length es < 256" and str: "c_str s = s"
    and len: "length oc = length outs" "length ic = length es"
    using assms by (simp_all add: ok_args_def)
  have w: "output_fields (xmod c) (AsmNode q s outs oc clob ls ic es) = (\<lambda>x. do {
       x \<leftarrow> WriteNum (ucast q) x;
       x \<leftarrow> WriteAsciiStr s x;
       x \<leftarrow> write_counted OutputUsrStr oc x;
       x \<leftarrow> OutputReturnValues outs x;
       x \<leftarrow> write_counted OutputUsrStr clob x;
       x \<leftarrow> write_counted (\<lambda>l. WriteNum (ucast l)) ls x;
       x \<leftarrow> (do { x \<leftarrow> WriteNum (word_of_nat (length ic)) x; write_all OutputUsrStr ic x });
       write_all (OutputExpression (xmod c)) es x })"
    using len str n by (simp add: bind_assoc)
  have ic: "length ic < 256" using len n by simp
  show ?thesis
    unfolding w
    by (simp only: fields_unfold)
       (rule codes_bind, rule codes_intros, rule codes_bind, rule codes_intros, rule codes_bind, rule codes_intros,
        rule codes_bind, rule codes_OutputReturnValues, rule ok, rule codes_bind, rule codes_intros,
        rule codes_bind, rule codes_labels, rule codes_bind, rule codes_inputs, rule ic,
        simp only: len, rule codes_then, rule codes_write_exprs, rule ok, simp)
qed


lemma ucast_16 [simp]: "(ucast (ucast (w :: uint16) :: int64) :: uint16) = w"
  by (auto simp: bit_eq_iff bit_simps)

lemma codes_output_fields:
  assumes "ok_fields c s"
  shows "codes c p (output_fields (xmod c) s) (import_fields (imod c) (stmt_op s)) (img_fields c s) p"
  using assms
proof (cases s)
  case (DassignNode fid st e)
  then have ok: "ok_stidx c st" "ok_expr c e" using assms by simp_all
  show ?thesis unfolding DassignNode
    by (simp only: fields_unfold)
       (rule codes_bind, rule codes_intros, rule codes_bind, rule codes_intros, rule ok, rule codes_then, rule codes_intros, rule ok, simp)
next
  case (SwitchStmtNode dflt tab e)
  then have ok: "ok_expr c e" using assms by simp
  show ?thesis unfolding SwitchStmtNode
    by (simp only: fields_unfold)
       (rule codes_bind, rule codes_intros, rule codes_bind, rule codes_casepairs, rule codes_then, rule codes_intros, rule ok, simp)
next
  case (TryNode op ls)
  then have op: "op = OP_try" using assms by simp
  show ?thesis unfolding TryNode op
    by (simp only: fields_unfold) (rule codes_then, rule codes_labels, simp)
next
  case (CatchNode tids)
  show ?thesis unfolding CatchNode
    by (simp only: fields_unfold) (rule codes_then, rule codes_types, simp)
next
  case (RegassignNode ty r e)
  then have ok: "ok_expr c e" using assms by simp
  show ?thesis unfolding RegassignNode
    by (simp only: fields_unfold)
       (rule codes_bind, rule codes_intros, rule codes_bind, rule codes_intros, rule codes_then, rule codes_intros, rule ok, simp)
next
  case (IassignNode tid fid a e)
  then have ok: "ok_expr c a" "ok_expr c e" using assms by simp_all
  show ?thesis unfolding IassignNode
    by (simp only: fields_unfold)
       (rule codes_bind, rule codes_intros, rule codes_bind, rule codes_intros, rule codes_bind, rule codes_intros, rule ok,
        rule codes_then, rule codes_intros, rule ok, simp)
next
  case (NaryStmtNode op es)
  then have cl: "stmt_class_of op = S_nary" and ok: "ok_args c es" using assms by simp_all
  show ?thesis unfolding NaryStmtNode
    by (simp only: fields_unfold cl) (rule codes_then, rule codes_args, rule ok, simp)
next
  case (UnaryStmtNode op e)
  then have cl: "stmt_class_of op = S_unary" and ok: "ok_expr c e" using assms by simp_all
  show ?thesis unfolding UnaryStmtNode
    by (simp only: fields_unfold cl) (rule codes_then, rule codes_intros, rule ok, simp)
next
  case (CondGotoNode op l e)
  then have cl: "stmt_class_of op = S_condgoto" and ok: "ok_expr c e" using assms by simp_all
  show ?thesis unfolding CondGotoNode
    by (simp only: fields_unfold cl) (rule codes_bind, rule codes_intros, rule codes_then, rule codes_intros, rule ok, simp)
next
  case (PlainStmtNode op)
  then have cl: "stmt_class_of op = S_plain" using assms by simp
  show ?thesis unfolding PlainStmtNode by (simp only: fields_unfold cl) (rule codes_return, rule HOL.refl)
next
  case (GotoNode op l)
  then have cl: "stmt_class_of op = S_goto" using assms by simp
  show ?thesis unfolding GotoNode by (simp only: fields_unfold cl) (rule codes_then, rule codes_intros, simp)
next
  case (LabelNode l)
  show ?thesis unfolding LabelNode by (simp only: fields_unfold) (rule codes_then, rule codes_intros, simp)
next
  case (JsTryNode ca fi)
  show ?thesis unfolding JsTryNode
    by (simp only: fields_unfold) (rule codes_bind, rule codes_intros, rule codes_then, rule codes_intros, simp)
next
  case (CommentNode st)
  then have st: "c_str st = st" using assms by simp
  show ?thesis unfolding CommentNode by (simp only: fields_unfold st) (rule codes_then, rule codes_intros, simp)
qed (simp_all only: codes_CallNode codes_IcallNode codes_IntrinsiccallNode codes_AsmNode stmt_op.simps ok_fields.simps)

lemma grows_Write: "grows (Write b)"
  by (simp add: grows_def Write_def)

lemma grows_WriteAsciiStr: "grows (WriteAsciiStr s)"
  unfolding WriteAsciiStr_def [abs_def] write_chars_eq
  by (intro grows_intros grows_extends grows_Write)

lemmas extends_fields = extends_bind extends_if extends_Some extends_None extends_write_all
  grows_WriteNum [THEN grows_extends] ret.takes_a_byte [THEN grows_extends] grows_OutputReturnValues [THEN grows_extends]
  grows_OutputExpression [THEN grows_extends] grows_OutputTypeViaTypeName [THEN grows_extends] grows_OutputUsrStr [THEN grows_extends]
  grows_write_counted [THEN grows_extends] grows_output_stidx [THEN grows_extends] grows_write_prim [THEN grows_extends]
  grows_OutputFuncViaSymName [THEN grows_extends] grows_WriteAsciiStr [THEN grows_extends]

lemma extends_output_fields: "extends (output_fields m s)"
  by (cases s) (simp_all only: output_fields.simps, (intro extends_fields)+)


section \<open>The round trip of a block\<close>

text \<open>\<open>blk_pos\<close> is the position of an imported block; the position of an empty block is lost.\<close>

definition blk_pos :: "SrcPosition \<Rightarrow> SrcPosition \<Rightarrow> 'a list \<Rightarrow> SrcPosition" where
  "blk_pos p pos ss = (if ss = [] then p else img_pos p pos)"

fun last_block :: "SrcPosition \<Rightarrow> BlockNode \<Rightarrow> SrcPosition"
  and last_stmts :: "SrcPosition \<Rightarrow> (SrcPosition \<times> StmtNode) list \<Rightarrow> SrcPosition"
  and last_stmt :: "SrcPosition \<Rightarrow> SrcPosition \<Rightarrow> StmtNode \<Rightarrow> SrcPosition" where
  "last_block p (Block pos ss) = last_stmts (blk_pos p pos ss) ss"
| "last_stmts p [] = p"
| "last_stmts p ((pos, s) # ss) = last_stmts (last_stmt p pos s) ss"
| "last_stmt p pos s =
     (case s of
        WhileStmtNode op b e \<Rightarrow> last_block (img_pos p pos) b
      | IfStmtNode t None e \<Rightarrow> last_block (img_pos p pos) t
      | IfStmtNode t (Some el) e \<Rightarrow> last_block (last_block (img_pos p pos) t) el
      | BlockStmt ss \<Rightarrow> last_stmts (blk_pos (img_pos p pos) pos ss) ss
      | _ \<Rightarrow> img_pos p pos)"

fun img_block :: "modules \<Rightarrow> SrcPosition \<Rightarrow> BlockNode \<Rightarrow> BlockNode"
  and img_stmts :: "modules \<Rightarrow> SrcPosition \<Rightarrow> (SrcPosition \<times> StmtNode) list \<Rightarrow> (SrcPosition \<times> StmtNode) list"
  and img_stmt :: "modules \<Rightarrow> SrcPosition \<Rightarrow> SrcPosition \<Rightarrow> StmtNode \<Rightarrow> StmtNode" where
  "img_block c p (Block pos ss) = Block (blk_pos p pos ss) (img_stmts c (blk_pos p pos ss) ss)"
| "img_stmts c p [] = []"
| "img_stmts c p ((pos, s) # ss) = (img_pos p pos, img_stmt c p pos s) # img_stmts c (last_stmt p pos s) ss"
| "img_stmt c p pos s =
     (case s of
        WhileStmtNode op b e \<Rightarrow> WhileStmtNode op (img_block c (img_pos p pos) b) (img_expr c e)
      | IfStmtNode t None e \<Rightarrow> IfStmtNode (img_block c (img_pos p pos) t) None (img_expr c e)
      | IfStmtNode t (Some el) e \<Rightarrow>
          IfStmtNode (img_block c (img_pos p pos) t)
            (Some (img_block c (last_block (img_pos p pos) t) el)) (img_expr c e)
      | BlockStmt ss \<Rightarrow> BlockStmt (img_stmts c (blk_pos (img_pos p pos) pos ss) ss)
      | _ \<Rightarrow> img_fields c s)"

fun ok_block :: "modules \<Rightarrow> BlockNode \<Rightarrow> bool"
  and ok_stmts :: "modules \<Rightarrow> (SrcPosition \<times> StmtNode) list \<Rightarrow> bool"
  and ok_stmt :: "modules \<Rightarrow> StmtNode \<Rightarrow> bool" where
  "ok_block c (Block pos ss) \<longleftrightarrow> ok_stmts c ss"
| "ok_stmts c [] \<longleftrightarrow> True"
| "ok_stmts c ((pos, s) # ss) \<longleftrightarrow> ok_stmt c s \<and> ok_stmts c ss"
| "ok_stmt c s \<longleftrightarrow>
     (case s of
        WhileStmtNode op b e \<Rightarrow> stmt_class_of op = S_while \<and> ok_block c b \<and> ok_expr c e
      | IfStmtNode t None e \<Rightarrow> ok_block c t \<and> ok_expr c e
      | IfStmtNode t (Some el) e \<Rightarrow> ok_block c t \<and> ok_block c el \<and> ok_expr c e
      | BlockStmt ss \<Rightarrow> ok_stmts c ss
      | _ \<Rightarrow> ok_fields c s)"

declare last_stmt.simps [simp del] img_stmt.simps [simp del] ok_stmt.simps [simp del]

text \<open>
  Patching the count in afterwards has the effect of writing it first: a writer looks at no
  byte of the buffer, and agreement depends on its length only.
\<close>

lemma agrees_same_length:
  "agrees c x i \<Longrightarrow> length (xbuf x') = length (xbuf x) \<Longrightarrow> gStrMark x' = gStrMark x \<Longrightarrow> uStrMark x' = uStrMark x \<Longrightarrow>
   typMark x' = typMark x \<Longrightarrow> typeMarkOffset x' = typeMarkOffset x \<Longrightarrow> agrees c x' i"
  by (simp add: agrees_def)

definition int_bytes :: "int32 \<Rightarrow> uint8 list" where
  "int_bytes n = [ucast (n AND 0xFF), ucast (drop_bit 8 n AND 0xFF), ucast (drop_bit 16 n AND 0xFF), ucast (drop_bit 24 n AND 0xFF)]"

lemma WriteInt_bytes: "WriteInt n x = Some (x\<lparr>xbuf := xbuf x @ int_bytes n\<rparr>)"
  by (simp add: WriteInt_def Write_def int_bytes_def)

lemma Fixup_bytes:
  assumes "xbuf x = as @ [b0, b1, b2, b3] @ bs"
  shows "Fixup (length as) n x = Some (x\<lparr>xbuf := as @ int_bytes n @ bs\<rparr>)"
  using assms by (simp add: Fixup_def int_bytes_def list_update_append numeral_eq_Suc)


lemma fixed_upE:
  assumes "fixed_up num body x = Some x'" and "extends body"
  obtains y bs where "body (x\<lparr>xbuf := xbuf x @ int_bytes 0\<rparr>) = Some y" and "xbuf y = xbuf x @ int_bytes 0 @ bs"
    and "x' = y\<lparr>xbuf := xbuf x @ int_bytes (word_of_nat num) @ bs\<rparr>"
proof -
  obtain y where y: "body (x\<lparr>xbuf := xbuf x @ int_bytes 0\<rparr>) = Some y" and x': "Fixup (length (xbuf x)) (word_of_nat num) y = Some x'"
    using assms(1) by (auto simp: fixed_up_def ExpandFourBuffSize_def WriteInt_bytes Option.bind_eq_Some_conv)
  obtain bs where bs: "xbuf y = xbuf x @ int_bytes 0 @ bs"
    using assms(2) y by (fastforce simp: extends_def)
  then have "Fixup (length (xbuf x)) (word_of_nat num) y = Some (y\<lparr>xbuf := xbuf x @ int_bytes (word_of_nat num) @ bs\<rparr>)"
    by (intro Fixup_bytes) (simp add: int_bytes_def)
  then show ?thesis using that [OF y bs] x' by simp
qed

lemma extends_fixed_up: "extends body \<Longrightarrow> extends (fixed_up num body)"
  by (subst extends_def) (auto elim!: fixed_upE)

lemma codes_fixed_up:
  assumes "codes c p body (R (word_of_nat num)) v p'" and "extends body"
  shows "codes c p (fixed_up num body) (\<lambda>i. Option.bind (ReadInt i) (\<lambda>(k, i). R k i)) v p'"
proof (rule codesI)
  fix x x' assume "fixed_up num body x = Some x'" and p: "lastOutputSrcPosition x = p"
  then obtain y bs where y: "body (x\<lparr>xbuf := xbuf x @ int_bytes 0\<rparr>) = Some y" "xbuf y = xbuf x @ int_bytes 0 @ bs"
    and x': "x' = y\<lparr>xbuf := xbuf x @ int_bytes (word_of_nat num) @ bs\<rparr>"
    using assms(2) by (elim fixed_upE)
  let ?w = "x\<lparr>xbuf := xbuf x @ int_bytes (word_of_nat num)\<rparr>"
  have len: "length (int_bytes k) = 4" for k by (simp add: int_bytes_def)
  have read: "\<exists>i'. Option.bind (ReadInt i) (\<lambda>(k, i). R k i) = Some (v, i') \<and> agrees c x' i' \<and> remaining i' = rest"
    if l: "length (xbuf x') < 2 ^ 31" and i: "agrees c x i" "remaining i = (int_bytes (word_of_nat num) @ bs) @ rest" for i rest
  proof -
    obtain i1 where i1: "ReadInt i = Some (word_of_nat num, i1)" "agrees c ?w i1" "remaining i1 = bs @ rest"
      using codes_round_trip [OF codes_WriteInt WriteInt_bytes HOL.refl, of x "word_of_nat num" c i "bs @ rest"] l i
      by (auto simp: x' len)
    have a: "agrees c (x\<lparr>xbuf := xbuf x @ int_bytes 0\<rparr>) i1"
      by (rule agrees_same_length [OF i1(2)]) (simp_all add: len)
    obtain i2 where i2: "R (word_of_nat num) i1 = Some (v, i2)" "remaining i2 = rest" "agrees c y i2"
      using codes_round_trip [OF assms(1) y(1) _ _ a, of rest] l i1(3) p y(2) by (auto simp: x' len)
    have "agrees c x' i2"
      by (rule agrees_same_length [OF i2(3)]) (simp_all add: x' y(2) len)
    then show ?thesis using i1 i2 by simp
  qed
  have "lastOutputSrcPosition x' = p'"
    using assms(1) y(1) p unfolding codes_def by (force simp: x')
  then show "lastOutputSrcPosition x' = p' \<and>
      (\<exists>bs. xbuf x' = xbuf x @ bs \<and>
        (length (xbuf x') < 2 ^ 31 \<longrightarrow>
          (\<forall>i rest. agrees c x i \<and> remaining i = bs @ rest \<longrightarrow>
            (\<exists>i'. Option.bind (ReadInt i) (\<lambda>(k, i). R k i) = Some (v, i') \<and> agrees c x' i' \<and> remaining i' = rest))))"
    using read by (intro conjI exI [of _ "int_bytes (word_of_nat num) @ bs"]) (auto simp: x')
qed

lemma extends_write_block: "extends body \<Longrightarrow> extends (write_block pos num body)"
  unfolding write_block_def
  by (intro extends_bind extends_fixed_up grows_WriteNum [THEN grows_extends] grows_OutputSrcPos [THEN grows_extends])

lemma grows_write_stmt_head: "grows (write_stmt_head pos op)"
  unfolding write_stmt_head_def by (intro grows_intros grows_extends)

definition has_blocks :: "StmtNode \<Rightarrow> bool" where
  "has_blocks s \<longleftrightarrow>
     (case s of WhileStmtNode _ _ _ \<Rightarrow> True | IfStmtNode _ _ _ \<Rightarrow> True | BlockStmt _ \<Rightarrow> True | _ \<Rightarrow> False)"

lemma block_induct [case_names Block While If Nested Simple]:
  assumes "\<And>pos ss. (\<And>q s. (q, s) \<in> set ss \<Longrightarrow> Q s) \<Longrightarrow> P (Block pos ss)"
    and "\<And>op b e. P b \<Longrightarrow> Q (WhileStmtNode op b e)"
    and "\<And>t el e. P t \<Longrightarrow> (\<And>b. el = Some b \<Longrightarrow> P b) \<Longrightarrow> Q (IfStmtNode t el e)"
    and "\<And>ss. (\<And>q s. (q, s) \<in> set ss \<Longrightarrow> Q s) \<Longrightarrow> Q (BlockStmt ss)"
    and "\<And>s. \<not> has_blocks s \<Longrightarrow> Q s"
  shows "Q s" and "P b"
proof (induction s and b rule: StmtNode.induct BlockNode.induct)
  case (Block pos ss)
  then show ?case by (intro assms(1)) force
next
  case (BlockStmt ss)
  then show ?case by (intro assms(4)) force
next
  case (IfStmtNode t el e)
  then show ?case by (intro assms(3)) auto
qed (simp_all add: assms(2,5) has_blocks_def)

lemma output_stmts_write_all: "output_stmts m ss = write_all (\<lambda>(pos, s). output_stmt m pos s) ss"
  by (induction ss) auto


lemma output_stmt_simple:
  "\<not> has_blocks s \<Longrightarrow>
   output_stmt m pos s = (\<lambda>x. do { x \<leftarrow> write_stmt_head pos (stmt_op s) x; output_fields m s x })"
  by (cases s) (simp_all add: has_blocks_def output_stmt.simps del: output_fields.simps)

lemma output_stmt_blocks:
  "output_stmt m pos (WhileStmtNode op b e) =
     (\<lambda>x. do { x \<leftarrow> write_stmt_head pos op x; x \<leftarrow> OutputBlockNode m b x; OutputExpression m e x })"
  "output_stmt m pos (IfStmtNode t None e) =
     (\<lambda>x. do { x \<leftarrow> write_stmt_head pos OP_if x; x \<leftarrow> WriteNum 0 x; x \<leftarrow> OutputBlockNode m t x; OutputExpression m e x })"
  "output_stmt m pos (IfStmtNode t (Some el) e) =
     (\<lambda>x. do { x \<leftarrow> write_stmt_head pos OP_if x; x \<leftarrow> WriteNum 1 x; x \<leftarrow> OutputBlockNode m t x;
       x \<leftarrow> OutputBlockNode m el x; OutputExpression m e x })"
  "output_stmt m pos (BlockStmt ss) =
     (\<lambda>x. do { x \<leftarrow> write_stmt_head pos OP_block x; write_block pos (length ss) (output_stmts m ss) x })"
  by (simp_all add: output_stmt.simps)

lemma extends_output_stmts:
  "(\<And>q s. (q, s) \<in> set ss \<Longrightarrow> grows (output_stmt m q s)) \<Longrightarrow> extends (output_stmts m ss)"
  unfolding output_stmts_write_all by (intro extends_write_all) (auto intro: grows_extends)

lemma grows_output_stmt: "\<And>pos. grows (output_stmt m pos s)"
  and extends_OutputBlockNode: "extends (OutputBlockNode m b)"
proof (induction s and b rule: block_induct)
  case (Block pos ss)
  then show ?case by (simp add: extends_write_block extends_output_stmts)
next
  case (While op b e)
  then show ?case unfolding output_stmt_blocks
    by (intro grows_bind grows_write_stmt_head extends_fields)
next
  case (If t el e)
  then show ?case
    by (cases el) (simp_all only: output_stmt_blocks, (intro grows_bind grows_write_stmt_head extends_fields; simp)+)
next
  case (Nested ss)
  then show ?case unfolding output_stmt_blocks
    by (intro grows_bind grows_write_stmt_head extends_write_block extends_output_stmts)
next
  case (Simple s)
  then show ?case
    by (simp only: output_stmt_simple not_False_eq_True) (intro grows_bind grows_write_stmt_head extends_output_fields)
qed

text \<open>The loop body of \<^verbatim>\<open>ImportBlockNode\<close>.\<close>

definition import_stmt :: "imodule \<Rightarrow> importer \<Rightarrow> ((SrcPosition \<times> StmtNode) \<times> importer) option" where
  "import_stmt m i = do {
     (tag, i) \<leftarrow> ReadNum i;
     if tag \<noteq> kBinOpStatement then None
     else do {
       (spos, i) \<leftarrow> ImportSrcPos i;
       (op, i) \<leftarrow> read_stmt_op i;
       if stmt_class_of op = S_while
       then do { (b, i) \<leftarrow> ImportBlockNode m i; (e, i) \<leftarrow> ImportExpression m i; Some ((spos, WhileStmtNode op b e), i) }
       else if stmt_class_of op = S_if
       then do {
         (has_else, i) \<leftarrow> ReadNum i;
         (t, i) \<leftarrow> ImportBlockNode m i;
         if has_else \<noteq> 0
         then do {
           (el, i) \<leftarrow> ImportBlockNode m i; (e, i) \<leftarrow> ImportExpression m i; Some ((spos, IfStmtNode t (Some el) e), i) }
         else do { (e, i) \<leftarrow> ImportExpression m i; Some ((spos, IfStmtNode t None e), i) } }
       else if stmt_class_of op = S_block
       then do { (b, i) \<leftarrow> ImportBlockNode m i; Some ((spos, BlockStmt (block_stmts b)), i) }
       else do { (s, i) \<leftarrow> import_fields m op i; Some ((spos, s), i) } } }"

lemma ImportBlockNode_unfold:
  "ImportBlockNode m = (\<lambda>i. do {
     (tag, i) \<leftarrow> ReadNum i;
     (pos, i) \<leftarrow> ImportSrcPos i;
     (num, i) \<leftarrow> ReadInt i;
     (ss, i) \<leftarrow> read_n (nat (sint num)) (import_stmt m) i;
     Some (Block pos ss, i) })"
  by (rule ext, subst ImportBlockNode.simps, simp only: import_stmt_def [abs_def])

lemma sint_of_nat32: "n < 2 ^ 31 \<Longrightarrow> nat (sint (word_of_nat n :: int32)) = n"
  by (simp add: signed_of_nat signed_take_bit_int_eq_self)

lemma blk_pos_eq: "img_pos p (if length ss = 0 then zero_pos else pos) = blk_pos p pos ss"
  by (simp add: blk_pos_def img_pos_def zero_pos_def)

lemma codes_write_block:
  assumes "codes c (blk_pos p pos ss) (output_stmts (xmod c) ss) (read_n (length ss) (import_stmt (imod c))) w p'"
  shows "codes c p (write_block pos (length ss) (output_stmts (xmod c) ss)) (ImportBlockNode (imod c)) (Block (blk_pos p pos ss) w) p'"
proof (rule codes_cases [where P = "length ss < 2 ^ 31"])
  have e: "extends (output_stmts (xmod c) ss)"
    by (intro extends_output_stmts grows_output_stmt)
  have head: "codes c p (OutputSrcPos (if length ss = 0 then zero_pos else pos)) ImportSrcPos (blk_pos p pos ss) (blk_pos p pos ss)" for p
    using codes_OutputSrcPos [of c p "if length ss = 0 then zero_pos else pos"] by (simp only: blk_pos_eq)
  have block: "codes c p (write_block pos (length ss) (output_stmts (xmod c) ss))
      (\<lambda>i. do { (tag, i) \<leftarrow> ReadNum i; (pos, i) \<leftarrow> ImportSrcPos i; (num, i) \<leftarrow> ReadInt i;
        (ss, i) \<leftarrow> read_n (cnt num) (import_stmt (imod c)) i; Some (Block pos ss, i) })
      (Block (blk_pos p pos ss) w) p'" if "cnt (word_of_nat (length ss)) = length ss" for cnt
    unfolding write_block_def
    by (rule codes_bind, rule codes_WriteNum, rule codes_bind, rule head, rule codes_fixed_up [OF _ e])
       (simp only: that, rule codes_map, rule assms, simp)
  show "codes c p (write_block pos (length ss) (output_stmts (xmod c) ss))
      (\<lambda>i. do { (tag, i) \<leftarrow> ReadNum i; (pos, i) \<leftarrow> ImportSrcPos i; (num, i) \<leftarrow> ReadInt i;
        (ss', i) \<leftarrow> read_n (length ss) (import_stmt (imod c)) i; Some (Block pos ss', i) })
      (Block (blk_pos p pos ss) w) p'"
    by (rule block) simp
  show "codes c p (write_block pos (length ss) (output_stmts (xmod c) ss)) (ImportBlockNode (imod c)) (Block (blk_pos p pos ss) w) p'"
    if "length ss < 2 ^ 31"
    unfolding ImportBlockNode_unfold by (rule block) (rule sint_of_nat32 [OF that])
next
  fix x x' assume "write_block pos (length ss) (output_stmts (xmod c) ss) x = Some x'" and l: "length (xbuf x') < 2 ^ 31"
  then obtain y where "fixed_up (length ss) (output_stmts (xmod c) ss) y = Some x'"
    by (auto simp: write_block_def Option.bind_eq_Some_conv)
  then obtain z bs where z: "output_stmts (xmod c) ss (y\<lparr>xbuf := xbuf y @ int_bytes 0\<rparr>) = Some z" "xbuf z = xbuf y @ int_bytes 0 @ bs"
      "x' = z\<lparr>xbuf := xbuf y @ int_bytes (word_of_nat (length ss)) @ bs\<rparr>"
    by (rule fixed_upE) (intro extends_output_stmts grows_output_stmt)
  have "length ss \<le> length (xbuf z)"
    using length_write_all [of ss "\<lambda>(pos, s). output_stmt (xmod c) pos s", OF _ z(1) [unfolded output_stmts_write_all]]
    by (auto simp: grows_output_stmt split: prod.splits)
  then show "length ss < 2 ^ 31"
    using z l by (simp add: int_bytes_def)
qed


lemma codes_output_stmts:
  assumes "\<And>q s p. (q, s) \<in> set ss \<Longrightarrow> ok_stmt c s \<Longrightarrow>
      codes c p (output_stmt (xmod c) q s) (import_stmt (imod c)) (img_pos p q, img_stmt c p q s) (last_stmt p q s)"
    and "ok_stmts c ss"
  shows "codes c p (output_stmts (xmod c) ss) (read_n (length ss) (import_stmt (imod c))) (img_stmts c p ss) (last_stmts p ss)"
  using assms
proof (induction ss arbitrary: p)
  case Nil
  have "read_n 0 (import_stmt (imod c)) = (\<lambda>i. Some ([], i))" by auto
  then show ?case by (simp add: codes_return)
next
  case (Cons qs ss)
  obtain q s where qs: "qs = (q, s)" by (cases qs)
  have r: "read_n (Suc (length ss)) (import_stmt (imod c)) =
      (\<lambda>i. do { (v, i) \<leftarrow> import_stmt (imod c) i; (vs, i) \<leftarrow> read_n (length ss) (import_stmt (imod c)) i; Some (v # vs, i) })"
    by auto
  have ok: "ok_stmt c s" "ok_stmts c ss" using Cons.prems(2) by (simp_all add: qs)
  show ?case
    unfolding qs length_Cons r output_stmts.simps img_stmts.simps last_stmts.simps
    by (rule codes_bind, rule Cons.prems(1), simp add: qs, rule ok, rule codes_map, rule Cons.IH, rule Cons.prems(1))
       (simp_all add: ok)
qed

lemma codes_stmt:
  assumes "codes c (img_pos p pos) out
      (\<lambda>i. if stmt_class_of op = S_while
       then do { (b, i) \<leftarrow> ImportBlockNode m i; (e, i) \<leftarrow> ImportExpression m i; Some ((img_pos p pos, WhileStmtNode op b e), i) }
       else if stmt_class_of op = S_if
       then do {
         (has_else, i) \<leftarrow> ReadNum i;
         (t, i) \<leftarrow> ImportBlockNode m i;
         if has_else \<noteq> 0
         then do {
           (el, i) \<leftarrow> ImportBlockNode m i; (e, i) \<leftarrow> ImportExpression m i; Some ((img_pos p pos, IfStmtNode t (Some el) e), i) }
         else do { (e, i) \<leftarrow> ImportExpression m i; Some ((img_pos p pos, IfStmtNode t None e), i) } }
       else if stmt_class_of op = S_block
       then do { (b, i) \<leftarrow> ImportBlockNode m i; Some ((img_pos p pos, BlockStmt (block_stmts b)), i) }
       else do { (s, i) \<leftarrow> import_fields m op i; Some ((img_pos p pos, s), i) }) v p'"
  shows "codes c p (\<lambda>x. Option.bind (write_stmt_head pos op x) out) (import_stmt m) v p'"
  unfolding write_stmt_head_def import_stmt_def bind_assoc
  by (rule codes_bind, rule codes_WriteNum, simp only: simp_thms if_False,
      rule codes_bind, rule codes_OutputSrcPos, rule codes_bind, rule codes_write_stmt_op, rule assms)

lemma ok_fields_class: "ok_fields c s \<Longrightarrow> stmt_class_of (stmt_op s) \<notin> {S_while, S_if, S_block}"
  by (cases s) auto

lemma codes_output_stmt:
  "\<And>p pos. ok_stmt c s \<Longrightarrow>
     codes c p (output_stmt (xmod c) pos s) (import_stmt (imod c)) (img_pos p pos, img_stmt c p pos s) (last_stmt p pos s)"
  and codes_OutputBlockNode:
  "\<And>p. ok_block c b \<Longrightarrow>
     codes c p (OutputBlockNode (xmod c) b) (ImportBlockNode (imod c)) (img_block c p b) (last_block p b)"
proof (induction s and b rule: block_induct)
  case (Block pos ss)
  then show ?case
    by (simp add: codes_write_block codes_output_stmts)
next
  case (While op b e)
  then have ok: "stmt_class_of op = S_while" "ok_block c b" "ok_expr c e" by (simp_all add: ok_stmt.simps)
  show ?case
    unfolding output_stmt_blocks
    by (rule codes_stmt)
       (simp only: ok simp_thms if_True img_stmt.simps last_stmt.simps StmtNode.case,
        rule codes_bind, rule While.IH, rule ok, rule codes_then, rule codes_intros, rule ok, simp)
next
  case (If t el e)
  show ?case
  proof (cases el)
    case None
    then have ok: "ok_block c t" "ok_expr c e" using If.prems by (simp_all add: ok_stmt.simps)
    show ?thesis
      unfolding None output_stmt_blocks
      by (rule codes_stmt)
         (simp only: stmt_class_of.simps stmt_class.distinct simp_thms if_True if_False img_stmt.simps last_stmt.simps StmtNode.case option.case,
          rule codes_bind, rule codes_WriteNum, rule codes_bind, rule If.IH(1), rule ok,
          simp only: simp_thms if_False, rule codes_then, rule codes_intros, rule ok, simp)
  next
    case (Some b)
    then have ok: "ok_block c t" "ok_block c b" "ok_expr c e" using If.prems by (simp_all add: ok_stmt.simps)
    show ?thesis
      unfolding Some output_stmt_blocks
      by (rule codes_stmt)
         (simp only: stmt_class_of.simps stmt_class.distinct simp_thms if_True if_False img_stmt.simps last_stmt.simps StmtNode.case option.case,
          rule codes_bind, rule codes_WriteNum, rule codes_bind, rule If.IH(1), rule ok,
          simp only: one_neq_zero simp_thms if_True, rule codes_bind, rule If.IH(2) [OF Some], rule ok,
          rule codes_then, rule codes_intros, rule ok, simp)
  qed
next
  case (Nested ss)
  then have ok: "ok_stmts c ss" by (simp add: ok_stmt.simps)
  show ?case
    unfolding output_stmt_blocks
    by (rule codes_stmt)
       (simp only: stmt_class_of.simps stmt_class.distinct simp_thms if_True if_False img_stmt.simps last_stmt.simps StmtNode.case,
        rule codes_then, rule codes_write_block, rule codes_output_stmts, rule Nested.IH, assumption, assumption, rule ok, simp)
next
  case (Simple s)
  then have ok: "ok_fields c s" and im: "img_stmt c p pos s = img_fields c s" and la: "last_stmt p pos s = img_pos p pos" for p pos
    by (cases s; simp add: has_blocks_def ok_stmt.simps img_stmt.simps last_stmt.simps)+
  show ?case
    unfolding output_stmt_simple [OF Simple(1)] im la
    by (rule codes_stmt)
       (use ok_fields_class [OF ok] in \<open>simp only: insert_iff empty_iff de_Morgan_disj simp_thms if_False\<close>,
        rule codes_then, rule codes_output_fields, rule ok, simp)
qed


lemma grows_OutputBlockNode: "grows (OutputBlockNode m b)"
proof (cases b)
  case (Block pos ss)
  show ?thesis
    unfolding Block OutputBlockNode.simps write_block_def
    by (intro grows_bind grows_WriteNum extends_bind grows_OutputSrcPos [THEN grows_extends] extends_fixed_up
        extends_output_stmts grows_output_stmt)
qed

interpretation block: pos_codec c "OutputBlockNode (xmod c)" "ImportBlockNode (imod c)" "img_block c" "\<lambda>b p. last_block p b" "ok_block c" for c
  by unfold_locales (simp_all add: codes_OutputBlockNode grows_OutputBlockNode)

text \<open>
  (C3) The import of the bytes that \<^verbatim>\<open>OutputBlockNode\<close> wrote for a block gives back
  the same statements, nested blocks included, with the references in the numbering of the
  importing module and with the last position written before for a statement that has none and for
  an empty block; the bytes after the block are left, and the tables of the two sides still agree. It
  holds of the blocks that the format carries (\<open>ok_block\<close>): the opcodes have a case in the format, the expressions are
  carried (\<open>ok_expr\<close>), the functions and
  symbols named are known, a statement has fewer than 256 operands, a return value is kept in a
  local symbol or in a register, there is no \<^verbatim>\<open>cpptry\<close> and no \<^verbatim>\<open>cppcatch\<close>, no NUL in a comment or
  an \<^verbatim>\<open>asm\<close>, an \<^verbatim>\<open>asm\<close> has one constraint for each output and input, and a call has no type and no return values that its
  opcode does not provide for. What becomes of others is in \<open>import_try_loses\<close> and \<open>import_return_loses\<close>.
\<close>

theorem ImportBlockNode_OutputBlockNode:
  assumes "ok_block c b" and "OutputBlockNode (xmod c) b x = Some x'" and "length (xbuf x') < 2 ^ 31"
    and "agrees c x i" and "remaining i = drop (length (xbuf x)) (xbuf x') @ rest"
  shows "\<exists>i'. ImportBlockNode (imod c) i = Some (img_block c (lastOutputSrcPosition x) b, i') \<and>
     remaining i' = rest \<and> agrees c x' i'"
  using block.round_trip [OF assms] .

text \<open>A \<^verbatim>\<open>cpptry\<close> is imported as \<^verbatim>\<open>try\<close>, a return value in a global symbol as one in a local symbol.\<close>

theorem import_try_loses:
  "codes c p (output_fields (xmod c) (TryNode OP_cpptry ls)) (import_fields (imod c) OP_cpptry) (TryNode OP_try ls) p"
  by (simp only: fields_unfold) (rule codes_then, rule codes_labels, simp)

theorem import_return_loses:
  assumes "localSym (imod c) (ucast k) = Some (nm, ptr)" and "k \<noteq> 0" and "\<not> prefix ''L_STR'' nm"
  shows "codes c p (output_return_value (\<lparr>st_scope = 1, st_idx = k\<rparr>, r)) (import_return_value (imod c))
    (\<lparr>st_scope = kScopeLocal, st_idx = k\<rparr>, r) p"
  unfolding output_return_value_def import_return_value_def
  by (rule codes_bind, rule codes_intros, rule codes_bind, rule codes_intros, rule codes_then, rule codes_intros)
     (use assms in \<open>simp add: Let_def\<close>)

lemma exports_write_stmt_op: "exports S 10 (write_stmt_op op)"
  unfolding write_stmt_op_def by (rule exports_WriteNum)

lemma exports_OutputSrcPos: "exports S 20 (OutputSrcPos pos)"
proof -
  have e: "exports S (10 + 10) (\<lambda>x. do { x \<leftarrow> WriteNum a x; WriteNum b x })" for a b
    by (intro exports_intros)
  show ?thesis
    unfolding exports_def
  proof (intro allI impI)
    fix x :: exporter assume "S \<subseteq> dom (map_of (typMark x))"
    then show "\<exists>x'. OutputSrcPos pos x = Some x' \<and> S \<subseteq> dom (map_of (typMark x')) \<and> length (xbuf x') \<le> length (xbuf x) + 20"
      using e [of "ucast (RawData pos)" "ucast (LineNum pos)"]
        e [of "ucast (RawData (lastOutputSrcPosition x))" "ucast (LineNum (lastOutputSrcPosition x))"]
      by (fastforce simp: OutputSrcPos_def exports_def Option.bind_eq_Some_conv)
  qed
qed

lemma exports_fixed_up:
  assumes "exports S k body" and "extends body"
  shows "exports S (4 + k) (fixed_up num body)"
  unfolding exports_def
proof (intro allI impI)
  fix x :: exporter assume "S \<subseteq> dom (map_of (typMark x))"
  then obtain y where y: "body (x\<lparr>xbuf := xbuf x @ int_bytes 0\<rparr>) = Some y" "S \<subseteq> dom (map_of (typMark y))"
      "length (xbuf y) \<le> length (xbuf x) + 4 + k"
    using assms(1) [unfolded exports_def, rule_format, of "x\<lparr>xbuf := xbuf x @ int_bytes 0\<rparr>"]
    by (auto simp: int_bytes_def)
  obtain bs where bs: "xbuf y = xbuf x @ int_bytes 0 @ bs"
    using assms(2) y(1) by (fastforce simp: extends_def)
  have "Fixup (length (xbuf x)) (word_of_nat num) y = Some (y\<lparr>xbuf := xbuf x @ int_bytes (word_of_nat num) @ bs\<rparr>)"
    by (intro Fixup_bytes) (simp add: int_bytes_def bs)
  then show "\<exists>x'. fixed_up num body x = Some x' \<and> S \<subseteq> dom (map_of (typMark x')) \<and> length (xbuf x') \<le> length (xbuf x) + (4 + k)"
    using y bs by (simp add: fixed_up_def ExpandFourBuffSize_def WriteInt_bytes int_bytes_def)
qed

lemma exports_write_block:
  assumes "exports S k (output_stmts m ss)"
  shows "exports S (10 + (20 + (4 + k))) (write_block pos num (output_stmts m ss))"
  unfolding write_block_def
  by (intro exports_bind exports_WriteNum exports_OutputSrcPos exports_fixed_up assms extends_output_stmts grows_output_stmt)

lemma exports_write_stmt_head: "exports S (10 + (20 + 10)) (write_stmt_head pos op)"
  unfolding write_stmt_head_def by (intro exports_bind exports_WriteNum exports_OutputSrcPos exports_write_stmt_op)

definition sample_block :: BlockNode where
  "sample_block =
     (let p = \<lparr>RawData = 1, LineNum = 5\<rparr>; q = \<lparr>RawData = 1, LineNum = 7\<rparr> in
      Block p
        [(p, LabelNode 3),
         (zero_pos, CallNode OP_callassigned 2 0 [(\<lparr>st_scope = 2, st_idx = 1\<rparr>, 0, 0)] [RegreadNode PTY_i32 1]),
         (q, WhileStmtNode OP_while (Block q [(zero_pos, GotoNode OP_goto 3)]) sample_expr),
         (zero_pos, NaryStmtNode OP_return [])])"

lemma sample_block_ok: "ok_block sample_modules sample_block"
  using sample_expr_ok
  by (simp add: sample_block_def Let_def ok_stmt.simps ok_func_def ok_ret_def ok_args_def carried_call_def
      has_type_def is_assigned_def sample_simps)

lemma exports_stmts:
  "exports S 0 (output_stmts m [])"
  "exports S k (output_stmt m pos s) \<Longrightarrow> exports S l (output_stmts m ss) \<Longrightarrow> exports S (k + l) (output_stmts m ((pos, s) # ss))"
  "exports S k (output_fields m s) \<Longrightarrow> \<not> has_blocks s \<Longrightarrow> exports S (40 + k) (output_stmt m pos s)"
  "exports S k (output_stmts m ss) \<Longrightarrow> exports S l (OutputExpression m e) \<Longrightarrow>
     exports S (40 + (34 + k + l)) (output_stmt m pos (WhileStmtNode op (Block q ss) e))"
proof -
  show "exports S (40 + k) (output_stmt m pos s)" if "exports S k (output_fields m s)" "\<not> has_blocks s"
    using exports_bind [OF exports_write_stmt_head that(1)] by (simp add: output_stmt_simple [OF that(2)])
  show "exports S (40 + (34 + k + l)) (output_stmt m pos (WhileStmtNode op (Block q ss) e))"
    if "exports S k (output_stmts m ss)" "exports S l (OutputExpression m e)"
    using exports_bind [OF exports_write_stmt_head exports_bind [OF exports_write_block [OF that(1)] that(2)]]
    by (simp add: output_stmt_blocks)
qed (simp_all add: exports_Some exports_bind)

lemma exports_sample_call:
  "\<exists>k. exports S k (output_fields (xmod sample_modules)
     (CallNode OP_callassigned 2 0 [(\<lparr>st_scope = 2, st_idx = 1\<rparr>, 0, 0)] [RegreadNode PTY_i32 1])) \<and> k \<le> 1000"
  by (simp only: output_fields.simps has_type_def is_assigned_def stmt_class_of.simps stmt_class.case if_True if_False bind.simps
        OutputReturnValues_def [abs_def] output_return_value_def [abs_def])
     (rule exI, rule conjI,
      (rule exports_bind exports_WriteNum exports_OutputFuncViaSymName [OF sample_simps(5)] exports_write_counted
         exports_write_all_Cons exports_write_all_Nil | simp only: OutputExpression.simps | rule exports_OutputBaseNode)+, simp)

lemma exports_sample_block: "\<exists>k. exports {4} k (OutputBlockNode (xmod sample_modules) sample_block) \<and> k < 2 ^ 30"
proof -
  let ?m = "xmod sample_modules"
  obtain k where k: "exports {4} k (OutputExpression ?m sample_expr)" "k < 1000"
    using exports_sample_expr by blast
  obtain l where l: "exports {4} l (output_fields ?m
      (CallNode OP_callassigned 2 0 [(\<lparr>st_scope = 2, st_idx = 1\<rparr>, 0, 0)] [RegreadNode PTY_i32 1]))" "l \<le> 1000"
    using exports_sample_call by blast
  have f: "exports {4} 10 (output_fields ?m (LabelNode 3))" "exports {4} 10 (output_fields ?m (GotoNode OP_goto 3))"
      "exports {4} (10 + 0) (output_fields ?m (NaryStmtNode OP_return []))"
    unfolding output_fields.simps by (intro exports_intros)+
  have "\<exists>n. exports {4} n (OutputBlockNode ?m sample_block) \<and> n \<le> k + l + 1000"
    unfolding sample_block_def Let_def OutputBlockNode.simps
    by (rule exI, rule conjI, rule exports_write_block,
        rule exports_stmts(2), rule exports_stmts(3), rule f, simp add: has_blocks_def,
        rule exports_stmts(2), rule exports_stmts(3), rule l, simp add: has_blocks_def,
        rule exports_stmts(2), rule exports_stmts(4), rule exports_stmts(2), rule exports_stmts(3), rule f,
        simp add: has_blocks_def, rule exports_stmts(1), rule k,
        rule exports_stmts(2), rule exports_stmts(3), rule f, simp add: has_blocks_def, rule exports_stmts(1), simp)
  then show ?thesis using k(2) l(2) by (auto intro: le_less_trans)
qed

theorem ImportBlockNode_OutputBlockNode_witness:
  "\<exists>x' i'. OutputBlockNode (xmod sample_modules) sample_block Init_exporter = Some x' \<and>
     ImportBlockNode (imod sample_modules) (Reset_importer (xbuf x')) =
       Some (Block \<lparr>RawData = 1, LineNum = 5\<rparr>
        [(\<lparr>RawData = 1, LineNum = 5\<rparr>, LabelNode 3),
         (\<lparr>RawData = 1, LineNum = 5\<rparr>,
          CallNode OP_callassigned 5 0 [(\<lparr>st_scope = 2, st_idx = 1\<rparr>, 0, 0)] [RegreadNode PTY_i32 1]),
         (\<lparr>RawData = 1, LineNum = 7\<rparr>,
          WhileStmtNode OP_while
            (Block \<lparr>RawData = 1, LineNum = 7\<rparr> [(\<lparr>RawData = 1, LineNum = 7\<rparr>, GotoNode OP_goto 3)])
            (img_expr sample_modules sample_expr)),
         (\<lparr>RawData = 1, LineNum = 7\<rparr>, NaryStmtNode OP_return [])], i')"
proof -
  obtain k where k: "exports {4} k (OutputBlockNode (xmod sample_modules) sample_block)" "k < 2 ^ 30"
    using exports_sample_block by blast
  obtain x' where x': "OutputBlockNode (xmod sample_modules) sample_block Init_exporter = Some x'" "length (xbuf x') \<le> k"
    using exports_Init [OF k(1) four_is_primitive] .
  with k(2) have "\<exists>i'. ImportBlockNode (imod sample_modules) (Reset_importer (xbuf x')) =
      Some (img_block sample_modules (lastOutputSrcPosition Init_exporter) sample_block, i') \<and>
      remaining i' = [] \<and> agrees sample_modules x' i'"
    by (intro ImportBlockNode_OutputBlockNode [OF sample_block_ok x'(1) _ agrees_sample])
       (simp_all add: Init_exporter_def)
  moreover have "img_func sample_modules 2 = 5"
    by (simp add: img_func_def sample_simps)
  ultimately show ?thesis
    using x'(1)
    by (simp add: sample_block_def Let_def img_stmt.simps last_stmt.simps blk_pos_def img_pos_def zero_pos_def FileNum_def
        img_ret_def img_type_def) blast
qed

end
