(* ===== verification/DataInfo.thy ===== *)
theory DataInfo
  imports Prelude "HOL-Library.Word"
begin

text \<open>
  Sets of register numbers as vectors of 64-bit words (\<^verbatim>\<open>DataInfo\<close> in
  \<^verbatim>\<open>maple_be/include/cg/datainfo.h\<close>). \<open>bits\<close> is the set that a vector
  represents; every operation is shown to compute the operation on sets, and the locale
  \<open>data_info\<close> states what the analyses rely on. Out of range, the code has no defined
  behaviour: the facts ask for indices and sizes in range.
\<close>

unbundle bit_operations_syntax

section \<open>The vector and its operations\<close>

type_synonym DataInfo = "64 word list"

definition kWordSize :: nat where "kWordSize = 64"

definition new_DataInfo :: "nat \<Rightarrow> DataInfo" where
  "new_DataInfo bitNum = replicate (bitNum div kWordSize + 1) 0"

definition SetBit :: "nat \<Rightarrow> DataInfo \<Rightarrow> DataInfo" where
  "SetBit bitNO d = d[bitNO div kWordSize := d ! (bitNO div kWordSize) OR push_bit (bitNO mod kWordSize) 1]"

definition ResetBit :: "nat \<Rightarrow> DataInfo \<Rightarrow> DataInfo" where
  "ResetBit bitNO d = d[bitNO div kWordSize := d ! (bitNO div kWordSize) AND NOT (push_bit (bitNO mod kWordSize) 1)]"

definition TestBit :: "nat \<Rightarrow> DataInfo \<Rightarrow> bool" where
  "TestBit bitNO d \<longleftrightarrow> (d ! (bitNO div kWordSize)) AND push_bit (bitNO mod kWordSize) 1 \<noteq> 0"

definition NoneBit :: "DataInfo \<Rightarrow> bool" where
  "NoneBit d \<longleftrightarrow> list_all (\<lambda>data. data = 0) d"

definition Size :: "DataInfo \<Rightarrow> nat" where
  "Size d = length d * kWordSize"

definition IsEqual :: "DataInfo \<Rightarrow> DataInfo \<Rightarrow> bool" where
  "IsEqual d e \<longleftrightarrow> list_all (\<lambda>i. d ! i = e ! i) [0..<length d]"

definition AndBits :: "DataInfo \<Rightarrow> DataInfo \<Rightarrow> DataInfo" where
  "AndBits d e = map (\<lambda>i. d ! i AND e ! i) [0..<length d]"

definition OrBits :: "DataInfo \<Rightarrow> DataInfo \<Rightarrow> DataInfo" where
  "OrBits d e = map (\<lambda>i. d ! i OR e ! i) [0..<length d]"

definition EorBits :: "DataInfo \<Rightarrow> DataInfo \<Rightarrow> DataInfo" where
  "EorBits d e = map (\<lambda>i. d ! i XOR e ! i) [0..<length d]"

definition Difference :: "DataInfo \<Rightarrow> DataInfo \<Rightarrow> DataInfo" where
  "Difference d e = map (\<lambda>i. d ! i AND NOT (e ! i)) [0..<length d]"

definition OrDesignateBits :: "DataInfo \<Rightarrow> nat \<Rightarrow> DataInfo \<Rightarrow> DataInfo" where
  "OrDesignateBits e i d = d[i := d ! i OR e ! i]"

definition ResetAllBit :: "DataInfo \<Rightarrow> DataInfo" where
  "ResetAllBit d = map (\<lambda>data. 0) d"

definition EnlargeCapacityToAdaptSize :: "nat \<Rightarrow> DataInfo \<Rightarrow> DataInfo" where
  "EnlargeCapacityToAdaptSize bitNO d = d @ replicate (bitNO div kWordSize + 1 - length d) 0"

definition GetNonZeroElemsIndex :: "DataInfo \<Rightarrow> nat list" where
  "GetNonZeroElemsIndex d = filter (\<lambda>i. d ! i \<noteq> 0) [0..<length d]"

section \<open>The set of a vector\<close>

definition bits :: "DataInfo \<Rightarrow> nat set" where
  "bits d = {n. n div kWordSize < length d \<and> bit (d ! (n div kWordSize)) (n mod kWordSize)}"

lemma length_ops [simp]:
  "length (OrBits d e) = length d" "length (AndBits d e) = length d" "length (EorBits d e) = length d"
  "length (Difference d e) = length d" "length (ResetAllBit d) = length d" "length (SetBit n d) = length d"
  "length (ResetBit n d) = length d"
  by (simp_all add: OrBits_def AndBits_def EorBits_def Difference_def ResetAllBit_def SetBit_def ResetBit_def)

lemma bits_OrBits: "length d \<le> length e \<Longrightarrow> bits (OrBits d e) = bits d \<union> {n \<in> bits e. n div kWordSize < length d}"
  by (auto simp: bits_def OrBits_def bit_simps)

lemma xor_zero_iff: "a XOR b = 0 \<longleftrightarrow> a = (b :: 'a::len word)"
  by (auto simp: bit_eq_iff bit_simps)

lemma bits_pointwise:
  assumes "length d = length e"
  shows "bits (OrBits d e) = bits d \<union> bits e" "bits (AndBits d e) = bits d \<inter> bits e"
    "bits (Difference d e) = bits d - bits e" "bits (EorBits d e) = (bits d - bits e) \<union> (bits e - bits d)"
  using assms by (auto simp: bits_def OrBits_def AndBits_def Difference_def EorBits_def kWordSize_def bit_simps)

lemma bits_new: "bits (new_DataInfo n) = {}" "bits (ResetAllBit d) = {}"
  by (auto simp: bits_def new_DataInfo_def ResetAllBit_def simp del: replicate_Suc)

lemma NoneBit_bits: "NoneBit d \<longleftrightarrow> bits d = {}"
proof
  assume e: "bits d = {}"
  have "d ! i = 0" if "i < length d" for i
  proof (rule bit_word_eqI)
    fix n assume "n < LENGTH(64)"
    then have "(i * 64 + n) div 64 = i" "(i * 64 + n) mod 64 = n" by simp_all
    then have "i * 64 + n \<in> bits d \<longleftrightarrow> bit (d ! i) n" using that by (simp add: bits_def kWordSize_def)
    then show "bit (d ! i) n = bit 0 n" using e by simp
  qed
  then show "NoneBit d" by (simp add: NoneBit_def list_all_length)
qed (auto simp: NoneBit_def bits_def list_all_length)

lemma IsEqual_iff: "length d = length e \<Longrightarrow> IsEqual d e \<longleftrightarrow> d = e"
  by (auto simp: IsEqual_def list_all_iff intro: nth_equalityI)

lemma bits_inject: "length d = length e \<Longrightarrow> bits d = bits e \<longleftrightarrow> d = e"
proof
  assume l: "length d = length e" and b: "bits d = bits e"
  have "bits (EorBits d e) = {}" using bits_pointwise(4) [OF l] b by simp
  then have "NoneBit (EorBits d e)" by (simp add: NoneBit_bits)
  then have "d ! i = e ! i" if "i < length d" for i
    using that by (auto simp: NoneBit_def list_all_length EorBits_def xor_zero_iff)
  then show "d = e" using l by (simp add: nth_equalityI)
qed simp

lemma IsEqual_bits: "length d = length e \<Longrightarrow> IsEqual d e \<longleftrightarrow> bits d = bits e"
  by (simp add: IsEqual_iff bits_inject)

lemma div_mod_inject: "m div kWordSize = n div kWordSize \<Longrightarrow> m mod kWordSize = n mod kWordSize \<longleftrightarrow> m = n"
  by (metis div_mult_mod_eq)

lemma bit_mask1: "k < 64 \<Longrightarrow> bit (2 ^ k :: uint64) j \<longleftrightarrow> j = k"
  by (auto simp: bit_simps)

lemma mod_less_64: "n mod kWordSize < 64"
  by (simp add: kWordSize_def)

lemma div_less_length: "n < Size d \<longleftrightarrow> n div kWordSize < length d"
  by (simp add: Size_def kWordSize_def less_mult_imp_div_less div_less_iff_less_mult)

lemma bits_SetBit: "n < Size d \<Longrightarrow> bits (SetBit n d) = insert n (bits d)"
  using div_mod_inject [of _ n]
  by (auto simp: bits_def SetBit_def div_less_length nth_list_update bit_or_iff bit_mask1 mod_less_64)

lemma bits_ResetBit: "bits (ResetBit n d) = bits d - {n}"
  using div_mod_inject [of _ n]
  by (cases "n div kWordSize < length d")
     (auto simp: bits_def ResetBit_def nth_list_update bit_and_iff bit_not_iff bit_mask1 mod_less_64 list_update_beyond
       intro: impossible_bit dest: bit_imp_le_length)

lemma TestBit_bits: "n < Size d \<Longrightarrow> TestBit n d \<longleftrightarrow> n \<in> bits d"
  by (simp only: bits_def TestBit_def div_less_length mem_Collect_eq simp_thms flip: bit_iff_and_push_bit_not_eq_0)

lemma bits_less_Size: "n \<in> bits d \<Longrightarrow> n < Size d"
  by (simp add: bits_def div_less_length)

lemma bits_filter: "bits d = set (filter (\<lambda>n. bit (d ! (n div 64)) (n mod 64)) [0..<Size d])"
  by (auto simp: bits_def div_less_length) (simp_all add: kWordSize_def)

lemma bits_Enlarge: "bits (EnlargeCapacityToAdaptSize n d) = bits d" "n < Size (EnlargeCapacityToAdaptSize n d)"
proof -
  have "(d @ replicate k 0) ! i = (if i < length d then d ! i else 0)" if "i < length d + k" for i k
    using that by (simp add: nth_append)
  then show "bits (EnlargeCapacityToAdaptSize n d) = bits d"
    by (auto simp: bits_def EnlargeCapacityToAdaptSize_def simp del: replicate_Suc split: if_splits)
qed (simp add: EnlargeCapacityToAdaptSize_def div_less_length)

section \<open>Enumerating the bits\<close>

text \<open>\<^verbatim>\<open>__builtin_ffsll\<close>: one plus the position of the lowest bit.\<close>

definition ffsll :: "uint64 \<Rightarrow> nat" where
  "ffsll w = (case find (bit w) [0..<64] of None \<Rightarrow> 0 | Some n \<Rightarrow> n + 1)"

lemma ffsll:
  assumes "w \<noteq> 0"
  obtains n where "ffsll w = n + 1" and "n < 64" and "bit w n" and "\<And>k. k < n \<Longrightarrow> \<not> bit w k"
proof (cases "find (bit w) [0..<64]")
  case None
  then have "\<not> bit w n" for n
    using bit_imp_le_length [of w n] by (auto simp: find_None_iff)
  then show ?thesis using assms by (simp add: bit_eq_iff)
next
  case (Some n)
  then obtain i where "i < 64" "n = i" "bit w n" "\<forall>j<i. \<not> bit w j"
    by (auto simp: find_Some_iff)
  then show ?thesis using that [of n] Some by (auto simp: ffsll_def)
qed

text \<open>The loop over one word; the branch for \<^verbatim>\<open>index == 0\<close> is not reached.\<close>

function word_bits :: "nat \<Rightarrow> uint64 \<Rightarrow> uint32 \<Rightarrow> bool \<Rightarrow> uint32 list" where
  "word_bits i word result firstTime =
     (if word = 0 then []
      else let index = ffsll word in
        if index = 64 then [word_of_nat (i * kWordSize + (index - 1))]
        else
          let offset = (if firstTime then index - 1 else index);
              baseWord = (if firstTime then i * kWordSize else 0);
              result = result + word_of_nat (baseWord + offset)
          in result # word_bits i (drop_bit index word) result False)"
  by pat_completeness auto

lemma drop_bit_decreases:
  fixes w :: uint64
  assumes "w \<noteq> 0" and "0 < n"
  shows "unat (drop_bit n w) < unat w"
proof -
  have "unat (drop_bit n w) = unat w div 2 ^ n"
    by (simp only: unat_drop_bit_eq drop_bit_eq_div [of n "unat w"])
  moreover have "1 < (2 :: nat) ^ n" using assms(2) by (intro one_less_power) simp_all
  ultimately show ?thesis using assms(1) by (simp add: unat_gt_0)
qed

termination word_bits
proof (relation "measure (\<lambda>(i, word, result, firstTime). unat word)")
  fix i firstTime and word :: uint64 and result index offset baseWord and y :: uint32
  assume "word \<noteq> 0" and "index = ffsll word"
  moreover from this have "0 < index" by (auto elim: ffsll)
  ultimately show "((i, drop_bit index word, y, False), i, word, result, firstTime) \<in> measure (\<lambda>(i, word, result, firstTime). unat word)"
    by (simp add: drop_bit_decreases)
qed simp

declare word_bits.simps [simp del]

definition GetBitsOfInfo :: "DataInfo \<Rightarrow> uint32 list" where
  "GetBitsOfInfo d = concat (map (\<lambda>i. word_bits i (d ! i) 0 True) [0..<length d])"

lemma Collect_split: "(\<And>n. P n \<longleftrightarrow> n = k \<or> Q n) \<Longrightarrow> {f n | n. P n} = insert (f k) {f n | n. Q n}"
  by auto

text \<open>Behind the first bit the word is what is left above position \<open>p\<close> of the original word \<open>w\<close>.\<close>

lemma word_bits_later:
  "set (word_bits i (drop_bit (Suc p) w) (word_of_nat (i * 64 + p)) False) = {word_of_nat (i * 64 + n) | n. p < n \<and> bit w n}"
proof (induction "63 - p" arbitrary: p rule: less_induct)
  case less
  let ?d = "drop_bit (Suc p) w"
  show ?case
  proof (cases "?d = 0")
    case True
    have "\<not> bit w n" if "p < n" for n
    proof -
      have "bit ?d (n - Suc p) \<longleftrightarrow> bit w n" using that by (simp add: bit_drop_bit_eq)
      then show ?thesis using True by simp
    qed
    then show ?thesis using True by (auto simp: word_bits.simps)
  next
    case False
    then obtain k where k: "ffsll ?d = k + 1" "bit ?d k" "\<And>j. j < k \<Longrightarrow> \<not> bit ?d j"
      by (rule ffsll) blast
    let ?q = "Suc (p + k)"
    have q: "bit w ?q" and q64: "?q < 64"
      using k(2) bit_imp_le_length [of w ?q] by (simp_all add: bit_drop_bit_eq)
    have below: "\<not> bit w n" if "p < n" "n < ?q" for n
      using k(3) [of "n - Suc p"] that by (simp add: bit_drop_bit_eq)
    have "p < n \<and> bit w n \<longleftrightarrow> n = ?q \<or> ?q < n \<and> bit w n" for n
      using q below [of n] by (cases n ?q rule: linorder_cases) auto
    then have split: "{word_of_nat (i * 64 + n) | n. p < n \<and> bit w n} =
        insert (word_of_nat (i * 64 + ?q) :: uint32) {word_of_nat (i * 64 + n) | n. ?q < n \<and> bit w n}"
      by (rule Collect_split)
    have "drop_bit (k + 1) ?d = drop_bit (Suc ?q) w"
      by (simp add: add.commute)
    moreover have "word_of_nat (i * 64 + p) + word_of_nat (k + 1) = (word_of_nat (i * 64 + ?q) :: uint32)"
      by (simp only: of_nat_add [symmetric]) simp
    moreover have "word_bits i ?d (word_of_nat (i * 64 + p)) False =
        (word_of_nat (i * 64 + p) + word_of_nat (k + 1)) # word_bits i (drop_bit (k + 1) ?d) (word_of_nat (i * 64 + p) + word_of_nat (k + 1)) False"
      using False q64 by (subst word_bits.simps) (simp only: Let_def k(1) if_False simp_thms, simp)
    ultimately have "word_bits i ?d (word_of_nat (i * 64 + p)) False =
        word_of_nat (i * 64 + ?q) # word_bits i (drop_bit (Suc ?q) w) (word_of_nat (i * 64 + ?q)) False"
      by (simp only:)
    then show ?thesis
      using less [of ?q] q64 split by simp
  qed
qed

lemma set_word_bits: "set (word_bits i w 0 True) = {word_of_nat (i * 64 + n) | n. bit w n}"
proof (cases "w = 0")
  case False
  then obtain k where k: "ffsll w = k + 1" "k < 64" "bit w k" "\<And>j. j < k \<Longrightarrow> \<not> bit w j"
    by (rule ffsll) blast
  have "bit w n \<longleftrightarrow> n = k \<or> k < n \<and> bit w n" for n
    using k(3,4) by (cases n k rule: linorder_cases) auto
  then have split: "{word_of_nat (i * 64 + n) | n. bit w n} =
      insert (word_of_nat (i * 64 + k) :: uint32) {word_of_nat (i * 64 + n) | n. k < n \<and> bit w n}"
    by (rule Collect_split)
  show ?thesis
  proof (cases "k = 63")
    case True
    then have "\<not> bit w n" if "k < n" for n using that bit_imp_le_length [of w n] by auto
    then show ?thesis using False k(1) True split by (subst word_bits.simps) (auto simp: kWordSize_def)
  next
    case F: False
    then have "word_bits i w 0 True = word_of_nat (i * 64 + k) # word_bits i (drop_bit (Suc k) w) (word_of_nat (i * 64 + k)) False"
      using False k(1,2) by (subst word_bits.simps) (simp add: Let_def kWordSize_def)
    then show ?thesis using word_bits_later [of i k w] split by simp
  qed
qed (simp add: word_bits.simps)

lemma set_GetBitsOfInfo:
  assumes "Size d \<le> 2 ^ 32"
  shows "unat ` set (GetBitsOfInfo d) = bits d"
proof -
  have set: "set (GetBitsOfInfo d) = (\<Union>i<length d. {word_of_nat (i * 64 + n) | n. bit (d ! i) n})"
    by (auto simp: GetBitsOfInfo_def set_word_bits atLeast0LessThan)
  have small: "unat (word_of_nat (i * 64 + n) :: uint32) = i * 64 + n \<and> (i * 64 + n) div 64 = i \<and> (i * 64 + n) mod 64 = n"
    if "i < length d" and "bit (d ! i) n" for i n
  proof -
    have "n < 64" using bit_imp_le_length [OF that(2)] by simp
    moreover from this have "i * 64 + n < 2 ^ 32" using assms that(1) by (simp add: Size_def kWordSize_def)
    moreover have "unat (word_of_nat m :: uint32) = m" if "m < 2 ^ 32" for m
      using that by (simp add: unat_of_nat)
    ultimately show ?thesis by (simp del: of_nat_add of_nat_mult)
  qed
  show ?thesis
  proof (intro set_eqI iffI)
    fix m assume "m \<in> unat ` set (GetBitsOfInfo d)"
    then obtain i n where "i < length d" "bit (d ! i) n" "m = unat (word_of_nat (i * 64 + n) :: uint32)"
      by (auto simp: set)
    then show "m \<in> bits d" using small [of i n] by (simp add: bits_def kWordSize_def)
  next
    fix m assume "m \<in> bits d"
    then have m: "m div 64 < length d" "bit (d ! (m div 64)) (m mod 64)" by (simp_all add: bits_def kWordSize_def)
    then have "m = unat (word_of_nat (m div 64 * 64 + m mod 64) :: uint32)" using small [OF m] by (simp only: div_mult_mod_eq)
    then show "m \<in> unat ` set (GetBitsOfInfo d)" using m unfolding set by blast
  qed
qed

text \<open>
  \<^verbatim>\<open>GetBitsOfInfo\<close> lists exactly the numbers of the bits that are set, and
  ends: no position is missed by the shifts, the top bit of a word included.
\<close>

theorem GetBitsOfInfo_bits:
  assumes "Size d \<le> 2 ^ 32"
  shows "unat ` set (GetBitsOfInfo d) = bits d"
  using assms by (rule set_GetBitsOfInfo)

theorem GetBitsOfInfo_bits_witness:
  "unat ` set (GetBitsOfInfo [0x8000000000000005, 0x12]) = {0, 2, 63, 65, 68}"
proof -
  have "unat ` set (GetBitsOfInfo [0x8000000000000005, 0x12]) = bits [0x8000000000000005, 0x12]"
    by (rule GetBitsOfInfo_bits) (simp add: Size_def kWordSize_def)
  also have "\<dots> = set (filter (\<lambda>n. bit ([0x8000000000000005, 0x12 :: uint64] ! (n div 64)) (n mod 64)) [0..<128])"
    by (simp only: bits_filter) (simp only: Size_def kWordSize_def, simp)
  also have "\<dots> = {0, 2, 63, 65, 68}"
    by code_simp
  finally show ?thesis .
qed

section \<open>What the analyses rely on\<close>

text \<open>
  A representation of finite sets with the operations of \<^verbatim>\<open>DataInfo\<close>; \<open>sized\<close> says that
  a vector has the common size.
\<close>

locale data_info =
  fixes elems :: "'d \<Rightarrow> nat set" and sized :: "'d \<Rightarrow> bool"
    and orb andb diffb :: "'d \<Rightarrow> 'd \<Rightarrow> 'd" and none :: "'d \<Rightarrow> bool" and eqb :: "'d \<Rightarrow> 'd \<Rightarrow> bool"
  assumes orb: "sized d \<Longrightarrow> sized e \<Longrightarrow> sized (orb d e) \<and> elems (orb d e) = elems d \<union> elems e"
    and andb: "sized d \<Longrightarrow> sized e \<Longrightarrow> sized (andb d e) \<and> elems (andb d e) = elems d \<inter> elems e"
    and diffb: "sized d \<Longrightarrow> sized e \<Longrightarrow> sized (diffb d e) \<and> elems (diffb d e) = elems d - elems e"
    and none: "sized d \<Longrightarrow> none d \<longleftrightarrow> elems d = {}"
    and eqb: "sized d \<Longrightarrow> sized e \<Longrightarrow> eqb d e \<longleftrightarrow> elems d = elems e"
begin

lemma orb_if:
  assumes "sized d" and "sized e"
  shows "sized (if b \<and> \<not> none e then orb d e else d)"
    and "elems (if b \<and> \<not> none e then orb d e else d) = elems d \<union> (if b then elems e else {})"
  using assms orb none by auto

lemma fold_orb:
  assumes "sized d" and "\<And>x. x \<in> set xs \<Longrightarrow> sized (f x)"
  shows "sized (fold (\<lambda>x acc. orb acc (f x)) xs d) \<and> elems (fold (\<lambda>x acc. orb acc (f x)) xs d) = elems d \<union> (\<Union>x\<in>set xs. elems (f x))"
  using assms
proof (induction xs arbitrary: d)
  case (Cons x xs)
  then have "sized (orb d (f x)) \<and> elems (orb d (f x)) = elems d \<union> elems (f x)" using orb by simp
  then show ?case using Cons.IH [of "orb d (f x)"] Cons.prems(2) by auto
qed simp

lemma fold_orb_if:
  assumes "sized d" and "\<And>x. x \<in> set xs \<Longrightarrow> sized (f x)"
  shows "sized (fold (\<lambda>x acc. if b x \<and> \<not> none (f x) then orb acc (f x) else acc) xs d) \<and>
    elems (fold (\<lambda>x acc. if b x \<and> \<not> none (f x) then orb acc (f x) else acc) xs d) =
      elems d \<union> (\<Union>x\<in>{x \<in> set xs. b x}. elems (f x))"
  using assms
proof (induction xs arbitrary: d)
  case (Cons x xs)
  then show ?case using Cons.IH [of "if b x \<and> \<not> none (f x) then orb d (f x) else d"] orb_if [of d "f x" "b x"]
    by auto
qed simp

end

interpretation info: data_info bits "\<lambda>d. length d = L" OrBits AndBits Difference NoneBit IsEqual for L
  by unfold_locales (simp_all add: bits_pointwise NoneBit_bits IsEqual_bits)

end
