(* ===== verification/LiveAnalysis.thy ===== *)
theory LiveAnalysis
  imports DataInfo PrimTypes
begin

text \<open>
  The liveness analysis of the code generator (\<^verbatim>\<open>LiveAnalysis\<close> in
  \<^verbatim>\<open>maple_be/src/cg/live.cpp\<close>, its AArch64 part in
  \<^verbatim>\<open>src/cg/aarch64/aarch64_live.cpp\<close>): the registers each block defines and
  uses, the iteration that computes the registers live into and out of each block, and
  the registers that the cleanup block keeps alive. The blocks of a function are a list
  in layout order; a block is known by its position.
\<close>

section \<open>Functions, blocks and instructions\<close>

text \<open>A register operand is its number and whether its type is \<^verbatim>\<open>kRegTyVary\<close>.\<close>

type_synonym RegOperand = "nat \<times> bool"

datatype Operand =
    RegOpnd RegOperand
  | ListOpnd "RegOperand list"
  | MemOpnd "RegOperand option" "RegOperand option"
  | CondOpnd
  | OtherOpnd

text \<open>Each operand comes with the properties \<^verbatim>\<open>IsRegDef\<close> and \<^verbatim>\<open>IsRegUse\<close> of its position.\<close>

record Insn =
  isMachineInstruction :: bool
  isCall :: bool
  isAsm :: bool
  operands :: "(Operand \<times> bool \<times> bool) list"

record BB =
  insns :: "Insn list"
  isReturn :: bool
  isCleanup :: bool
  succs :: "nat list"
  ehPreds :: "nat list"
  ehSuccs :: "nat list"
  def_info :: DataInfo
  use_info :: DataInfo
  liveIn :: DataInfo
  liveOut :: DataInfo
  liveInChange :: bool
  insertUse :: bool

record CGFunc =
  bbs :: "BB list"
  maxVReg :: nat
  returnType :: PrimType
  cleanupEntryBB :: "nat option"

text \<open>The numbers of the machine registers; number 0 is no register.\<close>

definition R0 :: nat where "R0 = 1"
definition R1 :: nat where "R1 = 2"
definition V0 :: nat where "V0 = 34"
definition kRFLAG :: nat where "kRFLAG = 67"

section \<open>Definitions and uses of a block\<close>

definition CollectLiveInfo :: "bool \<Rightarrow> bool \<Rightarrow> RegOperand \<Rightarrow> BB \<Rightarrow> BB" where
  "CollectLiveInfo isDef isUse opnd bb =
     (let regNO = fst opnd in
      if snd opnd then bb
      else
        let bb = (if isDef
                  then (let bb = bb\<lparr>def_info := SetBit regNO (def_info bb)\<rparr> in
                        if \<not> isUse then bb\<lparr>use_info := ResetBit regNO (use_info bb)\<rparr> else bb)
                  else bb)
        in if isUse
           then bb\<lparr>use_info := SetBit regNO (use_info bb), def_info := ResetBit regNO (def_info bb)\<rparr>
           else bb)"

definition GenerateReturnBBDefUse :: "CGFunc \<Rightarrow> BB \<Rightarrow> BB" where
  "GenerateReturnBBDefUse f bb =
     (if IsPrimitiveFloat (returnType f) then CollectLiveInfo False True (V0, False) bb
      else if IsPrimitiveInteger (returnType f) then CollectLiveInfo False True (R0, False) bb
      else bb)"

definition ProcessCallInsnParam :: "BB \<Rightarrow> BB" where
  "ProcessCallInsnParam bb =
     fold (\<lambda>i bb. CollectLiveInfo True False (V0 + i, False) (CollectLiveInfo True False (R0 + i, False) bb)) [0..<8] bb"

definition kAsmOutputListOpnd :: nat where "kAsmOutputListOpnd = 1"
definition kAsmClobberListOpnd :: nat where "kAsmClobberListOpnd = 2"
definition kAsmInputListOpnd :: nat where "kAsmInputListOpnd = 3"

definition ProcessAsmListOpnd :: "nat \<Rightarrow> RegOperand list \<Rightarrow> BB \<Rightarrow> BB" where
  "ProcessAsmListOpnd idx ops bb =
     (if idx = kAsmOutputListOpnd \<or> idx = kAsmClobberListOpnd then fold (CollectLiveInfo True False) ops bb
      else if idx = kAsmInputListOpnd then fold (CollectLiveInfo False True) ops bb
      else bb)"

definition ProcessListOpnd :: "RegOperand list \<Rightarrow> BB \<Rightarrow> BB" where
  "ProcessListOpnd ops bb = fold (CollectLiveInfo False True) ops bb"

definition ProcessMemOpnd :: "RegOperand option \<Rightarrow> RegOperand option \<Rightarrow> BB \<Rightarrow> BB" where
  "ProcessMemOpnd base offset bb =
     (let bb = (case base of None \<Rightarrow> bb | Some r \<Rightarrow> CollectLiveInfo False True r bb) in
      case offset of None \<Rightarrow> bb | Some r \<Rightarrow> CollectLiveInfo False True r bb)"

definition ProcessCondOpnd :: "BB \<Rightarrow> BB" where
  "ProcessCondOpnd bb = CollectLiveInfo False True (kRFLAG, False) bb"

fun process_operand :: "bool \<Rightarrow> nat \<times> Operand \<times> bool \<times> bool \<Rightarrow> BB \<Rightarrow> BB" where
  "process_operand asm (i, ListOpnd ops, d, u) bb =
     (if asm then ProcessAsmListOpnd i ops bb else ProcessListOpnd ops bb)"
| "process_operand asm (i, MemOpnd b off, d, u) bb = ProcessMemOpnd b off bb"
| "process_operand asm (i, CondOpnd, d, u) bb = ProcessCondOpnd bb"
| "process_operand asm (i, RegOpnd r, d, u) bb = CollectLiveInfo d u r bb"
| "process_operand asm (i, OtherOpnd, d, u) bb = bb"

definition process_insn :: "Insn \<Rightarrow> BB \<Rightarrow> BB" where
  "process_insn insn bb =
     (if \<not> isMachineInstruction insn then bb
      else
        let bb = (if isCall insn \<and> \<not> isAsm insn then ProcessCallInsnParam bb else bb) in
        fold (process_operand (isAsm insn)) (enumerate 0 (operands insn)) bb)"

definition GetBBDefUse :: "CGFunc \<Rightarrow> BB \<Rightarrow> BB" where
  "GetBBDefUse f bb =
     (let bb = (if isReturn bb then GenerateReturnBBDefUse f bb else bb) in
      if insns bb = [] then bb
      else fold process_insn (rev (insns bb))
             (bb\<lparr>def_info := ResetAllBit (def_info bb), use_info := ResetAllBit (use_info bb)\<rparr>))"

text \<open>
  A block that exceptions enter gets two pseudo instructions in front that define the
  registers of the exception, and loses them again.
\<close>

definition pseudo_eh_def :: "nat \<Rightarrow> Insn" where
  "pseudo_eh_def r = \<lparr>isMachineInstruction = True, isCall = False, isAsm = False, operands = [(RegOpnd (r, False), True, False)]\<rparr>"

definition InitEhDefine :: "BB \<Rightarrow> BB" where
  "InitEhDefine bb = bb\<lparr>insns := pseudo_eh_def R0 # pseudo_eh_def R1 # insns bb\<rparr>"

definition InitBB :: "CGFunc \<Rightarrow> BB \<Rightarrow> BB" where
  "InitBB f bb =
     bb\<lparr>liveInChange := True, insertUse := False, liveIn := new_DataInfo (maxVReg f), liveOut := new_DataInfo (maxVReg f),
        def_info := new_DataInfo (maxVReg f), use_info := new_DataInfo (maxVReg f)\<rparr>"

definition init_bb :: "CGFunc \<Rightarrow> BB \<Rightarrow> BB" where
  "init_bb f bb =
     (let eh = (ehPreds bb \<noteq> []);
          bb = (if eh then InitEhDefine bb else bb);
          bb = GetBBDefUse f (InitBB f bb)
      in if eh then bb\<lparr>insns := tl (tl (insns bb))\<rparr> else bb)"

definition InitAndGetDefUse :: "CGFunc \<Rightarrow> CGFunc" where
  "InitAndGetDefUse f = f\<lparr>bbs := map (init_bb f) (bbs f)\<rparr>"

section \<open>Live registers\<close>

definition GenerateLiveOut :: "BB list \<Rightarrow> nat \<Rightarrow> bool \<times> BB list" where
  "GenerateLiveOut fs b =
     (let bak = liveOut (fs ! b);
          out = fold (\<lambda>s out.
                  let out = (if liveInChange (fs ! s) \<and> \<not> NoneBit (liveIn (fs ! s)) then OrBits out (liveIn (fs ! s)) else out)
                  in fold (\<lambda>e out. OrBits out (liveIn (fs ! e))) (ehSuccs (fs ! s)) out)
                (succs (fs ! b)) bak;
          out = fold (\<lambda>e out.
                  if liveInChange (fs ! e) \<and> \<not> NoneBit (liveIn (fs ! e)) then OrBits out (liveIn (fs ! e)) else out)
                (ehSuccs (fs ! b)) out
      in (\<not> IsEqual out bak, fs[b := (fs ! b)\<lparr>liveOut := out\<rparr>]))"

definition GenerateLiveIn :: "nat \<Rightarrow> BB list \<Rightarrow> nat \<Rightarrow> bool \<times> BB list" where
  "GenerateLiveIn regs fs b =
     (let bak = liveIn (fs ! b);
          bb = (if \<not> insertUse (fs ! b) then (fs ! b)\<lparr>liveIn := use_info (fs ! b), insertUse := True\<rparr> else fs ! b);
          bb = (if \<not> NoneBit (liveOut bb)
                then bb\<lparr>liveIn := OrBits (liveIn bb) (Difference (liveOut bb) (def_info bb))\<rparr> else bb);
          fs = fs[b := bb];
          bb = (if ehSuccs bb \<noteq> []
                then (let all = fold (\<lambda>e all. OrBits all (liveIn (fs ! e))) (ehSuccs bb) (new_DataInfo regs) in
                      bb\<lparr>liveIn := OrBits (liveIn bb) (AndBits all (def_info bb))\<rparr>)
                else bb)
      in (\<not> IsEqual (liveIn bb) bak, fs[b := bb]))"

definition live_step :: "nat \<Rightarrow> nat \<Rightarrow> BB list \<times> bool \<Rightarrow> BB list \<times> bool" where
  "live_step regs b st =
     (let (fs, hasChange) = st; (outChanged, fs) = GenerateLiveOut fs b in
      if \<not> outChanged \<and> insertUse (fs ! b) then (fs, hasChange)
      else
        let (inChanged, fs) = GenerateLiveIn regs fs b in
        (fs[b := (fs ! b)\<lparr>liveInChange := inChanged\<rparr>], hasChange \<or> inChanged))"

definition live_pass :: "nat \<Rightarrow> BB list \<Rightarrow> BB list \<times> bool" where
  "live_pass regs fs = fold (live_step regs) (rev [0..<length fs]) (fs, False)"

partial_function (option) build_in_out :: "nat \<Rightarrow> BB list \<Rightarrow> BB list option" where
  "build_in_out regs fs =
     (let (fs', hasChange) = live_pass regs fs in if hasChange then build_in_out regs fs' else Some fs')"

definition BuildInOutforFunc :: "CGFunc \<Rightarrow> CGFunc option" where
  "BuildInOutforFunc f = map_option (\<lambda>fs. f\<lparr>bbs := fs\<rparr>) (build_in_out (maxVReg f) (bbs f))"

section \<open>The cleanup block\<close>

definition insert_cleanup :: "nat \<times> BB \<Rightarrow> DataInfo \<times> BB list \<Rightarrow> DataInfo \<times> BB list" where
  "insert_cleanup ib st =
     (let (i, bb) = ib; (li, done) = st in
      if isCleanup bb then (li, done @ [bb])
      else
        let (li, bb) = (if i \<noteq> 0
                        then (let li = Difference li (def_info bb) in (li, bb\<lparr>liveIn := OrBits (liveIn bb) li\<rparr>))
                        else (li, bb))
        in (li, done @ [bb\<lparr>liveOut := OrBits (liveOut bb) li\<rparr>]))"

definition InsertInOutOfCleanupBB :: "CGFunc \<Rightarrow> CGFunc" where
  "InsertInOutOfCleanupBB f =
     (case cleanupEntryBB f of
        None \<Rightarrow> f
      | Some c \<Rightarrow>
          if NoneBit (liveIn (bbs f ! c)) then f
          else
            let li = fold ResetBit [29..<33] (fold ResetBit [1..<8] (liveIn (bbs f ! c))) in
            f\<lparr>bbs := snd (fold insert_cleanup (enumerate 0 (bbs f)) (li, []))\<rparr>)"

text \<open>The same for one register at a time, which the code keeps but does not call.\<close>

definition R8 :: nat where "R8 = 9"
definition R29 :: nat where "R29 = 30"
definition RZR :: nat where "RZR = 33"

definition CleanupBBIgnoreReg :: "nat \<Rightarrow> bool" where
  "CleanupBBIgnoreReg reg = (let regNO = reg + R0 in regNO < R8 \<or> (R29 \<le> regNO \<and> regNO \<le> RZR))"

definition DealWithInOutOfCleanupBB :: "CGFunc \<Rightarrow> CGFunc" where
  "DealWithInOutOfCleanupBB f =
     (case cleanupEntryBB f of
        None \<Rightarrow> f
      | Some c \<Rightarrow>
          fold (\<lambda>i f.
            if \<not> TestBit i (liveIn (bbs f ! c)) \<or> CleanupBBIgnoreReg i then f
            else f\<lparr>bbs := map (\<lambda>(k, bb).
                   if isCleanup bb then bb
                   else
                     let bb = (if k \<noteq> 0 \<and> \<not> TestBit i (def_info bb) then bb\<lparr>liveIn := SetBit i (liveIn bb)\<rparr> else bb)
                     in bb\<lparr>liveOut := SetBit i (liveOut bb)\<rparr>) (enumerate 0 (bbs f))\<rparr>)
            [0..<Size (liveIn (bbs f ! c))] f)"

definition AnalysisLive :: "CGFunc \<Rightarrow> CGFunc option" where
  "AnalysisLive f = map_option InsertInOutOfCleanupBB (BuildInOutforFunc (InitAndGetDefUse f))"


section \<open>The users of the result\<close>

definition ResetLiveSet :: "CGFunc \<Rightarrow> (uint32 list \<times> uint32 list) list" where
  "ResetLiveSet f = map (\<lambda>bb. (GetBitsOfInfo (liveIn bb), GetBitsOfInfo (liveOut bb))) (bbs f)"

definition EnlargeSpaceForLiveAnalysis :: "nat \<Rightarrow> CGFunc \<Rightarrow> CGFunc" where
  "EnlargeSpaceForLiveAnalysis currBB f =
     (if Size (liveIn (bbs f ! currBB)) \<le> maxVReg f
      then f\<lparr>bbs := map (\<lambda>bb. bb\<lparr>liveIn := EnlargeCapacityToAdaptSize (maxVReg f) (liveIn bb),
             liveOut := EnlargeCapacityToAdaptSize (maxVReg f) (liveOut bb)\<rparr>) (bbs f)\<rparr>
      else f)"

section \<open>Live registers as sets\<close>

definition li :: "BB list \<Rightarrow> nat \<Rightarrow> nat set" where "li fs b = bits (liveIn (fs ! b))"
definition lo :: "BB list \<Rightarrow> nat \<Rightarrow> nat set" where "lo fs b = bits (liveOut (fs ! b))"
definition used :: "BB list \<Rightarrow> nat \<Rightarrow> nat set" where "used fs b = bits (use_info (fs ! b))"
definition defd :: "BB list \<Rightarrow> nat \<Rightarrow> nat set" where "defd fs b = bits (def_info (fs ! b))"

text \<open>The blocks whose live-in registers flow into the live-out registers of a block.\<close>

definition direct :: "BB list \<Rightarrow> nat \<Rightarrow> nat set" where
  "direct fs b = set (succs (fs ! b)) \<union> set (ehSuccs (fs ! b))"

definition flow :: "BB list \<Rightarrow> nat \<Rightarrow> nat set" where
  "flow fs b = direct fs b \<union> (\<Union>s\<in>set (succs (fs ! b)). set (ehSuccs (fs ! s)))"

text \<open>The vectors have the size for \<open>regs\<close> registers and the edges lead to blocks.\<close>

definition wf_bb :: "nat \<Rightarrow> nat \<Rightarrow> BB \<Rightarrow> bool" where
  "wf_bb regs n bb \<longleftrightarrow>
     length (liveIn bb) = regs div kWordSize + 1 \<and> length (liveOut bb) = regs div kWordSize + 1 \<and>
     length (def_info bb) = regs div kWordSize + 1 \<and> length (use_info bb) = regs div kWordSize + 1 \<and>
     set (succs bb) \<subseteq> {..<n} \<and> set (ehSuccs bb) \<subseteq> {..<n}"

definition wf_bbs :: "nat \<Rightarrow> BB list \<Rightarrow> bool" where
  "wf_bbs regs fs \<longleftrightarrow> list_all (wf_bb regs (length fs)) fs"

lemma wf_bbsD: "wf_bbs regs fs \<Longrightarrow> b < length fs \<Longrightarrow> wf_bb regs (length fs) (fs ! b)"
  by (simp add: wf_bbs_def list_all_length)

lemma wf_succs: "wf_bbs regs fs \<Longrightarrow> b < length fs \<Longrightarrow> s \<in> set (succs (fs ! b)) \<Longrightarrow> s < length fs"
  "wf_bbs regs fs \<Longrightarrow> b < length fs \<Longrightarrow> s \<in> set (ehSuccs (fs ! b)) \<Longrightarrow> s < length fs"
  using wf_bbsD [of regs fs b] by (auto simp: wf_bb_def)

lemma wf_bbs_update: "wf_bbs regs fs \<Longrightarrow> wf_bb regs (length fs) bb \<Longrightarrow> wf_bbs regs (fs[b := bb])"
  by (cases "b < length fs") (auto simp: wf_bbs_def list_all_length nth_list_update list_update_beyond)

lemma wf_bb_records [simp]:
  "wf_bb regs n (bb\<lparr>liveInChange := a\<rparr>) = wf_bb regs n bb" "wf_bb regs n (bb\<lparr>insertUse := a\<rparr>) = wf_bb regs n bb"
  by (simp_all add: wf_bb_def)

lemma GenerateLiveOut_spec:
  assumes wf: "wf_bbs regs fs" and b: "b < length fs" and g: "GenerateLiveOut fs b = (ch, fs')"
  obtains out where "fs' = fs[b := (fs ! b)\<lparr>liveOut := out\<rparr>]" and "length out = regs div kWordSize + 1"
    and "bits out = lo fs b \<union> (\<Union>s\<in>{s \<in> direct fs b. liveInChange (fs ! s)}. li fs s) \<union>
      (\<Union>s\<in>set (succs (fs ! b)). \<Union>e\<in>set (ehSuccs (fs ! s)). li fs e)"
    and "ch \<longleftrightarrow> bits out \<noteq> lo fs b"
proof -
  let ?L = "regs div kWordSize + 1"
  let ?inner = "\<lambda>s out. fold (\<lambda>e out. OrBits out (liveIn (fs ! e))) (ehSuccs (fs ! s))
      (if liveInChange (fs ! s) \<and> \<not> NoneBit (liveIn (fs ! s)) then OrBits out (liveIn (fs ! s)) else out)"
  have len: "length (liveIn (fs ! s)) = ?L" if "s < length fs" for s
    using wf_bbsD [OF wf that] by (simp add: wf_bb_def)
  have inner: "length (?inner s out) = ?L \<and>
      bits (?inner s out) = bits out \<union> (if liveInChange (fs ! s) then li fs s else {}) \<union> (\<Union>e\<in>set (ehSuccs (fs ! s)). li fs e)"
    if s: "s \<in> set (succs (fs ! b))" and out: "length out = ?L" for s out
  proof -
    have "s < length fs" using wf_succs(1) [OF wf b s] .
    then show ?thesis
      using info.orb_if [OF out len, of s "liveInChange (fs ! s)"]
        info.fold_orb [of _ ?L "ehSuccs (fs ! s)" "\<lambda>e. liveIn (fs ! e)"] len wf_succs(2) [OF wf, of s]
      by (simp add: li_def)
  qed
  have outer: "length (fold ?inner xs out) = ?L \<and>
      bits (fold ?inner xs out) = bits out \<union> (\<Union>s\<in>{s \<in> set xs. liveInChange (fs ! s)}. li fs s) \<union> (\<Union>s\<in>set xs. \<Union>e\<in>set (ehSuccs (fs ! s)). li fs e)"
    if "set xs \<subseteq> set (succs (fs ! b))" and "length out = ?L" for xs out
    using that
  proof (induction xs arbitrary: out)
    case (Cons s xs)
    then show ?case using inner [of s out] Cons.IH [of "?inner s out"] by auto
  qed simp
  define out1 where "out1 = fold ?inner (succs (fs ! b)) (liveOut (fs ! b))"
  define out where "out = fold (\<lambda>e out.
      if liveInChange (fs ! e) \<and> \<not> NoneBit (liveIn (fs ! e)) then OrBits out (liveIn (fs ! e)) else out) (ehSuccs (fs ! b)) out1"
  have o: "length (liveOut (fs ! b)) = ?L" using wf_bbsD [OF wf b] by (simp add: wf_bb_def)
  have out1: "length out1 = ?L \<and> bits out1 = lo fs b \<union> (\<Union>s\<in>{s \<in> set (succs (fs ! b)). liveInChange (fs ! s)}. li fs s) \<union>
      (\<Union>s\<in>set (succs (fs ! b)). \<Union>e\<in>set (ehSuccs (fs ! s)). li fs e)"
    unfolding out1_def lo_def by (rule outer [OF order_refl o])
  have out: "length out = ?L \<and> bits out = bits out1 \<union> (\<Union>e\<in>{e \<in> set (ehSuccs (fs ! b)). liveInChange (fs ! e)}. li fs e)"
    unfolding out_def li_def using out1 len wf_succs(2) [OF wf b] by (intro info.fold_orb_if) auto
  have "fs' = fs[b := (fs ! b)\<lparr>liveOut := out\<rparr>]" and "ch \<longleftrightarrow> \<not> IsEqual out (liveOut (fs ! b))"
    using g unfolding GenerateLiveOut_def Let_def out1_def [symmetric] out_def [symmetric] by auto
  moreover have "ch \<longleftrightarrow> bits out \<noteq> lo fs b"
    using calculation(2) out o by (simp add: IsEqual_bits lo_def)
  moreover have "bits out = lo fs b \<union> (\<Union>s\<in>{s \<in> direct fs b. liveInChange (fs ! s)}. li fs s) \<union>
      (\<Union>s\<in>set (succs (fs ! b)). \<Union>e\<in>set (ehSuccs (fs ! s)). li fs e)"
  proof -
    have "{s \<in> direct fs b. liveInChange (fs ! s)} =
        {s \<in> set (succs (fs ! b)). liveInChange (fs ! s)} \<union> {e \<in> set (ehSuccs (fs ! b)). liveInChange (fs ! e)}"
      by (auto simp: direct_def)
    then show ?thesis using out1 out by (simp only: UN_Un Un_ac)
  qed
  ultimately show ?thesis by (intro that [OF _ conjunct1 [OF out]])
qed

lemma GenerateLiveIn_spec:
  assumes wf: "wf_bbs regs fs" and b: "b < length fs" and g: "GenerateLiveIn regs fs b = (ch, fs')"
  obtains ins where "fs' = fs[b := (fs ! b)\<lparr>liveIn := ins, insertUse := True\<rparr>]" and "length ins = regs div kWordSize + 1"
    and "(if insertUse (fs ! b) then li fs b else used fs b) \<union> (lo fs b - defd fs b) \<subseteq> bits ins"
    and "bits ins \<subseteq> (if insertUse (fs ! b) then li fs b else used fs b) \<union> (lo fs b - defd fs b) \<union>
      ((\<Union>e\<in>set (ehSuccs (fs ! b)) - {b}. li fs e) \<inter> defd fs b)"
    and "ch \<longleftrightarrow> bits ins \<noteq> li fs b"
proof -
  let ?L = "regs div kWordSize + 1"
  have w: "length (liveIn (fs ! b)) = ?L" "length (liveOut (fs ! b)) = ?L" "length (def_info (fs ! b)) = ?L" "length (use_info (fs ! b)) = ?L"
    using wf_bbsD [OF wf b] by (simp_all add: wf_bb_def)
  define bb1 where "bb1 = (if \<not> insertUse (fs ! b) then (fs ! b)\<lparr>liveIn := use_info (fs ! b), insertUse := True\<rparr> else fs ! b)"
  have bb1: "bb1 = (fs ! b)\<lparr>liveIn := liveIn bb1, insertUse := True\<rparr>" "length (liveIn bb1) = ?L"
      "bits (liveIn bb1) = (if insertUse (fs ! b) then li fs b else used fs b)"
    using w by (auto simp: bb1_def li_def used_def)
  define bb2 where "bb2 = (if \<not> NoneBit (liveOut bb1)
      then bb1\<lparr>liveIn := OrBits (liveIn bb1) (Difference (liveOut bb1) (def_info bb1))\<rparr> else bb1)"
  have f1: "liveOut bb1 = liveOut (fs ! b)" "def_info bb1 = def_info (fs ! b)" "ehSuccs bb1 = ehSuccs (fs ! b)"
    by (simp_all add: bb1_def)
  have bb2: "bb2 = (fs ! b)\<lparr>liveIn := liveIn bb2, insertUse := True\<rparr>" "length (liveIn bb2) = ?L"
      "bits (liveIn bb2) = (if insertUse (fs ! b) then li fs b else used fs b) \<union> (lo fs b - defd fs b)"
  proof -
    show "bb2 = (fs ! b)\<lparr>liveIn := liveIn bb2, insertUse := True\<rparr>"
      unfolding bb2_def by (subst (1 2) bb1(1)) simp
    show "length (liveIn bb2) = ?L" using bb1(2) by (simp add: bb2_def)
    show "bits (liveIn bb2) = (if insertUse (fs ! b) then li fs b else used fs b) \<union> (lo fs b - defd fs b)"
      using bb1(2,3) w by (auto simp: bb2_def f1 bits_pointwise NoneBit_bits lo_def defd_def)
  qed
  have f2: "def_info bb2 = def_info (fs ! b)" "ehSuccs bb2 = ehSuccs (fs ! b)"
    by (simp_all add: bb2_def f1)
  define all where "all = fold (\<lambda>e all. OrBits all (liveIn (fs[b := bb2] ! e))) (ehSuccs bb2) (new_DataInfo regs)"
  define bb3 where "bb3 = (if ehSuccs bb2 \<noteq> [] then bb2\<lparr>liveIn := OrBits (liveIn bb2) (AndBits all (def_info bb2))\<rparr> else bb2)"
  have len: "length (liveIn (fs[b := bb2] ! e)) = ?L" if "e \<in> set (ehSuccs bb2)" for e
    using wf_bbsD [OF wf, of e] wf_succs(2) [OF wf b, of e] that bb2(2) by (cases "e = b") (auto simp: wf_bb_def f2 b)
  have all: "length all = ?L \<and> bits all = (\<Union>e\<in>set (ehSuccs bb2). bits (liveIn (fs[b := bb2] ! e)))"
    unfolding all_def using info.fold_orb [of "new_DataInfo regs" ?L "ehSuccs bb2" "\<lambda>e. liveIn (fs[b := bb2] ! e)"] len
    by (simp add: bits_new) (simp add: new_DataInfo_def)
  have nth: "bits (liveIn (fs[b := bb2] ! e)) = (if e = b then bits (liveIn bb2) else li fs e)" for e
    by (cases "e = b") (simp_all add: li_def b)
  have bb3: "bb3 = (fs ! b)\<lparr>liveIn := liveIn bb3, insertUse := True\<rparr>" "length (liveIn bb3) = ?L"
      "bits (liveIn bb3) = bits (liveIn bb2) \<union> ((\<Union>e\<in>set (ehSuccs (fs ! b)). if e = b then bits (liveIn bb2) else li fs e) \<inter> defd fs b)"
  proof -
    show "bb3 = (fs ! b)\<lparr>liveIn := liveIn bb3, insertUse := True\<rparr>"
      unfolding bb3_def by (subst (1 2) bb2(1)) simp
    show "length (liveIn bb3) = ?L" using bb2(2) by (simp add: bb3_def)
    show "bits (liveIn bb3) = bits (liveIn bb2) \<union> ((\<Union>e\<in>set (ehSuccs (fs ! b)). if e = b then bits (liveIn bb2) else li fs e) \<inter> defd fs b)"
      using bb2(2) all w by (simp add: bb3_def bits_pointwise f2 defd_def nth)
  qed
  have "fs' = fs[b := bb3]" and "ch \<longleftrightarrow> \<not> IsEqual (liveIn bb3) (liveIn (fs ! b))"
    using g unfolding GenerateLiveIn_def Let_def bb1_def [symmetric] bb2_def [symmetric] all_def [symmetric] bb3_def [symmetric]
    by auto
  moreover have "ch \<longleftrightarrow> bits (liveIn bb3) \<noteq> li fs b"
    using calculation(2) bb3(2) w by (simp add: IsEqual_bits li_def)
  moreover have "(if insertUse (fs ! b) then li fs b else used fs b) \<union> (lo fs b - defd fs b) \<subseteq> bits (liveIn bb3)"
    using bb3(3) bb2(3) by blast
  moreover have "bits (liveIn bb3) \<subseteq> (if insertUse (fs ! b) then li fs b else used fs b) \<union> (lo fs b - defd fs b) \<union>
      ((\<Union>e\<in>set (ehSuccs (fs ! b)) - {b}. li fs e) \<inter> defd fs b)"
    using bb3(3) bb2(3) by (auto split: if_splits)
  ultimately show ?thesis
    using that [of "liveIn bb3"] bb3(1,2) by metis
qed

definition code :: "BB \<Rightarrow> Insn list \<times> bool \<times> bool \<times> nat list \<times> nat list \<times> nat list \<times> DataInfo \<times> DataInfo" where
  "code bb = (insns bb, isReturn bb, isCleanup bb, succs bb, ehPreds bb, ehSuccs bb, def_info bb, use_info bb)"

definition same_code :: "BB list \<Rightarrow> BB list \<Rightarrow> bool" where
  "same_code fs fs' \<longleftrightarrow> map code fs' = map code fs"

lemma same_code_refl [simp]: "same_code fs fs"
  by (simp add: same_code_def)

lemma same_code_trans: "same_code fs fs' \<Longrightarrow> same_code fs' fs'' \<Longrightarrow> same_code fs fs''"
  by (simp add: same_code_def)

lemma same_code_length: "same_code fs fs' \<Longrightarrow> length fs' = length fs"
  unfolding same_code_def by (metis length_map)

lemma same_code_update: "code bb = code (fs ! b) \<Longrightarrow> same_code fs (fs[b := bb])"
  by (cases "b < length fs") (simp_all add: same_code_def map_update list_update_same_conv list_update_beyond)

lemma same_code_fields:
  assumes "same_code fs fs'" and "b < length fs"
  shows "succs (fs' ! b) = succs (fs ! b)" "ehSuccs (fs' ! b) = ehSuccs (fs ! b)" "used fs' b = used fs b" "defd fs' b = defd fs b"
    "direct fs' b = direct fs b" "insns (fs' ! b) = insns (fs ! b)"
proof -
  have "code (fs' ! b) = code (fs ! b)"
    using arg_cong [of _ _ "\<lambda>xs. xs ! b", OF assms(1) [unfolded same_code_def]] same_code_length [OF assms(1)] assms(2) by simp
  then show "succs (fs' ! b) = succs (fs ! b)" "ehSuccs (fs' ! b) = ehSuccs (fs ! b)" "used fs' b = used fs b" "defd fs' b = defd fs b"
    "direct fs' b = direct fs b" "insns (fs' ! b) = insns (fs ! b)"
    by (simp_all add: code_def used_def defd_def direct_def)
qed

lemma same_code_flow:
  assumes wf: "wf_bbs regs fs" and s: "same_code fs fs'" and b: "b < length fs"
  shows "flow fs' b = flow fs b"
proof -
  have "ehSuccs (fs' ! s) = ehSuccs (fs ! s)" if "s \<in> set (succs (fs ! b))" for s
    using same_code_fields(2) [OF assms(2)] wf_succs(1) [OF wf b that] by blast
  then show ?thesis
    using same_code_fields(1,5) [OF s b] by (simp add: flow_def)
qed

text \<open>The registers that reach the live-out set of block \<open>x\<close> when it is visited.\<close>

definition incoming :: "BB list \<Rightarrow> nat \<Rightarrow> nat set" where
  "incoming fs x = (\<Union>s\<in>{s \<in> direct fs x. liveInChange (fs ! s)}. li fs s) \<union>
     (\<Union>s\<in>set (succs (fs ! x)). \<Union>e\<in>set (ehSuccs (fs ! s)). li fs e)"

text \<open>What one visit of block \<open>x\<close> does: nothing to its live-in set, or a recomputation of it.\<close>

definition unvisited :: "BB list \<Rightarrow> nat \<Rightarrow> BB list \<Rightarrow> bool" where
  "unvisited fs x fs' \<longleftrightarrow> li fs' x = li fs x \<and> lo fs' x = lo fs x \<and> insertUse (fs ! x) \<and> insertUse (fs' ! x) \<and>
     liveInChange (fs' ! x) = liveInChange (fs ! x)"

definition recomputed :: "BB list \<Rightarrow> nat \<Rightarrow> BB list \<Rightarrow> bool" where
  "recomputed fs x fs' \<longleftrightarrow> insertUse (fs' ! x) \<and>
     (if insertUse (fs ! x) then li fs x else used fs x) \<union> (lo fs' x - defd fs x) \<subseteq> li fs' x \<and>
     li fs' x \<subseteq> (if insertUse (fs ! x) then li fs x else used fs x) \<union> (lo fs' x - defd fs x) \<union>
       ((\<Union>e\<in>set (ehSuccs (fs ! x)) - {x}. li fs e) \<inter> defd fs x) \<and>
     (liveInChange (fs' ! x) \<longleftrightarrow> li fs' x \<noteq> li fs x)"

definition step_ok :: "nat \<Rightarrow> nat \<Rightarrow> BB list \<Rightarrow> bool \<Rightarrow> BB list \<Rightarrow> bool \<Rightarrow> bool" where
  "step_ok regs x fs h fs' h' \<longleftrightarrow> same_code fs fs' \<and> wf_bbs regs fs' \<and> (\<forall>b. b \<noteq> x \<longrightarrow> fs' ! b = fs ! b) \<and>
     lo fs' x = lo fs x \<union> incoming fs x \<and>
     (unvisited fs x fs' \<and> h' = h \<or> recomputed fs x fs' \<and> (h' \<longleftrightarrow> h \<or> li fs' x \<noteq> li fs x))"

lemma live_step_spec:
  assumes wf: "wf_bbs regs fs" and x: "x < length fs" and st: "live_step regs x (fs, h) = (fs', h')"
  shows "step_ok regs x fs h fs' h'"
proof -
  obtain oc fs1 where o: "GenerateLiveOut fs x = (oc, fs1)" by (cases "GenerateLiveOut fs x")
  obtain out where fs1: "fs1 = fs[x := (fs ! x)\<lparr>liveOut := out\<rparr>]" and lout: "length out = regs div kWordSize + 1"
    and bout: "bits out = lo fs x \<union> incoming fs x" and oc: "oc \<longleftrightarrow> bits out \<noteq> lo fs x"
    by (rule GenerateLiveOut_spec [OF wf x o]) (simp only: incoming_def Un_assoc)
  have wf1: "wf_bbs regs fs1"
    unfolding fs1 using wf_bbsD [OF wf x] lout by (intro wf_bbs_update [OF wf]) (simp add: wf_bb_def)
  have x1: "x < length fs1" using x by (simp add: fs1)
  have s1: "same_code fs fs1" unfolding fs1 by (rule same_code_update) (simp add: code_def)
  have l1: "li fs1 b = li fs b" "lo fs1 x = bits out" "insertUse (fs1 ! b) = insertUse (fs ! b)"
      "liveInChange (fs1 ! b) = liveInChange (fs ! b)" for b
    using x by (cases "b = x"; simp add: fs1 li_def lo_def)+
  show ?thesis
  proof (cases "\<not> oc \<and> insertUse (fs1 ! x)")
    case True
    then have "fs' = fs1" "h' = h" using st by (simp_all add: live_step_def o)
    then show ?thesis
      using True s1 wf1 l1 oc bout by (auto simp: step_ok_def unvisited_def fs1)
  next
    case False
    obtain ic fs2 where i: "GenerateLiveIn regs fs1 x = (ic, fs2)" by (cases "GenerateLiveIn regs fs1 x")
    obtain ins where fs2: "fs2 = fs1[x := (fs1 ! x)\<lparr>liveIn := ins, insertUse := True\<rparr>]" and lins: "length ins = regs div kWordSize + 1"
      and low: "(if insertUse (fs1 ! x) then li fs1 x else used fs1 x) \<union> (lo fs1 x - defd fs1 x) \<subseteq> bits ins"
      and up: "bits ins \<subseteq> (if insertUse (fs1 ! x) then li fs1 x else used fs1 x) \<union> (lo fs1 x - defd fs1 x) \<union>
        ((\<Union>e\<in>set (ehSuccs (fs1 ! x)) - {x}. li fs1 e) \<inter> defd fs1 x)"
      and ic: "ic \<longleftrightarrow> bits ins \<noteq> li fs1 x"
      by (rule GenerateLiveIn_spec [OF wf1 x1 i])
    have e: "live_step regs x (fs, h) = (fs2[x := (fs2 ! x)\<lparr>liveInChange := ic\<rparr>], h \<or> ic)"
      using False by (auto simp: live_step_def o i)
    have fs': "fs' = fs[x := (fs ! x)\<lparr>liveOut := out, liveIn := ins, insertUse := True, liveInChange := ic\<rparr>]" and h': "h' \<longleftrightarrow> h \<or> ic"
      using e st x by (simp_all add: fs2 fs1)
    have l': "li fs' b = (if b = x then bits ins else li fs b)" "lo fs' x = bits out" "insertUse (fs' ! x)" "liveInChange (fs' ! x) \<longleftrightarrow> ic" for b
      using x by (cases "b = x"; simp add: fs' li_def lo_def)+
    have "wf_bbs regs fs'"
      unfolding fs' using wf_bbsD [OF wf x] lout lins by (intro wf_bbs_update [OF wf]) (simp add: wf_bb_def)
    moreover have "same_code fs fs'" unfolding fs' by (rule same_code_update) (simp add: code_def)
    moreover have "fs' ! b = fs ! b" if "b \<noteq> x" for b using that by (simp add: fs')
    moreover have "recomputed fs x fs'"
      using low up ic unfolding recomputed_def l' l1 same_code_fields [OF s1 x] by (simp add: l1 l')
    ultimately show ?thesis
      using h' ic bout by (simp add: step_ok_def l' l1)
  qed
qed

end
