(* ===== verification/LiveDefUse.thy ===== *)
theory LiveDefUse
  imports LiveAnalysis
begin

text \<open>
  What \<^verbatim>\<open>AArch64LiveAnalysis::GetBBDefUse\<close> computes: the registers whose first
  mention in the block is a use, and those whose first mention is a definition. An
  instruction is the list of its register events in the order in which the code collects
  them; \<open>LiveAnalysis.init_bb\<close> starts the iteration on well-formed blocks.
\<close>

section \<open>Register events\<close>

type_synonym event = "bool \<times> bool \<times> RegOperand"

definition defs :: "RegOperand list \<Rightarrow> event list" where
  "defs ops = map (\<lambda>r. (True, False, r)) ops"

definition uses :: "RegOperand list \<Rightarrow> event list" where
  "uses ops = map (\<lambda>r. (False, True, r)) ops"

fun operand_events :: "bool \<Rightarrow> nat \<times> Operand \<times> bool \<times> bool \<Rightarrow> event list" where
  "operand_events asm (i, ListOpnd ops, d, u) =
     (if \<not> asm then uses ops
      else if i \<in> {kAsmOutputListOpnd, kAsmClobberListOpnd} then defs ops
      else if i = kAsmInputListOpnd then uses ops else [])"
| "operand_events asm (i, MemOpnd base offset, d, u) =
     uses ((case base of None \<Rightarrow> [] | Some r \<Rightarrow> [r]) @ (case offset of None \<Rightarrow> [] | Some r \<Rightarrow> [r]))"
| "operand_events asm (i, CondOpnd, d, u) = uses [(kRFLAG, False)]"
| "operand_events asm (i, RegOpnd r, d, u) = [(d, u, r)]"
| "operand_events asm (i, OtherOpnd, d, u) = []"

definition call_events :: "event list" where
  "call_events = defs (concat (map (\<lambda>i. [(R0 + i, False), (V0 + i, False)]) [0..<8]))"

definition insn_events :: "Insn \<Rightarrow> event list" where
  "insn_events insn =
     (if \<not> isMachineInstruction insn then []
      else (if isCall insn \<and> \<not> isAsm insn then call_events else []) @
        concat (map (operand_events (isAsm insn)) (enumerate 0 (operands insn))))"

text \<open>The last event on a register, as whether it is a use.\<close>

fun last_event :: "nat \<Rightarrow> event list \<Rightarrow> bool option" where
  "last_event v [] = None"
| "last_event v ((d, u, r) # es) =
     (case last_event v es of Some u' \<Rightarrow> Some u' | None \<Rightarrow> if r = (v, False) \<and> (d \<or> u) then Some u else None)"

text \<open>The first instruction of the block that mentions the register decides.\<close>

fun block_event :: "nat \<Rightarrow> Insn list \<Rightarrow> bool option" where
  "block_event v [] = None"
| "block_event v (insn # is) =
     (case last_event v (insn_events insn) of Some u \<Rightarrow> Some u | None \<Rightarrow> block_event v is)"

definition events_in :: "nat \<Rightarrow> event list \<Rightarrow> bool" where
  "events_in regs es \<longleftrightarrow> list_all (\<lambda>(d, u, r). snd r \<or> fst r \<le> regs) es"

lemma last_event_append:
  "last_event v (xs @ ys) = (case last_event v ys of Some u \<Rightarrow> Some u | None \<Rightarrow> last_event v xs)"
  by (induction xs rule: last_event.induct) (auto split: option.splits)

lemma last_event_block: "last_event v (concat (map insn_events (rev is))) = block_event v is"
  by (induction "is") (auto simp: last_event_append split: option.splits)

section \<open>Processing as a fold over the events\<close>

definition collect :: "event \<Rightarrow> BB \<Rightarrow> BB" where
  "collect e = (case e of (d, u, r) \<Rightarrow> CollectLiveInfo d u r)"

lemma fold_defs: "fold collect (defs ops) = fold (CollectLiveInfo True False) ops"
  by (induction ops) (simp_all add: defs_def collect_def fun_eq_iff)

lemma fold_uses: "fold collect (uses ops) = fold (CollectLiveInfo False True) ops"
  by (induction ops) (simp_all add: uses_def collect_def fun_eq_iff)

lemma fold_operand_events: "fold collect (operand_events asm x) bb = process_operand asm x bb"
  by (cases "(asm, x)" rule: operand_events.cases)
     (auto simp: fold_defs fold_uses ProcessAsmListOpnd_def ProcessListOpnd_def ProcessMemOpnd_def ProcessCondOpnd_def
       collect_def kAsmInputListOpnd_def kAsmOutputListOpnd_def kAsmClobberListOpnd_def split: option.splits)

lemma fold_concat: "(\<And>x s. fold f (g x) s = h x s) \<Longrightarrow> fold f (concat (map g xs)) s = fold h xs s"
  by (induction xs arbitrary: s) simp_all

lemma fold_call_events: "fold collect call_events bb = ProcessCallInsnParam bb"
  by (simp add: call_events_def fold_defs ProcessCallInsnParam_def) (rule fold_concat, simp)

lemma fold_insn_events: "fold collect (insn_events insn) bb = process_insn insn bb"
  by (simp add: insn_events_def process_insn_def fold_call_events fold_concat [OF fold_operand_events])

section \<open>The sets that the processing computes\<close>

text \<open>Only the two vectors change, and they keep their size.\<close>

definition same_frame :: "BB \<Rightarrow> BB \<Rightarrow> bool" where
  "same_frame bb bb' \<longleftrightarrow> bb' = bb\<lparr>def_info := def_info bb', use_info := use_info bb'\<rparr> \<and>
     length (def_info bb') = length (def_info bb) \<and> length (use_info bb') = length (use_info bb)"

lemma same_frame_refl [simp]: "same_frame bb bb"
  by (simp add: same_frame_def)

lemma same_frame_trans: "same_frame a b \<Longrightarrow> same_frame b c \<Longrightarrow> same_frame a c"
  unfolding same_frame_def by (cases a; cases b; cases c) simp

lemma same_frame_fields:
  assumes "same_frame bb bb'"
  shows "insns bb' = insns bb" "isReturn bb' = isReturn bb" "isCleanup bb' = isCleanup bb" "succs bb' = succs bb"
    "ehPreds bb' = ehPreds bb" "ehSuccs bb' = ehSuccs bb" "liveIn bb' = liveIn bb" "liveOut bb' = liveOut bb"
    "liveInChange bb' = liveInChange bb" "insertUse bb' = insertUse bb"
    "length (def_info bb') = length (def_info bb)" "length (use_info bb') = length (use_info bb)"
  using assms unfolding same_frame_def by (cases bb; cases bb'; simp)+

lemma collect_frame: "same_frame bb (collect e bb)"
  by (simp add: collect_def CollectLiveInfo_def Let_def same_frame_def split: prod.split)

lemma fold_collect_frame: "same_frame bb (fold collect es bb)"
  by (induction es arbitrary: bb) (simp, simp, blast intro: same_frame_trans collect_frame)

lemma collect_sets:
  assumes "snd r \<or> fst r < Size (def_info bb)" and "length (use_info bb) = length (def_info bb)"
  shows "v \<in> bits (use_info (collect (d, u, r) bb)) \<longleftrightarrow> (if r = (v, False) \<and> (d \<or> u) then u else v \<in> bits (use_info bb))"
    and "v \<in> bits (def_info (collect (d, u, r) bb)) \<longleftrightarrow> (if r = (v, False) \<and> (d \<or> u) then \<not> u else v \<in> bits (def_info bb))"
proof -
  have "snd r \<or> fst r < Size (use_info bb)" using assms by (simp add: Size_def)
  then show "v \<in> bits (use_info (collect (d, u, r) bb)) \<longleftrightarrow> (if r = (v, False) \<and> (d \<or> u) then u else v \<in> bits (use_info bb))"
    by (cases r) (auto simp: collect_def CollectLiveInfo_def bits_SetBit bits_ResetBit)
  show "v \<in> bits (def_info (collect (d, u, r) bb)) \<longleftrightarrow> (if r = (v, False) \<and> (d \<or> u) then \<not> u else v \<in> bits (def_info bb))"
    using assms(1) by (cases r) (auto simp: collect_def CollectLiveInfo_def bits_SetBit bits_ResetBit Size_def)
qed

lemma fold_collect_sets:
  assumes "events_in regs es" and "length (def_info bb) = regs div kWordSize + 1" and "length (use_info bb) = regs div kWordSize + 1"
  shows "(v \<in> bits (use_info (fold collect es bb)) \<longleftrightarrow> (case last_event v es of Some u \<Rightarrow> u | None \<Rightarrow> v \<in> bits (use_info bb))) \<and>
    (v \<in> bits (def_info (fold collect es bb)) \<longleftrightarrow> (case last_event v es of Some u \<Rightarrow> \<not> u | None \<Rightarrow> v \<in> bits (def_info bb)))"
  using assms
proof (induction v es arbitrary: bb rule: last_event.induct)
  case (2 v d u r es)
  let ?bb = "collect (d, u, r) bb"
  have len: "length (def_info ?bb) = regs div kWordSize + 1" "length (use_info ?bb) = regs div kWordSize + 1"
    using same_frame_fields(11,12) [OF collect_frame [of bb "(d, u, r)"]] "2.prems"(2,3) by simp_all
  have "snd r \<or> fst r < Size (def_info bb)"
    using "2.prems"(1,2) by (auto simp: events_in_def Size_def kWordSize_def)
  note sets = collect_sets [OF this, of v d u]
  have "events_in regs es" using "2.prems"(1) by (simp add: events_in_def)
  from "2.IH" [OF this len] show ?case
    using sets "2.prems"(2,3) by (auto split: option.splits)
qed simp


lemma fold_process_insn: "fold process_insn is bb = fold collect (concat (map insn_events is)) bb"
  by (rule fold_concat [symmetric]) (rule fold_insn_events)

lemma events_in_concat: "events_in regs (concat (map insn_events is)) \<longleftrightarrow> list_all (\<lambda>i. events_in regs (insn_events i)) is"
  by (induction "is") (simp_all add: events_in_def)

lemma GetBBDefUse_sets:
  assumes "insns bb \<noteq> []" and "list_all (\<lambda>i. events_in regs (insn_events i)) (insns bb)"
    and "length (def_info bb) = regs div kWordSize + 1" and "length (use_info bb) = regs div kWordSize + 1"
  shows "bits (use_info (GetBBDefUse f bb)) = {v. block_event v (insns bb) = Some True}"
    and "bits (def_info (GetBBDefUse f bb)) = {v. block_event v (insns bb) = Some False}"
proof -
  define bb1 where "bb1 = (if isReturn bb then GenerateReturnBBDefUse f bb else bb)"
  have "same_frame bb bb1"
    using collect_frame [of bb "(False, True, (V0, False))"] collect_frame [of bb "(False, True, (R0, False))"]
    by (simp add: bb1_def GenerateReturnBBDefUse_def collect_def)
  note frame = same_frame_fields [OF this]
  let ?bb = "bb1\<lparr>def_info := ResetAllBit (def_info bb1), use_info := ResetAllBit (use_info bb1)\<rparr>"
  have get: "GetBBDefUse f bb = fold collect (concat (map insn_events (rev (insns bb)))) ?bb"
    using assms(1) by (simp add: GetBBDefUse_def Let_def fold_process_insn frame(1) flip: bb1_def)
  have "events_in regs (concat (map insn_events (rev (insns bb))))"
    using assms(2) by (simp add: events_in_concat list_all_iff)
  from fold_collect_sets [OF this, of ?bb] assms(3,4)
  have "v \<in> bits (use_info (GetBBDefUse f bb)) \<longleftrightarrow> block_event v (insns bb) = Some True"
    "v \<in> bits (def_info (GetBBDefUse f bb)) \<longleftrightarrow> block_event v (insns bb) = Some False" for v
    unfolding get by (auto simp: frame bits_new last_event_block split: option.splits)
  then show "bits (use_info (GetBBDefUse f bb)) = {v. block_event v (insns bb) = Some True}"
    and "bits (def_info (GetBBDefUse f bb)) = {v. block_event v (insns bb) = Some False}" by blast+
qed

lemma GetBBDefUse_frame: "same_frame bb (GetBBDefUse f bb)"
proof -
  have r: "same_frame bb (GenerateReturnBBDefUse f bb)" for bb
    using collect_frame [of bb "(False, True, (V0, False))"] collect_frame [of bb "(False, True, (R0, False))"]
    by (simp add: GenerateReturnBBDefUse_def collect_def)
  have "same_frame bb (bb\<lparr>def_info := ResetAllBit (def_info bb), use_info := ResetAllBit (use_info bb)\<rparr>)" for bb
    by (simp add: same_frame_def)
  then have "same_frame bb (fold process_insn is (bb\<lparr>def_info := ResetAllBit (def_info bb), use_info := ResetAllBit (use_info bb)\<rparr>))" for bb "is"
    unfolding fold_process_insn by (rule same_frame_trans [OF _ fold_collect_frame])
  then show ?thesis
    unfolding GetBBDefUse_def Let_def using r [of bb] by (auto intro: same_frame_trans)
qed

section \<open>The start of the iteration\<close>

definition code_regs_ok :: "CGFunc \<Rightarrow> BB \<Rightarrow> bool" where
  "code_regs_ok f bb \<longleftrightarrow> list_all (\<lambda>i. events_in (maxVReg f) (insn_events i)) (insns bb)"

lemma pseudo_events: "insn_events (pseudo_eh_def r) = [(True, False, (r, False))]"
  by (simp add: insn_events_def pseudo_eh_def_def)

lemma length_new [simp]: "length (new_DataInfo n) = n div kWordSize + 1"
  by (simp add: new_DataInfo_def)

lemma init_bb_frame:
  "insns (init_bb f bb) = insns bb" "succs (init_bb f bb) = succs bb" "ehSuccs (init_bb f bb) = ehSuccs bb"
  "ehPreds (init_bb f bb) = ehPreds bb" "isCleanup (init_bb f bb) = isCleanup bb"
  "liveIn (init_bb f bb) = new_DataInfo (maxVReg f)" "liveOut (init_bb f bb) = new_DataInfo (maxVReg f)"
  "liveInChange (init_bb f bb)" "\<not> insertUse (init_bb f bb)"
  "length (def_info (init_bb f bb)) = maxVReg f div kWordSize + 1"
  "length (use_info (init_bb f bb)) = maxVReg f div kWordSize + 1"
  using same_frame_fields [OF GetBBDefUse_frame [of "InitBB f bb" f]]
    same_frame_fields [OF GetBBDefUse_frame [of "InitBB f (InitEhDefine bb)" f]]
  by (simp_all add: init_bb_def Let_def InitBB_def InitEhDefine_def)

text \<open>
  (C24) Before the iteration, a block uses exactly the registers whose first mention in
  its instructions is a use, and defines those whose first mention is a definition: for a
  call the parameter registers count as defined, for an inline assembly the outputs and
  clobbers, and a block that an exception enters defines \<^verbatim>\<open>R0\<close> and \<^verbatim>\<open>R1\<close> in front of
  all its instructions.
\<close>

theorem init_bb_def_use:
  assumes "insns bb \<noteq> [] \<or> ehPreds bb \<noteq> []" and "code_regs_ok f bb" and "2 \<le> maxVReg f"
  shows "bits (use_info (init_bb f bb)) = {v. block_event v (insns bb) = Some True} - (if ehPreds bb = [] then {} else {R0, R1}) \<and>
    bits (def_info (init_bb f bb)) = {v. block_event v (insns bb) = Some False} \<union> (if ehPreds bb = [] then {} else {R0, R1})"
proof -
  let ?bb = "InitBB f (if ehPreds bb = [] then bb else InitEhDefine bb)"
  have "insns ?bb \<noteq> []" using assms(1) by (auto simp: InitBB_def InitEhDefine_def)
  moreover have "list_all (\<lambda>i. events_in (maxVReg f) (insn_events i)) (insns ?bb)"
    using assms(2,3) by (simp add: code_regs_ok_def InitBB_def InitEhDefine_def pseudo_events) (simp add: events_in_def R0_def R1_def)
  moreover have "length (def_info ?bb) = maxVReg f div kWordSize + 1" "length (use_info ?bb) = maxVReg f div kWordSize + 1"
    by (simp_all add: InitBB_def)
  ultimately have sets: "bits (use_info (GetBBDefUse f ?bb)) = {v. block_event v (insns ?bb) = Some True}"
    "bits (def_info (GetBBDefUse f ?bb)) = {v. block_event v (insns ?bb) = Some False}"
    by (rule GetBBDefUse_sets)+
  have same: "use_info (init_bb f bb) = use_info (GetBBDefUse f ?bb)" "def_info (init_bb f bb) = def_info (GetBBDefUse f ?bb)"
    by (simp_all add: init_bb_def Let_def)
  have first: "block_event v (insns ?bb) = (if ehPreds bb \<noteq> [] \<and> v \<in> {R0, R1} then Some False else block_event v (insns bb))" for v
    by (simp add: InitBB_def InitEhDefine_def pseudo_events)
  show ?thesis
    unfolding same sets first by auto
qed

text \<open>An instance: a block that an exception enters, with an addition from memory and a call.\<close>

definition entry_bb :: BB where
  "entry_bb = \<lparr>insns = [\<lparr>isMachineInstruction = True, isCall = False, isAsm = False,
             operands = [(RegOpnd (70, False), True, False), (MemOpnd (Some (1, False)) (Some (71, False)), False, True)]\<rparr>,
           \<lparr>isMachineInstruction = True, isCall = True, isAsm = False, operands = [(ListOpnd [(71, False), (70, False)], False, True)]\<rparr>],
        isReturn = False, isCleanup = False, succs = [], ehPreds = [1], ehSuccs = [],
        def_info = [], use_info = [], liveIn = [], liveOut = [], liveInChange = False, insertUse = False\<rparr>"

theorem init_bb_def_use_witness:
  "bits (use_info (init_bb \<lparr>bbs = [], maxVReg = 80, returnType = PTY_void, cleanupEntryBB = None\<rparr> entry_bb)) = {71}"
proof -
  let ?f = "\<lparr>bbs = [], maxVReg = 80, returnType = PTY_void, cleanupEntryBB = None\<rparr>"
  have "bits (use_info (init_bb ?f entry_bb)) =
      {v. block_event v (insns entry_bb) = Some True} - (if ehPreds entry_bb = [] then {} else {R0, R1})"
    by (rule init_bb_def_use [THEN conjunct1])
       (simp_all add: entry_bb_def code_regs_ok_def insn_events_def call_events_def defs_def uses_def events_in_def R0_def V0_def upt_rec)
  also have "{v. block_event v (insns entry_bb) = Some True} = {1, 71}"
    by (auto simp: entry_bb_def insn_events_def call_events_def defs_def uses_def R0_def V0_def upt_rec split: if_splits)
  finally show ?thesis by (auto simp: entry_bb_def R0_def R1_def)
qed

end
