(* ===== verification/LiveFixpoint.thy ===== *)
theory LiveFixpoint
  imports LiveDefUse
begin

text \<open>
  What the iteration of \<^verbatim>\<open>LiveAnalysis::BuildInOutforFunc\<close> computes: it ends, and its
  result solves the liveness equations and is the liveness by paths where no block has an
  exception handler. The invariant \<open>live_inv\<close> covers the change marks, by which
  \<^verbatim>\<open>GenerateLiveOut\<close> skips successors whose live-in set has not changed.
\<close>

section \<open>Liveness by paths\<close>

text \<open>
  A register is needed at the entry of a block if a path leads from there to a use and
  no block before the use defines it. \<open>may_live\<close> also counts a register that an
  exception handler of the block needs although the block defines it.
\<close>

inductive live_path :: "BB list \<Rightarrow> nat \<Rightarrow> nat \<Rightarrow> bool" for fs where
  here: "v \<in> used fs b \<Longrightarrow> live_path fs b v"
| later: "s \<in> flow fs b \<Longrightarrow> live_path fs s v \<Longrightarrow> v \<notin> defd fs b \<Longrightarrow> live_path fs b v"

inductive may_live :: "BB list \<Rightarrow> nat \<Rightarrow> nat \<Rightarrow> bool" for fs where
  here: "v \<in> used fs b \<Longrightarrow> may_live fs b v"
| later: "s \<in> flow fs b \<Longrightarrow> may_live fs s v \<Longrightarrow> v \<notin> defd fs b \<Longrightarrow> may_live fs b v"
| handler: "e \<in> set (ehSuccs (fs ! b)) \<Longrightarrow> may_live fs e v \<Longrightarrow> may_live fs b v"

lemma flow_less: "wf_bbs regs fs \<Longrightarrow> b < length fs \<Longrightarrow> s \<in> flow fs b \<Longrightarrow> s < length fs"
  by (auto simp: flow_def direct_def dest: wf_succs)

lemma may_live_no_handlers:
  assumes "\<And>b. b < length fs \<Longrightarrow> ehSuccs (fs ! b) = []" and "wf_bbs regs fs"
  shows "may_live fs b v \<Longrightarrow> b < length fs \<Longrightarrow> live_path fs b v"
  by (induction rule: may_live.induct) (auto intro: live_path.intros dest: flow_less [OF assms(2)] simp: assms(1))

section \<open>The iteration\<close>

text \<open>
  An edge may be out of date (the live-in set of \<open>s\<close> not in the live-out set of \<open>b\<close>) only
  while the change mark of \<open>s\<close> is set and \<open>b\<close> will be visited before \<open>s\<close> is again: blocks
  are visited from the last to the first, and \<open>m\<close> and those behind have been visited in
  this pass.
\<close>

definition edge_ok :: "BB list \<Rightarrow> nat \<Rightarrow> nat \<Rightarrow> nat \<Rightarrow> bool" where
  "edge_ok fs m b s \<longleftrightarrow> li fs s \<subseteq> lo fs b \<or>
     (liveInChange (fs ! s) \<and> ((s \<le> b \<and> (m \<le> b \<longrightarrow> m \<le> s)) \<or> (b < s \<and> m \<le> s \<and> b < m)))"

definition live_inv :: "nat \<Rightarrow> BB list \<Rightarrow> nat \<Rightarrow> bool \<Rightarrow> BB list \<Rightarrow> bool" where
  "live_inv regs fs0 m h fs \<longleftrightarrow> same_code fs0 fs \<and> wf_bbs regs fs \<and>
     (\<forall>b<length fs. \<not> insertUse (fs ! b) \<longrightarrow> li fs b = {} \<and> lo fs b = {}) \<and>
     (\<forall>b<length fs. insertUse (fs ! b) \<longrightarrow> used fs b \<union> (lo fs b - defd fs b) \<subseteq> li fs b) \<and>
     (\<forall>b<length fs. li fs b \<subseteq> used fs b \<union> (lo fs b - defd fs b) \<union> ((\<Union>e\<in>set (ehSuccs (fs ! b)). li fs e) \<inter> defd fs b)) \<and>
     (\<forall>b<length fs. lo fs b \<subseteq> (\<Union>s\<in>flow fs b. li fs s)) \<and>
     (\<forall>b<length fs. \<forall>v\<in>li fs b. may_live fs0 b v) \<and>
     (\<forall>b<length fs. \<forall>s\<in>direct fs b. edge_ok fs m b s) \<and>
     (\<not> h \<longrightarrow> (\<forall>b<length fs. m \<le> b \<longrightarrow> insertUse (fs ! b) \<and> (\<forall>s\<in>flow fs b. li fs s \<subseteq> lo fs b)))"

lemma live_invD:
  assumes "live_inv regs fs0 m h fs"
  shows "same_code fs0 fs" and "wf_bbs regs fs"
    and "b < length fs \<Longrightarrow> \<not> insertUse (fs ! b) \<Longrightarrow> li fs b = {} \<and> lo fs b = {}"
    and "b < length fs \<Longrightarrow> insertUse (fs ! b) \<Longrightarrow> used fs b \<union> (lo fs b - defd fs b) \<subseteq> li fs b"
    and "b < length fs \<Longrightarrow> li fs b \<subseteq> used fs b \<union> (lo fs b - defd fs b) \<union> ((\<Union>e\<in>set (ehSuccs (fs ! b)). li fs e) \<inter> defd fs b)"
    and "b < length fs \<Longrightarrow> lo fs b \<subseteq> (\<Union>s\<in>flow fs b. li fs s)"
    and "b < length fs \<Longrightarrow> v \<in> li fs b \<Longrightarrow> may_live fs0 b v"
    and "b < length fs \<Longrightarrow> s \<in> direct fs b \<Longrightarrow> edge_ok fs m b s"
    and "\<not> h \<Longrightarrow> b < length fs \<Longrightarrow> m \<le> b \<Longrightarrow> insertUse (fs ! b)"
    and "\<not> h \<Longrightarrow> b < length fs \<Longrightarrow> m \<le> b \<Longrightarrow> s \<in> flow fs b \<Longrightarrow> li fs s \<subseteq> lo fs b"
  using assms unfolding live_inv_def by (elim conjE; blast)+

lemma live_inv_step:
  assumes inv: "live_inv regs fs0 (Suc x) h fs" and x: "x < length fs" and st: "live_step regs x (fs, h) = (fs', h')"
  shows "live_inv regs fs0 x h' fs'"
    and "\<forall>b<length fs. li fs b \<subseteq> li fs' b" and "h' \<longleftrightarrow> h \<or> li fs' x \<noteq> li fs x" and "length fs' = length fs"
proof -
  have wf: "wf_bbs regs fs" and sc0: "same_code fs0 fs" by (rule live_invD [OF inv])+
  have so: "step_ok regs x fs h fs' h'" using live_step_spec [OF wf x st] .
  have sc: "same_code fs fs'" and wf': "wf_bbs regs fs'" and other: "\<And>b. b \<noteq> x \<Longrightarrow> fs' ! b = fs ! b"
    and lox: "lo fs' x = lo fs x \<union> incoming fs x"
    and cs: "unvisited fs x fs' \<and> h' = h \<or> recomputed fs x fs' \<and> (h' \<longleftrightarrow> h \<or> li fs' x \<noteq> li fs x)"
    using so by (simp_all add: step_ok_def)
  show len: "length fs' = length fs" using same_code_length [OF sc] .
  note same = same_code_fields [OF sc] same_code_flow [OF wf sc]
  have oth: "li fs' b = li fs b" "lo fs' b = lo fs b" if "b \<noteq> x" for b
    using other [OF that] by (simp_all add: li_def lo_def)
  show h': "h' \<longleftrightarrow> h \<or> li fs' x \<noteq> li fs x" using cs by (auto simp: unvisited_def)
  have ix: "insertUse (fs' ! x)" using cs by (auto simp: unvisited_def recomputed_def)
  have "li fs x \<subseteq> li fs' x"
    using cs live_invD(3) [OF inv x] by (cases "insertUse (fs ! x)") (auto simp: unvisited_def recomputed_def)
  then have mono: "li fs b \<subseteq> li fs' b" for b using oth by (cases "b = x") auto
  then show "\<forall>b<length fs. li fs b \<subseteq> li fs' b" by blast
  have lomono: "lo fs b \<subseteq> lo fs' b" for b using oth lox by (cases "b = x") auto
  have upx: "li fs' x \<subseteq> li fs x \<union> used fs x \<union> (lo fs' x - defd fs x) \<union> ((\<Union>e\<in>set (ehSuccs (fs ! x)) - {x}. li fs e) \<inter> defd fs x)"
    using cs unfolding unvisited_def recomputed_def by (auto split: if_splits)
  have inc: "incoming fs x \<subseteq> (\<Union>s\<in>flow fs x. li fs s)"
    by (auto simp: incoming_def flow_def)
  have fresh: "li fs s \<subseteq> lo fs' x" if s: "s \<in> direct fs x" for s
  proof -
    have "edge_ok fs (Suc x) x s" using live_invD(8) [OF inv x s] .
    then show ?thesis using s lox unfolding edge_ok_def incoming_def by auto
  qed
  have sc0': "same_code fs fs0" using sc0 by (simp add: same_code_def)
  note same0 = same_code_fields [OF sc0'] same_code_flow [OF wf sc0']
  have c3: "insertUse (fs' ! b) \<or> li fs' b = {} \<and> lo fs' b = {}" if "b < length fs" for b
    using live_invD(3) [OF inv that] ix oth [of b] other [of b] by (cases "b = x") auto
  have c4: "used fs b \<union> (lo fs' b - defd fs b) \<subseteq> li fs' b" if "b < length fs" "insertUse (fs' ! b)" for b
  proof (cases "b = x")
    case True
    show ?thesis
      using cs live_invD(4) [OF inv x] unfolding True unvisited_def recomputed_def by (auto split: if_splits)
  next
    case False
    then show ?thesis using live_invD(4) [OF inv that(1)] that(2) oth [OF False] other [OF False] by simp
  qed
  have c5: "li fs' b \<subseteq> used fs b \<union> (lo fs' b - defd fs b) \<union> ((\<Union>e\<in>set (ehSuccs (fs ! b)). li fs' e) \<inter> defd fs b)"
    if "b < length fs" for b
  proof -
    have "li fs b \<subseteq> used fs b \<union> (lo fs b - defd fs b) \<union> ((\<Union>e\<in>set (ehSuccs (fs ! b)). li fs e) \<inter> defd fs b)"
      using live_invD(5) [OF inv that] .
    moreover have "(\<Union>e\<in>set (ehSuccs (fs ! b)). li fs e) \<subseteq> (\<Union>e\<in>set (ehSuccs (fs ! b)). li fs' e)"
      using mono by (intro UN_mono) auto
    ultimately have old: "li fs b \<subseteq> used fs b \<union> (lo fs' b - defd fs b) \<union> ((\<Union>e\<in>set (ehSuccs (fs ! b)). li fs' e) \<inter> defd fs b)"
      using lomono [of b] by blast
    have "(\<Union>e\<in>set (ehSuccs (fs ! x)) - {x}. li fs e) \<subseteq> (\<Union>e\<in>set (ehSuccs (fs ! x)). li fs' e)"
      using mono by (intro UN_mono) auto
    with upx have "li fs' x \<subseteq> li fs x \<union> used fs x \<union> (lo fs' x - defd fs x) \<union> ((\<Union>e\<in>set (ehSuccs (fs ! x)). li fs' e) \<inter> defd fs x)"
      by blast
    then show ?thesis using old oth by (cases "b = x") auto
  qed
  have c6: "lo fs' b \<subseteq> (\<Union>s\<in>flow fs b. li fs' s)" if "b < length fs" for b
  proof -
    have "lo fs b \<subseteq> (\<Union>s\<in>flow fs b. li fs s)" using live_invD(6) [OF inv that] .
    moreover have "(\<Union>s\<in>flow fs b. li fs s) \<subseteq> (\<Union>s\<in>flow fs b. li fs' s)"
      using mono by (intro UN_mono) auto
    ultimately show ?thesis using lox inc oth by (cases "b = x") auto
  qed
  have c7: "may_live fs0 b v" if b: "b < length fs" and v: "v \<in> li fs' b" for b v
  proof (cases "v \<in> li fs b")
    case True
    then show ?thesis by (rule live_invD(7) [OF inv b])
  next
    case False
    then have bx: "b = x" using v oth by auto
    have old: "may_live fs0 s v" if "s < length fs" "v \<in> li fs s" for s
      using live_invD(7) [OF inv that] .
    consider "v \<in> used fs x" | "v \<in> lo fs' x" "v \<notin> defd fs x" | e where "e \<in> set (ehSuccs (fs ! x))" "v \<in> li fs e"
      using upx v bx False by blast
    then show ?thesis
    proof cases
      case 1
      then show ?thesis using bx same0(3) [OF x] by (auto intro: may_live.here)
    next
      case 2
      then have "v \<in> (\<Union>s\<in>flow fs x. li fs s)" using lox inc live_invD(6) [OF inv x] by blast
      then obtain s where s: "s \<in> flow fs x" "v \<in> li fs s" by blast
      then show ?thesis
        using bx 2(2) same0(4,7) [OF x] old [OF flow_less [OF wf x s(1)] s(2)] by (auto intro: may_live.later)
    next
      case 3
      then show ?thesis
        using bx same0(2) [OF x] old [OF wf_succs(2) [OF wf x 3(1)] 3(2)] by (auto intro: may_live.handler)
    qed
  qed
  have c8: "edge_ok fs' x b s" if b: "b < length fs" and s: "s \<in> direct fs b" for b s
  proof (cases "b = x")
    case True
    then show ?thesis
      using fresh [of s] s oth cs mono unfolding edge_ok_def unvisited_def recomputed_def by (cases "s = x") auto
  next
    case False
    have "edge_ok fs (Suc x) b s" using live_invD(8) [OF inv b s] .
    then show ?thesis
      using False oth [OF False] oth [of s] other [of s] cs
      unfolding edge_ok_def unvisited_def recomputed_def by (cases "s = x") auto
  qed
  have c9: "insertUse (fs' ! b) \<and> (\<forall>s\<in>flow fs b. li fs' s \<subseteq> lo fs' b)" if "\<not> h'" and "b < length fs" and "x \<le> b" for b
  proof -
    have same_li: "li fs' k = li fs k" for k using h' that(1) oth by (cases "k = x") auto
    show ?thesis
    proof (cases "b = x")
      case True
      have "li fs s \<subseteq> lo fs' x" if "s \<in> flow fs x" for s
        using that fresh lox by (auto simp: flow_def incoming_def)
      then show ?thesis using True ix same_li by simp
    next
      case False
      then have "Suc x \<le> b" and "\<not> h" using that h' by simp_all
      then show ?thesis
        using live_invD(9,10) [OF inv _ that(2)] oth [OF False] other [OF False] same_li by simp
    qed
  qed
  have sc1: "same_code fs0 fs'" by (rule same_code_trans [OF sc0 sc])
  show "live_inv regs fs0 x h' fs'"
    unfolding live_inv_def len
  proof (intro conjI allI impI)
    fix b assume b: "b < length fs"
    show "li fs' b \<subseteq> used fs' b \<union> (lo fs' b - defd fs' b) \<union> ((\<Union>e\<in>set (ehSuccs (fs' ! b)). li fs' e) \<inter> defd fs' b)"
      using c5 [OF b] by (simp only: same b)
    show "lo fs' b \<subseteq> (\<Union>s\<in>flow fs' b. li fs' s)"
      using c6 [OF b] by (simp only: same b)
    show "\<forall>v\<in>li fs' b. may_live fs0 b v" using c7 [OF b] by blast
    show "\<forall>s\<in>direct fs' b. edge_ok fs' x b s" using c8 [OF b] by (simp only: same b) blast
    show "li fs' b = {}" if "\<not> insertUse (fs' ! b)" using c3 [OF b] that by blast
    show "lo fs' b = {}" if "\<not> insertUse (fs' ! b)" using c3 [OF b] that by blast
    show "used fs' b \<union> (lo fs' b - defd fs' b) \<subseteq> li fs' b" if "insertUse (fs' ! b)"
      using c4 [OF b that] by (simp only: same b)
    show "insertUse (fs' ! b)" if "\<not> h'" and "x \<le> b" using c9 [OF that(1) b that(2)] by blast
    show "\<forall>s\<in>flow fs' b. li fs' s \<subseteq> lo fs' b" if "\<not> h'" and "x \<le> b"
      using c9 [OF that(1) b that(2)] by (simp only: same b) blast
  qed (rule sc1 wf')+
qed

lemma live_inv_fold:
  assumes "k \<le> length fs" and "live_inv regs fs0 k h fs" and "fold (live_step regs) (rev [0..<k]) (fs, h) = (fs', h')"
  shows "live_inv regs fs0 0 h' fs' \<and> length fs' = length fs \<and> (\<forall>b<length fs. li fs b \<subseteq> li fs' b) \<and>
    (h' \<longrightarrow> h \<or> (\<exists>b<length fs. li fs' b \<noteq> li fs b))"
  using assms
proof (induction k arbitrary: fs h)
  case (Suc k)
  obtain fs1 h1 where s: "live_step regs k (fs, h) = (fs1, h1)" by (cases "live_step regs k (fs, h)")
  have k: "k < length fs" using Suc.prems(1) by simp
  note step = live_inv_step [OF Suc.prems(2) k s]
  have "fold (live_step regs) (rev [0..<k]) (fs1, h1) = (fs', h')" using Suc.prems(3) s by simp
  then have ih: "live_inv regs fs0 0 h' fs' \<and> length fs' = length fs1 \<and> (\<forall>b<length fs1. li fs1 b \<subseteq> li fs' b) \<and>
      (h' \<longrightarrow> h1 \<or> (\<exists>b<length fs1. li fs' b \<noteq> li fs1 b))"
    using Suc.prems(1) step(1,4) by (intro Suc.IH) simp_all
  have grows: "li fs b \<subseteq> li fs1 b" "li fs1 b \<subseteq> li fs' b" if "b < length fs" for b
    using step(2,4) ih that by auto
  have "\<exists>b<length fs. li fs' b \<noteq> li fs b" if h': "h'" and nh: "\<not> h"
  proof (cases h1)
    case True
    then have "li fs1 k \<noteq> li fs k" using step(3) nh by simp
    then show ?thesis using grows [OF k] k by (intro exI [of _ k]) auto
  next
    case False
    with ih h' have "\<exists>b<length fs1. li fs' b \<noteq> li fs1 b" by blast
    then obtain b where b: "b < length fs" "li fs' b \<noteq> li fs1 b" using step(4) by auto
    then have "li fs' b \<noteq> li fs b" using grows [OF b(1)] by blast
    then show ?thesis using b(1) by blast
  qed
  then show ?case using ih step(4) grows by (auto dest: subsetD)
qed simp

lemma live_inv_next_pass:
  assumes inv: "live_inv regs fs0 0 h fs"
  shows "live_inv regs fs0 (length fs) False fs"
proof -
  have "edge_ok fs (length fs) b s" if b: "b < length fs" and s: "s \<in> direct fs b" for b s
  proof -
    have "s < length fs" using flow_less [OF live_invD(2) [OF inv] b, of s] s by (simp add: flow_def)
    then show ?thesis using live_invD(8) [OF inv b s] b by (auto simp: edge_ok_def)
  qed
  then show ?thesis
    using inv unfolding live_inv_def by (elim conjE) (intro conjI; (assumption | simp))
qed

lemma live_pass_spec:
  assumes "live_inv regs fs0 (length fs) False fs" and "live_pass regs fs = (fs', h)"
  shows "live_inv regs fs0 0 h fs'" and "length fs' = length fs" and "\<forall>b<length fs. li fs b \<subseteq> li fs' b"
    and "h \<Longrightarrow> \<exists>b<length fs. li fs' b \<noteq> li fs b"
  using live_inv_fold [OF order_refl assms(1), of fs' h] assms(2) by (auto simp: live_pass_def)


subsection \<open>The iteration ends\<close>

text \<open>Live-in sets only grow and hold at most 64 registers per word.\<close>

definition room :: "nat \<Rightarrow> BB list \<Rightarrow> nat" where
  "room regs fs = (\<Sum>b<length fs. 64 * (regs div kWordSize + 1) - card (li fs b))"

lemma finite_bits [simp]: "finite (bits d)"
  by (simp add: bits_filter)

lemma card_bits: "card (bits d) \<le> 64 * length d"
proof -
  have "bits d \<subseteq> {..<64 * length d}" using bits_less_Size [of _ d] by (auto simp: Size_def kWordSize_def mult.commute)
  then show ?thesis using card_mono [of "{..<64 * length d}"] by fastforce
qed

lemma card_li: "wf_bbs regs fs \<Longrightarrow> b < length fs \<Longrightarrow> card (li fs b) \<le> 64 * (regs div kWordSize + 1)"
  using card_bits [of "liveIn (fs ! b)"] wf_bbsD [of regs fs b] by (simp add: wf_bb_def li_def)

lemma room_less:
  assumes wf: "wf_bbs regs fs'" and len: "length fs' = length fs" and grow: "\<forall>b<length fs. li fs b \<subseteq> li fs' b"
    and new: "\<exists>b<length fs. li fs' b \<noteq> li fs b"
  shows "room regs fs' < room regs fs"
proof -
  let ?M = "64 * (regs div kWordSize + 1)"
  have fin: "finite (li fs' b)" for b by (simp add: li_def)
  obtain k where k: "k < length fs" "li fs' k \<noteq> li fs k" using new by blast
  then have "li fs k \<subset> li fs' k" using grow by blast
  then have "card (li fs k) < card (li fs' k)" by (rule psubset_card_mono [OF fin])
  moreover have "card (li fs' k) \<le> ?M" using card_li [OF wf] k(1) len by simp
  ultimately have strict: "?M - card (li fs' k) < ?M - card (li fs k)" by arith
  have "?M - card (li fs' b) \<le> ?M - card (li fs b)" if "b < length fs" for b
    using card_mono [OF fin] grow that by (simp add: diff_le_mono2)
  then show ?thesis
    unfolding room_def len using k(1) strict by (intro sum_strict_mono_ex1) auto
qed

definition solved :: "nat \<Rightarrow> BB list \<Rightarrow> BB list \<Rightarrow> bool" where
  "solved regs fs0 fs \<longleftrightarrow> same_code fs0 fs \<and> wf_bbs regs fs \<and>
     (\<forall>b<length fs. lo fs b = (\<Union>s\<in>flow fs b. li fs s) \<and>
        used fs b \<union> (lo fs b - defd fs b) \<subseteq> li fs b \<and>
        li fs b \<subseteq> used fs b \<union> (lo fs b - defd fs b) \<union> ((\<Union>e\<in>set (ehSuccs (fs ! b)). li fs e) \<inter> defd fs b) \<and>
        (\<forall>v\<in>li fs b. may_live fs0 b v))"

lemma live_inv_solved:
  assumes inv: "live_inv regs fs0 0 False fs"
  shows "solved regs fs0 fs"
proof -
  have out: "lo fs b = (\<Union>s\<in>flow fs b. li fs s)" if "b < length fs" for b
    using live_invD(6) [OF inv that] live_invD(10) [OF inv _ that] by blast
  have use: "used fs b \<union> (lo fs b - defd fs b) \<subseteq> li fs b" if "b < length fs" for b
    using live_invD(4) [OF inv that live_invD(9) [OF inv _ that]] by simp
  show ?thesis
    unfolding solved_def
    by (intro conjI allI impI ballI) (rule live_invD(1,2) [OF inv] out use live_invD(5,7) [OF inv]; assumption)+
qed

lemma build_in_out_solved:
  assumes "live_inv regs fs0 (length fs) False fs"
  shows "\<exists>fs'. build_in_out regs fs = Some fs' \<and> solved regs fs0 fs'"
  using assms
proof (induction "room regs fs" arbitrary: fs rule: less_induct)
  case less
  obtain fs' h where p: "live_pass regs fs = (fs', h)" by (cases "live_pass regs fs")
  note pass = live_pass_spec [OF less.prems p]
  show ?case
  proof (cases h)
    case True
    have "room regs fs' < room regs fs"
      using live_invD(2) [OF pass(1)] pass(2,3) pass(4) [OF True] by (rule room_less)
    moreover have "live_inv regs fs0 (length fs') False fs'" using live_inv_next_pass [OF pass(1)] .
    ultimately have "\<exists>fs2. build_in_out regs fs' = Some fs2 \<and> solved regs fs0 fs2" by (rule less.hyps)
    then show ?thesis using p True by (simp add: build_in_out.simps [of regs fs])
  next
    case False
    then have "solved regs fs0 fs'" using pass(1) live_inv_solved by simp
    then show ?thesis using p False by (simp add: build_in_out.simps [of regs fs])
  qed
qed

end
