(* ===== verification/LiveResult.thy ===== *)
theory LiveResult
  imports LiveFixpoint
begin

text \<open>The results of the liveness analysis on a function, and the cleanup block.\<close>

section \<open>The result of the analysis\<close>

definition edges_ok :: "CGFunc \<Rightarrow> bool" where
  "edges_ok f \<longleftrightarrow> list_all (\<lambda>bb. set (succs bb) \<subseteq> {..<length (bbs f)} \<and> set (ehSuccs bb) \<subseteq> {..<length (bbs f)}) (bbs f)"

lemma nth_init: "b < length (bbs f) \<Longrightarrow> bbs (InitAndGetDefUse f) ! b = init_bb f (bbs f ! b)"
  "length (bbs (InitAndGetDefUse f)) = length (bbs f)" "maxVReg (InitAndGetDefUse f) = maxVReg f"
  by (simp_all add: InitAndGetDefUse_def)

lemma live_inv_init:
  assumes "edges_ok f"
  shows "live_inv (maxVReg f) (bbs (InitAndGetDefUse f)) (length (bbs (InitAndGetDefUse f))) False (bbs (InitAndGetDefUse f))"
proof -
  let ?fs = "bbs (InitAndGetDefUse f)"
  have empty: "li ?fs b = {}" "lo ?fs b = {}" "\<not> insertUse (?fs ! b)" if "b < length ?fs" for b
    using that by (simp_all add: li_def lo_def nth_init init_bb_frame bits_new)
  have wf: "wf_bbs (maxVReg f) ?fs"
    using assms by (auto simp: wf_bbs_def wf_bb_def list_all_length nth_init init_bb_frame edges_ok_def)
  have dir: "s < length ?fs" if "b < length ?fs" "s \<in> direct ?fs b" for b s
    using flow_less [OF wf that(1), of s] that(2) by (simp add: flow_def)
  show ?thesis
    unfolding live_inv_def edge_ok_def using wf empty dir by (intro conjI) auto
qed

lemma BuildInOut_solved:
  assumes "edges_ok f"
  obtains fs where "BuildInOutforFunc (InitAndGetDefUse f) = Some ((InitAndGetDefUse f)\<lparr>bbs := fs\<rparr>)"
    and "solved (maxVReg f) (bbs (InitAndGetDefUse f)) fs"
proof -
  obtain fs where "build_in_out (maxVReg f) (bbs (InitAndGetDefUse f)) = Some fs" "solved (maxVReg f) (bbs (InitAndGetDefUse f)) fs"
    using build_in_out_solved [OF live_inv_init [OF assms]] by blast
  then show ?thesis by (intro that [of fs]) (simp_all add: BuildInOutforFunc_def nth_init(3))
qed

lemma solvedD:
  assumes "solved regs fs0 fs"
  shows "same_code fs0 fs" and "wf_bbs regs fs"
    and "b < length fs \<Longrightarrow> lo fs b = (\<Union>s\<in>flow fs b. li fs s)"
    and "b < length fs \<Longrightarrow> used fs b \<union> (lo fs b - defd fs b) \<subseteq> li fs b"
    and "b < length fs \<Longrightarrow> li fs b \<subseteq> used fs b \<union> (lo fs b - defd fs b) \<union> ((\<Union>e\<in>set (ehSuccs (fs ! b)). li fs e) \<inter> defd fs b)"
    and "b < length fs \<Longrightarrow> v \<in> li fs b \<Longrightarrow> may_live fs0 b v"
  using assms unfolding solved_def by blast+

lemma solved_complete:
  assumes "solved regs fs0 fs" and "wf_bbs regs fs0"
  shows "live_path fs0 b v \<Longrightarrow> b < length fs \<Longrightarrow> v \<in> li fs b"
proof (induction rule: live_path.induct)
  case (here v b)
  then have "v \<in> used fs b" using same_code_fields(3) [OF solvedD(1) [OF assms(1)]] same_code_length [OF solvedD(1) [OF assms(1)]] by simp
  then show ?case using solvedD(4) [OF assms(1) here(2)] by blast
next
  case (later s b v)
  note sc = solvedD(1) [OF assms(1)]
  have b: "b < length fs0" using later.prems same_code_length [OF sc] by simp
  then have s: "s \<in> flow fs b" using later.hyps(1) same_code_flow [OF assms(2) sc] by simp
  then have "v \<in> li fs s" using later.IH flow_less [OF solvedD(2) [OF assms(1)] later.prems] by blast
  then have "v \<in> lo fs b" using solvedD(3) [OF assms(1) later.prems] s by blast
  moreover have "v \<notin> defd fs b" using later.hyps(3) same_code_fields(4) [OF sc b] by simp
  ultimately show ?case using solvedD(4) [OF assms(1) later.prems] by blast
qed

text \<open>
  (C7) The liveness analysis ends: on every function whose edges lead to blocks of the
  function, whatever its instructions, edges and exception handlers are.
\<close>

theorem AnalysisLive_terminates:
  assumes "edges_ok f"
  shows "\<exists>f'. AnalysisLive f = Some f' \<and> length (bbs f') = length (bbs f)"
proof -
  obtain fs where b: "BuildInOutforFunc (InitAndGetDefUse f) = Some ((InitAndGetDefUse f)\<lparr>bbs := fs\<rparr>)"
    and s: "solved (maxVReg f) (bbs (InitAndGetDefUse f)) fs" using BuildInOut_solved [OF assms] .
  have "length fs = length (bbs f)" using same_code_length [OF solvedD(1) [OF s]] by (simp add: nth_init)
  moreover have "length (snd (fold insert_cleanup xs (d, ys))) = length xs + length ys" for xs d ys
    by (induction xs arbitrary: d ys) (simp_all add: insert_cleanup_def Let_def split: prod.split)
  ultimately show ?thesis
    by (simp add: AnalysisLive_def b InsertInOutOfCleanupBB_def Let_def length_enumerate split: option.split)
qed

text \<open>
  (C14) The equations that the iteration leaves satisfied. For every block, the registers
  live out of it are exactly those live into the blocks it flows to (its successors, its
  handlers and the handlers of its successors). For a block without handlers, the registers
  live into it are exactly those it uses and those live out and not defined. For a block
  with handlers the last equation only bounds them from below: beyond these registers it
  may have some that one of its own handlers needs and that it defines, and no others;
  which of them it has depends on the layout (\<open>handler_layout\<close>). The change marks, by which
  the code skips successors, lose nothing.
\<close>

theorem BuildInOutforFunc_equations:
  assumes "edges_ok f" and "BuildInOutforFunc (InitAndGetDefUse f) = Some f'" and "b < length (bbs f)"
  shows "lo (bbs f') b = (\<Union>s\<in>flow (bbs f') b. li (bbs f') s) \<and>
    (ehSuccs (bbs f' ! b) = [] \<longrightarrow> li (bbs f') b = used (bbs f') b \<union> (lo (bbs f') b - defd (bbs f') b)) \<and>
    used (bbs f') b \<union> (lo (bbs f') b - defd (bbs f') b) \<subseteq> li (bbs f') b \<and>
    li (bbs f') b \<subseteq> used (bbs f') b \<union> (lo (bbs f') b - defd (bbs f') b) \<union>
      ((\<Union>e\<in>set (ehSuccs (bbs f' ! b)). li (bbs f') e) \<inter> defd (bbs f') b)"
proof -
  obtain fs where f': "bbs f' = fs" and s: "solved (maxVReg f) (bbs (InitAndGetDefUse f)) fs"
    using BuildInOut_solved [OF assms(1)] assms(2) by (metis CGFunc.select_convs(1) CGFunc.surjective CGFunc.update_convs(1) option.inject)
  have "b < length fs" using assms(3) same_code_length [OF solvedD(1) [OF s]] by (simp add: nth_init)
  note eqs = solvedD(3-5) [OF s this]
  have "li fs b = used fs b \<union> (lo fs b - defd fs b)" if "ehSuccs (fs ! b) = []"
    using eqs(2,3) that by (intro equalityI) simp_all
  with eqs show ?thesis unfolding f' by (intro conjI impI)
qed


text \<open>
  (C19) The registers live into a block, against paths: every register that some path of
  flow edges leads to a use of, undefined on the way, is live, and every live register is
  needed in this sense or by a handler of a block that defines it.
\<close>

theorem live_in_bounds:
  assumes "edges_ok f" and "BuildInOutforFunc (InitAndGetDefUse f) = Some f'" and "b < length (bbs f)"
  shows "(live_path (bbs (InitAndGetDefUse f)) b v \<longrightarrow> v \<in> li (bbs f') b) \<and>
    (v \<in> li (bbs f') b \<longrightarrow> may_live (bbs (InitAndGetDefUse f)) b v)"
proof -
  obtain fs where f': "bbs f' = fs" and s: "solved (maxVReg f) (bbs (InitAndGetDefUse f)) fs"
    using BuildInOut_solved [OF assms(1)] assms(2) by (metis CGFunc.select_convs(1) CGFunc.surjective CGFunc.update_convs(1) option.inject)
  have b: "b < length fs" using assms(3) same_code_length [OF solvedD(1) [OF s]] by (simp add: nth_init)
  have "wf_bbs (maxVReg f) (bbs (InitAndGetDefUse f))" using live_invD(2) [OF live_inv_init [OF assms(1)]] .
  then show ?thesis unfolding f' using solved_complete [OF s] solvedD(6) [OF s] b by blast
qed

text \<open>
  (C4) In a function without exception handlers the analysis computes liveness exactly:
  a register is live into a block if and only if a path of successors leads from the block
  to a use of it, and no block before that use defines it.
\<close>

theorem live_in_iff_path:
  assumes "edges_ok f" and "\<forall>b<length (bbs f). ehSuccs (bbs f ! b) = []"
    and "BuildInOutforFunc (InitAndGetDefUse f) = Some f'" and "b < length (bbs f)"
  shows "v \<in> li (bbs f') b \<longleftrightarrow> live_path (bbs (InitAndGetDefUse f)) b v"
proof -
  obtain fs where f': "bbs f' = fs" and s: "solved (maxVReg f) (bbs (InitAndGetDefUse f)) fs"
    using BuildInOut_solved [OF assms(1)] assms(3) by (metis CGFunc.select_convs(1) CGFunc.surjective CGFunc.update_convs(1) option.inject)
  have b: "b < length fs" using assms(4) same_code_length [OF solvedD(1) [OF s]] by (simp add: nth_init)
  have wf: "wf_bbs (maxVReg f) (bbs (InitAndGetDefUse f))" using live_invD(2) [OF live_inv_init [OF assms(1)]] .
  have "ehSuccs (bbs (InitAndGetDefUse f) ! k) = []" if "k < length (bbs (InitAndGetDefUse f))" for k
    using that assms(2) by (simp add: nth_init init_bb_frame)
  then have "may_live (bbs (InitAndGetDefUse f)) b v \<Longrightarrow> live_path (bbs (InitAndGetDefUse f)) b v"
    using may_live_no_handlers [OF _ wf] assms(4) by (simp add: nth_init)
  then show ?thesis unfolding f' using solved_complete [OF s wf] solvedD(6) [OF s] b by blast
qed

section \<open>Instances\<close>

declare build_in_out.simps [code]

text \<open>Blocks for the instances: their instructions define and use single registers.\<close>

definition reg_insn :: "nat list \<Rightarrow> nat list \<Rightarrow> Insn" where
  "reg_insn ds us = \<lparr>isMachineInstruction = True, isCall = False, isAsm = False,
     operands = map (\<lambda>r. (RegOpnd (r, False), True, False)) ds @ map (\<lambda>r. (RegOpnd (r, False), False, True)) us\<rparr>"

definition plain_bb :: "Insn list \<Rightarrow> nat list \<Rightarrow> nat list \<Rightarrow> BB" where
  "plain_bb is ss es = \<lparr>insns = is, isReturn = False, isCleanup = False, succs = ss, ehPreds = [], ehSuccs = es,
     def_info = [], use_info = [], liveIn = [], liveOut = [], liveInChange = False, insertUse = False\<rparr>"

definition plain_func :: "BB list \<Rightarrow> CGFunc" where
  "plain_func fs = \<lparr>bbs = fs, maxVReg = 80, returnType = PTY_void, cleanupEntryBB = None\<rparr>"

text \<open>A loop: block 0 defines 70, block 1 tests 71 and uses 70, block 2 redefines 70 from 70.\<close>

definition loop_func :: CGFunc where
  "loop_func = plain_func [plain_bb [reg_insn [70] []] [1] [], plain_bb [reg_insn [] [71]] [2, 3] [],
     plain_bb [reg_insn [70] [70]] [1] [], plain_bb [reg_insn [] [70]] [] []]"

definition live_regs :: "nat list \<Rightarrow> CGFunc option \<Rightarrow> (nat list \<times> nat list) list option" where
  "live_regs rs = map_option (\<lambda>f. map (\<lambda>bb. (filter (\<lambda>r. TestBit r (liveIn bb)) rs, filter (\<lambda>r. TestBit r (liveOut bb)) rs)) (bbs f))"

text \<open>A handler (block 0) laid out before the block 1 that it handles, and the same with it behind.\<close>

definition handler_before :: CGFunc where
  "handler_before = plain_func [plain_bb [reg_insn [] [70]] [] [], plain_bb [reg_insn [70] []] [2] [0], plain_bb [reg_insn [] [70]] [] []]"

definition handler_behind :: CGFunc where
  "handler_behind = plain_func [plain_bb [reg_insn [70] []] [1] [2], plain_bb [reg_insn [] [70]] [] [], plain_bb [reg_insn [] [70]] [] []]"

text \<open>
  The live-in sets of a block with a handler depend on the layout. Register 70 is
  used by the handler and defined by the handled block; before the definition it is live
  in the handled block (an exception may come first), and the analysis finds that if the
  handler is laid out behind the block (\<open>handler_behind\<close>). If it is laid out in front of it
  (\<open>handler_before\<close>), the live-out set of the block already holds 70 when the handler's
  live-in set grows, \<^verbatim>\<open>BuildInOutforFunc\<close> skips \<^verbatim>\<open>GenerateLiveIn\<close>, and 70 is missing.
\<close>

theorem handler_layout:
  "live_regs [70] (AnalysisLive handler_behind) = Some [([70], [70]), ([70], []), ([70], [])] \<and>
   live_regs [70] (AnalysisLive handler_before) = Some [([70], []), ([], [70]), ([70], [])]"
  by code_simp

lemma edges_ok_loop: "edges_ok loop_func"
  by (simp add: edges_ok_def loop_func_def plain_func_def plain_bb_def)

theorem AnalysisLive_terminates_witness:
  "\<exists>f'. AnalysisLive handler_before = Some f' \<and> length (bbs f') = 3"
proof -
  have "edges_ok handler_before" by (simp add: edges_ok_def handler_before_def plain_func_def plain_bb_def)
  moreover have "length (bbs handler_before) = 3" by (simp add: handler_before_def plain_func_def)
  ultimately show ?thesis using AnalysisLive_terminates by metis
qed

lemma loop_result: "\<exists>f'. BuildInOutforFunc (InitAndGetDefUse loop_func) = Some f'"
  using BuildInOut_solved [OF edges_ok_loop] by metis

theorem BuildInOutforFunc_equations_witness:
  "\<exists>f'. BuildInOutforFunc (InitAndGetDefUse loop_func) = Some f' \<and> lo (bbs f') 1 = (\<Union>s\<in>flow (bbs f') 1. li (bbs f') s)"
  using loop_result BuildInOutforFunc_equations [OF edges_ok_loop, of _ 1]
  by (auto simp: loop_func_def plain_func_def)

lemma loop_path: "live_path (bbs (InitAndGetDefUse loop_func)) 0 71"
proof (rule live_path.later)
  show "1 \<in> flow (bbs (InitAndGetDefUse loop_func)) 0" unfolding flow_def direct_def by code_simp
  have "TestBit 71 (use_info (bbs (InitAndGetDefUse loop_func) ! 1))" "71 < Size (use_info (bbs (InitAndGetDefUse loop_func) ! 1))"
    by code_simp+
  then show "live_path (bbs (InitAndGetDefUse loop_func)) 1 71" by (intro live_path.here) (simp add: used_def TestBit_bits)
  have "\<not> TestBit 71 (def_info (bbs (InitAndGetDefUse loop_func) ! 0))" "71 < Size (def_info (bbs (InitAndGetDefUse loop_func) ! 0))"
    by code_simp+
  then show "71 \<notin> defd (bbs (InitAndGetDefUse loop_func)) 0" by (simp add: defd_def TestBit_bits)
qed

theorem live_in_bounds_witness:
  "\<exists>f'. BuildInOutforFunc (InitAndGetDefUse loop_func) = Some f' \<and> 71 \<in> li (bbs f') 0"
  using loop_result live_in_bounds [OF edges_ok_loop, of _ 0 71] loop_path
  by (auto simp: loop_func_def plain_func_def)

theorem live_in_iff_path_witness:
  "\<exists>f'. BuildInOutforFunc (InitAndGetDefUse loop_func) = Some f' \<and> 71 \<in> li (bbs f') 0"
proof -
  have "\<forall>b<length (bbs loop_func). ehSuccs (bbs loop_func ! b) = []"
    by (simp add: loop_func_def plain_func_def plain_bb_def All_less_Suc nth_Cons' numeral_eq_Suc)
  moreover have "0 < length (bbs loop_func)" by (simp add: loop_func_def plain_func_def)
  ultimately show ?thesis
    using loop_result live_in_iff_path [OF edges_ok_loop, of _ 0 71] loop_path by blast
qed

section \<open>The cleanup block\<close>

text \<open>The registers of the cleanup block that block \<open>b\<close> keeps alive: not those ignored, nor those that a block up to \<open>b\<close> defines.\<close>

definition cleanup_regs :: "CGFunc \<Rightarrow> nat \<Rightarrow> nat set" where
  "cleanup_regs f c = li (bbs f) c - {1..<8} - {29..<33}"

definition defined_upto :: "BB list \<Rightarrow> nat \<Rightarrow> nat set" where
  "defined_upto fs b = (\<Union>k\<in>{k. k \<noteq> 0 \<and> k \<le> b \<and> \<not> isCleanup (fs ! k)}. defd fs k)"

lemma bits_fold_ResetBit: "bits (fold ResetBit ns d) = bits d - set ns" "length (fold ResetBit ns d) = length d"
  by (induction ns arbitrary: d) (auto simp: bits_ResetBit)

lemma insert_cleanup_acc: "insert_cleanup x (d, ys) = (fst (insert_cleanup x (d, [])), ys @ snd (insert_cleanup x (d, [])))"
  by (cases x) (simp add: insert_cleanup_def Let_def)

lemma fold_insert_cleanup_acc: "snd (fold insert_cleanup xs (d, ys)) = ys @ snd (fold insert_cleanup xs (d, []))"
proof (induction xs arbitrary: d ys)
  case (Cons x xs)
  obtain d' bb where x: "insert_cleanup x (d, []) = (d', bb)" by (cases "insert_cleanup x (d, [])")
  have "snd (fold insert_cleanup (x # xs) (d, ys)) = snd (fold insert_cleanup xs (d', ys @ bb))"
    using insert_cleanup_acc [of x d ys] x by simp
  also have "\<dots> = ys @ snd (fold insert_cleanup (x # xs) (d, []))"
    using Cons.IH [of d' "ys @ bb"] Cons.IH [of d' bb] x by simp
  finally show ?case .
qed simp

definition removed :: "nat \<Rightarrow> BB list \<Rightarrow> nat \<Rightarrow> nat set" where
  "removed k xs b = (\<Union>j\<in>{j. j \<le> b \<and> k + j \<noteq> 0 \<and> \<not> isCleanup (xs ! j)}. bits (def_info (xs ! j)))"

lemma removed_0: "removed k (x # xs) 0 = (if k = 0 \<or> isCleanup x then {} else bits (def_info x))"
  by (auto simp: removed_def)

lemma removed_Suc: "removed k (x # xs) (Suc b) = removed k (x # xs) 0 \<union> removed (Suc k) xs b"
proof -
  have "{j. j \<le> Suc b \<and> k + j \<noteq> 0 \<and> \<not> isCleanup ((x # xs) ! j)} =
      {j. j \<le> 0 \<and> k + j \<noteq> 0 \<and> \<not> isCleanup ((x # xs) ! j)} \<union> Suc ` {j. j \<le> b \<and> Suc k + j \<noteq> 0 \<and> \<not> isCleanup (xs ! j)}"
    (is "?A = ?B \<union> ?C")
  proof (rule set_eqI)
    fix j show "j \<in> ?A \<longleftrightarrow> j \<in> ?B \<union> ?C" by (cases j) auto
  qed
  then show ?thesis by (simp only: removed_def UN_Un UN_simps image_image) simp
qed

lemma insert_cleanup_fold:
  assumes "list_all (wf_bb regs n) xs" and "length d = regs div kWordSize + 1" and "b < length xs"
  shows "(isCleanup (xs ! b) \<longrightarrow> snd (fold insert_cleanup (enumerate k xs) (d, [])) ! b = xs ! b) \<and>
    (\<not> isCleanup (xs ! b) \<longrightarrow>
       bits (liveOut (snd (fold insert_cleanup (enumerate k xs) (d, [])) ! b)) = bits (liveOut (xs ! b)) \<union> (bits d - removed k xs b) \<and>
       bits (liveIn (snd (fold insert_cleanup (enumerate k xs) (d, [])) ! b)) =
         bits (liveIn (xs ! b)) \<union> (if k + b = 0 then {} else bits d - removed k xs b))"
  using assms
proof (induction xs arbitrary: d k b)
  case (Cons x xs)
  define d' where "d' = (if isCleanup x \<or> k = 0 then d else Difference d (def_info x))"
  define bb where "bb = (if isCleanup x then x else
      (if k \<noteq> 0 then x\<lparr>liveIn := OrBits (liveIn x) d'\<rparr> else x)\<lparr>liveOut := OrBits (liveOut x) d'\<rparr>)"
  have "insert_cleanup (k, x) (d, []) = (d', [bb])" by (simp add: insert_cleanup_def d'_def bb_def Let_def)
  then have res: "snd (fold insert_cleanup (enumerate k (x # xs)) (d, [])) = bb # snd (fold insert_cleanup (enumerate (Suc k) xs) (d', []))"
    using fold_insert_cleanup_acc [of "enumerate (Suc k) xs" d' "[bb]"] by simp
  have w: "wf_bb regs n x" "list_all (wf_bb regs n) xs" using Cons.prems(1) by simp_all
  have d': "length d' = regs div kWordSize + 1" "bits d' = bits d - removed k (x # xs) 0"
    using Cons.prems(2) w(1) by (simp_all add: d'_def removed_0 wf_bb_def bits_pointwise)
  show ?case
  proof (cases b)
    case 0
    then show ?thesis
      unfolding res using w(1) d' by (simp add: bb_def wf_bb_def bits_pointwise)
  next
    case (Suc b')
    then show ?thesis
      unfolding res using Cons.IH [OF w(2) d'(1), of b' "Suc k"] Cons.prems(3) d'(2)
      by (simp add: removed_Suc [of k x xs b'] Diff_eq Int_assoc)
  qed
qed simp

text \<open>
  (C28) The cleanup block: the registers live into it (without the bits 1 to 7 and 29 to 32)
  are added to the live-out set of every other block, and to its live-in set unless it is
  the first block, except that a register that a block defines is dropped for that block
  and for all blocks behind it in the layout. Cleanup blocks stay as they are.
\<close>

theorem InsertInOutOfCleanupBB_sets:
  assumes "cleanupEntryBB f = Some c" and "c < length (bbs f)" and "wf_bbs regs (bbs f)" and "b < length (bbs f)"
  shows "if isCleanup (bbs f ! b) then bbs (InsertInOutOfCleanupBB f) ! b = bbs f ! b
    else lo (bbs (InsertInOutOfCleanupBB f)) b = lo (bbs f) b \<union> (cleanup_regs f c - defined_upto (bbs f) b) \<and>
      li (bbs (InsertInOutOfCleanupBB f)) b = li (bbs f) b \<union> (if b = 0 then {} else cleanup_regs f c - defined_upto (bbs f) b)"
proof (cases "NoneBit (liveIn (bbs f ! c))")
  case True
  then have "cleanup_regs f c = {}" by (simp add: NoneBit_bits cleanup_regs_def li_def)
  then show ?thesis using True assms(1) by (simp add: InsertInOutOfCleanupBB_def)
next
  case False
  let ?d = "fold ResetBit [29..<33] (fold ResetBit [1..<8] (liveIn (bbs f ! c)))"
  have res: "bbs (InsertInOutOfCleanupBB f) = snd (fold insert_cleanup (enumerate 0 (bbs f)) (?d, []))"
    using False assms(1) by (simp add: InsertInOutOfCleanupBB_def Let_def)
  have "bits ?d = cleanup_regs f c" and "length ?d = regs div kWordSize + 1"
    using wf_bbsD [OF assms(3,2)] by (simp_all add: bits_fold_ResetBit cleanup_regs_def li_def wf_bb_def del: upt_rec_numeral)
  moreover have "defined_upto (bbs f) b = removed 0 (bbs f) b"
    by (simp add: defined_upto_def removed_def defd_def conj_ac)
  ultimately show ?thesis
    using insert_cleanup_fold [of regs "length (bbs f)" "bbs f" ?d b 0] assms(3,4)
    by (simp add: res wf_bbs_def li_def lo_def)
qed

text \<open>
  An instance: block 3 cleans up registers 2, 30 and 40; block 1 defines 40, so that
  block 2, laid out behind it, does not keep 40 alive.
\<close>

definition reg_set :: "nat list \<Rightarrow> DataInfo" where
  "reg_set rs = fold SetBit rs (new_DataInfo 60)"

definition cleanup_func :: CGFunc where
  "cleanup_func = \<lparr>bbs = map (\<lambda>(ds, ins, cl). (plain_bb [] [] [])\<lparr>isCleanup := cl, def_info := reg_set ds, use_info := reg_set [],
       liveIn := reg_set ins, liveOut := reg_set []\<rparr>) [([], [], False), ([40], [], False), ([], [], False), ([], [2, 28, 40], True)],
     maxVReg = 60, returnType = PTY_void, cleanupEntryBB = Some 3\<rparr>"

theorem InsertInOutOfCleanupBB_sets_witness:
  "lo (bbs (InsertInOutOfCleanupBB cleanup_func)) 2 = lo (bbs cleanup_func) 2 \<union> (cleanup_regs cleanup_func 3 - defined_upto (bbs cleanup_func) 2) \<and>
   live_regs [2, 28, 40] (Some (InsertInOutOfCleanupBB cleanup_func)) =
     Some [([], [28, 40]), ([28], [28]), ([28], [28]), ([2, 28, 40], [])]"
proof (rule conjI)
  have "wf_bbs 60 (bbs cleanup_func)" by code_simp
  moreover have "cleanupEntryBB cleanup_func = Some 3" "3 < length (bbs cleanup_func)" "2 < length (bbs cleanup_func)"
    "\<not> isCleanup (bbs cleanup_func ! 2)" by (code_simp, code_simp, code_simp, code_simp)
  ultimately show "lo (bbs (InsertInOutOfCleanupBB cleanup_func)) 2 =
      lo (bbs cleanup_func) 2 \<union> (cleanup_regs cleanup_func 3 - defined_upto (bbs cleanup_func) 2)"
    using InsertInOutOfCleanupBB_sets [of cleanup_func 3 60 2] by simp
  show "live_regs [2, 28, 40] (Some (InsertInOutOfCleanupBB cleanup_func)) =
     Some [([], [28, 40]), ([28], [28]), ([28], [28]), ([2, 28, 40], [])]" by code_simp
qed

text \<open>The version that handles one register at a time keeps 40 alive in block 2, too.\<close>

lemma DealWithInOutOfCleanupBB_instance:
  "live_regs [2, 28, 40] (Some (DealWithInOutOfCleanupBB cleanup_func)) =
     Some [([], [28, 40]), ([28], [28, 40]), ([28, 40], [28, 40]), ([2, 28, 40], [])]"
  by code_simp

section \<open>The users of the result\<close>

lemma EnlargeSpaceForLiveAnalysis_sets:
  "b < length (bbs f) \<Longrightarrow> li (bbs (EnlargeSpaceForLiveAnalysis k f)) b = li (bbs f) b \<and> lo (bbs (EnlargeSpaceForLiveAnalysis k f)) b = lo (bbs f) b"
  by (simp add: EnlargeSpaceForLiveAnalysis_def li_def lo_def bits_Enlarge)

lemma ResetLiveSet_sets:
  assumes "wf_bbs regs (bbs f)" and "regs < 2 ^ 31" and "b < length (bbs f)"
  shows "unat ` set (fst (ResetLiveSet f ! b)) = li (bbs f) b" and "unat ` set (snd (ResetLiveSet f ! b)) = lo (bbs f) b"
proof -
  have "Size (liveIn (bbs f ! b)) \<le> 2 ^ 32" "Size (liveOut (bbs f ! b)) \<le> 2 ^ 32"
    using wf_bbsD [OF assms(1,3)] assms(2) by (simp_all add: wf_bb_def Size_def kWordSize_def)
  then show "unat ` set (fst (ResetLiveSet f ! b)) = li (bbs f) b" "unat ` set (snd (ResetLiveSet f ! b)) = lo (bbs f) b"
    using assms(3) by (simp_all add: ResetLiveSet_def li_def lo_def set_GetBitsOfInfo)
qed

end
