(* ===== verification/DomTree.thy ===== *)
theory DomTree
  imports Prelude
begin

text \<open>
  Dominators of a flow graph and the interface of the iteration that computes them. A
  graph is an edge relation with a root; \<open>doms\<close> maps a node to its parent in the tree
  built so far and the root to itself. The locale \<open>chk\<close> states what the iteration of
  Cooper, Harvey and Kennedy relies on: post-order numbers under which every node but the
  root has a predecessor with a larger number. Its lemmas show that visiting the nodes by
  decreasing numbers, with the parent set to the nearest common ancestor of the processed
  predecessors, moves parents only towards the root and ends in the dominator tree.
\<close>

section \<open>Paths and dominance\<close>

definition avoid :: "(nat \<Rightarrow> nat \<Rightarrow> bool) \<Rightarrow> nat set \<Rightarrow> nat \<Rightarrow> nat \<Rightarrow> bool" where
  "avoid E S = (\<lambda>a b. E a b \<and> b \<notin> S)\<^sup>*\<^sup>*"

text \<open>\<open>z\<close> dominates \<open>c\<close>: no path from the root to \<open>c\<close> avoids \<open>z\<close>.\<close>

definition dominates :: "(nat \<Rightarrow> nat \<Rightarrow> bool) \<Rightarrow> nat \<Rightarrow> nat \<Rightarrow> nat \<Rightarrow> bool" where
  "dominates E r z c \<longleftrightarrow> z = r \<or> \<not> avoid E {z} r c"

inductive path :: "(nat \<Rightarrow> nat \<Rightarrow> bool) \<Rightarrow> nat \<Rightarrow> nat list \<Rightarrow> nat \<Rightarrow> bool" for E r where
  start: "path E r [r] r"
| step: "path E r xs a \<Longrightarrow> E a b \<Longrightarrow> path E r (xs @ [b]) b"

lemma avoid_refl [simp]: "avoid E S a a"
  by (simp add: avoid_def)

lemma avoid_trans: "avoid E S a b \<Longrightarrow> avoid E S b c \<Longrightarrow> avoid E S a c"
  unfolding avoid_def by (rule rtranclp_trans)

lemma avoid_step: "avoid E S a b \<Longrightarrow> E b c \<Longrightarrow> c \<notin> S \<Longrightarrow> avoid E S a c"
  unfolding avoid_def by (rule rtranclp.rtrancl_into_rtrancl) simp_all

lemma avoid_mono: "avoid E S a b \<Longrightarrow> T \<subseteq> S \<Longrightarrow> avoid E T a b"
  unfolding avoid_def by (erule rtranclp_mono [THEN predicate2D, rotated]) auto

lemma path_avoid: "z \<noteq> r \<Longrightarrow> avoid E {z} r c \<longleftrightarrow> (\<exists>xs. path E r xs c \<and> z \<notin> set xs)"
proof
  assume z: "z \<noteq> r"
  show "avoid E {z} r c \<Longrightarrow> \<exists>xs. path E r xs c \<and> z \<notin> set xs"
    unfolding avoid_def
  proof (induction rule: rtranclp_induct)
    case base
    then show ?case using z by (intro exI [of _ "[r]"]) (simp add: path.start)
  next
    case (step b c)
    then obtain xs where "path E r xs b" "z \<notin> set xs" by blast
    then show ?case using step.hyps(2) by (intro exI [of _ "xs @ [c]"]) (auto intro: path.step)
  qed
  have "path E r xs c \<Longrightarrow> z \<notin> set xs \<Longrightarrow> avoid E {z} r c" for xs
    by (induction rule: path.induct) (auto intro: avoid_step)
  then show "\<exists>xs. path E r xs c \<and> z \<notin> set xs \<Longrightarrow> avoid E {z} r c" by blast
qed

lemma path_root: "path E r xs c \<Longrightarrow> r \<in> set xs"
  by (induction rule: path.induct) simp_all

lemma dominates_path: "dominates E r z c \<longleftrightarrow> (\<forall>xs. path E r xs c \<longrightarrow> z \<in> set xs)"
proof (cases "z = r")
  case False
  then show ?thesis by (auto simp: dominates_def path_avoid)
qed (auto simp: dominates_def dest: path_root)

section \<open>The tree\<close>

type_synonym parents = "nat \<Rightarrow> nat option"

text \<open>\<open>anc doms x y\<close>: \<open>y\<close> is \<open>x\<close> or above it.\<close>

definition anc :: "parents \<Rightarrow> nat \<Rightarrow> nat \<Rightarrow> bool" where
  "anc doms = (\<lambda>a b. doms a = Some b)\<^sup>*\<^sup>*"

lemma anc_refl [simp]: "anc doms x x"
  by (simp add: anc_def)

lemma anc_trans: "anc doms x y \<Longrightarrow> anc doms y z \<Longrightarrow> anc doms x z"
  unfolding anc_def by (rule rtranclp_trans)

lemma anc_parent: "doms x = Some y \<Longrightarrow> anc doms x y"
  unfolding anc_def by (rule r_into_rtranclp)

lemma anc_cases: "anc doms x z \<Longrightarrow> z = x \<or> (\<exists>y. doms x = Some y \<and> anc doms y z)"
  unfolding anc_def by (auto elim: converse_rtranclpE)

lemma anc_unfold: "doms x = Some y \<Longrightarrow> anc doms x z \<longleftrightarrow> z = x \<or> anc doms y z"
  using anc_cases [of doms x z] anc_trans [OF anc_parent, of doms x y z] by auto

lemma anc_comparable: "anc doms x y \<Longrightarrow> anc doms x z \<Longrightarrow> anc doms y z \<or> anc doms z y"
  unfolding anc_def
proof (induction rule: rtranclp_induct)
  case (step b c)
  then consider "(\<lambda>a b. doms a = Some b)\<^sup>*\<^sup>* b z" | "(\<lambda>a b. doms a = Some b)\<^sup>*\<^sup>* z b" by blast
  then show ?case
  proof cases
    case 1
    then show ?thesis using step.hyps(2) by (auto elim: converse_rtranclpE intro: rtranclp.rtrancl_into_rtrancl)
  next
    case 2
    then show ?thesis using step.hyps(2) by (auto intro: rtranclp.rtrancl_into_rtrancl)
  qed
qed simp

definition processed :: "parents \<Rightarrow> nat \<Rightarrow> bool" where
  "processed doms x \<longleftrightarrow> doms x \<noteq> None"

definition strict_above :: "parents \<Rightarrow> nat \<Rightarrow> nat set" where
  "strict_above doms x = {y. anc doms x y \<and> y \<noteq> x}"

text \<open>What changing one parent does to the ancestors.\<close>

lemma anc_update_below:
  assumes "\<not> anc doms x b"
  shows "anc (doms(b \<mapsto> t)) x z \<longleftrightarrow> anc doms x z"
proof
  have x: "anc doms x y \<Longrightarrow> y \<noteq> b" for y using assms by blast
  show "anc doms x z \<Longrightarrow> anc (doms(b \<mapsto> t)) x z"
    unfolding anc_def
  proof (induction rule: rtranclp_induct)
    case (step y z)
    then have "(doms(b \<mapsto> t)) y = Some z" using x [of y] by (simp add: anc_def)
    then show ?case using step.IH by (rule rtranclp.rtrancl_into_rtrancl [rotated])
  qed simp
  show "anc (doms(b \<mapsto> t)) x z \<Longrightarrow> anc doms x z"
    unfolding anc_def
  proof (induction rule: rtranclp_induct)
    case (step y z)
    then have "doms y = Some z" using x [of y] by (simp add: anc_def)
    then show ?case using step.IH by (rule rtranclp.rtrancl_into_rtrancl [rotated])
  qed simp
qed

lemma anc_update_above:
  assumes "anc doms x b" and t: "\<not> anc doms t b" and acyclic: "\<And>z. anc doms b z \<Longrightarrow> anc doms z b \<Longrightarrow> z = b"
  shows "anc (doms(b \<mapsto> t)) x z \<longleftrightarrow> (anc doms x z \<and> anc doms z b) \<or> anc doms t z"
proof -
  let ?d = "doms(b \<mapsto> t)"
  have base: "anc ?d b z = ((anc doms b z \<and> anc doms z b) \<or> anc doms t z)"
    using anc_unfold [of ?d b t z] anc_update_below [OF t, of t z] acyclic [of z] by auto
  from assms(1) show ?thesis
    unfolding anc_def [of doms, THEN fun_cong, THEN fun_cong, of x b]
  proof (induction rule: converse_rtranclp_induct)
    case (step x y)
    then have yb: "anc doms y b" by (simp add: anc_def)
    show ?case
    proof (cases "x = b")
      case False
      then have "anc ?d x z \<longleftrightarrow> z = x \<or> anc ?d y z" using step.hyps(1) by (intro anc_unfold) simp
      moreover have "anc doms x z \<longleftrightarrow> z = x \<or> anc doms y z" using step.hyps(1) by (rule anc_unfold)
      moreover have "anc doms x b" using yb anc_unfold [of doms x y b] step.hyps(1) by simp
      ultimately show ?thesis using step.IH by blast
    next
      case True
      show ?thesis unfolding True by (rule base)
    qed
  qed (rule base)
qed

section \<open>The iteration\<close>

locale chk =
  fixes E :: "nat \<Rightarrow> nat \<Rightarrow> bool" and r :: nat and N :: "nat set" and po :: "nat \<Rightarrow> int"
  assumes finite_N: "finite N" and root: "r \<in> N"
    and reachable: "x \<in> N \<Longrightarrow> avoid E {} r x"
    and closed: "x \<in> N \<Longrightarrow> E x y \<Longrightarrow> y \<in> N"
    and po_inject: "x \<in> N \<Longrightarrow> y \<in> N \<Longrightarrow> po x = po y \<Longrightarrow> x = y"
    and forward_pred: "x \<in> N \<Longrightarrow> x \<noteq> r \<Longrightarrow> \<exists>p\<in>N. E p x \<and> po x < po p"
    and po_nonneg: "x \<in> N \<Longrightarrow> 0 \<le> po x" and po_root: "x \<in> N \<Longrightarrow> po x \<le> po r"
begin

definition tree :: "parents \<Rightarrow> bool" where
  "tree doms \<longleftrightarrow> doms r = Some r \<and>
     (\<forall>x y. doms x = Some y \<longrightarrow> x \<in> N \<and> y \<in> N \<and> doms y \<noteq> None \<and> (x \<noteq> r \<longrightarrow> po x < po y))"

text \<open>The processed predecessors of a node, and their common ancestors.\<close>

definition ppreds :: "parents \<Rightarrow> nat \<Rightarrow> nat set" where
  "ppreds doms b = {p \<in> N. E p b \<and> doms p \<noteq> None \<and> p \<noteq> b}"

definition common :: "parents \<Rightarrow> nat \<Rightarrow> nat \<Rightarrow> bool" where
  "common doms b z \<longleftrightarrow> (\<forall>p\<in>ppreds doms b. anc doms p z)"

text \<open>
  The invariant when the nodes with numbers above \<open>k\<close> have been visited in this pass. An
  edge from a node \<open>p\<close> with a larger number may lag behind only while the parent of its
  target has been visited and the target has not.
\<close>

definition lags :: "int \<Rightarrow> nat \<Rightarrow> nat \<Rightarrow> bool" where
  "lags k b t \<longleftrightarrow> k < po t \<and> po b \<le> k"

definition inv :: "int \<Rightarrow> parents \<Rightarrow> bool" where
  "inv k doms \<longleftrightarrow> tree doms \<and> (\<forall>x\<in>N. k < po x \<longrightarrow> doms x \<noteq> None) \<and>
     (\<forall>c t. doms c = Some t \<longrightarrow> avoid E (strict_above doms t) t c) \<and>
     (\<forall>c z. doms c \<noteq> None \<longrightarrow> dominates E r z c \<longrightarrow> anc doms c z) \<and>
     (\<forall>b t z. doms b = Some t \<longrightarrow> b \<noteq> r \<longrightarrow> common doms b z \<longrightarrow> po t \<le> po z) \<and>
     (\<forall>b t p. doms b = Some t \<longrightarrow> b \<noteq> r \<longrightarrow> p \<in> N \<longrightarrow> E p b \<longrightarrow> po b < po p \<longrightarrow>
        doms p \<noteq> None \<and> (if lags k b t then \<forall>z. anc doms p z \<longrightarrow> po t \<le> po z \<longrightarrow> anc doms t z else anc doms p t))"

lemma invD:
  assumes "inv k doms"
  shows "tree doms" and "x \<in> N \<Longrightarrow> k < po x \<Longrightarrow> doms x \<noteq> None"
    and "doms c = Some t \<Longrightarrow> avoid E (strict_above doms t) t c"
    and "doms c \<noteq> None \<Longrightarrow> dominates E r z c \<Longrightarrow> anc doms c z"
    and "doms b = Some t \<Longrightarrow> b \<noteq> r \<Longrightarrow> common doms b z \<Longrightarrow> po t \<le> po z"
    and "doms b = Some t \<Longrightarrow> b \<noteq> r \<Longrightarrow> p \<in> N \<Longrightarrow> E p b \<Longrightarrow> po b < po p \<Longrightarrow> doms p \<noteq> None"
    and "doms b = Some t \<Longrightarrow> b \<noteq> r \<Longrightarrow> p \<in> N \<Longrightarrow> E p b \<Longrightarrow> po b < po p \<Longrightarrow> lags k b t \<Longrightarrow> anc doms p z \<Longrightarrow> po t \<le> po z \<Longrightarrow> anc doms t z"
    and "doms b = Some t \<Longrightarrow> b \<noteq> r \<Longrightarrow> p \<in> N \<Longrightarrow> E p b \<Longrightarrow> po b < po p \<Longrightarrow> \<not> lags k b t \<Longrightarrow> anc doms p t"
  using assms unfolding inv_def by (blast, blast, blast, blast, blast, blast, meson, meson)

lemma treeD:
  assumes "tree doms"
  shows "doms r = Some r" and "doms x = Some y \<Longrightarrow> x \<in> N" and "doms x = Some y \<Longrightarrow> y \<in> N"
    and "doms x = Some y \<Longrightarrow> doms y \<noteq> None" and "doms x = Some y \<Longrightarrow> x \<noteq> r \<Longrightarrow> po x < po y"
  using assms unfolding tree_def by blast+

lemma tree_parent_le: "tree doms \<Longrightarrow> doms x = Some y \<Longrightarrow> po x \<le> po y"
  using treeD(1) [of doms] treeD(5) [of doms x y] by (cases "x = r") auto

lemma anc_po: "anc doms x y \<Longrightarrow> tree doms \<Longrightarrow> po x \<le> po y"
  unfolding anc_def by (induction rule: rtranclp_induct) (auto dest: tree_parent_le order_trans)

lemma anc_N: "anc doms x y \<Longrightarrow> tree doms \<Longrightarrow> x \<in> N \<Longrightarrow> y \<in> N"
  unfolding anc_def by (induction rule: rtranclp_induct) (auto dest: treeD(3))

lemma anc_processed: "anc doms x y \<Longrightarrow> tree doms \<Longrightarrow> doms x \<noteq> None \<Longrightarrow> doms y \<noteq> None"
  unfolding anc_def by (induction rule: rtranclp_induct) (auto dest: treeD(4))

lemma anc_eq_po: "anc doms x y \<Longrightarrow> tree doms \<Longrightarrow> x \<in> N \<Longrightarrow> po y \<le> po x \<Longrightarrow> y = x"
  using anc_po [of doms x y] anc_N [of doms x y] po_inject [of x y] by auto

lemma anc_chain:
  assumes "anc doms x y" and "anc doms x z" and "po y \<le> po z" and "tree doms" and "x \<in> N"
  shows "anc doms y z"
proof -
  consider "anc doms y z" | "anc doms z y" using anc_comparable [OF assms(1,2)] by blast
  then show ?thesis
  proof cases
    case 2
    have "z \<in> N" using anc_N [OF assms(2,4,5)] .
    then have "y = z" using anc_eq_po [OF 2 assms(4)] assms(3) by simp
    then show ?thesis by simp
  qed
qed

lemma anc_root:
  assumes "tree doms" and "x \<in> N" and "doms x \<noteq> None"
  shows "anc doms x r"
  using assms(2,3)
proof (induction "nat (po r - po x)" arbitrary: x rule: less_induct)
  case less
  then obtain y where y: "doms x = Some y" by blast
  show ?case
  proof (cases "x = r")
    case False
    have yN: "y \<in> N" "doms y \<noteq> None" "po x < po y"
      using treeD(3,4,5) [OF assms(1) y] False by simp_all
    have "anc doms y r" using less.hyps [of y] yN po_root [OF yN(1)] by simp
    then show ?thesis using anc_parent [of doms x y] anc_trans [of doms x y r] y by simp
  qed simp
qed

lemma path_to_below:
  assumes "anc doms x y" and inv: "inv k doms" and "doms x \<noteq> None"
  shows "avoid E (strict_above doms y) y x"
  using assms(1,3) unfolding anc_def
proof (induction rule: rtranclp_induct)
  case (step y z)
  then have y: "anc doms x y" by (simp add: anc_def)
  have "avoid E (strict_above doms z) z y" using invD(3) [OF inv step.hyps(2)] .
  moreover have "avoid E (strict_above doms z) y x"
  proof (rule avoid_mono [OF step.IH [OF step.prems]])
    show "strict_above doms z \<subseteq> strict_above doms y"
    proof
      fix a assume a: "a \<in> strict_above doms z"
      then have "anc doms y a" using anc_unfold [of doms y z a] step.hyps(2) by (simp add: strict_above_def)
      moreover have "a \<noteq> y"
      proof
        assume ay: "a = y"
        have t: "tree doms" using invD(1) [OF inv] .
        have "anc doms z y" "z \<noteq> y" using a ay by (auto simp: strict_above_def)
        then show False
          using anc_eq_po [of doms z y] tree_parent_le [OF t step.hyps(2)] treeD(3) [OF t step.hyps(2)] t by simp
      qed
      ultimately show "a \<in> strict_above doms y" by (simp add: strict_above_def)
    qed
  qed
  ultimately show ?case by (rule avoid_trans)
qed simp

text \<open>One visit: the parent of \<open>b\<close> becomes the nearest common ancestor of its processed predecessors.\<close>

definition meets :: "parents \<Rightarrow> nat \<Rightarrow> nat \<Rightarrow> bool" where
  "meets doms b t \<longleftrightarrow> (\<forall>z. anc doms t z \<longleftrightarrow> common doms b z)"

definition visit :: "int \<Rightarrow> parents \<Rightarrow> nat \<Rightarrow> nat \<Rightarrow> bool" where
  "visit k doms b t \<longleftrightarrow> inv k doms \<and> b \<in> N \<and> b \<noteq> r \<and> po b = k \<and> meets doms b t"

lemma visitD:
  assumes "visit k doms b t"
  shows "inv k doms" "b \<in> N" "b \<noteq> r" "po b = k" "tree doms"
    "anc doms t z \<longleftrightarrow> common doms b z"
  using assms invD(1) by (auto simp: visit_def meets_def)

lemma common_pred: "common doms b z \<Longrightarrow> p \<in> N \<Longrightarrow> E p b \<Longrightarrow> doms p \<noteq> None \<Longrightarrow> p \<noteq> b \<Longrightarrow> anc doms p z"
  unfolding common_def ppreds_def by blast

lemma visit_pred:
  assumes v: "visit k doms b t"
  obtains p where "p \<in> N" "E p b" "po b < po p" "doms p \<noteq> None" "p \<noteq> b"
proof -
  obtain p where p: "p \<in> N" "E p b" "po b < po p"
    using forward_pred [OF visitD(2,3) [OF v]] by blast
  then have "doms p \<noteq> None" using invD(2) [OF visitD(1) [OF v]] visitD(4) [OF v] by simp
  then show ?thesis using that p by blast
qed

lemma visit_target:
  assumes v: "visit k doms b t"
  shows "t \<in> N" "doms t \<noteq> None" "po b < po t" "\<not> anc doms t b" "anc doms t z \<Longrightarrow> z \<noteq> b"
    "p \<in> N \<Longrightarrow> E p b \<Longrightarrow> doms p \<noteq> None \<Longrightarrow> p \<noteq> b \<Longrightarrow> anc doms p t"
proof -
  have tr: "tree doms" using visitD(5) [OF v] .
  have common: "common doms b t" using visitD(6) [OF v, of t] by simp
  show "p \<in> N \<Longrightarrow> E p b \<Longrightarrow> doms p \<noteq> None \<Longrightarrow> p \<noteq> b \<Longrightarrow> anc doms p t" by (rule common_pred [OF common])
  obtain q where p: "q \<in> N" "E q b" "po b < po q" "doms q \<noteq> None" "q \<noteq> b" by (rule visit_pred [OF v])
  have pt: "anc doms q t" using common_pred [OF common p(1,2,4,5)] .
  show "t \<in> N" using anc_N [OF pt tr p(1)] .
  show "doms t \<noteq> None" using anc_processed [OF pt tr p(4)] .
  show less: "po b < po t" using anc_po [OF pt tr] p(3) by simp
  show "\<not> anc doms t b" using anc_po [of doms t b] tr less by auto
  then show "anc doms t z \<Longrightarrow> z \<noteq> b" by blast
qed

text \<open>Parents move up only.\<close>

lemma visit_up:
  assumes v: "visit k doms b t" and s: "doms b = Some s"
  shows "anc doms s t"
proof -
  have inv: "inv k doms" and tr: "tree doms" using visitD(1,5) [OF v] .
  obtain p where p: "p \<in> N" "E p b" "po b < po p" "doms p \<noteq> None" "p \<noteq> b" by (rule visit_pred [OF v])
  have pt: "anc doms p t" using visit_target(6) [OF v p(1,2,4,5)] .
  have "common doms b t" using visitD(6) [OF v, of t] by simp
  then have le: "po s \<le> po t" using invD(5) [OF inv s visitD(3) [OF v]] by blast
  show ?thesis
  proof (cases "lags k b s")
    case True
    then show ?thesis using invD(7) [OF inv s visitD(3) [OF v] p(1,2,3) _ pt le] by blast
  next
    case False
    then have "anc doms p s" using invD(8) [OF inv s visitD(3) [OF v] p(1,2,3)] by blast
    then show ?thesis using anc_chain [OF _ pt le tr p(1)] by blast
  qed
qed

lemma visit_anc:
  assumes v: "visit k doms b t"
  shows "anc (doms(b \<mapsto> t)) x z \<longleftrightarrow> (if anc doms x b then (anc doms x z \<and> anc doms z b) \<or> anc doms t z else anc doms x z)"
proof (cases "anc doms x b")
  case True
  have "z = b" if "anc doms b z" "anc doms z b" for z
    using anc_eq_po [OF that(1) visitD(5,2) [OF v]] anc_po [OF that(2) visitD(5) [OF v]] .
  then show ?thesis using anc_update_above [OF True visit_target(4) [OF v]] True by simp
qed (simp add: anc_update_below)

lemma visit_shrinks:
  assumes v: "visit k doms b t" and x: "doms x \<noteq> None" and z: "anc (doms(b \<mapsto> t)) x z"
  shows "anc doms x z"
proof (cases "anc doms x b \<and> anc doms t z")
  case True
  then obtain s where "doms b = Some s" using anc_processed [OF _ visitD(5) [OF v] x, of b] by blast
  then have "anc doms b z" using anc_unfold [of doms b s z] anc_trans [OF visit_up [OF v, of s], of z] True by simp
  then show ?thesis using anc_trans [of doms x b z] True by blast
next
  case False
  then show ?thesis using z unfolding visit_anc [OF v] by (auto split: if_splits)
qed

lemma visit_keeps:
  assumes v: "visit k doms b t" and "\<not> anc doms x b"
  shows "anc (doms(b \<mapsto> t)) x z \<longleftrightarrow> anc doms x z"
  using assms(2) by (simp add: visit_anc [OF v] del: fun_upd_apply)

lemma visit_tree:
  assumes v: "visit k doms b t"
  shows "tree (doms(b \<mapsto> t))"
  using visitD(5) [OF v] visitD(2,3) [OF v] visit_target(1-3) [OF v]
  unfolding tree_def by (auto split: if_splits)

lemma above_not_below: "tree doms \<Longrightarrow> po b < po x \<Longrightarrow> \<not> anc doms x b"
  using anc_po [of doms x b] by auto

lemma visit_paths:
  assumes v: "visit k doms b t" and c: "(doms(b \<mapsto> t)) c = Some s"
  shows "avoid E (strict_above (doms(b \<mapsto> t)) s) s c"
proof (cases "c = b")
  case True
  then have s: "s = t" using c by simp
  obtain p where p: "p \<in> N" "E p b" "po b < po p" "doms p \<noteq> None" "p \<noteq> b" by (rule visit_pred [OF v])
  have same: "strict_above (doms(b \<mapsto> t)) t = strict_above doms t"
    unfolding strict_above_def visit_keeps [OF v visit_target(4) [OF v]] ..
  have "avoid E (strict_above doms t) t p"
    using path_to_below [OF visit_target(6) [OF v p(1,2,4,5)] visitD(1) [OF v] p(4)] .
  then have "avoid E (strict_above doms t) t b"
    using avoid_step [of E _ t p b] p(2) visit_target(4) [OF v] by (simp add: strict_above_def)
  then show ?thesis using True s same by simp
next
  case False
  then have c: "doms c = Some s" using c by simp
  have "doms s \<noteq> None" using treeD(4) [OF visitD(5) [OF v] c] .
  then have "strict_above (doms(b \<mapsto> t)) s \<subseteq> strict_above doms s"
    using visit_shrinks [OF v] by (auto simp: strict_above_def simp del: fun_upd_apply)
  then show ?thesis using avoid_mono [OF invD(3) [OF visitD(1) [OF v] c]] by blast
qed

lemma dominates_pred: "dominates E r z b \<Longrightarrow> E p b \<Longrightarrow> z \<noteq> b \<Longrightarrow> dominates E r z p"
  unfolding dominates_def using avoid_step [of E "{z}" r p b] by auto

lemma visit_complete_at:
  assumes v: "visit k doms b t" and z: "dominates E r z b"
  shows "z = b \<or> anc doms t z"
proof (cases "z = b")
  case False
  have "anc doms p z" if p: "p \<in> ppreds doms b" for p
  proof -
    have pb: "E p b" "doms p \<noteq> None" using p by (simp_all add: ppreds_def)
    show ?thesis by (rule invD(4) [OF visitD(1) [OF v] pb(2) dominates_pred [OF z pb(1) False]])
  qed
  then show ?thesis using visitD(6) [OF v, of z] by (simp add: common_def)
qed simp

lemma visit_complete:
  assumes v: "visit k doms b t" and c: "(doms(b \<mapsto> t)) c \<noteq> None" and z: "dominates E r z c"
  shows "anc (doms(b \<mapsto> t)) c z"
proof (cases "c = b")
  case True
  then have "z = b \<or> anc doms t z" using visit_complete_at [OF v] z by simp
  then show ?thesis unfolding True visit_anc [OF v] by auto
next
  case False
  then have pc: "doms c \<noteq> None" using c by simp
  then have cz: "anc doms c z" using invD(4) [OF visitD(1) [OF v] _ z] by simp
  show ?thesis
  proof (cases "anc doms c b \<and> \<not> anc doms z b \<and> \<not> anc doms t z")
    case True
    then have cb: "anc doms c b" and zb: "\<not> anc doms z b" and tz: "\<not> anc doms t z" by simp_all
    have bz: "anc doms b z" using anc_comparable [OF cz cb] zb by simp
    have "z \<noteq> b" using zb by auto
    then have "\<not> dominates E r z b" using visit_complete_at [OF v, of z] tz by auto
    then have zr: "z \<noteq> r" "avoid E {z} r b" by (simp_all add: dominates_def)
    have "avoid E {z} b c"
    proof (rule avoid_mono [OF path_to_below [OF cb visitD(1) [OF v] pc]])
      show "{z} \<subseteq> strict_above doms b" using bz \<open>z \<noteq> b\<close> by (simp add: strict_above_def)
    qed
    then have "avoid E {z} r c" using avoid_trans [OF zr(2)] by simp
    then have "\<not> dominates E r z c" using zr(1) by (simp add: dominates_def)
    then show ?thesis using z by contradiction
  next
    case False
    then show ?thesis unfolding visit_anc [OF v] using cz by simp
  qed
qed

lemma visit_common:
  assumes v: "visit k doms b t" and z: "common (doms(b \<mapsto> t)) c z"
  shows "common doms c z"
  unfolding common_def
proof
  fix p assume p: "p \<in> ppreds doms c"
  then have "p \<in> ppreds (doms(b \<mapsto> t)) c" by (simp add: ppreds_def)
  then have "anc (doms(b \<mapsto> t)) p z" using z by (simp only: common_def)
  then show "anc doms p z" using visit_shrinks [OF v, of p z] p by (simp add: ppreds_def)
qed

lemma visit_numbers:
  assumes v: "visit k doms b t" and c: "(doms(b \<mapsto> t)) c = Some s" "c \<noteq> r" and z: "common (doms(b \<mapsto> t)) c z"
  shows "po s \<le> po z"
proof (cases "c = b")
  case True
  have "anc doms t z" using visit_common [OF v z] True visitD(6) [OF v, of z] by simp
  then show ?thesis using anc_po [OF _ visitD(5) [OF v]] c True by simp
next
  case False
  then show ?thesis using invD(5) [OF visitD(1) [OF v] _ c(2) visit_common [OF v z]] c(1) by simp
qed

lemma visit_lag_at:
  assumes v: "visit k doms b t" and p: "p \<in> N" "E p b" "po b < po p"
  shows "doms p \<noteq> None" and "anc (doms(b \<mapsto> t)) p t"
proof -
  show pp: "doms p \<noteq> None"
    using invD(2) [OF visitD(1) [OF v] p(1)] p(3) visitD(4) [OF v] by simp
  have "anc doms p t" using visit_target(6) [OF v p(1,2) pp] p(3) by auto
  moreover have "\<not> anc doms p b" using above_not_below [OF visitD(5) [OF v] p(3)] .
  ultimately show "anc (doms(b \<mapsto> t)) p t" using visit_keeps [OF v] by blast
qed

text \<open>The other nodes: \<open>s = b\<close> begins to lag, for \<open>s \<noteq> b\<close> nothing changes.\<close>

lemma visit_lag_target:
  assumes v: "visit k doms b t" and c: "doms c = Some b" "c \<noteq> r" and p: "p \<in> N" "E p c" "po c < po p"
    and z: "anc (doms(b \<mapsto> t)) p z" "po b \<le> po z"
  shows "anc (doms(b \<mapsto> t)) b z"
proof -
  have tr: "tree doms" and inv: "inv k doms" using visitD(5,1) [OF v] .
  have "\<not> lags k c b" using visitD(4) [OF v] by (simp add: lags_def)
  then have pb: "anc doms p b" by (rule invD(8) [OF inv c p])
  then have "(anc doms p z \<and> anc doms z b) \<or> anc doms t z" using z(1) unfolding visit_anc [OF v] by simp
  then have "z = b \<or> anc doms t z"
  proof (elim disjE)
    assume a: "anc doms p z \<and> anc doms z b"
    then have "z \<in> N" using anc_N [OF _ tr p(1)] by blast
    then have "b = z" using a anc_eq_po [of doms z b] tr z(2) by blast
    then show ?thesis by simp
  qed simp
  then show ?thesis unfolding visit_anc [OF v] by auto
qed

lemma visit_lag_other:
  assumes v: "visit k doms b t" and c: "doms c = Some s" "c \<noteq> r" "c \<noteq> b" "s \<noteq> b" and p: "p \<in> N" "E p c" "po c < po p"
  shows "lags (k - 1) c s \<Longrightarrow> anc (doms(b \<mapsto> t)) p z \<Longrightarrow> po s \<le> po z \<Longrightarrow> anc (doms(b \<mapsto> t)) s z"
    and "\<not> lags (k - 1) c s \<Longrightarrow> anc (doms(b \<mapsto> t)) p s"
proof -
  have tr: "tree doms" and inv: "inv k doms" using visitD(5,1) [OF v] .
  have N: "c \<in> N" "s \<in> N" using treeD(2,3) [OF tr c(1)] .
  have pob: "po b = k" and bN: "b \<in> N" using visitD(4,2) [OF v] .
  have "po s \<noteq> k" "po c \<noteq> k" using po_inject [OF N(2) bN] po_inject [OF N(1) bN] c(3,4) pob by auto
  then have same: "lags (k - 1) c s \<longleftrightarrow> lags k c s" by (auto simp: lags_def)
  have pp: "doms p \<noteq> None" by (rule invD(6) [OF inv c(1,2) p])
  show "anc (doms(b \<mapsto> t)) s z" if l: "lags (k - 1) c s" and z: "anc (doms(b \<mapsto> t)) p z" "po s \<le> po z"
  proof -
    have "anc doms p z" by (rule visit_shrinks [OF v pp z(1)])
    then have "anc doms s z" using invD(7) [OF inv c(1,2) p _ _ z(2)] l same by blast
    moreover have "\<not> anc doms s b" using l pob above_not_below [OF tr, of b s] same by (simp add: lags_def)
    ultimately show ?thesis using visit_keeps [OF v] by blast
  qed
  show "anc (doms(b \<mapsto> t)) p s" if l: "\<not> lags (k - 1) c s"
  proof -
    have ps: "anc doms p s" using invD(8) [OF inv c(1,2) p] l same by blast
    have "anc doms s b" if pb: "anc doms p b"
    proof (rule ccontr)
      assume sb: "\<not> anc doms s b"
      then have "anc doms b s" using anc_comparable [OF ps pb] by simp
      then have "po b < po s" using anc_po [of doms b s] tr anc_eq_po [of doms b s] bN c(4) by fastforce
      moreover have "po p \<le> po b" using anc_po [OF pb tr] .
      ultimately show False using l pob p(3) same by (simp add: lags_def)
    qed
    then show ?thesis unfolding visit_anc [OF v] using ps by simp
  qed
qed

theorem visit_inv:
  assumes v: "visit k doms b t"
  shows "inv (k - 1) (doms(b \<mapsto> t))"
proof -
  let ?d = "doms(b \<mapsto> t)"
  have inv: "inv k doms" and pob: "po b = k" and bN: "b \<in> N" using visitD(1,4,2) [OF v] .
  have "?d x \<noteq> None" if "x \<in> N" "k - 1 < po x" for x
  proof (cases "x = b")
    case False
    then have "po x \<noteq> k" using po_inject [OF that(1) bN] pob by auto
    then show ?thesis using invD(2) [OF inv that(1)] that(2) by simp
  qed simp
  moreover have "?d p \<noteq> None \<and> (if lags (k - 1) c s then \<forall>z. anc ?d p z \<longrightarrow> po s \<le> po z \<longrightarrow> anc ?d s z else anc ?d p s)"
    if c: "?d c = Some s" "c \<noteq> r" and p: "p \<in> N" "E p c" "po c < po p" for c s p
  proof (cases "c = b")
    case True
    then have "s = t" "po b < po p" "E p b" "\<not> lags (k - 1) c s" using c p pob by (auto simp: lags_def)
    then show ?thesis using visit_lag_at [OF v p(1)] by (simp del: fun_upd_apply) (simp)
  next
    case False
    then have c': "doms c = Some s" using c(1) by simp
    have "?d p \<noteq> None" using invD(6) [OF inv c' c(2) p] by simp
    moreover have "if lags (k - 1) c s then \<forall>z. anc ?d p z \<longrightarrow> po s \<le> po z \<longrightarrow> anc ?d s z else anc ?d p s"
    proof (cases "s = b")
      case True
      have "lags (k - 1) c s" using True pob treeD(5) [OF visitD(5) [OF v] c' c(2)] by (simp add: lags_def)
      then show ?thesis using visit_lag_target [OF v _ c(2) p] c' True by simp
    next
      case sb: False
      then show ?thesis using visit_lag_other [OF v c' c(2) False sb p] by (simp del: fun_upd_apply)
    qed
    ultimately show ?thesis ..
  qed
  ultimately show ?thesis
    unfolding inv_def using visit_tree [OF v] visit_paths [OF v] visit_complete [OF v] visit_numbers [OF v] by blast
qed

lemma dominates_root: "dominates E r z r \<Longrightarrow> z = r"
  by (auto simp: dominates_def)

lemma inv_start: "inv (po r - 1) (Map.empty(r \<mapsto> r))"
proof -
  let ?d = "Map.empty(r \<mapsto> r)"
  have anc: "anc ?d x z \<Longrightarrow> z = x" for x z
    unfolding anc_def by (induction rule: rtranclp_induct) (auto split: if_splits)
  have "x = r" if "x \<in> N" "po r - 1 < po x" for x
    using po_inject [OF that(1) root] po_root [OF that(1)] that(2) by simp
  then show ?thesis
    using root unfolding inv_def tree_def by (auto split: if_splits dest: dominates_root)
qed

lemma inv_next:
  assumes inv: "inv (- 1) doms"
  shows "inv (po r - 1) doms"
proof -
  have tr: "tree doms" using invD(1) [OF inv] .
  have "doms x \<noteq> None" if "x \<in> N" for x using invD(2) [OF inv that] po_nonneg [OF that] by simp
  moreover have "if lags (po r - 1) b t then \<forall>z. anc doms p z \<longrightarrow> po t \<le> po z \<longrightarrow> anc doms t z else anc doms p t"
    if b: "doms b = Some t" "b \<noteq> r" and p: "p \<in> N" "E p b" "po b < po p" for b t p
  proof -
    have "\<not> lags (- 1) b t" using po_nonneg [OF treeD(2) [OF tr b(1)]] by (simp add: lags_def)
    then have "anc doms p t" by (rule invD(8) [OF inv b p])
    moreover have "anc doms t z" if l: "lags (po r - 1) b t" and z: "anc doms p z" "po t \<le> po z" for z
    proof -
      have "po t = po r" using l po_root [OF treeD(3) [OF tr b(1)]] by (simp add: lags_def)
      then have "t = r" using po_inject [OF treeD(3) [OF tr b(1)] root] by simp
      moreover have "z = r"
        using z(2) \<open>po t = po r\<close> po_root [OF anc_N [OF z(1) tr p(1)]] po_inject [OF anc_N [OF z(1) tr p(1)] root] by simp
      ultimately show ?thesis by simp
    qed
    ultimately show ?thesis by simp
  qed
  ultimately show ?thesis using inv unfolding inv_def by blast
qed

lemma avoid_N: "avoid E S r x \<Longrightarrow> x \<in> N"
  unfolding avoid_def by (induction rule: rtranclp_induct) (simp_all add: root closed)

text \<open>A tree that no visit changes is the dominator tree.\<close>

theorem stable_dominators:
  assumes inv: "inv (- 1) doms" and stable: "\<And>b. b \<in> N \<Longrightarrow> b \<noteq> r \<Longrightarrow> \<exists>t. doms b = Some t \<and> meets doms b t"
    and x: "x \<in> N"
  shows "anc doms x z \<longleftrightarrow> dominates E r z x"
proof
  have tr: "tree doms" using invD(1) [OF inv] .
  have all: "doms x \<noteq> None" if "x \<in> N" for x using invD(2) [OF inv that] po_nonneg [OF that] by simp
  show "dominates E r z x \<Longrightarrow> anc doms x z" by (rule invD(4) [OF inv all [OF x]])
  have up: "anc doms a t" if a: "a \<in> N" "E a b" and b: "b \<in> N" "b \<noteq> r" "doms b = Some t" for a b t
  proof (cases "a = b")
    case True
    then show ?thesis using anc_parent [of doms b t] b(3) by simp
  next
    case False
    have "a \<in> ppreds doms b" using a all [OF a(1)] False by (simp add: ppreds_def)
    moreover have "meets doms b t" using stable [OF b(1,2)] b(3) by simp
    then have "common doms b t" using anc_refl [of doms t] unfolding meets_def by (simp del: anc_refl)
    ultimately show ?thesis by (simp add: common_def)
  qed
  have "\<not> anc doms c z" if "z \<noteq> r" and "avoid E {z} r c" for c
    using that(2) unfolding avoid_def
  proof (induction rule: rtranclp_induct)
    case base
    show ?case
    proof
      assume rz: "anc doms r z"
      have "po z \<le> po r" using po_root [OF anc_N [OF rz tr root]] .
      then show False using anc_eq_po [OF rz tr root] \<open>z \<noteq> r\<close> by simp
    qed
  next
    case (step a b)
    have ab: "E a b" "b \<noteq> z" using step.hyps(2) by simp_all
    have aN: "a \<in> N" using avoid_N [of "{z}" a] step.hyps(1) by (simp add: avoid_def)
    then have bN: "b \<in> N" using ab(1) by (rule closed)
    show ?case
    proof (cases "b = r")
      case True
      show ?thesis
      proof
        assume rz: "anc doms b z"
        have "po z \<le> po b" using po_root [OF anc_N [OF rz tr bN]] True by simp
        then show False using anc_eq_po [OF rz tr bN] \<open>z \<noteq> r\<close> True by simp
      qed
    next
      case False
      obtain t where t: "doms b = Some t" using all [OF bN] by blast
      have "anc doms a t" using up [OF aN ab(1) bN False t] .
      then have "\<not> anc doms t z" using anc_trans [of doms a t z] step.IH by blast
      then show ?thesis using anc_unfold [of doms b t z] t ab(2) by simp
    qed
  qed
  then show "anc doms x z \<Longrightarrow> dominates E r z x" unfolding dominates_def by metis
qed

end

end
