(* ===== verification/DomLoop.thy ===== *)
theory DomLoop
  imports DomTree
begin

text \<open>
  The loop around the visits of \<^verbatim>\<open>Dominance::ComputeDominance\<close> and
  \<^verbatim>\<open>ComputePostDominance\<close> (\<^verbatim>\<open>maple_me/src/dominance.cpp\<close>): passes over the blocks in
  reverse post-order until one changes nothing. \<open>None\<close> is a null or missing block that the
  code dereferences. The locale \<open>chk_loop\<close> extends \<open>chk\<close> by the contract of the
  visit and of the order; in it the loop ends with the dominator tree.
\<close>

section \<open>Passes\<close>

text \<open>The visit of one block; \<open>new_idom\<close> computes its parent from the parents so far.\<close>

definition dom_step :: "(parents \<Rightarrow> nat \<Rightarrow> nat option) \<Rightarrow> nat option \<Rightarrow> parents \<times> bool \<Rightarrow> (parents \<times> bool) option" where
  "dom_step new_idom bo st =
     (let (doms, changed) = st in
      case bo of None \<Rightarrow> None
      | Some b \<Rightarrow> (case new_idom doms b of None \<Rightarrow> None
          | Some newIDom \<Rightarrow> Some (if doms b \<noteq> Some newIDom then (doms(b \<mapsto> newIDom), True) else (doms, changed))))"

fun dom_pass :: "(parents \<Rightarrow> nat \<Rightarrow> nat option) \<Rightarrow> nat option list \<Rightarrow> parents \<times> bool \<Rightarrow> (parents \<times> bool) option" where
  "dom_pass new_idom [] st = Some st"
| "dom_pass new_idom (bo # bs) st = Option.bind (dom_step new_idom bo st) (dom_pass new_idom bs)"

partial_function (option) dom_loop :: "(parents \<Rightarrow> nat \<Rightarrow> nat option) \<Rightarrow> nat option list \<Rightarrow> parents \<Rightarrow> parents option" where
  "dom_loop new_idom order doms =
     Option.bind (dom_pass new_idom order (doms, False))
       (\<lambda>(doms, changed). if changed then dom_loop new_idom order doms else Some doms)"

section \<open>The loop ends with the dominator tree\<close>

definition weight :: "nat set \<Rightarrow> (nat \<Rightarrow> int) \<Rightarrow> parents \<Rightarrow> nat" where
  "weight N po doms = (\<Sum>b\<in>N. case doms b of None \<Rightarrow> 0 | Some t \<Rightarrow> Suc (nat (po t)))"

locale chk_loop = chk +
  fixes new_idom :: "parents \<Rightarrow> nat \<Rightarrow> nat option" and order :: "nat list"
  assumes order_set: "set order = N - {r}" and order_po: "map po order = rev [0..po r - 1]"
    and new_idom: "inv k doms \<Longrightarrow> b \<in> N \<Longrightarrow> b \<noteq> r \<Longrightarrow> po b = k \<Longrightarrow> \<exists>t. new_idom doms b = Some t \<and> meets doms b t"
begin

lemma visit_weight:
  assumes v: "visit k doms b t" and "doms b \<noteq> Some t"
  shows "weight N po doms < weight N po (doms(b \<mapsto> t))"
  unfolding weight_def
proof (rule sum_strict_mono_ex1 [OF finite_N])
  let ?w = "\<lambda>doms b. case doms b of None \<Rightarrow> 0 | Some t \<Rightarrow> Suc (nat (po t))"
  have b: "?w doms b < ?w (doms(b \<mapsto> t)) b"
  proof (cases "doms b")
    case (Some s)
    have tr: "tree doms" using visitD(5) [OF v] .
    have sN: "s \<in> N" using treeD(3) [OF tr Some] .
    have st: "anc doms s t" using visit_up [OF v Some] .
    have "s \<noteq> t" using assms(2) Some by simp
    then have "po s < po t" using anc_po [OF st tr] anc_eq_po [OF st tr sN] by force
    then show ?thesis using Some po_nonneg [OF sN] by simp
  qed simp
  show "\<forall>x\<in>N. ?w doms x \<le> ?w (doms(b \<mapsto> t)) x"
  proof
    fix x assume "x \<in> N"
    show "?w doms x \<le> ?w (doms(b \<mapsto> t)) x" using b by (cases "x = b") (simp_all del: fun_upd_apply, simp)
  qed
  show "\<exists>x\<in>N. ?w doms x < ?w (doms(b \<mapsto> t)) x" using b visitD(2) [OF v] by blast
qed

lemma weight_bound: "tree doms \<Longrightarrow> weight N po doms \<le> card N * Suc (nat (po r))"
proof -
  assume tr: "tree doms"
  have "(case doms b of None \<Rightarrow> 0 | Some t \<Rightarrow> Suc (nat (po t))) \<le> Suc (nat (po r))" for b
    using treeD(3) [OF tr, of b] po_root nat_mono by (auto split: option.split)
  then show ?thesis unfolding weight_def using sum_bounded_above [of N _ "Suc (nat (po r))"] by (simp add: mult.commute)
qed

definition pass_ok :: "nat list \<Rightarrow> parents \<Rightarrow> bool \<Rightarrow> parents \<Rightarrow> bool \<Rightarrow> bool" where
  "pass_ok xs doms ch doms' ch' \<longleftrightarrow> inv (- 1) doms' \<and> weight N po doms \<le> weight N po doms' \<and>
     (ch' \<longrightarrow> ch \<or> weight N po doms < weight N po doms') \<and>
     (\<not> ch' \<longrightarrow> \<not> ch \<and> doms' = doms \<and> (\<forall>b\<in>set xs. \<exists>t. doms b = Some t \<and> meets doms b t))"

lemma pass_spec:
  assumes "map po xs = rev [0..k]" and "set xs \<subseteq> N - {r}" and "inv k doms" and "- 1 \<le> k"
  shows "\<exists>doms' ch'. dom_pass new_idom (map Some xs) (doms, ch) = Some (doms', ch') \<and> pass_ok xs doms ch doms' ch'"
  using assms
proof (induction xs arbitrary: k doms ch)
  case Nil
  then have "k = - 1" by (cases "0 \<le> k") auto
  then show ?case using Nil by (simp add: pass_ok_def)
next
  case (Cons b xs)
  have "rev [0..k] \<noteq> []" using Cons.prems(1) by auto
  then have k: "0 \<le> k" by (cases "0 \<le> k") auto
  then have "rev [0..k] = k # rev [0..k - 1]" using upto_rec2 [of 0 k] by simp
  then have pob: "po b = k" and xs: "map po xs = rev [0..k - 1]" using Cons.prems(1) by simp_all
  have b: "b \<in> N" "b \<noteq> r" and xs': "set xs \<subseteq> N - {r}" using Cons.prems(2) by auto
  obtain t where t: "new_idom doms b = Some t" "meets doms b t"
    using new_idom [OF Cons.prems(3) b pob] by blast
  have v: "visit k doms b t" using Cons.prems(3) b pob t(2) by (simp add: visit_def)
  have inv': "inv (k - 1) (doms(b \<mapsto> t))" using visit_inv [OF v] .
  let ?ch = "ch \<or> doms b \<noteq> Some t"
  have step: "dom_step new_idom (Some b) (doms, ch) = Some (doms(b \<mapsto> t), ?ch)"
  proof (cases "doms b = Some t")
    case True
    then have "doms(b \<mapsto> t) = doms" by auto
    then show ?thesis using t(1) True by (simp add: dom_step_def)
  qed (simp add: dom_step_def t(1))
  obtain doms' ch' where r: "dom_pass new_idom (map Some xs) (doms(b \<mapsto> t), ?ch) = Some (doms', ch')"
      "pass_ok xs (doms(b \<mapsto> t)) ?ch doms' ch'"
    using Cons.IH [OF xs xs' inv', of ?ch] k by (auto simp del: fun_upd_apply)
  have "pass_ok (b # xs) doms ch doms' ch'"
  proof (cases "doms b = Some t")
    case True
    then have "doms(b \<mapsto> t) = doms" by auto
    then show ?thesis using r(2) True t(2) by (auto simp: pass_ok_def)
  next
    case False
    then show ?thesis using r(2) visit_weight [OF v False] by (auto simp: pass_ok_def)
  qed
  then show ?case using step r(1) by simp
qed

theorem dom_loop_dominators:
  assumes "inv (po r - 1) doms"
  shows "\<exists>doms'. dom_loop new_idom (map Some order) doms = Some doms' \<and> inv (- 1) doms' \<and>
    (\<forall>x\<in>N. \<forall>z. anc doms' x z \<longleftrightarrow> dominates E r z x)"
  using assms
proof (induction "card N * Suc (nat (po r)) - weight N po doms" arbitrary: doms rule: less_induct)
  case less
  have "- 1 \<le> po r - 1" using po_nonneg [OF root] by simp
  then obtain doms' ch where p: "dom_pass new_idom (map Some order) (doms, False) = Some (doms', ch)" and ok: "pass_ok order doms False doms' ch"
    using pass_spec [OF order_po _ less.prems, of False] order_set by blast
  have inv: "inv (- 1) doms'" using ok by (simp add: pass_ok_def)
  show ?case
  proof (cases ch)
    case True
    have "weight N po doms' \<le> card N * Suc (nat (po r))" using weight_bound [OF invD(1) [OF inv]] .
    then have "\<exists>doms2. dom_loop new_idom (map Some order) doms' = Some doms2 \<and> inv (- 1) doms2 \<and>
        (\<forall>x\<in>N. \<forall>z. anc doms2 x z \<longleftrightarrow> dominates E r z x)"
      using ok True by (intro less.hyps inv_next [OF inv]) (auto simp: pass_ok_def)
    then show ?thesis using p True by (simp add: dom_loop.simps [of _ _ doms])
  next
    case False
    then have "\<exists>t. doms' b = Some t \<and> meets doms' b t" if "b \<in> N" "b \<noteq> r" for b
      using ok that order_set by (auto simp: pass_ok_def)
    then have "\<forall>x\<in>N. \<forall>z. anc doms' x z \<longleftrightarrow> dominates E r z x"
      using stable_dominators [OF inv] by blast
    then show ?thesis using p False inv by (simp add: dom_loop.simps [of _ _ doms])
  qed
qed

lemma dom_loop_ends: "\<exists>doms. dom_loop new_idom (map Some order) (Map.empty(r \<mapsto> r)) = Some doms \<and> tree doms \<and>
    (\<forall>x. doms x \<noteq> None \<longleftrightarrow> x \<in> N) \<and> (\<forall>x\<in>N. \<forall>z. anc doms x z \<longleftrightarrow> dominates E r z x)"
proof -
  obtain doms where d: "dom_loop new_idom (map Some order) (Map.empty(r \<mapsto> r)) = Some doms" and inv: "inv (- 1) doms"
    and a: "\<forall>x\<in>N. \<forall>z. anc doms x z \<longleftrightarrow> dominates E r z x"
    using dom_loop_dominators [OF inv_start] by blast
  have "doms x \<noteq> None \<longleftrightarrow> x \<in> N" for x
  proof
    assume "x \<in> N"
    then show "doms x \<noteq> None" using invD(2) [OF inv] po_nonneg [of x] by simp
  next
    assume "doms x \<noteq> None"
    then show "x \<in> N" using treeD(2) [OF invD(1) [OF inv]] by blast
  qed
  then show ?thesis using d a invD(1) [OF inv] by blast
qed

end

end
