(* ===== verification/MeCfg.thy ===== *)
theory MeCfg
  imports Prelude "HOL-Library.Monad_Syntax"
begin

text \<open>
  Basic blocks and the control-flow graph of the optimiser (\<^verbatim>\<open>maple_me/include/bb.h\<close>,
  \<^verbatim>\<open>src/bb.cpp\<close>, \<^verbatim>\<open>src/me_cfg.cpp\<close>): the edge operations and the two analyses that clean the
  graph up after it is built. A pointer to a block is the block's id; \<open>blocks\<close> holds every
  block that was ever made, since a block that \<^verbatim>\<open>bbVec\<close> no longer holds stays in memory, and
  \<open>valid\<close> says which entries of \<^verbatim>\<open>bbVec\<close> are not null. Of a statement only its opcode is
  kept. The graph is as it is before SSA form, without phi lists and edge frequencies.
  \<open>None\<close> as a result is a failed \<^verbatim>\<open>CHECK_FATAL\<close> or a loop that does not end.
\<close>

section \<open>Blocks\<close>

type_synonym BBId = nat

datatype BBKind = kBBUnknown | kBBCondGoto | kBBGoto | kBBFallthru | kBBReturn | kBBAfterGosub | kBBSwitch | kBBIgoto | kBBInvalid

definition bit_field :: "nat \<Rightarrow> uint32" where
  "bit_field pos = push_bit pos 1"

definition kBBAttrIsEntry :: uint32 where "kBBAttrIsEntry = bit_field 1"
definition kBBAttrIsExit :: uint32 where "kBBAttrIsExit = bit_field 2"
definition kBBAttrWontExit :: uint32 where "kBBAttrWontExit = bit_field 3"
definition kBBAttrIsTry :: uint32 where "kBBAttrIsTry = bit_field 4"
definition kBBAttrIsTryEnd :: uint32 where "kBBAttrIsTryEnd = bit_field 5"
definition kBBAttrArtificial :: uint32 where "kBBAttrArtificial = bit_field 10"

definition opTry :: nat where "opTry = 67"

record MeBB =
  attributes :: uint32
  kind :: BBKind
  stmtNodeList :: "nat list"
  succ :: "BBId list"
  pred :: "BBId list"

definition new_MeBB :: MeBB where
  "new_MeBB = \<lparr>attributes = 0, kind = kBBUnknown, stmtNodeList = [], succ = [], pred = []\<rparr>"

definition GetAttributes :: "MeBB \<Rightarrow> uint32 \<Rightarrow> bool" where
  "GetAttributes bb attrKind \<longleftrightarrow> and (attributes bb) attrKind \<noteq> 0"

definition SetAttributes :: "uint32 \<Rightarrow> MeBB \<Rightarrow> MeBB" where
  "SetAttributes attrKind bb = bb\<lparr>attributes := or (attributes bb) attrKind\<rparr>"

definition SetKindReturn :: "MeBB \<Rightarrow> MeBB" where
  "SetKindReturn bb = SetAttributes kBBAttrIsExit (bb\<lparr>kind := kBBReturn\<rparr>)"

section \<open>The graph\<close>

record MeCFG =
  blocks :: "MeBB list"
  valid :: "bool list"
  endTryBB2TryBB :: "BBId \<Rightarrow> BBId option"

definition commonEntry :: BBId where "commonEntry = 0"
definition commonExit :: BBId where "commonExit = 1"

definition block :: "MeCFG \<Rightarrow> BBId \<Rightarrow> MeBB" where
  "block cfg b = blocks cfg ! b"

definition update :: "BBId \<Rightarrow> (MeBB \<Rightarrow> MeBB) \<Rightarrow> MeCFG \<Rightarrow> MeCFG" where
  "update b f cfg = cfg\<lparr>blocks := (blocks cfg)[b := f (blocks cfg ! b)]\<rparr>"

text \<open>The vector that the analyses behind this phase get.\<close>

definition GetAllBBs :: "MeCFG \<Rightarrow> MeBB option list" where
  "GetAllBBs cfg = map2 (\<lambda>bb ok. if ok then Some bb else None) (blocks cfg) (valid cfg)"

section \<open>Edges\<close>

text \<open>\<^verbatim>\<open>RemoveBBFromVector\<close> erases the first occurrence.\<close>

fun RemoveBBFromVector :: "BBId \<Rightarrow> BBId list \<Rightarrow> BBId list" where
  "RemoveBBFromVector b [] = []"
| "RemoveBBFromVector b (x # xs) = (if x = b then xs else x # RemoveBBFromVector b xs)"

definition RemoveBBFromPred :: "BBId \<Rightarrow> MeBB \<Rightarrow> MeBB" where
  "RemoveBBFromPred b bb = bb\<lparr>pred := RemoveBBFromVector b (pred bb)\<rparr>"

definition RemoveBBFromSucc :: "BBId \<Rightarrow> MeBB \<Rightarrow> MeBB" where
  "RemoveBBFromSucc b bb = bb\<lparr>succ := RemoveBBFromVector b (succ bb)\<rparr>"

definition AddExit :: "BBId \<Rightarrow> MeBB \<Rightarrow> MeBB" where
  "AddExit b bb = bb\<lparr>pred := pred bb @ [b]\<rparr>"

definition RemoveExit :: "BBId \<Rightarrow> MeBB \<Rightarrow> MeBB" where
  "RemoveExit b bb = bb\<lparr>pred := RemoveBBFromVector b (pred bb)\<rparr>"

definition AddSucc :: "BBId \<Rightarrow> BBId \<Rightarrow> MeCFG \<Rightarrow> MeCFG" where
  "AddSucc b succBB cfg =
     update succBB (\<lambda>bb. bb\<lparr>pred := pred bb @ [b]\<rparr>) (update b (\<lambda>bb. bb\<lparr>succ := succ bb @ [succBB]\<rparr>) cfg)"

definition RemovePred :: "BBId \<Rightarrow> BBId \<Rightarrow> MeCFG \<Rightarrow> MeCFG" where
  "RemovePred b predBB cfg = update predBB (RemoveBBFromSucc b) (update b (RemoveBBFromPred predBB) cfg)"

definition RemoveSucc :: "BBId \<Rightarrow> BBId \<Rightarrow> MeCFG \<Rightarrow> MeCFG" where
  "RemoveSucc b succBB cfg = update b (RemoveBBFromSucc succBB) (update succBB (RemoveBBFromPred b) cfg)"

partial_function (option) RemoveAllPred :: "BBId \<Rightarrow> MeCFG \<Rightarrow> MeCFG option" where
  "RemoveAllPred b cfg =
     (if pred (block cfg b) = [] then Some cfg else RemoveAllPred b (RemovePred b (last (pred (block cfg b))) cfg))"

partial_function (option) RemoveAllSucc :: "BBId \<Rightarrow> MeCFG \<Rightarrow> MeCFG option" where
  "RemoveAllSucc b cfg =
     (if succ (block cfg b) = [] then Some cfg else RemoveAllSucc b (RemoveSucc b (last (succ (block cfg b))) cfg))"

text \<open>The first occurrence of \<open>old\<close> in a list becomes \<open>new\<close>.\<close>

fun replace_first :: "BBId \<Rightarrow> BBId \<Rightarrow> BBId list \<Rightarrow> BBId list" where
  "replace_first old new [] = []"
| "replace_first old new (x # xs) = (if x = old then new # xs else x # replace_first old new xs)"

definition ReplaceSucc :: "BBId \<Rightarrow> BBId \<Rightarrow> BBId \<Rightarrow> MeCFG \<Rightarrow> MeCFG" where
  "ReplaceSucc b old newSucc cfg =
     (if old \<in> set (succ (block cfg b))
      then update b (\<lambda>bb. bb\<lparr>succ := replace_first old newSucc (succ bb)\<rparr>)
             (update newSucc (\<lambda>bb. bb\<lparr>pred := pred bb @ [b]\<rparr>) (update old (RemoveBBFromPred b) cfg))
      else cfg)"

section \<open>Reachable blocks\<close>

text \<open>\<^verbatim>\<open>FindReachableBBs\<close> and \<^verbatim>\<open>FindWillExitBBs\<close> over a list of blocks.\<close>

partial_function (option) find_blocks :: "(BBId \<Rightarrow> BBId list) \<Rightarrow> BBId list \<Rightarrow> bool list \<Rightarrow> bool list option" where
  "find_blocks next bs visitedBBs =
     (case bs of
        [] \<Rightarrow> Some visitedBBs
      | b # bs' \<Rightarrow>
          if length visitedBBs \<le> b then None
          else if visitedBBs ! b then find_blocks next bs' visitedBBs
          else Option.bind (find_blocks next (next b) (visitedBBs[b := True])) (find_blocks next bs'))"

definition FindReachableBBs :: "MeCFG \<Rightarrow> BBId \<Rightarrow> bool list \<Rightarrow> bool list option" where
  "FindReachableBBs cfg b = find_blocks (\<lambda>b. succ (block cfg b)) [b]"

definition FindWillExitBBs :: "MeCFG \<Rightarrow> BBId \<Rightarrow> bool list \<Rightarrow> bool list option" where
  "FindWillExitBBs cfg b = find_blocks (\<lambda>b. pred (block cfg b)) [b]"

section \<open>Unreachable blocks\<close>

definition IsStartTryBB :: "MeBB \<Rightarrow> bool" where
  "IsStartTryBB bb \<longleftrightarrow> GetAttributes bb kBBAttrIsTry \<and> \<not> GetAttributes bb kBBAttrIsTryEnd \<and>
     stmtNodeList bb \<noteq> [] \<and> hd (stmtNodeList bb) = opTry"

text \<open>The loop of \<^verbatim>\<open>FixTryBB\<close> over the predecessors, which it shortens while it counts up.\<close>

partial_function (option) redirect_preds :: "BBId \<Rightarrow> BBId \<Rightarrow> nat \<Rightarrow> MeCFG \<Rightarrow> MeCFG option" where
  "redirect_preds startBB nextBB i cfg =
     (if i < length (pred (block cfg nextBB))
      then redirect_preds startBB nextBB (Suc i) (ReplaceSucc (pred (block cfg nextBB) ! i) nextBB startBB cfg)
      else Some cfg)"

definition FixTryBB :: "BBId \<Rightarrow> BBId \<Rightarrow> MeCFG \<Rightarrow> MeCFG option" where
  "FixTryBB startBB nextBB cfg = do {
     cfg \<leftarrow> RemoveAllPred startBB cfg;
     cfg \<leftarrow> redirect_preds startBB nextBB 0 cfg;
     cfg \<leftarrow> RemoveAllSucc startBB cfg;
     Some (AddSucc startBB nextBB cfg) }"

text \<open>The block behind an unreachable start of a try that the start is moved to.\<close>

fun find_try_successor :: "MeCFG \<Rightarrow> bool list \<Rightarrow> nat list \<Rightarrow> BBId option" where
  "find_try_successor cfg visitedBBs [] = None"
| "find_try_successor cfg visitedBBs (nextIdx # is) =
     (if \<not> valid cfg ! nextIdx then find_try_successor cfg visitedBBs is
      else if \<not> visitedBBs ! nextIdx \<and> GetAttributes (block cfg nextIdx) kBBAttrIsTryEnd then None
      else if visitedBBs ! nextIdx then Some nextIdx
      else find_try_successor cfg visitedBBs is)"

text \<open>The mark of the end of a try moves to the block in front.\<close>

fun find_previous :: "bool list \<Rightarrow> nat list \<Rightarrow> BBId option" where
  "find_previous ok [] = None"
| "find_previous ok (i # is) = (if ok ! i then Some i else find_previous ok is)"

definition move_try_end :: "BBId \<Rightarrow> MeCFG \<Rightarrow> MeCFG" where
  "move_try_end bb cfg =
     (case find_previous (valid cfg) (rev [0..<bb]) of
        None \<Rightarrow> cfg
      | Some it \<Rightarrow>
          if GetAttributes (block cfg it) kBBAttrIsTry \<and> \<not> GetAttributes (block cfg it) kBBAttrIsTryEnd
          then (update it (SetAttributes kBBAttrIsTryEnd) cfg)\<lparr>endTryBB2TryBB := (endTryBB2TryBB cfg)(it := endTryBB2TryBB cfg bb)\<rparr>
          else cfg)"

text \<open>The loop that takes the block out of the lists of its successors, the first of which it removes each time.\<close>

fun remove_from_succs :: "BBId \<Rightarrow> BBId list \<Rightarrow> MeCFG \<Rightarrow> MeCFG" where
  "remove_from_succs bb [] cfg = cfg"
| "remove_from_succs bb (sucBB # ss) cfg = remove_from_succs bb ss (RemovePred sucBB bb cfg)"

definition delete_unreached :: "BBId \<Rightarrow> MeCFG \<Rightarrow> MeCFG" where
  "delete_unreached bb cfg =
     (let cfg = (if GetAttributes (block cfg bb) kBBAttrIsTryEnd then move_try_end bb cfg else cfg);
          cfg = cfg\<lparr>valid := (valid cfg)[bb := False]\<rparr>;
          cfg = remove_from_succs bb (succ (block cfg bb)) cfg
      in if bb \<in> set (pred (block cfg commonExit)) then update commonExit (RemoveExit bb) cfg else cfg)"

definition unreach_step :: "nat \<Rightarrow> MeCFG \<times> bool list \<times> bool \<Rightarrow> (MeCFG \<times> bool list \<times> bool) option" where
  "unreach_step idx st =
     (let (cfg, visitedBBs, cfgChanged) = st in
      if \<not> valid cfg ! idx \<or> idx = commonExit \<or> GetAttributes (block cfg idx) kBBAttrIsEntry \<or> visitedBBs ! idx then Some st
      else case (if IsStartTryBB (block cfg idx) then find_try_successor cfg visitedBBs [Suc idx..<length (valid cfg)] else None) of
          Some nextBB \<Rightarrow> map_option (\<lambda>cfg. (cfg, visitedBBs[idx := True], True)) (FixTryBB idx nextBB cfg)
        | None \<Rightarrow> Some (delete_unreached idx cfg, visitedBBs, True))"

fun unreach_loop :: "nat list \<Rightarrow> MeCFG \<times> bool list \<times> bool \<Rightarrow> (MeCFG \<times> bool list \<times> bool) option" where
  "unreach_loop [] st = Some st"
| "unreach_loop (idx # is) st = Option.bind (unreach_step idx st) (unreach_loop is)"

definition UnreachCodeAnalysis :: "MeCFG \<Rightarrow> (MeCFG \<times> bool) option" where
  "UnreachCodeAnalysis cfg =
     Option.bind (FindReachableBBs cfg commonEntry (replicate (length (valid cfg)) False))
       (\<lambda>visitedBBs. map_option (\<lambda>(cfg, visitedBBs, cfgChanged). (cfg, cfgChanged))
          (unreach_loop [0..<length (valid cfg)] (cfg, visitedBBs, False)))"

section \<open>Blocks that do not reach an exit\<close>

definition NewBasicBlock :: "MeCFG \<Rightarrow> BBId \<times> MeCFG" where
  "NewBasicBlock cfg = (length (blocks cfg), cfg\<lparr>blocks := blocks cfg @ [new_MeBB], valid := valid cfg @ [True]\<rparr>)"

definition wont_exit_block :: "BBId \<Rightarrow> MeCFG \<Rightarrow> MeCFG" where
  "wont_exit_block idx cfg =
     (let cfg = update idx (SetAttributes kBBAttrWontExit) cfg in
      if kind (block cfg idx) = kBBGoto
      then let (newBB, cfg) = NewBasicBlock cfg;
               cfg = update newBB SetKindReturn cfg;
               cfg = update newBB (SetAttributes kBBAttrArtificial) cfg;
               cfg = AddSucc idx newBB cfg
           in update commonExit (AddExit newBB) cfg
      else cfg)"

text \<open>
  The loop runs on to the blocks that it makes, whose ids are outside of \<^verbatim>\<open>visitedBBs\<close>; what
  the read beyond its end gives is the parameter \<open>beyond\<close>.
\<close>

partial_function (option) wont_exit_loop :: "(nat \<Rightarrow> bool) \<Rightarrow> bool list \<Rightarrow> nat \<Rightarrow> MeCFG \<Rightarrow> MeCFG option" where
  "wont_exit_loop beyond visitedBBs idx cfg =
     (if length (valid cfg) \<le> idx then Some cfg
      else if \<not> valid cfg ! idx \<or> idx = commonEntry \<or> (if idx < length visitedBBs then visitedBBs ! idx else beyond idx)
      then wont_exit_loop beyond visitedBBs (Suc idx) cfg
      else wont_exit_loop beyond visitedBBs (Suc idx) (wont_exit_block idx cfg))"

definition WontExitAnalysis :: "(nat \<Rightarrow> bool) \<Rightarrow> MeCFG \<Rightarrow> MeCFG option" where
  "WontExitAnalysis beyond cfg =
     (if length (valid cfg) = 0 then Some cfg
      else Option.bind (FindWillExitBBs cfg commonExit (replicate (length (valid cfg)) False))
             (\<lambda>visitedBBs. wont_exit_loop beyond visitedBBs 0 cfg))"

end
