(* ===== verification/MeDominance.thy ===== *)
theory MeDominance
  imports DomLoop MeCfg
begin

text \<open>
  The class \<^verbatim>\<open>Dominance\<close> of the optimiser (\<^verbatim>\<open>maple_me/src/dominance.cpp\<close>): post-order
  numbers, immediate dominators, dominance frontiers and the dominator tree, and the same
  on the reversed graph. A pointer to a block is the block's id, its index in
  \<^verbatim>\<open>bbVec\<close>; \<open>None\<close> as a pointer is null, and \<open>None\<close> as a result is a null pointer or a
  missing block that the code dereferences. A \<^verbatim>\<open>MapleSet\<close> of ids is a sorted list.
\<close>

section \<open>The state of the analysis\<close>

record Dominance =
  bbVec :: "MeBB option list"
  commonEntryBB :: BBId
  commonExitBB :: BBId
  postOrderIDVec :: "int list"
  reversePostOrder :: "BBId option list"
  doms :: "BBId \<Rightarrow> BBId option"
  pdomPostOrderIDVec :: "int list"
  pdomReversePostOrder :: "BBId option list"
  pdoms :: "BBId \<Rightarrow> BBId option"
  domFrontier :: "BBId list list"
  domChildren :: "BBId list list"
  iterDomFrontier :: "BBId list list"
  dtPreOrder :: "BBId list"
  dtDfn :: "uint32 list"
  pdomFrontier :: "BBId list list"
  pdomChildren :: "BBId list list"
  iterPdomFrontier :: "BBId list list"
  pdtPreOrder :: "BBId list"
  pdtDfn :: "uint32 list"

definition new_Dominance :: "MeBB option list \<Rightarrow> BBId \<Rightarrow> BBId \<Rightarrow> Dominance" where
  "new_Dominance v entry exit =
     (let n = length v in
      \<lparr>bbVec = v, commonEntryBB = entry, commonExitBB = exit, postOrderIDVec = replicate n (- 1), reversePostOrder = [],
       doms = Map.empty, pdomPostOrderIDVec = replicate n (- 1), pdomReversePostOrder = [], pdoms = Map.empty,
       domFrontier = replicate n [], domChildren = replicate n [], iterDomFrontier = replicate n [],
       dtPreOrder = replicate n 0, dtDfn = replicate n (- 1), pdomFrontier = replicate n [], pdomChildren = replicate n [],
       iterPdomFrontier = replicate n [], pdtPreOrder = replicate n 0, pdtDfn = replicate n (- 1)\<rparr>)"

definition bb_at :: "MeBB option list \<Rightarrow> BBId \<Rightarrow> MeBB option" where
  "bb_at v b = (if b < length v then v ! b else None)"

section \<open>Post-order numbers\<close>

text \<open>
  The walk over a list of successors, with the next number, the visited marks and the
  numbers given so far. \<open>skip\<close> is the test for null blocks that only the walk against the
  edges has, \<open>next\<close> the list of blocks to go on with.
\<close>

partial_function (option) walk ::
  "(BBId \<Rightarrow> bool) \<Rightarrow> (BBId \<Rightarrow> BBId list option) \<Rightarrow> BBId list \<Rightarrow> int \<times> bool list \<times> int list \<Rightarrow> (int \<times> bool list \<times> int list) option" where
  "walk skip next bs st =
     (case bs of
        [] \<Rightarrow> Some st
      | b # bs' \<Rightarrow>
          (case st of (pid, visitedMap, ids) \<Rightarrow>
             if skip b then walk skip next bs' st
             else if length visitedMap \<le> b then None
             else if visitedMap ! b then walk skip next bs' st
             else (case next b of
                     None \<Rightarrow> None
                   | Some ss \<Rightarrow>
                       Option.bind (walk skip next ss (pid, visitedMap[b := True], ids))
                         (\<lambda>(pid, visitedMap, ids). walk skip next bs' (pid + 1, visitedMap, ids[b := pid])))))"

definition PostOrderWalk :: "MeBB option list \<Rightarrow> BBId \<Rightarrow> int \<times> bool list \<times> int list \<Rightarrow> (int \<times> bool list \<times> int list) option" where
  "PostOrderWalk v b = walk (\<lambda>b. False) (\<lambda>b. map_option succ (bb_at v b)) [b]"

definition PdomPostOrderWalk :: "MeBB option list \<Rightarrow> BBId \<Rightarrow> int \<times> bool list \<times> int list \<Rightarrow> (int \<times> bool list \<times> int list) option" where
  "PdomPostOrderWalk v b = walk (\<lambda>b. bb_at v b = None) (\<lambda>b. map_option pred (bb_at v b)) [b]"

text \<open>The blocks in decreasing order of their numbers.\<close>

definition reverse_order :: "MeBB option list \<Rightarrow> int \<Rightarrow> int list \<Rightarrow> BBId option list" where
  "reverse_order v postOrderID ids =
     (let maxPostOrderID = postOrderID - 1 in
      fold (\<lambda>i order. if ids ! i = - 1 then order
                      else order[nat (maxPostOrderID - ids ! i) := map_option (\<lambda>_. i) (v ! i)])
        [0..<length ids] (replicate (nat (maxPostOrderID + 1)) None))"

definition GenPostOrderID :: "Dominance \<Rightarrow> Dominance option" where
  "GenPostOrderID d =
     Option.bind (PostOrderWalk (bbVec d) (commonEntryBB d) (0, replicate (length (bbVec d)) False, postOrderIDVec d))
       (\<lambda>(postOrderID, visitedMap, ids).
          Some (d\<lparr>postOrderIDVec := ids, reversePostOrder := reverse_order (bbVec d) postOrderID ids\<rparr>))"

definition PdomGenPostOrderID :: "Dominance \<Rightarrow> Dominance option" where
  "PdomGenPostOrderID d =
     Option.bind (PdomPostOrderWalk (bbVec d) (commonExitBB d) (0, replicate (length (bbVec d)) False, pdomPostOrderIDVec d))
       (\<lambda>(postOrderID, visitedMap, ids).
          Some (d\<lparr>pdomPostOrderIDVec := ids, pdomReversePostOrder := reverse_order (bbVec d) postOrderID ids\<rparr>))"

section \<open>Immediate dominators\<close>

text \<open>The two inner loops and the outer loop of \<^verbatim>\<open>Intersect\<close> and \<^verbatim>\<open>PdomIntersect\<close>.\<close>

partial_function (option) climb :: "int list \<Rightarrow> (BBId \<Rightarrow> BBId option) \<Rightarrow> BBId \<Rightarrow> BBId \<Rightarrow> BBId option" where
  "climb ids dm b other =
     (if ids ! b < ids ! other then (case dm b of None \<Rightarrow> None | Some b' \<Rightarrow> climb ids dm b' other) else Some b)"

partial_function (option) Intersect :: "int list \<Rightarrow> (BBId \<Rightarrow> BBId option) \<Rightarrow> BBId \<Rightarrow> BBId \<Rightarrow> BBId option" where
  "Intersect ids dm b1 b2 =
     (if b1 = b2 then Some b1
      else Option.bind (climb ids dm b1 b2) (\<lambda>b1. Option.bind (climb ids dm b2 b1) (\<lambda>b2. Intersect ids dm b1 b2)))"

definition CommonEntryBBIsPred :: "Dominance \<Rightarrow> BBId \<Rightarrow> bool" where
  "CommonEntryBBIsPred d b = (case bb_at (bbVec d) (commonEntryBB d) of None \<Rightarrow> False | Some e \<Rightarrow> b \<in> set (succ e))"

text \<open>The loop that looks for the first processed neighbour, and the rest of the neighbours behind it.\<close>

fun first_processed :: "(BBId \<Rightarrow> BBId option) \<Rightarrow> BBId \<Rightarrow> BBId \<Rightarrow> BBId list \<Rightarrow> BBId \<times> BBId list" where
  "first_processed dm bb pre [] = (pre, [])"
| "first_processed dm bb pre (p # ps) =
     (if dm pre = None \<or> pre = bb then first_processed dm bb p ps else (pre, p # ps))"

fun meet_rest :: "int list \<Rightarrow> (BBId \<Rightarrow> BBId option) \<Rightarrow> BBId \<Rightarrow> BBId list \<Rightarrow> BBId \<Rightarrow> BBId option" where
  "meet_rest ids dm bb [] newIDom = Some newIDom"
| "meet_rest ids dm bb (p # ps) newIDom =
     (if dm p \<noteq> None \<and> p \<noteq> bb then Option.bind (Intersect ids dm p newIDom) (meet_rest ids dm bb ps)
      else meet_rest ids dm bb ps newIDom)"

definition dom_idom :: "Dominance \<Rightarrow> (BBId \<Rightarrow> BBId option) \<Rightarrow> BBId \<Rightarrow> BBId option" where
  "dom_idom d dm bb =
     (case bb_at (bbVec d) bb of
        None \<Rightarrow> None
      | Some x \<Rightarrow>
          let pre = (if CommonEntryBBIsPred d bb \<or> pred x = [] then commonEntryBB d else hd (pred x));
              (pre, rest) = first_processed dm bb pre (tl (pred x))
          in meet_rest (postOrderIDVec d) dm bb rest pre)"

definition ComputeDominance :: "Dominance \<Rightarrow> Dominance option" where
  "ComputeDominance d =
     map_option (\<lambda>dm. d\<lparr>doms := dm\<rparr>)
       (dom_loop (dom_idom d) (tl (reversePostOrder d)) ((doms d)(commonEntryBB d \<mapsto> commonEntryBB d)))"

definition pdom_idom :: "Dominance \<Rightarrow> (BBId \<Rightarrow> BBId option) \<Rightarrow> BBId \<Rightarrow> BBId option" where
  "pdom_idom d dm bb =
     (case bb_at (bbVec d) bb of
        None \<Rightarrow> None
      | Some x \<Rightarrow>
          let suc = (if GetAttributes x kBBAttrIsExit \<or> succ x = [] then commonExitBB d else hd (succ x));
              (suc, rest) = first_processed dm bb suc (tl (succ x));
              suc = (if dm suc = None then commonExitBB d else suc)
          in meet_rest (pdomPostOrderIDVec d) dm bb rest suc)"

definition ComputePostDominance :: "Dominance \<Rightarrow> Dominance option" where
  "ComputePostDominance d =
     map_option (\<lambda>dm. d\<lparr>pdoms := dm\<rparr>)
       (dom_loop (pdom_idom d) (tl (pdomReversePostOrder d)) ((pdoms d)(commonExitBB d \<mapsto> commonExitBB d)))"

section \<open>Dominance frontiers\<close>

text \<open>The walk of \<^verbatim>\<open>runner\<close>, which may become null.\<close>

partial_function (option) run_up ::
  "(BBId \<Rightarrow> BBId option) \<Rightarrow> BBId \<Rightarrow> BBId \<Rightarrow> BBId option \<Rightarrow> BBId list list \<Rightarrow> BBId list list option" where
  "run_up dm entry bb runner frontier =
     (if runner = dm bb \<or> runner = Some entry then Some frontier
      else case runner of
        None \<Rightarrow> None
      | Some x \<Rightarrow> run_up dm entry bb (dm x) (frontier[x := insort_insert bb (frontier ! x)]))"

definition kBBVectorInitialSize :: nat where "kBBVectorInitialSize = 2"

fun run_all :: "(BBId \<Rightarrow> BBId option) \<Rightarrow> BBId \<Rightarrow> BBId \<Rightarrow> BBId list \<Rightarrow> BBId list list \<Rightarrow> BBId list list option" where
  "run_all dm entry bb [] frontier = Some frontier"
| "run_all dm entry bb (p # ps) frontier =
     Option.bind (run_up dm entry bb (Some p) frontier) (run_all dm entry bb ps)"

text \<open>The loop over the blocks: \<open>other\<close> is the common block it leaves out, \<open>next\<close> the neighbours.\<close>

fun frontiers_from ::
  "(BBId \<Rightarrow> BBId option) \<Rightarrow> (MeBB \<Rightarrow> BBId list) \<Rightarrow> BBId \<Rightarrow> BBId \<Rightarrow> BBId \<Rightarrow> MeBB option list \<Rightarrow> BBId list list \<Rightarrow> BBId list list option" where
  "frontiers_from dm next entry other i [] frontier = Some frontier"
| "frontiers_from dm next entry other i (None # v) frontier = frontiers_from dm next entry other (Suc i) v frontier"
| "frontiers_from dm next entry other i (Some bb # v) frontier =
     (if i = other \<or> length (next bb) < kBBVectorInitialSize then frontiers_from dm next entry other (Suc i) v frontier
      else Option.bind (run_all dm entry i (next bb) frontier) (frontiers_from dm next entry other (Suc i) v))"

definition ComputeDomFrontiers :: "Dominance \<Rightarrow> Dominance option" where
  "ComputeDomFrontiers d =
     map_option (\<lambda>fr. d\<lparr>domFrontier := fr\<rparr>)
       (frontiers_from (doms d) pred (commonEntryBB d) (commonExitBB d) 0 (bbVec d) (domFrontier d))"

definition ComputePdomFrontiers :: "Dominance \<Rightarrow> Dominance option" where
  "ComputePdomFrontiers d =
     map_option (\<lambda>fr. d\<lparr>pdomFrontier := fr\<rparr>)
       (frontiers_from (pdoms d) succ (commonEntryBB d) (commonEntryBB d) 0 (bbVec d) (pdomFrontier d))"

section \<open>The trees\<close>

definition children :: "MeBB option list \<Rightarrow> (BBId \<Rightarrow> BBId option) \<Rightarrow> BBId list list \<Rightarrow> BBId list list" where
  "children v dm ch =
     fold (\<lambda>i ch. case v ! i of
          None \<Rightarrow> ch
        | Some bb \<Rightarrow> (case dm i of
              None \<Rightarrow> ch
            | Some parent \<Rightarrow> if parent = i then ch else ch[parent := insort_insert i (ch ! parent)]))
       [0..<length v] ch"

definition ComputeDomChildren :: "Dominance \<Rightarrow> Dominance" where
  "ComputeDomChildren d = d\<lparr>domChildren := children (bbVec d) (doms d) (domChildren d)\<rparr>"

definition ComputePdomChildren :: "Dominance \<Rightarrow> Dominance" where
  "ComputePdomChildren d = d\<lparr>pdomChildren := children (bbVec d) (pdoms d) (pdomChildren d)\<rparr>"

text \<open>The preorder of the tree: \<^verbatim>\<open>CHECK_FATAL\<close> stops when the vector is full.\<close>

partial_function (option) preorder :: "BBId list list \<Rightarrow> BBId list \<Rightarrow> BBId list \<times> nat \<Rightarrow> (BBId list \<times> nat) option" where
  "preorder ch bs st =
     (case bs of
        [] \<Rightarrow> Some st
      | b # bs' \<Rightarrow>
          (case st of (order, num) \<Rightarrow>
             if length order \<le> num then None
             else Option.bind (preorder ch (ch ! b) (order[num := b], num + 1)) (preorder ch bs')))"

definition ComputeDtPreorder :: "Dominance \<Rightarrow> BBId \<Rightarrow> nat \<Rightarrow> (Dominance \<times> nat) option" where
  "ComputeDtPreorder d bb num =
     map_option (\<lambda>(order, num). (d\<lparr>dtPreOrder := order\<rparr>, num)) (preorder (domChildren d) [bb] (dtPreOrder d, num))"

definition ComputePdtPreorder :: "Dominance \<Rightarrow> BBId \<Rightarrow> nat \<Rightarrow> (Dominance \<times> nat) option" where
  "ComputePdtPreorder d bb num =
     map_option (\<lambda>(order, num). (d\<lparr>pdtPreOrder := order\<rparr>, num)) (preorder (pdomChildren d) [bb] (pdtPreOrder d, num))"

definition dfn_of :: "BBId list \<Rightarrow> uint32 list \<Rightarrow> uint32 list" where
  "dfn_of order dfn = fold (\<lambda>i dfn. dfn[order ! i := word_of_nat i]) [0..<length order] dfn"

definition ComputeDtDfn :: "Dominance \<Rightarrow> Dominance" where
  "ComputeDtDfn d = d\<lparr>dtDfn := dfn_of (dtPreOrder d) (dtDfn d)\<rparr>"

definition ComputePdtDfn :: "Dominance \<Rightarrow> Dominance" where
  "ComputePdtDfn d = d\<lparr>pdtDfn := dfn_of (pdtPreOrder d) (pdtDfn d)\<rparr>"

section \<open>Iterated frontiers\<close>

text \<open>
  \<^verbatim>\<open>GetIterDomFrontier\<close> on the blocks of a frontier: for ids below \<open>bbidMarker\<close> the
  result is known, the others are walked once.
\<close>

partial_function (option) iter_walk ::
  "MeBB option list \<Rightarrow> BBId list list \<Rightarrow> BBId list list \<Rightarrow> BBId \<Rightarrow> BBId list \<Rightarrow> BBId list \<times> bool list \<Rightarrow> (BBId list \<times> bool list) option" where
  "iter_walk v frontier iter bbidMarker fs st =
     (case fs of
        [] \<Rightarrow> Some st
      | f # fs' \<Rightarrow>
          (case st of (dfset, visitedMap) \<Rightarrow>
             let dfset = insort_insert f dfset in
             if f < bbidMarker
             then iter_walk v frontier iter bbidMarker fs' (fold insort_insert (iter ! f) dfset, visitedMap)
             else if bb_at v f = None then None
             else if visitedMap ! f then iter_walk v frontier iter bbidMarker fs' (dfset, visitedMap)
             else Option.bind (iter_walk v frontier iter bbidMarker (frontier ! f) (dfset, visitedMap[f := True]))
                    (iter_walk v frontier iter bbidMarker fs')))"

definition GetIterDomFrontier ::
  "MeBB option list \<Rightarrow> BBId list list \<Rightarrow> BBId list list \<Rightarrow> BBId \<Rightarrow> BBId list \<Rightarrow> BBId \<Rightarrow> bool list \<Rightarrow> (BBId list \<times> bool list) option" where
  "GetIterDomFrontier v frontier iter bb dfset bbidMarker visitedMap =
     (if visitedMap ! bb then Some (dfset, visitedMap)
      else iter_walk v frontier iter bbidMarker (frontier ! bb) (dfset, visitedMap[bb := True]))"

fun iter_frontiers_from :: "MeBB option list \<Rightarrow> BBId list list \<Rightarrow> BBId \<Rightarrow> BBId list \<Rightarrow> BBId list list \<Rightarrow> BBId list list option" where
  "iter_frontiers_from v frontier other [] iter = Some iter"
| "iter_frontiers_from v frontier other (i # is) iter =
     (if v ! i = None \<or> i = other then iter_frontiers_from v frontier other is iter
      else Option.bind (GetIterDomFrontier v frontier iter i (iter ! i) i (replicate (length v) False))
             (\<lambda>(dfset, visitedMap). iter_frontiers_from v frontier other is (iter[i := dfset])))"

definition ComputeIterDomFrontiers :: "Dominance \<Rightarrow> Dominance option" where
  "ComputeIterDomFrontiers d =
     map_option (\<lambda>it. d\<lparr>iterDomFrontier := it\<rparr>)
       (iter_frontiers_from (bbVec d) (domFrontier d) (commonExitBB d) [0..<length (bbVec d)] (iterDomFrontier d))"

definition ComputeIterPdomFrontiers :: "Dominance \<Rightarrow> Dominance option" where
  "ComputeIterPdomFrontiers d =
     map_option (\<lambda>it. d\<lparr>iterPdomFrontier := it\<rparr>)
       (iter_frontiers_from (bbVec d) (pdomFrontier d) (commonEntryBB d) [0..<length (bbVec d)] (iterPdomFrontier d))"

section \<open>Queries\<close>

text \<open>The loop of \<^verbatim>\<open>Dominate\<close> and \<^verbatim>\<open>PostDominate\<close>; a null \<^verbatim>\<open>immediateDom\<close> ends it in the next round.\<close>

partial_function (option) find_up :: "(BBId \<Rightarrow> BBId option) \<Rightarrow> BBId \<Rightarrow> BBId \<Rightarrow> BBId \<Rightarrow> bool option" where
  "find_up dm common bb1 immediateDom =
     (if dm immediateDom = Some bb1 then Some True
      else if dm immediateDom = Some common \<or> dm immediateDom = None then Some False
      else find_up dm common bb1 (the (dm immediateDom)))"

definition Dominate :: "Dominance \<Rightarrow> BBId \<Rightarrow> BBId \<Rightarrow> bool option" where
  "Dominate d bb1 bb2 =
     (if bb1 = bb2 then Some True else if doms d bb2 = None then Some False
      else find_up (doms d) (commonEntryBB d) bb1 bb2)"

definition PostDominate :: "Dominance \<Rightarrow> BBId \<Rightarrow> BBId \<Rightarrow> bool option" where
  "PostDominate d bb1 bb2 =
     (if bb1 = bb2 then Some True else if pdoms d bb2 = None then Some False
      else find_up (pdoms d) (commonExitBB d) bb1 bb2)"

section \<open>The phase\<close>

definition run_dominance :: "Dominance \<Rightarrow> Dominance option" where
  "run_dominance d = do {
     d \<leftarrow> GenPostOrderID d;
     d \<leftarrow> ComputeDominance d;
     d \<leftarrow> ComputeDomFrontiers d;
     d \<leftarrow> Some (ComputeDomChildren d);
     d \<leftarrow> ComputeIterDomFrontiers d;
     (d, num) \<leftarrow> ComputeDtPreorder d (commonEntryBB d) 0;
     Some (ComputeDtDfn (d\<lparr>dtPreOrder := take num (dtPreOrder d)\<rparr>)) }"

definition run_postdominance :: "Dominance \<Rightarrow> Dominance option" where
  "run_postdominance d = do {
     d \<leftarrow> PdomGenPostOrderID d;
     d \<leftarrow> ComputePostDominance d;
     d \<leftarrow> ComputePdomFrontiers d;
     d \<leftarrow> Some (ComputePdomChildren d);
     d \<leftarrow> ComputeIterPdomFrontiers d;
     (d, num) \<leftarrow> ComputePdtPreorder d (commonExitBB d) 0;
     Some (ComputePdtDfn (d\<lparr>pdtPreOrder := take num (pdtPreOrder d)\<rparr>)) }"

definition MeDoDominance :: "MeBB option list \<Rightarrow> BBId \<Rightarrow> BBId \<Rightarrow> Dominance option" where
  "MeDoDominance v entry exit = do { d \<leftarrow> run_dominance (new_Dominance v entry exit); run_postdominance d }"

end
