(* ===== verification/DomOrder.thy ===== *)
theory DomOrder
  imports MeDominance
begin

text \<open>
  The post-order walk of \<^verbatim>\<open>GenPostOrderID\<close> and \<^verbatim>\<open>PdomGenPostOrderID\<close>: it ends, numbers
  exactly the reachable blocks, and gives every block but the root a smaller number than
  one of its predecessors.
\<close>

section \<open>The walk\<close>

definition marked :: "bool list \<Rightarrow> nat set" where
  "marked v = {b. b < length v \<and> v ! b}"

definition edge :: "(nat \<Rightarrow> nat list option) \<Rightarrow> nat \<Rightarrow> nat \<Rightarrow> bool" where
  "edge next a b \<longleftrightarrow> (\<exists>ss. next a = Some ss \<and> b \<in> set ss)"

text \<open>
  What a walk over \<open>bs\<close> that finishes the blocks \<open>new\<close> has done: it numbers them in a row
  from \<open>pid\<close>, leaves no successor of them unmarked, and reaches each from \<open>bs\<close>, the
  blocks that are not in \<open>bs\<close> before one of their predecessors.
\<close>

definition walked :: "(nat \<Rightarrow> nat list option) \<Rightarrow> nat list \<Rightarrow> nat set \<Rightarrow> int \<times> bool list \<times> int list \<Rightarrow> int \<times> bool list \<times> int list \<Rightarrow> bool" where
  "walked next bs new st st' \<longleftrightarrow>
     (case (st, st') of ((pid, v, ids), (pid', v', ids')) \<Rightarrow>
        length v' = length v \<and> length ids' = length ids \<and> finite new \<and>
        marked v' = marked v \<union> new \<and> marked v \<inter> new = {} \<and>
        pid' = pid + int (card new) \<and> (\<lambda>b. ids' ! b) ` new = {pid..<pid'} \<and> (\<forall>b. b \<notin> new \<longrightarrow> ids' ! b = ids ! b) \<and>
        set bs \<subseteq> marked v' \<and> (\<forall>b\<in>new. next b \<noteq> None \<and> (\<forall>s. edge next b s \<longrightarrow> s \<in> marked v')) \<and>
        (\<forall>b\<in>new. b \<in> set bs \<or> (\<exists>p\<in>new. edge next p b \<and> ids' ! b < ids' ! p)) \<and>
        (\<forall>b\<in>new. \<exists>a\<in>set bs. (edge next)\<^sup>*\<^sup>* a b))"

lemma walkedD:
  assumes "walked next bs new (pid, v, ids) (pid', v', ids')"
  shows "length v' = length v" "length ids' = length ids" "finite new"
    "marked v' = marked v \<union> new" "marked v \<inter> new = {}"
    "pid' = pid + int (card new)" "(\<lambda>b. ids' ! b) ` new = {pid..<pid'}" "\<And>b. b \<notin> new \<Longrightarrow> ids' ! b = ids ! b"
    "set bs \<subseteq> marked v'" "\<And>b. b \<in> new \<Longrightarrow> next b \<noteq> None" "\<And>b s. b \<in> new \<Longrightarrow> edge next b s \<Longrightarrow> s \<in> marked v'"
    "\<And>b. b \<in> new \<Longrightarrow> b \<in> set bs \<or> (\<exists>p\<in>new. edge next p b \<and> ids' ! b < ids' ! p)"
    "\<And>b. b \<in> new \<Longrightarrow> \<exists>a\<in>set bs. (edge next)\<^sup>*\<^sup>* a b"
  using assms unfolding walked_def prod.case by (elim conjE; blast)+

lemma marked_update: "b < length v \<Longrightarrow> marked (v[b := True]) = insert b (marked v)"
  by (auto simp: marked_def nth_list_update)

lemma marked_less: "b \<in> marked v \<Longrightarrow> b < length v"
  by (simp add: marked_def)

lemma walked_nil: "walked next [] {} st st"
  by (auto simp: walked_def split: prod.split)

lemma walked_seen: "walked next bs new (pid, v, ids) st \<Longrightarrow> b \<in> marked v \<Longrightarrow> walked next (b # bs) new (pid, v, ids) st"
  unfolding walked_def by (cases st) (simp, blast)

lemma walked_block:
  assumes b: "b \<notin> marked v" "b < length v" "next b = Some ss" and len: "length ids = length v"
    and inner: "walked next ss new1 (pid, v[b := True], ids) (pid1, v1, ids1)"
    and rest: "walked next bs new2 (pid1 + 1, v1, ids1[b := pid1]) (pid', v', ids')"
  shows "walked next (b # bs) (insert b (new1 \<union> new2)) (pid, v, ids) (pid', v', ids')"
proof -
  note i = walkedD [OF inner] and r = walkedD [OF rest]
  let ?new = "insert b (new1 \<union> new2)"
  have mv: "marked (v[b := True]) = insert b (marked v)" using marked_update [OF b(2)] .
  have disj: "b \<notin> new1" "b \<notin> new2" "new1 \<inter> new2 = {}" "marked v \<inter> ?new = {}"
    using i(4,5) r(4,5) mv b(1) by auto
  have bid: "ids' ! b = pid1"
    using r(8) [OF disj(2)] i(2) b(2) len by simp
  have ids1: "ids' ! x = ids1 ! x" if "x \<in> new1" for x
    using r(8) [of x] disj that by (cases "x = b") auto
  have "(\<lambda>b. ids' ! b) ` ?new = {pid..<pid'}"
  proof -
    have "(\<lambda>b. ids' ! b) ` new1 = {pid..<pid1}" using i(7) ids1 by (simp cong: image_cong)
    moreover have "pid \<le> pid1" "pid1 + 1 \<le> pid'" using i(6) r(6) by simp_all
    ultimately show ?thesis using r(7) bid by (auto simp: image_Un)
  qed
  moreover have "pid' = pid + int (card ?new)"
    using i(3,6) r(3,6) disj by (simp add: card_Un_disjoint)
  moreover have "ids' ! x = ids ! x" if "x \<notin> ?new" for x
    using that i(8) [of x] r(8) [of x] by (cases "x = b") simp_all
  moreover have "marked v' = marked v \<union> ?new" using i(4) r(4) mv by auto
  moreover have "\<forall>x\<in>?new. next x \<noteq> None \<and> (\<forall>s. edge next x s \<longrightarrow> s \<in> marked v')"
  proof
    fix x assume x: "x \<in> ?new"
    have "marked v1 \<subseteq> marked v'" using r(4) by blast
    then show "next x \<noteq> None \<and> (\<forall>s. edge next x s \<longrightarrow> s \<in> marked v')"
      using x b(3) i(9) i(10,11) [of x] r(10,11) [of x] by (auto simp: edge_def)
  qed
  moreover have "\<forall>x\<in>?new. x \<in> set (b # bs) \<or> (\<exists>p\<in>?new. edge next p x \<and> ids' ! x < ids' ! p)"
  proof
    fix x assume "x \<in> ?new"
    then consider "x = b" | "x \<in> new1" | "x \<in> new2" by blast
    then show "x \<in> set (b # bs) \<or> (\<exists>p\<in>?new. edge next p x \<and> ids' ! x < ids' ! p)"
    proof cases
      case 2
      then have "ids1 ! x \<in> {pid..<pid1}" using i(7) by blast
      then have less: "ids' ! x < ids' ! b" using ids1 [OF 2] bid by simp
      from i(12) [OF 2] show ?thesis
      proof
        assume "x \<in> set ss"
        then have "edge next b x" using b(3) by (simp add: edge_def)
        then show ?thesis using less by blast
      next
        assume "\<exists>p\<in>new1. edge next p x \<and> ids1 ! x < ids1 ! p"
        then show ?thesis using ids1 2 by fastforce
      qed
    next
      case 3
      then show ?thesis using r(12) [OF 3] by auto
    qed simp
  qed
  moreover have "\<forall>x\<in>?new. \<exists>a\<in>set (b # bs). (edge next)\<^sup>*\<^sup>* a x"
  proof
    fix x assume "x \<in> ?new"
    then consider "x = b" | "x \<in> new1" | "x \<in> new2" by blast
    then show "\<exists>a\<in>set (b # bs). (edge next)\<^sup>*\<^sup>* a x"
    proof cases
      case 2
      then obtain a where "a \<in> set ss" "(edge next)\<^sup>*\<^sup>* a x" using i(13) by blast
      then have "(edge next)\<^sup>*\<^sup>* b x" using b(3) by (intro converse_rtranclp_into_rtranclp [of _ b a]) (auto simp: edge_def)
      then show ?thesis by auto
    next
      case 3
      then show ?thesis using r(13) by auto
    qed auto
  qed
  moreover have "set (b # bs) \<subseteq> marked v'" using r(4,9) i(4) mv by auto
  ultimately show ?thesis
    unfolding walked_def using i(1-3) r(1-3) disj by simp
qed

lemma walk_ends:
  assumes closed: "\<And>b. b \<in> R \<Longrightarrow> \<exists>ss. next b = Some ss \<and> set ss \<subseteq> R" and skip: "\<And>b. b \<in> R \<Longrightarrow> \<not> skip b"
    and R: "R \<subseteq> {..<length v}" and bs: "set bs \<subseteq> R" and len: "length ids = length v"
  shows "\<exists>new st'. walk skip next bs (pid, v, ids) = Some st' \<and> walked next bs new (pid, v, ids) st'"
  using R bs len
proof (induction "(card (R - marked v), length bs)" arbitrary: pid v ids bs
    rule: wf_induct_rule [OF wf_lex_prod [OF wf_less wf_less], case_names less])
  case (less v bs pid ids)
  have finR: "finite R" by (rule finite_subset [OF less.prems(1)]) simp
  show ?case
  proof (cases bs)
    case Nil
    then show ?thesis using walked_nil [of "next" "(pid, v, ids)"]
      by (intro exI [of _ "{}"] exI [of _ "(pid, v, ids)"]) (simp add: walk.simps [of skip "next" "[]"])
  next
    case (Cons b bs')
    have b: "b \<in> R" "set bs' \<subseteq> R" using less.prems(2) Cons by simp_all
    have bl: "b < length v" "\<not> skip b" using b(1) less.prems(1) skip by auto
    show ?thesis
    proof (cases "v ! b")
      case True
      then have "walk skip next bs (pid, v, ids) = walk skip next bs' (pid, v, ids)"
        using Cons bl by (simp add: walk.simps [of skip "next" "b # bs'"])
      moreover obtain new st' where "walk skip next bs' (pid, v, ids) = Some st'" "walked next bs' new (pid, v, ids) st'"
        using less.hyps [of v bs' ids pid] less.prems b(2) Cons by auto
      ultimately show ?thesis using walked_seen [of "next" bs' new pid v ids st' b] True bl Cons by (auto simp: marked_def)
    next
      case False
      obtain ss where ss: "next b = Some ss" "set ss \<subseteq> R" using closed [OF b(1)] by blast
      have mb: "b \<notin> marked v" using False by (simp add: marked_def)
      have fewer: "card (R - marked (v[b := True])) < card (R - marked v)"
        using finR b(1) mb unfolding marked_update [OF bl(1)] by (intro psubset_card_mono) auto
      obtain new1 pid1 v1 ids1 where w1: "walk skip next ss (pid, v[b := True], ids) = Some (pid1, v1, ids1)"
          "walked next ss new1 (pid, v[b := True], ids) (pid1, v1, ids1)"
        using less.hyps [of "v[b := True]" ss ids pid] less.prems ss(2) fewer by auto
      note w = walkedD [OF w1(2)]
      have "card (R - marked v1) \<le> card (R - marked (v[b := True]))"
        using finR w(4) by (intro card_mono) auto
      then have fewer1: "card (R - marked v1) < card (R - marked v)" using fewer by simp
      have "R \<subseteq> {..<length v1}" using w(1) less.prems(1) by simp
      then obtain new2 st' where w2: "walk skip next bs' (pid1 + 1, v1, ids1[b := pid1]) = Some st'"
          "walked next bs' new2 (pid1 + 1, v1, ids1[b := pid1]) st'"
        using less.hyps [of v1 bs' "ids1[b := pid1]" "pid1 + 1"] fewer1 b(2) w(1,2) less.prems(3) by auto
      obtain pid' v' ids' where st': "st' = (pid', v', ids')" by (cases st')
      have "walked next (b # bs') (insert b (new1 \<union> new2)) (pid, v, ids) (pid', v', ids')"
        using walked_block [OF mb bl(1) ss(1) less.prems(3) w1(2)] w2(2) st' by simp
      moreover have "walk skip next bs (pid, v, ids) = Some st'"
        using Cons bl False ss(1) w1(1) w2(1) by (simp add: walk.simps [of skip "next" "b # bs'"])
      ultimately show ?thesis using Cons st' by blast
    qed
  qed
qed


section \<open>The order of the blocks\<close>

lemma reverse_order_nth:
  assumes "b < length ids" and "ids ! b \<noteq> - 1"
    and num: "\<And>b. b < length ids \<Longrightarrow> ids ! b \<noteq> - 1 \<Longrightarrow> 0 \<le> ids ! b \<and> ids ! b < pid"
    and inj: "\<And>b c. b < length ids \<Longrightarrow> c < length ids \<Longrightarrow> ids ! b = ids ! c \<Longrightarrow> ids ! b \<noteq> - 1 \<Longrightarrow> b = c"
  shows "reverse_order v pid ids ! nat (pid - 1 - ids ! b) = map_option (\<lambda>_. b) (v ! b)" and "length (reverse_order v pid ids) = nat pid"
proof -
  let ?f = "\<lambda>i order. if ids ! i = - 1 then order else order[nat (pid - 1 - ids ! i) := map_option (\<lambda>_. i) (v ! i)]"
  have "m \<le> length ids \<Longrightarrow> length (fold ?f [0..<m] (replicate (nat pid) None)) = nat pid \<and>
      (\<forall>b<m. ids ! b \<noteq> - 1 \<longrightarrow> fold ?f [0..<m] (replicate (nat pid) None) ! nat (pid - 1 - ids ! b) = map_option (\<lambda>_. b) (v ! b))" for m
  proof (induction m)
    case (Suc m)
    let ?o = "fold ?f [0..<m] (replicate (nat pid) None)"
    have IH: "length ?o = nat pid" "\<And>b. b < m \<Longrightarrow> ids ! b \<noteq> - 1 \<Longrightarrow> ?o ! nat (pid - 1 - ids ! b) = map_option (\<lambda>_. b) (v ! b)"
      using Suc by simp_all
    have "?f m ?o ! nat (pid - 1 - ids ! b) = map_option (\<lambda>_. b) (v ! b)" if b: "b < Suc m" "ids ! b \<noteq> - 1" for b
    proof (cases "b = m")
      case True
      have "nat (pid - 1 - ids ! m) < nat pid" using num [of m] b(2) True Suc.prems by (simp add: nat_less_iff)
      then show ?thesis using True b(2) IH(1) by simp
    next
      case False
      then have bm: "b < m" using b(1) by simp
      have "nat (pid - 1 - ids ! m) \<noteq> nat (pid - 1 - ids ! b)" if "ids ! m \<noteq> - 1"
        using num [of b] num [of m] inj [of b m] that b(2) bm Suc.prems by (auto simp: nat_eq_iff)
      then show ?thesis using IH(2) [OF bm b(2)] by simp
    qed
    then show ?case using IH(1) by simp
  qed simp
  from this [of "length ids"] show "reverse_order v pid ids ! nat (pid - 1 - ids ! b) = map_option (\<lambda>_. b) (v ! b)"
      and "length (reverse_order v pid ids) = nat pid"
    using assms(1,2) by (simp_all add: reverse_order_def Let_def algebra_simps)
qed

text \<open>
  The numbers after a walk from the root \<open>r\<close> over fresh vectors, and the order they give.
\<close>

definition numbered :: "(nat \<Rightarrow> nat list option) \<Rightarrow> nat \<Rightarrow> nat set \<Rightarrow> int list \<Rightarrow> BBId option list \<Rightarrow> bool" where
  "numbered next r N ids order \<longleftrightarrow>
     N = {b. (edge next)\<^sup>*\<^sup>* r b} \<and> finite N \<and> inj_on (\<lambda>b. ids ! b) N \<and> (\<forall>b\<in>N. 0 \<le> ids ! b \<and> ids ! b \<le> ids ! r) \<and>
     (\<forall>b\<in>N - {r}. \<exists>p\<in>N. edge next p b \<and> ids ! b < ids ! p) \<and>
     (\<exists>bs. order = Some r # map Some bs \<and> set bs = N - {r} \<and> map (\<lambda>b. ids ! b) bs = rev [0..ids ! r - 1])"

lemma walk_numbered:
  assumes closed: "\<And>b. b \<in> R \<Longrightarrow> \<exists>ss. next b = Some ss \<and> set ss \<subseteq> R" and skip: "\<And>b. b \<in> R \<Longrightarrow> \<not> skip b"
    and R: "\<And>b. b \<in> R \<Longrightarrow> b < length v \<and> v ! b \<noteq> None" and r: "r \<in> R"
  shows "\<exists>pid marks ids. walk skip next [r] (0, replicate (length v) False, replicate (length v) (- 1)) = Some (pid, marks, ids) \<and>
    numbered next r {b. (edge next)\<^sup>*\<^sup>* r b} ids (reverse_order v pid ids) \<and> {b. (edge next)\<^sup>*\<^sup>* r b} \<subseteq> R"
proof -
  let ?n = "length v" and ?N = "{b. (edge next)\<^sup>*\<^sup>* r b}"
  let ?v = "replicate ?n False"
  have m0: "marked ?v = {}" by (simp add: marked_def)
  obtain new pid marks ids where w: "walk skip next [r] (0, ?v, replicate ?n (- 1)) = Some (pid, marks, ids)"
      and wd: "walked next [r] new (0, ?v, replicate ?n (- 1)) (pid, marks, ids)"
    using walk_ends [of R "next" skip ?v "[r]" "replicate ?n (- 1)" 0] closed skip R r by force
  note d = walkedD [OF wd]
  have NR: "b \<in> R" if "b \<in> ?N" for b
  proof -
    have "(edge next)\<^sup>*\<^sup>* r b" using that by simp
    then show ?thesis
    proof (induction rule: rtranclp_induct)
      case (step a b)
      then show ?case using closed [of a] by (auto simp: edge_def)
    qed (rule r)
  qed
  have new: "new = ?N"
  proof
    show "new \<subseteq> ?N" using d(13) by auto
    have "b \<in> new" if "(edge next)\<^sup>*\<^sup>* r b" for b
      using that
    proof (induction rule: rtranclp_induct)
      case base
      then show ?case using d(4,9) m0 by simp
    next
      case (step a b)
      then show ?case using d(11) [of a b] d(4) m0 by simp
    qed
    then show "?N \<subseteq> new" by blast
  qed
  have pid: "pid = int (card ?N)" using d(6) new by simp
  have img: "(\<lambda>b. ids ! b) ` ?N = {0..<pid}" using d(7) new by simp
  have inj: "inj_on (\<lambda>b. ids ! b) ?N"
    using d(3) new img pid by (intro eq_card_imp_inj_on) simp_all
  have fwd: "\<exists>p\<in>?N. edge next p b \<and> ids ! b < ids ! p" if "b \<in> ?N" "b \<noteq> r" for b
    using d(12) [of b] that new by auto
  have rN: "r \<in> ?N" by simp
  have in_img: "ids ! b \<in> {0..<pid}" if "b \<in> ?N" for b
    using imageI [OF that, of "\<lambda>b. ids ! b"] img by simp
  have max: "ids ! b \<le> ids ! r" if b: "b \<in> ?N" for b
  proof -
    have "0 < pid" using in_img [OF rN] by simp
    then have "pid - 1 \<in> (\<lambda>b. ids ! b) ` ?N" using img by simp
    then obtain m where m: "m \<in> ?N" "ids ! m = pid - 1" by auto
    have "m = r"
    proof (rule ccontr)
      assume "m \<noteq> r"
      then obtain p where "p \<in> ?N" "ids ! m < ids ! p" using fwd m(1) by blast
      moreover from this have "ids ! p < pid" using in_img [of p] by simp
      ultimately show False using m(2) by simp
    qed
    moreover have "ids ! b < pid" using in_img [OF b] by simp
    ultimately show ?thesis using m(2) by simp
  qed
  have rpid: "ids ! r = pid - 1"
  proof -
    have "pid - 1 \<in> (\<lambda>b. ids ! b) ` ?N" using img in_img [OF rN] by simp
    then obtain m where "m \<in> ?N" "ids ! m = pid - 1" by auto
    moreover have "ids ! r < pid" using in_img [OF rN] by simp
    ultimately show ?thesis using max [of m] by simp
  qed
  have idsN: "ids ! b \<noteq> - 1 \<longleftrightarrow> b \<in> ?N" if "b < length ids" for b
  proof (cases "b \<in> ?N")
    case True
    then have "0 \<le> ids ! b" using in_img [of b] by simp
    then show ?thesis using True by simp
  next
    case False
    then show ?thesis using d(8) [of b] that d(2) new by simp
  qed
  have len: "length ids = ?n" using d(2) by simp
  have numL: "0 \<le> ids ! b \<and> ids ! b < pid" if "b < length ids" "ids ! b \<noteq> - 1" for b
    using in_img [of b] idsN [OF that(1)] that(2) by simp
  have injL: "b = c" if "b < length ids" "c < length ids" "ids ! b = ids ! c" "ids ! b \<noteq> - 1" for b c
    using inj_onD [OF inj that(3)] idsN [OF that(1)] idsN [OF that(2)] that(3,4) by simp
  have nth: "reverse_order v pid ids ! nat (pid - 1 - ids ! b) = Some b \<and> length (reverse_order v pid ids) = nat pid" if b: "b \<in> ?N" for b
  proof -
    have bl: "b < length ids" "v ! b \<noteq> None" using R [OF NR [OF b]] len by simp_all
    have nb: "ids ! b \<noteq> - 1" using idsN [OF bl(1)] b by blast
    have "reverse_order v pid ids ! nat (pid - 1 - ids ! b) = map_option (\<lambda>_. b) (v ! b)"
      by (rule reverse_order_nth(1) [OF bl(1) nb numL injL])
    moreover have "length (reverse_order v pid ids) = nat pid"
      by (rule reverse_order_nth(2) [OF bl(1) nb numL injL])
    ultimately show ?thesis using bl(2) by auto
  qed
  let ?order = "reverse_order v pid ids"
  define bs where "bs = map the (tl ?order)"
  have len_order: "length ?order = nat pid" using nth [OF rN] by simp
  have at: "\<exists>b\<in>?N. ?order ! j = Some b \<and> ids ! b = pid - 1 - int j" if "j < nat pid" for j
  proof -
    have "pid - 1 - int j \<in> (\<lambda>b. ids ! b) ` ?N" using img that by auto
    then obtain b where "b \<in> ?N" "ids ! b = pid - 1 - int j" by auto
    then show ?thesis using nth [of b] by auto
  qed
  have pos: "0 < nat pid" using in_img [OF rN] by simp
  have "?order ! 0 = Some r"
  proof -
    obtain b where b: "b \<in> ?N" "?order ! 0 = Some b" "ids ! b = pid - 1" using at [OF pos] by auto
    then have "b = r" using rpid inj_onD [OF inj _ b(1) rN] by simp
    then show ?thesis using b(2) by simp
  qed
  moreover have tl: "tl ?order = map Some bs"
  proof (rule nth_equalityI)
    fix j assume j: "j < length (tl ?order)"
    then have "Suc j < nat pid" using len_order by simp
    then obtain b where "?order ! Suc j = Some b" using at by blast
    then show "tl ?order ! j = map Some bs ! j" using j by (simp add: bs_def nth_tl)
  qed (simp add: bs_def)
  ultimately have order: "?order = Some r # map Some bs"
    using len_order pos by (cases ?order) simp_all
  have bs_nth: "bs ! j \<in> ?N \<and> ids ! (bs ! j) = pid - 2 - int j" if j: "j < length bs" for j
  proof -
    have "Suc j < nat pid" using j len_order order by simp
    then obtain b where "b \<in> ?N" "?order ! Suc j = Some b" "ids ! b = pid - 1 - int (Suc j)" using at by blast
    then show ?thesis using order j by simp
  qed
  have len_bs: "length bs = nat (pid - 1)" using len_order order by simp
  have "set bs = ?N - {r}"
  proof (intro set_eqI iffI)
    fix b assume "b \<in> set bs"
    then obtain j where "j < length bs" "bs ! j = b" by (auto simp: in_set_conv_nth)
    then show "b \<in> ?N - {r}" using bs_nth [of j] rpid by auto
  next
    fix b assume b: "b \<in> ?N - {r}"
    then have "ids ! b \<noteq> pid - 1" using rpid inj_onD [OF inj, of b r] rN by auto
    moreover have "0 \<le> ids ! b \<and> ids ! b < pid" using in_img [of b] b by simp
    ultimately have j: "nat (pid - 2 - ids ! b) < length bs" and "int (nat (pid - 2 - ids ! b)) = pid - 2 - ids ! b"
      using len_bs by auto
    then have "ids ! (bs ! nat (pid - 2 - ids ! b)) = ids ! b" "bs ! nat (pid - 2 - ids ! b) \<in> ?N" using bs_nth [OF j] by simp_all
    then have "bs ! nat (pid - 2 - ids ! b) = b" using inj_onD [OF inj] b by simp
    then show "b \<in> set bs" using j nth_mem by metis
  qed
  moreover have "map (\<lambda>b. ids ! b) bs = rev [0..ids ! r - 1]"
  proof (rule nth_equalityI)
    show "length (map (\<lambda>b. ids ! b) bs) = length (rev [0..ids ! r - 1])" using len_bs rpid by simp
    fix j assume "j < length (map (\<lambda>b. ids ! b) bs)"
    then have j: "j < length bs" by simp
    have "int (nat (pid - 1) - Suc j) = pid - 2 - int j" using j len_bs by simp
    moreover from this have "[0..pid - 2] ! (nat (pid - 1) - Suc j) = pid - 2 - int j"
      using nth_upto [of 0 "nat (pid - 1) - Suc j" "pid - 2"] by simp
    ultimately show "map (\<lambda>b. ids ! b) bs ! j = rev [0..ids ! r - 1] ! j"
      using bs_nth [OF j] j len_bs rpid by (simp add: rev_nth)
  qed
  ultimately have "\<exists>bs. ?order = Some r # map Some bs \<and> set bs = ?N - {r} \<and> map (\<lambda>b. ids ! b) bs = rev [0..ids ! r - 1]"
    using order by (intro exI [of _ bs] conjI)
  moreover have "\<forall>b\<in>?N. 0 \<le> ids ! b \<and> ids ! b \<le> ids ! r"
  proof
    fix b assume b: "b \<in> ?N"
    show "0 \<le> ids ! b \<and> ids ! b \<le> ids ! r" using in_img [OF b] max [OF b] by simp
  qed
  moreover have "\<forall>b\<in>?N - {r}. \<exists>p\<in>?N. edge next p b \<and> ids ! b < ids ! p"
  proof
    fix b assume b: "b \<in> ?N - {r}"
    show "\<exists>p\<in>?N. edge next p b \<and> ids ! b < ids ! p" by (rule fwd) (use b in simp_all)
  qed
  moreover have "finite ?N" using d(3) new by simp
  ultimately have "numbered next r ?N ids ?order"
    unfolding numbered_def using inj by (intro conjI refl)
  moreover have "?N \<subseteq> R" using NR by (rule subsetI)
  ultimately show ?thesis using w by (intro exI conjI)
qed

end
