(* ===== verification/DomResult.thy ===== *)
theory DomResult
  imports DomOrder
begin

text \<open>
  The dominator tree that \<^verbatim>\<open>ComputeDominance\<close> and \<^verbatim>\<open>ComputePostDominance\<close> compute and
  the queries on it, for graphs whose successor and predecessor lists agree.
\<close>

section \<open>Nearest common ancestors\<close>

locale chk_ids = chk E r N "\<lambda>b. ids ! b" for E :: "nat \<Rightarrow> nat \<Rightarrow> bool" and r :: nat and N :: "nat set" and ids :: "int list"
begin

lemma climb_spec:
  assumes tr: "tree dm" and x: "x \<in> N" "dm x \<noteq> None" and y: "y \<in> N"
  shows "\<exists>x'. climb ids dm x y = Some x' \<and> anc dm x x' \<and> ids ! y \<le> ids ! x' \<and> (\<forall>z. anc dm x z \<and> ids ! y \<le> ids ! z \<longrightarrow> anc dm x' z)"
  using x
proof (induction "nat (ids ! r - ids ! x)" arbitrary: x rule: less_induct)
  case less
  show ?case
  proof (cases "ids ! x < ids ! y")
    case True
    obtain p where p: "dm x = Some p" using less.prems(2) by blast
    have "x \<noteq> r" using True po_root [OF y] by auto
    then have pN: "p \<in> N" "dm p \<noteq> None" "ids ! x < ids ! p"
      using treeD(3,4,5) [OF tr p] by simp_all
    have "nat (ids ! r - ids ! p) < nat (ids ! r - ids ! x)" using pN(3) po_root [OF pN(1)] by simp
    then obtain x' where x': "climb ids dm p y = Some x'" "anc dm p x'" "ids ! y \<le> ids ! x'"
        "\<forall>z. anc dm p z \<and> ids ! y \<le> ids ! z \<longrightarrow> anc dm x' z"
      using less.hyps [OF _ pN(1,2)] by blast
    have "climb ids dm x y = Some x'" using True p x'(1) by (simp add: climb.simps [of ids dm x])
    then show ?thesis using x' anc_unfold [of dm x p] p True by auto
  qed (simp add: climb.simps [of ids dm x])
qed

lemma Intersect_spec:
  assumes tr: "tree dm" and x: "x \<in> N" "dm x \<noteq> None" and y: "y \<in> N" "dm y \<noteq> None"
  shows "\<exists>t. Intersect ids dm x y = Some t \<and> (\<forall>z. anc dm t z \<longleftrightarrow> anc dm x z \<and> anc dm y z)"
  using x y
proof (induction "nat (ids ! r - ids ! x) + nat (ids ! r - ids ! y)" arbitrary: x y rule: less_induct)
  case less
  show ?case
  proof (cases "x = y")
    case False
    obtain x' where x': "climb ids dm x y = Some x'" "anc dm x x'" "ids ! y \<le> ids ! x'" "\<And>z. anc dm x z \<Longrightarrow> ids ! y \<le> ids ! z \<Longrightarrow> anc dm x' z"
      using climb_spec [OF tr less.prems(1,2,3)] by blast
    have x'N: "x' \<in> N" "dm x' \<noteq> None"
      using anc_N [OF x'(2) tr less.prems(1)] anc_processed [OF x'(2) tr less.prems(2)] by simp_all
    obtain y' where y': "climb ids dm y x' = Some y'" "anc dm y y'" "ids ! x' \<le> ids ! y'" "\<And>z. anc dm y z \<Longrightarrow> ids ! x' \<le> ids ! z \<Longrightarrow> anc dm y' z"
      using climb_spec [OF tr less.prems(3,4) x'N(1)] by blast
    have y'N: "y' \<in> N" "dm y' \<noteq> None"
      using anc_N [OF y'(2) tr less.prems(3)] anc_processed [OF y'(2) tr less.prems(4)] by simp_all
    have "ids ! x \<noteq> ids ! y" using po_inject [OF less.prems(1,3)] False by blast
    then have "ids ! x < ids ! x' \<or> ids ! y < ids ! y'"
      using anc_po [OF x'(2) tr] anc_po [OF y'(2) tr] x'(3) y'(3) by linarith
    then have less': "nat (ids ! r - ids ! x') + nat (ids ! r - ids ! y') < nat (ids ! r - ids ! x) + nat (ids ! r - ids ! y)"
      using anc_po [OF x'(2) tr] anc_po [OF y'(2) tr] po_root [OF x'N(1)] po_root [OF y'N(1)] by linarith
    obtain t where t: "Intersect ids dm x' y' = Some t" "\<And>z. anc dm t z \<longleftrightarrow> anc dm x' z \<and> anc dm y' z"
      using less.hyps [OF less' x'N y'N] by blast
    have "anc dm x' z \<and> anc dm y' z \<longleftrightarrow> anc dm x z \<and> anc dm y z" for z
    proof
      show "anc dm x' z \<and> anc dm y' z \<Longrightarrow> anc dm x z \<and> anc dm y z"
        using anc_trans [OF x'(2)] anc_trans [OF y'(2)] by blast
      assume a: "anc dm x z \<and> anc dm y z"
      then have "anc dm x' z" using x'(4) [of z] anc_po [of dm y z] tr by simp
      moreover from this have "anc dm y' z" using y'(4) [of z] anc_po [of dm x' z] tr a by simp
      ultimately show "anc dm x' z \<and> anc dm y' z" ..
    qed
    then show ?thesis using t x'(1) y'(1) False by (simp add: Intersect.simps [of ids dm x])
  qed (simp add: Intersect.simps [of ids dm y])
qed

definition usable :: "parents \<Rightarrow> nat \<Rightarrow> nat \<Rightarrow> bool" where
  "usable dm b p \<longleftrightarrow> dm p \<noteq> None \<and> p \<noteq> b"

lemma first_processed_spec:
  assumes "\<exists>p\<in>set (pre # ps). usable dm b p" and "first_processed dm b pre ps = (q, rest)"
  shows "usable dm b q" and "(\<forall>p\<in>set (pre # ps). usable dm b p \<longrightarrow> P p) \<longleftrightarrow> P q \<and> (\<forall>p\<in>set rest. usable dm b p \<longrightarrow> P p)"
  using assms
proof (induction ps arbitrary: pre)
  case Nil
  {
    case 1
    then show ?case by simp
  next
    case 2
    then show ?case by simp
  }
next
  case (Cons p ps)
  {
    case 1
    then show ?case using Cons.IH(1) [of p] by (cases "usable dm b pre") (auto simp: usable_def)
  next
    case 2
    then show ?case using Cons.IH(2) [of p] by (cases "usable dm b pre") (auto simp: usable_def)
  }
qed

lemma meet_rest_spec:
  assumes tr: "tree dm" and q: "q \<in> N" "dm q \<noteq> None"
  shows "\<exists>t. meet_rest ids dm b rest q = Some t \<and> (\<forall>z. anc dm t z \<longleftrightarrow> anc dm q z \<and> (\<forall>p\<in>set rest. usable dm b p \<longrightarrow> anc dm p z))"
  using q
proof (induction rest arbitrary: q)
  case (Cons p rest)
  show ?case
  proof (cases "usable dm b p")
    case True
    then obtain p' where "dm p = Some p'" by (auto simp: usable_def)
    then have pN: "p \<in> N" "dm p \<noteq> None" using treeD(2) [OF tr] by simp_all
    obtain t where t: "Intersect ids dm p q = Some t" "\<And>z. anc dm t z \<longleftrightarrow> anc dm p z \<and> anc dm q z"
      using Intersect_spec [OF tr pN Cons.prems] by blast
    have pt: "anc dm p t" using t(2) [of t] by simp
    obtain u where u: "meet_rest ids dm b rest t = Some u"
        "\<And>z. anc dm u z \<longleftrightarrow> anc dm t z \<and> (\<forall>p\<in>set rest. usable dm b p \<longrightarrow> anc dm p z)"
      using Cons.IH [OF anc_N [OF pt tr pN(1)] anc_processed [OF pt tr pN(2)]] by blast
    have "meet_rest ids dm b (p # rest) q = Some u" using True t(1) u(1) by (simp add: usable_def)
    then show ?thesis using u(2) t(2) True by auto
  next
    case False
    then have "meet_rest ids dm b (p # rest) q = meet_rest ids dm b rest q" by (auto simp: usable_def)
    then show ?thesis using Cons.IH [OF Cons.prems] False by auto
  qed
qed simp

lemma nearest_common:
  assumes tr: "tree dm" and ex: "\<exists>p\<in>set (pre # ps). usable dm b p" and fp: "first_processed dm b pre ps = (q, rest)"
  shows "dm q \<noteq> None" and "\<exists>t. meet_rest ids dm b rest q = Some t \<and> (\<forall>z. anc dm t z \<longleftrightarrow> (\<forall>p\<in>set (pre # ps). usable dm b p \<longrightarrow> anc dm p z))"
proof -
  note fps = first_processed_spec [OF ex fp]
  have q: "usable dm b q" by (rule fps(1))
  show qp: "dm q \<noteq> None" using q by (simp add: usable_def)
  then have "q \<in> N" using treeD(2) [OF tr] by blast
  then obtain t where t: "meet_rest ids dm b rest q = Some t"
      "\<And>z. anc dm t z \<longleftrightarrow> anc dm q z \<and> (\<forall>p\<in>set rest. usable dm b p \<longrightarrow> anc dm p z)"
    using meet_rest_spec [OF tr _ qp] by blast
  then show "\<exists>t. meet_rest ids dm b rest q = Some t \<and> (\<forall>z. anc dm t z \<longleftrightarrow> (\<forall>p\<in>set (pre # ps). usable dm b p \<longrightarrow> anc dm p z))"
    unfolding fps(2) by blast
qed

text \<open>
  The visit of a block: \<open>first\<close> says that the root is a neighbour of the block that its
  list \<open>ps\<close> does not hold.
\<close>

lemma idom_meets:
  assumes inv: "inv k dm" and b: "b \<in> N" "b \<noteq> r" "ids ! b = k"
    and first: "first \<longleftrightarrow> E r b" and ps: "\<And>p. p \<noteq> r \<Longrightarrow> E p b \<longleftrightarrow> p \<in> set ps" and rps: "r \<notin> set ps"
    and fp: "first_processed dm b (if first \<or> ps = [] then r else hd ps) (tl ps) = (q, rest)"
  shows "dm q \<noteq> None" and "\<exists>t. meet_rest ids dm b rest q = Some t \<and> meets dm b t"
proof -
  have tr: "tree dm" using invD(1) [OF inv] .
  obtain p where p: "p \<in> N" "E p b" "ids ! b < ids ! p" using forward_pred [OF b(1,2)] by blast
  have pu: "usable dm b p" using invD(2) [OF inv p(1)] p(3) b(3) by (auto simp: usable_def)
  have ru: "usable dm b r" using treeD(1) [OF tr] b(2) by (simp add: usable_def)
  let ?l = "(if first \<or> ps = [] then r else hd ps) # tl ps"
  have "\<exists>p\<in>set ?l. usable dm b p"
  proof (cases "first \<or> ps = []")
    case False
    then have "set ?l = set ps" by (cases ps) simp_all
    moreover have "p \<in> set ps" using p(2) False first ps [of p] by (cases "p = r") auto
    ultimately show ?thesis using pu by blast
  qed (use ru in auto)
  note n = nearest_common [OF tr this fp]
  show "dm q \<noteq> None" using n(1) .
  obtain t where t: "meet_rest ids dm b rest q = Some t" "\<And>z. anc dm t z \<longleftrightarrow> (\<forall>p\<in>set ?l. usable dm b p \<longrightarrow> anc dm p z)"
    using n(2) by blast
  have up: "usable dm b p \<Longrightarrow> p \<in> N" for p using treeD(2) [OF tr] by (auto simp: usable_def)
  have "anc dm t z \<longleftrightarrow> common dm b z" for z
  proof (cases first)
    case True
    have rz: "anc dm r z \<Longrightarrow> z = r" for z
      using anc_eq_po [OF _ tr root, of z] po_root [OF anc_N [OF _ tr root, of z]] by blast
    have all: "anc dm p r" if "usable dm b p" for p
      using anc_root [OF tr up [OF that]] that by (simp add: usable_def)
    have "r \<in> ppreds dm b" using True first root ru by (simp add: ppreds_def usable_def)
    then have "common dm b z \<longleftrightarrow> z = r" using rz [of z] all by (auto simp: common_def ppreds_def usable_def)
    moreover have "anc dm t z \<longleftrightarrow> z = r" unfolding t(2) using True ru rz [of z] all by auto
    ultimately show ?thesis by simp
  next
    case False
    have "ps \<noteq> []" using p(2) False first ps [of p] by (cases "p = r") auto
    then have "set ?l = set ps" using False by (cases ps) simp_all
    moreover have "p \<in> ppreds dm b \<longleftrightarrow> p \<in> set ps \<and> usable dm b p" for p
      using ps [of p] False first rps up [of p] by (cases "p = r") (auto simp: ppreds_def usable_def)
    ultimately show ?thesis unfolding t(2) common_def by blast
  qed
  then show "\<exists>t. meet_rest ids dm b rest q = Some t \<and> meets dm b t" using t(1) by (auto simp: meets_def)
qed

end


section \<open>Well-formed graphs\<close>

definition normal :: "MeBB option list \<Rightarrow> BBId \<Rightarrow> BBId \<Rightarrow> BBId \<Rightarrow> bool" where
  "normal v entry exit b \<longleftrightarrow> b \<noteq> entry \<and> b \<noteq> exit \<and> bb_at v b \<noteq> None"

definition succs_of :: "MeBB option list \<Rightarrow> BBId \<Rightarrow> BBId list" where
  "succs_of v b = (case bb_at v b of None \<Rightarrow> [] | Some bb \<Rightarrow> succ bb)"

definition preds_of :: "MeBB option list \<Rightarrow> BBId \<Rightarrow> BBId list" where
  "preds_of v b = (case bb_at v b of None \<Rightarrow> [] | Some bb \<Rightarrow> pred bb)"

definition is_exit :: "MeBB option list \<Rightarrow> BBId \<Rightarrow> bool" where
  "is_exit v b \<longleftrightarrow> (case bb_at v b of None \<Rightarrow> False | Some bb \<Rightarrow> GetAttributes bb kBBAttrIsExit)"

text \<open>
  The common entry leads to the entry blocks, which do not list it; the exit blocks lead to
  the common exit, which lists them and they not it. All other edges are in both lists.
\<close>

definition wf_cfg :: "MeBB option list \<Rightarrow> BBId \<Rightarrow> BBId \<Rightarrow> bool" where
  "wf_cfg v entry exit \<longleftrightarrow> entry \<noteq> exit \<and> bb_at v entry \<noteq> None \<and> bb_at v exit \<noteq> None \<and>
     preds_of v entry = [] \<and> succs_of v exit = [] \<and>
     list_all (normal v entry exit) (succs_of v entry) \<and> list_all (normal v entry exit) (preds_of v exit) \<and>
     list_all (\<lambda>b. normal v entry exit b \<longrightarrow>
         list_all (\<lambda>s. normal v entry exit s \<and> b \<in> set (preds_of v s)) (succs_of v b) \<and>
         list_all (\<lambda>p. normal v entry exit p \<and> b \<in> set (succs_of v p)) (preds_of v b)) [0..<length v]"

text \<open>The blocks that lead to the common exit are those marked as exits.\<close>

definition exits_ok :: "MeBB option list \<Rightarrow> BBId \<Rightarrow> BBId \<Rightarrow> bool" where
  "exits_ok v entry exit \<longleftrightarrow> list_all (\<lambda>b. normal v entry exit b \<longrightarrow> (is_exit v b \<longleftrightarrow> b \<in> set (preds_of v exit))) [0..<length v]"

definition cfg_edge :: "MeBB option list \<Rightarrow> BBId \<Rightarrow> BBId \<Rightarrow> bool" where
  "cfg_edge v a b \<longleftrightarrow> b \<in> set (succs_of v a)"

text \<open>Against the edges, from the common exit.\<close>

definition rev_edge :: "MeBB option list \<Rightarrow> BBId \<Rightarrow> BBId \<Rightarrow> bool" where
  "rev_edge v a b \<longleftrightarrow> b \<in> set (preds_of v a)"

lemma bb_at_less: "bb_at v b \<noteq> None \<Longrightarrow> b < length v"
  by (simp add: bb_at_def split: if_splits)

lemma wf_cfgD:
  assumes "wf_cfg v entry exit"
  shows "entry \<noteq> exit" "bb_at v entry \<noteq> None" "bb_at v exit \<noteq> None" "preds_of v entry = []" "succs_of v exit = []"
    "s \<in> set (succs_of v entry) \<Longrightarrow> normal v entry exit s" "p \<in> set (preds_of v exit) \<Longrightarrow> normal v entry exit p"
    "normal v entry exit b \<Longrightarrow> s \<in> set (succs_of v b) \<Longrightarrow> normal v entry exit s \<and> b \<in> set (preds_of v s)"
    "normal v entry exit b \<Longrightarrow> p \<in> set (preds_of v b) \<Longrightarrow> normal v entry exit p \<and> b \<in> set (succs_of v p)"
proof -
  have w: "entry \<noteq> exit" "bb_at v entry \<noteq> None" "bb_at v exit \<noteq> None" "preds_of v entry = []" "succs_of v exit = []"
      "list_all (normal v entry exit) (succs_of v entry)" "list_all (normal v entry exit) (preds_of v exit)"
      "list_all (\<lambda>b. normal v entry exit b \<longrightarrow>
         list_all (\<lambda>s. normal v entry exit s \<and> b \<in> set (preds_of v s)) (succs_of v b) \<and>
         list_all (\<lambda>p. normal v entry exit p \<and> b \<in> set (succs_of v p)) (preds_of v b)) [0..<length v]"
    using assms unfolding wf_cfg_def by (elim conjE; blast)+
  show "entry \<noteq> exit" "bb_at v entry \<noteq> None" "bb_at v exit \<noteq> None" "preds_of v entry = []" "succs_of v exit = []"
    by (rule w)+
  show "s \<in> set (succs_of v entry) \<Longrightarrow> normal v entry exit s" "p \<in> set (preds_of v exit) \<Longrightarrow> normal v entry exit p"
    using w(6,7) by (simp_all add: list_all_iff)
  have "normal v entry exit b \<Longrightarrow> b < length v" using bb_at_less [of v b] by (simp add: normal_def)
  then show "normal v entry exit b \<Longrightarrow> s \<in> set (succs_of v b) \<Longrightarrow> normal v entry exit s \<and> b \<in> set (preds_of v s)"
    "normal v entry exit b \<Longrightarrow> p \<in> set (preds_of v b) \<Longrightarrow> normal v entry exit p \<and> b \<in> set (succs_of v p)"
    using w(8) unfolding list_all_iff set_upt by (metis atLeastLessThan_iff le0)+
qed

lemma edge_succ: "edge (\<lambda>b. map_option succ (bb_at v b)) = cfg_edge v"
proof (intro ext)
  fix a b show "edge (\<lambda>b. map_option succ (bb_at v b)) a b = cfg_edge v a b"
    by (cases "bb_at v a") (simp_all add: edge_def cfg_edge_def succs_of_def)
qed

lemma edge_pred: "edge (\<lambda>b. map_option pred (bb_at v b)) = rev_edge v"
proof (intro ext)
  fix a b show "edge (\<lambda>b. map_option pred (bb_at v b)) a b = rev_edge v a b"
    by (cases "bb_at v a") (simp_all add: edge_def rev_edge_def preds_of_def)
qed

lemma listed_block: "s \<in> set (succs_of v b) \<Longrightarrow> bb_at v b \<noteq> None" "s \<in> set (preds_of v b) \<Longrightarrow> bb_at v b \<noteq> None"
  by (cases "bb_at v b"; simp add: succs_of_def preds_of_def)+

lemma cfg_edge_into:
  assumes wf: "wf_cfg v entry exit" and b: "normal v entry exit b" and p: "p \<noteq> entry"
  shows "cfg_edge v p b \<longleftrightarrow> p \<in> set (preds_of v b)"
proof
  assume e: "cfg_edge v p b"
  then have "p \<noteq> exit" "bb_at v p \<noteq> None" using wf_cfgD(5) [OF wf] listed_block(1) [of b v p] by (auto simp: cfg_edge_def)
  then show "p \<in> set (preds_of v b)" using wf_cfgD(8) [OF wf, of p b] e p by (simp add: normal_def cfg_edge_def)
next
  assume "p \<in> set (preds_of v b)"
  then show "cfg_edge v p b" using wf_cfgD(9) [OF wf b] by (simp add: cfg_edge_def)
qed

lemma rev_edge_into:
  assumes wf: "wf_cfg v entry exit" and b: "normal v entry exit b" and p: "p \<noteq> exit"
  shows "rev_edge v p b \<longleftrightarrow> p \<in> set (succs_of v b)"
proof
  assume e: "rev_edge v p b"
  then have "p \<noteq> entry" "bb_at v p \<noteq> None" using wf_cfgD(4) [OF wf] listed_block(2) [of b v p] by (auto simp: rev_edge_def)
  then show "p \<in> set (succs_of v b)" using wf_cfgD(9) [OF wf, of p b] e p by (simp add: normal_def rev_edge_def)
next
  assume "p \<in> set (succs_of v b)"
  then show "rev_edge v p b" using wf_cfgD(8) [OF wf b] by (simp add: rev_edge_def)
qed

text \<open>What the walk of \<^verbatim>\<open>GenPostOrderID\<close> gives the iteration.\<close>

lemma numbered_chk:
  assumes "numbered next r N ids order"
  shows "chk_ids (edge next) r N ids"
proof
  have n: "N = {b. (edge next)\<^sup>*\<^sup>* r b}" "finite N" "inj_on (\<lambda>b. ids ! b) N" "\<forall>b\<in>N. 0 \<le> ids ! b \<and> ids ! b \<le> ids ! r"
      "\<forall>b\<in>N - {r}. \<exists>p\<in>N. edge next p b \<and> ids ! b < ids ! p"
    using assms unfolding numbered_def by blast+
  show "finite N" "r \<in> N" using n(1,2) by simp_all
  show "avoid (edge next) {} r x" if "x \<in> N" for x using that n(1) by (simp add: avoid_def)
  show "y \<in> N" if "x \<in> N" "edge next x y" for x y using that n(1) by (auto intro: rtranclp.rtrancl_into_rtrancl)
  show "x = y" if "x \<in> N" "y \<in> N" "ids ! x = ids ! y" for x y using inj_onD [OF n(3) that(3,1,2)] .
  show "\<exists>p\<in>N. edge next p x \<and> ids ! x < ids ! p" if "x \<in> N" "x \<noteq> r" for x using n(5) that by blast
  show "0 \<le> ids ! x" "ids ! x \<le> ids ! r" if "x \<in> N" for x using n(4) that by simp_all
qed

section \<open>The dominator tree of a graph\<close>

definition reach :: "MeBB option list \<Rightarrow> BBId \<Rightarrow> BBId set" where
  "reach v entry = {b. (cfg_edge v)\<^sup>*\<^sup>* entry b}"

definition rreach :: "MeBB option list \<Rightarrow> BBId \<Rightarrow> BBId set" where
  "rreach v exit = {b. (rev_edge v)\<^sup>*\<^sup>* exit b}"

definition numbering :: "Dominance \<Rightarrow> bool" where
  "numbering d \<longleftrightarrow> numbered (\<lambda>b. map_option succ (bb_at (bbVec d) b)) (commonEntryBB d) (reach (bbVec d) (commonEntryBB d))
     (postOrderIDVec d) (reversePostOrder d) \<and>
     (\<forall>b\<in>reach (bbVec d) (commonEntryBB d). b = commonEntryBB d \<or> normal (bbVec d) (commonEntryBB d) (commonExitBB d) b)"

definition pnumbering :: "Dominance \<Rightarrow> bool" where
  "pnumbering d \<longleftrightarrow> numbered (\<lambda>b. map_option pred (bb_at (bbVec d) b)) (commonExitBB d) (rreach (bbVec d) (commonExitBB d))
     (pdomPostOrderIDVec d) (pdomReversePostOrder d) \<and>
     (\<forall>b\<in>rreach (bbVec d) (commonExitBB d). b = commonExitBB d \<or> normal (bbVec d) (commonEntryBB d) (commonExitBB d) b)"

abbreviation wf_Dominance :: "Dominance \<Rightarrow> bool" where
  "wf_Dominance d \<equiv> wf_cfg (bbVec d) (commonEntryBB d) (commonExitBB d)"

lemma bb_at_nth: "bb_at v b \<noteq> None \<Longrightarrow> b < length v \<and> v ! b \<noteq> None"
  by (simp add: bb_at_def split: if_splits)

lemma GenPostOrderID_numbering:
  assumes wf: "wf_Dominance d" and new: "postOrderIDVec d = replicate (length (bbVec d)) (- 1)"
  shows "\<exists>ids order. GenPostOrderID d = Some (d\<lparr>postOrderIDVec := ids, reversePostOrder := order\<rparr>) \<and>
    numbering (d\<lparr>postOrderIDVec := ids, reversePostOrder := order\<rparr>)"
proof -
  let ?v = "bbVec d" and ?e = "commonEntryBB d" and ?x = "commonExitBB d"
  let ?next = "\<lambda>b. map_option succ (bb_at ?v b)" and ?R = "insert ?e {b. normal ?v ?e ?x b}"
  have at: "bb_at ?v b \<noteq> None" if "b \<in> ?R" for b using that wf_cfgD(2) [OF wf] by (auto simp: normal_def)
  have succs: "normal ?v ?e ?x s" if "b \<in> ?R" "s \<in> set (succs_of ?v b)" for b s
    using that wf_cfgD(6) [OF wf, of s] wf_cfgD(8) [OF wf, of b s] by blast
  have closed: "\<exists>ss. ?next b = Some ss \<and> set ss \<subseteq> ?R" if b: "b \<in> ?R" for b
  proof -
    obtain bb where bb: "bb_at ?v b = Some bb" using at [OF b] by blast
    then have "set (succ bb) \<subseteq> ?R" using succs [OF b] by (auto simp: succs_of_def)
    then show ?thesis using bb by simp
  qed
  obtain pid marks ids where w: "walk (\<lambda>b. False) ?next [?e] (0, replicate (length ?v) False, replicate (length ?v) (- 1)) = Some (pid, marks, ids)"
      and n: "numbered ?next ?e {b. (edge ?next)\<^sup>*\<^sup>* ?e b} ids (reverse_order ?v pid ids)" and R: "{b. (edge ?next)\<^sup>*\<^sup>* ?e b} \<subseteq> ?R"
    using walk_numbered [of ?R ?next "\<lambda>b. False" ?v ?e, OF closed _ bb_at_nth [OF at] insertI1] by blast
  have "GenPostOrderID d = Some (d\<lparr>postOrderIDVec := ids, reversePostOrder := reverse_order ?v pid ids\<rparr>)"
    unfolding GenPostOrderID_def PostOrderWalk_def new w by simp
  moreover have "numbering (d\<lparr>postOrderIDVec := ids, reversePostOrder := reverse_order ?v pid ids\<rparr>)"
    using n R unfolding edge_succ by (auto simp: numbering_def reach_def)
  ultimately show ?thesis by blast
qed

lemma PdomGenPostOrderID_numbering:
  assumes wf: "wf_Dominance d" and new: "pdomPostOrderIDVec d = replicate (length (bbVec d)) (- 1)"
  shows "\<exists>ids order. PdomGenPostOrderID d = Some (d\<lparr>pdomPostOrderIDVec := ids, pdomReversePostOrder := order\<rparr>) \<and>
    pnumbering (d\<lparr>pdomPostOrderIDVec := ids, pdomReversePostOrder := order\<rparr>)"
proof -
  let ?v = "bbVec d" and ?e = "commonEntryBB d" and ?x = "commonExitBB d"
  let ?next = "\<lambda>b. map_option pred (bb_at ?v b)" and ?R = "insert ?x {b. normal ?v ?e ?x b}"
  have at: "bb_at ?v b \<noteq> None" if "b \<in> ?R" for b using that wf_cfgD(3) [OF wf] by (auto simp: normal_def)
  have preds: "normal ?v ?e ?x p" if "b \<in> ?R" "p \<in> set (preds_of ?v b)" for b p
    using that wf_cfgD(7) [OF wf, of p] wf_cfgD(9) [OF wf, of b p] by blast
  have closed: "\<exists>ss. ?next b = Some ss \<and> set ss \<subseteq> ?R" if b: "b \<in> ?R" for b
  proof -
    obtain bb where bb: "bb_at ?v b = Some bb" using at [OF b] by blast
    then have "set (pred bb) \<subseteq> ?R" using preds [OF b] by (auto simp: preds_of_def)
    then show ?thesis using bb by simp
  qed
  obtain pid marks ids where w: "walk (\<lambda>b. bb_at ?v b = None) ?next [?x] (0, replicate (length ?v) False, replicate (length ?v) (- 1)) = Some (pid, marks, ids)"
      and n: "numbered ?next ?x {b. (edge ?next)\<^sup>*\<^sup>* ?x b} ids (reverse_order ?v pid ids)" and R: "{b. (edge ?next)\<^sup>*\<^sup>* ?x b} \<subseteq> ?R"
    using walk_numbered [of ?R ?next "\<lambda>b. bb_at ?v b = None" ?v ?x, OF closed at bb_at_nth [OF at] insertI1] by blast
  have "PdomGenPostOrderID d = Some (d\<lparr>pdomPostOrderIDVec := ids, pdomReversePostOrder := reverse_order ?v pid ids\<rparr>)"
    unfolding PdomGenPostOrderID_def PdomPostOrderWalk_def new w by simp
  moreover have "pnumbering (d\<lparr>pdomPostOrderIDVec := ids, pdomReversePostOrder := reverse_order ?v pid ids\<rparr>)"
    using n R unfolding edge_pred by (auto simp: pnumbering_def rreach_def)
  ultimately show ?thesis by blast
qed

text \<open>The visits of the two passes keep the contract of the loop.\<close>

lemma dom_chk_ids: "numbering d \<Longrightarrow> chk_ids (cfg_edge (bbVec d)) (commonEntryBB d) (reach (bbVec d) (commonEntryBB d)) (postOrderIDVec d)"
  using numbered_chk unfolding numbering_def edge_succ [symmetric] by blast

lemma pdom_chk_ids: "pnumbering d \<Longrightarrow> chk_ids (rev_edge (bbVec d)) (commonExitBB d) (rreach (bbVec d) (commonExitBB d)) (pdomPostOrderIDVec d)"
  using numbered_chk unfolding pnumbering_def edge_pred [symmetric] by blast

lemma numbered_order:
  assumes "numbered next r N ids order"
  shows "order = Some r # map Some (map the (tl order))" and "set (map the (tl order)) = N - {r}"
    and "map (\<lambda>b. ids ! b) (map the (tl order)) = rev [0..ids ! r - 1]"
proof -
  obtain bs where bs: "order = Some r # map Some bs" "set bs = N - {r}" "map (\<lambda>b. ids ! b) bs = rev [0..ids ! r - 1]"
    using assms unfolding numbered_def by blast
  then have "map the (tl order) = bs" by (simp add: comp_def)
  then show "order = Some r # map Some (map the (tl order))" "set (map the (tl order)) = N - {r}"
    "map (\<lambda>b. ids ! b) (map the (tl order)) = rev [0..ids ! r - 1]" using bs by simp_all
qed

lemma dom_idom_meets:
  assumes wf: "wf_Dominance d" and num: "numbering d"
    and inv: "chk.inv (cfg_edge (bbVec d)) (commonEntryBB d) (reach (bbVec d) (commonEntryBB d)) (\<lambda>b. postOrderIDVec d ! b) k dm"
    and b: "b \<in> reach (bbVec d) (commonEntryBB d)" "b \<noteq> commonEntryBB d" "postOrderIDVec d ! b = k"
  shows "\<exists>t. dom_idom d dm b = Some t \<and>
    chk.meets (cfg_edge (bbVec d)) (reach (bbVec d) (commonEntryBB d)) dm b t"
proof -
  let ?v = "bbVec d" and ?e = "commonEntryBB d" and ?x = "commonExitBB d"
  have n: "normal ?v ?e ?x b" using num b(1,2) by (auto simp: numbering_def)
  obtain bb where bb: "bb_at ?v b = Some bb" using n by (auto simp: normal_def)
  then have ps: "preds_of ?v b = pred bb" by (simp add: preds_of_def)
  obtain eb where eb: "bb_at ?v ?e = Some eb" using wf_cfgD(2) [OF wf] by blast
  have first: "CommonEntryBBIsPred d b \<longleftrightarrow> cfg_edge ?v ?e b"
    using eb by (simp add: CommonEntryBBIsPred_def cfg_edge_def succs_of_def)
  obtain q rest where q: "first_processed dm b (if CommonEntryBBIsPred d b \<or> pred bb = [] then ?e else hd (pred bb)) (tl (pred bb)) = (q, rest)"
    by fastforce
  have e: "?e \<notin> set (pred bb)" using wf_cfgD(9) [OF wf n, of ?e] ps by (auto simp: normal_def)
  have p: "cfg_edge ?v p b \<longleftrightarrow> p \<in> set (pred bb)" if "p \<noteq> ?e" for p using cfg_edge_into [OF wf n that] ps by simp
  show ?thesis
    using chk_ids.idom_meets(2) [OF dom_chk_ids [OF num] inv b first p e q] bb q by (simp add: dom_idom_def Let_def)
qed

lemma dom_chk_loop:
  assumes wf: "wf_Dominance d" and num: "numbering d"
  shows "chk_loop (cfg_edge (bbVec d)) (commonEntryBB d) (reach (bbVec d) (commonEntryBB d)) (\<lambda>b. postOrderIDVec d ! b)
    (dom_idom d) (map the (tl (reversePostOrder d)))"
proof -
  have n: "numbered (\<lambda>b. map_option succ (bb_at (bbVec d) b)) (commonEntryBB d) (reach (bbVec d) (commonEntryBB d))
     (postOrderIDVec d) (reversePostOrder d)" using num by (simp add: numbering_def)
  show ?thesis
    by (rule chk_loop.intro [OF chk_ids.axioms [OF dom_chk_ids [OF num]] chk_loop_axioms.intro])
      (rule numbered_order(2,3) [OF n] dom_idom_meets [OF wf num]; assumption)+
qed

lemma pdom_idom_meets:
  assumes wf: "wf_Dominance d" and exits: "exits_ok (bbVec d) (commonEntryBB d) (commonExitBB d)" and num: "pnumbering d"
    and inv: "chk.inv (rev_edge (bbVec d)) (commonExitBB d) (rreach (bbVec d) (commonExitBB d)) (\<lambda>b. pdomPostOrderIDVec d ! b) k dm"
    and b: "b \<in> rreach (bbVec d) (commonExitBB d)" "b \<noteq> commonExitBB d" "pdomPostOrderIDVec d ! b = k"
  shows "\<exists>t. pdom_idom d dm b = Some t \<and>
    chk.meets (rev_edge (bbVec d)) (rreach (bbVec d) (commonExitBB d)) dm b t"
proof -
  let ?v = "bbVec d" and ?e = "commonEntryBB d" and ?x = "commonExitBB d"
  have n: "normal ?v ?e ?x b" using num b(1,2) by (auto simp: pnumbering_def)
  obtain bb where bb: "bb_at ?v b = Some bb" using n by (auto simp: normal_def)
  then have ss: "succs_of ?v b = succ bb" by (simp add: succs_of_def)
  have "is_exit ?v b \<longleftrightarrow> b \<in> set (preds_of ?v ?x)"
    using exits n bb_at_less [of ?v b] bb unfolding exits_ok_def list_all_iff by simp
  then have first: "GetAttributes bb kBBAttrIsExit \<longleftrightarrow> rev_edge ?v ?x b" using bb by (simp add: is_exit_def rev_edge_def)
  obtain q rest where q: "first_processed dm b (if GetAttributes bb kBBAttrIsExit \<or> succ bb = [] then ?x else hd (succ bb)) (tl (succ bb)) = (q, rest)"
    by fastforce
  have x: "?x \<notin> set (succ bb)" using wf_cfgD(8) [OF wf n, of ?x] ss by (auto simp: normal_def)
  have p: "rev_edge ?v p b \<longleftrightarrow> p \<in> set (succ bb)" if "p \<noteq> ?x" for p using rev_edge_into [OF wf n that] ss by simp
  note m = chk_ids.idom_meets [OF pdom_chk_ids [OF num] inv b first p x q]
  obtain y where "dm q = Some y" using m(1) by blast
  then show ?thesis using m(2) bb q by (simp add: pdom_idom_def Let_def)
qed

lemma pdom_chk_loop:
  assumes wf: "wf_Dominance d" and exits: "exits_ok (bbVec d) (commonEntryBB d) (commonExitBB d)" and num: "pnumbering d"
  shows "chk_loop (rev_edge (bbVec d)) (commonExitBB d) (rreach (bbVec d) (commonExitBB d)) (\<lambda>b. pdomPostOrderIDVec d ! b)
    (pdom_idom d) (map the (tl (pdomReversePostOrder d)))"
proof -
  have n: "numbered (\<lambda>b. map_option pred (bb_at (bbVec d) b)) (commonExitBB d) (rreach (bbVec d) (commonExitBB d))
     (pdomPostOrderIDVec d) (pdomReversePostOrder d)" using num by (simp add: pnumbering_def)
  show ?thesis
    by (rule chk_loop.intro [OF chk_ids.axioms [OF pdom_chk_ids [OF num]] chk_loop_axioms.intro])
      (rule numbered_order(2,3) [OF n] pdom_idom_meets [OF wf exits num]; assumption)+
qed

text \<open>A loop whose parents end as the tree of dominators of a relation.\<close>

definition dominator_tree :: "(nat \<Rightarrow> nat \<Rightarrow> bool) \<Rightarrow> nat \<Rightarrow> parents \<Rightarrow> bool" where
  "dominator_tree E r dm \<longleftrightarrow> dm r = Some r \<and>
     (\<forall>x. dm x \<noteq> None \<longleftrightarrow> E\<^sup>*\<^sup>* r x) \<and> (\<forall>x y. dm x = Some y \<longrightarrow> dm y \<noteq> None) \<and>
     (\<forall>x. E\<^sup>*\<^sup>* r x \<longrightarrow> (\<forall>z. anc dm x z \<longleftrightarrow> dominates E r z x))"

lemma ComputeDominance_tree:
  assumes wf: "wf_Dominance d" and num: "numbering d" and new: "doms d = Map.empty"
  shows "\<exists>dm. ComputeDominance d = Some (d\<lparr>doms := dm\<rparr>) \<and> dominator_tree (cfg_edge (bbVec d)) (commonEntryBB d) dm"
proof -
  note loop = dom_chk_loop [OF wf num]
  have n: "numbered (\<lambda>b. map_option succ (bb_at (bbVec d) b)) (commonEntryBB d) (reach (bbVec d) (commonEntryBB d))
     (postOrderIDVec d) (reversePostOrder d)" using num by (simp add: numbering_def)
  have tl: "tl (reversePostOrder d) = map Some (map the (tl (reversePostOrder d)))"
    using numbered_order(1) [OF n] by (metis list.sel(3))
  obtain dm where dm: "dom_loop (dom_idom d) (map Some (map the (tl (reversePostOrder d)))) (Map.empty(commonEntryBB d \<mapsto> commonEntryBB d)) = Some dm"
      and t: "chk.tree (commonEntryBB d) (reach (bbVec d) (commonEntryBB d)) (\<lambda>b. postOrderIDVec d ! b) dm"
      and r: "\<forall>x. dm x \<noteq> None \<longleftrightarrow> x \<in> reach (bbVec d) (commonEntryBB d)"
      and a: "\<forall>x\<in>reach (bbVec d) (commonEntryBB d). \<forall>z. anc dm x z \<longleftrightarrow> dominates (cfg_edge (bbVec d)) (commonEntryBB d) z x"
    using chk_loop.dom_loop_ends [OF loop] by blast
  note tD = chk.treeD [OF chk_loop.axioms(1) [OF loop] t]
  have "ComputeDominance d = Some (d\<lparr>doms := dm\<rparr>)"
    unfolding ComputeDominance_def new using dm tl by simp
  moreover have "dominator_tree (cfg_edge (bbVec d)) (commonEntryBB d) dm"
    using tD(1,4) r a by (simp add: dominator_tree_def reach_def)
  ultimately show ?thesis by blast
qed

lemma ComputePostDominance_tree:
  assumes wf: "wf_Dominance d" and exits: "exits_ok (bbVec d) (commonEntryBB d) (commonExitBB d)" and num: "pnumbering d"
    and new: "pdoms d = Map.empty"
  shows "\<exists>dm. ComputePostDominance d = Some (d\<lparr>pdoms := dm\<rparr>) \<and> dominator_tree (rev_edge (bbVec d)) (commonExitBB d) dm"
proof -
  note loop = pdom_chk_loop [OF wf exits num]
  have n: "numbered (\<lambda>b. map_option pred (bb_at (bbVec d) b)) (commonExitBB d) (rreach (bbVec d) (commonExitBB d))
     (pdomPostOrderIDVec d) (pdomReversePostOrder d)" using num by (simp add: pnumbering_def)
  have tl: "tl (pdomReversePostOrder d) = map Some (map the (tl (pdomReversePostOrder d)))"
    using numbered_order(1) [OF n] by (metis list.sel(3))
  obtain dm where dm: "dom_loop (pdom_idom d) (map Some (map the (tl (pdomReversePostOrder d)))) (Map.empty(commonExitBB d \<mapsto> commonExitBB d)) = Some dm"
      and t: "chk.tree (commonExitBB d) (rreach (bbVec d) (commonExitBB d)) (\<lambda>b. pdomPostOrderIDVec d ! b) dm"
      and r: "\<forall>x. dm x \<noteq> None \<longleftrightarrow> x \<in> rreach (bbVec d) (commonExitBB d)"
      and a: "\<forall>x\<in>rreach (bbVec d) (commonExitBB d). \<forall>z. anc dm x z \<longleftrightarrow> dominates (rev_edge (bbVec d)) (commonExitBB d) z x"
    using chk_loop.dom_loop_ends [OF loop] by blast
  note tD = chk.treeD [OF chk_loop.axioms(1) [OF loop] t]
  have "ComputePostDominance d = Some (d\<lparr>pdoms := dm\<rparr>)"
    unfolding ComputePostDominance_def new using dm tl by simp
  moreover have "dominator_tree (rev_edge (bbVec d)) (commonExitBB d) dm"
    using tD(1,4) r a by (simp add: dominator_tree_def rreach_def)
  ultimately show ?thesis by blast
qed

section \<open>The contract of the loop on flow graphs\<close>

lemma new_Dominance_fields [simp]:
  "bbVec (new_Dominance v e x) = v" "commonEntryBB (new_Dominance v e x) = e" "commonExitBB (new_Dominance v e x) = x"
  "postOrderIDVec (new_Dominance v e x) = replicate (length v) (- 1)" "pdomPostOrderIDVec (new_Dominance v e x) = replicate (length v) (- 1)"
  "doms (new_Dominance v e x) = Map.empty" "pdoms (new_Dominance v e x) = Map.empty"
  by (simp_all add: new_Dominance_def Let_def)

typedef FlowGraph = "{(v, entry, exit). wf_cfg v entry exit \<and> exits_ok v entry exit}"
proof
  let ?b = new_MeBB
  show "([Some ?b, Some ?b], 0, 1) \<in> {(v, entry, exit). wf_cfg v entry exit \<and> exits_ok v entry exit}"
    by (simp add: wf_cfg_def exits_ok_def normal_def bb_at_def succs_of_def preds_of_def new_MeBB_def)
qed

definition graph_dominance :: "FlowGraph \<Rightarrow> Dominance" where
  "graph_dominance g = (case Rep_FlowGraph g of (v, entry, exit) \<Rightarrow> the (Option.bind (GenPostOrderID (new_Dominance v entry exit)) PdomGenPostOrderID))"

lemma graph_dominance:
  shows "wf_Dominance (graph_dominance g)" and "exits_ok (bbVec (graph_dominance g)) (commonEntryBB (graph_dominance g)) (commonExitBB (graph_dominance g))"
    and "numbering (graph_dominance g)" and "pnumbering (graph_dominance g)"
proof -
  obtain v e x where g: "Rep_FlowGraph g = (v, e, x)" by (cases "Rep_FlowGraph g")
  then have wf: "wf_cfg v e x" and ex: "exits_ok v e x" using Rep_FlowGraph [of g] by simp_all
  let ?d = "new_Dominance v e x"
  have w: "wf_Dominance ?d" "postOrderIDVec ?d = replicate (length (bbVec ?d)) (- 1)" using wf by simp_all
  obtain ids order where d: "GenPostOrderID ?d = Some (?d\<lparr>postOrderIDVec := ids, reversePostOrder := order\<rparr>)"
      and n: "numbering (?d\<lparr>postOrderIDVec := ids, reversePostOrder := order\<rparr>)" using GenPostOrderID_numbering [OF w] by blast
  let ?d1 = "?d\<lparr>postOrderIDVec := ids, reversePostOrder := order\<rparr>"
  have w1: "wf_Dominance ?d1" "pdomPostOrderIDVec ?d1 = replicate (length (bbVec ?d1)) (- 1)" using wf by simp_all
  obtain ids' order' where d': "PdomGenPostOrderID ?d1 = Some (?d1\<lparr>pdomPostOrderIDVec := ids', pdomReversePostOrder := order'\<rparr>)"
      and n': "pnumbering (?d1\<lparr>pdomPostOrderIDVec := ids', pdomReversePostOrder := order'\<rparr>)" using PdomGenPostOrderID_numbering [OF w1] by blast
  let ?d2 = "?d1\<lparr>pdomPostOrderIDVec := ids', pdomReversePostOrder := order'\<rparr>"
  have gd: "graph_dominance g = ?d2" using g d d' by (simp add: graph_dominance_def)
  show "wf_Dominance (graph_dominance g)" unfolding gd using w1(1) by simp
  show "exits_ok (bbVec (graph_dominance g)) (commonEntryBB (graph_dominance g)) (commonExitBB (graph_dominance g))"
    unfolding gd using ex by simp
  show "numbering (graph_dominance g)" unfolding gd using n by (simp add: numbering_def)
  show "pnumbering (graph_dominance g)" unfolding gd by (rule n')
qed

interpretation fwd: chk_loop "cfg_edge (bbVec (graph_dominance g))" "commonEntryBB (graph_dominance g)"
  "reach (bbVec (graph_dominance g)) (commonEntryBB (graph_dominance g))" "\<lambda>b. postOrderIDVec (graph_dominance g) ! b"
  "dom_idom (graph_dominance g)" "map the (tl (reversePostOrder (graph_dominance g)))" for g
  by (rule dom_chk_loop) (rule graph_dominance)+

interpretation fwd_ids: chk_ids "cfg_edge (bbVec (graph_dominance g))" "commonEntryBB (graph_dominance g)"
  "reach (bbVec (graph_dominance g)) (commonEntryBB (graph_dominance g))" "postOrderIDVec (graph_dominance g)" for g
  by (rule dom_chk_ids) (rule graph_dominance)

interpretation bwd: chk_loop "rev_edge (bbVec (graph_dominance g))" "commonExitBB (graph_dominance g)"
  "rreach (bbVec (graph_dominance g)) (commonExitBB (graph_dominance g))" "\<lambda>b. pdomPostOrderIDVec (graph_dominance g) ! b"
  "pdom_idom (graph_dominance g)" "map the (tl (pdomReversePostOrder (graph_dominance g)))" for g
  by (rule pdom_chk_loop) (rule graph_dominance)+

interpretation bwd_ids: chk_ids "rev_edge (bbVec (graph_dominance g))" "commonExitBB (graph_dominance g)"
  "rreach (bbVec (graph_dominance g)) (commonExitBB (graph_dominance g))" "pdomPostOrderIDVec (graph_dominance g)" for g
  by (rule pdom_chk_ids) (rule graph_dominance)

section \<open>Queries\<close>

lemma dominator_treeD:
  assumes "dominator_tree E r dm"
  shows "dm r = Some r" "dm x \<noteq> None \<longleftrightarrow> E\<^sup>*\<^sup>* r x" "dm x = Some y \<Longrightarrow> dm y \<noteq> None" "E\<^sup>*\<^sup>* r x \<Longrightarrow> anc dm x z \<longleftrightarrow> dominates E r z x"
  using assms unfolding dominator_tree_def by blast+

lemma tree_root_only: "dm r = Some r \<Longrightarrow> anc dm r z \<longleftrightarrow> z = r"
proof
  assume r: "dm r = Some r"
  show "anc dm r z \<Longrightarrow> z = r" unfolding anc_def by (induction rule: rtranclp_induct) (simp_all add: r)
qed simp

lemma find_up_spec:
  assumes "anc dm x r" and r: "dm r = Some r"
  shows "find_up dm r b x = Some (\<exists>y. dm x = Some y \<and> anc dm y b)"
  using assms(1) unfolding anc_def [of dm, THEN fun_cong, THEN fun_cong, of x r]
proof (induction rule: converse_rtranclp_induct)
  case base
  show ?case using r tree_root_only [of dm r b, OF r] by (auto simp: find_up.simps [of dm r b r])
next
  case (step x y)
  consider "y = b" | "y \<noteq> b" "y = r" | "y \<noteq> b" "y \<noteq> r" by blast
  then show ?case
  proof cases
    case 3
    then have "find_up dm r b x = find_up dm r b y" using step.hyps(1) by (simp add: find_up.simps [of dm r b x])
    then show ?thesis using step.IH step.hyps(1) 3(1) anc_cases [of dm y b] anc_unfold [of dm y _ b] by auto
  qed (use step.hyps(1) tree_root_only [of dm r b, OF r] in \<open>simp_all add: find_up.simps [of dm r b x]\<close>)
qed

lemma tree_query:
  assumes t: "dominator_tree E r dm"
  shows "(if a = b then Some True else if dm b = None then Some False else find_up dm r a b) =
    Some (a = b \<or> E\<^sup>*\<^sup>* r b \<and> dominates E r a b)"
proof (cases "dm b = None")
  case False
  then have b: "E\<^sup>*\<^sup>* r b" using dominator_treeD(2) [OF t] by simp
  have "anc dm b r" unfolding dominator_treeD(4) [OF t b] by (simp add: dominates_def)
  then have "find_up dm r a b = Some (\<exists>y. dm b = Some y \<and> anc dm y a)" using find_up_spec [of dm b r a] dominator_treeD(1) [OF t] by blast
  moreover have "anc dm b a \<longleftrightarrow> a = b \<or> (\<exists>y. dm b = Some y \<and> anc dm y a)"
    using False anc_unfold [of dm b _ a] by auto
  ultimately show ?thesis using dominator_treeD(4) [OF t b, of a] b False by auto
qed (use dominator_treeD(2) [OF t, of b] in auto)

text \<open>The parent of a block is its nearest strict dominator.\<close>

lemma tree_idom:
  assumes t: "dominator_tree E r dm" and b: "E\<^sup>*\<^sup>* r b" "b \<noteq> r"
  shows "\<exists>p. dm b = Some p \<and> p \<noteq> b \<and> dominates E r p b \<and> (\<forall>z. z \<noteq> b \<longrightarrow> dominates E r z b \<longrightarrow> dominates E r z p)"
proof -
  obtain p where p: "dm b = Some p" using dominator_treeD(2) [OF t] b(1) by blast
  have pr: "E\<^sup>*\<^sup>* r p" using dominator_treeD(2,3) [OF t] p by blast
  have up: "dominates E r z b \<longleftrightarrow> z = b \<or> dominates E r z p" for z
    using anc_unfold [of dm b p z] dominator_treeD(4) [OF t b(1), of z] dominator_treeD(4) [OF t pr, of z] p by blast
  have "p \<noteq> b"
  proof
    assume "p = b"
    then have "anc dm b z \<longleftrightarrow> z = b" for z using tree_root_only [of dm b z] p by simp
    then have "dominates E r z b \<longleftrightarrow> z = b" for z using dominator_treeD(4) [OF t b(1), of z] by simp
    from this [of r] show False using b(2) by (simp add: dominates_def)
  qed
  moreover have "dominates E r p p" using dominator_treeD(4) [OF t pr, of p] by simp
  ultimately show ?thesis using p up by blast
qed

end
