(* ===== verification/DomFrontier.thy ===== *)
theory DomFrontier
  imports DomResult
begin

text \<open>
  What \<^verbatim>\<open>ComputeDomFrontiers\<close>, \<^verbatim>\<open>ComputeIterDomFrontiers\<close>, \<^verbatim>\<open>ComputeDomChildren\<close> and
  \<^verbatim>\<open>ComputeDtPreorder\<close> make of a dominator tree, and the same for post-dominators.
\<close>

section \<open>Walks up the tree\<close>

lemma tree_above:
  assumes "dominator_tree E r dm" and "E\<^sup>*\<^sup>* r x"
  shows "anc dm x r"
  using dominator_treeD(4) [OF assms, of r] by (simp add: dominates_def)

lemma anc_antisym_up:
  assumes "anc dm x r" and r: "dm r = Some r"
  shows "anc dm x y \<Longrightarrow> anc dm y x \<Longrightarrow> x = y"
  using assms(1) unfolding anc_def [of dm, THEN fun_cong, THEN fun_cong, of x r]
proof (induction arbitrary: y rule: converse_rtranclp_induct)
  case base
  then show ?case using tree_root_only [of dm r y, OF r] by simp
next
  case (step x x')
  show ?case
  proof (rule ccontr)
    assume "x \<noteq> y"
    then have "anc dm x' y" using step.prems(1) anc_unfold [of dm x x' y] step.hyps(1) by simp
    moreover have yx': "anc dm y x'" using anc_trans [OF step.prems(2) anc_parent] step.hyps(1) by blast
    ultimately have "x' = y" by (rule step.IH)
    then have "anc dm x' x" using step.prems(2) by simp
    then have "x' = x" by (rule step.IH) (rule anc_parent, rule step.hyps(1))
    then show False using \<open>x \<noteq> y\<close> \<open>x' = y\<close> by simp
  qed
qed

lemma tree_antisym:
  assumes "dominator_tree E r dm" and "E\<^sup>*\<^sup>* r x" and "anc dm x y" and "anc dm y x"
  shows "x = y"
  using anc_antisym_up [OF tree_above [OF assms(1,2)] dominator_treeD(1) [OF assms(1)] assms(3,4)] .

lemma tree_anc_reach:
  assumes t: "dominator_tree E r dm" and x: "E\<^sup>*\<^sup>* r x" and a: "anc dm x y"
  shows "E\<^sup>*\<^sup>* r y"
  using a x unfolding anc_def
proof (induction rule: rtranclp_induct)
  case (step y z)
  then show ?case using dominator_treeD(2,3) [OF t] by blast
qed simp

text \<open>Strict dominators are the dominators of the parent.\<close>

lemma tree_strict:
  assumes t: "dominator_tree E r dm" and b: "E\<^sup>*\<^sup>* r b" "b \<noteq> r" and p: "dm b = Some p"
  shows "anc dm p z \<longleftrightarrow> z \<noteq> b \<and> dominates E r z b"
proof -
  have "\<not> anc dm p b"
  proof
    assume "anc dm p b"
    then have "b = p" using tree_antisym [OF t b(1)] anc_parent [of dm b p] p by blast
    then have "anc dm b r \<longleftrightarrow> r = b" using tree_root_only [of dm b r] p by simp
    then show False using tree_above [OF t b(1)] b(2) by simp
  qed
  then show ?thesis using anc_unfold [of dm b p z] p dominator_treeD(4) [OF t b(1), of z] by blast
qed

text \<open>Inserting a block into the lists of a set of blocks.\<close>

definition add_to :: "nat set \<Rightarrow> nat \<Rightarrow> nat list list \<Rightarrow> nat list list" where
  "add_to S b fr = map (\<lambda>x. if x \<in> S then insort_insert b (fr ! x) else fr ! x) [0..<length fr]"

lemma add_to_length [simp]: "length (add_to S b fr) = length fr"
  by (simp add: add_to_def)

lemma add_to_nth: "x < length fr \<Longrightarrow> add_to S b fr ! x = (if x \<in> S then insort_insert b (fr ! x) else fr ! x)"
  by (simp add: add_to_def)

lemma add_to_empty: "add_to {} b fr = fr"
  by (simp add: add_to_def map_nth)

lemma insort_insert_twice: "insort_insert b (insort_insert b xs) = insort_insert (b :: nat) xs"
  by (simp add: insort_insert_triv set_insort_insert)

lemma add_to_add_to: "add_to S b (add_to T b fr) = add_to (S \<union> T) b fr"
  by (rule nth_equalityI) (simp_all add: add_to_nth insort_insert_twice)

lemma add_to_one: "x < length fr \<Longrightarrow> fr[x := insort_insert b (fr ! x)] = add_to {x} b fr"
  by (rule nth_equalityI) (simp_all add: add_to_nth nth_list_update)

text \<open>The run from one neighbour.\<close>

definition run_set :: "parents \<Rightarrow> nat \<Rightarrow> nat \<Rightarrow> nat set" where
  "run_set dm bb p = (case dm bb of None \<Rightarrow> {p} | Some t \<Rightarrow> {x. anc dm p x \<and> \<not> anc dm t x})"

lemma run_up_tree:
  assumes "anc dm p t" and bb: "dm bb = Some t" and anti: "\<And>x y. anc dm p x \<Longrightarrow> anc dm x y \<Longrightarrow> anc dm y x \<Longrightarrow> x = y"
    and e: "\<And>x. anc dm p x \<Longrightarrow> \<not> anc dm t x \<Longrightarrow> x \<noteq> e" and len: "\<And>x. anc dm p x \<Longrightarrow> x < length fr"
  shows "run_up dm e bb (Some p) fr = Some (add_to {x. anc dm p x \<and> \<not> anc dm t x} bb fr)"
  using assms(1) anti e len unfolding anc_def [of dm, THEN fun_cong, THEN fun_cong, of p t]
proof (induction arbitrary: fr rule: converse_rtranclp_induct)
  case base
  have "{x. anc dm t x \<and> \<not> anc dm t x} = {}" by simp
  then show ?case using bb by (simp add: run_up.simps [of dm e bb "Some t"] add_to_empty)
next
  case (step p y)
  have py: "anc dm p x \<longleftrightarrow> x = p \<or> anc dm y x" for x using step.hyps(1) by (rule anc_unfold)
  have pt: "anc dm p t" using step.hyps py by (simp add: anc_def)
  show ?case
  proof (cases "p = t")
    case True
    have "{x. anc dm t x \<and> \<not> anc dm t x} = {}" by simp
    then show ?thesis using bb True by (simp add: run_up.simps [of dm e bb "Some t"] add_to_empty)
  next
    case False
    have "\<not> anc dm t p" using step.prems(1) [of p t] pt False by auto
    moreover from this have "p \<noteq> e" using step.prems(2) by simp
    moreover have "p < length fr" using step.prems(3) by simp
    moreover have "run_up dm e bb (Some y) (add_to {p} bb fr) = Some (add_to {x. anc dm y x \<and> \<not> anc dm t x} bb (add_to {p} bb fr))"
    proof (rule step.IH)
      have up: "anc dm y x \<Longrightarrow> anc dm p x" for x using py by simp
      show "x = z" if "anc dm y x" "anc dm x z" "anc dm z x" for x z by (rule step.prems(1) [OF up [OF that(1)] that(2,3)])
      show "x \<noteq> e" if "anc dm y x" "\<not> anc dm t x" for x by (rule step.prems(2) [OF up [OF that(1)] that(2)])
      show "x < length (add_to {p} bb fr)" if "anc dm y x" for x using step.prems(3) [OF up [OF that]] by simp
    qed
    moreover have "{x. anc dm y x \<and> \<not> anc dm t x} \<union> {p} = {x. anc dm p x \<and> \<not> anc dm t x}"
      using \<open>\<not> anc dm t p\<close> py by blast
    ultimately show ?thesis
      using bb False step.hyps(1) by (simp add: run_up.simps [of dm e bb "Some p"] add_to_one add_to_add_to)
  qed
qed

lemma run_up_null:
  assumes p: "dm p = None" "p \<noteq> e" "p < length fr" and bb: "dm bb \<noteq> Some p"
  shows "run_up dm e bb (Some p) fr = (if dm bb = None then Some (add_to {p} bb fr) else None)"
proof -
  have "run_up dm e bb None fr = (if dm bb = None then Some fr else None)" for fr
    by (auto simp: run_up.simps [of dm e bb None])
  then show ?thesis using p bb by (auto simp: run_up.simps [of dm e bb "Some p"] add_to_one)
qed

section \<open>The frontiers\<close>

text \<open>
  A tree inside a vector of blocks: the neighbours \<open>nb\<close> of a block that is in the tree may
  be outside, the one neighbour of a block that is not in the tree are not in it either.
\<close>

definition frontier_ok :: "(nat \<Rightarrow> nat \<Rightarrow> bool) \<Rightarrow> nat \<Rightarrow> parents \<Rightarrow> nat \<Rightarrow> nat \<Rightarrow> nat \<Rightarrow> (nat \<Rightarrow> nat list) \<Rightarrow> bool" where
  "frontier_ok E r dm e other n nb \<longleftrightarrow> dominator_tree E r dm \<and> (\<forall>x. dm x \<noteq> None \<longrightarrow> x < n) \<and> nb r = [] \<and>
     (\<forall>b. b \<noteq> other \<longrightarrow> (\<forall>p\<in>set (nb b). E p b \<and> p < n \<and> (dm p = None \<longrightarrow> p \<noteq> e))) \<and> (e = r \<or> dm e = None)"

lemma frontier_okD:
  assumes "frontier_ok E r dm e other n nb"
  shows "dominator_tree E r dm" "dm x \<noteq> None \<Longrightarrow> x < n" "nb r = []"
    "b \<noteq> other \<Longrightarrow> p \<in> set (nb b) \<Longrightarrow> E p b" "b \<noteq> other \<Longrightarrow> p \<in> set (nb b) \<Longrightarrow> p < n" "b \<noteq> other \<Longrightarrow> p \<in> set (nb b) \<Longrightarrow> dm p = None \<Longrightarrow> p \<noteq> e" "e = r \<or> dm e = None"
proof -
  have w: "dominator_tree E r dm" "\<forall>x. dm x \<noteq> None \<longrightarrow> x < n" "nb r = []"
      "\<forall>b. b \<noteq> other \<longrightarrow> (\<forall>p\<in>set (nb b). E p b \<and> p < n \<and> (dm p = None \<longrightarrow> p \<noteq> e))" "e = r \<or> dm e = None"
    using assms unfolding frontier_ok_def by - (elim conjE, assumption)+
  show "dominator_tree E r dm" "nb r = []" "e = r \<or> dm e = None" by (rule w)+
  show "dm x \<noteq> None \<Longrightarrow> x < n" using w(2) by blast
  show "b \<noteq> other \<Longrightarrow> p \<in> set (nb b) \<Longrightarrow> E p b" "b \<noteq> other \<Longrightarrow> p \<in> set (nb b) \<Longrightarrow> p < n" "b \<noteq> other \<Longrightarrow> p \<in> set (nb b) \<Longrightarrow> dm p = None \<Longrightarrow> p \<noteq> e"
    using w(4) by simp_all
qed

lemma dominates_before: "dominates E r z b \<Longrightarrow> E p b \<Longrightarrow> z \<noteq> b \<Longrightarrow> dominates E r z p"
  unfolding dominates_def using avoid_step [of E "{z}" r p b] by auto

lemma run_up_spec:
  assumes ok: "frontier_ok E r dm e other n nb" and b: "b \<noteq> other" and p: "p \<in> set (nb b)" and len: "length fr = n"
  shows "run_up dm e b (Some p) fr = (if dm b \<noteq> None \<and> dm p = None then None else Some (add_to (run_set dm b p) b fr))"
proof (cases "dm p")
  case None
  note t = frontier_okD(1) [OF ok]
  have "dm b \<noteq> Some p" using dominator_treeD(3) [OF t, of b p] None by auto
  then show ?thesis
    using run_up_null [of dm p e fr b] None frontier_okD(5,6) [OF ok b p] len by (simp add: run_set_def)
next
  case (Some q)
  note t = frontier_okD(1) [OF ok]
  have pr: "E\<^sup>*\<^sup>* r p" using dominator_treeD(2) [OF t] Some by blast
  then have br: "E\<^sup>*\<^sup>* r b" using frontier_okD(4) [OF ok b p] by (rule rtranclp.rtrancl_into_rtrancl)
  have "b \<noteq> r" using frontier_okD(3) [OF ok] p by auto
  obtain u where u: "dm b = Some u" using dominator_treeD(2) [OF t] br by blast
  have up: "E\<^sup>*\<^sup>* r x" if "anc dm p x" for x using tree_anc_reach [OF t pr that] .
  have "dominates E r u b \<and> u \<noteq> b" using tree_strict [OF t br \<open>b \<noteq> r\<close> u, of u] by simp
  then have "dominates E r u p" using dominates_before [of E r u b p] frontier_okD(4) [OF ok b p] by blast
  then have pu: "anc dm p u" using dominator_treeD(4) [OF t pr] by simp
  have "run_up dm e b (Some p) fr = Some (add_to {x. anc dm p x \<and> \<not> anc dm u x} b fr)"
  proof (rule run_up_tree [OF pu u])
    show "x = y" if "anc dm p x" "anc dm x y" "anc dm y x" for x y by (rule tree_antisym [OF t up [OF that(1)] that(2,3)])
    show "x \<noteq> e" if x: "anc dm p x" "\<not> anc dm u x" for x
    proof
      assume xe: "x = e"
      have "dm x \<noteq> None" using dominator_treeD(2) [OF t] up [OF x(1)] by blast
      then have "x = r" using frontier_okD(7) [OF ok] xe by auto
      then show False using tree_above [OF t up [OF pu]] x(2) by blast
    qed
    show "x < length fr" if "anc dm p x" for x
      using frontier_okD(2) [OF ok, of x] dominator_treeD(2) [OF t, of x] up [OF that] len by simp
  qed
  then show ?thesis using Some u by (simp add: run_set_def)
qed

lemma run_all_spec:
  assumes ok: "frontier_ok E r dm e other n nb" and len: "length fr = n" and b: "b \<noteq> other" and ps: "set ps \<subseteq> set (nb b)"
  shows "run_all dm e b ps fr = (if dm b \<noteq> None \<and> (\<exists>p\<in>set ps. dm p = None) then None
    else Some (add_to (\<Union>p\<in>set ps. run_set dm b p) b fr))"
  using len ps
proof (induction ps arbitrary: fr)
  case (Cons p ps)
  have p: "p \<in> set (nb b)" using Cons.prems(2) by simp
  show ?case
  proof (cases "dm b \<noteq> None \<and> dm p = None")
    case True
    then show ?thesis using run_up_spec [OF ok b p Cons.prems(1)] by simp
  next
    case False
    then have "run_up dm e b (Some p) fr = Some (add_to (run_set dm b p) b fr)" using run_up_spec [OF ok b p Cons.prems(1)] by auto
    then have "run_all dm e b (p # ps) fr = run_all dm e b ps (add_to (run_set dm b p) b fr)" by simp
    then show ?thesis using Cons.IH [of "add_to (run_set dm b p) b fr"] Cons.prems False by (auto simp: add_to_add_to Un_commute)
  qed
qed (simp add: add_to_empty)

text \<open>The blocks whose frontier entries the loop makes, and the entries.\<close>

definition joins :: "(nat \<Rightarrow> nat list) \<Rightarrow> nat \<Rightarrow> nat \<Rightarrow> bool" where
  "joins nb other b \<longleftrightarrow> b \<noteq> other \<and> kBBVectorInitialSize \<le> length (nb b)"

definition in_frontier :: "parents \<Rightarrow> (nat \<Rightarrow> nat list) \<Rightarrow> nat \<Rightarrow> nat \<Rightarrow> nat \<Rightarrow> bool" where
  "in_frontier dm nb other x b \<longleftrightarrow> joins nb other b \<and> (\<exists>p\<in>set (nb b). x \<in> run_set dm b p)"

definition falls :: "parents \<Rightarrow> (nat \<Rightarrow> nat list) \<Rightarrow> nat \<Rightarrow> nat \<Rightarrow> bool" where
  "falls dm nb other b \<longleftrightarrow> joins nb other b \<and> dm b \<noteq> None \<and> (\<exists>p\<in>set (nb b). dm p = None)"

definition nb_of :: "(MeBB \<Rightarrow> BBId list) \<Rightarrow> MeBB option list \<Rightarrow> BBId \<Rightarrow> BBId list" where
  "nb_of next v b = (case bb_at v b of None \<Rightarrow> [] | Some bb \<Rightarrow> next bb)"

definition entries_from :: "parents \<Rightarrow> (nat \<Rightarrow> nat list) \<Rightarrow> nat \<Rightarrow> nat \<Rightarrow> nat \<Rightarrow> nat list list \<Rightarrow> nat list list option \<Rightarrow> bool" where
  "entries_from dm nb other n i fr res \<longleftrightarrow>
     (case res of
        None \<Rightarrow> \<exists>b\<ge>i. falls dm nb other b
      | Some fr' \<Rightarrow> (\<forall>b\<ge>i. \<not> falls dm nb other b) \<and> length fr' = n \<and>
          (\<forall>x<n. set (fr' ! x) = set (fr ! x) \<union> {b. i \<le> b \<and> in_frontier dm nb other x b} \<and>
             (sorted (fr ! x) \<and> distinct (fr ! x) \<longrightarrow> sorted (fr' ! x) \<and> distinct (fr' ! x))))"

lemma entries_step:
  assumes "\<not> falls dm nb other i" and fr: "\<forall>x<n. set (fr1 ! x) = set (fr ! x) \<union> {b. b = i \<and> in_frontier dm nb other x b} \<and>
      (sorted (fr ! x) \<and> distinct (fr ! x) \<longrightarrow> sorted (fr1 ! x) \<and> distinct (fr1 ! x))"
    and r: "entries_from dm nb other n (Suc i) fr1 res"
  shows "entries_from dm nb other n i fr res"
proof (cases res)
  case None
  then obtain b where "Suc i \<le> b" "falls dm nb other b" using r by (auto simp: entries_from_def)
  then have "i \<le> b \<and> falls dm nb other b" by simp
  then show ?thesis unfolding entries_from_def None option.case by (rule exI)
next
  case (Some fr')
  have ge: "i \<le> b \<longleftrightarrow> b = i \<or> Suc i \<le> b" for b by auto
  have r': "\<forall>b\<ge>Suc i. \<not> falls dm nb other b" "length fr' = n" using r Some by (simp_all add: entries_from_def)
  have "set (fr' ! x) = set (fr ! x) \<union> {b. i \<le> b \<and> in_frontier dm nb other x b} \<and>
      (sorted (fr ! x) \<and> distinct (fr ! x) \<longrightarrow> sorted (fr' ! x) \<and> distinct (fr' ! x))" if x: "x < n" for x
  proof -
    have a: "set (fr' ! x) = set (fr1 ! x) \<union> {b. Suc i \<le> b \<and> in_frontier dm nb other x b}"
        "sorted (fr1 ! x) \<and> distinct (fr1 ! x) \<longrightarrow> sorted (fr' ! x) \<and> distinct (fr' ! x)"
      using r x unfolding Some entries_from_def option.case by blast+
    have b: "set (fr1 ! x) = set (fr ! x) \<union> {b. b = i \<and> in_frontier dm nb other x b}"
        "sorted (fr ! x) \<and> distinct (fr ! x) \<longrightarrow> sorted (fr1 ! x) \<and> distinct (fr1 ! x)" using fr x by blast+
    show ?thesis
    proof
      show "set (fr' ! x) = set (fr ! x) \<union> {b. i \<le> b \<and> in_frontier dm nb other x b}" unfolding a(1) b(1) by (auto simp: ge)
    qed (use a(2) b(2) in blast)
  qed
  moreover have "\<not> falls dm nb other b" if "i \<le> b" for b using r'(1) assms(1) that ge [of b] by auto
  ultimately show ?thesis using Some r'(2) by (simp add: entries_from_def)
qed

lemma frontiers_from_spec:
  assumes ok: "frontier_ok E r dm e other n (nb_of next v)"
  shows "drop i v = w \<Longrightarrow> length fr = n \<Longrightarrow> entries_from dm (nb_of next v) other n i fr (frontiers_from dm next e other i w fr)"
proof (induction w arbitrary: i fr)
  case Nil
  then have "bb_at v b = None" if "i \<le> b" for b using that by (simp add: bb_at_def)
  then have "\<not> joins (nb_of next v) other b" if "i \<le> b" for b
    using that by (simp add: joins_def nb_of_def kBBVectorInitialSize_def)
  then show ?case using Nil by (auto simp: falls_def in_frontier_def entries_from_def)
next
  case (Cons bo w)
  have "i < length v" using Cons.prems(1) by (metis drop_eq_Nil linorder_not_le list.discI)
  then have i: "i < length v" "v ! i = bo" "drop (Suc i) v = w" using Cons.prems(1) by (simp_all add: Cons_nth_drop_Suc [symmetric])
  have at: "bb_at v i = bo" using i by (simp add: bb_at_def)
  let ?nb = "nb_of next v"
  show ?case
  proof (cases "joins ?nb other i")
    case False
    then have "frontiers_from dm next e other i (bo # w) fr = frontiers_from dm next e other (Suc i) w fr"
      using at by (cases bo) (auto simp: joins_def nb_of_def)
    moreover have "{b. b = i \<and> in_frontier dm ?nb other x b} = {}" for x using False by (auto simp: in_frontier_def)
    moreover have "\<not> falls dm ?nb other i" using False by (simp add: falls_def)
    ultimately show ?thesis using entries_step [OF _ _ Cons.IH [OF i(3) Cons.prems(2)], of fr] by auto
  next
    case True
    obtain bb where bb: "bo = Some bb" using True at by (cases bo) (auto simp: joins_def nb_of_def kBBVectorInitialSize_def)
    then have nb: "?nb i = next bb" using at by (simp add: nb_of_def)
    have step: "frontiers_from dm next e other i (bo # w) fr =
        Option.bind (run_all dm e i (?nb i) fr) (frontiers_from dm next e other (Suc i) w)"
      using True bb nb by (simp add: joins_def)
    have "i \<noteq> other" using True by (simp add: joins_def)
    note ra = run_all_spec [OF ok Cons.prems(2) this subset_refl]
    show ?thesis
    proof (cases "falls dm ?nb other i")
      case f: True
      then have "frontiers_from dm next e other i (bo # w) fr = None" using step ra by (simp add: falls_def)
      then show ?thesis using f by (auto simp: entries_from_def)
    next
      case f: False
      let ?fr = "add_to (\<Union>p\<in>set (?nb i). run_set dm i p) i fr"
      have eq: "frontiers_from dm next e other i (bo # w) fr = frontiers_from dm next e other (Suc i) w ?fr"
        using step ra f True by (auto simp: falls_def)
      have "set (?fr ! x) = set (fr ! x) \<union> {b. b = i \<and> in_frontier dm ?nb other x b} \<and>
          (sorted (fr ! x) \<and> distinct (fr ! x) \<longrightarrow> sorted (?fr ! x) \<and> distinct (?fr ! x))" if "x < n" for x
        using that Cons.prems(2) True by (auto simp: add_to_nth in_frontier_def set_insort_insert sorted_insort_insert distinct_insort_insert)
      then show ?thesis
        unfolding eq using Cons.prems(2) by (intro entries_step [OF f _ Cons.IH [OF i(3)]]) simp_all
    qed
  qed
qed

text \<open>In terms of dominance, for a block \<open>x\<close> of the tree.\<close>

lemma in_frontier_dominates:
  assumes ok: "frontier_ok E r dm e other n nb" and x: "E\<^sup>*\<^sup>* r x"
  shows "in_frontier dm nb other x b \<longleftrightarrow> joins nb other b \<and> E\<^sup>*\<^sup>* r b \<and>
    (\<exists>p\<in>set (nb b). E\<^sup>*\<^sup>* r p \<and> dominates E r x p \<and> \<not> (x \<noteq> b \<and> dominates E r x b))"
proof -
  note t = frontier_okD(1) [OF ok]
  have "x \<in> run_set dm b p \<longleftrightarrow> E\<^sup>*\<^sup>* r b \<and> E\<^sup>*\<^sup>* r p \<and> dominates E r x p \<and> \<not> (x \<noteq> b \<and> dominates E r x b)"
    if j: "joins nb other b" and p: "p \<in> set (nb b)" for p
  proof -
    have bo: "b \<noteq> other" using j by (simp add: joins_def)
    have "b \<noteq> r" using frontier_okD(3) [OF ok] p by auto
    have pb: "E p b" using frontier_okD(4) [OF ok bo p] .
    show ?thesis
    proof (cases "E\<^sup>*\<^sup>* r p")
      case pr: True
      have br: "E\<^sup>*\<^sup>* r b" using pr pb by (rule rtranclp.rtrancl_into_rtrancl)
      then obtain u where u: "dm b = Some u" using dominator_treeD(2) [OF t] by blast
      show ?thesis
        using u tree_strict [OF t br \<open>b \<noteq> r\<close> u, of x] dominator_treeD(4) [OF t pr, of x] pr br by (simp add: run_set_def)
    next
      case False
      then have np: "dm p = None" using dominator_treeD(2) [OF t] by blast
      then have "anc dm p x \<longleftrightarrow> x = p" using anc_cases [of dm p x] by auto
      then have "x \<notin> run_set dm b p" using False x by (cases "dm b") (auto simp: run_set_def)
      then show ?thesis using False by blast
    qed
  qed
  then show ?thesis unfolding in_frontier_def by blast
qed

lemma preds_nb: "nb_of pred v = preds_of v"
proof
  show "nb_of pred v b = preds_of v b" for b by (simp add: nb_of_def preds_of_def)
qed

lemma succs_nb: "nb_of succ v = succs_of v"
proof
  show "nb_of succ v b = succs_of v b" for b by (simp add: nb_of_def succs_of_def)
qed

lemma reach_less:
  assumes wf: "wf_cfg v entry exit" and b: "(cfg_edge v)\<^sup>*\<^sup>* entry b"
  shows "b = entry \<or> normal v entry exit b"
  using b
proof (induction rule: rtranclp_induct)
  case (step b c)
  then show ?case using wf_cfgD(6) [OF wf, of c] wf_cfgD(8) [OF wf, of b c] by (auto simp: cfg_edge_def)
qed simp

lemma rreach_less:
  assumes wf: "wf_cfg v entry exit" and b: "(rev_edge v)\<^sup>*\<^sup>* exit b"
  shows "b = exit \<or> normal v entry exit b"
  using b
proof (induction rule: rtranclp_induct)
  case (step b c)
  then show ?case using wf_cfgD(7) [OF wf, of c] wf_cfgD(9) [OF wf, of b c] by (auto simp: rev_edge_def)
qed simp

lemma neighbour_normal:
  assumes wf: "wf_cfg v entry exit"
  shows "b \<noteq> exit \<Longrightarrow> p \<in> set (preds_of v b) \<Longrightarrow> normal v entry exit b \<and> normal v entry exit p"
    and "b \<noteq> entry \<Longrightarrow> p \<in> set (succs_of v b) \<Longrightarrow> normal v entry exit b \<and> normal v entry exit p"
proof -
  show "normal v entry exit b \<and> normal v entry exit p" if "b \<noteq> exit" "p \<in> set (preds_of v b)"
  proof -
    have "b \<noteq> entry" using wf_cfgD(4) [OF wf] that(2) by auto
    then have n: "normal v entry exit b" using that listed_block(2) [OF that(2)] by (simp add: normal_def)
    then show ?thesis using wf_cfgD(9) [OF wf n that(2)] by simp
  qed
  show "normal v entry exit b \<and> normal v entry exit p" if "b \<noteq> entry" "p \<in> set (succs_of v b)"
  proof -
    have "b \<noteq> exit" using wf_cfgD(5) [OF wf] that(2) by auto
    then have n: "normal v entry exit b" using that listed_block(1) [OF that(2)] by (simp add: normal_def)
    then show ?thesis using wf_cfgD(8) [OF wf n that(2)] by simp
  qed
qed

lemma dom_frontier_ok:
  assumes wf: "wf_cfg v entry exit" and t: "dominator_tree (cfg_edge v) entry dm"
  shows "frontier_ok (cfg_edge v) entry dm entry exit (length v) (preds_of v)"
proof -
  have less: "x < length v" if "dm x \<noteq> None" for x
  proof -
    have "x = entry \<or> normal v entry exit x" using reach_less [OF wf] dominator_treeD(2) [OF t] that by blast
    then show ?thesis using wf_cfgD(2) [OF wf] bb_at_less by (auto simp: normal_def)
  qed
  have "cfg_edge v p b \<and> p < length v \<and> (dm p = None \<longrightarrow> p \<noteq> entry)" if "b \<noteq> exit" "p \<in> set (preds_of v b)" for b p
  proof -
    have n: "normal v entry exit b" "normal v entry exit p" using neighbour_normal(1) [OF wf that] by simp_all
    then have "p \<noteq> entry" by (simp add: normal_def)
    then show ?thesis using cfg_edge_into [OF wf n(1), of p] that(2) n(2) bb_at_less by (simp add: normal_def)
  qed
  then show ?thesis unfolding frontier_ok_def using t less wf_cfgD(4) [OF wf] by simp
qed

lemma pdom_frontier_ok:
  assumes wf: "wf_cfg v entry exit" and t: "dominator_tree (rev_edge v) exit dm"
  shows "frontier_ok (rev_edge v) exit dm entry entry (length v) (succs_of v)"
proof -
  have in_tree: "x = exit \<or> normal v entry exit x" if "dm x \<noteq> None" for x
    using rreach_less [OF wf] dominator_treeD(2) [OF t] that by blast
  have less: "x < length v" if "dm x \<noteq> None" for x
    using in_tree [OF that] wf_cfgD(3) [OF wf] bb_at_less by (auto simp: normal_def)
  have "dm entry = None"
  proof (rule ccontr)
    assume "dm entry \<noteq> None"
    then show False using in_tree [of entry] wf_cfgD(1) [OF wf] by (simp add: normal_def)
  qed
  moreover have "rev_edge v p b \<and> p < length v \<and> (dm p = None \<longrightarrow> p \<noteq> entry)" if "b \<noteq> entry" "p \<in> set (succs_of v b)" for b p
  proof -
    have n: "normal v entry exit b" "normal v entry exit p" using neighbour_normal(2) [OF wf that] by simp_all
    then have "p \<noteq> exit" "p \<noteq> entry" by (simp_all add: normal_def)
    then show ?thesis using rev_edge_into [OF wf n(1), of p] that(2) n(2) bb_at_less by (simp add: normal_def)
  qed
  ultimately show ?thesis unfolding frontier_ok_def using t less wf_cfgD(5) [OF wf] by simp
qed

section \<open>Iterated frontiers\<close>

definition iterated :: "nat list list \<Rightarrow> nat \<Rightarrow> nat \<Rightarrow> bool" where
  "iterated frontier = (\<lambda>a b. b \<in> set (frontier ! a))\<^sup>+\<^sup>+"

text \<open>A block of a frontier is dealt with: it is in the set, and so is what is known of it, or it is marked.\<close>

definition seen :: "nat list list \<Rightarrow> nat \<Rightarrow> nat set \<Rightarrow> nat set \<Rightarrow> nat \<Rightarrow> bool" where
  "seen iter m df marks f \<longleftrightarrow> f \<in> df \<and> (if f < m then set (iter ! f) \<subseteq> df else f \<in> marks)"

lemma seen_mono: "seen iter m df marks f \<Longrightarrow> df \<subseteq> df' \<Longrightarrow> marks \<subseteq> marks' \<Longrightarrow> seen iter m df' marks' f"
  by (auto simp: seen_def split: if_splits)

definition iter_walked :: "nat list list \<Rightarrow> nat list list \<Rightarrow> nat \<Rightarrow> nat list \<Rightarrow> nat list \<times> bool list \<Rightarrow> nat list \<times> bool list \<Rightarrow> bool" where
  "iter_walked frontier iter m fs st st' \<longleftrightarrow>
     length (snd st') = length (snd st) \<and> marked (snd st) \<subseteq> marked (snd st') \<and> set (fst st) \<subseteq> set (fst st') \<and>
     (\<forall>f\<in>set fs. seen iter m (set (fst st')) (marked (snd st')) f) \<and>
     (\<forall>b\<in>marked (snd st') - marked (snd st). \<forall>f\<in>set (frontier ! b). seen iter m (set (fst st')) (marked (snd st')) f) \<and>
     (\<forall>c\<in>set (fst st'). c \<in> set (fst st) \<or> (\<exists>f\<in>set fs. c = f \<or> iterated frontier f c)) \<and>
     (sorted (fst st) \<and> distinct (fst st) \<longrightarrow> sorted (fst st') \<and> distinct (fst st'))"

lemma iter_walkedD:
  assumes "iter_walked frontier iter m fs st st'"
  shows "length (snd st') = length (snd st)" "marked (snd st) \<subseteq> marked (snd st')" "set (fst st) \<subseteq> set (fst st')"
    "f \<in> set fs \<Longrightarrow> seen iter m (set (fst st')) (marked (snd st')) f"
    "b \<in> marked (snd st') \<Longrightarrow> b \<notin> marked (snd st) \<Longrightarrow> f \<in> set (frontier ! b) \<Longrightarrow> seen iter m (set (fst st')) (marked (snd st')) f"
    "c \<in> set (fst st') \<Longrightarrow> c \<in> set (fst st) \<or> (\<exists>f\<in>set fs. c = f \<or> iterated frontier f c)"
    "sorted (fst st) \<and> distinct (fst st) \<Longrightarrow> sorted (fst st') \<and> distinct (fst st')"
proof -
  have w: "length (snd st') = length (snd st)" "marked (snd st) \<subseteq> marked (snd st')" "set (fst st) \<subseteq> set (fst st')"
     "\<forall>f\<in>set fs. seen iter m (set (fst st')) (marked (snd st')) f"
     "\<forall>b\<in>marked (snd st') - marked (snd st). \<forall>f\<in>set (frontier ! b). seen iter m (set (fst st')) (marked (snd st')) f"
     "\<forall>c\<in>set (fst st'). c \<in> set (fst st) \<or> (\<exists>f\<in>set fs. c = f \<or> iterated frontier f c)"
     "sorted (fst st) \<and> distinct (fst st) \<longrightarrow> sorted (fst st') \<and> distinct (fst st')"
    using assms unfolding iter_walked_def by - (elim conjE, assumption)+
  show "length (snd st') = length (snd st)" "marked (snd st) \<subseteq> marked (snd st')" "set (fst st) \<subseteq> set (fst st')" by (rule w)+
  show "f \<in> set fs \<Longrightarrow> seen iter m (set (fst st')) (marked (snd st')) f" using w(4) by blast
  show "b \<in> marked (snd st') \<Longrightarrow> b \<notin> marked (snd st) \<Longrightarrow> f \<in> set (frontier ! b) \<Longrightarrow> seen iter m (set (fst st')) (marked (snd st')) f"
    using w(5) by blast
  show "c \<in> set (fst st') \<Longrightarrow> c \<in> set (fst st) \<or> (\<exists>f\<in>set fs. c = f \<or> iterated frontier f c)" using w(6) by blast
  show "sorted (fst st) \<and> distinct (fst st) \<Longrightarrow> sorted (fst st') \<and> distinct (fst st')" using w(7) by blast
qed

lemma iter_walked_nil: "iter_walked frontier iter m [] st st"
  by (simp add: iter_walked_def)

text \<open>
  One block of a frontier in front of a walk: it leads from \<open>(df, vis)\<close> to \<open>(df1, vis1)\<close>
  and leaves it dealt with.
\<close>

lemma iter_walked_step:
  assumes rest: "iter_walked frontier iter m fs (df1, vis1) st'"
    and len: "length vis1 = length vis" and sub: "marked vis \<subseteq> marked vis1" "set df \<subseteq> set df1"
    and f: "seen iter m (set df1) (marked vis1) f"
    and new: "\<forall>b\<in>marked vis1 - marked vis. \<forall>g\<in>set (frontier ! b). seen iter m (set df1) (marked vis1) g"
    and sound: "\<forall>c\<in>set df1. c \<in> set df \<or> c = f \<or> iterated frontier f c"
    and ord: "sorted df \<and> distinct df \<longrightarrow> sorted df1 \<and> distinct df1"
  shows "iter_walked frontier iter m (f # fs) (df, vis) st'"
proof -
  note r = iter_walkedD [OF rest, unfolded fst_conv snd_conv]
  have up: "seen iter m (set df1) (marked vis1) g \<Longrightarrow> seen iter m (set (fst st')) (marked (snd st')) g" for g
    by (rule seen_mono [OF _ r(3,2)])
  have "\<forall>g\<in>set (f # fs). seen iter m (set (fst st')) (marked (snd st')) g" using up [OF f] r(4) unfolding list.set by blast
  moreover have "\<forall>b\<in>marked (snd st') - marked vis. \<forall>g\<in>set (frontier ! b). seen iter m (set (fst st')) (marked (snd st')) g"
  proof (intro ballI)
    fix b g assume b: "b \<in> marked (snd st') - marked vis" and g: "g \<in> set (frontier ! b)"
    show "seen iter m (set (fst st')) (marked (snd st')) g"
    proof (cases "b \<in> marked vis1")
      case True
      then show ?thesis using up new b g by blast
    next
      case False
      then show ?thesis using r(5) [of b g] b g by blast
    qed
  qed
  moreover have "\<forall>c\<in>set (fst st'). c \<in> set df \<or> (\<exists>g\<in>set (f # fs). c = g \<or> iterated frontier g c)"
  proof
    fix c assume "c \<in> set (fst st')"
    then consider "c \<in> set df1" | "\<exists>g\<in>set fs. c = g \<or> iterated frontier g c" using r(6) by blast
    then show "c \<in> set df \<or> (\<exists>g\<in>set (f # fs). c = g \<or> iterated frontier g c)"
    proof cases
      case 1
      then show ?thesis using sound by (meson list.set_intros(1))
    next
      case 2
      then show ?thesis by (meson list.set_intros(2))
    qed
  qed
  moreover have "length (snd st') = length vis" using r(1) len by (rule trans)
  moreover have "marked vis \<subseteq> marked (snd st')" using sub(1) r(2) by (rule order_trans)
  moreover have "set df \<subseteq> set (fst st')" using sub(2) r(3) by (rule order_trans)
  moreover have "sorted df \<and> distinct df \<longrightarrow> sorted (fst st') \<and> distinct (fst st')" using ord r(7) by (intro impI) (drule mp, assumption, assumption)
  ultimately show ?thesis unfolding iter_walked_def fst_conv snd_conv by (intro conjI)
qed

text \<open>The entries of all frontiers are blocks of the vector.\<close>

definition entries_ok :: "MeBB option list \<Rightarrow> nat list list \<Rightarrow> bool" where
  "entries_ok v frontier \<longleftrightarrow> (\<forall>a<length v. \<forall>f\<in>set (frontier ! a). bb_at v f \<noteq> None)"

lemma iterated_step: "f \<in> set (frontier ! b) \<Longrightarrow> c = f \<or> iterated frontier f c \<Longrightarrow> iterated frontier b c"
  unfolding iterated_def by (auto intro: tranclp_into_tranclp2)

lemma iterated_cases: "iterated frontier b c \<Longrightarrow> \<exists>f\<in>set (frontier ! b). c = f \<or> iterated frontier f c"
  unfolding iterated_def by (auto dest: tranclpD rtranclpD)

lemma fold_insort_insert:
  "set (fold insort_insert xs ys) = set ys \<union> set xs"
  "sorted ys \<and> distinct ys \<Longrightarrow> sorted (fold insort_insert xs ys) \<and> distinct (fold insort_insert xs (ys :: nat list))"
  by (induction xs arbitrary: ys) (auto simp: set_insort_insert sorted_insort_insert distinct_insort_insert)

lemma iter_walk_ends:
  assumes ok: "entries_ok v frontier" and known: "\<And>f c. f < m \<Longrightarrow> c \<in> set (iter ! f) \<Longrightarrow> iterated frontier f c"
    and fs: "\<forall>f\<in>set fs. bb_at v f \<noteq> None" and len: "length vis = length v"
  shows "\<exists>st'. iter_walk v frontier iter m fs (df, vis) = Some st' \<and> iter_walked frontier iter m fs (df, vis) st'"
  using fs len
proof (induction "(card ({..<length v} - marked vis), length fs)" arbitrary: df vis fs
    rule: wf_induct_rule [OF wf_lex_prod [OF wf_less wf_less], case_names less])
  case (less vis fs df)
  show ?case
  proof (cases fs)
    case Nil
    then show ?thesis using iter_walked_nil by (intro exI [of _ "(df, vis)"]) (simp add: iter_walk.simps [of v frontier iter m "[]"])
  next
    case (Cons f fs')
    let ?df = "insort_insert f df"
    have fl: "bb_at v f \<noteq> None" "f < length v" using less.prems(1) Cons bb_at_less [of v f] by simp_all
    have sub: "set df \<subseteq> set ?df" "f \<in> set ?df" by (auto simp: set_insort_insert)
    have fs': "\<forall>f\<in>set fs'. bb_at v f \<noteq> None" using less.prems(1) Cons by simp
    have go: "iter_walk v frontier iter m fs (df, vis) =
      (if f < m then iter_walk v frontier iter m fs' (fold insort_insert (iter ! f) ?df, vis)
       else if vis ! f then iter_walk v frontier iter m fs' (?df, vis)
       else Option.bind (iter_walk v frontier iter m (frontier ! f) (?df, vis[f := True])) (iter_walk v frontier iter m fs'))"
      using fl(1) Cons by (auto simp: iter_walk.simps [of v frontier iter m "f # fs'"] Let_def)
    have srt: "sorted df \<and> distinct df \<longrightarrow> sorted ?df \<and> distinct ?df" by (simp add: sorted_insort_insert distinct_insort_insert)
    show ?thesis
    proof (cases "f < m \<or> vis ! f")
      case True
      define df1 where "df1 = (if f < m then fold insort_insert (iter ! f) ?df else ?df)"
      have df1: "set df1 = set ?df \<union> (if f < m then set (iter ! f) else {})" "sorted df \<and> distinct df \<longrightarrow> sorted df1 \<and> distinct df1"
        using fold_insort_insert(1) [of "iter ! f" ?df] fold_insort_insert(2) [of ?df "iter ! f"] srt by (simp_all add: df1_def)
      obtain st' where st': "iter_walk v frontier iter m fs' (df1, vis) = Some st'" "iter_walked frontier iter m fs' (df1, vis) st'"
        using less.hyps [of vis fs' df1] fs' less.prems(2) Cons by auto
      have "iter_walked frontier iter m (f # fs') (df, vis) st'"
      proof (rule iter_walked_step [OF st'(2)])
        show "seen iter m (set df1) (marked vis) f"
          using True sub(2) df1(1) fl(2) less.prems(2) by (auto simp: seen_def marked_def)
        show "\<forall>c\<in>set df1. c \<in> set df \<or> c = f \<or> iterated frontier f c"
          using df1(1) known by (auto simp: set_insort_insert)
      qed (use df1 sub in auto)
      moreover have "iter_walk v frontier iter m fs (df, vis) = Some st'" using go True st'(1) by (auto simp: df1_def)
      ultimately show ?thesis using Cons by blast
    next
      case False
      then have mf: "f \<notin> marked vis" by (simp add: marked_def)
      have mu: "marked (vis[f := True]) = insert f (marked vis)" using fl(2) less.prems(2) by (intro marked_update) simp
      have fewer: "card ({..<length v} - marked (vis[f := True])) < card ({..<length v} - marked vis)"
        using mf fl(2) unfolding mu by (intro psubset_card_mono) auto
      have ff: "\<forall>g\<in>set (frontier ! f). bb_at v g \<noteq> None" using ok fl(2) by (simp add: entries_ok_def)
      obtain st1 where w1: "iter_walk v frontier iter m (frontier ! f) (?df, vis[f := True]) = Some st1"
          "iter_walked frontier iter m (frontier ! f) (?df, vis[f := True]) st1"
        using less.hyps [of "vis[f := True]" "frontier ! f" ?df] fewer ff less.prems(2) by auto
      obtain df1 vis1 where st1: "st1 = (df1, vis1)" by (cases st1)
      note w = iter_walkedD [OF w1(2), unfolded st1 fst_conv snd_conv mu]
      have "card ({..<length v} - marked vis1) \<le> card ({..<length v} - marked (vis[f := True]))"
        using w(2) unfolding mu by (intro card_mono) auto
      then have fewer1: "card ({..<length v} - marked vis1) < card ({..<length v} - marked vis)" using fewer by simp
      have len1: "length vis1 = length vis" using w(1) by simp
      obtain st' where st': "iter_walk v frontier iter m fs' (df1, vis1) = Some st'" "iter_walked frontier iter m fs' (df1, vis1) st'"
        using less.hyps [of vis1 fs' df1] fewer1 fs' len1 less.prems(2) by auto
      have "iter_walked frontier iter m (f # fs') (df, vis) st'"
      proof (rule iter_walked_step [OF st'(2) len1])
        show "marked vis \<subseteq> marked vis1" "set df \<subseteq> set df1" using w(2,3) sub(1) by auto
        show "seen iter m (set df1) (marked vis1) f" using False w(2,3) sub(2) by (auto simp: seen_def)
        show "\<forall>b\<in>marked vis1 - marked vis. \<forall>g\<in>set (frontier ! b). seen iter m (set df1) (marked vis1) g"
          using w(4,5) by blast
        show "\<forall>c\<in>set df1. c \<in> set df \<or> c = f \<or> iterated frontier f c"
        proof
          fix c assume "c \<in> set df1"
          then have "c \<in> set ?df \<or> iterated frontier f c" using w(6) [of c] iterated_step [of _ frontier f c] by blast
          then show "c \<in> set df \<or> c = f \<or> iterated frontier f c" by (auto simp: set_insort_insert)
        qed
        show "sorted df \<and> distinct df \<longrightarrow> sorted df1 \<and> distinct df1" using srt w(7) by blast
      qed
      moreover have "iter_walk v frontier iter m fs (df, vis) = Some st'" using go False w1(1) st1 st'(1) by simp
      ultimately show ?thesis using Cons by blast
    qed
  qed
qed

text \<open>The outer loop: the lists below the marker are known, block by block.\<close>

definition known :: "MeBB option list \<Rightarrow> nat list list \<Rightarrow> nat \<Rightarrow> nat list \<Rightarrow> nat \<Rightarrow> bool" where
  "known v frontier other xs i \<longleftrightarrow> sorted xs \<and> distinct xs \<and>
     set xs = (if bb_at v i = None \<or> i = other then {} else {c. iterated frontier i c})"

lemma GetIterDomFrontier_known:
  assumes ok: "entries_ok v frontier" "frontier ! other = []" and i: "i < length v" "bb_at v i \<noteq> None" "i \<noteq> other"
    and iter: "\<And>f. f < i \<Longrightarrow> known v frontier other (iter ! f) f"
  shows "\<exists>df vis. GetIterDomFrontier v frontier iter i [] i (replicate (length v) False) = Some (df, vis) \<and> known v frontier other df i"
proof -
  have sound: "iterated frontier f c" if "f < i" "c \<in> set (iter ! f)" for f c
    using iter [OF that(1)] that(2) by (auto simp: known_def split: if_splits)
  have below: "set (iter ! f) = {c. iterated frontier f c}" if "f < i" "bb_at v f \<noteq> None" for f
  proof (cases "f = other")
    case True
    then have "\<not> iterated frontier f c" for c using iterated_cases [of frontier f c] ok(2) by auto
    then show ?thesis using iter [OF that(1)] True by (simp add: known_def)
  next
    case False
    then show ?thesis using iter [OF that(1)] that(2) by (simp add: known_def)
  qed
  let ?vis = "(replicate (length v) False)[i := True]"
  have m: "marked ?vis = {i}" using i(1) by (auto simp: marked_def nth_list_update)
  have fi: "\<forall>f\<in>set (frontier ! i). bb_at v f \<noteq> None" using ok(1) i(1) by (simp add: entries_ok_def)
  obtain st' where w: "iter_walk v frontier iter i (frontier ! i) ([], ?vis) = Some st'"
      "iter_walked frontier iter i (frontier ! i) ([], ?vis) st'"
    using iter_walk_ends [OF ok(1), of i iter "frontier ! i" ?vis "[]"] sound fi by (metis length_list_update length_replicate)
  obtain df vis where st': "st' = (df, vis)" by (cases st')
  note d = iter_walkedD [OF w(2), unfolded st' fst_conv snd_conv m]
  have dealt: "seen iter i (set df) (marked vis) g" if "b \<in> marked vis" "g \<in> set (frontier ! b)" for b g
    using d(4) d(5) [OF that(1) _ that(2)] that by blast
  have "c \<in> set df" if "iterated frontier b c" "b \<in> marked vis" for b c
    using that unfolding iterated_def
  proof (induction rule: converse_tranclp_induct)
    case (base b)
    then show ?case using dealt [of b c] by (simp add: seen_def)
  next
    case (step b f)
    have s: "seen iter i (set df) (marked vis) f" using dealt [OF step.prems step.hyps(1)] .
    show ?case
    proof (cases "f < i")
      case True
      have "b < length v" using step.prems marked_less [of b vis] d(1) by simp
      then have "bb_at v f \<noteq> None" using ok(1) step.hyps(1) by (simp add: entries_ok_def)
      then have "c \<in> set (iter ! f)" using below [OF True] step.hyps(2) by (simp add: iterated_def)
      then show ?thesis using s True by (auto simp: seen_def)
    next
      case False
      then show ?thesis using s step.IH by (simp add: seen_def)
    qed
  qed
  moreover have "i \<in> marked vis" using d(2) by simp
  moreover have "iterated frontier i c" if "c \<in> set df" for c using d(6) [OF that] iterated_step [of _ frontier i c] by auto
  ultimately have "set df = {c. iterated frontier i c}" by blast
  then have "known v frontier other df i" using d(7) i(2,3) by (auto simp: known_def)
  moreover have "GetIterDomFrontier v frontier iter i [] i (replicate (length v) False) = Some (df, vis)"
    using w(1) st' i(1) by (simp add: GetIterDomFrontier_def)
  ultimately show ?thesis by blast
qed

lemma iter_frontiers_known:
  assumes ok: "entries_ok v frontier" "frontier ! other = []" and len: "length iter = length v"
    and start: "\<forall>x<length v. iter ! x = []"
  shows "\<exists>iter'. iter_frontiers_from v frontier other [0..<length v] iter = Some iter' \<and> length iter' = length v \<and>
    (\<forall>x<length v. known v frontier other (iter' ! x) x)"
proof -
  have "\<exists>iter'. iter_frontiers_from v frontier other [i..<length v] iter = Some iter' \<and> length iter' = length v \<and>
      (\<forall>x<length v. known v frontier other (iter' ! x) x)"
    if "i \<le> length v" "length iter = length v" "\<forall>x<i. known v frontier other (iter ! x) x" "\<forall>x<length v. i \<le> x \<longrightarrow> iter ! x = []" for i iter
    using that
  proof (induction "length v - i" arbitrary: i iter)
    case 0
    then show ?case by simp
  next
    case (Suc k)
    then have i: "i < length v" "[i..<length v] = i # [Suc i..<length v]" by (simp_all add: upt_conv_Cons)
    have at: "bb_at v i = v ! i" using i(1) by (simp add: bb_at_def)
    have go: "\<exists>iter'. iter_frontiers_from v frontier other [Suc i..<length v] iter1 = Some iter' \<and> length iter' = length v \<and>
        (\<forall>x<length v. known v frontier other (iter' ! x) x)"
      if l: "length iter1 = length v" and k: "known v frontier other (iter1 ! i) i" and same: "\<And>x. x \<noteq> i \<Longrightarrow> iter1 ! x = iter ! x" for iter1
    proof (rule Suc.hyps(1))
      show "\<forall>x<Suc i. known v frontier other (iter1 ! x) x" using Suc.prems(3) k same by (metis less_Suc_eq)
      show "\<forall>x<length v. Suc i \<le> x \<longrightarrow> iter1 ! x = []" using Suc.prems(4) same by auto
    qed (use Suc.hyps(2) i(1) l in auto)
    have nil: "iter ! i = []" using Suc.prems(4) i(1) by simp
    show ?case
    proof (cases "v ! i = None \<or> i = other")
      case True
      then have "known v frontier other (iter ! i) i" using nil at by (auto simp: known_def)
      then show ?thesis using go [of iter] Suc.prems(2) True unfolding i(2) by auto
    next
      case False
      then obtain df vis where g: "GetIterDomFrontier v frontier iter i [] i (replicate (length v) False) = Some (df, vis)"
          "known v frontier other df i"
        using GetIterDomFrontier_known [OF ok i(1), of iter] Suc.prems(3) at by auto
      then show ?thesis using go [of "iter[i := df]"] Suc.prems(2) False nil i by auto
    qed
  qed
  then show ?thesis using len start by simp
qed

end
