(* ===== verification/DomPreorder.thy ===== *)
theory DomPreorder
  imports DomFrontier
begin

text \<open>
  The lists of children and the preorder of a dominator tree: a walk writes every block of
  the subtree once, and the subtree of each block is a segment that starts with the block.
\<close>

section \<open>Children\<close>

definition child :: "parents \<Rightarrow> nat \<Rightarrow> nat \<Rightarrow> bool" where
  "child dm p i \<longleftrightarrow> dm i = Some p \<and> i \<noteq> p"

definition children_ok :: "parents \<Rightarrow> nat \<Rightarrow> nat list list \<Rightarrow> bool" where
  "children_ok dm n ch \<longleftrightarrow> length ch = n \<and> (\<forall>p<n. distinct (ch ! p) \<and> set (ch ! p) = {i. child dm p i})"

lemma children_spec:
  assumes dm: "\<And>i p. dm i = Some p \<Longrightarrow> i < length v \<and> v ! i \<noteq> None \<and> p < length v"
  shows "children_ok dm (length v) (children v dm (replicate (length v) []))"
proof -
  let ?f = "\<lambda>i ch. case v ! i of
          None \<Rightarrow> ch
        | Some bb \<Rightarrow> (case dm i of
              None \<Rightarrow> ch
            | Some parent \<Rightarrow> if parent = i then ch else ch[parent := insort_insert i (ch ! parent)])"
  have "length (fold ?f [0..<k] (replicate (length v) [])) = length v \<and>
      (\<forall>p<length v. distinct (fold ?f [0..<k] (replicate (length v) []) ! p) \<and>
         set (fold ?f [0..<k] (replicate (length v) []) ! p) = {i. i < k \<and> child dm p i} \<and>
         sorted (fold ?f [0..<k] (replicate (length v) []) ! p))" if "k \<le> length v" for k
    using that
  proof (induction k)
    case (Suc k)
    let ?ch = "fold ?f [0..<k] (replicate (length v) [])"
    have ih: "length ?ch = length v" "\<And>p. p < length v \<Longrightarrow> distinct (?ch ! p) \<and> set (?ch ! p) = {i. i < k \<and> child dm p i} \<and> sorted (?ch ! p)"
      using Suc by simp_all
    have step: "fold ?f [0..<Suc k] (replicate (length v) []) = ?f k ?ch" by simp
    show ?case
    proof (cases "dm k = None \<or> dm k = Some k")
      case True
      then have "?f k ?ch = ?ch" by (auto split: option.split)
      moreover have "{i. i < Suc k \<and> child dm p i} = {i. i < k \<and> child dm p i}" for p
        using True by (auto simp: child_def less_Suc_eq)
      ultimately show ?thesis using ih unfolding step by simp
    next
      case False
      then obtain q where q: "dm k = Some q" "q \<noteq> k" by auto
      then have "?f k ?ch = ?ch[q := insort_insert k (?ch ! q)]" using dm [OF q(1)] by (auto split: option.split)
      moreover have "q < length v" using dm [OF q(1)] by simp
      ultimately have e: "?f k ?ch = add_to {q} k ?ch" using add_to_one [of q ?ch k] ih(1) by simp
      have "{i. i < Suc k \<and> child dm p i} = (if p = q then insert k {i. i < k \<and> child dm p i} else {i. i < k \<and> child dm p i})" for p
        using q by (auto simp: child_def less_Suc_eq)
      then show ?thesis
        unfolding step e using ih by (auto simp: add_to_nth set_insort_insert distinct_insort_insert sorted_insort_insert)
    qed
  qed simp
  from this [of "length v"] show ?thesis
    using dm unfolding children_ok_def children_def child_def by auto
qed

section \<open>The preorder\<close>

definition writes :: "nat list list \<Rightarrow> nat list \<Rightarrow> nat list \<Rightarrow> bool" where
  "writes ch bs l \<longleftrightarrow> (\<forall>order num. num + length l \<le> length order \<longrightarrow>
     preorder ch bs (order, num) = Some (take num order @ l @ drop (num + length l) order, num + length l))"

lemma writesD: "writes ch bs l \<Longrightarrow> num + length l \<le> length order \<Longrightarrow>
    preorder ch bs (order, num) = Some (take num order @ l @ drop (num + length l) order, num + length l)"
  by (simp add: writes_def)

lemma writes_nil: "writes ch [] []"
  by (simp add: writes_def preorder.simps [of ch "[]"])

lemma preorder_one: "preorder ch [b] (order, num) =
    (if length order \<le> num then None else preorder ch (ch ! b) (order[num := b], num + 1))"
proof -
  have "preorder ch [] = Some" by (rule ext) (simp add: preorder.simps [of ch "[]"])
  then show ?thesis by (simp add: preorder.simps [of ch "[b]"])
qed

lemma preorder_cons: "preorder ch (b # bs) st = Option.bind (preorder ch [b] st) (preorder ch bs)"
  by (cases st) (simp add: preorder_one preorder.simps [of ch "b # bs"])

lemma writes_cons:
  assumes b: "writes ch [b] l" and bs: "writes ch bs l'"
  shows "writes ch (b # bs) (l @ l')"
  unfolding writes_def
proof (intro allI impI)
  fix order :: "nat list" and num assume n: "num + length (l @ l') \<le> length order"
  let ?order = "take num order @ l @ drop (num + length l) order"
  have "preorder ch [b] (order, num) = Some (?order, num + length l)" using writesD [OF b, of num order] n by simp
  moreover have "length ?order = length order" using n by simp
  then have "preorder ch bs (?order, num + length l) =
      Some (take (num + length l) ?order @ l' @ drop (num + length l + length l') ?order, num + length l + length l')"
    using writesD [OF bs, of "num + length l" ?order] n by simp
  moreover have "take (num + length l) ?order = take num order @ l" using n by simp
  moreover have "drop (num + length l + length l') ?order = drop (num + length (l @ l')) order"
    using n by (simp add: add.commute add.left_commute)
  ultimately show "preorder ch (b # bs) (order, num) =
      Some (take num order @ (l @ l') @ drop (num + length (l @ l')) order, num + length (l @ l'))"
    unfolding preorder_cons [of ch b bs "(order, num)"] by (simp add: add.assoc)
qed

lemma writes_node:
  assumes "writes ch (ch ! b) l"
  shows "writes ch [b] (b # l)"
  unfolding writes_def
proof (intro allI impI)
  fix order :: "nat list" and num assume n: "num + length (b # l) \<le> length order"
  have "take (Suc num) (order[num := b]) = take num order @ [b]"
    using n by (simp add: take_Suc_conv_app_nth)
  moreover have "drop (Suc num + length l) (order[num := b]) = drop (Suc num + length l) order" by simp
  ultimately show "preorder ch [b] (order, num) =
      Some (take num order @ (b # l) @ drop (num + length (b # l)) order, num + length (b # l))"
    unfolding preorder_one using writesD [OF assms, of "Suc num" "order[num := b]"] n by simp
qed

text \<open>The order in which a walk over lists of children meets the blocks.\<close>

inductive visits :: "nat list list \<Rightarrow> nat list \<Rightarrow> nat list \<Rightarrow> bool" for ch where
  visits_nil: "visits ch [] []"
| visits_cons: "visits ch (ch ! b) l \<Longrightarrow> visits ch bs l' \<Longrightarrow> visits ch (b # bs) (b # l @ l')"

inductive_cases visits_nilE: "visits ch [] l"
inductive_cases visits_consE: "visits ch (b # bs) l"

lemma visits_writes: "visits ch bs l \<Longrightarrow> writes ch bs l"
proof (induction rule: visits.induct)
  case (visits_cons b l bs l')
  then show ?case using writes_cons [OF writes_node] by fastforce
qed (rule writes_nil)

lemma visits_one: "visits ch (ch ! b) l \<Longrightarrow> visits ch [b] (b # l)"
  using visits_cons [OF _ visits_nil] by fastforce

lemma visits_append: "visits ch [b] l \<Longrightarrow> visits ch bs l' \<Longrightarrow> visits ch (b # bs) (l @ l')"
  by (auto elim!: visits_consE visits_nilE intro: visits_cons)

text \<open>The listing of a subtree.\<close>

definition listing :: "parents \<Rightarrow> nat \<Rightarrow> nat list \<Rightarrow> bool" where
  "listing dm x l \<longleftrightarrow> distinct l \<and> set l = {y. anc dm y x} \<and> (\<exists>l'. l = x # l') \<and>
     (\<forall>y\<in>set l. \<exists>a m c. l = a @ (y # m) @ c \<and> set (y # m) = {z. anc dm z y})"

lemma listingD:
  assumes "listing dm x l"
  shows "distinct l" "set l = {y. anc dm y x}" "\<exists>l'. l = x # l'"
    "y \<in> set l \<Longrightarrow> \<exists>a m c. l = a @ (y # m) @ c \<and> set (y # m) = {z. anc dm z y}"
  using assms unfolding listing_def by simp_all

lemma concat_parts:
  assumes "list_all2 (\<lambda>c l. distinct l \<and> set l = S c) cs ls" and "distinct cs"
    and "\<And>c d. c \<in> set cs \<Longrightarrow> d \<in> set cs \<Longrightarrow> c \<noteq> d \<Longrightarrow> S c \<inter> S d = {}"
  shows "distinct (concat ls)" and "set (concat ls) = (\<Union>c\<in>set cs. S c)"
  using assms
proof (induction rule: list_all2_induct)
  case (Cons c cs l ls)
  {
    case 1
    have "set l \<inter> (\<Union>c\<in>set cs. S c) = {}" using 1 Cons.hyps by fastforce
    then show ?case using Cons 1 by simp
  next
    case 2
    then show ?case using Cons by simp
  }
qed simp_all

lemma listing_node:
  assumes ls: "list_all2 (listing dm) cs ls" and cs: "distinct cs" "set cs = {i. child dm x i}"
    and anti: "\<And>y z. anc dm y x \<Longrightarrow> anc dm y z \<Longrightarrow> anc dm z y \<Longrightarrow> y = z"
  shows "listing dm x (x # concat ls)"
proof -
  have cx: "dm c = Some x" "c \<noteq> x" "anc dm c x" if "c \<in> set cs" for c using that cs(2) by (auto simp: child_def intro: anc_parent)
  have up: "anc dm c z \<longleftrightarrow> z = c \<or> anc dm x z" if "c \<in> set cs" for c z using anc_unfold [of dm c x z] cx(1) [OF that] by simp
  have parts: "list_all2 (\<lambda>c l. distinct l \<and> set l = {y. anc dm y c}) cs ls"
    using ls by (rule list_all2_mono) (simp add: listingD)
  have disj: "{y. anc dm y c} \<inter> {y. anc dm y d} = {}" if c: "c \<in> set cs" "d \<in> set cs" "c \<noteq> d" for c d
  proof -
    have "\<not> anc dm c d" if "c \<in> set cs" "d \<in> set cs" "c \<noteq> d" for c d
    proof
      assume "anc dm c d"
      then have "anc dm x d" using up [OF that(1)] that(3) by auto
      then show False using anti [OF cx(3) [OF that(2)] cx(3) [OF that(2)]] cx(2) [OF that(2)] by simp
    qed
    then show ?thesis using anc_comparable [of dm _ c d] c by blast
  qed
  note cp = concat_parts [OF parts cs(1) disj]
  have below: "anc dm y x \<longleftrightarrow> y = x \<or> (\<exists>c\<in>set cs. anc dm y c)" for y
  proof
    assume "anc dm y x"
    then show "y = x \<or> (\<exists>c\<in>set cs. anc dm y c)"
      unfolding anc_def
    proof (induction rule: converse_rtranclp_induct)
      case (step y z)
      show ?case
      proof (cases "y = x")
        case False
        show ?thesis
        proof (cases "z = x")
          case True
          then have "y \<in> set cs" using cs(2) step.hyps(1) False by (simp add: child_def)
          then show ?thesis by blast
        next
          case zx: False
          then obtain c where "c \<in> set cs" "(\<lambda>a b. dm a = Some b)\<^sup>*\<^sup>* z c" using step.IH by blast
          then show ?thesis using step.hyps(1) by (metis (mono_tags, lifting) converse_rtranclp_into_rtranclp)
        qed
      qed simp
    qed simp
  next
    assume "y = x \<or> (\<exists>c\<in>set cs. anc dm y c)"
    then show "anc dm y x" using cx(3) anc_trans [of dm y _ x] by auto
  qed
  have "x \<notin> set (concat ls)"
  proof
    assume "x \<in> set (concat ls)"
    then obtain c where c: "c \<in> set cs" "anc dm x c" using cp(2) by auto
    then show False using anti [OF cx(3) [OF c(1)] cx(3) [OF c(1)] c(2)] cx(2) [OF c(1)] by simp
  qed
  moreover have all: "set (x # concat ls) = {y. anc dm y x}" using cp(2) below by auto
  moreover have "\<exists>a m e. x # concat ls = a @ (y # m) @ e \<and> set (y # m) = {z. anc dm z y}" if y: "y \<in> set (x # concat ls)" for y
  proof (cases "y = x")
    case True
    then show ?thesis using all by (intro exI [of _ "[]"] exI [of _ "concat ls"]) simp
  next
    case False
    then obtain l where l: "l \<in> set ls" "y \<in> set l" using y by auto
    then obtain c where "listing dm c l" using ls by (metis in_set_conv_nth list_all2_conv_all_nth)
    then obtain a m e where m: "l = a @ (y # m) @ e" "set (y # m) = {z. anc dm z y}" using listingD(4) [of dm c l y] l(2) by blast
    obtain ps qs where "ls = ps @ l # qs" using l(1) by (meson split_list)
    then have "x # concat ls = (x # concat ps @ a) @ (y # m) @ (e @ concat qs)" using m(1) by simp
    then show ?thesis using m(2) by blast
  qed
  ultimately show ?thesis unfolding listing_def using cp(1) by simp
qed

lemma visits_list:
  assumes "\<And>c. c \<in> set cs \<Longrightarrow> \<exists>l. listing dm c l \<and> visits ch [c] l"
  shows "\<exists>ls. list_all2 (listing dm) cs ls \<and> visits ch cs (concat ls)"
  using assms
proof (induction cs)
  case Nil
  then show ?case using visits_nil by (intro exI [of _ "[]"]) simp
next
  case (Cons c cs)
  obtain l where "listing dm c l" "visits ch [c] l" using Cons.prems by auto
  moreover obtain ls where "list_all2 (listing dm) cs ls" "visits ch cs (concat ls)" using Cons by auto
  ultimately show ?case using visits_append by (intro exI [of _ "l # ls"]) simp
qed

theorem preorder_tree:
  assumes t: "dominator_tree E r dm" and n: "\<And>x. dm x \<noteq> None \<Longrightarrow> x < n" and ch: "children_ok dm n ch" and x: "E\<^sup>*\<^sup>* r x"
  shows "\<exists>l. listing dm x l \<and> visits ch [x] l"
  using x
proof (induction "card {y. anc dm y x}" arbitrary: x rule: less_induct)
  case less
  have inn: "E\<^sup>*\<^sup>* r y" if "anc dm y x" for y
    using anc_cases [OF that] dominator_treeD(2) [OF t, of y] less.prems by blast
  have xl: "y < n" if "anc dm y x" for y by (rule n) (simp only: dominator_treeD(2) [OF t] inn [OF that])
  then have fin: "finite {y. anc dm y x}" by (intro finite_subset [OF _ finite_lessThan]) blast
  have cs: "distinct (ch ! x)" "set (ch ! x) = {i. child dm x i}" using ch xl [of x] by (simp_all add: children_ok_def)
  have "\<exists>l. listing dm c l \<and> visits ch [c] l" if "c \<in> set (ch ! x)" for c
  proof (rule less.hyps)
    have c: "dm c = Some x" "c \<noteq> x" using that cs(2) by (auto simp: child_def)
    then have cx: "anc dm c x" using anc_parent [of dm c x] by simp
    show "E\<^sup>*\<^sup>* r c" by (rule inn [OF cx])
    have "\<not> anc dm x c" using tree_antisym [OF t inn [OF cx] cx] c(2) by auto
    then have "{y. anc dm y c} \<subset> {y. anc dm y x}" using anc_trans [OF _ cx] anc_refl [of dm x] by blast
    then show "card {y. anc dm y c} < card {y. anc dm y x}" by (rule psubset_card_mono [OF fin])
  qed
  then obtain ls where ls: "list_all2 (listing dm) (ch ! x) ls" "visits ch (ch ! x) (concat ls)" using visits_list by blast
  have "y = z" if "anc dm y x" "anc dm y z" "anc dm z y" for y z using tree_antisym [OF t inn [OF that(1)] that(2,3)] .
  then have "listing dm x (x # concat ls)" by (rule listing_node [OF ls(1) cs])
  moreover have "visits ch [x] (x # concat ls)" by (rule visits_one [OF ls(2)])
  ultimately show ?case by blast
qed

end
