(* ===== verification/DomPhase.thy ===== *)
theory DomPhase
  imports DomPreorder
begin

text \<open>
  The phase \<^verbatim>\<open>MeDoDominance\<close> as a whole: when it returns, and what its tables hold.
\<close>

section \<open>One direction\<close>

text \<open>Every block that joins and that the walk reaches has only neighbours the walk reaches.\<close>

definition joins_reached :: "(nat \<Rightarrow> nat \<Rightarrow> bool) \<Rightarrow> nat \<Rightarrow> nat \<Rightarrow> (nat \<Rightarrow> nat list) \<Rightarrow> bool" where
  "joins_reached E r other nb \<longleftrightarrow> (\<forall>b. joins nb other b \<longrightarrow> E\<^sup>*\<^sup>* r b \<longrightarrow> (\<forall>p\<in>set (nb b). E\<^sup>*\<^sup>* r p))"

definition frontiers :: "(nat \<Rightarrow> nat \<Rightarrow> bool) \<Rightarrow> nat \<Rightarrow> nat \<Rightarrow> (nat \<Rightarrow> nat list) \<Rightarrow> nat list list \<Rightarrow> bool" where
  "frontiers E r other nb fr \<longleftrightarrow> (\<forall>x. E\<^sup>*\<^sup>* r x \<longrightarrow> sorted (fr ! x) \<and> distinct (fr ! x) \<and>
     (\<forall>b. b \<in> set (fr ! x) \<longleftrightarrow> joins nb other b \<and> E\<^sup>*\<^sup>* r b \<and> (\<exists>p\<in>set (nb b). dominates E r x p) \<and> \<not> (x \<noteq> b \<and> dominates E r x b)))"

lemma frontiers_result:
  assumes ok: "frontier_ok E r dm e other (length v) (nb_of next v)" and other: "\<not> E\<^sup>*\<^sup>* r other" and ol: "other < length v"
    and vis: "\<And>b. nb_of next v b \<noteq> [] \<Longrightarrow> b \<noteq> other \<Longrightarrow> other \<notin> set (nb_of next v b)"
  shows "if joins_reached E r other (nb_of next v)
    then \<exists>fr. frontiers_from dm next e other 0 v (replicate (length v) []) = Some fr \<and> length fr = length v \<and>
      frontiers E r other (nb_of next v) fr \<and> entries_ok v fr \<and> fr ! other = []
    else frontiers_from dm next e other 0 v (replicate (length v) []) = None"
proof -
  let ?nb = "nb_of next v" and ?fr0 = "replicate (length v) ([] :: nat list)"
  note t = frontier_okD(1) [OF ok]
  have spec: "entries_from dm ?nb other (length v) 0 ?fr0 (frontiers_from dm next e other 0 v ?fr0)"
    by (rule frontiers_from_spec [OF ok]) simp_all
  have in_tree: "dm x \<noteq> None \<longleftrightarrow> E\<^sup>*\<^sup>* r x" for x using dominator_treeD(2) [OF t] .
  have falls: "(\<exists>b. falls dm ?nb other b) \<longleftrightarrow> \<not> joins_reached E r other ?nb"
    unfolding falls_def joins_reached_def using in_tree by metis
  show ?thesis
  proof (cases "frontiers_from dm next e other 0 v ?fr0")
    case None
    then have "\<exists>b. falls dm ?nb other b" using spec by (auto simp: entries_from_def)
    then show ?thesis using falls None by simp
  next
    case (Some fr)
    have nf: "\<not> falls dm ?nb other b" for b using spec Some by (simp add: entries_from_def)
    have len: "length fr = length v" using spec Some by (simp add: entries_from_def)
    have entry: "set (fr ! x) = {b. in_frontier dm ?nb other x b}" "sorted (fr ! x)" "distinct (fr ! x)" if "x < length v" for x
      using spec Some that by (simp_all add: entries_from_def)
    have jr: "joins_reached E r other ?nb" using falls nf by blast
    have "frontiers E r other ?nb fr"
      unfolding frontiers_def
    proof (intro allI impI conjI)
      fix x assume x: "E\<^sup>*\<^sup>* r x"
      then have xl: "x < length v" using frontier_okD(2) [OF ok] in_tree by simp
      show "sorted (fr ! x)" "distinct (fr ! x)" using entry(2,3) [OF xl] .
      fix b
      have "b \<in> set (fr ! x) \<longleftrightarrow> joins ?nb other b \<and> E\<^sup>*\<^sup>* r b \<and>
          (\<exists>p\<in>set (?nb b). E\<^sup>*\<^sup>* r p \<and> dominates E r x p \<and> \<not> (x \<noteq> b \<and> dominates E r x b))"
        unfolding entry(1) [OF xl] mem_Collect_eq by (rule in_frontier_dominates [OF ok x])
      then show "b \<in> set (fr ! x) \<longleftrightarrow> joins ?nb other b \<and> E\<^sup>*\<^sup>* r b \<and> (\<exists>p\<in>set (?nb b). dominates E r x p) \<and> \<not> (x \<noteq> b \<and> dominates E r x b)"
        using jr unfolding joins_reached_def by blast
    qed
    moreover have "entries_ok v fr"
      unfolding entries_ok_def
    proof (intro allI impI ballI)
      fix a f assume "a < length v" "f \<in> set (fr ! a)"
      then have "joins ?nb other f" using entry(1) by (auto simp: in_frontier_def)
      then show "bb_at v f \<noteq> None" by (cases "bb_at v f") (auto simp: joins_def nb_of_def kBBVectorInitialSize_def)
    qed
    moreover have "fr ! other = []"
    proof -
      have "\<not> in_frontier dm ?nb other other b" for b
      proof
        assume "in_frontier dm ?nb other other b"
        then obtain p where j: "joins ?nb other b" and p: "p \<in> set (?nb b)" "other \<in> run_set dm b p" by (auto simp: in_frontier_def)
        have "?nb b \<noteq> []" "b \<noteq> other" using p(1) j by (auto simp: joins_def)
        then have po: "p \<noteq> other" using vis p(1) by blast
        have "dm p \<noteq> None \<Longrightarrow> \<not> anc dm p other" using tree_anc_reach [OF t, of p other] in_tree other by blast
        moreover have "dm p = None \<Longrightarrow> \<not> anc dm p other" using anc_cases [of dm p other] po by auto
        ultimately show False using p(2) po by (auto simp: run_set_def split: option.splits)
      qed
      then show ?thesis using entry(1) [OF ol] by simp
    qed
    ultimately show ?thesis using jr Some len by simp
  qed
qed

section \<open>The tables\<close>

text \<open>What one direction of the phase leaves: tree, frontiers, iterated frontiers, children, preorder and numbers.\<close>

definition tables :: "(nat \<Rightarrow> nat \<Rightarrow> bool) \<Rightarrow> nat \<Rightarrow> nat \<Rightarrow> MeBB option list \<Rightarrow> (nat \<Rightarrow> nat list) \<Rightarrow> parents \<Rightarrow>
    nat list list \<Rightarrow> nat list list \<Rightarrow> nat list list \<Rightarrow> nat list \<Rightarrow> uint32 list \<Rightarrow> bool" where
  "tables E r other v nb dm fr iter ch order dfn \<longleftrightarrow> dominator_tree E r dm \<and> frontiers E r other nb fr \<and>
     (\<forall>x<length v. known v fr other (iter ! x) x) \<and> children_ok dm (length v) ch \<and> listing dm r order \<and>
     (\<forall>i<length order. dfn ! (order ! i) = word_of_nat i) \<and> visits ch [r] order"

lemma tablesD:
  assumes "tables E r other v nb dm fr iter ch order dfn"
  shows "dominator_tree E r dm" "frontiers E r other nb fr" "x < length v \<Longrightarrow> known v fr other (iter ! x) x"
    "children_ok dm (length v) ch" "listing dm r order" "i < length order \<Longrightarrow> dfn ! (order ! i) = word_of_nat i"
    "visits ch [r] order"
  using assms unfolding tables_def by simp_all

lemma dfn_of_nth:
  assumes "distinct order" and "\<forall>b\<in>set order. b < length dfn" and "i < length order"
  shows "dfn_of order dfn ! (order ! i) = word_of_nat i"
proof -
  have "length (fold (\<lambda>i dfn. dfn[order ! i := word_of_nat i]) [0..<k] dfn) = length dfn \<and>
      (\<forall>i<k. fold (\<lambda>i dfn. dfn[order ! i := word_of_nat i]) [0..<k] dfn ! (order ! i) = word_of_nat i)" if "k \<le> length order" for k
    using that
  proof (induction k)
    case (Suc k)
    let ?d = "fold (\<lambda>i dfn. dfn[order ! i := word_of_nat i]) [0..<k] dfn"
    have k: "order ! k < length ?d" using Suc assms(2) by simp
    have "?d[order ! k := word_of_nat k] ! (order ! i) = word_of_nat i" if "i < Suc k" for i
    proof (cases "i = k")
      case True
      then show ?thesis using k by simp
    next
      case False
      then have "order ! i \<noteq> order ! k" using assms(1) that Suc.prems by (simp add: nth_eq_iff_index_eq)
      then show ?thesis using Suc False that by simp
    qed
    then show ?case using Suc by simp
  qed simp
  then show ?thesis unfolding dfn_of_def using assms(3) by blast
qed

text \<open>From the tree to the numbers, for either direction.\<close>

lemma tables_end:
  assumes t: "dominator_tree E r dm" and inv: "\<And>x. dm x \<noteq> None \<Longrightarrow> bb_at v x \<noteq> None"
    and fr: "frontiers E r other nb fr" "entries_ok v fr" "fr ! other = []"
  shows "\<exists>iter order. iter_frontiers_from v fr other [0..<length v] (replicate (length v) []) = Some iter \<and>
    preorder (children v dm (replicate (length v) [])) [r] (replicate (length v) 0, 0) =
      Some (order @ drop (length order) (replicate (length v) 0), length order) \<and>
    tables E r other v nb dm fr iter (children v dm (replicate (length v) [])) order (dfn_of order (replicate (length v) (- 1)))"
proof -
  let ?ch = "children v dm (replicate (length v) [])"
  have up: "i < length v \<and> v ! i \<noteq> None \<and> p < length v" if "dm i = Some p" for i p
    using inv [of i] inv [of p] dominator_treeD(3) [OF t that] that bb_at_nth [of v i] bb_at_nth [of v p] by auto
  have ch: "children_ok dm (length v) ?ch" by (rule children_spec [OF up])
  have less: "x < length v" if "dm x \<noteq> None" for x using up that by auto
  have rr: "E\<^sup>*\<^sup>* r r" by simp
  obtain order where o: "listing dm r order" "visits ?ch [r] order" using preorder_tree [OF t less ch rr] by blast
  have sub: "set order \<subseteq> {..<length v}"
  proof
    fix y assume "y \<in> set order"
    then have "anc dm y r" using listingD(2) [OF o(1)] by simp
    then have "dm y \<noteq> None" using anc_cases [of dm y r] dominator_treeD(1) [OF t] by auto
    then show "y \<in> {..<length v}" using less by simp
  qed
  have "card (set order) \<le> length v" using card_mono [OF finite_lessThan sub] by simp
  then have len: "length order \<le> length v" using distinct_card [OF listingD(1) [OF o(1)]] by simp
  have pre: "preorder ?ch [r] (replicate (length v) 0, 0) = Some (order @ drop (length order) (replicate (length v) 0), length order)"
    using writesD [OF visits_writes [OF o(2)], of 0 "replicate (length v) 0"] len by simp
  obtain iter where it: "iter_frontiers_from v fr other [0..<length v] (replicate (length v) []) = Some iter"
      "\<forall>x<length v. known v fr other (iter ! x) x"
    using iter_frontiers_known [OF fr(2,3), of "replicate (length v) []"] by auto
  have "\<forall>i<length order. dfn_of order (replicate (length v) (- 1)) ! (order ! i) = word_of_nat i"
    using dfn_of_nth [OF listingD(1) [OF o(1)], of "replicate (length v) (- 1)"] sub by auto
  then have "tables E r other v nb dm fr iter ?ch order (dfn_of order (replicate (length v) (- 1)))"
    unfolding tables_def using t fr(1) it(2) ch o by (intro conjI)
  then show ?thesis using it(1) pre by blast
qed

section \<open>The phase\<close>

definition forward_new :: "Dominance \<Rightarrow> bool" where
  "forward_new d \<longleftrightarrow> (let n = length (bbVec d) in
     postOrderIDVec d = replicate n (- 1) \<and> doms d = Map.empty \<and> domFrontier d = replicate n [] \<and> domChildren d = replicate n [] \<and>
     iterDomFrontier d = replicate n [] \<and> dtPreOrder d = replicate n 0 \<and> dtDfn d = replicate n (- 1))"

definition backward_new :: "Dominance \<Rightarrow> bool" where
  "backward_new d \<longleftrightarrow> (let n = length (bbVec d) in
     pdomPostOrderIDVec d = replicate n (- 1) \<and> pdoms d = Map.empty \<and> pdomFrontier d = replicate n [] \<and> pdomChildren d = replicate n [] \<and>
     iterPdomFrontier d = replicate n [] \<and> pdtPreOrder d = replicate n 0 \<and> pdtDfn d = replicate n (- 1))"

definition forward_tables :: "Dominance \<Rightarrow> bool" where
  "forward_tables d \<longleftrightarrow> tables (cfg_edge (bbVec d)) (commonEntryBB d) (commonExitBB d) (bbVec d) (preds_of (bbVec d))
     (doms d) (domFrontier d) (iterDomFrontier d) (domChildren d) (dtPreOrder d) (dtDfn d)"

definition backward_tables :: "Dominance \<Rightarrow> bool" where
  "backward_tables d \<longleftrightarrow> tables (rev_edge (bbVec d)) (commonExitBB d) (commonEntryBB d) (bbVec d) (succs_of (bbVec d))
     (pdoms d) (pdomFrontier d) (iterPdomFrontier d) (pdomChildren d) (pdtPreOrder d) (pdtDfn d)"

definition joins_forward :: "MeBB option list \<Rightarrow> BBId \<Rightarrow> BBId \<Rightarrow> bool" where
  "joins_forward v entry exit \<longleftrightarrow> joins_reached (cfg_edge v) entry exit (preds_of v)"

definition joins_backward :: "MeBB option list \<Rightarrow> BBId \<Rightarrow> BBId \<Rightarrow> bool" where
  "joins_backward v entry exit \<longleftrightarrow> joins_reached (rev_edge v) exit entry (succs_of v)"

lemma new_tables: "forward_new (new_Dominance v entry exit)" "backward_new (new_Dominance v entry exit)"
  by (simp_all add: new_Dominance_def Let_def forward_new_def backward_new_def)

lemma tree_blocks:
  assumes wf: "wf_cfg v entry exit"
  shows "dominator_tree (cfg_edge v) entry dm \<Longrightarrow> dm x \<noteq> None \<Longrightarrow> bb_at v x \<noteq> None"
    and "dominator_tree (rev_edge v) exit dm \<Longrightarrow> dm x \<noteq> None \<Longrightarrow> bb_at v x \<noteq> None"
proof -
  show "bb_at v x \<noteq> None" if "dominator_tree (cfg_edge v) entry dm" "dm x \<noteq> None"
    using reach_less [OF wf, of x] dominator_treeD(2) [OF that(1), of x] that(2) wf_cfgD(2) [OF wf] by (auto simp: normal_def)
  show "bb_at v x \<noteq> None" if "dominator_tree (rev_edge v) exit dm" "dm x \<noteq> None"
    using rreach_less [OF wf, of x] dominator_treeD(2) [OF that(1), of x] that(2) wf_cfgD(3) [OF wf] by (auto simp: normal_def)
qed

lemma run_dominance_spec:
  assumes wf: "wf_Dominance d" and new: "forward_new d"
  shows "if joins_forward (bbVec d) (commonEntryBB d) (commonExitBB d)
    then \<exists>ids order dm fr ch iter pre dfn. run_dominance d = Some (d\<lparr>postOrderIDVec := ids, reversePostOrder := order, doms := dm,
        domFrontier := fr, domChildren := ch, iterDomFrontier := iter, dtPreOrder := pre, dtDfn := dfn\<rparr>) \<and>
      tables (cfg_edge (bbVec d)) (commonEntryBB d) (commonExitBB d) (bbVec d) (preds_of (bbVec d)) dm fr iter ch pre dfn
    else run_dominance d = None"
proof -
  let ?v = "bbVec d" and ?e = "commonEntryBB d" and ?x = "commonExitBB d"
  have n: "postOrderIDVec d = replicate (length ?v) (- 1)" "doms d = Map.empty" "domFrontier d = replicate (length ?v) []"
      "domChildren d = replicate (length ?v) []" "iterDomFrontier d = replicate (length ?v) []"
      "dtPreOrder d = replicate (length ?v) 0" "dtDfn d = replicate (length ?v) (- 1)"
    using new by (simp_all add: forward_new_def Let_def)
  obtain ids order where g: "GenPostOrderID d = Some (d\<lparr>postOrderIDVec := ids, reversePostOrder := order\<rparr>)"
      "numbering (d\<lparr>postOrderIDVec := ids, reversePostOrder := order\<rparr>)"
    using GenPostOrderID_numbering [OF wf n(1)] by blast
  let ?d1 = "d\<lparr>postOrderIDVec := ids, reversePostOrder := order\<rparr>"
  obtain dm where c: "ComputeDominance ?d1 = Some (?d1\<lparr>doms := dm\<rparr>)" and t: "dominator_tree (cfg_edge ?v) ?e dm"
    using ComputeDominance_tree [of ?d1] wf n(2) g(2) by auto
  have ok: "frontier_ok (cfg_edge ?v) ?e dm ?e ?x (length ?v) (nb_of pred ?v)"
    using dom_frontier_ok [OF wf t] by (simp add: preds_nb)
  have nx: "\<not> (cfg_edge ?v)\<^sup>*\<^sup>* ?e ?x" using reach_less [OF wf, of ?x] wf_cfgD(1) [OF wf] by (auto simp: normal_def)
  have "?x \<notin> set (preds_of ?v b)" if "b \<noteq> ?x" for b using neighbour_normal(1) [OF wf that, of ?x] by (auto simp: normal_def)
  note fr = frontiers_result [OF ok nx bb_at_less [OF wf_cfgD(3) [OF wf]], unfolded preds_nb, OF this]
  have cf: "ComputeDomFrontiers (?d1\<lparr>doms := dm\<rparr>) = map_option (\<lambda>fr. ?d1\<lparr>doms := dm, domFrontier := fr\<rparr>)
      (frontiers_from dm pred ?e ?x 0 ?v (replicate (length ?v) []))"
    unfolding ComputeDomFrontiers_def using n(3) by simp
  show ?thesis
  proof (cases "joins_forward ?v ?e ?x")
    case True
    then obtain f where f: "frontiers_from dm pred ?e ?x 0 ?v (replicate (length ?v) []) = Some f"
        "frontiers (cfg_edge ?v) ?e ?x (preds_of ?v) f" "entries_ok ?v f" "f ! ?x = []"
      using fr unfolding joins_forward_def by auto
    obtain iter pre where e: "iter_frontiers_from ?v f ?x [0..<length ?v] (replicate (length ?v) []) = Some iter"
        "preorder (children ?v dm (replicate (length ?v) [])) [?e] (replicate (length ?v) 0, 0) =
          Some (pre @ drop (length pre) (replicate (length ?v) 0), length pre)"
        "tables (cfg_edge ?v) ?e ?x ?v (preds_of ?v) dm f iter (children ?v dm (replicate (length ?v) [])) pre (dfn_of pre (replicate (length ?v) (- 1)))"
      using tables_end [OF t tree_blocks(1) [OF wf t] f(2-4)] by blast
    have "run_dominance d = Some (d\<lparr>postOrderIDVec := ids, reversePostOrder := order, doms := dm,
        domFrontier := f, domChildren := children ?v dm (replicate (length ?v) []), iterDomFrontier := iter, dtPreOrder := pre,
        dtDfn := dfn_of pre (replicate (length ?v) (- 1))\<rparr>)"
      unfolding run_dominance_def g(1) bind.bind_lunit c cf f(1) option.map
      using e(1,2) n(4-7) by (simp add: ComputeDomChildren_def ComputeIterDomFrontiers_def ComputeDtPreorder_def ComputeDtDfn_def)
    then show ?thesis unfolding if_P [OF True] using e(3) by (intro exI conjI)
  next
    case False
    then have "frontiers_from dm pred ?e ?x 0 ?v (replicate (length ?v) []) = None" using fr unfolding joins_forward_def by simp
    then have "run_dominance d = None" unfolding run_dominance_def using g(1) c cf by simp
    then show ?thesis using False by simp
  qed
qed

lemma run_postdominance_spec:
  assumes wf: "wf_Dominance d" and exits: "exits_ok (bbVec d) (commonEntryBB d) (commonExitBB d)" and new: "backward_new d"
  shows "if joins_backward (bbVec d) (commonEntryBB d) (commonExitBB d)
    then \<exists>ids order dm fr ch iter pre dfn. run_postdominance d = Some (d\<lparr>pdomPostOrderIDVec := ids, pdomReversePostOrder := order, pdoms := dm,
        pdomFrontier := fr, pdomChildren := ch, iterPdomFrontier := iter, pdtPreOrder := pre, pdtDfn := dfn\<rparr>) \<and>
      tables (rev_edge (bbVec d)) (commonExitBB d) (commonEntryBB d) (bbVec d) (succs_of (bbVec d)) dm fr iter ch pre dfn
    else run_postdominance d = None"
proof -
  let ?v = "bbVec d" and ?e = "commonEntryBB d" and ?x = "commonExitBB d"
  have n: "pdomPostOrderIDVec d = replicate (length ?v) (- 1)" "pdoms d = Map.empty" "pdomFrontier d = replicate (length ?v) []"
      "pdomChildren d = replicate (length ?v) []" "iterPdomFrontier d = replicate (length ?v) []"
      "pdtPreOrder d = replicate (length ?v) 0" "pdtDfn d = replicate (length ?v) (- 1)"
    using new by (simp_all add: backward_new_def Let_def)
  obtain ids order where g: "PdomGenPostOrderID d = Some (d\<lparr>pdomPostOrderIDVec := ids, pdomReversePostOrder := order\<rparr>)"
      "pnumbering (d\<lparr>pdomPostOrderIDVec := ids, pdomReversePostOrder := order\<rparr>)"
    using PdomGenPostOrderID_numbering [OF wf n(1)] by blast
  let ?d1 = "d\<lparr>pdomPostOrderIDVec := ids, pdomReversePostOrder := order\<rparr>"
  obtain dm where c: "ComputePostDominance ?d1 = Some (?d1\<lparr>pdoms := dm\<rparr>)" and t: "dominator_tree (rev_edge ?v) ?x dm"
    using ComputePostDominance_tree [of ?d1] wf exits n(2) g(2) by auto
  have ok: "frontier_ok (rev_edge ?v) ?x dm ?e ?e (length ?v) (nb_of succ ?v)"
    using pdom_frontier_ok [OF wf t] by (simp add: succs_nb)
  have nx: "\<not> (rev_edge ?v)\<^sup>*\<^sup>* ?x ?e" using rreach_less [OF wf, of ?e] wf_cfgD(1) [OF wf] by (auto simp: normal_def)
  have "?e \<notin> set (succs_of ?v b)" if "b \<noteq> ?e" for b using neighbour_normal(2) [OF wf that, of ?e] by (auto simp: normal_def)
  note fr = frontiers_result [OF ok nx bb_at_less [OF wf_cfgD(2) [OF wf]], unfolded succs_nb, OF this]
  have cf: "ComputePdomFrontiers (?d1\<lparr>pdoms := dm\<rparr>) = map_option (\<lambda>fr. ?d1\<lparr>pdoms := dm, pdomFrontier := fr\<rparr>)
      (frontiers_from dm succ ?e ?e 0 ?v (replicate (length ?v) []))"
    unfolding ComputePdomFrontiers_def using n(3) by simp
  show ?thesis
  proof (cases "joins_backward ?v ?e ?x")
    case True
    then obtain f where f: "frontiers_from dm succ ?e ?e 0 ?v (replicate (length ?v) []) = Some f"
        "frontiers (rev_edge ?v) ?x ?e (succs_of ?v) f" "entries_ok ?v f" "f ! ?e = []"
      using fr unfolding joins_backward_def by auto
    obtain iter pre where e: "iter_frontiers_from ?v f ?e [0..<length ?v] (replicate (length ?v) []) = Some iter"
        "preorder (children ?v dm (replicate (length ?v) [])) [?x] (replicate (length ?v) 0, 0) =
          Some (pre @ drop (length pre) (replicate (length ?v) 0), length pre)"
        "tables (rev_edge ?v) ?x ?e ?v (succs_of ?v) dm f iter (children ?v dm (replicate (length ?v) [])) pre (dfn_of pre (replicate (length ?v) (- 1)))"
      using tables_end [OF t tree_blocks(2) [OF wf t] f(2-4)] by blast
    have "run_postdominance d = Some (d\<lparr>pdomPostOrderIDVec := ids, pdomReversePostOrder := order, pdoms := dm,
        pdomFrontier := f, pdomChildren := children ?v dm (replicate (length ?v) []), iterPdomFrontier := iter, pdtPreOrder := pre,
        pdtDfn := dfn_of pre (replicate (length ?v) (- 1))\<rparr>)"
      unfolding run_postdominance_def g(1) bind.bind_lunit c cf f(1) option.map
      using e(1,2) n(4-7) by (simp add: ComputePdomChildren_def ComputeIterPdomFrontiers_def ComputePdtPreorder_def ComputePdtDfn_def)
    then show ?thesis unfolding if_P [OF True] using e(3) by (intro exI conjI)
  next
    case False
    then have "frontiers_from dm succ ?e ?e 0 ?v (replicate (length ?v) []) = None" using fr unfolding joins_backward_def by simp
    then have "run_postdominance d = None" unfolding run_postdominance_def using g(1) c cf by simp
    then show ?thesis using False by simp
  qed
qed

lemma MeDoDominance_spec:
  assumes wf: "wf_cfg v entry exit" and exits: "exits_ok v entry exit"
  shows "if joins_forward v entry exit \<and> joins_backward v entry exit
    then \<exists>d. MeDoDominance v entry exit = Some d \<and> bbVec d = v \<and> commonEntryBB d = entry \<and> commonExitBB d = exit \<and>
      forward_tables d \<and> backward_tables d
    else MeDoDominance v entry exit = None"
proof (cases "joins_forward v entry exit")
  case True
  let ?d = "new_Dominance v entry exit"
  obtain ids order dm fr ch iter pre dfn where f: "run_dominance ?d = Some (?d\<lparr>postOrderIDVec := ids, reversePostOrder := order, doms := dm,
        domFrontier := fr, domChildren := ch, iterDomFrontier := iter, dtPreOrder := pre, dtDfn := dfn\<rparr>)"
      and t: "tables (cfg_edge v) entry exit v (preds_of v) dm fr iter ch pre dfn"
    using run_dominance_spec [of ?d] wf new_tables(1) True by auto
  let ?d1 = "?d\<lparr>postOrderIDVec := ids, reversePostOrder := order, doms := dm,
        domFrontier := fr, domChildren := ch, iterDomFrontier := iter, dtPreOrder := pre, dtDfn := dfn\<rparr>"
  have "backward_new ?d1" using new_tables(2) [of v entry exit] by (simp add: backward_new_def)
  note b = run_postdominance_spec [of ?d1, OF _ _ this]
  have m: "MeDoDominance v entry exit = run_postdominance ?d1" using f by (simp add: MeDoDominance_def)
  show ?thesis
  proof (cases "joins_backward v entry exit")
    case True
    then show ?thesis using b wf exits m t \<open>joins_forward v entry exit\<close> by (auto simp: forward_tables_def backward_tables_def)
  next
    case False
    then show ?thesis using b wf exits m by simp
  qed
next
  case False
  then have "run_dominance (new_Dominance v entry exit) = None"
    using run_dominance_spec [of "new_Dominance v entry exit"] wf new_tables(1) by simp
  then show ?thesis using False by (simp add: MeDoDominance_def)
qed

end
