(* ===== verification/DomClaims.thy ===== *)
theory DomClaims
  imports DomPhase
begin

text \<open>
  The properties of the dominator analysis of the optimiser, for graphs whose lists of
  successors and predecessors agree (\<open>wf_cfg\<close>).
\<close>

declare walk.simps [code] climb.simps [code] Intersect.simps [code] dom_loop.simps [code] run_up.simps [code]
  preorder.simps [code] iter_walk.simps [code] find_up.simps [code]

lemma reach_path: "(\<exists>xs. path E r xs b) \<longleftrightarrow> E\<^sup>*\<^sup>* r b"
proof
  have "path E r xs b \<Longrightarrow> E\<^sup>*\<^sup>* r b" for xs
    by (induction rule: path.induct) (auto intro: rtranclp.rtrancl_into_rtrancl)
  then show "\<exists>xs. path E r xs b \<Longrightarrow> E\<^sup>*\<^sup>* r b" by blast
  show "E\<^sup>*\<^sup>* r b \<Longrightarrow> \<exists>xs. path E r xs b"
    by (induction rule: rtranclp_induct) (blast intro: path.start path.step)+
qed

text \<open>A loop with a branch in it: blocks 2 to 5 between the common entry 0 and the common exit 1.\<close>

definition graph_block :: "BBId list \<Rightarrow> BBId list \<Rightarrow> uint32 \<Rightarrow> MeBB" where
  "graph_block ss ps attrs = new_MeBB\<lparr>succ := ss, pred := ps, attributes := attrs\<rparr>"

definition loop_graph :: "MeBB option list" where
  "loop_graph =
     [Some (graph_block [2] [] 0), Some (graph_block [] [5] 0),
      Some (graph_block [3, 4] [5] 0), Some (graph_block [5] [2] 0),
      Some (graph_block [5] [2] 0), Some (graph_block [2] [3, 4] kBBAttrIsExit)]"

lemma loop_graph: "wf_cfg loop_graph 0 1" "exits_ok loop_graph 0 1"
  by code_simp+

lemma loop_graph_returns: "MeDoDominance loop_graph 0 1 \<noteq> None"
proof -
  have "map_option (\<lambda>d. (dtPreOrder d, domFrontier d)) (MeDoDominance loop_graph 0 1) = Some ([0, 2, 3, 4, 5], [[], [], [], [5], [5], []])"
    by code_simp
  then show ?thesis by auto
qed

text \<open>(C5) \<^verbatim>\<open>GenPostOrderID\<close> and \<^verbatim>\<open>ComputeDominance\<close> end without following a null pointer; then exactly the
  blocks on a path from the common entry have an immediate dominator, and it is the nearest
  block, other than the block itself, that lies on every path to the block.\<close>

theorem ComputeDominance_correct:
  assumes "wf_cfg v entry exit"
  shows "\<exists>d. Option.bind (GenPostOrderID (new_Dominance v entry exit)) ComputeDominance = Some d \<and> doms d entry = Some entry \<and>
    (\<forall>b. doms d b \<noteq> None \<longleftrightarrow> (\<exists>xs. path (cfg_edge v) entry xs b)) \<and>
    (\<forall>b p. b \<noteq> entry \<longrightarrow> doms d b = Some p \<longrightarrow> p \<noteq> b \<and> (\<forall>xs. path (cfg_edge v) entry xs b \<longrightarrow> p \<in> set xs) \<and>
       (\<forall>z. z \<noteq> b \<longrightarrow> (\<forall>xs. path (cfg_edge v) entry xs b \<longrightarrow> z \<in> set xs) \<longrightarrow> (\<forall>xs. path (cfg_edge v) entry xs p \<longrightarrow> z \<in> set xs)))"
proof -
  let ?d = "new_Dominance v entry exit" and ?E = "cfg_edge v"
  obtain ids order where g: "GenPostOrderID ?d = Some (?d\<lparr>postOrderIDVec := ids, reversePostOrder := order\<rparr>)"
      "numbering (?d\<lparr>postOrderIDVec := ids, reversePostOrder := order\<rparr>)"
    using GenPostOrderID_numbering [of ?d] assms by auto
  obtain dm where c: "ComputeDominance (?d\<lparr>postOrderIDVec := ids, reversePostOrder := order\<rparr>) =
        Some (?d\<lparr>postOrderIDVec := ids, reversePostOrder := order, doms := dm\<rparr>)" and t: "dominator_tree ?E entry dm"
    using ComputeDominance_tree [OF _ g(2)] assms by auto
  have "p \<noteq> b \<and> dominates ?E entry p b \<and> (\<forall>z. z \<noteq> b \<longrightarrow> dominates ?E entry z b \<longrightarrow> dominates ?E entry z p)"
    if "b \<noteq> entry" "dm b = Some p" for b p
    using tree_idom [OF t _ that(1)] dominator_treeD(2) [OF t, of b] that(2) by auto
  then show ?thesis
    using g(1) c dominator_treeD(1,2) [OF t] unfolding reach_path dominates_path [symmetric] by simp
qed

theorem ComputeDominance_correct_witness:
  "\<exists>d. Option.bind (GenPostOrderID (new_Dominance loop_graph 0 1)) ComputeDominance = Some d \<and> doms d 0 = Some 0"
  using ComputeDominance_correct [OF loop_graph(1)] by blast

text \<open>(C8) The queries on the result of the phase: \<^verbatim>\<open>Dominate\<close> holds of a block and itself and
  of a block on every path from the common entry to a reachable block, \<^verbatim>\<open>PostDominate\<close> the
  same for the paths against the edges from the common exit; both end.\<close>

theorem Dominate_iff:
  assumes "wf_cfg v entry exit" and "exits_ok v entry exit" and "MeDoDominance v entry exit = Some d"
  shows "Dominate d a b = Some (a = b \<or> (\<exists>xs. path (cfg_edge v) entry xs b) \<and> (\<forall>xs. path (cfg_edge v) entry xs b \<longrightarrow> a \<in> set xs)) \<and>
    PostDominate d a b = Some (a = b \<or> (\<exists>xs. path (rev_edge v) exit xs b) \<and> (\<forall>xs. path (rev_edge v) exit xs b \<longrightarrow> a \<in> set xs))"
proof -
  have d: "bbVec d = v" "commonEntryBB d = entry" "commonExitBB d = exit" "forward_tables d" "backward_tables d"
    using MeDoDominance_spec [OF assms(1,2)] assms(3) by (auto split: if_splits)
  have "dominator_tree (cfg_edge v) entry (doms d)" "dominator_tree (rev_edge v) exit (pdoms d)"
    using d(4,5) tablesD(1) unfolding forward_tables_def backward_tables_def d(1-3) by blast+
  then show ?thesis
    unfolding Dominate_def PostDominate_def d(2,3) reach_path dominates_path [symmetric] by (simp only: tree_query simp_thms)
qed

theorem Dominate_iff_witness:
  "\<exists>d. MeDoDominance loop_graph 0 1 = Some d \<and>
    Dominate d 2 5 = Some ((2::nat) = 5 \<or> (\<exists>xs. path (cfg_edge loop_graph) 0 xs 5) \<and> (\<forall>xs. path (cfg_edge loop_graph) 0 xs 5 \<longrightarrow> 2 \<in> set xs))"
  using loop_graph_returns Dominate_iff [OF loop_graph] by fast

text \<open>(C38) The phase returns exactly when every reachable block with two or more listed
  predecessors has only reachable predecessors, and every block that reaches the common exit
  and has two or more successors has only successors that reach it; otherwise the run of a
  frontier follows a null pointer.\<close>

theorem MeDoDominance_returns:
  assumes "wf_cfg v entry exit" and "exits_ok v entry exit"
  shows "MeDoDominance v entry exit \<noteq> None \<longleftrightarrow>
    (\<forall>b. b \<noteq> exit \<and> 2 \<le> length (preds_of v b) \<and> (cfg_edge v)\<^sup>*\<^sup>* entry b \<longrightarrow> (\<forall>p\<in>set (preds_of v b). (cfg_edge v)\<^sup>*\<^sup>* entry p)) \<and>
    (\<forall>b. b \<noteq> entry \<and> 2 \<le> length (succs_of v b) \<and> (rev_edge v)\<^sup>*\<^sup>* exit b \<longrightarrow> (\<forall>s\<in>set (succs_of v b). (rev_edge v)\<^sup>*\<^sup>* exit s))"
proof -
  have "MeDoDominance v entry exit \<noteq> None \<longleftrightarrow> joins_forward v entry exit \<and> joins_backward v entry exit"
    using MeDoDominance_spec [OF assms] by (auto split: if_splits)
  then show ?thesis
    unfolding joins_forward_def joins_backward_def joins_reached_def joins_def kBBVectorInitialSize_def by (simp only: conj_assoc imp_conjL)
qed

definition dead_pred_graph :: "MeBB option list" where
  "dead_pred_graph =
     [Some (graph_block [2] [] 0), Some (graph_block [] [4] 0),
      Some (graph_block [4] [] 0), Some (graph_block [4] [] 0),
      Some (graph_block [] [2, 3] kBBAttrIsExit)]"

theorem MeDoDominance_returns_witness:
  "(\<exists>b p. b \<noteq> 1 \<and> 2 \<le> length (preds_of dead_pred_graph b) \<and> (cfg_edge dead_pred_graph)\<^sup>*\<^sup>* 0 b \<and>
      p \<in> set (preds_of dead_pred_graph b) \<and> \<not> (cfg_edge dead_pred_graph)\<^sup>*\<^sup>* 0 p) \<or>
   (\<exists>b s. b \<noteq> 0 \<and> 2 \<le> length (succs_of dead_pred_graph b) \<and> (rev_edge dead_pred_graph)\<^sup>*\<^sup>* 1 b \<and>
      s \<in> set (succs_of dead_pred_graph b) \<and> \<not> (rev_edge dead_pred_graph)\<^sup>*\<^sup>* 1 s)"
proof -
  have "wf_cfg dead_pred_graph 0 1" "exits_ok dead_pred_graph 0 1" by code_simp+
  moreover have "map_option dtDfn (MeDoDominance dead_pred_graph 0 1) = None" by code_simp
  ultimately have "\<not> (\<forall>b. b \<noteq> 1 \<and> 2 \<le> length (preds_of dead_pred_graph b) \<and> (cfg_edge dead_pred_graph)\<^sup>*\<^sup>* 0 b \<longrightarrow>
         (\<forall>p\<in>set (preds_of dead_pred_graph b). (cfg_edge dead_pred_graph)\<^sup>*\<^sup>* 0 p)) \<or>
     \<not> (\<forall>b. b \<noteq> 0 \<and> 2 \<le> length (succs_of dead_pred_graph b) \<and> (rev_edge dead_pred_graph)\<^sup>*\<^sup>* 1 b \<longrightarrow>
         (\<forall>s\<in>set (succs_of dead_pred_graph b). (rev_edge dead_pred_graph)\<^sup>*\<^sup>* 1 s))"
    using MeDoDominance_returns [of dead_pred_graph 0 1] by fast
  then show ?thesis by (simp only: not_all not_imp Ball_def conj_assoc) (elim disjE exE conjE; blast)
qed

lemma phase_tables:
  assumes "wf_cfg v entry exit" and "exits_ok v entry exit" and "MeDoDominance v entry exit = Some d"
  shows "tables (cfg_edge v) entry exit v (preds_of v) (doms d) (domFrontier d) (iterDomFrontier d) (domChildren d) (dtPreOrder d) (dtDfn d)"
    and "tables (rev_edge v) exit entry v (succs_of v) (pdoms d) (pdomFrontier d) (iterPdomFrontier d) (pdomChildren d) (pdtPreOrder d) (pdtDfn d)"
proof -
  have d: "bbVec d = v" "commonEntryBB d = entry" "commonExitBB d = exit" "forward_tables d" "backward_tables d"
    using MeDoDominance_spec [OF assms(1,2)] assms(3) by (auto split: if_splits)
  show "tables (cfg_edge v) entry exit v (preds_of v) (doms d) (domFrontier d) (iterDomFrontier d) (domChildren d) (dtPreOrder d) (dtDfn d)"
    "tables (rev_edge v) exit entry v (succs_of v) (pdoms d) (pdomFrontier d) (iterPdomFrontier d) (pdomChildren d) (pdtPreOrder d) (pdtDfn d)"
    using d(4,5) unfolding forward_tables_def backward_tables_def d(1-3) .
qed

text \<open>(C9) The dominance frontier of a reachable block \<open>x\<close> is a sorted list of the reachable blocks with
  at least two listed predecessors of which \<open>x\<close> dominates one without dominating the block
  strictly; the frontier of the reversed graph in the same way. A first block that only one
  block jumps back to is therefore in no frontier: its edge from the common entry is not listed.\<close>

theorem frontier_blocks:
  assumes "wf_cfg v entry exit" and "exits_ok v entry exit" and "MeDoDominance v entry exit = Some d"
  shows "((cfg_edge v)\<^sup>*\<^sup>* entry x \<longrightarrow> sorted (domFrontier d ! x) \<and> distinct (domFrontier d ! x) \<and>
      (\<forall>b. b \<in> set (domFrontier d ! x) \<longleftrightarrow> 2 \<le> length (preds_of v b) \<and> (cfg_edge v)\<^sup>*\<^sup>* entry b \<and>
        (\<exists>p\<in>set (preds_of v b). dominates (cfg_edge v) entry x p) \<and> \<not> (x \<noteq> b \<and> dominates (cfg_edge v) entry x b))) \<and>
    ((rev_edge v)\<^sup>*\<^sup>* exit x \<longrightarrow> sorted (pdomFrontier d ! x) \<and> distinct (pdomFrontier d ! x) \<and>
      (\<forall>b. b \<in> set (pdomFrontier d ! x) \<longleftrightarrow> 2 \<le> length (succs_of v b) \<and> (rev_edge v)\<^sup>*\<^sup>* exit b \<and>
        (\<exists>s\<in>set (succs_of v b). dominates (rev_edge v) exit x s) \<and> \<not> (x \<noteq> b \<and> dominates (rev_edge v) exit x b)))"
proof -
  have "b \<noteq> exit" if "(cfg_edge v)\<^sup>*\<^sup>* entry b" for b
    using reach_less [OF assms(1) that] wf_cfgD(1) [OF assms(1)] by (auto simp: normal_def)
  then have e: "joins (preds_of v) exit b \<and> (cfg_edge v)\<^sup>*\<^sup>* entry b \<longleftrightarrow> 2 \<le> length (preds_of v b) \<and> (cfg_edge v)\<^sup>*\<^sup>* entry b" for b
    by (auto simp: joins_def kBBVectorInitialSize_def)
  have "b \<noteq> entry" if "(rev_edge v)\<^sup>*\<^sup>* exit b" for b
    using rreach_less [OF assms(1) that] wf_cfgD(1) [OF assms(1)] by (auto simp: normal_def)
  then have x: "joins (succs_of v) entry b \<and> (rev_edge v)\<^sup>*\<^sup>* exit b \<longleftrightarrow> 2 \<le> length (succs_of v b) \<and> (rev_edge v)\<^sup>*\<^sup>* exit b" for b
    by (auto simp: joins_def kBBVectorInitialSize_def)
  note f = tablesD(2) [OF phase_tables(1) [OF assms]] tablesD(2) [OF phase_tables(2) [OF assms]]
  show ?thesis
    unfolding conj_assoc [symmetric] e [symmetric] x [symmetric]
    using f [unfolded frontiers_def conj_assoc [symmetric], THEN spec, of x] by (rule conjI)
qed

theorem frontier_blocks_witness:
  "\<exists>d. MeDoDominance loop_graph 0 1 = Some d \<and> domFrontier d ! 3 = [5] \<and> \<not> 2 \<le> length (preds_of loop_graph 2) \<and> 2 \<notin> set (domFrontier d ! 5)"
proof -
  have m: "map_option (\<lambda>d. domFrontier d ! 3) (MeDoDominance loop_graph 0 1) = Some [5]" and l: "\<not> 2 \<le> length (preds_of loop_graph 2)"
    by code_simp+
  obtain d where d: "MeDoDominance loop_graph 0 1 = Some d" "domFrontier d ! 3 = [5]" using m by auto
  have e: "cfg_edge loop_graph 0 2" "cfg_edge loop_graph 2 3" "cfg_edge loop_graph 3 5" unfolding cfg_edge_def by code_simp+
  then have "(cfg_edge loop_graph)\<^sup>*\<^sup>* 0 5" by (intro converse_rtranclp_into_rtranclp [OF _ converse_rtranclp_into_rtranclp [OF _ r_into_rtranclp]])
  then have "\<forall>b. b \<in> set (domFrontier d ! 5) \<longrightarrow> 2 \<le> length (preds_of loop_graph b)" using frontier_blocks [OF loop_graph d(1), of 5] by simp
  then have "2 \<notin> set (domFrontier d ! 5)" using l by blast
  then show ?thesis using d l by blast
qed

text \<open>(C39) The iterated dominance frontier of a block other than the common exit is the sorted list
  of the blocks reached by going from frontier to frontier one or more times, although each
  list is computed from the lists of smaller ids; the same for the reversed graph.\<close>

theorem iterated_frontier_blocks:
  assumes "wf_cfg v entry exit" and "exits_ok v entry exit" and "MeDoDominance v entry exit = Some d" and "bb_at v x \<noteq> None"
  shows "(x \<noteq> exit \<longrightarrow> sorted (iterDomFrontier d ! x) \<and> distinct (iterDomFrontier d ! x) \<and>
      set (iterDomFrontier d ! x) = {c. (\<lambda>a b. b \<in> set (domFrontier d ! a))\<^sup>+\<^sup>+ x c}) \<and>
    (x \<noteq> entry \<longrightarrow> sorted (iterPdomFrontier d ! x) \<and> distinct (iterPdomFrontier d ! x) \<and>
      set (iterPdomFrontier d ! x) = {c. (\<lambda>a b. b \<in> set (pdomFrontier d ! a))\<^sup>+\<^sup>+ x c})"
proof -
  have x: "x < length v" using assms(4) by (rule bb_at_less)
  have "known v (domFrontier d) exit (iterDomFrontier d ! x) x" "known v (pdomFrontier d) entry (iterPdomFrontier d ! x) x"
    using tablesD(3) [OF phase_tables(1) [OF assms(1-3)] x] tablesD(3) [OF phase_tables(2) [OF assms(1-3)] x] .
  then show ?thesis using assms(4) by (simp add: known_def iterated_def)
qed

theorem iterated_frontier_blocks_witness:
  "\<exists>d. MeDoDominance loop_graph 0 1 = Some d \<and> set (iterDomFrontier d ! 3) = {c. (\<lambda>a b. b \<in> set (domFrontier d ! a))\<^sup>+\<^sup>+ 3 c}"
proof -
  have b: "bb_at loop_graph 3 \<noteq> None" by (simp add: loop_graph_def bb_at_def)
  obtain d where d: "MeDoDominance loop_graph 0 1 = Some d" using loop_graph_returns by blast
  then show ?thesis using iterated_frontier_blocks [OF loop_graph d b] by simp
qed

text \<open>(C40) The preorder lists every reachable block once, the blocks a block dominates right behind it, and
  \<^verbatim>\<open>dtDfn\<close> gives each block its position; \<^verbatim>\<open>CHECK_FATAL\<close> never stops the walk.\<close>

theorem preorder_blocks:
  assumes "wf_cfg v entry exit" and "exits_ok v entry exit" and "MeDoDominance v entry exit = Some d"
  shows "distinct (dtPreOrder d) \<and> set (dtPreOrder d) = {b. (cfg_edge v)\<^sup>*\<^sup>* entry b} \<and>
    (\<forall>i<length (dtPreOrder d). dtDfn d ! (dtPreOrder d ! i) = word_of_nat i) \<and>
    (\<forall>x\<in>set (dtPreOrder d). \<exists>a m c. dtPreOrder d = a @ (x # m) @ c \<and>
       set (x # m) = {y. (cfg_edge v)\<^sup>*\<^sup>* entry y \<and> dominates (cfg_edge v) entry x y})"
proof -
  note t = phase_tables(1) [OF assms]
  note dt = tablesD(1) [OF t] and l = listingD [OF tablesD(5) [OF t]]
  have above: "{y. anc (doms d) y x} = {y. (cfg_edge v)\<^sup>*\<^sup>* entry y \<and> dominates (cfg_edge v) entry x y}" if x: "(cfg_edge v)\<^sup>*\<^sup>* entry x" for x
  proof (intro set_eqI iffI)
    fix y assume "y \<in> {y. anc (doms d) y x}"
    then have a: "anc (doms d) y x" by simp
    have "(cfg_edge v)\<^sup>*\<^sup>* entry y" using anc_cases [OF a] dominator_treeD(2) [OF dt, of y] x by auto
    then show "y \<in> {y. (cfg_edge v)\<^sup>*\<^sup>* entry y \<and> dominates (cfg_edge v) entry x y}" using a dominator_treeD(4) [OF dt] by simp
  qed (use dominator_treeD(4) [OF dt] in simp)
  have s: "set (dtPreOrder d) = {b. (cfg_edge v)\<^sup>*\<^sup>* entry b}" using l(2) above [of entry] by (simp add: dominates_def)
  have "\<exists>a m c. dtPreOrder d = a @ (x # m) @ c \<and> set (x # m) = {y. (cfg_edge v)\<^sup>*\<^sup>* entry y \<and> dominates (cfg_edge v) entry x y}"
    if "x \<in> set (dtPreOrder d)" for x using l(4) [OF that] above [of x] s that by simp
  then show ?thesis using l(1) s tablesD(6) [OF t] by simp
qed

theorem preorder_blocks_witness:
  "\<exists>d. MeDoDominance loop_graph 0 1 = Some d \<and> dtPreOrder d = [0, 2, 3, 4, 5] \<and> set (dtPreOrder d) = {b. (cfg_edge loop_graph)\<^sup>*\<^sup>* 0 b}"
proof -
  have "map_option dtPreOrder (MeDoDominance loop_graph 0 1) = Some [0, 2, 3, 4, 5]" by code_simp
  then obtain d where "MeDoDominance loop_graph 0 1 = Some d" "dtPreOrder d = [0, 2, 3, 4, 5]" by auto
  then show ?thesis using preorder_blocks [OF loop_graph] by blast
qed

end
