(* ===== verification/CfgClean.thy ===== *)
theory CfgClean
  imports DomPhase
begin

text \<open>
  What \<^verbatim>\<open>UnreachCodeAnalysis\<close> and \<^verbatim>\<open>WontExitAnalysis\<close> (\<^verbatim>\<open>me_cfg.cpp\<close>) make of a graph, and
  that the dominator analysis then returns.
\<close>

section \<open>Graphs\<close>

definition the_block :: "MeCFG \<Rightarrow> BBId \<Rightarrow> MeBB option" where
  "the_block cfg b = (if b < length (valid cfg) \<and> valid cfg ! b then Some (block cfg b) else None)"

definition same_length :: "MeCFG \<Rightarrow> bool" where
  "same_length cfg \<longleftrightarrow> length (blocks cfg) = length (valid cfg)"

lemma bb_at_cfg: "same_length cfg \<Longrightarrow> bb_at (GetAllBBs cfg) b = the_block cfg b"
  by (simp add: same_length_def bb_at_def the_block_def GetAllBBs_def block_def)

lemma length_cfg: "same_length cfg \<Longrightarrow> length (GetAllBBs cfg) = length (valid cfg)"
  by (simp add: same_length_def GetAllBBs_def)

text \<open>
  Edges are in both lists equally often, and the common exit lists a block once; the blocks
  that are marked as entries are those of the common entry.
\<close>

definition cfg_ok :: "MeCFG \<Rightarrow> bool" where
  "cfg_ok cfg \<longleftrightarrow> same_length cfg \<and> wf_cfg (GetAllBBs cfg) commonEntry commonExit \<and> exits_ok (GetAllBBs cfg) commonEntry commonExit \<and>
     distinct (pred (block cfg commonExit)) \<and>
     list_all (\<lambda>b. normal (GetAllBBs cfg) commonEntry commonExit b \<longrightarrow>
         (GetAttributes (block cfg b) kBBAttrIsEntry \<longrightarrow> b \<in> set (succ (block cfg commonEntry))) \<and>
         list_all (\<lambda>s. normal (GetAllBBs cfg) commonEntry commonExit s \<longrightarrow>
             count_list (succ (block cfg b)) s = count_list (pred (block cfg s)) b) [0..<length (valid cfg)]) [0..<length (valid cfg)]"

lemma cfg_okD:
  assumes "cfg_ok cfg"
  shows "same_length cfg" "wf_cfg (GetAllBBs cfg) commonEntry commonExit" "exits_ok (GetAllBBs cfg) commonEntry commonExit"
    "distinct (pred (block cfg commonExit))"
    "normal (GetAllBBs cfg) commonEntry commonExit b \<Longrightarrow> GetAttributes (block cfg b) kBBAttrIsEntry \<Longrightarrow> b \<in> set (succ (block cfg commonEntry))"
    "normal (GetAllBBs cfg) commonEntry commonExit b \<Longrightarrow> normal (GetAllBBs cfg) commonEntry commonExit s \<Longrightarrow>
       count_list (succ (block cfg b)) s = count_list (pred (block cfg s)) b"
proof -
  have c: "same_length cfg" "wf_cfg (GetAllBBs cfg) commonEntry commonExit" "exits_ok (GetAllBBs cfg) commonEntry commonExit"
     "distinct (pred (block cfg commonExit))"
     "list_all (\<lambda>b. normal (GetAllBBs cfg) commonEntry commonExit b \<longrightarrow>
         (GetAttributes (block cfg b) kBBAttrIsEntry \<longrightarrow> b \<in> set (succ (block cfg commonEntry))) \<and>
         list_all (\<lambda>s. normal (GetAllBBs cfg) commonEntry commonExit s \<longrightarrow>
             count_list (succ (block cfg b)) s = count_list (pred (block cfg s)) b) [0..<length (valid cfg)]) [0..<length (valid cfg)]"
    using assms unfolding cfg_ok_def by - (elim conjE, assumption)+
  show "same_length cfg" "wf_cfg (GetAllBBs cfg) commonEntry commonExit" "exits_ok (GetAllBBs cfg) commonEntry commonExit"
     "distinct (pred (block cfg commonExit))" by (rule c)+
  have n: "b < length (valid cfg)" if "normal (GetAllBBs cfg) commonEntry commonExit b" for b
    using bb_at_less [of "GetAllBBs cfg" b] that length_cfg [OF c(1)] by (simp add: normal_def)
  show "normal (GetAllBBs cfg) commonEntry commonExit b \<Longrightarrow> GetAttributes (block cfg b) kBBAttrIsEntry \<Longrightarrow> b \<in> set (succ (block cfg commonEntry))"
    using c(5) n [of b] by (simp add: list_all_iff)
  show "normal (GetAllBBs cfg) commonEntry commonExit b \<Longrightarrow> normal (GetAllBBs cfg) commonEntry commonExit s \<Longrightarrow>
       count_list (succ (block cfg b)) s = count_list (pred (block cfg s)) b"
    using c(5) n [of b] n [of s] by (simp add: list_all_iff)
qed

lemma listed_cfg:
  assumes "same_length cfg" and "bb_at (GetAllBBs cfg) b \<noteq> None"
  shows "succs_of (GetAllBBs cfg) b = succ (block cfg b)" "preds_of (GetAllBBs cfg) b = pred (block cfg b)"
    "is_exit (GetAllBBs cfg) b \<longleftrightarrow> GetAttributes (block cfg b) kBBAttrIsExit"
  using assms by (auto simp: succs_of_def preds_of_def is_exit_def bb_at_cfg the_block_def split: if_splits)

lemma block_update:
  "b < length (blocks cfg) \<Longrightarrow> block (update b f cfg) i = (if i = b then f (block cfg b) else block cfg i)"
  by (auto simp: block_def update_def)

lemma update_lengths [simp]: "length (blocks (update b f cfg)) = length (blocks cfg)" "valid (update b f cfg) = valid cfg"
  by (simp_all add: update_def)

lemma block_fields [simp]:
  "block (cfg\<lparr>valid := ok\<rparr>) i = block cfg i" "block (cfg\<lparr>endTryBB2TryBB := m\<rparr>) i = block cfg i"
  by (simp_all add: block_def)

section \<open>Finding blocks\<close>

definition found :: "(BBId \<Rightarrow> BBId list) \<Rightarrow> BBId list \<Rightarrow> bool list \<Rightarrow> bool list \<Rightarrow> bool" where
  "found next bs v v' \<longleftrightarrow> length v' = length v \<and> marked v \<subseteq> marked v' \<and> set bs \<subseteq> marked v' \<and>
    (\<forall>b\<in>marked v' - marked v. set (next b) \<subseteq> marked v' \<and> (\<exists>a\<in>set bs. (\<lambda>a b. b \<in> set (next a))\<^sup>*\<^sup>* a b))"

lemma foundD:
  assumes "found next bs v v'"
  shows "length v' = length v" "marked v \<subseteq> marked v'" "set bs \<subseteq> marked v'"
    "b \<in> marked v' \<Longrightarrow> b \<notin> marked v \<Longrightarrow> set (next b) \<subseteq> marked v'"
    "b \<in> marked v' \<Longrightarrow> b \<notin> marked v \<Longrightarrow> \<exists>a\<in>set bs. (\<lambda>a b. b \<in> set (next a))\<^sup>*\<^sup>* a b"
  using assms unfolding found_def by blast+

lemma found_seen:
  assumes "found next bs v v'" and "b \<in> marked v"
  shows "found next (b # bs) v v'"
proof -
  note f = foundD [OF assms(1)]
  have "set (b # bs) \<subseteq> marked v'" using f(2,3) assms(2) by auto
  moreover have "set (next c) \<subseteq> marked v' \<and> (\<exists>a\<in>set (b # bs). (\<lambda>a b. b \<in> set (next a))\<^sup>*\<^sup>* a c)" if "c \<in> marked v' - marked v" for c
    using f(4,5) [of c] that by auto
  ultimately show ?thesis unfolding found_def using f(1,2) by blast
qed

lemma found_block:
  assumes b: "b < length v" and i: "found next (next b) (v[b := True]) v1" and r: "found next bs v1 v'"
  shows "found next (b # bs) v v'"
proof -
  note f1 = foundD [OF i] and f2 = foundD [OF r] and mu = marked_update [OF b]
  have "set (next c) \<subseteq> marked v' \<and> (\<exists>a\<in>set (b # bs). (\<lambda>a b. b \<in> set (next a))\<^sup>*\<^sup>* a c)" if c: "c \<in> marked v' - marked v" for c
  proof -
    consider "c = b" | "c \<in> marked v1" "c \<notin> marked (v[b := True])" | "c \<in> marked v'" "c \<notin> marked v1" using c mu by blast
    then show ?thesis
    proof cases
      case 1
      then show ?thesis using f1(3) f2(2) by auto
    next
      case 2
      then obtain a where "a \<in> set (next b)" "(\<lambda>a b. b \<in> set (next a))\<^sup>*\<^sup>* a c" using f1(5) by blast
      then have "(\<lambda>a b. b \<in> set (next a))\<^sup>*\<^sup>* b c" by (intro converse_rtranclp_into_rtranclp [of _ b a])
      then show ?thesis using f1(4) [OF 2] f2(2) by auto
    next
      case 3
      then show ?thesis using f2(4,5) [OF 3] by auto
    qed
  qed
  moreover have "length v' = length v" using f1(1) f2(1) by simp
  moreover have "marked v \<subseteq> marked v'" "set (b # bs) \<subseteq> marked v'" using f1(2) f2(2,3) mu by auto
  ultimately show ?thesis unfolding found_def by blast
qed

lemma find_blocks_ends:
  assumes R: "\<And>b. b \<in> R \<Longrightarrow> b < length v \<and> set (next b) \<subseteq> R" and bs: "set bs \<subseteq> R"
  shows "\<exists>v'. find_blocks next bs v = Some v' \<and> found next bs v v'"
  using R bs
proof (induction "(card ({..<length v} - marked v), length bs)" arbitrary: v bs
    rule: wf_induct_rule [OF wf_lex_prod [OF wf_less wf_less], case_names less])
  case (less v bs)
  show ?case
  proof (cases bs)
    case Nil
    then show ?thesis by (simp add: find_blocks.simps [of "next" "[]"] found_def)
  next
    case (Cons b bs')
    have b: "b \<in> R" "set bs' \<subseteq> R" using less.prems(2) Cons by simp_all
    have bl: "b < length v" "set (next b) \<subseteq> R" using less.prems(1) [OF b(1)] by simp_all
    show ?thesis
    proof (cases "v ! b")
      case True
      have "find_blocks next bs v = find_blocks next bs' v" using bl(1) Cons True by (simp add: find_blocks.simps [of "next" "b # bs'"])
      moreover obtain v' where "find_blocks next bs' v = Some v'" "found next bs' v v'"
        using less.hyps [of v bs'] less.prems(1) b(2) Cons by auto
      moreover have "b \<in> marked v" using True bl(1) by (simp add: marked_def)
      ultimately show ?thesis using found_seen Cons by auto
    next
      case False
      let ?v = "v[b := True]"
      have mb: "b \<notin> marked v" using False by (simp add: marked_def)
      have mu: "marked ?v = insert b (marked v)" using bl(1) by (rule marked_update)
      have fewer: "card ({..<length v} - marked ?v) < card ({..<length v} - marked v)"
        using mb bl(1) unfolding mu by (intro psubset_card_mono) auto
      obtain v1 where v1: "find_blocks next (next b) ?v = Some v1" "found next (next b) ?v v1"
        using less.hyps [of ?v "next b"] fewer less.prems(1) bl(2) by auto
      note f = foundD [OF v1(2)]
      have len: "length v1 = length v" using f(1) by simp
      have "card ({..<length v} - marked v1) \<le> card ({..<length v} - marked ?v)" using f(2) by (intro card_mono) auto
      then have fewer1: "card ({..<length v1} - marked v1) < card ({..<length v} - marked v)" using fewer len by simp
      obtain v' where v': "find_blocks next bs' v1 = Some v'" "found next bs' v1 v'"
        using less.hyps [of v1 bs'] fewer1 less.prems(1) b(2) len by auto
      have "find_blocks next bs v = Some v'" using Cons bl(1) False v1(1) v'(1) by (simp add: find_blocks.simps [of "next" "b # bs'"])
      then show ?thesis using found_block [OF bl(1) v1(2) v'(2)] Cons by blast
    qed
  qed
qed

lemma find_blocks_reach:
  assumes R: "\<And>b. b \<in> R \<Longrightarrow> b < n \<and> set (next b) \<subseteq> R" and r: "r \<in> R"
  shows "\<exists>v. find_blocks next [r] (replicate n False) = Some v \<and> length v = n \<and> (\<forall>b<n. v ! b \<longleftrightarrow> (\<lambda>a b. b \<in> set (next a))\<^sup>*\<^sup>* r b) \<and>
    (\<forall>b. (\<lambda>a b. b \<in> set (next a))\<^sup>*\<^sup>* r b \<longrightarrow> b \<in> R)"
proof -
  let ?E = "\<lambda>a b. b \<in> set (next a)"
  have m0: "marked (replicate n False) = {}" by (simp add: marked_def)
  obtain v where v: "find_blocks next [r] (replicate n False) = Some v" "length v = n" "r \<in> marked v"
      "\<And>b. b \<in> marked v \<Longrightarrow> set (next b) \<subseteq> marked v \<and> ?E\<^sup>*\<^sup>* r b"
  proof -
    obtain v where f: "find_blocks next [r] (replicate n False) = Some v" "found next [r] (replicate n False) v"
      using find_blocks_ends [of R "replicate n False" "next" "[r]"] R r by auto
    note d = foundD [OF f(2), unfolded m0]
    show ?thesis using d(1,3) d(4,5) by (intro that [OF f(1)]) auto
  qed
  have "b \<in> marked v \<and> b \<in> R" if "?E\<^sup>*\<^sup>* r b" for b
    using that
  proof (induction rule: rtranclp_induct)
    case base
    then show ?case using v(3) r by simp
  next
    case (step b c)
    then show ?case using v(4) [of b] R [of b] by auto
  qed
  moreover from this have "v ! b \<longleftrightarrow> ?E\<^sup>*\<^sup>* r b" if "b < n" for b
    using v(4) [of b] v(2) that by (auto simp: marked_def)
  ultimately show ?thesis using v(1,2) by blast
qed

section \<open>Deleting unreachable blocks\<close>

definition reached :: "MeCFG \<Rightarrow> BBId \<Rightarrow> bool" where
  "reached cfg b \<longleftrightarrow> (cfg_edge (GetAllBBs cfg))\<^sup>*\<^sup>* commonEntry b"

definition doomed :: "MeCFG \<Rightarrow> BBId \<Rightarrow> bool" where
  "doomed cfg b \<longleftrightarrow> the_block cfg b \<noteq> None \<and> b \<noteq> commonExit \<and> \<not> reached cfg b"

lemma common_ids: "commonEntry \<noteq> commonExit" "commonExit \<noteq> commonEntry"
  by (simp_all add: commonEntry_def commonExit_def)

lemma doomed_normal: "same_length cfg \<Longrightarrow> doomed cfg b \<Longrightarrow> normal (GetAllBBs cfg) commonEntry commonExit b"
  by (auto simp: doomed_def normal_def bb_at_cfg reached_def)

lemma doomed_less: "doomed cfg b \<Longrightarrow> b < length (valid cfg) \<and> valid cfg ! b"
  by (simp add: doomed_def the_block_def split: if_splits)

definition alike :: "MeBB \<Rightarrow> MeBB \<Rightarrow> bool" where
  "alike x y \<longleftrightarrow> kind y = kind x \<and> stmtNodeList y = stmtNodeList x \<and>
     (\<forall>a\<in>{kBBAttrIsEntry, kBBAttrIsExit, kBBAttrIsTry}. GetAttributes y a = GetAttributes x a) \<and>
     (GetAttributes x kBBAttrIsTryEnd \<longrightarrow> GetAttributes y kBBAttrIsTryEnd)"

lemma alike_refl [simp]: "alike x x"
  by (simp add: alike_def)

lemma alike_trans: "alike x y \<Longrightarrow> alike y z \<Longrightarrow> alike x z"
  by (simp add: alike_def)

lemma alike_attr:
  "alike x y \<Longrightarrow> GetAttributes y kBBAttrIsEntry = GetAttributes x kBBAttrIsEntry"
  "alike x y \<Longrightarrow> GetAttributes y kBBAttrIsExit = GetAttributes x kBBAttrIsExit"
  "alike x y \<Longrightarrow> IsStartTryBB y \<Longrightarrow> IsStartTryBB x"
  by (auto simp: alike_def IsStartTryBB_def)

lemma alike_fields [simp]: "alike x (y\<lparr>succ := ss\<rparr>) = alike x y" "alike x (y\<lparr>pred := ps\<rparr>) = alike x y"
  by (simp_all add: alike_def GetAttributes_def)

lemma or_attr: "and (or a (b :: uint32)) c \<noteq> 0 \<longleftrightarrow> and a c \<noteq> 0 \<or> and b c \<noteq> 0"
proof -
  have "and (or a b) c = or (and a c) (and b c)" by (simp add: bit.conj_disj_distrib2)
  moreover have "or x y = 0 \<longleftrightarrow> x = 0 \<and> y = 0" for x y :: uint32
    by (auto simp: bit_eq_iff bit_or_iff)
  ultimately show ?thesis by simp
qed

lemma attr_bits:
  "and kBBAttrIsTryEnd kBBAttrIsEntry = 0" "and kBBAttrIsTryEnd kBBAttrIsExit = 0" "and kBBAttrIsTryEnd kBBAttrIsTry = 0"
  "and kBBAttrWontExit kBBAttrIsExit = 0" "kBBAttrIsExit \<noteq> 0" "kBBAttrIsTryEnd \<noteq> 0"
  by (simp_all add: kBBAttrIsTryEnd_def kBBAttrIsEntry_def kBBAttrIsExit_def kBBAttrIsTry_def kBBAttrWontExit_def bit_field_def push_bit_eq_mult)

lemma alike_try_end: "alike x (SetAttributes kBBAttrIsTryEnd x)"
  unfolding alike_def SetAttributes_def GetAttributes_def by (simp add: or_attr attr_bits)

lemma move_try_end_block:
  assumes "b \<le> length (blocks cfg)" and "i < length (blocks cfg)"
  shows "succ (block (move_try_end b cfg) i) = succ (block cfg i)" "pred (block (move_try_end b cfg) i) = pred (block cfg i)"
    "alike (block cfg i) (block (move_try_end b cfg) i)"
proof -
  have prev: "j \<in> set js" if "find_previous ok js = Some j" for ok js j
    using that by (induction ok js rule: find_previous.induct) (auto split: if_splits)
  have "j < length (blocks cfg)" if "find_previous (valid cfg) (rev [0..<b]) = Some j" for j
    using prev [OF that] assms(1) by simp
  then have "block (move_try_end b cfg) i = block cfg i \<or> block (move_try_end b cfg) i = SetAttributes kBBAttrIsTryEnd (block cfg i)"
    unfolding move_try_end_def by (auto simp: block_update split: option.split)
  then show "succ (block (move_try_end b cfg) i) = succ (block cfg i)" "pred (block (move_try_end b cfg) i) = pred (block cfg i)"
    "alike (block cfg i) (block (move_try_end b cfg) i)"
    using alike_try_end by (auto simp: SetAttributes_def)
qed

lemma move_try_end_lengths [simp]: "length (blocks (move_try_end b cfg)) = length (blocks cfg)" "valid (move_try_end b cfg) = valid cfg"
  by (auto simp: move_try_end_def update_def split: option.split)

text \<open>Taking a block out of the lists of its successors.\<close>

lemma RemoveBBFromVector_power:
  "(RemoveBBFromVector b ^^ count_list xs b) xs = filter (\<lambda>x. x \<noteq> b) xs"
proof (induction xs)
  case (Cons x xs)
  have push: "(RemoveBBFromVector b ^^ k) (x # ys) = x # (RemoveBBFromVector b ^^ k) ys" if "x \<noteq> b" for k ys
    using that by (induction k arbitrary: ys) (simp_all add: funpow_swap1)
  show ?case
  proof (cases "x = b")
    case True
    then show ?thesis using Cons by (simp add: funpow_swap1)
  qed (use Cons push in simp)
qed simp

lemma RemoveBBFromVector_distinct: "distinct xs \<Longrightarrow> b \<in> set xs \<Longrightarrow> RemoveBBFromVector b xs = filter (\<lambda>x. x \<noteq> b) xs"
proof (induction xs)
  case (Cons x xs)
  show ?case
  proof (cases "x = b")
    case True
    then have "filter (\<lambda>x. x \<noteq> b) xs = xs" using Cons.prems(1) by (intro filter_True) auto
    then show ?thesis using True by simp
  qed (use Cons in simp)
qed simp

lemma remove_from_succs_block:
  assumes "set ss \<subseteq> {..<length (blocks cfg)}" and "b < length (blocks cfg)"
  shows "length (blocks (remove_from_succs b ss cfg)) = length (blocks cfg) \<and> valid (remove_from_succs b ss cfg) = valid cfg \<and>
    pred (block (remove_from_succs b ss cfg) i) = (RemoveBBFromVector b ^^ count_list ss i) (pred (block cfg i)) \<and>
    (i \<noteq> b \<longrightarrow> succ (block (remove_from_succs b ss cfg) i) = succ (block cfg i)) \<and>
    alike (block cfg i) (block (remove_from_succs b ss cfg) i)"
  using assms
proof (induction ss arbitrary: cfg)
  case (Cons s ss)
  let ?c = "RemovePred s b cfg"
  have s: "s < length (blocks cfg)" using Cons.prems(1) by simp
  have len: "length (blocks ?c) = length (blocks cfg)" "valid ?c = valid cfg" by (simp_all add: RemovePred_def)
  have c: "pred (block ?c i) = (if i = s then RemoveBBFromVector b (pred (block cfg i)) else pred (block cfg i))"
    "i \<noteq> b \<Longrightarrow> succ (block ?c i) = succ (block cfg i)" "alike (block cfg i) (block ?c i)"
    using s Cons.prems(2) by (auto simp: RemovePred_def block_update RemoveBBFromPred_def RemoveBBFromSucc_def)
  have ih: "length (blocks (remove_from_succs b ss ?c)) = length (blocks ?c) \<and> valid (remove_from_succs b ss ?c) = valid ?c \<and>
    pred (block (remove_from_succs b ss ?c) i) = (RemoveBBFromVector b ^^ count_list ss i) (pred (block ?c i)) \<and>
    (i \<noteq> b \<longrightarrow> succ (block (remove_from_succs b ss ?c) i) = succ (block ?c i)) \<and>
    alike (block ?c i) (block (remove_from_succs b ss ?c) i)"
    using Cons.prems len by (intro Cons.IH) simp_all
  have r: "remove_from_succs b (s # ss) cfg = remove_from_succs b ss ?c" by simp
  have "(RemoveBBFromVector b ^^ count_list (s # ss) i) (pred (block cfg i)) = (RemoveBBFromVector b ^^ count_list ss i) (pred (block ?c i))"
    unfolding c(1) by (simp add: funpow_swap1)
  then show ?case unfolding r using ih len c(2) alike_trans [OF c(3)] by simp
qed simp

definition cleaned :: "MeCFG \<Rightarrow> nat \<Rightarrow> MeCFG \<Rightarrow> bool" where
  "cleaned cfg k cfg' \<longleftrightarrow> length (blocks cfg') = length (blocks cfg) \<and> length (valid cfg') = length (valid cfg) \<and>
     (\<forall>i<length (valid cfg). valid cfg' ! i \<longleftrightarrow> valid cfg ! i \<and> \<not> (i < k \<and> doomed cfg i)) \<and>
     (\<forall>i. the_block cfg i \<noteq> None \<longrightarrow> k \<le> i \<or> \<not> doomed cfg i \<longrightarrow> succ (block cfg' i) = succ (block cfg i)) \<and>
     (\<forall>i. the_block cfg i \<noteq> None \<longrightarrow> \<not> doomed cfg i \<longrightarrow>
        pred (block cfg' i) = filter (\<lambda>p. \<not> (p < k \<and> doomed cfg p)) (pred (block cfg i))) \<and>
     (\<forall>i<length (blocks cfg). alike (block cfg i) (block cfg' i))"

lemma cleanedD:
  assumes "cleaned cfg k cfg'"
  shows "length (blocks cfg') = length (blocks cfg)" "length (valid cfg') = length (valid cfg)"
    "i < length (valid cfg) \<Longrightarrow> valid cfg' ! i \<longleftrightarrow> valid cfg ! i \<and> \<not> (i < k \<and> doomed cfg i)"
    "the_block cfg i \<noteq> None \<Longrightarrow> k \<le> i \<or> \<not> doomed cfg i \<Longrightarrow> succ (block cfg' i) = succ (block cfg i)"
    "the_block cfg i \<noteq> None \<Longrightarrow> \<not> doomed cfg i \<Longrightarrow> pred (block cfg' i) = filter (\<lambda>p. \<not> (p < k \<and> doomed cfg p)) (pred (block cfg i))"
    "i < length (blocks cfg) \<Longrightarrow> alike (block cfg i) (block cfg' i)"
proof -
  have c: "length (blocks cfg') = length (blocks cfg)" "length (valid cfg') = length (valid cfg)"
     "\<forall>i<length (valid cfg). valid cfg' ! i \<longleftrightarrow> valid cfg ! i \<and> \<not> (i < k \<and> doomed cfg i)"
     "\<forall>i. the_block cfg i \<noteq> None \<longrightarrow> k \<le> i \<or> \<not> doomed cfg i \<longrightarrow> succ (block cfg' i) = succ (block cfg i)"
     "\<forall>i. the_block cfg i \<noteq> None \<longrightarrow> \<not> doomed cfg i \<longrightarrow>
        pred (block cfg' i) = filter (\<lambda>p. \<not> (p < k \<and> doomed cfg p)) (pred (block cfg i))"
     "\<forall>i<length (blocks cfg). alike (block cfg i) (block cfg' i)"
    using assms unfolding cleaned_def by - (elim conjE, assumption)+
  show "length (blocks cfg') = length (blocks cfg)" "length (valid cfg') = length (valid cfg)" by (rule c)+
  show "i < length (valid cfg) \<Longrightarrow> valid cfg' ! i \<longleftrightarrow> valid cfg ! i \<and> \<not> (i < k \<and> doomed cfg i)" using c(3) by blast
  show "the_block cfg i \<noteq> None \<Longrightarrow> k \<le> i \<or> \<not> doomed cfg i \<Longrightarrow> succ (block cfg' i) = succ (block cfg i)" using c(4) by blast
  show "the_block cfg i \<noteq> None \<Longrightarrow> \<not> doomed cfg i \<Longrightarrow> pred (block cfg' i) = filter (\<lambda>p. \<not> (p < k \<and> doomed cfg p)) (pred (block cfg i))"
    using c(5) by blast
  show "i < length (blocks cfg) \<Longrightarrow> alike (block cfg i) (block cfg' i)" using c(6) by blast
qed

lemma cleaned_start: "cleaned cfg 0 cfg"
  by (simp add: cleaned_def)

lemma cleaned_skip:
  assumes "cleaned cfg k cfg'" and "\<not> doomed cfg k"
  shows "cleaned cfg (Suc k) cfg'"
proof -
  have e: "i < Suc k \<and> doomed cfg i \<longleftrightarrow> i < k \<and> doomed cfg i" "Suc k \<le> i \<or> \<not> doomed cfg i \<longleftrightarrow> k \<le> i \<or> \<not> doomed cfg i" for i
    using assms(2) by (auto simp: less_Suc_eq Suc_le_eq le_less)
  show ?thesis using assms(1) unfolding cleaned_def e .
qed

lemma count_list_keep: "P k \<Longrightarrow> count_list (filter P xs) k = count_list xs k"
  by (induction xs) auto

lemma delete_unreached_cleaned:
  assumes ok: "cfg_ok cfg" and c: "cleaned cfg k cfg'" and k: "doomed cfg k"
  shows "cleaned cfg (Suc k) (delete_unreached k cfg')"
proof -
  let ?V = "GetAllBBs cfg" and ?n = "length (valid cfg)"
  note okD = cfg_okD [OF ok] and cD = cleanedD [OF c]
  have len: "length (blocks cfg) = ?n" using okD(1) by (simp add: same_length_def)
  have kn: "normal ?V commonEntry commonExit k" "k < ?n" using doomed_normal [OF okD(1) k] doomed_less [OF k] by simp_all
  have kb: "the_block cfg k \<noteq> None" using k by (simp add: doomed_def)
  let ?ss = "succ (block cfg k)"
  have ss: "normal ?V commonEntry commonExit s" if "s \<in> set ?ss" for s
    using wf_cfgD(8) [OF okD(2) kn(1)] that listed_cfg(1) [OF okD(1), of k] kn(1) by (simp add: normal_def)
  have ssl: "set ?ss \<subseteq> {..<length (blocks cfg)}"
  proof
    fix s assume "s \<in> set ?ss"
    then show "s \<in> {..<length (blocks cfg)}" using ss [of s] bb_at_less [of ?V s] length_cfg [OF okD(1)] len by (simp add: normal_def)
  qed
  define c1 where "c1 = (if GetAttributes (block cfg' k) kBBAttrIsTryEnd then move_try_end k cfg' else cfg')"
  define c2 where "c2 = c1\<lparr>valid := (valid c1)[k := False]\<rparr>"
  define c3 where "c3 = remove_from_succs k (succ (block c2 k)) c2"
  have d: "delete_unreached k cfg' = (if k \<in> set (pred (block c3 commonExit)) then update commonExit (RemoveExit k) c3 else c3)"
    by (simp add: delete_unreached_def c1_def c2_def c3_def Let_def)
  have l1: "length (blocks c1) = ?n" "length (valid c1) = ?n" "valid c1 = valid cfg'" using cD(1,2) len by (simp_all add: c1_def)
  have b1: "succ (block c1 i) = succ (block cfg' i)" "pred (block c1 i) = pred (block cfg' i)" "alike (block cfg' i) (block c1 i)" if "i < ?n" for i
    using move_try_end_block [of k cfg' i] that kn(2) cD(1) len by (simp_all add: c1_def)
  have l2: "length (blocks c2) = ?n" "valid c2 = (valid cfg')[k := False]" using l1 by (simp_all add: c2_def)
  have b2: "succ (block c2 i) = succ (block cfg' i)" "pred (block c2 i) = pred (block cfg' i)" "alike (block cfg' i) (block c2 i)" if "i < ?n" for i
    using b1 [OF that] by (simp_all add: c2_def)
  have s2: "succ (block c2 k) = ?ss" using b2(1) [OF kn(2)] cD(4) [OF kb] by simp
  have b3: "length (blocks c3) = ?n \<and> valid c3 = (valid cfg')[k := False] \<and>
      pred (block c3 i) = (RemoveBBFromVector k ^^ count_list ?ss i) (pred (block c2 i)) \<and>
      (i \<noteq> k \<longrightarrow> succ (block c3 i) = succ (block c2 i)) \<and> alike (block c2 i) (block c3 i)" for i
    using remove_from_succs_block [of ?ss c2 k i] ssl l2 kn(2) len unfolding c3_def s2 by simp
  have ex: "commonExit < ?n" using wf_cfgD(3) [OF okD(2)] bb_at_less [of ?V commonExit] length_cfg [OF okD(1)] by simp
  have exb: "the_block cfg commonExit \<noteq> None" "\<not> doomed cfg commonExit" "commonExit \<noteq> k"
    using wf_cfgD(3) [OF okD(2)] bb_at_cfg [OF okD(1)] k by (auto simp: doomed_def)
  have filt: "filter (\<lambda>p. p \<noteq> k) (filter (\<lambda>p. \<not> (p < k \<and> doomed cfg p)) ps) = filter (\<lambda>p. \<not> (p < Suc k \<and> doomed cfg p)) ps" for ps
    using k by (auto simp: filter_filter less_Suc_eq intro!: filter_cong)
  have p3: "pred (block c3 i) = (if i = commonExit then filter (\<lambda>p. \<not> (p < k \<and> doomed cfg p)) (pred (block cfg i))
      else filter (\<lambda>p. \<not> (p < Suc k \<and> doomed cfg p)) (pred (block cfg i)))" if i: "the_block cfg i \<noteq> None" "\<not> doomed cfg i" for i
  proof -
    have il: "i < ?n" using i(1) by (simp add: the_block_def split: if_splits)
    have p: "pred (block c3 i) = (RemoveBBFromVector k ^^ count_list ?ss i) (filter (\<lambda>p. \<not> (p < k \<and> doomed cfg p)) (pred (block cfg i)))"
      using b3 [of i] b2(2) [OF il] cD(5) [OF i] by simp
    have none: "count_list ?ss i = 0" if "\<not> normal ?V commonEntry commonExit i" using ss [of i] that by (simp add: count_list_0_iff) blast
    show ?thesis
    proof (cases "normal ?V commonEntry commonExit i")
      case True
      let ?ps = "filter (\<lambda>p. \<not> (p < k \<and> doomed cfg p)) (pred (block cfg i))"
      have "count_list ?ss i = count_list (pred (block cfg i)) k" by (rule okD(6) [OF kn(1) True])
      also have "\<dots> = count_list ?ps k"
        by (rule count_list_keep [symmetric]) simp
      finally show ?thesis using p RemoveBBFromVector_power [where b = k and xs = ?ps] filt True by (simp add: normal_def)
    next
      case False
      have "i = commonEntry \<or> i = commonExit" using False i(1) bb_at_cfg [OF okD(1), of i] by (auto simp: normal_def)
      moreover have "pred (block cfg commonEntry) = []"
        using wf_cfgD(2,4) [OF okD(2)] listed_cfg(2) [OF okD(1), of commonEntry] by simp
      ultimately show ?thesis using p none [OF False] common_ids by auto
    qed
  qed
  let ?c = "delete_unreached k cfg'"
  have blk: "block ?c i = (if i = commonExit then (block c3 i)\<lparr>pred := filter (\<lambda>p. p \<noteq> k) (pred (block c3 i))\<rparr> else block c3 i)" for i
  proof (cases "k \<in> set (pred (block c3 commonExit))")
    case True
    have "distinct (pred (block c3 commonExit))" using p3 [OF exb(1,2)] okD(4) by simp
    then have "RemoveExit k (block c3 commonExit) = (block c3 commonExit)\<lparr>pred := filter (\<lambda>p. p \<noteq> k) (pred (block c3 commonExit))\<rparr>"
      using True by (simp add: RemoveExit_def RemoveBBFromVector_distinct)
    then show ?thesis unfolding d using True b3 [of i] ex by (auto simp: block_update)
  next
    case False
    then have "filter (\<lambda>p. p \<noteq> k) (pred (block c3 commonExit)) = pred (block c3 commonExit)" by (intro filter_True) auto
    then show ?thesis unfolding d using False by simp
  qed
  show ?thesis
    unfolding cleaned_def
  proof (intro conjI allI impI)
    show "length (blocks ?c) = length (blocks cfg)" "length (valid ?c) = ?n"
      unfolding d using b3 [of 0] len cD(2) by simp_all
    fix i
    show "valid ?c ! i \<longleftrightarrow> valid cfg ! i \<and> \<not> (i < Suc k \<and> doomed cfg i)" if i: "i < ?n"
    proof -
      have "valid ?c = (valid cfg')[k := False]" unfolding d using b3 [of 0] by simp
      moreover have "(valid cfg')[k := False] ! i = (i \<noteq> k \<and> valid cfg' ! i)" using i cD(2) by (cases "i = k") simp_all
      ultimately show ?thesis using cD(3) [OF i] k less_Suc_eq [of i k] by auto
    qed
    show "succ (block ?c i) = succ (block cfg i)" if "the_block cfg i \<noteq> None" "Suc k \<le> i \<or> \<not> doomed cfg i"
    proof -
      have il: "i < ?n" "i \<noteq> k" using that k by (auto simp: the_block_def split: if_splits)
      have "succ (block ?c i) = succ (block c3 i)" unfolding blk by simp
      then have "succ (block ?c i) = succ (block cfg' i)" using b3 [of i] b2(1) [OF il(1)] il(2) by (simp only: simp_thms)
      then show ?thesis using cD(4) [OF that(1)] that(2) by auto
    qed
    show "pred (block ?c i) = filter (\<lambda>p. \<not> (p < Suc k \<and> doomed cfg p)) (pred (block cfg i))" if "the_block cfg i \<noteq> None" "\<not> doomed cfg i"
    proof (cases "i = commonExit")
      case True
      have "pred (block ?c i) = filter (\<lambda>p. p \<noteq> k) (pred (block c3 i))" unfolding blk using True by simp
      then show ?thesis unfolding p3 [OF that] if_P [OF True] filt .
    next
      case False
      then show ?thesis unfolding blk using p3 [OF that] by simp
    qed
    show "alike (block cfg i) (block ?c i)" if "i < length (blocks cfg)"
    proof -
      have "alike (block cfg i) (block c3 i)"
        using alike_trans [OF alike_trans [OF cD(6) [OF that] b2(3)]] b3 [of i] that len by simp
      then show ?thesis unfolding blk by (cases "i = commonExit") simp_all
    qed
  qed
qed

text \<open>
  The analysis, where it moves no start of a try by \<^verbatim>\<open>FixTryBB\<close>: it does so for an unreachable
  start of a try behind which a reachable block comes before any unreachable end of a try.
\<close>

definition no_try_moved :: "MeCFG \<Rightarrow> bool" where
  "no_try_moved cfg \<longleftrightarrow> (\<forall>b j. doomed cfg b \<longrightarrow> IsStartTryBB (block cfg b) \<longrightarrow> b < j \<longrightarrow> the_block cfg j \<noteq> None \<longrightarrow> reached cfg j \<longrightarrow>
     (\<exists>e. b < e \<and> e < j \<and> the_block cfg e \<noteq> None \<and> \<not> reached cfg e \<and> GetAttributes (block cfg e) kBBAttrIsTryEnd))"

lemma find_try_successor_None:
  assumes "\<And>j. m \<le> j \<Longrightarrow> j < n \<Longrightarrow> valid cfg ! j \<Longrightarrow> vis ! j \<Longrightarrow>
    \<exists>e\<ge>m. e < j \<and> valid cfg ! e \<and> \<not> vis ! e \<and> GetAttributes (block cfg e) kBBAttrIsTryEnd"
  shows "find_try_successor cfg vis [m..<n] = None"
  using assms
proof (induction "n - m" arbitrary: m)
  case (Suc k)
  have up: "[m..<n] = m # [Suc m..<n]" using Suc.hyps(2) by (simp add: upt_conv_Cons)
  show ?case
  proof (cases "valid cfg ! m \<and> (vis ! m \<or> GetAttributes (block cfg m) kBBAttrIsTryEnd)")
    case True
    have "m < n" using Suc.hyps(2) by simp
    then have "\<not> vis ! m" using Suc.prems [of m] True by fastforce
    then show ?thesis using True by (simp add: up)
  next
    case False
    have "find_try_successor cfg vis [Suc m..<n] = None"
    proof (rule Suc.hyps(1))
      show "k = n - Suc m" using Suc.hyps(2) by simp
      fix j assume j: "Suc m \<le> j" "j < n" "valid cfg ! j" "vis ! j"
      then obtain e where e: "e \<ge> m" "e < j" "valid cfg ! e" "\<not> vis ! e" "GetAttributes (block cfg e) kBBAttrIsTryEnd"
        using Suc.prems [of j] by auto
      then have "e \<noteq> m" using False by blast
      then show "\<exists>e\<ge>Suc m. e < j \<and> valid cfg ! e \<and> \<not> vis ! e \<and> GetAttributes (block cfg e) kBBAttrIsTryEnd"
        using e by (intro exI [of _ e]) simp
    qed
    then show ?thesis using False by (auto simp: up)
  qed
qed simp

lemma no_try_moved_step:
  assumes ok: "cfg_ok cfg" and st: "no_try_moved cfg" and c: "cleaned cfg k cfg'" and k: "doomed cfg k" "IsStartTryBB (block cfg k)"
    and vis: "\<And>b. b < length (valid cfg) \<Longrightarrow> vis ! b \<longleftrightarrow> reached cfg b"
  shows "find_try_successor cfg' vis [Suc k..<length (valid cfg')] = None"
proof (rule find_try_successor_None)
  note cD = cleanedD [OF c]
  have len: "length (blocks cfg) = length (valid cfg)" using cfg_okD(1) [OF ok] by (simp add: same_length_def)
  fix j assume j: "Suc k \<le> j" "j < length (valid cfg')" "valid cfg' ! j" "vis ! j"
  have live: "valid cfg' ! i \<longleftrightarrow> the_block cfg i \<noteq> None" if "k < i" "i < length (valid cfg)" for i
    using cD(3) [OF that(2)] that by (simp add: the_block_def)
  have "the_block cfg j \<noteq> None" "reached cfg j" using live [of j] vis [of j] j cD(2) by simp_all
  then obtain e where e: "k < e" "e < j" "the_block cfg e \<noteq> None" "\<not> reached cfg e" "GetAttributes (block cfg e) kBBAttrIsTryEnd"
    using st [unfolded no_try_moved_def] k j(1) by (metis Suc_le_eq)
  have el: "e < length (valid cfg)" using e(2) j(2) cD(2) by simp
  have "alike (block cfg e) (block cfg' e)" using cD(6) el len by simp
  then have "GetAttributes (block cfg' e) kBBAttrIsTryEnd" using e(5) by (simp add: alike_def)
  then show "\<exists>e\<ge>Suc k. e < j \<and> valid cfg' ! e \<and> \<not> vis ! e \<and> GetAttributes (block cfg' e) kBBAttrIsTryEnd"
    using e(1-4) live [OF e(1) el] vis [OF el] by (intro exI [of _ e]) simp
qed

lemma unreach_loop_cleaned:
  assumes ok: "cfg_ok cfg" and st: "no_try_moved cfg"
    and vis: "length vis = length (valid cfg)" "\<And>b. b < length (valid cfg) \<Longrightarrow> vis ! b \<longleftrightarrow> reached cfg b"
    and k: "k \<le> length (valid cfg)" and c: "cleaned cfg k cfg'"
  shows "\<exists>cfg'' ch'. unreach_loop [k..<length (valid cfg)] (cfg', vis, ch) = Some (cfg'', vis, ch') \<and> cleaned cfg (length (valid cfg)) cfg'' \<and>
    (ch' \<longleftrightarrow> ch \<or> (\<exists>b\<ge>k. doomed cfg b))"
  using k c
proof (induction "length (valid cfg) - k" arbitrary: k cfg' ch)
  case 0
  then have "\<not> doomed cfg b" if "k \<le> b" for b using doomed_less [of cfg b] that by auto
  then show ?case using 0 by auto
next
  case (Suc m)
  note okD = cfg_okD [OF ok] and cD = cleanedD [OF Suc.prems(2)]
  have kl: "k < length (valid cfg)" and up: "[k..<length (valid cfg)] = k # [Suc k..<length (valid cfg)]"
    using Suc.hyps(2) by (simp_all add: upt_conv_Cons)
  have next_ch: "(\<exists>b\<ge>k. doomed cfg b) \<longleftrightarrow> doomed cfg k \<or> (\<exists>b\<ge>Suc k. doomed cfg b)" by (metis Suc_le_eq le_less)
  have al: "alike (block cfg k) (block cfg' k)" using cD(6) kl okD(1) by (simp add: same_length_def)
  show ?case
  proof (cases "doomed cfg k")
    case True
    have n: "normal (GetAllBBs cfg) commonEntry commonExit k" by (rule doomed_normal [OF okD(1) True])
    have "\<not> GetAttributes (block cfg k) kBBAttrIsEntry"
    proof
      assume "GetAttributes (block cfg k) kBBAttrIsEntry"
      then have "k \<in> set (succ (block cfg commonEntry))" by (rule okD(5) [OF n])
      then have "cfg_edge (GetAllBBs cfg) commonEntry k"
        using listed_cfg(1) [OF okD(1)] wf_cfgD(2) [OF okD(2)] by (simp add: cfg_edge_def)
      then show False using True by (auto simp: doomed_def reached_def)
    qed
    then have e: "\<not> GetAttributes (block cfg' k) kBBAttrIsEntry" using alike_attr(1) [OF al] by simp
    have s: "(if IsStartTryBB (block cfg' k) then find_try_successor cfg' vis [Suc k..<length (valid cfg')] else None) = None"
      using alike_attr(3) [OF al] no_try_moved_step [OF ok st Suc.prems(2) True _ vis(2)] by simp
    have v: "valid cfg' ! k" "k \<noteq> commonExit" "\<not> vis ! k"
      using cD(3) [OF kl] doomed_less [OF True] vis(2) [OF kl] True by (simp_all add: doomed_def)
    have "unreach_step k (cfg', vis, ch) = Some (delete_unreached k cfg', vis, True)"
      using v e s by (simp add: unreach_step_def)
    moreover have "\<exists>cfg'' ch'. unreach_loop [Suc k..<length (valid cfg)] (delete_unreached k cfg', vis, True) = Some (cfg'', vis, ch') \<and>
        cleaned cfg (length (valid cfg)) cfg'' \<and> (ch' \<longleftrightarrow> True \<or> (\<exists>b\<ge>Suc k. doomed cfg b))"
      by (rule Suc.hyps(1) [OF _ _ delete_unreached_cleaned [OF ok Suc.prems(2) True]]) (use Suc.hyps(2) kl in simp_all)
    ultimately show ?thesis unfolding up next_ch using True by simp
  next
    case False
    have "\<not> valid cfg' ! k \<or> k = commonExit \<or> vis ! k"
      using False cD(3) [OF kl] vis(2) [OF kl] kl by (auto simp: doomed_def the_block_def)
    then have "unreach_step k (cfg', vis, ch) = Some (cfg', vis, ch)" by (auto simp: unreach_step_def)
    moreover have "\<exists>cfg'' ch'. unreach_loop [Suc k..<length (valid cfg)] (cfg', vis, ch) = Some (cfg'', vis, ch') \<and>
        cleaned cfg (length (valid cfg)) cfg'' \<and> (ch' \<longleftrightarrow> ch \<or> (\<exists>b\<ge>Suc k. doomed cfg b))"
      by (rule Suc.hyps(1) [OF _ _ cleaned_skip [OF Suc.prems(2) False]]) (use Suc.hyps(2) kl in simp_all)
    ultimately show ?thesis unfolding up next_ch using False by simp
  qed
qed

lemma reached_blocks:
  assumes ok: "cfg_ok cfg"
  shows "\<exists>vis. FindReachableBBs cfg commonEntry (replicate (length (valid cfg)) False) = Some vis \<and> length vis = length (valid cfg) \<and>
    (\<forall>b<length (valid cfg). vis ! b \<longleftrightarrow> reached cfg b)"
proof -
  note okD = cfg_okD [OF ok]
  let ?V = "GetAllBBs cfg" and ?E = "\<lambda>a b. b \<in> set (succ (block cfg a))"
  let ?R = "insert commonEntry {b. normal ?V commonEntry commonExit b}"
  have at: "bb_at ?V b \<noteq> None" if "b \<in> ?R" for b using that wf_cfgD(2) [OF okD(2)] by (auto simp: normal_def)
  have R: "b < length (valid cfg) \<and> set (succ (block cfg b)) \<subseteq> ?R" if b: "b \<in> ?R" for b
    using bb_at_less [OF at [OF b]] length_cfg [OF okD(1)] listed_cfg(1) [OF okD(1) at [OF b]] b
      wf_cfgD(6) [OF okD(2)] wf_cfgD(8) [OF okD(2), of b] by auto
  obtain vis where v: "FindReachableBBs cfg commonEntry (replicate (length (valid cfg)) False) = Some vis" "length vis = length (valid cfg)"
      "\<And>b. b < length (valid cfg) \<Longrightarrow> vis ! b \<longleftrightarrow> ?E\<^sup>*\<^sup>* commonEntry b" "\<And>b. ?E\<^sup>*\<^sup>* commonEntry b \<Longrightarrow> b \<in> ?R"
    using find_blocks_reach [of ?R "length (valid cfg)" "\<lambda>b. succ (block cfg b)" commonEntry] R unfolding FindReachableBBs_def by auto
  have "?E\<^sup>*\<^sup>* commonEntry b \<longleftrightarrow> reached cfg b" for b
  proof
    show "?E\<^sup>*\<^sup>* commonEntry b \<Longrightarrow> reached cfg b"
      unfolding reached_def
    proof (induction rule: rtranclp_induct)
      case (step b c)
      have "cfg_edge ?V b c" using listed_cfg(1) [OF okD(1) at [OF v(4) [OF step.hyps(1)]]] step.hyps(2) by (simp add: cfg_edge_def)
      then show ?case using step.IH by (rule rtranclp.rtrancl_into_rtrancl [rotated])
    qed simp
    show "reached cfg b \<Longrightarrow> ?E\<^sup>*\<^sup>* commonEntry b"
      unfolding reached_def
    proof (induction rule: rtranclp_induct)
      case (step b c)
      have "c \<in> set (succ (block cfg b))"
        using step.hyps(2) listed_cfg(1) [OF okD(1) listed_block(1) [of c ?V b]] by (simp add: cfg_edge_def)
      then show ?case using step.IH by (rule rtranclp.rtrancl_into_rtrancl [rotated])
    qed simp
  qed
  then show ?thesis using v(1-3) by blast
qed

lemma UnreachCodeAnalysis_cleaned:
  assumes ok: "cfg_ok cfg" and st: "no_try_moved cfg"
  shows "\<exists>cfg'. UnreachCodeAnalysis cfg = Some (cfg', \<exists>b. doomed cfg b) \<and> cleaned cfg (length (valid cfg)) cfg'"
proof -
  obtain vis where v: "FindReachableBBs cfg commonEntry (replicate (length (valid cfg)) False) = Some vis" "length vis = length (valid cfg)"
      "\<And>b. b < length (valid cfg) \<Longrightarrow> vis ! b \<longleftrightarrow> reached cfg b" using reached_blocks [OF ok] by blast
  show ?thesis
    using unreach_loop_cleaned [OF ok st v(2,3) _ cleaned_start, of False] v(1) by (auto simp: UnreachCodeAnalysis_def)
qed

section \<open>The cleaned graph\<close>

lemma the_block_live: "same_length cfg \<Longrightarrow> bb_at (GetAllBBs cfg) b \<noteq> None \<longleftrightarrow> b < length (valid cfg) \<and> valid cfg ! b"
  by (simp add: bb_at_cfg the_block_def)

lemma cleaned_lists:
  assumes ok: "cfg_ok cfg" and c: "cleaned cfg (length (valid cfg)) cfg'"
  shows "same_length cfg'" and "the_block cfg' b \<noteq> None \<longleftrightarrow> the_block cfg b \<noteq> None \<and> \<not> doomed cfg b"
    and "the_block cfg' b \<noteq> None \<Longrightarrow> succs_of (GetAllBBs cfg') b = succs_of (GetAllBBs cfg) b"
    and "the_block cfg' b \<noteq> None \<Longrightarrow> preds_of (GetAllBBs cfg') b = filter (\<lambda>p. \<not> doomed cfg p) (preds_of (GetAllBBs cfg) b)"
    and "the_block cfg' b \<noteq> None \<Longrightarrow> is_exit (GetAllBBs cfg') b \<longleftrightarrow> is_exit (GetAllBBs cfg) b"
proof -
  note okD = cfg_okD [OF ok] and cD = cleanedD [OF c]
  show sl: "same_length cfg'" using cD(1,2) okD(1) by (simp add: same_length_def)
  show live: "the_block cfg' b \<noteq> None \<longleftrightarrow> the_block cfg b \<noteq> None \<and> \<not> doomed cfg b" for b
    using cD(2) cD(3) [of b] doomed_less [of cfg b] by (auto simp: the_block_def)
  assume b': "the_block cfg' b \<noteq> None"
  then have b: "the_block cfg b \<noteq> None" "\<not> doomed cfg b" using live by simp_all
  have at: "bb_at (GetAllBBs cfg) b \<noteq> None" "bb_at (GetAllBBs cfg') b \<noteq> None" using b(1) b' bb_at_cfg okD(1) sl by simp_all
  note l = listed_cfg [OF okD(1) at(1)] and l' = listed_cfg [OF sl at(2)]
  show "succs_of (GetAllBBs cfg') b = succs_of (GetAllBBs cfg) b" unfolding l(1) l'(1) using cD(4) [OF b(1)] b(2) by blast
  have "(\<lambda>p. \<not> (p < length (valid cfg) \<and> doomed cfg p)) = (\<lambda>p. \<not> doomed cfg p)" using doomed_less by blast
  then show "preds_of (GetAllBBs cfg') b = filter (\<lambda>p. \<not> doomed cfg p) (preds_of (GetAllBBs cfg) b)"
    unfolding l(2) l'(2) using cD(5) [OF b] by simp
  have "b < length (blocks cfg)" using b(1) okD(1) by (simp add: the_block_def same_length_def split: if_splits)
  then show "is_exit (GetAllBBs cfg') b \<longleftrightarrow> is_exit (GetAllBBs cfg) b" unfolding l(3) l'(3) by (rule alike_attr(2) [OF cD(6)])
qed

lemma cleaned_ok:
  assumes ok: "cfg_ok cfg" and c: "cleaned cfg (length (valid cfg)) cfg'"
  shows "cfg_ok cfg'" and "reached cfg' b \<longleftrightarrow> reached cfg b" and "normal (GetAllBBs cfg') commonEntry commonExit b \<Longrightarrow> reached cfg' b"
proof -
  let ?V = "GetAllBBs cfg" and ?V' = "GetAllBBs cfg'"
  note okD = cfg_okD [OF ok] and cD = cleanedD [OF c] and cl = cleaned_lists [OF ok c]
  have live: "bb_at ?V' b \<noteq> None \<longleftrightarrow> bb_at ?V b \<noteq> None \<and> \<not> doomed cfg b" for b
    using cl(2) bb_at_cfg [OF okD(1)] bb_at_cfg [OF cl(1)] by simp
  have lists: "succs_of ?V' b = succs_of ?V b" "preds_of ?V' b = filter (\<lambda>p. \<not> doomed cfg p) (preds_of ?V b)" "is_exit ?V' b \<longleftrightarrow> is_exit ?V b"
    if "bb_at ?V' b \<noteq> None" for b using cl(3-5) [of b] that bb_at_cfg [OF cl(1)] by simp_all
  have norm: "normal ?V' commonEntry commonExit b \<longleftrightarrow> normal ?V commonEntry commonExit b \<and> reached cfg b" for b
    using live [of b] bb_at_cfg [OF okD(1), of b] unfolding normal_def doomed_def by auto
  have nD: "normal ?V commonEntry commonExit b" "reached cfg b" "bb_at ?V' b \<noteq> None" if "normal ?V' commonEntry commonExit b" for b
    using that norm [of b] that [unfolded normal_def] by blast+
  have dn: "doomed cfg b \<longleftrightarrow> normal ?V commonEntry commonExit b \<and> \<not> reached cfg b" for b
    using doomed_normal [OF okD(1), of b] bb_at_cfg [OF okD(1), of b] by (auto simp: doomed_def normal_def)
  have not_common: "\<not> doomed cfg commonEntry" "\<not> doomed cfg commonExit" by (simp_all add: dn normal_def)
  have at: "bb_at ?V' commonEntry \<noteq> None" "bb_at ?V' commonExit \<noteq> None"
    using live wf_cfgD(2,3) [OF okD(2)] not_common by simp_all
  have edge: "reached cfg b \<Longrightarrow> s \<in> set (succs_of ?V b) \<Longrightarrow> reached cfg s" for b s
    unfolding reached_def by (erule rtranclp.rtrancl_into_rtrancl) (simp add: cfg_edge_def)
  have e: "reached cfg commonEntry" by (simp add: reached_def)
  have wf': "wf_cfg ?V' commonEntry commonExit"
    unfolding wf_cfg_def list_all_iff
  proof (intro conjI ballI impI)
    show "commonEntry \<noteq> commonExit" by (rule common_ids)
    show "bb_at ?V' commonEntry \<noteq> None" "bb_at ?V' commonExit \<noteq> None" by (rule at)+
    show "preds_of ?V' commonEntry = []" using lists(2) [OF at(1)] wf_cfgD(4) [OF okD(2)] by simp
    show "succs_of ?V' commonExit = []" using lists(1) [OF at(2)] wf_cfgD(5) [OF okD(2)] by simp
    show "normal ?V' commonEntry commonExit s" if "s \<in> set (succs_of ?V' commonEntry)" for s
      using that lists(1) [OF at(1)] wf_cfgD(6) [OF okD(2), of s] edge [OF e, of s] norm [of s] by metis
    show "normal ?V' commonEntry commonExit p" if "p \<in> set (preds_of ?V' commonExit)" for p
      using that lists(2) [OF at(2)] wf_cfgD(7) [OF okD(2), of p] norm [of p] dn [of p] by (metis (mono_tags, lifting) mem_Collect_eq set_filter)
    fix b assume b': "normal ?V' commonEntry commonExit b"
    have b: "normal ?V commonEntry commonExit b" "reached cfg b" "bb_at ?V' b \<noteq> None" using nD [OF b'] .
    show "normal ?V' commonEntry commonExit s" "b \<in> set (preds_of ?V' s)" if "s \<in> set (succs_of ?V' b)" for s
    proof -
      have s: "normal ?V commonEntry commonExit s" "b \<in> set (preds_of ?V s)" "reached cfg s"
        using that lists(1) [OF b(3)] wf_cfgD(8) [OF okD(2) b(1), of s] edge [OF b(2), of s] by simp_all
      then show n: "normal ?V' commonEntry commonExit s" using norm by blast
      show "b \<in> set (preds_of ?V' s)" using lists(2) [OF nD(3) [OF n]] s(2) b(2) dn by simp
    qed
    show "normal ?V' commonEntry commonExit p" "b \<in> set (succs_of ?V' p)" if "p \<in> set (preds_of ?V' b)" for p
    proof -
      have p: "normal ?V commonEntry commonExit p" "b \<in> set (succs_of ?V p)" "reached cfg p"
        using that lists(2) [OF b(3)] wf_cfgD(9) [OF okD(2) b(1), of p] dn by auto
      then show n: "normal ?V' commonEntry commonExit p" using norm by blast
      show "b \<in> set (succs_of ?V' p)" using lists(1) [OF nD(3) [OF n]] p(2) by simp
    qed
  qed
  have ex': "exits_ok ?V' commonEntry commonExit"
    unfolding exits_ok_def list_all_iff
  proof (intro ballI impI)
    fix b assume b': "normal ?V' commonEntry commonExit b"
    have b: "normal ?V commonEntry commonExit b" "reached cfg b" "bb_at ?V' b \<noteq> None" using nD [OF b'] .
    have "b < length ?V" using bb_at_less b(1) by (simp add: normal_def)
    then have "is_exit ?V b \<longleftrightarrow> b \<in> set (preds_of ?V commonExit)" using okD(3) b(1) by (simp add: exits_ok_def list_all_iff)
    then show "is_exit ?V' b \<longleftrightarrow> b \<in> set (preds_of ?V' commonExit)" using lists(3) [OF b(3)] lists(2) [OF at(2)] dn b(2) by simp
  qed
  have blk: "succ (block cfg' b) = succ (block cfg b)" "pred (block cfg' b) = filter (\<lambda>p. \<not> doomed cfg p) (pred (block cfg b))"
    if "bb_at ?V' b \<noteq> None" for b
    using lists(1,2) [OF that] listed_cfg(1,2) [OF cl(1) that] listed_cfg(1,2) [OF okD(1), of b] live that by simp_all
  show "cfg_ok cfg'"
    unfolding cfg_ok_def list_all_iff
  proof (intro conjI ballI impI)
    show "same_length cfg'" "wf_cfg ?V' commonEntry commonExit" "exits_ok ?V' commonEntry commonExit" by (rule cl(1) wf' ex')+
    show "distinct (pred (block cfg' commonExit))" using blk(2) [OF at(2)] okD(4) by simp
    fix b assume b': "normal ?V' commonEntry commonExit b"
    have b: "normal ?V commonEntry commonExit b" "reached cfg b" "bb_at ?V' b \<noteq> None" using nD [OF b'] .
    have bl: "b < length (blocks cfg)" using bb_at_less [of ?V b] b(1) length_cfg [OF okD(1)] okD(1) by (simp add: normal_def same_length_def)
    show "b \<in> set (succ (block cfg' commonEntry))" if "GetAttributes (block cfg' b) kBBAttrIsEntry"
      using okD(5) [OF b(1)] that alike_attr(1) [OF cD(6) [OF bl]] blk(1) [OF at(1)] by simp
    fix s assume s': "normal ?V' commonEntry commonExit s"
    have s: "normal ?V commonEntry commonExit s" "bb_at ?V' s \<noteq> None" using nD(1,3) [OF s'] .
    have "\<not> doomed cfg b" using dn b(2) by simp
    then have "count_list (pred (block cfg' s)) b = count_list (pred (block cfg s)) b"
      unfolding blk(2) [OF s(2)] by (rule count_list_keep)
    then show "count_list (succ (block cfg' b)) s = count_list (pred (block cfg' s)) b"
      using okD(6) [OF b(1) s(1)] blk(1) [OF b(3)] by simp
  qed
  show re: "reached cfg' b \<longleftrightarrow> reached cfg b" for b
  proof
    show "reached cfg' b \<Longrightarrow> reached cfg b"
      unfolding reached_def
    proof (induction rule: rtranclp_induct)
      case (step b c)
      have "bb_at ?V' b \<noteq> None" using listed_block(1) step.hyps(2) by (auto simp: cfg_edge_def)
      then have "cfg_edge ?V b c" using step.hyps(2) lists(1) by (simp add: cfg_edge_def)
      then show ?case using step.IH by (rule rtranclp.rtrancl_into_rtrancl [rotated])
    qed simp
    assume "reached cfg b"
    then have "reached cfg' b \<and> bb_at ?V' b \<noteq> None"
      unfolding reached_def [of cfg]
    proof (induction rule: rtranclp_induct)
      case base
      then show ?case using at(1) by (simp add: reached_def)
    next
      case (step b c)
      have "cfg_edge ?V' b c" using step.IH step.hyps(2) lists(1) by (simp add: cfg_edge_def)
      then have "reached cfg' c" using step.IH unfolding reached_def by (meson rtranclp.rtrancl_into_rtrancl)
      moreover have "bb_at ?V c \<noteq> None"
        using reach_less [OF okD(2) rtranclp.rtrancl_into_rtrancl [OF step.hyps]] wf_cfgD(2) [OF okD(2)] by (auto simp: normal_def)
      moreover have "reached cfg c" using step.hyps unfolding reached_def by (rule rtranclp.rtrancl_into_rtrancl)
      ultimately show ?case using live dn by blast
    qed
    then show "reached cfg' b" ..
  qed
  show "normal ?V' commonEntry commonExit b \<Longrightarrow> reached cfg' b" using norm re by blast
qed

lemma all_reached_joins:
  assumes wf: "wf_cfg v entry exit" and all: "\<And>b. normal v entry exit b \<Longrightarrow> (cfg_edge v)\<^sup>*\<^sup>* entry b"
  shows "joins_forward v entry exit"
  unfolding joins_forward_def joins_reached_def
proof (intro allI impI ballI)
  fix b p assume j: "joins (preds_of v) exit b" and p: "p \<in> set (preds_of v b)"
  have "b \<noteq> exit" using j by (simp add: joins_def)
  then show "(cfg_edge v)\<^sup>*\<^sup>* entry p" using neighbour_normal(1) [OF wf _ p] all by blast
qed

lemma all_exit_joins:
  assumes wf: "wf_cfg v entry exit" and all: "\<And>b. normal v entry exit b \<Longrightarrow> (rev_edge v)\<^sup>*\<^sup>* exit b"
  shows "joins_backward v entry exit"
  unfolding joins_backward_def joins_reached_def
proof (intro allI impI ballI)
  fix b p assume j: "joins (succs_of v) entry b" and p: "p \<in> set (succs_of v b)"
  have "b \<noteq> entry" using j by (simp add: joins_def)
  then show "(rev_edge v)\<^sup>*\<^sup>* exit p" using neighbour_normal(2) [OF wf _ p] all by blast
qed

end
