(* ===== verification/CfgExit.thy ===== *)
theory CfgExit
  imports CfgClean
begin

text \<open>
  What \<^verbatim>\<open>WontExitAnalysis\<close> makes of a graph: artificial blocks that lead from the
  jumps of endless loops to the common exit.
\<close>

section \<open>Artificial blocks\<close>

definition exits :: "MeCFG \<Rightarrow> BBId \<Rightarrow> bool" where
  "exits cfg b \<longleftrightarrow> (rev_edge (GetAllBBs cfg))\<^sup>*\<^sup>* commonExit b"

definition wont :: "MeCFG \<Rightarrow> BBId \<Rightarrow> bool" where
  "wont cfg b \<longleftrightarrow> normal (GetAllBBs cfg) commonEntry commonExit b \<and> \<not> exits cfg b"

definition gotos :: "MeCFG \<Rightarrow> BBId \<Rightarrow> bool" where
  "gotos cfg b \<longleftrightarrow> wont cfg b \<and> kind (block cfg b) = kBBGoto"

definition count_gotos :: "MeCFG \<Rightarrow> nat \<Rightarrow> nat" where
  "count_gotos cfg k = length (filter (gotos cfg) [0..<k])"

text \<open>The id of the artificial block behind a jump.\<close>

definition art :: "MeCFG \<Rightarrow> BBId \<Rightarrow> BBId" where
  "art cfg i = length (valid cfg) + count_gotos cfg i"

lemma count_Suc: "count_gotos cfg (Suc k) = count_gotos cfg k + (if gotos cfg k then 1 else 0)"
  by (simp add: count_gotos_def)

lemma count_mono: "i \<le> k \<Longrightarrow> count_gotos cfg i \<le> count_gotos cfg k"
  by (induction k) (auto simp: count_Suc le_Suc_eq)

lemma count_less: "i < k \<Longrightarrow> gotos cfg i \<Longrightarrow> count_gotos cfg i < count_gotos cfg k"
  using count_mono [of "Suc i" k cfg] by (simp add: count_Suc)

lemma count_inject: "gotos cfg i \<Longrightarrow> gotos cfg j \<Longrightarrow> count_gotos cfg i = count_gotos cfg j \<Longrightarrow> i = j"
  using count_less [of i j cfg] count_less [of j i cfg] by (metis less_irrefl linorder_neqE_nat)

lemma count_onto: "j < count_gotos cfg k \<Longrightarrow> \<exists>i<k. gotos cfg i \<and> count_gotos cfg i = j"
proof (induction k)
  case (Suc k)
  show ?case
  proof (cases "j < count_gotos cfg k")
    case True
    then show ?thesis using Suc.IH less_SucI by blast
  next
    case False
    then have "gotos cfg k \<and> count_gotos cfg k = j" using Suc.prems by (auto simp: count_Suc split: if_splits)
    then show ?thesis by blast
  qed
qed (simp add: count_gotos_def)

definition artificial :: "BBId \<Rightarrow> MeBB \<Rightarrow> bool" where
  "artificial i bb \<longleftrightarrow> succ bb = [] \<and> pred bb = [i] \<and> kind bb = kBBReturn \<and> GetAttributes bb kBBAttrIsExit"

definition kept :: "MeBB \<Rightarrow> MeBB \<Rightarrow> bool" where
  "kept x y \<longleftrightarrow> kind y = kind x \<and> (GetAttributes y kBBAttrIsExit \<longleftrightarrow> GetAttributes x kBBAttrIsExit)"

text \<open>The loop has dealt with the blocks below \<open>k\<close>.\<close>

definition extended :: "MeCFG \<Rightarrow> nat \<Rightarrow> MeCFG \<Rightarrow> bool" where
  "extended cfg k cfg' \<longleftrightarrow> length (blocks cfg') = length (valid cfg) + count_gotos cfg k \<and>
     valid cfg' = valid cfg @ replicate (count_gotos cfg k) True \<and>
     (\<forall>i<length (valid cfg). succ (block cfg' i) = succ (block cfg i) @ (if i < k \<and> gotos cfg i then [art cfg i] else []) \<and>
        pred (block cfg' i) = pred (block cfg i) @ (if i = commonExit then [length (valid cfg)..<length (valid cfg) + count_gotos cfg k] else []) \<and>
        kept (block cfg i) (block cfg' i)) \<and>
     (\<forall>i<k. gotos cfg i \<longrightarrow> artificial i (block cfg' (art cfg i)))"

lemma extendedD:
  assumes "extended cfg k cfg'"
  shows "length (blocks cfg') = length (valid cfg) + count_gotos cfg k" "valid cfg' = valid cfg @ replicate (count_gotos cfg k) True"
    "i < length (valid cfg) \<Longrightarrow> succ (block cfg' i) = succ (block cfg i) @ (if i < k \<and> gotos cfg i then [art cfg i] else [])"
    "i < length (valid cfg) \<Longrightarrow> pred (block cfg' i) = pred (block cfg i) @
       (if i = commonExit then [length (valid cfg)..<length (valid cfg) + count_gotos cfg k] else [])"
    "i < length (valid cfg) \<Longrightarrow> kept (block cfg i) (block cfg' i)"
    "i < k \<Longrightarrow> gotos cfg i \<Longrightarrow> artificial i (block cfg' (art cfg i))"
  using assms unfolding extended_def by blast+

lemma wont_normal: "wont cfg b \<Longrightarrow> normal (GetAllBBs cfg) commonEntry commonExit b"
  by (simp add: wont_def)

lemma gotos_wont: "gotos cfg b \<Longrightarrow> wont cfg b"
  by (simp add: gotos_def)

lemma extended_start: "same_length cfg \<Longrightarrow> extended cfg 0 cfg"
  by (simp add: extended_def same_length_def count_gotos_def kept_def)

lemma extended_skip:
  assumes "extended cfg k cfg'" and "\<not> gotos cfg k"
  shows "extended cfg (Suc k) cfg'"
proof -
  have e: "i < Suc k \<and> gotos cfg i \<longleftrightarrow> i < k \<and> gotos cfg i" "count_gotos cfg (Suc k) = count_gotos cfg k" for i
    using assms(2) by (auto simp: less_Suc_eq count_Suc)
  have "i < k" if "i < Suc k" "gotos cfg i" for i using e(1) that by blast
  then show ?thesis using assms(1) unfolding extended_def e by simp
qed

lemma kept_trans: "kept x y \<Longrightarrow> kept y z \<Longrightarrow> kept x z"
  by (simp add: kept_def)

lemma kept_fields [simp]: "kept x (y\<lparr>succ := ss\<rparr>) = kept x y" "kept x (y\<lparr>pred := ps\<rparr>) = kept x y" "kept x x"
  by (simp_all add: kept_def GetAttributes_def)

lemma kept_wont: "kept x (SetAttributes kBBAttrWontExit x)"
  by (simp add: kept_def SetAttributes_def GetAttributes_def or_attr attr_bits)

lemma mark_extended:
  assumes x: "extended cfg k cfg'" and i: "i < length (valid cfg')"
  shows "extended cfg k (update i (SetAttributes kBBAttrWontExit) cfg')"
proof -
  note xD = extendedD [OF x]
  have il: "i < length (blocks cfg')" using i xD(1,2) by simp
  have b: "block (update i (SetAttributes kBBAttrWontExit) cfg') j =
      (if j = i then SetAttributes kBBAttrWontExit (block cfg' i) else block cfg' j)" for j
    by (rule block_update [OF il])
  have s: "succ (block (update i (SetAttributes kBBAttrWontExit) cfg') j) = succ (block cfg' j)"
    "pred (block (update i (SetAttributes kBBAttrWontExit) cfg') j) = pred (block cfg' j)"
    "kept (block cfg' j) (block (update i (SetAttributes kBBAttrWontExit) cfg') j)"
    "artificial h (block cfg' j) \<Longrightarrow> artificial h (block (update i (SetAttributes kBBAttrWontExit) cfg') j)" for j h
    unfolding b using kept_wont [of "block cfg' i"] by (auto simp: SetAttributes_def artificial_def GetAttributes_def or_attr)
  show ?thesis
    unfolding extended_def s(1,2) update_lengths
    using xD(1-4) kept_trans [OF xD(5) s(3)] s(4) [OF xD(6)] by simp
qed

lemma add_artificial:
  assumes sl: "same_length cfg" and x: "extended cfg k cfg'" and k: "k < length (valid cfg)" "gotos cfg k" and ex: "commonExit < length (valid cfg)"
  shows "extended cfg (Suc k) (wont_exit_block k cfg')"
proof -
  let ?n = "length (valid cfg)" and ?m = "count_gotos cfg k"
  note xD = extendedD [OF x]
  define c1 where "c1 = update k (SetAttributes kBBAttrWontExit) cfg'"
  have x1: "extended cfg k c1" unfolding c1_def using mark_extended [OF x] k(1) xD(2) by simp
  note y = extendedD [OF x1]
  have kb: "kind (block c1 k) = kBBGoto" using y(5) [OF k(1)] k(2) by (simp add: kept_def gotos_def)
  define nb where "nb = ?n + ?m"
  have nb: "nb = length (blocks c1)" "nb = art cfg k" using y(1) by (simp_all add: nb_def art_def)
  have kx: "k \<noteq> commonExit" using wont_normal [OF gotos_wont [OF k(2)]] by (simp add: normal_def)
  define c2 where "c2 = c1\<lparr>blocks := blocks c1 @ [new_MeBB], valid := valid c1 @ [True]\<rparr>"
  define c3 where "c3 = update nb (SetAttributes kBBAttrArtificial) (update nb SetKindReturn c2)"
  define c4 where "c4 = AddSucc k nb c3"
  define c5 where "c5 = update commonExit (AddExit nb) c4"
  have w: "wont_exit_block k cfg' = c5"
    unfolding wont_exit_block_def c1_def [symmetric] Let_def if_P [OF kb] NewBasicBlock_def prod.case c5_def c4_def c3_def c2_def nb(1) ..
  have l2: "length (blocks c2) = Suc nb" "valid c2 = valid c1 @ [True]" by (simp_all add: c2_def nb(1))
  have l3: "length (blocks c3) = Suc nb" "valid c3 = valid c1 @ [True]" using l2 by (simp_all add: c3_def)
  have l4: "length (blocks c4) = Suc nb" "valid c4 = valid c1 @ [True]" using l3 by (simp_all add: c4_def AddSucc_def)
  have l5: "length (blocks c5) = Suc nb" "valid c5 = valid c1 @ [True]" using l4 by (simp_all add: c5_def)
  have less: "k < Suc nb" "nb < Suc nb" "commonExit < Suc nb" "commonExit \<noteq> nb" "k \<noteq> nb" using k(1) ex by (simp_all add: nb_def)
  have b2: "block c2 i = (if i = nb then new_MeBB else block c1 i)" if "i < Suc nb" for i
    using that by (auto simp: c2_def block_def nb(1) nth_append)
  let ?new = "SetAttributes kBBAttrArtificial (SetKindReturn new_MeBB)"
  have b3: "block c3 i = (if i = nb then ?new else block c1 i)" if "i < Suc nb" for i
    using that l2(1) b2 less by (simp add: c3_def block_update)
  have b4: "block c4 i = (if i = nb then ?new\<lparr>pred := [k]\<rparr> else if i = k then (block c1 k)\<lparr>succ := succ (block c1 k) @ [nb]\<rparr> else block c1 i)"
    if "i < Suc nb" for i
    using that l3(1) b3 less by (simp add: c4_def AddSucc_def block_update) (simp add: SetAttributes_def SetKindReturn_def new_MeBB_def)
  have b5: "block c5 i = (if i = nb then ?new\<lparr>pred := [k]\<rparr> else if i = k then (block c1 k)\<lparr>succ := succ (block c1 k) @ [nb]\<rparr>
      else if i = commonExit then (block c1 i)\<lparr>pred := pred (block c1 i) @ [nb]\<rparr> else block c1 i)" if "i < Suc nb" for i
    using that l4(1) b4 less kx by (simp add: c5_def block_update AddExit_def)
  have cs: "count_gotos cfg (Suc k) = Suc ?m" using k(2) by (simp add: count_Suc)
  have new: "artificial k (?new\<lparr>pred := [k]\<rparr>)"
    by (simp add: artificial_def SetAttributes_def SetKindReturn_def new_MeBB_def GetAttributes_def or_attr attr_bits)
  show ?thesis
    unfolding w extended_def cs
  proof (intro conjI allI impI)
    show "length (blocks c5) = ?n + Suc ?m" using l5(1) by (simp add: nb_def)
    show "valid c5 = valid cfg @ replicate (Suc ?m) True" using l5(2) y(2) by (simp add: replicate_append_same)
    fix i
    {
      assume i: "i < ?n"
      then have il: "i < Suc nb" "i \<noteq> nb" by (simp_all add: nb_def)
      show "succ (block c5 i) = succ (block cfg i) @ (if i < Suc k \<and> gotos cfg i then [art cfg i] else [])"
      proof (cases "i = k")
        case True
        then show ?thesis using b5 [OF il(1)] il(2) y(3) [OF i] nb(2) k(2) by simp
      next
        case False
        then have e: "i < Suc k \<longleftrightarrow> i < k" by auto
        have "succ (block c5 i) = succ (block c1 i)" unfolding b5 [OF il(1)] using il(2) False by simp
        then show ?thesis unfolding e y(3) [OF i] .
      qed
      have e: "[?n..<?n + Suc ?m] = [?n..<?n + ?m] @ [nb]" by (simp add: nb_def)
      have "pred (block c5 i) = pred (block c1 i) @ (if i = commonExit then [nb] else [])" unfolding b5 [OF il(1)] using il(2) kx by simp
      then show "pred (block c5 i) = pred (block cfg i) @ (if i = commonExit then [?n..<?n + Suc ?m] else [])"
        unfolding e y(4) [OF i] by (cases "i = commonExit") simp_all
      show "kept (block cfg i) (block c5 i)" using b5 [OF il(1)] il(2) y(5) [OF i] by (cases "i = k"; cases "i = commonExit") simp_all
    }
    assume i: "i < Suc k" "gotos cfg i"
    show "artificial i (block c5 (art cfg i))"
    proof (cases "i = k")
      case True
      then show ?thesis using b5 [OF less(2)] new nb(2) by simp
    next
      case False
      then have "i < k" using i(1) by simp
      then have a: "art cfg i < nb" "?n \<le> art cfg i" using count_less [OF _ i(2)] by (simp_all add: art_def nb_def)
      then have "block c5 (art cfg i) = block c1 (art cfg i)" using b5 [of "art cfg i"] k(1) ex by simp
      then show ?thesis using y(6) [OF \<open>i < k\<close> i(2)] by simp
    qed
  qed
qed

lemma exit_less: "cfg_ok cfg \<Longrightarrow> commonExit < length (valid cfg)"
  using bb_at_less [OF wf_cfgD(3) [OF cfg_okD(2)]] length_cfg [OF cfg_okD(1)] by metis

text \<open>The end of the loop, over the new blocks, which are returns.\<close>

lemma wont_exit_tail:
  assumes sl: "same_length cfg" and x: "extended cfg (length (valid cfg)) cfg'" and k: "length (valid cfg) \<le> k" "k \<le> length (valid cfg')"
    and vis: "length vis = length (valid cfg)" and n: "0 < length (valid cfg)"
  shows "\<exists>cfg''. wont_exit_loop beyond vis k cfg' = Some cfg'' \<and> extended cfg (length (valid cfg)) cfg''"
  using x k
proof (induction "length (valid cfg') - k" arbitrary: k cfg')
  case 0
  then show ?case by (auto simp: wont_exit_loop.simps [of beyond vis k])
next
  case (Suc d)
  note xD = extendedD [OF Suc.prems(1)]
  have kl: "k < length (valid cfg')" using Suc.hyps(2) by simp
  then have kc: "k - length (valid cfg) < count_gotos cfg (length (valid cfg))" using Suc.prems(2) xD(2) by simp
  then obtain i where i: "i < length (valid cfg)" "gotos cfg i" "art cfg i = k"
    using count_onto [OF kc] Suc.prems(2) by (auto simp: art_def)
  have "kind (block cfg' k) = kBBReturn" using xD(6) [OF i(1,2)] i(3) by (simp add: artificial_def)
  then have kr: "kind (block (update k (SetAttributes kBBAttrWontExit) cfg') k) \<noteq> kBBGoto"
    using kl xD(1,2) by (simp add: block_update SetAttributes_def)
  let ?c = "update k (SetAttributes kBBAttrWontExit) cfg'"
  have wb: "wont_exit_block k cfg' = ?c" using kr by (simp add: wont_exit_block_def Let_def)
  have go: "wont_exit_loop beyond vis k cfg' = wont_exit_loop beyond vis (Suc k) (if \<not> valid cfg' ! k \<or> k = commonEntry \<or> beyond k then cfg' else ?c)"
    using kl vis Suc.prems(2) by (simp add: wont_exit_loop.simps [of beyond vis k] wb)
  have "\<exists>cfg''. wont_exit_loop beyond vis (Suc k) c = Some cfg'' \<and> extended cfg (length (valid cfg)) cfg''"
    if "c = cfg' \<or> c = ?c" for c
  proof (rule Suc.hyps(1))
    show "extended cfg (length (valid cfg)) c" using that Suc.prems(1) mark_extended [OF Suc.prems(1) kl] by auto
  qed (use that Suc.hyps(2) Suc.prems(2) kl in auto)
  then show ?case unfolding go by simp
qed

lemma wont_exit_main:
  assumes ok: "cfg_ok cfg" and vis: "length vis = length (valid cfg)" "\<And>b. b < length (valid cfg) \<Longrightarrow> vis ! b \<longleftrightarrow> exits cfg b"
    and k: "k \<le> length (valid cfg)" and x: "extended cfg k cfg'"
  shows "\<exists>cfg''. wont_exit_loop beyond vis k cfg' = Some cfg'' \<and> extended cfg (length (valid cfg)) cfg''"
  using k x
proof (induction "length (valid cfg) - k" arbitrary: k cfg')
  case 0
  then have "k = length (valid cfg)" by simp
  then show ?case using wont_exit_tail [OF cfg_okD(1) [OF ok] _ _ _ vis(1), of cfg' k beyond] 0 extendedD(2) [of cfg k cfg'] exit_less [OF ok] by fastforce
next
  case (Suc d)
  note okD = cfg_okD [OF ok] and xD = extendedD [OF Suc.prems(2)]
  have kl: "k < length (valid cfg)" using Suc.hyps(2) by simp
  have v: "valid cfg' ! k = valid cfg ! k" "k < length (valid cfg')" using xD(2) kl by (simp_all add: nth_append)
  let ?c = "if \<not> valid cfg ! k \<or> k = commonEntry \<or> exits cfg k then cfg' else wont_exit_block k cfg'"
  have go: "wont_exit_loop beyond vis k cfg' = wont_exit_loop beyond vis (Suc k) ?c"
    using v vis kl by (simp add: wont_exit_loop.simps [of beyond vis k])
  have "extended cfg (Suc k) ?c"
  proof (cases "wont cfg k")
    case True
    then have n: "normal (GetAllBBs cfg) commonEntry commonExit k" "\<not> exits cfg k" by (simp_all add: wont_def)
    then have c: "?c = wont_exit_block k cfg'" using bb_at_cfg [OF okD(1), of k] by (auto simp: normal_def the_block_def split: if_splits)
    show ?thesis
    proof (cases "gotos cfg k")
      case g: True
      then show ?thesis unfolding c by (intro add_artificial [OF okD(1) Suc.prems(2) kl _ exit_less [OF ok]])
    next
      case g: False
      have m: "extended cfg k (update k (SetAttributes kBBAttrWontExit) cfg')" by (rule mark_extended [OF Suc.prems(2) v(2)])
      have "kind (block cfg k) \<noteq> kBBGoto" using True g by (simp add: gotos_def)
      then have "kind (block (update k (SetAttributes kBBAttrWontExit) cfg') k) \<noteq> kBBGoto"
        using extendedD(5) [OF m kl] by (simp add: kept_def)
      then have "wont_exit_block k cfg' = update k (SetAttributes kBBAttrWontExit) cfg'" by (simp add: wont_exit_block_def Let_def)
      then show ?thesis unfolding c using extended_skip [OF m g] by simp
    qed
  next
    case False
    have e: "exits cfg commonExit" by (simp add: exits_def)
    have "\<not> valid cfg ! k \<or> k = commonEntry \<or> exits cfg k"
      using False kl e bb_at_cfg [OF okD(1), of k] by (auto simp: wont_def normal_def the_block_def)
    then have c: "?c = cfg'" by simp
    show ?thesis unfolding c using extended_skip [OF Suc.prems(2)] False gotos_wont by blast
  qed
  then show ?case unfolding go using Suc.hyps(2) kl by (intro Suc.hyps(1)) simp_all
qed

lemma exit_blocks:
  assumes ok: "cfg_ok cfg"
  shows "\<exists>vis. FindWillExitBBs cfg commonExit (replicate (length (valid cfg)) False) = Some vis \<and> length vis = length (valid cfg) \<and>
    (\<forall>b<length (valid cfg). vis ! b \<longleftrightarrow> exits cfg b)"
proof -
  note okD = cfg_okD [OF ok]
  let ?V = "GetAllBBs cfg" and ?E = "\<lambda>a b. b \<in> set (pred (block cfg a))"
  let ?R = "insert commonExit {b. normal ?V commonEntry commonExit b}"
  have at: "bb_at ?V b \<noteq> None" if "b \<in> ?R" for b using that wf_cfgD(3) [OF okD(2)] by (auto simp: normal_def)
  have R: "b < length (valid cfg) \<and> set (pred (block cfg b)) \<subseteq> ?R" if b: "b \<in> ?R" for b
    using bb_at_less [OF at [OF b]] length_cfg [OF okD(1)] listed_cfg(2) [OF okD(1) at [OF b]] b
      wf_cfgD(7) [OF okD(2)] wf_cfgD(9) [OF okD(2), of b] by auto
  obtain vis where v: "FindWillExitBBs cfg commonExit (replicate (length (valid cfg)) False) = Some vis" "length vis = length (valid cfg)"
      "\<And>b. b < length (valid cfg) \<Longrightarrow> vis ! b \<longleftrightarrow> ?E\<^sup>*\<^sup>* commonExit b" "\<And>b. ?E\<^sup>*\<^sup>* commonExit b \<Longrightarrow> b \<in> ?R"
    using find_blocks_reach [of ?R "length (valid cfg)" "\<lambda>b. pred (block cfg b)" commonExit] R unfolding FindWillExitBBs_def by auto
  have "?E\<^sup>*\<^sup>* commonExit b \<longleftrightarrow> exits cfg b" for b
  proof
    show "?E\<^sup>*\<^sup>* commonExit b \<Longrightarrow> exits cfg b"
      unfolding exits_def
    proof (induction rule: rtranclp_induct)
      case (step b c)
      have "rev_edge ?V b c" using listed_cfg(2) [OF okD(1) at [OF v(4) [OF step.hyps(1)]]] step.hyps(2) by (simp add: rev_edge_def)
      then show ?case using step.IH by (rule rtranclp.rtrancl_into_rtrancl [rotated])
    qed simp
    show "exits cfg b \<Longrightarrow> ?E\<^sup>*\<^sup>* commonExit b"
      unfolding exits_def
    proof (induction rule: rtranclp_induct)
      case (step b c)
      have "c \<in> set (pred (block cfg b))"
        using step.hyps(2) listed_cfg(2) [OF okD(1) listed_block(2) [of c ?V b]] by (simp add: rev_edge_def)
      then show ?case using step.IH by (rule rtranclp.rtrancl_into_rtrancl [rotated])
    qed simp
  qed
  then show ?thesis using v(1-3) by blast
qed

lemma WontExitAnalysis_extended:
  assumes ok: "cfg_ok cfg"
  shows "\<exists>cfg'. WontExitAnalysis beyond cfg = Some cfg' \<and> extended cfg (length (valid cfg)) cfg'"
proof -
  obtain vis where v: "FindWillExitBBs cfg commonExit (replicate (length (valid cfg)) False) = Some vis" "length vis = length (valid cfg)"
      "\<And>b. b < length (valid cfg) \<Longrightarrow> vis ! b \<longleftrightarrow> exits cfg b" using exit_blocks [OF ok] by blast
  show ?thesis
    using wont_exit_main [OF ok v(2,3) _ extended_start [OF cfg_okD(1) [OF ok]], of beyond] v(1) exit_less [OF ok]
    by (auto simp: WontExitAnalysis_def)
qed

section \<open>The extended graph\<close>

lemma extended_lists:
  assumes ok: "cfg_ok cfg" and x: "extended cfg (length (valid cfg)) cfg'"
  shows "same_length cfg'"
    and "bb_at (GetAllBBs cfg') b \<noteq> None \<longleftrightarrow> bb_at (GetAllBBs cfg) b \<noteq> None \<or> (\<exists>g. gotos cfg g \<and> b = art cfg g)"
    and "bb_at (GetAllBBs cfg) b \<noteq> None \<Longrightarrow> succs_of (GetAllBBs cfg') b = succs_of (GetAllBBs cfg) b @ (if gotos cfg b then [art cfg b] else [])"
    and "bb_at (GetAllBBs cfg) b \<noteq> None \<Longrightarrow> set (preds_of (GetAllBBs cfg') b) = set (preds_of (GetAllBBs cfg) b) \<union> (if b = commonExit then {art cfg g |g. gotos cfg g} else {})"
    and "bb_at (GetAllBBs cfg) b \<noteq> None \<Longrightarrow> b \<noteq> commonExit \<Longrightarrow> preds_of (GetAllBBs cfg') b = preds_of (GetAllBBs cfg) b"
    and "bb_at (GetAllBBs cfg) b \<noteq> None \<Longrightarrow> is_exit (GetAllBBs cfg') b \<longleftrightarrow> is_exit (GetAllBBs cfg) b"
    and "gotos cfg g \<Longrightarrow> succs_of (GetAllBBs cfg') (art cfg g) = [] \<and> preds_of (GetAllBBs cfg') (art cfg g) = [g] \<and> is_exit (GetAllBBs cfg') (art cfg g)"
    and "gotos cfg g \<Longrightarrow> g < length (valid cfg) \<and> length (valid cfg) \<le> art cfg g"
proof -
  let ?n = "length (valid cfg)" and ?V = "GetAllBBs cfg" and ?V' = "GetAllBBs cfg'"
  note okD = cfg_okD [OF ok] and xD = extendedD [OF x]
  show sl: "same_length cfg'" using xD(1,2) by (simp add: same_length_def)
  show gl: "g < ?n \<and> ?n \<le> art cfg g" if "gotos cfg g" for g
    using wont_normal [OF gotos_wont [OF that]] bb_at_less [of ?V g] length_cfg [OF okD(1)] by (simp add: normal_def art_def)
  have new: "?n \<le> b \<and> b < ?n + count_gotos cfg ?n \<longleftrightarrow> (\<exists>g. gotos cfg g \<and> b = art cfg g)" for b
  proof
    assume b: "?n \<le> b \<and> b < ?n + count_gotos cfg ?n"
    then have "b - ?n < count_gotos cfg ?n" by linarith
    then obtain g where "g < ?n" "gotos cfg g" "count_gotos cfg g = b - ?n" using count_onto by blast
    then show "\<exists>g. gotos cfg g \<and> b = art cfg g" using b by (intro exI [of _ g]) (simp add: art_def)
  next
    assume "\<exists>g. gotos cfg g \<and> b = art cfg g"
    then obtain g where g: "gotos cfg g" "b = art cfg g" by blast
    then show "?n \<le> b \<and> b < ?n + count_gotos cfg ?n" using gl [OF g(1)] count_less [of g ?n cfg] by (simp add: art_def)
  qed
  show live: "bb_at ?V' b \<noteq> None \<longleftrightarrow> bb_at ?V b \<noteq> None \<or> (\<exists>g. gotos cfg g \<and> b = art cfg g)" for b
    unfolding the_block_live [OF sl] the_block_live [OF okD(1)] new [symmetric] xD(2) by (auto simp: nth_append)
  {
    assume b: "bb_at ?V b \<noteq> None"
    then have bl: "b < ?n" using the_block_live [OF okD(1)] by simp
    have b': "bb_at ?V' b \<noteq> None" using b live by simp
    note l = listed_cfg [OF okD(1) b] listed_cfg [OF sl b']
    show "succs_of ?V' b = succs_of ?V b @ (if gotos cfg b then [art cfg b] else [])"
      unfolding l using xD(3) [OF bl] bl by simp
    have p: "preds_of ?V' b = preds_of ?V b @ (if b = commonExit then [?n..<?n + count_gotos cfg ?n] else [])"
      unfolding l by (rule xD(4) [OF bl])
    have "{?n..<?n + count_gotos cfg ?n} = {art cfg g |g. gotos cfg g}" using new by auto
    then show "set (preds_of ?V' b) = set (preds_of ?V b) \<union> (if b = commonExit then {art cfg g |g. gotos cfg g} else {})"
      unfolding p by simp
    show "b \<noteq> commonExit \<Longrightarrow> preds_of ?V' b = preds_of ?V b" unfolding p by simp
    show "is_exit ?V' b \<longleftrightarrow> is_exit ?V b" unfolding l using xD(5) [OF bl] by (simp add: kept_def)
  }
  assume g: "gotos cfg g"
  have "bb_at ?V' (art cfg g) \<noteq> None" using live g by blast
  note l = listed_cfg [OF sl this]
  show "succs_of ?V' (art cfg g) = [] \<and> preds_of ?V' (art cfg g) = [g] \<and> is_exit ?V' (art cfg g)"
    unfolding l using xD(6) [of g] gl [OF g] g by (simp add: artificial_def)
qed

lemma extended_wf:
  assumes ok: "cfg_ok cfg" and x: "extended cfg (length (valid cfg)) cfg'"
  shows "wf_cfg (GetAllBBs cfg') commonEntry commonExit" and "exits_ok (GetAllBBs cfg') commonEntry commonExit"
    and "normal (GetAllBBs cfg') commonEntry commonExit b \<longleftrightarrow> normal (GetAllBBs cfg) commonEntry commonExit b \<or> (\<exists>g. gotos cfg g \<and> b = art cfg g)"
proof -
  let ?V = "GetAllBBs cfg" and ?V' = "GetAllBBs cfg'"
  let ?N = "normal ?V commonEntry commonExit" and ?N' = "normal ?V' commonEntry commonExit"
  note okD = cfg_okD [OF ok] and xl = extended_lists [OF ok x]
  have fresh: "bb_at ?V (art cfg g) = None" "art cfg g \<noteq> commonEntry" "art cfg g \<noteq> commonExit" if "gotos cfg g" for g
  proof -
    show "bb_at ?V (art cfg g) = None" using bb_at_less [of ?V "art cfg g"] length_cfg [OF okD(1)] xl(8) [OF that] by force
    then show "art cfg g \<noteq> commonEntry" "art cfg g \<noteq> commonExit" using wf_cfgD(2,3) [OF okD(2)] by auto
  qed
  show norm: "?N' b \<longleftrightarrow> ?N b \<or> (\<exists>g. gotos cfg g \<and> b = art cfg g)" for b
    unfolding normal_def xl(2) using fresh(2,3) by auto
  have old: "bb_at ?V b \<noteq> None" if "?N b" for b using that by (simp add: normal_def)
  have entry: "\<not> gotos cfg commonEntry" "\<not> gotos cfg commonExit"
    using wont_normal [OF gotos_wont] by (auto simp: normal_def)
  have gN: "?N g" if "gotos cfg g" for g using wont_normal [OF gotos_wont [OF that]] .
  show wf': "wf_cfg ?V' commonEntry commonExit"
    unfolding wf_cfg_def list_all_iff
  proof (intro conjI ballI impI)
    show "commonEntry \<noteq> commonExit" by (rule common_ids)
    show "bb_at ?V' commonEntry \<noteq> None" "bb_at ?V' commonExit \<noteq> None" using xl(2) wf_cfgD(2,3) [OF okD(2)] by blast+
    show "preds_of ?V' commonEntry = []" using xl(5) [OF wf_cfgD(2) [OF okD(2)] common_ids(1)] wf_cfgD(4) [OF okD(2)] by simp
    show "succs_of ?V' commonExit = []" using xl(3) [OF wf_cfgD(3) [OF okD(2)]] wf_cfgD(5) [OF okD(2)] entry by simp
    show "?N' s" if "s \<in> set (succs_of ?V' commonEntry)" for s
    proof -
      have "s \<in> set (succs_of ?V commonEntry)" using that xl(3) [OF wf_cfgD(2) [OF okD(2)]] entry by simp
      then show ?thesis using wf_cfgD(6) [OF okD(2)] norm by blast
    qed
    show "?N' p" if "p \<in> set (preds_of ?V' commonExit)" for p
    proof -
      have "p \<in> set (preds_of ?V commonExit) \<or> (\<exists>g. gotos cfg g \<and> p = art cfg g)" using that xl(4) [OF wf_cfgD(3) [OF okD(2)]] by auto
      then show ?thesis using wf_cfgD(7) [OF okD(2)] norm by blast
    qed
    fix b assume "?N' b"
    then consider "?N b" | g where "gotos cfg g" "b = art cfg g" using norm by blast
    note b = this
    show "?N' s" "b \<in> set (preds_of ?V' s)" if s: "s \<in> set (succs_of ?V' b)" for s
    proof -
      have "?N' s \<and> b \<in> set (preds_of ?V' s)"
        using b
      proof cases
        case 1
        then consider "s \<in> set (succs_of ?V b)" | "gotos cfg b" "s = art cfg b"
          using s xl(3) [OF old [OF 1]] by (auto split: if_splits)
        then show ?thesis
        proof cases
          case a: 1
          then have "?N s" "b \<in> set (preds_of ?V s)" using wf_cfgD(8) [OF okD(2) 1] by simp_all
          then show ?thesis using norm xl(4) [OF old] by blast
        next
          case 2
          then show ?thesis using norm xl(7) by auto
        qed
      next
        case 2
        then show ?thesis using s xl(7) by simp
      qed
      then show "?N' s" "b \<in> set (preds_of ?V' s)" by simp_all
    qed
    show "?N' p" "b \<in> set (succs_of ?V' p)" if p: "p \<in> set (preds_of ?V' b)" for p
    proof -
      have "?N' p \<and> b \<in> set (succs_of ?V' p)"
        using b
      proof cases
        case 1
        then have "p \<in> set (preds_of ?V b)" using p xl(5) [OF old [OF 1]] by (simp add: normal_def)
        then have "?N p" "b \<in> set (succs_of ?V p)" using wf_cfgD(9) [OF okD(2) 1] by simp_all
        then show ?thesis using norm xl(3) [OF old] by simp
      next
        case 2
        then have "p = g" using p xl(7) by simp
        then show ?thesis using 2 norm gN xl(3) [OF old [OF gN [OF 2(1)]]] by simp
      qed
      then show "?N' p" "b \<in> set (succs_of ?V' p)" by simp_all
    qed
  qed
  show "exits_ok ?V' commonEntry commonExit"
    unfolding exits_ok_def list_all_iff
  proof (intro ballI impI)
    fix b assume "?N' b"
    then consider "?N b" | g where "gotos cfg g" "b = art cfg g" using norm by blast
    then show "is_exit ?V' b \<longleftrightarrow> b \<in> set (preds_of ?V' commonExit)"
    proof cases
      case 1
      have "b < length ?V" using bb_at_less old [OF 1] by simp
      then have "is_exit ?V b \<longleftrightarrow> b \<in> set (preds_of ?V commonExit)" using okD(3) 1 by (simp add: exits_ok_def list_all_iff)
      moreover have "b \<noteq> art cfg g" if "gotos cfg g" for g using fresh(1) [OF that] old [OF 1] by auto
      ultimately show ?thesis using xl(4) [OF wf_cfgD(3) [OF okD(2)]] xl(6) [OF old [OF 1]] by auto
    next
      case 2
      then show ?thesis using xl(7) xl(4) [OF wf_cfgD(3) [OF okD(2)]] by auto
    qed
  qed
qed

lemma extended_edges:
  assumes ok: "cfg_ok cfg" and x: "extended cfg (length (valid cfg)) cfg'"
  shows "cfg_edge (GetAllBBs cfg) a b \<Longrightarrow> cfg_edge (GetAllBBs cfg') a b" and "rev_edge (GetAllBBs cfg) a b \<Longrightarrow> rev_edge (GetAllBBs cfg') a b"
  using extended_lists(3,4) [OF ok x] listed_block by (fastforce simp: cfg_edge_def rev_edge_def)+

text \<open>Edges from and to blocks other than the common ones are in both lists.\<close>

lemma rev_path:
  assumes wf: "wf_cfg v entry exit" and b: "normal v entry exit b" and p: "(cfg_edge v)\<^sup>*\<^sup>* b g"
  shows "normal v entry exit g \<and> (rev_edge v)\<^sup>*\<^sup>* g b"
  using p
proof (induction rule: rtranclp_induct)
  case base
  then show ?case using b by simp
next
  case (step y z)
  have "normal v entry exit z \<and> y \<in> set (preds_of v z)" using wf_cfgD(8) [OF wf, of y z] step by (simp add: cfg_edge_def)
  then have "rev_edge v z y" "normal v entry exit z" by (simp_all add: rev_edge_def)
  then show ?case using step.IH converse_rtranclp_into_rtranclp [of "rev_edge v" z y b] by blast
qed

lemma extended_exits:
  assumes ok: "cfg_ok cfg" and x: "extended cfg (length (valid cfg)) cfg'" and b: "normal (GetAllBBs cfg) commonEntry commonExit b"
  shows "exits cfg' b \<longleftrightarrow> exits cfg b \<or> (\<exists>g. (cfg_edge (GetAllBBs cfg))\<^sup>*\<^sup>* b g \<and> gotos cfg g)"
proof
  let ?V = "GetAllBBs cfg" and ?V' = "GetAllBBs cfg'"
  note okD = cfg_okD [OF ok] and xl = extended_lists [OF ok x]
  assume "exits cfg b \<or> (\<exists>g. (cfg_edge ?V)\<^sup>*\<^sup>* b g \<and> gotos cfg g)"
  then show "exits cfg' b"
  proof
    assume "exits cfg b"
    then show ?thesis unfolding exits_def by (rule rtranclp_mono [THEN predicate2D, rotated]) (use extended_edges(2) [OF ok x] in blast)
  next
    assume "\<exists>g. (cfg_edge ?V)\<^sup>*\<^sup>* b g \<and> gotos cfg g"
    then obtain g where g: "(cfg_edge ?V)\<^sup>*\<^sup>* b g" "gotos cfg g" by blast
    have "rev_edge ?V' commonExit (art cfg g)" using g(2) xl(4) [OF wf_cfgD(3) [OF okD(2)]] by (auto simp: rev_edge_def)
    moreover have "rev_edge ?V' (art cfg g) g" using xl(7) [OF g(2)] by (simp add: rev_edge_def)
    moreover have "(rev_edge ?V')\<^sup>*\<^sup>* g b"
      using rev_path [OF okD(2) b g(1), THEN conjunct2] by (rule rtranclp_mono [THEN predicate2D, rotated]) (use extended_edges(2) [OF ok x] in blast)
    ultimately show ?thesis unfolding exits_def by (meson converse_rtranclp_into_rtranclp)
  qed
next
  let ?V = "GetAllBBs cfg" and ?V' = "GetAllBBs cfg'"
  note okD = cfg_okD [OF ok] and xl = extended_lists [OF ok x]
  have "bb_at ?V c \<noteq> None \<longrightarrow> c = commonExit \<or> exits cfg c \<or> (\<exists>g. (cfg_edge ?V)\<^sup>*\<^sup>* c g \<and> gotos cfg g)" if "exits cfg' c" for c
    using that unfolding exits_def [of cfg']
  proof (induction rule: rtranclp_induct)
    case (step y z)
    show ?case
    proof
      assume z: "bb_at ?V z \<noteq> None"
      have zy: "z \<in> set (preds_of ?V' y)" using step.hyps(2) by (simp add: rev_edge_def)
      show "z = commonExit \<or> exits cfg z \<or> (\<exists>g. (cfg_edge ?V)\<^sup>*\<^sup>* z g \<and> gotos cfg g)"
      proof (cases "bb_at ?V y = None")
        case True
        then obtain g where "gotos cfg g" "y = art cfg g" using xl(2) [of y] listed_block(2) [OF zy] by blast
        then have "z = g" "gotos cfg g" using zy xl(7) by simp_all
        then show ?thesis by blast
      next
        case False
        have "art cfg g \<noteq> z" if "gotos cfg g" for g
          using xl(8) [OF that] bb_at_less [OF z] length_cfg [OF okD(1)] by auto
        then have zy: "z \<in> set (preds_of ?V y)" using zy xl(4) [OF False] by (auto split: if_splits)
        then have ze: "rev_edge ?V y z" by (simp add: rev_edge_def)
        consider "y = commonExit" | "exits cfg y" | g where "y \<noteq> commonExit" "(cfg_edge ?V)\<^sup>*\<^sup>* y g" "gotos cfg g" using step.IH False by blast
        then show ?thesis
        proof cases
          case 1
          then show ?thesis unfolding exits_def using ze by blast
        next
          case 2
          then show ?thesis unfolding exits_def using ze by (meson rtranclp.rtrancl_into_rtrancl)
        next
          case 3
          have "cfg_edge ?V z y" using neighbour_normal(1) [OF okD(2) 3(1) zy] wf_cfgD(9) [OF okD(2) _ zy] by (simp add: cfg_edge_def)
          then have "(cfg_edge ?V)\<^sup>*\<^sup>* z g" using 3(2) by (rule converse_rtranclp_into_rtranclp)
          then show ?thesis using 3(3) by blast
        qed
      qed
    qed
  qed simp
  then show "exits cfg' b \<Longrightarrow> exits cfg b \<or> (\<exists>g. (cfg_edge ?V)\<^sup>*\<^sup>* b g \<and> gotos cfg g)" using b by (auto simp: normal_def)
qed

end
