(* ===== verification/CfgClaims.thy ===== *)
theory CfgClaims
  imports CfgExit
begin

text \<open>
  The properties of the analyses that clean the graph up, and of their composition with the
  dominator analysis.
\<close>

declare walk.simps [code] climb.simps [code] Intersect.simps [code] dom_loop.simps [code] run_up.simps [code]
  preorder.simps [code] iter_walk.simps [code] find_up.simps [code]
  find_blocks.simps [code] RemoveAllPred.simps [code] RemoveAllSucc.simps [code] redirect_preds.simps [code] wont_exit_loop.simps [code]

text \<open>The end of \<^verbatim>\<open>MeDoMeCfg::Run\<close>.\<close>

definition MeDoMeCfg_clean :: "(nat \<Rightarrow> bool) \<Rightarrow> MeCFG \<Rightarrow> MeCFG option" where
  "MeDoMeCfg_clean beyond cfg = Option.bind (UnreachCodeAnalysis cfg) (\<lambda>(cfg, cfgChanged). WontExitAnalysis beyond cfg)"

text \<open>
  A graph for the witnesses: block 3 is an endless loop of one jump, block 4 cannot be
  reached and jumps to the return block 5.
\<close>

definition cfg_block :: "uint32 \<Rightarrow> BBKind \<Rightarrow> BBId list \<Rightarrow> BBId list \<Rightarrow> MeBB" where
  "cfg_block attrs k ss ps = new_MeBB\<lparr>attributes := attrs, kind := k, succ := ss, pred := ps\<rparr>"

definition endless_graph :: MeCFG where
  "endless_graph = \<lparr>blocks =
       [cfg_block 0 kBBUnknown [2] [], cfg_block 0 kBBUnknown [] [5], cfg_block kBBAttrIsEntry kBBCondGoto [5, 3] [],
        cfg_block 0 kBBGoto [3] [2, 3], cfg_block 0 kBBGoto [5] [], cfg_block kBBAttrIsExit kBBReturn [] [2, 4]],
     valid = replicate 6 True, endTryBB2TryBB = Map.empty\<rparr>"

lemma endless_graph: "cfg_ok endless_graph"
  by code_simp

lemma endless_edges: "cfg_edge (GetAllBBs endless_graph) a b \<longleftrightarrow> (a, b) \<in> {(0, 2), (2, 5), (2, 3), (3, 3), (4, 5)}"
proof (cases "a < 6")
  case True
  then have "a \<in> {0, 1, 2, 3, 4, 5}" by auto
  then show ?thesis by (auto simp: cfg_edge_def succs_of_def bb_at_def GetAllBBs_def endless_graph_def cfg_block_def eval_nat_numeral)
qed (auto simp: cfg_edge_def succs_of_def bb_at_def GetAllBBs_def endless_graph_def)

lemma endless_reached: "reached endless_graph b \<longleftrightarrow> b \<in> {0, 2, 3, 5}"
proof
  show "reached endless_graph b \<Longrightarrow> b \<in> {0, 2, 3, 5}"
    unfolding reached_def by (induction rule: rtranclp_induct) (auto simp: endless_edges commonEntry_def)
  have e: "(cfg_edge (GetAllBBs endless_graph))\<^sup>*\<^sup>* 0 2" by (rule r_into_rtranclp) (simp add: endless_edges)
  then have "(cfg_edge (GetAllBBs endless_graph))\<^sup>*\<^sup>* 0 3" "(cfg_edge (GetAllBBs endless_graph))\<^sup>*\<^sup>* 0 5"
    by (rule rtranclp.rtrancl_into_rtrancl; simp add: endless_edges)+
  then show "b \<in> {0, 2, 3, 5} \<Longrightarrow> reached endless_graph b" using e by (auto simp: reached_def commonEntry_def)
qed

lemma endless_tries: "no_try_moved endless_graph"
proof -
  have "b = 4" if "doomed endless_graph b" for b
    using that doomed_less [OF that] endless_reached [of b] by (auto simp: doomed_def endless_graph_def commonExit_def)
  moreover have "\<not> IsStartTryBB (block endless_graph 4)" by code_simp
  ultimately show ?thesis unfolding no_try_moved_def by blast
qed

text \<open>(C11) Where it moves no start of a try, \<^verbatim>\<open>UnreachCodeAnalysis\<close> keeps exactly the common exit and the
  blocks that are reachable from the common entry, with their successors and with their
  reachable predecessors in order; it reports whether it deleted a block, and the graph
  stays well-formed. It moves the start of a try (\<^verbatim>\<open>FixTryBB\<close>) if that block is unreachable and a
  reachable block follows it before any unreachable end of a try; then it may keep an
  unreachable block (\<open>moved_try_kept\<close>).\<close>

theorem UnreachCodeAnalysis_blocks:
  assumes "cfg_ok cfg" and "no_try_moved cfg"
  shows "\<exists>cfg' ch. UnreachCodeAnalysis cfg = Some (cfg', ch) \<and> cfg_ok cfg' \<and>
    (\<forall>b. bb_at (GetAllBBs cfg') b \<noteq> None \<longleftrightarrow> bb_at (GetAllBBs cfg) b \<noteq> None \<and> (b = commonExit \<or> (cfg_edge (GetAllBBs cfg))\<^sup>*\<^sup>* commonEntry b)) \<and>
    (\<forall>b. bb_at (GetAllBBs cfg') b \<noteq> None \<longrightarrow> succs_of (GetAllBBs cfg') b = succs_of (GetAllBBs cfg) b \<and>
       preds_of (GetAllBBs cfg') b = filter (\<lambda>p. (cfg_edge (GetAllBBs cfg))\<^sup>*\<^sup>* commonEntry p) (preds_of (GetAllBBs cfg) b)) \<and>
    (ch \<longleftrightarrow> (\<exists>b. bb_at (GetAllBBs cfg) b \<noteq> None \<and> bb_at (GetAllBBs cfg') b = None))"
proof -
  note okD = cfg_okD [OF assms(1)]
  obtain cfg' where u: "UnreachCodeAnalysis cfg = Some (cfg', \<exists>b. doomed cfg b)" and c: "cleaned cfg (length (valid cfg)) cfg'"
    using UnreachCodeAnalysis_cleaned [OF assms] by blast
  note cl = cleaned_lists [OF assms(1) c]
  have live: "bb_at (GetAllBBs cfg') b \<noteq> None \<longleftrightarrow> bb_at (GetAllBBs cfg) b \<noteq> None \<and> \<not> doomed cfg b" for b
    using cl(2) bb_at_cfg [OF okD(1)] bb_at_cfg [OF cl(1)] by simp
  have d: "doomed cfg b \<longleftrightarrow> bb_at (GetAllBBs cfg) b \<noteq> None \<and> b \<noteq> commonExit \<and> \<not> (cfg_edge (GetAllBBs cfg))\<^sup>*\<^sup>* commonEntry b" for b
    unfolding doomed_def reached_def bb_at_cfg [OF okD(1)] ..
  have "filter (\<lambda>p. \<not> doomed cfg p) (preds_of (GetAllBBs cfg) b) = filter (\<lambda>p. (cfg_edge (GetAllBBs cfg))\<^sup>*\<^sup>* commonEntry p) (preds_of (GetAllBBs cfg) b)" for b
  proof (rule filter_cong [OF refl])
    fix p assume "p \<in> set (preds_of (GetAllBBs cfg) b)"
    then have "normal (GetAllBBs cfg) commonEntry commonExit p"
      using wf_cfgD(7) [OF okD(2), of p] neighbour_normal(1) [OF okD(2), of b p] by blast
    then show "\<not> doomed cfg p \<longleftrightarrow> (cfg_edge (GetAllBBs cfg))\<^sup>*\<^sup>* commonEntry p" unfolding d normal_def by blast
  qed
  then have "bb_at (GetAllBBs cfg') b \<noteq> None \<Longrightarrow> succs_of (GetAllBBs cfg') b = succs_of (GetAllBBs cfg) b \<and>
      preds_of (GetAllBBs cfg') b = filter (\<lambda>p. (cfg_edge (GetAllBBs cfg))\<^sup>*\<^sup>* commonEntry p) (preds_of (GetAllBBs cfg) b)" for b
    using cl(3,4) [of b] bb_at_cfg [OF cl(1)] by simp
  moreover have "(\<exists>b. doomed cfg b) \<longleftrightarrow> (\<exists>b. bb_at (GetAllBBs cfg) b \<noteq> None \<and> bb_at (GetAllBBs cfg') b = None)"
    using live d by blast
  moreover have "bb_at (GetAllBBs cfg') b \<noteq> None \<longleftrightarrow> bb_at (GetAllBBs cfg) b \<noteq> None \<and> (b = commonExit \<or> (cfg_edge (GetAllBBs cfg))\<^sup>*\<^sup>* commonEntry b)" for b
    using live d by blast
  ultimately show ?thesis using u cleaned_ok(1) [OF assms(1) c] by blast
qed

theorem UnreachCodeAnalysis_blocks_witness:
  "\<exists>cfg'. map_option fst (UnreachCodeAnalysis endless_graph) = Some cfg' \<and> bb_at (GetAllBBs cfg') 4 = None \<and> preds_of (GetAllBBs cfg') 5 = [2]"
proof -
  have "map_option (\<lambda>(cfg, ch). preds_of (GetAllBBs cfg) 5) (UnreachCodeAnalysis endless_graph) = Some [2]" by code_simp
  then obtain cfg1 ch1 where 1: "UnreachCodeAnalysis endless_graph = Some (cfg1, ch1)" "preds_of (GetAllBBs cfg1) 5 = [2]" by auto
  have "\<not> (cfg_edge (GetAllBBs endless_graph))\<^sup>*\<^sup>* commonEntry 4" using endless_reached [of 4] by (simp add: reached_def)
  moreover have "4 \<noteq> commonExit" by (simp add: commonExit_def)
  ultimately have "bb_at (GetAllBBs cfg1) 4 = None"
    using UnreachCodeAnalysis_blocks [OF endless_graph endless_tries] 1(1) unfolding 1(1) option.inject prod.inject by metis
  then show ?thesis using 1 by simp
qed

text \<open>(C37) \<^verbatim>\<open>WontExitAnalysis\<close> ends whatever the reads beyond its vector give, the graph stays well-formed and keeps
  its blocks and edges, and a block reaches the common exit afterwards exactly when it did
  before or when a path leads from it to a jump that does not reach the exit.\<close>

theorem WontExitAnalysis_exits:
  assumes "cfg_ok cfg"
  shows "\<exists>cfg'. WontExitAnalysis beyond cfg = Some cfg' \<and> wf_cfg (GetAllBBs cfg') commonEntry commonExit \<and> exits_ok (GetAllBBs cfg') commonEntry commonExit \<and>
    (\<forall>b. bb_at (GetAllBBs cfg) b \<noteq> None \<longrightarrow> bb_at (GetAllBBs cfg') b \<noteq> None \<and> (\<exists>new. succs_of (GetAllBBs cfg') b = succs_of (GetAllBBs cfg) b @ new)) \<and>
    (\<forall>b. normal (GetAllBBs cfg) commonEntry commonExit b \<longrightarrow>
       ((rev_edge (GetAllBBs cfg'))\<^sup>*\<^sup>* commonExit b \<longleftrightarrow> (rev_edge (GetAllBBs cfg))\<^sup>*\<^sup>* commonExit b \<or>
          (\<exists>g. (cfg_edge (GetAllBBs cfg))\<^sup>*\<^sup>* b g \<and> kind (block cfg g) = kBBGoto \<and> \<not> (rev_edge (GetAllBBs cfg))\<^sup>*\<^sup>* commonExit g)))"
proof -
  obtain cfg' where w: "WontExitAnalysis beyond cfg = Some cfg'" and x: "extended cfg (length (valid cfg)) cfg'"
    using WontExitAnalysis_extended [OF assms] by blast
  have "(rev_edge (GetAllBBs cfg'))\<^sup>*\<^sup>* commonExit b \<longleftrightarrow> (rev_edge (GetAllBBs cfg))\<^sup>*\<^sup>* commonExit b \<or>
      (\<exists>g. (cfg_edge (GetAllBBs cfg))\<^sup>*\<^sup>* b g \<and> kind (block cfg g) = kBBGoto \<and> \<not> (rev_edge (GetAllBBs cfg))\<^sup>*\<^sup>* commonExit g)"
    if "normal (GetAllBBs cfg) commonEntry commonExit b" for b
    using extended_exits [OF assms x that] rev_path [OF cfg_okD(2) [OF assms] that] unfolding exits_def gotos_def wont_def by blast
  then show ?thesis
    using w extended_wf(1,2) [OF assms x] extended_lists(2,3) [OF assms x] by (intro exI [of _ cfg'] conjI) blast+
qed

theorem WontExitAnalysis_exits_witness:
  "\<exists>cfg'. WontExitAnalysis (\<lambda>_. False) endless_graph = Some cfg' \<and> (rev_edge (GetAllBBs cfg'))\<^sup>*\<^sup>* commonExit 3"
proof -
  have n: "normal (GetAllBBs endless_graph) commonEntry commonExit 3" by code_simp
  have p: "c = 3" if "(cfg_edge (GetAllBBs endless_graph))\<^sup>*\<^sup>* 3 c" for c
    using that by (induction rule: rtranclp_induct) (auto simp: endless_edges)
  have k: "kind (block endless_graph 3) = kBBGoto" by code_simp
  have "(rev_edge (GetAllBBs endless_graph))\<^sup>*\<^sup>* commonExit 3 \<or> \<not> (rev_edge (GetAllBBs endless_graph))\<^sup>*\<^sup>* commonExit 3" by blast
  then show ?thesis using WontExitAnalysis_exits [OF endless_graph, of "\<lambda>_. False"] n k by blast
qed

lemma rtranclp_mono_edges:
  assumes "\<And>p q. E p q \<Longrightarrow> E' p q" and "E\<^sup>*\<^sup>* a b"
  shows "E'\<^sup>*\<^sup>* a b"
  using assms(2) by (induction rule: rtranclp_induct) (use assms(1) in \<open>blast intro: rtranclp.rtrancl_into_rtrancl\<close>)+

text \<open>In the graph that the two analyses leave, every block is reachable from the entry and reaches
  the exit.\<close>

lemma clean_forward:
  assumes ok1: "cfg_ok cfg1" and x: "extended cfg1 (length (valid cfg1)) cfg2"
    and re1: "\<And>b. normal (GetAllBBs cfg1) commonEntry commonExit b \<Longrightarrow> reached cfg1 b"
    and nb: "normal (GetAllBBs cfg2) commonEntry commonExit b"
  shows "(cfg_edge (GetAllBBs cfg2))\<^sup>*\<^sup>* commonEntry b"
proof -
  let ?V1 = "GetAllBBs cfg1" and ?V2 = "GetAllBBs cfg2"
  note xw = extended_wf [OF ok1 x] and xl = extended_lists [OF ok1 x]
  have sub: "(cfg_edge ?V1)\<^sup>*\<^sup>* p q \<Longrightarrow> (cfg_edge ?V2)\<^sup>*\<^sup>* p q" for p q
    by (rule rtranclp_mono_edges [OF extended_edges(1) [OF ok1 x]])
  have old: "(cfg_edge ?V2)\<^sup>*\<^sup>* commonEntry a" if "normal ?V1 commonEntry commonExit a" for a
    using re1 [OF that] unfolding reached_def by (rule sub)
  consider "normal ?V1 commonEntry commonExit b" | g where "gotos cfg1 g" "b = art cfg1 g" using nb xw(3) by blast
  then show ?thesis
  proof cases
    case 2
    have g: "normal ?V1 commonEntry commonExit g" using wont_normal [OF gotos_wont [OF 2(1)]] .
    then have "cfg_edge ?V2 g b" using xl(3) [of g] 2 by (simp add: cfg_edge_def normal_def)
    then show ?thesis using old [OF g] by (rule rtranclp.rtrancl_into_rtrancl [rotated])
  qed (rule old)
qed

text \<open>A path from a reachable block survives the removal of the unreachable ones.\<close>

lemma cleaned_path:
  assumes ok: "cfg_ok cfg" and c: "cleaned cfg (length (valid cfg)) cfg1"
    and b: "normal (GetAllBBs cfg) commonEntry commonExit b" and rb: "reached cfg b" and g: "(cfg_edge (GetAllBBs cfg))\<^sup>*\<^sup>* b g"
  shows "(cfg_edge (GetAllBBs cfg1))\<^sup>*\<^sup>* b g \<and> reached cfg g \<and> normal (GetAllBBs cfg) commonEntry commonExit g"
  using g
proof (induction rule: rtranclp_induct)
  case base
  then show ?case using rb b by simp
next
  case (step y z)
  let ?V = "GetAllBBs cfg" and ?V1 = "GetAllBBs cfg1"
  note okD = cfg_okD [OF ok] and cl = cleaned_lists [OF ok c]
  have live: "bb_at ?V1 y \<noteq> None \<longleftrightarrow> bb_at ?V y \<noteq> None \<and> \<not> doomed cfg y"
    using cl(2) bb_at_cfg [OF okD(1)] bb_at_cfg [OF cl(1)] by simp
  have "\<not> doomed cfg y" using step.IH unfolding doomed_def by blast
  then have "bb_at ?V1 y \<noteq> None" using live step.IH unfolding normal_def by blast
  then have "succs_of ?V1 y = succs_of ?V y" using cl(3) [of y] bb_at_cfg [OF cl(1), of y] by simp
  then have "cfg_edge ?V1 y z" using step.hyps(2) unfolding cfg_edge_def by simp
  moreover have "reached cfg z" using step.IH step.hyps(2) unfolding reached_def by (meson rtranclp.rtrancl_into_rtrancl)
  moreover have "normal ?V commonEntry commonExit z" using wf_cfgD(8) [OF okD(2), of y z] step.IH step.hyps(2) unfolding cfg_edge_def by blast
  ultimately show ?case using step.IH by (meson rtranclp.rtrancl_into_rtrancl)
qed

lemma clean_backward:
  assumes ok: "cfg_ok cfg" and c: "cleaned cfg (length (valid cfg)) cfg1" and x: "extended cfg1 (length (valid cfg1)) cfg2"
    and ends: "\<And>b. normal (GetAllBBs cfg) commonEntry commonExit b \<Longrightarrow> (cfg_edge (GetAllBBs cfg))\<^sup>*\<^sup>* commonEntry b \<Longrightarrow>
      \<exists>g. (cfg_edge (GetAllBBs cfg))\<^sup>*\<^sup>* b g \<and> (g \<in> set (preds_of (GetAllBBs cfg) commonExit) \<or> kind (block cfg g) = kBBGoto)"
    and nb: "normal (GetAllBBs cfg2) commonEntry commonExit b"
  shows "(rev_edge (GetAllBBs cfg2))\<^sup>*\<^sup>* commonExit b"
proof -
  let ?V = "GetAllBBs cfg" and ?V1 = "GetAllBBs cfg1" and ?V2 = "GetAllBBs cfg2"
  note okD = cfg_okD [OF ok] and cl = cleaned_lists [OF ok c] and ok1 = cleaned_ok(1) [OF ok c] and re1 = cleaned_ok(2,3) [OF ok c]
  note xw = extended_wf [OF ok1 x] and xl = extended_lists [OF ok1 x]
  have live: "bb_at ?V1 b \<noteq> None \<longleftrightarrow> bb_at ?V b \<noteq> None \<and> \<not> doomed cfg b" for b
    using cl(2) bb_at_cfg [OF okD(1)] bb_at_cfg [OF cl(1)] by simp
  consider "normal ?V1 commonEntry commonExit b" | g where "gotos cfg1 g" "b = art cfg1 g" using nb xw(3) by blast
  then show ?thesis
  proof cases
    case 1
    then have b1: "bb_at ?V1 b \<noteq> None" by (simp add: normal_def)
    then have b: "normal ?V commonEntry commonExit b" using 1 live by (simp add: normal_def)
    have rb: "reached cfg b" using re1 [of b] 1 by blast
    obtain g where g: "(cfg_edge ?V)\<^sup>*\<^sup>* b g" "g \<in> set (preds_of ?V commonExit) \<or> kind (block cfg g) = kBBGoto"
      using ends [OF b] rb unfolding reached_def by blast
    note path = cleaned_path [OF ok c b rb g(1)]
    have g0: "(cfg_edge ?V1)\<^sup>*\<^sup>* b g" "reached cfg g" "normal ?V commonEntry commonExit g" using path by blast+
    then have g1: "(cfg_edge ?V1)\<^sup>*\<^sup>* b g" "\<not> doomed cfg g" by (simp_all add: doomed_def)
    then have "bb_at ?V1 g \<noteq> None" using live [of g] g0(3) unfolding normal_def by blast
    then have g1: "(cfg_edge ?V1)\<^sup>*\<^sup>* b g" "bb_at ?V1 g \<noteq> None" "\<not> doomed cfg g" "normal ?V1 commonEntry commonExit g"
      using g1 g0(3) unfolding normal_def by blast+
    have gl: "g < length (blocks cfg)" using bb_at_less [OF g1(2)] length_cfg [OF cl(1)] cleanedD(2) [OF c] okD(1) by (simp add: same_length_def)
    have "exits cfg1 b \<or> gotos cfg1 g"
      using g(2)
    proof
      assume "g \<in> set (preds_of ?V commonExit)"
      moreover have "bb_at ?V1 commonExit \<noteq> None" using wf_cfgD(3) [OF cfg_okD(2) [OF ok1]] .
      ultimately have "rev_edge ?V1 commonExit g" using cl(4) [of commonExit] bb_at_cfg [OF cl(1)] g1(3) by (simp add: rev_edge_def)
      then have "(rev_edge ?V1)\<^sup>*\<^sup>* commonExit b" using rev_path [OF cfg_okD(2) [OF ok1] 1 g1(1)] by (meson converse_rtranclp_into_rtranclp)
      then show ?thesis by (simp add: exits_def)
    next
      assume "kind (block cfg g) = kBBGoto"
      then have k: "kind (block cfg1 g) = kBBGoto" using cleanedD(6) [OF c gl] by (simp add: alike_def)
      show ?thesis
      proof (cases "exits cfg1 g")
        case True
        then have "exits cfg1 b" unfolding exits_def using rev_path [OF cfg_okD(2) [OF ok1] 1 g1(1)] by (meson rtranclp_trans)
        then show ?thesis ..
      qed (use k g1(4) in \<open>simp add: gotos_def wont_def\<close>)
    qed
    then show ?thesis using extended_exits [OF ok1 x 1] g1(1) unfolding exits_def by blast
  next
    case 2
    have "rev_edge ?V2 commonExit b" using 2 xl(4) [OF wf_cfgD(3) [OF cfg_okD(2) [OF ok1]]] by (auto simp: rev_edge_def)
    then show ?thesis by blast
  qed
qed

text \<open>(C12) After the two analyses the dominator analysis returns: no run of a frontier meets a null pointer. There are two
  conditions. The first analysis moves no start of a try, since otherwise it may keep an unreachable
  predecessor of a joining block (\<open>moved_try_kept\<close>); and every reachable block can still reach an exit or a jump.\<close>

theorem cleaned_dominance_returns:
  assumes "cfg_ok cfg" and "no_try_moved cfg"
    and "\<And>b. normal (GetAllBBs cfg) commonEntry commonExit b \<Longrightarrow> (cfg_edge (GetAllBBs cfg))\<^sup>*\<^sup>* commonEntry b \<Longrightarrow>
      \<exists>g. (cfg_edge (GetAllBBs cfg))\<^sup>*\<^sup>* b g \<and> (g \<in> set (preds_of (GetAllBBs cfg) commonExit) \<or> kind (block cfg g) = kBBGoto)"
  shows "\<exists>cfg' d. MeDoMeCfg_clean beyond cfg = Some cfg' \<and> MeDoDominance (GetAllBBs cfg') commonEntry commonExit = Some d"
proof -
  obtain cfg1 where u: "UnreachCodeAnalysis cfg = Some (cfg1, \<exists>b. doomed cfg b)" and c: "cleaned cfg (length (valid cfg)) cfg1"
    using UnreachCodeAnalysis_cleaned [OF assms(1,2)] by blast
  note ok1 = cleaned_ok(1) [OF assms(1) c] and re1 = cleaned_ok(3) [OF assms(1) c]
  obtain cfg2 where w: "WontExitAnalysis beyond cfg1 = Some cfg2" and x: "extended cfg1 (length (valid cfg1)) cfg2"
    using WontExitAnalysis_extended [OF ok1] by blast
  note xw = extended_wf [OF ok1 x]
  let ?V2 = "GetAllBBs cfg2"
  have jf: "joins_forward ?V2 commonEntry commonExit"
    using clean_forward [OF ok1 x re1] by (rule all_reached_joins [OF xw(1)])
  have jb: "joins_backward ?V2 commonEntry commonExit"
    using clean_backward [OF assms(1) c x assms(3)] by (rule all_exit_joins [OF xw(1)])
  obtain d where "MeDoDominance ?V2 commonEntry commonExit = Some d" using MeDoDominance_spec [OF xw(1,2)] jf jb by auto
  moreover have "MeDoMeCfg_clean beyond cfg = Some cfg2" using u w by (simp add: MeDoMeCfg_clean_def)
  ultimately show ?thesis by blast
qed

theorem cleaned_dominance_returns_witness:
  "\<exists>cfg' d. MeDoMeCfg_clean (\<lambda>_. False) endless_graph = Some cfg' \<and> MeDoDominance (GetAllBBs cfg') commonEntry commonExit = Some d"
proof (rule cleaned_dominance_returns [OF endless_graph endless_tries])
  fix b assume "normal (GetAllBBs endless_graph) commonEntry commonExit b" "(cfg_edge (GetAllBBs endless_graph))\<^sup>*\<^sup>* commonEntry b"
  then have "b \<in> {2, 3, 5}" using endless_reached [of b] by (auto simp: reached_def normal_def commonEntry_def)
  moreover have "(cfg_edge (GetAllBBs endless_graph))\<^sup>*\<^sup>* 2 5" by (rule r_into_rtranclp) (simp add: endless_edges)
  moreover have "preds_of (GetAllBBs endless_graph) commonExit = [5]" "kind (block endless_graph 3) = kBBGoto" by code_simp+
  ultimately show "\<exists>g. (cfg_edge (GetAllBBs endless_graph))\<^sup>*\<^sup>* b g \<and> (g \<in> set (preds_of (GetAllBBs endless_graph) commonExit) \<or> kind (block endless_graph g) = kBBGoto)"
    by fastforce
qed

section \<open>Moving the start of a try\<close>

text \<open>
  Block 3 is the unreachable start of a try with the handled block 5; block 4, laid out between them,
  has the predecessors 5 and 2. \<^verbatim>\<open>FixTryBB\<close> redirects the first of them only, the unreachable one, so
  that block 3 stays in the graph as an unreachable predecessor of block 4, and the dominator
  analysis dereferences a null pointer although every reachable block leads to the exit.
\<close>

definition moved_try :: MeCFG where
  "moved_try = \<lparr>blocks =
       [cfg_block 0 kBBUnknown [2] [], cfg_block 0 kBBUnknown [] [4], cfg_block kBBAttrIsEntry kBBFallthru [4] [],
        (cfg_block kBBAttrIsTry kBBFallthru [5] [])\<lparr>stmtNodeList := [opTry]\<rparr>, cfg_block kBBAttrIsExit kBBReturn [] [5, 2],
        cfg_block (or kBBAttrIsTry kBBAttrIsTryEnd) kBBGoto [4] [3]],
     valid = replicate 6 True, endTryBB2TryBB = Map.empty\<rparr>"

theorem moved_try_kept:
  "cfg_ok moved_try \<and>
   map_option (\<lambda>(cfg, ch). (valid cfg, succ (block cfg 3), pred (block cfg 3), pred (block cfg 4), ch)) (UnreachCodeAnalysis moved_try) =
     Some ([True, True, True, True, True, False], [4], [], [2, 3], True) \<and>
   map_option dtDfn (Option.bind (MeDoMeCfg_clean (\<lambda>_. False) moved_try) (\<lambda>cfg. MeDoDominance (GetAllBBs cfg) commonEntry commonExit)) = None"
proof (intro conjI)
  show "cfg_ok moved_try" by code_simp
  show "map_option (\<lambda>(cfg, ch). (valid cfg, succ (block cfg 3), pred (block cfg 3), pred (block cfg 4), ch)) (UnreachCodeAnalysis moved_try) =
     Some ([True, True, True, True, True, False], [4], [], [2, 3], True)" by code_simp
  show "map_option dtDfn (Option.bind (MeDoMeCfg_clean (\<lambda>_. False) moved_try) (\<lambda>cfg. MeDoDominance (GetAllBBs cfg) commonEntry commonExit)) = None"
    by code_simp
qed

fun odds :: "'a list \<Rightarrow> 'a list" and evens :: "'a list \<Rightarrow> 'a list" where
  "odds [] = []"
| "odds (x # xs) = evens xs"
| "evens [] = []"
| "evens (x # xs) = x # odds xs"

lemma odds_subset: "set (odds xs) \<subseteq> set xs" "set (evens xs) \<subseteq> set xs"
  by (induction xs) auto

lemma ReplaceSucc_blocks:
  assumes "p < length (blocks cfg)" "old < length (blocks cfg)" "new < length (blocks cfg)"
    and "old \<in> set (succ (block cfg p))" "p \<noteq> old" "p \<noteq> new" "old \<noteq> new"
  shows "length (blocks (ReplaceSucc p old new cfg)) = length (blocks cfg)"
    and "pred (block (ReplaceSucc p old new cfg) old) = RemoveBBFromVector p (pred (block cfg old))"
    and "pred (block (ReplaceSucc p old new cfg) new) = pred (block cfg new) @ [p]"
    and "i \<noteq> p \<Longrightarrow> succ (block (ReplaceSucc p old new cfg) i) = succ (block cfg i)"
  using assms by (auto simp: ReplaceSucc_def block_update RemoveBBFromPred_def)

text \<open>The list loses its element at the place that the loop has just counted past.\<close>

lemma redirect_preds_half:
  fixes cfg :: MeCFG
  assumes "pred (block cfg nextBB) = D @ R" and "distinct (D @ R)" and "startBB \<noteq> nextBB" and "startBB \<notin> set R" "nextBB \<notin> set R"
    and "startBB < length (blocks cfg)" "nextBB < length (blocks cfg)"
    and "\<forall>p\<in>set R. p < length (blocks cfg) \<and> nextBB \<in> set (succ (block cfg p))"
  shows "\<exists>cfg'. redirect_preds startBB nextBB (length D) cfg = Some cfg' \<and> length (blocks cfg') = length (blocks cfg) \<and>
    pred (block cfg' nextBB) = D @ odds R \<and> pred (block cfg' startBB) = pred (block cfg startBB) @ evens R \<and>
    succ (block cfg' startBB) = succ (block cfg startBB)"
  using assms
proof (induction "length R" arbitrary: D R cfg rule: less_induct)
  case less
  note stop = redirect_preds.simps
  show ?case
  proof (cases R)
    case Nil
    then show ?thesis using less.prems(1) by (simp add: stop)
  next
    case (Cons r R1)
    let ?c = "ReplaceSucc r nextBB startBB cfg"
    have r: "r < length (blocks cfg)" "nextBB \<in> set (succ (block cfg r))" "r \<noteq> nextBB" "r \<noteq> startBB"
      using less.prems(4,5,8) Cons by auto
    note c = ReplaceSucc_blocks [OF r(1) less.prems(7,6) r(2,3,4) less.prems(3) [symmetric]]
    have "RemoveBBFromVector r (D @ r # R1) = filter (\<lambda>x. x \<noteq> r) (D @ r # R1)"
      using less.prems(2) Cons by (intro RemoveBBFromVector_distinct) simp_all
    also have "filter (\<lambda>x. x \<noteq> r) D = D" using less.prems(2) Cons by (intro filter_True) auto
    then have "filter (\<lambda>x. x \<noteq> r) (D @ r # R1) = D @ filter (\<lambda>x. x \<noteq> r) R1" by simp
    also have "filter (\<lambda>x. x \<noteq> r) R1 = R1" using less.prems(2) Cons by (intro filter_True) auto
    finally have p: "pred (block ?c nextBB) = D @ R1" using c(2) less.prems(1) Cons by simp
    have step: "redirect_preds startBB nextBB (length D) cfg = redirect_preds startBB nextBB (Suc (length D)) ?c"
      using less.prems(1) Cons by (subst stop) (simp add: nth_append)
    have s: "succ (block ?c startBB) = succ (block cfg startBB)" using c(4) r(4) by auto
    show ?thesis
    proof (cases R1)
      case Nil
      have "redirect_preds startBB nextBB (Suc (length D)) ?c = Some ?c" using p Nil by (subst stop) simp
      then show ?thesis using step p c(1,3) s Cons Nil by simp
    next
      case R1: (Cons q R2)
      have "p < length (blocks ?c) \<and> nextBB \<in> set (succ (block ?c p))" if p: "p \<in> set R2" for p
      proof -
        have "p \<noteq> r" "p \<in> set R" using p less.prems(2) Cons R1 by auto
        then show ?thesis using less.prems(8) c(1) c(4) [of p] by simp
      qed
      then have "\<exists>cfg'. redirect_preds startBB nextBB (length (D @ [q])) ?c = Some cfg' \<and> length (blocks cfg') = length (blocks ?c) \<and>
          pred (block cfg' nextBB) = (D @ [q]) @ odds R2 \<and> pred (block cfg' startBB) = pred (block ?c startBB) @ evens R2 \<and>
          succ (block cfg' startBB) = succ (block ?c startBB)"
        using less.prems Cons R1 p c(1) by (intro less.hyps) simp_all
      then show ?thesis using step c(1,3) s Cons R1 by simp
    qed
  qed
qed

lemma RemoveSucc_blocks:
  assumes "b < length (blocks cfg)" "s < length (blocks cfg)" "s \<noteq> b"
  shows "length (blocks (RemoveSucc b s cfg)) = length (blocks cfg)"
    and "succ (block (RemoveSucc b s cfg) b) = RemoveBBFromVector s (succ (block cfg b))"
    and "i \<noteq> s \<Longrightarrow> pred (block (RemoveSucc b s cfg) i) = pred (block cfg i)"
  using assms by (auto simp: RemoveSucc_def block_update RemoveBBFromPred_def RemoveBBFromSucc_def)

lemma RemoveBBFromVector_member: "b \<in> set xs \<Longrightarrow> length (RemoveBBFromVector b xs) < length xs" "set (RemoveBBFromVector b xs) \<subseteq> set xs"
  by (induction xs) auto

lemma RemoveAllSucc_ends:
  assumes "b < length (blocks cfg)" and "set (succ (block cfg b)) \<subseteq> {..<length (blocks cfg)} - {b}"
  shows "\<exists>cfg'. RemoveAllSucc b cfg = Some cfg' \<and> length (blocks cfg') = length (blocks cfg) \<and>
    (\<forall>i. i \<notin> set (succ (block cfg b)) \<longrightarrow> pred (block cfg' i) = pred (block cfg i)) \<and> succ (block cfg' b) = []"
  using assms
proof (induction "length (succ (block cfg b))" arbitrary: cfg rule: less_induct)
  case less
  show ?case
  proof (cases "succ (block cfg b) = []")
    case True
    then show ?thesis by (simp add: RemoveAllSucc.simps)
  next
    case False
    let ?s = "last (succ (block cfg b))"
    have l: "?s \<in> set (succ (block cfg b))" using False by simp
    then have s: "?s < length (blocks cfg)" "?s \<noteq> b" using less.prems(2) by auto
    note c = RemoveSucc_blocks [OF less.prems(1) s]
    note m = RemoveBBFromVector_member(1) [OF l] RemoveBBFromVector_member(2) [of ?s "succ (block cfg b)"]
    have "\<exists>cfg'. RemoveAllSucc b (RemoveSucc b ?s cfg) = Some cfg' \<and> length (blocks cfg') = length (blocks (RemoveSucc b ?s cfg)) \<and>
        (\<forall>i. i \<notin> set (succ (block (RemoveSucc b ?s cfg) b)) \<longrightarrow> pred (block cfg' i) = pred (block (RemoveSucc b ?s cfg) i)) \<and> succ (block cfg' b) = []"
      using less.prems m c(1,2) by (intro less.hyps) auto
    moreover have "i \<notin> set (succ (block cfg b)) \<Longrightarrow> i \<notin> set (succ (block (RemoveSucc b ?s cfg) b)) \<and> pred (block (RemoveSucc b ?s cfg) i) = pred (block cfg i)" for i
      using c(2) c(3) [of i] m(2) l by (metis subsetD)
    ultimately obtain cfg' where "RemoveAllSucc b (RemoveSucc b ?s cfg) = Some cfg'" "length (blocks cfg') = length (blocks cfg)"
        "\<And>i. i \<notin> set (succ (block cfg b)) \<Longrightarrow> pred (block cfg' i) = pred (block cfg i)" "succ (block cfg' b) = []"
      unfolding c(1) by metis
    then show ?thesis using False by (simp add: RemoveAllSucc.simps)
  qed
qed

text \<open>\<^verbatim>\<open>FixTryBB\<close>, which puts a start without predecessors in front of the block behind it, redirects only
  the first, third, fifth, \<dots> predecessor of that block: the others keep their edges, which
  bypass the start of the try.\<close>

theorem FixTryBB_every_second:
  assumes "startBB \<noteq> nextBB" "startBB < length (blocks cfg)" "nextBB < length (blocks cfg)"
    and "pred (block cfg startBB) = []" and "set (succ (block cfg startBB)) \<subseteq> {..<length (blocks cfg)} - {startBB, nextBB}"
    and "pred (block cfg nextBB) = ps" "distinct ps" "startBB \<notin> set ps" "nextBB \<notin> set ps"
    and "\<And>p. p \<in> set ps \<Longrightarrow> p < length (blocks cfg) \<and> nextBB \<in> set (succ (block cfg p))"
  shows "\<exists>cfg'. FixTryBB startBB nextBB cfg = Some cfg' \<and> succ (block cfg' startBB) = [nextBB] \<and>
    pred (block cfg' startBB) = evens ps \<and> pred (block cfg' nextBB) = odds ps @ [startBB]"
proof -
  have "redirect_preds startBB nextBB (length ([] :: BBId list)) cfg = redirect_preds startBB nextBB 0 cfg" by simp
  then obtain c1 where 1: "redirect_preds startBB nextBB 0 cfg = Some c1" "length (blocks c1) = length (blocks cfg)"
      "pred (block c1 nextBB) = odds ps" "pred (block c1 startBB) = evens ps" "succ (block c1 startBB) = succ (block cfg startBB)"
    using redirect_preds_half [of cfg nextBB "[]" ps startBB] assms by auto
  obtain c2 where 2: "RemoveAllSucc startBB c1 = Some c2" "length (blocks c2) = length (blocks c1)"
      "\<forall>i. i \<notin> set (succ (block c1 startBB)) \<longrightarrow> pred (block c2 i) = pred (block c1 i)" "succ (block c2 startBB) = []"
    using RemoveAllSucc_ends [of startBB c1] assms(2,5) 1(2,5) by auto
  have 3: "pred (block c2 nextBB) = odds ps" "pred (block c2 startBB) = evens ps" using 1(3-5) 2(3) assms(5) by auto
  have "FixTryBB startBB nextBB cfg = Some (AddSucc startBB nextBB c2)"
    using assms(4) 1(1) 2(1) by (simp add: FixTryBB_def RemoveAllPred.simps)
  moreover have "succ (block (AddSucc startBB nextBB c2) startBB) = [nextBB]" "pred (block (AddSucc startBB nextBB c2) startBB) = evens ps"
      "pred (block (AddSucc startBB nextBB c2) nextBB) = odds ps @ [startBB]"
    using assms(1-3) 1(2) 2(2,4) 3 by (simp_all add: AddSucc_def block_update)
  ultimately show ?thesis by blast
qed

definition try_graph :: MeCFG where
  "try_graph = \<lparr>blocks =
       [cfg_block 0 kBBUnknown [2] [], cfg_block 0 kBBUnknown [] [5], cfg_block kBBAttrIsEntry kBBCondGoto [5, 3] [],
        cfg_block 0 kBBGoto [5] [2], cfg_block kBBAttrIsTry kBBUnknown [] [], cfg_block kBBAttrIsExit kBBReturn [] [2, 3]],
     valid = replicate 6 True, endTryBB2TryBB = Map.empty\<rparr>"

theorem FixTryBB_every_second_witness:
  "\<exists>cfg'. FixTryBB 4 5 try_graph = Some cfg' \<and> succ (block cfg' 4) = [5] \<and> pred (block cfg' 4) = [2] \<and> pred (block cfg' 5) = [3, 4]"
proof -
  have "pred (block try_graph 5) = [2, 3]" "pred (block try_graph 4) = []" "succ (block try_graph 4) = []"
    "length (blocks try_graph) = 6" "5 \<in> set (succ (block try_graph 2))" "5 \<in> set (succ (block try_graph 3))" by code_simp+
  then have "\<exists>cfg'. FixTryBB 4 5 try_graph = Some cfg' \<and> succ (block cfg' 4) = [5] \<and> pred (block cfg' 4) = evens [2, 3] \<and> pred (block cfg' 5) = odds [2, 3] @ [4]"
    by (intro FixTryBB_every_second) auto
  then show ?thesis by simp
qed

end
