(* ===== verification/LoopGraph.thy ===== *)
theory LoopGraph
  imports DomFrontier
begin

text \<open>
  Natural loops of a graph with a root: the blocks that lead to the tail of a back edge
  without passing its head. The head dominates them, and two loops with different heads are
  disjoint or one contains the other.
\<close>

text \<open>\<open>R b p\<close> says that \<open>p\<close> is a listed predecessor of \<open>b\<close>; the edges of the root are not listed.\<close>

definition flow :: "(nat \<Rightarrow> nat \<Rightarrow> bool) \<Rightarrow> nat \<Rightarrow> (nat \<Rightarrow> nat \<Rightarrow> bool) \<Rightarrow> bool" where
  "flow E r R \<longleftrightarrow> (\<forall>b p. E\<^sup>*\<^sup>* r b \<longrightarrow> R b p \<longrightarrow> E p b) \<and> (\<forall>b p. E p b \<longrightarrow> p \<noteq> r \<longrightarrow> R b p) \<and>
     (\<forall>b p. E\<^sup>*\<^sup>* r b \<longrightarrow> R b p \<longrightarrow> E\<^sup>*\<^sup>* r p \<or> E r b) \<and> (\<forall>b. \<not> E b r)"

lemma flowD:
  assumes "flow E r R"
  shows "E\<^sup>*\<^sup>* r b \<Longrightarrow> R b p \<Longrightarrow> E p b" "E p b \<Longrightarrow> p \<noteq> r \<Longrightarrow> R b p" "E\<^sup>*\<^sup>* r b \<Longrightarrow> R b p \<Longrightarrow> E\<^sup>*\<^sup>* r p \<or> E r b" "\<not> E b r"
  using assms unfolding flow_def by blast+

definition natural_loop :: "(nat \<Rightarrow> nat \<Rightarrow> bool) \<Rightarrow> nat \<Rightarrow> nat \<Rightarrow> nat \<Rightarrow> bool" where
  "natural_loop R h t b \<longleftrightarrow> b = h \<or> t \<noteq> h \<and> avoid R {h} t b"

definition back_edge :: "(nat \<Rightarrow> nat \<Rightarrow> bool) \<Rightarrow> nat \<Rightarrow> (nat \<Rightarrow> nat \<Rightarrow> bool) \<Rightarrow> nat \<Rightarrow> nat \<Rightarrow> bool" where
  "back_edge E r R h t \<longleftrightarrow> E\<^sup>*\<^sup>* r h \<and> E\<^sup>*\<^sup>* r t \<and> R h t \<and> dominates E r h t"

lemma back_edgeD:
  assumes "back_edge E r R h t"
  shows "E\<^sup>*\<^sup>* r t" "R h t" "dominates E r h t" "E\<^sup>*\<^sup>* r h"
  using assms unfolding back_edge_def by simp_all

lemma back_edge_head: "flow E r R \<Longrightarrow> back_edge E r R h t \<Longrightarrow> h \<noteq> r"
  using flowD(1,4) [of E r R] back_edgeD(2,4) [of E r R h t] by blast

lemma loop_head [simp]: "natural_loop R h t h"
  by (simp add: natural_loop_def)

lemma loop_tail: "natural_loop R h t t"
  by (cases "t = h") (simp_all add: natural_loop_def)

lemma loop_pred: "natural_loop R h t b \<Longrightarrow> b \<noteq> h \<Longrightarrow> R b q \<Longrightarrow> natural_loop R h t q"
  unfolding natural_loop_def by (cases "q = h") (auto intro: avoid_step)

lemma loop_induct [consumes 1, case_names head tail pred]:
  assumes "natural_loop R h t b" and "P h" and "P t"
    and "\<And>b q. natural_loop R h t b \<Longrightarrow> b \<noteq> h \<Longrightarrow> P b \<Longrightarrow> R b q \<Longrightarrow> P q"
  shows "P b"
proof (cases "b = h")
  case False
  then have t: "t \<noteq> h" and "avoid R {h} t b" using assms(1) by (auto simp: natural_loop_def)
  from this(2) have "P b \<and> b \<noteq> h"
    unfolding avoid_def
  proof (induction rule: rtranclp_induct)
    case (step b c)
    have "natural_loop R h t b" using step.hyps(1) t by (simp add: natural_loop_def avoid_def)
    then show ?case using assms(4) step by blast
  qed (use assms(3) t in simp)
  then show ?thesis ..
qed (use assms(2) in simp)

lemma loop_reached:
  assumes f: "flow E r R" and e: "back_edge E r R h t" and b: "natural_loop R h t b"
  shows "E\<^sup>*\<^sup>* r b \<and> dominates E r h b"
  using b
proof (induction rule: loop_induct)
  case head
  have "h \<noteq> r" by (rule back_edge_head [OF f e])
  have "\<not> avoid E {h} r h"
    unfolding avoid_def by (metis (mono_tags, lifting) \<open>h \<noteq> r\<close> insertI1 rtranclp.cases)
  then show ?case using back_edgeD(4) [OF e] by (simp add: dominates_def)
next
  case tail
  then show ?case using back_edgeD [OF e] by simp
next
  case (pred b q)
  have h: "h \<noteq> r" by (rule back_edge_head [OF f e])
  then have "\<not> E r b" using pred.IH \<open>b \<noteq> h\<close> avoid_step [of E "{h}" r r b] by (auto simp: dominates_def)
  then have "E\<^sup>*\<^sup>* r q" using flowD(3) [OF f] pred by blast
  moreover have "dominates E r h q"
    using dominates_before [of E r h b q] pred flowD(1) [OF f] by simp
  ultimately show ?case ..
qed

text \<open>A set that holds the head and is closed under the edges inside the loop holds the loop.\<close>

lemma loop_spans:
  assumes f: "flow E r R" and e: "back_edge E r R h t" and D: "h \<in> D" "\<And>b c. b \<in> D \<Longrightarrow> E b c \<Longrightarrow> natural_loop R h t c \<Longrightarrow> c \<in> D"
    and x: "natural_loop R h t x"
  shows "x \<in> D"
proof -
  have h: "h \<noteq> r" by (rule back_edge_head [OF f e])
  have "E\<^sup>*\<^sup>* r x" using loop_reached [OF f e x] ..
  then show ?thesis using x
  proof (induction rule: rtranclp_induct)
    case base
    then show ?case using loop_reached [OF f e base] h by (auto simp: dominates_def)
  next
    case (step b c)
    show ?case
    proof (cases "c = h")
      case False
      have "b \<noteq> r" using loop_reached [OF f e step.prems] False h step.hyps(2) avoid_step [of E "{h}" r r c] by (auto simp: dominates_def)
      then have "natural_loop R h t b" using loop_pred [OF step.prems False] flowD(2) [OF f step.hyps(2)] by simp
      then show ?thesis using D(2) step by blast
    qed (use D(1) in simp)
  qed
qed

text \<open>Inside its loop the head reaches every block, past any block outside.\<close>

lemma loop_from_head:
  assumes f: "flow E r R" and e: "back_edge E r R h t" and z: "\<not> natural_loop R h t z" and b: "natural_loop R h t b"
  shows "avoid E {z} h b"
proof -
  have "avoid E {z} h c" if "avoid E {z} h b" "E b c" "natural_loop R h t c" for b c
    using that z by (auto intro: avoid_step)
  then show ?thesis using loop_spans [OF f e, of "{b. avoid E {z} h b}"] b by auto
qed

lemma loop_between:
  assumes f: "flow E r R" and dm: "dominator_tree E r dm" and e: "back_edge E r R h t" and b: "natural_loop R h t b"
    and z: "dominates E r h z" "dominates E r z b" "E\<^sup>*\<^sup>* r z"
  shows "natural_loop R h t z"
proof (rule ccontr)
  assume n: "\<not> natural_loop R h t z"
  have hr: "E\<^sup>*\<^sup>* r h" using loop_reached [OF f e loop_head] ..
  have "z \<noteq> r" using z(1) n by (auto simp: dominates_def)
  have "\<not> dominates E r z h"
  proof
    assume "dominates E r z h"
    then have "z = h" using tree_antisym [OF dm z(3), of h] dominator_treeD(4) [OF dm z(3), of h] dominator_treeD(4) [OF dm hr, of z] z(1) by simp
    then show False using n by simp
  qed
  then have "avoid E {z} r h" by (simp add: dominates_def)
  then have "avoid E {z} r b" using loop_from_head [OF f e n b] by (rule avoid_trans)
  then show False using z(2) \<open>z \<noteq> r\<close> by (simp add: dominates_def)
qed

lemma loop_inside:
  assumes f: "flow E r R" and dm: "dominator_tree E r dm" and e: "back_edge E r R h t" and e': "back_edge E r R h' t'" and n: "h \<noteq> h'"
    and h: "natural_loop R h t h'" and b: "natural_loop R h' t' b"
  shows "natural_loop R h t b"
  using b
proof (induction rule: loop_induct)
  case head
  show ?case by (rule h)
next
  case tail
  show ?case using loop_pred [OF h n [symmetric] back_edgeD(2) [OF e']] .
next
  case (pred b q)
  have "b \<noteq> h"
  proof
    assume "b = h"
    then have "dominates E r h' h" "dominates E r h h'" "E\<^sup>*\<^sup>* r h" "E\<^sup>*\<^sup>* r h'"
      using loop_reached [OF f e' \<open>natural_loop R h' t' b\<close>] loop_reached [OF f e h] by simp_all
    then show False using tree_antisym [OF dm, of h h'] dominator_treeD(4) [OF dm] n by simp
  qed
  then show ?case using loop_pred [OF pred.IH] pred by blast
qed

theorem loops_nested:
  assumes f: "flow E r R" and dm: "dominator_tree E r dm" and e: "back_edge E r R h t" and e': "back_edge E r R h' t'" and n: "h \<noteq> h'"
    and b: "natural_loop R h t b" "natural_loop R h' t' b"
  shows "(\<forall>x. natural_loop R h' t' x \<longrightarrow> natural_loop R h t x) \<and> dominates E r h h' \<or>
    (\<forall>x. natural_loop R h t x \<longrightarrow> natural_loop R h' t' x) \<and> dominates E r h' h"
proof -
  have r: "E\<^sup>*\<^sup>* r b" "dominates E r h b" "dominates E r h' b" using loop_reached [OF f e b(1)] loop_reached [OF f e' b(2)] by simp_all
  have hr: "E\<^sup>*\<^sup>* r h" "E\<^sup>*\<^sup>* r h'" using loop_reached [OF f e loop_head] loop_reached [OF f e' loop_head] by simp_all
  have "anc dm b h" "anc dm b h'" using r dominator_treeD(4) [OF dm r(1)] by simp_all
  then have "anc dm h h' \<or> anc dm h' h" using anc_comparable by blast
  then consider "dominates E r h h'" | "dominates E r h' h" using dominator_treeD(4) [OF dm] hr by blast
  then show ?thesis
  proof cases
    case 1
    have "natural_loop R h t h'" by (rule loop_between [OF f dm e b(1) 1 r(3) hr(2)])
    then show ?thesis using loop_inside [OF f dm e e' n] 1 by blast
  next
    case 2
    have "natural_loop R h' t' h" by (rule loop_between [OF f dm e' b(2) 2 r(2) hr(1)])
    then show ?thesis using loop_inside [OF f dm e' e n [symmetric]] 2 by blast
  qed
qed

end
