(* ===== verification/MeLoops.thy ===== *)
theory MeLoops
  imports MeDominance
begin

text \<open>
  The loops of the optimiser, \<^verbatim>\<open>maple_me/include/me_loop_analysis.h\<close> and
  \<^verbatim>\<open>src/me_loop_analysis.cpp\<close>, on the result of the dominator phase. A pointer to a loop is
  its index in \<^verbatim>\<open>meLoops\<close>, in the order of creation; a \<^verbatim>\<open>MapleSet\<close> of ids is a sorted list and
  a \<^verbatim>\<open>MapleMap\<close> a list of pairs sorted by key. \<open>None\<close> as the result of \<open>ProcessBB\<close> is a null pointer
  that is followed, or a loop that does not end; the later steps return a \<open>result\<close>.
\<close>

section \<open>Loops\<close>

definition opReturn :: nat where "opReturn = 32"
definition kBBAttrIsInLoopForEA :: uint32 where "kBBAttrIsInLoopForEA = bit_field 12"

record LoopDesc =
  head :: BBId
  tail :: BBId
  preheader :: "BBId option"
  latch :: "BBId option"
  exitBB :: "BBId option"
  inloopBB2exitBBs :: "(BBId \<times> BBId list) list"
  loopBBs :: "BBId list"
  parent :: "nat option"
  nestDepth :: uint32
  hasTryBB :: bool
  hasIgotoBB :: bool
  isCanonicalLoop :: bool

definition new_LoopDesc :: "BBId \<Rightarrow> BBId \<Rightarrow> LoopDesc" where
  "new_LoopDesc headBB tailBB =
     \<lparr>head = headBB, tail = tailBB, preheader = None, latch = None, exitBB = None, inloopBB2exitBBs = [], loopBBs = [],
      parent = None, nestDepth = 0, hasTryBB = False, hasIgotoBB = False, isCanonicalLoop = False\<rparr>"

definition Has :: "LoopDesc \<Rightarrow> BBId \<Rightarrow> bool" where
  "Has l b \<longleftrightarrow> b \<in> set (loopBBs l)"

definition IsNormalizationLoop :: "LoopDesc \<Rightarrow> bool" where
  "IsNormalizationLoop l \<longleftrightarrow> \<not> hasTryBB l \<and> \<not> hasIgotoBB l \<and> preheader l \<noteq> None \<and> inloopBB2exitBBs l \<noteq> []"

fun add_exit :: "BBId \<Rightarrow> BBId \<Rightarrow> (BBId \<times> BBId list) list \<Rightarrow> (BBId \<times> BBId list) list" where
  "add_exit k x [] = [(k, [x])]"
| "add_exit k x ((k', xs) # ps) =
     (if k = k' then (k', if x \<in> set xs then xs else xs @ [x]) # ps
      else if k < k' then (k, [x]) # (k', xs) # ps
      else (k', xs) # add_exit k x ps)"

definition InsertInloopBB2exitBBs :: "BBId \<Rightarrow> BBId \<Rightarrow> LoopDesc \<Rightarrow> LoopDesc" where
  "InsertInloopBB2exitBBs bb val l = l\<lparr>inloopBB2exitBBs := add_exit bb val (inloopBB2exitBBs l)\<rparr>"

text \<open>The first occurrence of the old block is replaced, and it must have been the only one.\<close>

definition ReplaceInloopBB2exitBBs :: "BBId \<Rightarrow> BBId \<Rightarrow> BBId \<Rightarrow> LoopDesc \<Rightarrow> LoopDesc result" where
  "ReplaceInloopBB2exitBBs bb oldValue val l =
     (case map_of (inloopBB2exitBBs l) bb of
        None \<Rightarrow> Inl (CheckFatal ''key must exits'')
      | Some xs \<Rightarrow>
          if oldValue \<notin> set xs then Inl (CheckFatal ''old Vvalue must exits'')
          else let xs = replace_first oldValue val xs in
            if val \<notin> set xs \<or> oldValue \<in> set xs then Inl (CheckFatal ''replace fail'')
            else Inr (l\<lparr>inloopBB2exitBBs := map (\<lambda>(k, ys). (k, if k = bb then xs else ys)) (inloopBB2exitBBs l)\<rparr>))"

section \<open>Identification\<close>

record IdentifyLoops =
  meLoops :: "LoopDesc list"
  bbLoopParent :: "nat option list"

definition new_IdentifyLoops :: "nat \<Rightarrow> IdentifyLoops" where
  "new_IdentifyLoops n = \<lparr>meLoops = [], bbLoopParent = replicate n None\<rparr>"

definition update_loop :: "nat \<Rightarrow> (LoopDesc \<Rightarrow> LoopDesc) \<Rightarrow> IdentifyLoops \<Rightarrow> IdentifyLoops" where
  "update_loop k f st = st\<lparr>meLoops := (meLoops st)[k := f (meLoops st ! k)]\<rparr>"

definition CreateLoopDesc :: "BBId \<Rightarrow> BBId \<Rightarrow> IdentifyLoops \<Rightarrow> nat \<times> IdentifyLoops" where
  "CreateLoopDesc hd_bb tail_bb st = (length (meLoops st), st\<lparr>meLoops := meLoops st @ [new_LoopDesc hd_bb tail_bb]\<rparr>)"

definition SetLoopParent4BB :: "BBId \<Rightarrow> nat \<Rightarrow> IdentifyLoops \<Rightarrow> IdentifyLoops" where
  "SetLoopParent4BB bb k st =
     (let st = (case bbLoopParent st ! bb of
          Some p \<Rightarrow>
            if parent (meLoops st ! k) = None
            then update_loop k (\<lambda>l. l\<lparr>parent := Some p, nestDepth := nestDepth (meLoops st ! p) + 1\<rparr>) st
            else st
        | None \<Rightarrow> st)
      in st\<lparr>bbLoopParent := (bbLoopParent st)[bb := Some k]\<rparr>)"

definition SetExitBB :: "MeBB option list \<Rightarrow> LoopDesc \<Rightarrow> LoopDesc option" where
  "SetExitBB v l =
     map_option (\<lambda>headBB.
       if length (succ headBB) \<noteq> 2 then l
       else if \<not> Has l (succ headBB ! 0) then l\<lparr>exitBB := Some (succ headBB ! 0)\<rparr>
       else l\<lparr>exitBB := Some (succ headBB ! 1)\<rparr>) (bb_at v (head l))"

text \<open>A block enters the body of a loop.\<close>

definition enter_loop :: "nat \<Rightarrow> BBId \<Rightarrow> IdentifyLoops \<Rightarrow> IdentifyLoops" where
  "enter_loop k b st = SetLoopParent4BB b k (update_loop k (\<lambda>l. l\<lparr>loopBBs := insort_insert b (loopBBs l)\<rparr>) st)"

partial_function (option) body_loop :: "MeBB option list \<Rightarrow> BBId \<Rightarrow> nat \<Rightarrow> BBId list \<Rightarrow> IdentifyLoops \<Rightarrow> IdentifyLoops option" where
  "body_loop v bb k bodyList st =
     (case bodyList of
        [] \<Rightarrow> Some st
      | cur # bodyList \<Rightarrow>
          if cur = bb \<or> Has (meLoops st ! k) cur then body_loop v bb k bodyList st
          else case bb_at v cur of
              None \<Rightarrow> None
            | Some x \<Rightarrow> body_loop v bb k (bodyList @ pred x) (enter_loop k cur st))"

definition identify_loop :: "MeBB option list \<Rightarrow> BBId \<Rightarrow> BBId \<Rightarrow> IdentifyLoops \<Rightarrow> IdentifyLoops option" where
  "identify_loop v bb predBB st =
     (let (k, st) = CreateLoopDesc bb predBB st in
      Option.bind (body_loop v bb k [predBB] st) (\<lambda>st.
        let st = enter_loop k bb st in
        map_option (\<lambda>l. update_loop k (\<lambda>_. l) st) (SetExitBB v (meLoops st ! k))))"

fun identify_loops :: "Dominance \<Rightarrow> BBId \<Rightarrow> BBId list \<Rightarrow> IdentifyLoops \<Rightarrow> IdentifyLoops option" where
  "identify_loops d bb [] st = Some st"
| "identify_loops d bb (p # ps) st =
     (case Dominate d bb p of
        None \<Rightarrow> None
      | Some True \<Rightarrow> Option.bind (identify_loop (bbVec d) bb p st) (identify_loops d bb ps)
      | Some False \<Rightarrow> identify_loops d bb ps st)"

text \<open>\<open>ProcessBB\<close> on a list of blocks; an id out of the range of the vector makes \<^verbatim>\<open>at\<close> throw.\<close>

partial_function (option) process_blocks :: "Dominance \<Rightarrow> BBId list \<Rightarrow> IdentifyLoops \<Rightarrow> IdentifyLoops option" where
  "process_blocks d bs st =
     (case bs of
        [] \<Rightarrow> Some st
      | b # bs' \<Rightarrow>
          if length (bbVec d) \<le> b then None
          else case bbVec d ! b of
              None \<Rightarrow> process_blocks d bs' st
            | Some bb \<Rightarrow>
                if b = commonExitBB d then process_blocks d bs' st
                else Option.bind (identify_loops d b (pred bb) st) (\<lambda>st.
                       Option.bind (process_blocks d (domChildren d ! b) st) (process_blocks d bs')))"

definition ProcessBB :: "Dominance \<Rightarrow> BBId \<Rightarrow> IdentifyLoops \<Rightarrow> IdentifyLoops option" where
  "ProcessBB d bb = process_blocks d [bb]"

section \<open>What is known of a loop\<close>

definition deref :: "MeBB option list \<Rightarrow> BBId \<Rightarrow> MeBB result" where
  "deref v b = (case bb_at v b of None \<Rightarrow> Inl (Undefined ''null pointer'') | Some bb \<Rightarrow> Inr bb)"

fun any_block :: "MeBB option list \<Rightarrow> (MeBB \<Rightarrow> bool) \<Rightarrow> BBId list \<Rightarrow> bool result" where
  "any_block v P [] = Inr False"
| "any_block v P (b # bs) = bind_result (deref v b) (\<lambda>bb. if P bb then Inr True else any_block v P bs)"

fun each_loop :: "(LoopDesc \<Rightarrow> LoopDesc result) \<Rightarrow> LoopDesc list \<Rightarrow> LoopDesc list result" where
  "each_loop f [] = Inr []"
| "each_loop f (l # ls) = bind_result (f l) (\<lambda>l. bind_result (each_loop f ls) (\<lambda>ls. Inr (l # ls)))"

definition MarkBB :: "MeBB option list \<Rightarrow> IdentifyLoops \<Rightarrow> MeBB option list" where
  "MarkBB v st = fold (\<lambda>l v. fold (\<lambda>b v. v[b := map_option (SetAttributes kBBAttrIsInLoopForEA) (v ! b)]) (loopBBs l) v) (meLoops st) v"

definition set_try :: "MeBB option list \<Rightarrow> LoopDesc \<Rightarrow> LoopDesc result" where
  "set_try v l =
     bind_result (deref v (head l)) (\<lambda>h.
     bind_result (any_block v (\<lambda>bb. GetAttributes bb kBBAttrIsTry) (pred h)) (\<lambda>t.
       let l = (if t then l\<lparr>hasTryBB := True\<rparr> else l) in
       if hasTryBB l then Inr l
       else bind_result (any_block v (\<lambda>bb. GetAttributes bb kBBAttrIsTry \<or> GetAttributes bb kBBAttrWontExit) (loopBBs l)) (\<lambda>t.
              Inr (if t then l\<lparr>hasTryBB := True\<rparr> else l))))"

definition SetTryBB :: "MeBB option list \<Rightarrow> IdentifyLoops \<Rightarrow> IdentifyLoops result" where
  "SetTryBB v st = bind_result (each_loop (set_try v) (meLoops st)) (\<lambda>ls. Inr (st\<lparr>meLoops := ls\<rparr>))"

text \<open>The label of each block, and the labels whose address is taken, are arguments.\<close>

definition SetIGotoBB :: "(BBId \<Rightarrow> uint32) \<Rightarrow> uint32 list \<Rightarrow> IdentifyLoops \<Rightarrow> IdentifyLoops" where
  "SetIGotoBB bbLabel addrTakenLabels st =
     st\<lparr>meLoops := map (\<lambda>l. if bbLabel (head l) \<in> set addrTakenLabels then l\<lparr>hasIgotoBB := True\<rparr> else l) (meLoops st)\<rparr>"

fun visit_succs :: "BBId \<Rightarrow> BBId list \<Rightarrow> BBId list \<times> BBId list \<times> LoopDesc \<Rightarrow> BBId list \<times> BBId list \<times> LoopDesc" where
  "visit_succs cur [] st = st"
| "visit_succs cur (s # ss) (inLoopBBs, traveledBBs, l) =
     visit_succs cur ss
       (if s \<in> set traveledBBs then (inLoopBBs, traveledBBs, l)
        else if Has l s then (inLoopBBs @ [s], s # traveledBBs, l)
        else (inLoopBBs, traveledBBs, InsertInloopBB2exitBBs cur s l))"

definition returns_bb :: "MeBB \<Rightarrow> bool" where
  "returns_bb bb \<longleftrightarrow>
     (if kind bb = kBBCondGoto then length (succ bb) = 1 else stmtNodeList bb \<noteq> [] \<and> last (stmtNodeList bb) = opReturn)"

lemma visit_succs_measure:
  assumes "visit_succs cur ss (q, t, l) = (q', t', l')"
  shows "loopBBs l' = loopBBs l \<and> 2 * card (set (loopBBs l) - set t') + length q' \<le> 2 * card (set (loopBBs l) - set t) + length q"
  using assms
proof (induction ss arbitrary: q t l)
  case (Cons s ss)
  show ?case
  proof (cases "s \<notin> set t \<and> Has l s")
    case True
    then have "s \<in> set (loopBBs l) - set t" by (simp add: Has_def)
    moreover have "set (loopBBs l) - set (s # t) = (set (loopBBs l) - set t) - {s}" by auto
    ultimately have "Suc (card (set (loopBBs l) - set (s # t))) = card (set (loopBBs l) - set t)"
      by (metis card_Suc_Diff1 finite_Diff finite_set)
    then show ?thesis using Cons.IH [of "q @ [s]" "s # t" l] Cons.prems True by auto
  next
    case False
    then have "loopBBs (InsertInloopBB2exitBBs cur s l) = loopBBs l" by (simp add: InsertInloopBB2exitBBs_def)
    then show ?thesis using False Cons.IH [of q t l] Cons.IH [of q t "InsertInloopBB2exitBBs cur s l"] Cons.prems
      by (auto split: if_splits)
  qed
qed simp

function exit_walk :: "MeBB option list \<Rightarrow> BBId list \<Rightarrow> BBId list \<Rightarrow> LoopDesc \<Rightarrow> LoopDesc result" where
  "exit_walk v inLoopBBs traveledBBs l =
     (case inLoopBBs of
        [] \<Rightarrow> Inr l
      | curBB # inLoopBBs \<Rightarrow>
          (case deref v curBB of
             Inl e \<Rightarrow> Inl e
           | Inr bb \<Rightarrow>
               if returns_bb bb then Inl (CheckFatal ''return bb'')
               else (case visit_succs curBB (succ bb) (inLoopBBs, traveledBBs, l) of
                       (inLoopBBs, traveledBBs, l) \<Rightarrow> exit_walk v inLoopBBs traveledBBs l)))"
  by pat_completeness auto
termination
proof (relation "measure (\<lambda>(v, q, t, l). 2 * card (set (loopBBs l) - set t) + length q)")
  fix v :: "MeBB option list" and q t :: "BBId list" and l c qs bb q' p t' l'
  assume q: "q = c # qs" and "(q', p) = visit_succs c (succ bb) (qs, t, l)" "(t', l') = p"
  then have "visit_succs c (succ bb) (qs, t, l) = (q', t', l')" by simp
  from visit_succs_measure [OF this]
  show "((v, q', t', l'), v, q, t, l) \<in> measure (\<lambda>(v, q, t, l). 2 * card (set (loopBBs l) - set t) + length q)"
    using q by simp
qed simp

declare exit_walk.simps [simp del]

definition InsertExitBB :: "MeBB option list \<Rightarrow> LoopDesc \<Rightarrow> (LoopDesc \<times> bool) result" where
  "InsertExitBB v l =
     (if inloopBB2exitBBs l \<noteq> [] then Inl (CheckFatal ''inloopBB2exitBBs must be empty'')
      else bind_result (exit_walk v [head l] [] l) (\<lambda>l.
           bind_result (any_block v (\<lambda>bb. list_ex (\<lambda>p. \<not> Has l p) (pred bb)) (concat (map snd (inloopBB2exitBBs l)))) (\<lambda>outside.
             Inr (l, \<not> outside))))"

definition ProcessPreheaderAndLatch :: "MeBB option list \<Rightarrow> BBId \<Rightarrow> LoopDesc \<Rightarrow> (LoopDesc \<times> bool) result" where
  "ProcessPreheaderAndLatch v entryBB l =
     bind_result (deref v (head l)) (\<lambda>h.
       if length (pred h) = 1 then
         bind_result (deref v entryBB) (\<lambda>e.
           if succ e = [] then Inl (Undefined ''at'')
           else if succ e ! 0 \<noteq> head l then Inl (CheckFatal ''succ of entry bb must be head'')
           else bind_result (deref v (pred h ! 0)) (\<lambda>p.
             if GetAttributes p kBBAttrIsTry then Inl (CheckFatal ''must not be kBBAttrIsTry'')
             else Inr (l\<lparr>preheader := Some entryBB, latch := Some (pred h ! 0)\<rparr>, True)))
       else if length (pred h) \<noteq> 2 then Inr (l\<lparr>isCanonicalLoop := False, hasTryBB := True\<rparr>, False)
       else if \<not> Has l (pred h ! 0) then
         let l = l\<lparr>preheader := Some (pred h ! 0)\<rparr> in
         bind_result (deref v (pred h ! 0)) (\<lambda>p.
           if kind p \<noteq> kBBFallthru \<and> kind p \<noteq> kBBGoto then Inr (l\<lparr>isCanonicalLoop := False\<rparr>, False)
           else if \<not> Has l (pred h ! 1) then Inl (CheckFatal ''must be latch bb'')
           else bind_result (deref v (pred h ! 1)) (\<lambda>q.
             if GetAttributes q kBBAttrIsTry then Inl (CheckFatal ''must not be kBBAttrIsTry'')
             else Inr (l\<lparr>latch := Some (pred h ! 1)\<rparr>, True)))
       else
         bind_result (deref v (pred h ! 0)) (\<lambda>p.
           if GetAttributes p kBBAttrIsTry then Inl (CheckFatal ''must not be kBBAttrIsTry'')
           else if Has l (pred h ! 1) then Inl (CheckFatal ''must be latch preheader bb'')
           else bind_result (deref v (pred h ! 1)) (\<lambda>q.
             if kind q \<noteq> kBBFallthru then Inl (CheckFatal ''must be kBBFallthru'')
             else Inr (l\<lparr>latch := Some (pred h ! 0), preheader := Some (pred h ! 1)\<rparr>, True))))"

section \<open>The phase\<close>

definition canonical_loop :: "MeBB option list \<Rightarrow> BBId \<Rightarrow> LoopDesc \<Rightarrow> LoopDesc result" where
  "canonical_loop v entry l =
     bind_result (InsertExitBB v l) (\<lambda>(l, ok).
       if \<not> ok then Inr l
       else if hasTryBB l \<or> hasIgotoBB l then Inr l
       else bind_result (ProcessPreheaderAndLatch v entry l) (\<lambda>(l, ok).
              if \<not> ok then Inr l else Inr (l\<lparr>isCanonicalLoop := True\<rparr>)))"

definition MeDoMeLoop :: "Dominance \<Rightarrow> (BBId \<Rightarrow> uint32) \<Rightarrow> uint32 list \<Rightarrow> IdentifyLoops result" where
  "MeDoMeLoop d bbLabel addrTakenLabels =
     (case ProcessBB d (commonEntryBB d) (new_IdentifyLoops (length (bbVec d))) of
        None \<Rightarrow> Inl (Undefined ''null pointer or endless loop'')
      | Some st \<Rightarrow>
          bind_result (SetTryBB (bbVec d) st) (\<lambda>st.
            let st = SetIGotoBB bbLabel addrTakenLabels st in
            bind_result (each_loop (canonical_loop (bbVec d) (commonEntryBB d)) (meLoops st)) (\<lambda>ls. Inr (st\<lparr>meLoops := ls\<rparr>))))"

end
