(* ===== verification/LoopBody.thy ===== *)
theory LoopBody
  imports LoopGraph MeLoops DomClaims
begin

text \<open>
  What \<^verbatim>\<open>ProcessBB\<close> does for one back edge: the body is the natural loop, and what is
  recorded of the loop and of its blocks.
\<close>

declare body_loop.simps [code] process_blocks.simps [code]

section \<open>Blocks enter a loop\<close>

lemma enter_loop_fields:
  assumes k: "k < length (meLoops st)"
  shows "length (meLoops (enter_loop k b st)) = length (meLoops st)"
    and "j \<noteq> k \<Longrightarrow> meLoops (enter_loop k b st) ! j = meLoops st ! j"
    and "bbLoopParent (enter_loop k b st) = (bbLoopParent st)[b := Some k]"
    and "loopBBs (meLoops (enter_loop k b st) ! k) = insort_insert b (loopBBs (meLoops st ! k))"
    and "\<exists>p d. meLoops (enter_loop k b st) ! k = (meLoops st ! k)\<lparr>loopBBs := insort_insert b (loopBBs (meLoops st ! k)), parent := p, nestDepth := d\<rparr>"
    and "parent (meLoops st ! k) \<noteq> None \<or> bbLoopParent st ! b = None \<Longrightarrow>
      parent (meLoops (enter_loop k b st) ! k) = parent (meLoops st ! k) \<and> nestDepth (meLoops (enter_loop k b st) ! k) = nestDepth (meLoops st ! k)"
    and "parent (meLoops st ! k) = None \<Longrightarrow> bbLoopParent st ! b = Some p \<Longrightarrow> p \<noteq> k \<Longrightarrow>
      parent (meLoops (enter_loop k b st) ! k) = Some p \<and> nestDepth (meLoops (enter_loop k b st) ! k) = nestDepth (meLoops st ! p) + 1"
proof -
  have f: "\<exists>p d. l\<lparr>loopBBs := bs\<rparr> = l\<lparr>loopBBs := bs, parent := p, nestDepth := d\<rparr>" for l bs
    by (intro exI [of _ "parent l"] exI [of _ "nestDepth l"]) simp
  show "\<exists>p d. meLoops (enter_loop k b st) ! k = (meLoops st ! k)\<lparr>loopBBs := insort_insert b (loopBBs (meLoops st ! k)), parent := p, nestDepth := d\<rparr>"
    using k f by (auto simp: enter_loop_def SetLoopParent4BB_def update_loop_def Let_def split: option.splits)
qed (use k in \<open>auto simp: enter_loop_def SetLoopParent4BB_def update_loop_def Let_def split: option.splits\<close>)

text \<open>The parent comes from one of the blocks that are in a loop already.\<close>

definition parent_from :: "IdentifyLoops \<Rightarrow> BBId set \<Rightarrow> LoopDesc \<Rightarrow> bool" where
  "parent_from st bs l \<longleftrightarrow>
     (if \<forall>b\<in>bs. bbLoopParent st ! b = None then parent l = None \<and> nestDepth l = 0
      else \<exists>b\<in>bs. \<exists>p. bbLoopParent st ! b = Some p \<and> parent l = Some p \<and> nestDepth l = nestDepth (meLoops st ! p) + 1)"

definition entered :: "nat \<Rightarrow> IdentifyLoops \<Rightarrow> BBId list \<Rightarrow> IdentifyLoops \<Rightarrow> bool" where
  "entered k st cs st' \<longleftrightarrow> length (meLoops st') = length (meLoops st) \<and> (\<forall>j. j \<noteq> k \<longrightarrow> meLoops st' ! j = meLoops st ! j) \<and>
     length (bbLoopParent st') = length (bbLoopParent st) \<and>
     (\<forall>b<length (bbLoopParent st). bbLoopParent st' ! b = (if b \<in> set cs then Some k else bbLoopParent st ! b)) \<and>
     (\<exists>bs p d. meLoops st' ! k = (meLoops st ! k)\<lparr>loopBBs := bs, parent := p, nestDepth := d\<rparr> \<and>
        sorted bs \<and> distinct bs \<and> set bs = set (loopBBs (meLoops st ! k)) \<union> set cs) \<and>
     parent_from st (set cs) (meLoops st' ! k)"

lemma enter_all:
  assumes "k < length (meLoops st)" and "sorted (loopBBs (meLoops st ! k))" "distinct (loopBBs (meLoops st ! k))"
    and "parent (meLoops st ! k) = None" "nestDepth (meLoops st ! k) = 0"
    and "distinct cs" "\<forall>c\<in>set cs. c < length (bbLoopParent st) \<and> bbLoopParent st ! c \<noteq> Some k"
  shows "entered k st cs (fold (enter_loop k) cs st)"
  using assms(6,7)
proof (induction cs rule: rev_induct)
  case Nil
  have "meLoops st ! k = (meLoops st ! k)\<lparr>loopBBs := loopBBs (meLoops st ! k), parent := parent (meLoops st ! k), nestDepth := nestDepth (meLoops st ! k)\<rparr>"
    by simp
  then show ?case unfolding entered_def parent_from_def using assms(2-5) by (simp, blast)
next
  case (snoc c cs)
  let ?s = "fold (enter_loop k) cs st" let ?t = "enter_loop k c ?s"
  have ih: "entered k st cs ?s" using snoc by simp
  have c: "c < length (bbLoopParent st)" "bbLoopParent st ! c \<noteq> Some k" "c \<notin> set cs" using snoc.prems by auto
  have l: "length (meLoops ?s) = length (meLoops st)" "\<And>j. j \<noteq> k \<Longrightarrow> meLoops ?s ! j = meLoops st ! j"
      "length (bbLoopParent ?s) = length (bbLoopParent st)"
      "\<And>b. b < length (bbLoopParent st) \<Longrightarrow> bbLoopParent ?s ! b = (if b \<in> set cs then Some k else bbLoopParent st ! b)"
    and pf: "parent_from st (set cs) (meLoops ?s ! k)"
    using ih unfolding entered_def by blast+
  obtain bs p d where bs: "meLoops ?s ! k = (meLoops st ! k)\<lparr>loopBBs := bs, parent := p, nestDepth := d\<rparr>"
      "sorted bs" "distinct bs" "set bs = set (loopBBs (meLoops st ! k)) \<union> set cs"
    using ih unfolding entered_def by blast
  have k: "k < length (meLoops ?s)" using assms(1) l(1) by simp
  note t = enter_loop_fields [OF k, where b = c]
  obtain p' d' where p': "meLoops ?t ! k = (meLoops ?s ! k)\<lparr>loopBBs := insort_insert c (loopBBs (meLoops ?s ! k)), parent := p', nestDepth := d'\<rparr>"
    using t(5) by blast
  have loop: "meLoops ?t ! k = (meLoops st ! k)\<lparr>loopBBs := insort_insert c bs, parent := p', nestDepth := d'\<rparr>" unfolding p' bs(1) by simp
  have cp: "bbLoopParent ?s ! c = bbLoopParent st ! c" using l(4) [OF c(1)] c(3) by simp
  have "parent_from st (set (cs @ [c])) (meLoops ?t ! k)"
  proof (cases "parent (meLoops ?s ! k) \<noteq> None \<or> bbLoopParent st ! c = None")
    case True
    then have e: "parent (meLoops ?t ! k) = parent (meLoops ?s ! k)" "nestDepth (meLoops ?t ! k) = nestDepth (meLoops ?s ! k)"
      using t(6) unfolding cp by blast+
    show ?thesis using pf True unfolding parent_from_def e by (auto split: if_splits)
  next
    case False
    then obtain q where q: "bbLoopParent st ! c = Some q" "q \<noteq> k" using c(2) by auto
    then have "parent (meLoops ?t ! k) = Some q" "nestDepth (meLoops ?t ! k) = nestDepth (meLoops st ! q) + 1"
      using t(7) [of q] False cp l(2) [OF q(2)] by auto
    then show ?thesis using q(1) unfolding parent_from_def by auto
  qed
  moreover have "\<exists>bs' p d. meLoops ?t ! k = (meLoops st ! k)\<lparr>loopBBs := bs', parent := p, nestDepth := d\<rparr> \<and>
      sorted bs' \<and> distinct bs' \<and> set bs' = set (loopBBs (meLoops st ! k)) \<union> set (cs @ [c])"
    using loop bs by (intro exI [of _ "insort_insert c bs"] exI [of _ p'] exI [of _ d'])
      (simp add: set_insort_insert distinct_insort_insert sorted_insort_insert)
  ultimately have "entered k st (cs @ [c]) ?t" unfolding entered_def using t(1,2,3) l c(1) by (simp add: nth_list_update)
  then show ?case by simp
qed

section \<open>The worklist\<close>

lemma body_loop_nil: "body_loop v h k [] st = Some st"
  by (subst body_loop.simps) simp

lemma body_loop_cons: "body_loop v h k (b # bs) st =
    (if b = h \<or> Has (meLoops st ! k) b then body_loop v h k bs st
     else case bb_at v b of None \<Rightarrow> None | Some x \<Rightarrow> body_loop v h k (bs @ pred x) (enter_loop k b st))"
  by (subst body_loop.simps) simp

text \<open>\<open>S\<close> holds all blocks that the worklist can meet; what is entered is closed under predecessors, up to the head.\<close>

definition closes :: "MeBB option list \<Rightarrow> BBId \<Rightarrow> BBId set \<Rightarrow> BBId list \<Rightarrow> BBId set \<Rightarrow> BBId list \<Rightarrow> bool" where
  "closes v h S bs W cs \<longleftrightarrow> distinct cs \<and> set cs \<inter> W = {} \<and> set cs \<subseteq> S \<and> set bs \<subseteq> insert h (W \<union> set cs) \<and>
     (\<forall>c\<in>set cs. set (preds_of v c) \<subseteq> insert h (W \<union> set cs))"

lemma body_loop_closes:
  assumes S: "finite S" "h \<notin> S" "\<forall>b\<in>S. bb_at v b \<noteq> None \<and> set (preds_of v b) \<subseteq> insert h S"
    and "k < length (meLoops st)" and "set bs \<subseteq> insert h S" and "set (loopBBs (meLoops st ! k)) \<subseteq> S"
  shows "\<exists>cs. body_loop v h k bs st = Some (fold (enter_loop k) cs st) \<and> closes v h S bs (set (loopBBs (meLoops st ! k))) cs"
  using assms(4-6)
proof (induction "card (S - set (loopBBs (meLoops st ! k)))" arbitrary: st bs rule: less_induct)
  case less
  note outer = less.hyps
  note k = less.prems(1) and W = less.prems(3)
  show ?case
    using less.prems(2)
  proof (induction bs)
    case Nil
    show ?case by (intro exI [of _ "[]"]) (simp add: body_loop_nil closes_def)
  next
    case (Cons b bs)
    let ?W = "set (loopBBs (meLoops st ! k))"
    show ?case
    proof (cases "b = h \<or> b \<in> ?W")
      case True
      then show ?thesis using Cons by (auto simp: body_loop_cons Has_def closes_def)
    next
      case False
      then have bS: "b \<in> S" using Cons.prems by auto
      then obtain x where x: "bb_at v b = Some x" using S(3) by blast
      let ?st = "enter_loop k b st"
      note e = enter_loop_fields [OF k, where b = b]
      have W': "set (loopBBs (meLoops ?st ! k)) = insert b ?W" unfolding e(4) by (simp add: set_insort_insert)
      have px: "preds_of v b = pred x" using x by (simp add: preds_of_def)
      have "S - insert b ?W \<subset> S - ?W" using bS False by auto
      then have "card (S - set (loopBBs (meLoops ?st ! k))) < card (S - ?W)" unfolding W' using S(1) by (intro psubset_card_mono) auto
      moreover have "set (bs @ pred x) \<subseteq> insert h S" using Cons.prems S(3) [THEN bspec, OF bS] unfolding px by auto
      moreover have "set (loopBBs (meLoops ?st ! k)) \<subseteq> S" unfolding W' using bS W by simp
      ultimately obtain cs where cs: "body_loop v h k (bs @ pred x) ?st = Some (fold (enter_loop k) cs ?st)"
          "closes v h S (bs @ pred x) (insert b ?W) cs"
        using outer [of ?st "bs @ pred x"] k e(1) W' by auto
      have "closes v h S (b # bs) ?W (b # cs)"
        using cs(2) False bS px unfolding closes_def by auto
      then show ?thesis using cs(1) False x by (intro exI [of _ "b # cs"]) (simp add: body_loop_cons Has_def)
    qed
  qed
qed

text \<open>Closed under predecessors and inside the natural loop is the natural loop.\<close>

lemma closes_natural:
  assumes c: "closes v h S [t] {} cs" and S: "\<forall>b\<in>S. natural_loop (rev_edge v) h t b" "h \<notin> S"
  shows "insert h (set cs) = {b. natural_loop (rev_edge v) h t b}"
proof (intro equalityI subsetI)
  fix b assume "b \<in> {b. natural_loop (rev_edge v) h t b}"
  then have "natural_loop (rev_edge v) h t b" by simp
  then show "b \<in> insert h (set cs)"
    using c unfolding closes_def by (induction rule: loop_induct) (auto simp: rev_edge_def)
qed (use c S in \<open>auto simp: closes_def\<close>)

section \<open>One loop\<close>

definition built_loop :: "MeBB option list \<Rightarrow> BBId \<Rightarrow> BBId \<Rightarrow> LoopDesc \<Rightarrow> bool" where
  "built_loop v h t l \<longleftrightarrow> (\<exists>bs p d e. l = (new_LoopDesc h t)\<lparr>exitBB := e, loopBBs := bs, parent := p, nestDepth := d\<rparr> \<and>
     sorted bs \<and> distinct bs \<and> set bs = {b. natural_loop (rev_edge v) h t b})"

definition loop_step :: "MeBB option list \<Rightarrow> BBId \<times> BBId \<Rightarrow> IdentifyLoops \<Rightarrow> IdentifyLoops \<Rightarrow> bool" where
  "loop_step v e st st' \<longleftrightarrow> (\<exists>l. meLoops st' = meLoops st @ [l] \<and> built_loop v (fst e) (snd e) l \<and>
     parent_from st {b. natural_loop (rev_edge v) (fst e) (snd e) b} l \<and>
     length (bbLoopParent st') = length (bbLoopParent st) \<and>
     (\<forall>b<length (bbLoopParent st). bbLoopParent st' ! b =
        (if natural_loop (rev_edge v) (fst e) (snd e) b then Some (length (meLoops st)) else bbLoopParent st ! b)))"

definition parents_known :: "IdentifyLoops \<Rightarrow> bool" where
  "parents_known st \<longleftrightarrow> (\<forall>b<length (bbLoopParent st). \<forall>p. bbLoopParent st ! b = Some p \<longrightarrow> p < length (meLoops st))"

lemma SetExitBB_field:
  assumes "bb_at v (head l) \<noteq> None"
  shows "\<exists>e. SetExitBB v l = Some (l\<lparr>exitBB := e\<rparr>)"
proof -
  obtain x where "bb_at v (head l) = Some x" using assms by blast
  then have "SetExitBB v l = Some (l\<lparr>exitBB := if length (succ x) \<noteq> 2 then exitBB l
      else if \<not> Has l (succ x ! 0) then Some (succ x ! 0) else Some (succ x ! 1)\<rparr>)"
    unfolding SetExitBB_def by simp
  then show ?thesis by blast
qed

lemma identify_loop_step:
  assumes blocks: "\<And>b. natural_loop (rev_edge v) h t b \<Longrightarrow> bb_at v b \<noteq> None"
    and n: "length (bbLoopParent st) = length v" and known: "parents_known st"
  shows "\<exists>st'. identify_loop v h t st = Some st' \<and> loop_step v (h, t) st st'"
proof -
  let ?N = "{b. natural_loop (rev_edge v) h t b}" and ?k = "length (meLoops st)" and ?n = "new_LoopDesc h t"
  let ?S = "?N - {h}" and ?s0 = "st\<lparr>meLoops := meLoops st @ [new_LoopDesc h t]\<rparr>"
  have less: "b < length v" if "natural_loop (rev_edge v) h t b" for b using bb_at_less [OF blocks [OF that]] .
  have S: "finite ?S" "h \<notin> ?S" "\<forall>b\<in>?S. bb_at v b \<noteq> None \<and> set (preds_of v b) \<subseteq> insert h ?S"
    using less blocks loop_pred [of "rev_edge v" h t] by (auto simp: rev_edge_def intro: finite_subset [of _ "{..<length v}"])
  have l0: "loopBBs (meLoops ?s0 ! ?k) = []" "parent (meLoops ?s0 ! ?k) = None" "nestDepth (meLoops ?s0 ! ?k) = 0"
    by (simp_all add: new_LoopDesc_def)
  obtain cs where cs: "body_loop v h ?k [t] ?s0 = Some (fold (enter_loop ?k) cs ?s0)" "closes v h ?S [t] {} cs"
    using body_loop_closes [OF S, of ?k ?s0 "[t]"] l0(1) loop_tail [of "rev_edge v" h t] by auto
  let ?cs = "cs @ [h]" let ?s1 = "fold (enter_loop ?k) ?cs ?s0"
  have N: "set ?cs = ?N" using closes_natural [OF cs(2)] by auto
  have "distinct ?cs" using cs(2) by (auto simp: closes_def)
  moreover have "\<forall>c\<in>set ?cs. c < length (bbLoopParent ?s0) \<and> bbLoopParent ?s0 ! c \<noteq> Some ?k"
    using known less n unfolding N parents_known_def by fastforce
  ultimately have ent: "entered ?k ?s0 ?cs ?s1" by (intro enter_all) (simp_all add: new_LoopDesc_def)
  have e: "length (meLoops ?s1) = Suc ?k" "\<And>j. j \<noteq> ?k \<Longrightarrow> meLoops ?s1 ! j = meLoops ?s0 ! j" "length (bbLoopParent ?s1) = length (bbLoopParent st)"
      "\<And>b. b < length (bbLoopParent st) \<Longrightarrow> bbLoopParent ?s1 ! b = (if b \<in> ?N then Some ?k else bbLoopParent st ! b)"
      "parent_from ?s0 ?N (meLoops ?s1 ! ?k)"
    using ent unfolding entered_def N by simp_all
  obtain bs p d where bs: "meLoops ?s1 ! ?k = (new_LoopDesc h t)\<lparr>loopBBs := bs, parent := p, nestDepth := d\<rparr>" "sorted bs" "distinct bs" "set bs = ?N"
    using ent unfolding entered_def N by (auto simp: new_LoopDesc_def)
  obtain x where x: "bb_at v h = Some x" using blocks [OF loop_head] by blast
  have "head (meLoops ?s1 ! ?k) = h" unfolding bs(1) by (simp add: new_LoopDesc_def)
  then obtain ex where ex: "SetExitBB v (meLoops ?s1 ! ?k) = Some ((meLoops ?s1 ! ?k)\<lparr>exitBB := ex\<rparr>)"
    using SetExitBB_field [of v "meLoops ?s1 ! ?k"] x by auto
  let ?l = "(meLoops ?s1 ! ?k)\<lparr>exitBB := ex\<rparr>" let ?s2 = "update_loop ?k (\<lambda>_. ?l) ?s1"
  define s1 where "s1 = ?s1"
  have "meLoops s1 = meLoops st @ [meLoops s1 ! ?k]"
    unfolding s1_def using e(1,2) by (intro nth_equalityI) (auto simp: nth_append less_Suc_eq)
  then have "(meLoops s1)[?k := l] = meLoops st @ [l]" for l by (metis list_update_length)
  then have m: "meLoops ?s2 = meLoops st @ [?l]" unfolding s1_def [symmetric] update_loop_def by simp
  have "identify_loop v h t st = Some ?s2"
    unfolding identify_loop_def CreateLoopDesc_def using cs(1) ex by (simp add: Let_def)
  moreover have "built_loop v h t ?l" unfolding built_loop_def bs(1)
    using bs(2-4) by (intro exI [of _ bs] exI [of _ p] exI [of _ d] exI [of _ ex]) simp
  moreover have "parent_from st ?N ?l"
  proof -
    have "q < ?k" if "b \<in> ?N" "bbLoopParent st ! b = Some q" for b q using known that less n unfolding parents_known_def by auto
    then show ?thesis using e(5) unfolding parent_from_def by (auto simp: nth_append split: if_splits)
  qed
  ultimately show ?thesis
    using m e(3,4) unfolding loop_step_def by (intro exI [of _ ?s2] conjI exI [of _ ?l]) (simp_all add: update_loop_def)
qed

end
