(* ===== verification/LoopResult.thy ===== *)
theory LoopResult
  imports LoopBody
begin

text \<open>
  What \<^verbatim>\<open>ProcessBB\<close> finds in a whole function: the loops in the order of the tree preorder, the
  loop that each block belongs to, and the nesting.
\<close>

section \<open>The graph of the phase\<close>

lemma flow_cfg:
  assumes wf: "wf_cfg v entry exit" and j: "joins_forward v entry exit"
  shows "flow (cfg_edge v) entry (rev_edge v)"
proof -
  have no: "\<not> cfg_edge v b entry" for b
  proof
    assume e: "cfg_edge v b entry"
    show False
    proof (cases "normal v entry exit b \<or> b = entry")
      case True
      then show ?thesis using wf_cfgD(6) [OF wf, of entry] wf_cfgD(8) [OF wf, of b entry] e by (auto simp: cfg_edge_def normal_def)
    next
      case False
      then show ?thesis using listed_block(1) [of entry v b] wf_cfgD(5) [OF wf] e by (auto simp: cfg_edge_def normal_def)
    qed
  qed
  have in_normal: "normal v entry exit b" if "(cfg_edge v)\<^sup>*\<^sup>* entry b" "b \<noteq> entry" for b using reach_less [OF wf that(1)] that(2) by auto
  have listed: "cfg_edge v p b" if "(cfg_edge v)\<^sup>*\<^sup>* entry b" "rev_edge v b p" for b p
    using in_normal [OF that(1)] wf_cfgD(4) [OF wf] wf_cfgD(9) [OF wf, of b p] that(2) by (cases "b = entry") (auto simp: rev_edge_def cfg_edge_def)
  have forth: "rev_edge v b p" if "cfg_edge v p b" "p \<noteq> entry" for b p
  proof -
    have "p \<noteq> exit" "bb_at v p \<noteq> None" using that(1) listed_block(1) [of b v p] wf_cfgD(5) [OF wf] by (auto simp: cfg_edge_def)
    then show ?thesis using wf_cfgD(8) [OF wf, of p b] that by (simp add: cfg_edge_def rev_edge_def normal_def)
  qed
  have "(cfg_edge v)\<^sup>*\<^sup>* entry p \<or> cfg_edge v entry b" if b: "(cfg_edge v)\<^sup>*\<^sup>* entry b" and p: "rev_edge v b p" for b p
  proof (rule disjCI)
    assume n: "\<not> cfg_edge v entry b"
    have "b \<noteq> entry" using p wf_cfgD(4) [OF wf] by (auto simp: rev_edge_def)
    then obtain q where q: "(cfg_edge v)\<^sup>*\<^sup>* entry q" "cfg_edge v q b" using b by (metis rtranclp.cases)
    then have "q \<in> set (preds_of v b)" using n forth [OF q(2)] by (auto simp: rev_edge_def)
    moreover have "p \<in> set (preds_of v b)" using p by (simp add: rev_edge_def)
    ultimately consider "p = q" | "2 \<le> length (preds_of v b)" by (cases "preds_of v b"; cases "tl (preds_of v b)") auto
    then show "(cfg_edge v)\<^sup>*\<^sup>* entry p"
    proof cases
      case 2
      have "b \<noteq> exit" using in_normal [OF b \<open>b \<noteq> entry\<close>] by (simp add: normal_def)
      then show ?thesis using j b \<open>p \<in> set (preds_of v b)\<close> 2
        unfolding joins_forward_def joins_reached_def joins_def kBBVectorInitialSize_def by blast
    qed (use q in simp)
  qed
  then show ?thesis unfolding flow_def using listed forth no by blast
qed

section \<open>The walk over the tree\<close>

text \<open>The back edges in the order in which the walk over the blocks finds them.\<close>

definition edges_to :: "Dominance \<Rightarrow> BBId \<Rightarrow> (BBId \<times> BBId) list" where
  "edges_to d h = map (Pair h) (filter (\<lambda>t. Dominate d h t = Some True) (preds_of (bbVec d) h))"

definition back_edges :: "Dominance \<Rightarrow> BBId list \<Rightarrow> (BBId \<times> BBId) list" where
  "back_edges d bs = concat (map (edges_to d) bs)"

fun built :: "MeBB option list \<Rightarrow> (BBId \<times> BBId) list \<Rightarrow> IdentifyLoops \<Rightarrow> IdentifyLoops \<Rightarrow> bool" where
  "built v [] st st' = (st' = st)"
| "built v (e # es) st st' = (\<exists>s. loop_step v e st s \<and> built v es s st')"

lemma built_append: "built v (es @ fs) st st' = (\<exists>s. built v es st s \<and> built v fs s st')"
  by (induction es arbitrary: st) auto

definition ready :: "MeBB option list \<Rightarrow> IdentifyLoops \<Rightarrow> bool" where
  "ready v st \<longleftrightarrow> length (bbLoopParent st) = length v \<and> parents_known st"

lemma loop_step_ready: "ready v st \<Longrightarrow> loop_step v e st st' \<Longrightarrow> ready v st'"
  unfolding ready_def parents_known_def loop_step_def by (fastforce split: if_splits intro: less_SucI)

lemma built_ready: "ready v st \<Longrightarrow> built v es st st' \<Longrightarrow> ready v st'"
  by (induction es arbitrary: st) (auto dest: loop_step_ready)

definition good_edge :: "Dominance \<Rightarrow> BBId \<Rightarrow> BBId \<Rightarrow> bool" where
  "good_edge d h t \<longleftrightarrow> Dominate d h t \<noteq> None \<and>
     (Dominate d h t = Some True \<longrightarrow> (\<forall>b. natural_loop (rev_edge (bbVec d)) h t b \<longrightarrow> bb_at (bbVec d) b \<noteq> None))"

definition good_block :: "Dominance \<Rightarrow> BBId \<Rightarrow> bool" where
  "good_block d h \<longleftrightarrow> bb_at (bbVec d) h \<noteq> None \<and> h \<noteq> commonExitBB d \<and> (\<forall>t\<in>set (preds_of (bbVec d) h). good_edge d h t)"

lemma identify_loops_built:
  assumes "\<forall>t\<in>set ps. good_edge d h t" and "ready (bbVec d) st"
  shows "\<exists>st'. identify_loops d h ps st = Some st' \<and> built (bbVec d) (map (Pair h) (filter (\<lambda>t. Dominate d h t = Some True) ps)) st st'"
  using assms
proof (induction ps arbitrary: st)
  case (Cons t ps)
  have g: "good_edge d h t" using Cons.prems(1) by simp
  show ?case
  proof (cases "Dominate d h t = Some True")
    case True
    then obtain s where s: "identify_loop (bbVec d) h t st = Some s" "loop_step (bbVec d) (h, t) st s"
      using identify_loop_step [of "bbVec d" h t st] g Cons.prems(2) unfolding ready_def good_edge_def by blast
    obtain st' where "identify_loops d h ps s = Some st'"
        "built (bbVec d) (map (Pair h) (filter (\<lambda>t. Dominate d h t = Some True) ps)) s st'"
      using Cons.IH [of s] Cons.prems(1) loop_step_ready [OF Cons.prems(2) s(2)] by auto
    then show ?thesis using s True by auto
  next
    case False
    then have "Dominate d h t = Some False" using g by (auto simp: good_edge_def)
    then show ?thesis using Cons by simp
  qed
qed simp

lemma process_nil: "process_blocks d [] st = Some st"
  by (subst process_blocks.simps) simp

lemma process_cons:
  assumes "good_block d b"
  shows "process_blocks d (b # bs) st = Option.bind (identify_loops d b (preds_of (bbVec d) b) st) (\<lambda>st.
    Option.bind (process_blocks d (domChildren d ! b) st) (process_blocks d bs))"
  using assms by (subst process_blocks.simps) (auto simp: good_block_def bb_at_def preds_of_def split: if_splits)

lemma process_built:
  assumes "visits (domChildren d) bs l" and "\<forall>b\<in>set l. good_block d b" and "ready (bbVec d) st"
  shows "\<exists>st'. process_blocks d bs st = Some st' \<and> built (bbVec d) (back_edges d l) st st'"
  using assms
proof (induction arbitrary: st rule: visits.induct)
  case visits_nil
  then show ?case by (simp add: process_nil back_edges_def)
next
  case (visits_cons b l bs l')
  have b: "good_block d b" using visits_cons.prems(1) by simp
  obtain s1 where s1: "identify_loops d b (preds_of (bbVec d) b) st = Some s1" "built (bbVec d) (edges_to d b) st s1"
    using identify_loops_built [of "preds_of (bbVec d) b" d b st] b visits_cons.prems(2) unfolding edges_to_def good_block_def by auto
  have r1: "ready (bbVec d) s1" using built_ready visits_cons.prems(2) s1(2) by blast
  obtain s2 where s2: "process_blocks d (domChildren d ! b) s1 = Some s2" "built (bbVec d) (back_edges d l) s1 s2"
    using visits_cons.IH(1) [OF _ r1] visits_cons.prems(1) by auto
  have r2: "ready (bbVec d) s2" using built_ready r1 s2(2) by blast
  obtain s3 where s3: "process_blocks d bs s2 = Some s3" "built (bbVec d) (back_edges d l') s2 s3"
    using visits_cons.IH(2) [OF _ r2] visits_cons.prems(1) by auto
  have "back_edges d (b # l @ l') = edges_to d b @ back_edges d l @ back_edges d l'" by (simp add: back_edges_def)
  then show ?case using s1 s2 s3 b by (auto simp: process_cons built_append)
qed

section \<open>The result of the dominator phase\<close>

definition phase_of :: "MeBB option list \<Rightarrow> BBId \<Rightarrow> BBId \<Rightarrow> Dominance \<Rightarrow> bool" where
  "phase_of v entry exit d \<longleftrightarrow> wf_cfg v entry exit \<and> exits_ok v entry exit \<and> MeDoDominance v entry exit = Some d"

lemma phase_ofD:
  assumes "phase_of v entry exit d"
  shows "wf_cfg v entry exit" "exits_ok v entry exit" "MeDoDominance v entry exit = Some d"
  using assms unfolding phase_of_def by simp_all

lemma phase_fields:
  assumes p: "phase_of v entry exit d"
  shows "bbVec d = v" "commonEntryBB d = entry" "commonExitBB d = exit" "flow (cfg_edge v) entry (rev_edge v)"
    "dominator_tree (cfg_edge v) entry (doms d)" "visits (domChildren d) [entry] (dtPreOrder d)"
    "Dominate d a b = Some (a = b \<or> (cfg_edge v)\<^sup>*\<^sup>* entry b \<and> dominates (cfg_edge v) entry a b)"
proof -
  note s = MeDoDominance_spec [OF phase_ofD(1,2) [OF p]] and t = phase_tables(1) [OF phase_ofD [OF p]]
  have d: "bbVec d = v" "commonEntryBB d = entry" "commonExitBB d = exit" "joins_forward v entry exit"
    using s phase_ofD(3) [OF p] by (auto split: if_splits)
  then show "bbVec d = v" "commonEntryBB d = entry" "commonExitBB d = exit" by simp_all
  show "flow (cfg_edge v) entry (rev_edge v)" by (rule flow_cfg [OF phase_ofD(1) [OF p] d(4)])
  show tree: "dominator_tree (cfg_edge v) entry (doms d)" "visits (domChildren d) [entry] (dtPreOrder d)"
    by (rule tablesD(1) [OF t], rule tablesD(7) [OF t])
  show "Dominate d a b = Some (a = b \<or> (cfg_edge v)\<^sup>*\<^sup>* entry b \<and> dominates (cfg_edge v) entry a b)"
    unfolding Dominate_def d(2) using tree_query [OF tree(1), of a b] by simp
qed

lemma segment_order:
  assumes dist: "distinct l" and l: "l = a @ (y # m) @ c" and x: "x \<in> set (y # m)"
    and i: "i < length l" "l ! i = x" and j: "j < length l" "l ! j = y"
  shows "j \<le> i"
proof -
  obtain n where n: "n < length (y # m)" "(y # m) ! n = x" using x by (meson in_set_conv_nth)
  have "l ! (length a + n) = x" "length a + n < length l" using n nth_append [of "y # m" c n] unfolding l nth_append_length_plus by simp_all
  then have "i = length a + n" using nth_eq_iff_index_eq [OF dist] i by metis
  moreover have "l ! length a = y" "length a < length l" unfolding l by simp_all
  then have "j = length a" using nth_eq_iff_index_eq [OF dist] j by metis
  ultimately show ?thesis by simp
qed

lemma phase_order:
  assumes p: "phase_of v entry exit d"
  shows "distinct (dtPreOrder d)" "set (dtPreOrder d) = {b. (cfg_edge v)\<^sup>*\<^sup>* entry b}"
    "i < j \<Longrightarrow> j < length (dtPreOrder d) \<Longrightarrow> \<not> dominates (cfg_edge v) entry (dtPreOrder d ! j) (dtPreOrder d ! i)"
proof -
  note tree = phase_fields(5) [OF p] and l = listingD [OF tablesD(5) [OF phase_tables(1) [OF phase_ofD [OF p]]]]
  show dist: "distinct (dtPreOrder d)" by (rule l(1))
  have root: "anc (doms d) b entry \<longleftrightarrow> (cfg_edge v)\<^sup>*\<^sup>* entry b" for b
  proof
    assume "(cfg_edge v)\<^sup>*\<^sup>* entry b"
    then show "anc (doms d) b entry" using tree_above [OF tree] by blast
  next
    assume a: "anc (doms d) b entry"
    then show "(cfg_edge v)\<^sup>*\<^sup>* entry b" using anc_cases [OF a] dominator_treeD(2) [OF tree, of b] by auto
  qed
  then show s: "set (dtPreOrder d) = {b. (cfg_edge v)\<^sup>*\<^sup>* entry b}" using l(2) by simp
  assume ij: "i < j" "j < length (dtPreOrder d)"
  show "\<not> dominates (cfg_edge v) entry (dtPreOrder d ! j) (dtPreOrder d ! i)"
  proof
    let ?x = "dtPreOrder d ! i" and ?y = "dtPreOrder d ! j"
    assume "dominates (cfg_edge v) entry ?y ?x"
    moreover have "?x \<in> set (dtPreOrder d)" "?y \<in> set (dtPreOrder d)" using ij by simp_all
    ultimately have "anc (doms d) ?x ?y" using dominator_treeD(4) [OF tree] s by blast
    moreover obtain a m c where e: "dtPreOrder d = a @ (?y # m) @ c" "set (?y # m) = {z. anc (doms d) z ?y}"
      using l(4) [OF \<open>?y \<in> set (dtPreOrder d)\<close>] by blast
    ultimately have "?x \<in> set (?y # m)" by blast
    then have "j \<le> i" using segment_order [OF dist e(1), of ?x i j] ij by simp
    then show False using ij by simp
  qed
qed

lemma dominates_self: "dominates E r h h"
proof (cases "h = r")
  case False
  then have "\<not> avoid E {h} r h" unfolding avoid_def by (metis (mono_tags, lifting) insertI1 rtranclp.cases)
  then show ?thesis by (simp add: dominates_def)
qed (simp add: dominates_def)

lemma back_edges_iff:
  assumes p: "phase_of v entry exit d"
  shows "(h, t) \<in> set (back_edges d (dtPreOrder d)) \<longleftrightarrow> back_edge (cfg_edge v) entry (rev_edge v) h t"
proof -
  have "(h, t) \<in> set (back_edges d (dtPreOrder d)) \<longleftrightarrow>
      (cfg_edge v)\<^sup>*\<^sup>* entry h \<and> t \<in> set (preds_of v h) \<and> Dominate d h t = Some True"
    using phase_order(2) [OF p] phase_fields(1) [OF p] by (auto simp: back_edges_def edges_to_def)
  then show ?thesis unfolding phase_fields(7) [OF p] back_edge_def rev_edge_def using dominates_self by auto
qed

lemma phase_good:
  assumes p: "phase_of v entry exit d" and h: "(cfg_edge v)\<^sup>*\<^sup>* entry h"
  shows "good_block d h"
proof -
  have blocks: "bb_at v b \<noteq> None" "b \<noteq> exit" if "(cfg_edge v)\<^sup>*\<^sup>* entry b" for b
    using reach_less [OF phase_ofD(1) [OF p] that] wf_cfgD(1,2) [OF phase_ofD(1) [OF p]] by (auto simp: normal_def)
  have "bb_at v b \<noteq> None" if t: "t \<in> set (preds_of v h)" "Dominate d h t = Some True" "natural_loop (rev_edge v) h t b" for t b
  proof -
    have "back_edge (cfg_edge v) entry (rev_edge v) h t"
      using t(1,2) h dominates_self unfolding phase_fields(7) [OF p] back_edge_def rev_edge_def by auto
    then show ?thesis using blocks(1) loop_reached [OF phase_fields(4) [OF p] _ t(3)] by blast
  qed
  then show ?thesis using blocks [OF h] phase_fields(1,3,7) [OF p] unfolding good_block_def good_edge_def by simp
qed

lemma ProcessBB_built:
  assumes p: "phase_of v entry exit d"
  shows "\<exists>st. ProcessBB d entry (new_IdentifyLoops (length v)) = Some st \<and>
    built v (back_edges d (dtPreOrder d)) (new_IdentifyLoops (length v)) st"
proof -
  have "ready (bbVec d) (new_IdentifyLoops (length v))"
    unfolding phase_fields(1) [OF p] by (simp add: ready_def parents_known_def new_IdentifyLoops_def)
  moreover have "\<forall>b\<in>set (dtPreOrder d). good_block d b" using phase_order(2) [OF p] phase_good [OF p] by simp
  ultimately show ?thesis
    using process_built [OF phase_fields(6) [OF p]] unfolding ProcessBB_def phase_fields(1) [OF p] by blast
qed

section \<open>What has been found after some back edges\<close>

definition in_loop :: "MeBB option list \<Rightarrow> BBId \<times> BBId \<Rightarrow> BBId \<Rightarrow> bool" where
  "in_loop v e b \<longleftrightarrow> natural_loop (rev_edge v) (fst e) (snd e) b"

text \<open>The last of the first \<open>n\<close> loops that a block is in.\<close>

fun last_loop :: "MeBB option list \<Rightarrow> (BBId \<times> BBId) list \<Rightarrow> nat \<Rightarrow> BBId \<Rightarrow> nat option" where
  "last_loop v es 0 b = None"
| "last_loop v es (Suc n) b = (if in_loop v (es ! n) b then Some n else last_loop v es n b)"

lemma last_loop_None: "last_loop v es n b = None \<longleftrightarrow> (\<forall>i<n. \<not> in_loop v (es ! i) b)"
  by (induction n) (auto simp: less_Suc_eq)

lemma last_loop_Some: "last_loop v es n b = Some p \<longleftrightarrow> p < n \<and> in_loop v (es ! p) b \<and> (\<forall>i<n. p < i \<longrightarrow> \<not> in_loop v (es ! i) b)"
  by (induction n) (auto simp: less_Suc_eq)

lemma last_loop_append: "n \<le> length es \<Longrightarrow> last_loop v (es @ fs) n b = last_loop v es n b"
  by (induction n) (simp_all add: nth_append)

text \<open>The parent and the depth of loop \<open>i\<close>, from the loops before it.\<close>

definition nest_ok :: "MeBB option list \<Rightarrow> (BBId \<times> BBId) list \<Rightarrow> LoopDesc list \<Rightarrow> nat \<Rightarrow> bool" where
  "nest_ok v es ls i \<longleftrightarrow>
     (if \<forall>b. in_loop v (es ! i) b \<longrightarrow> last_loop v es i b = None then parent (ls ! i) = None \<and> nestDepth (ls ! i) = 0
      else \<exists>b p. in_loop v (es ! i) b \<and> last_loop v es i b = Some p \<and> parent (ls ! i) = Some p \<and> nestDepth (ls ! i) = nestDepth (ls ! p) + 1)"

definition found :: "MeBB option list \<Rightarrow> (BBId \<times> BBId) list \<Rightarrow> IdentifyLoops \<Rightarrow> bool" where
  "found v es st \<longleftrightarrow> length (meLoops st) = length es \<and> (\<forall>i<length es. built_loop v (fst (es ! i)) (snd (es ! i)) (meLoops st ! i)) \<and>
     length (bbLoopParent st) = length v \<and> (\<forall>b<length v. bbLoopParent st ! b = last_loop v es (length es) b) \<and>
     (\<forall>i<length es. nest_ok v es (meLoops st) i)"

lemma nest_ok_append:
  assumes "i < length es" and "length ls = length es"
  shows "nest_ok v (es @ fs) (ls @ ms) i = nest_ok v es ls i"
proof -
  have "p < length ls" if "last_loop v es i b = Some p" for b p using that assms unfolding last_loop_Some by simp
  then have "(ls @ ms) ! p = ls ! p" if "last_loop v es i b = Some p" for b p using that by (simp add: nth_append)
  moreover have "(es @ fs) ! i = es ! i" "(ls @ ms) ! i = ls ! i" using assms by (simp_all add: nth_append)
  moreover have "last_loop v (es @ fs) i = last_loop v es i" using assms by (intro ext last_loop_append) simp
  ultimately show ?thesis unfolding nest_ok_def by (simp cong: conj_cong)
qed

lemma found_step:
  assumes f: "found v es st" and s: "loop_step v e st st'" and less: "\<And>b. in_loop v e b \<Longrightarrow> b < length v"
  shows "found v (es @ [e]) st'"
proof -
  have f': "length (meLoops st) = length es" "\<And>i. i < length es \<Longrightarrow> built_loop v (fst (es ! i)) (snd (es ! i)) (meLoops st ! i)"
      "length (bbLoopParent st) = length v" "\<And>b. b < length v \<Longrightarrow> bbLoopParent st ! b = last_loop v es (length es) b"
      "\<And>i. i < length es \<Longrightarrow> nest_ok v es (meLoops st) i"
    using f unfolding found_def by blast+
  obtain l where l: "meLoops st' = meLoops st @ [l]" "built_loop v (fst e) (snd e) l" "parent_from st {b. in_loop v e b} l"
      "length (bbLoopParent st') = length v"
      "\<And>b. b < length v \<Longrightarrow> bbLoopParent st' ! b = (if in_loop v e b then Some (length es) else bbLoopParent st ! b)"
    using s f'(1,3) unfolding loop_step_def in_loop_def by auto
  have up: "bbLoopParent st ! b = last_loop v es (length es) b" if "in_loop v e b" for b using f'(4) less that by simp
  have ex: "last_loop v (es @ [e]) (length es) = last_loop v es (length es)" by (intro ext last_loop_append) simp
  have "nest_ok v (es @ [e]) (meLoops st @ [l]) (length es)"
  proof (cases "\<forall>b. in_loop v e b \<longrightarrow> last_loop v es (length es) b = None")
    case True
    then show ?thesis using l(3) up f'(1) unfolding nest_ok_def ex parent_from_def by (auto simp: nth_append)
  next
    case False
    then obtain b p where b: "in_loop v e b" "last_loop v es (length es) b = Some p" "parent l = Some p" "nestDepth l = nestDepth (meLoops st ! p) + 1"
      using l(3) up unfolding parent_from_def by (auto split: if_splits)
    moreover have "p < length (meLoops st)" using b(2) f'(1) unfolding last_loop_Some by simp
    ultimately show ?thesis using f'(1) False unfolding nest_ok_def ex by (auto simp: nth_append)
  qed
  moreover have "nest_ok v (es @ [e]) (meLoops st @ [l]) i" if "i < length es" for i
    using nest_ok_append [OF that f'(1), of v "[e]" "[l]"] f'(5) [OF that] by simp
  ultimately have "\<forall>i<length (es @ [e]). nest_ok v (es @ [e]) (meLoops st') i" unfolding l(1) by (auto simp: less_Suc_eq)
  moreover have "\<forall>i<length (es @ [e]). built_loop v (fst ((es @ [e]) ! i)) (snd ((es @ [e]) ! i)) (meLoops st' ! i)"
    using l(1,2) f'(1,2) by (auto simp: less_Suc_eq nth_append)
  moreover have "\<forall>b<length v. bbLoopParent st' ! b = last_loop v (es @ [e]) (length (es @ [e])) b"
    using l(5) f'(4) ex by (auto simp: nth_append)
  ultimately show ?thesis unfolding found_def using l(1,4) f'(1) by simp
qed

lemma found_built:
  assumes "built v es (new_IdentifyLoops (length v)) st" and "\<And>e b. e \<in> set es \<Longrightarrow> in_loop v e b \<Longrightarrow> b < length v"
  shows "found v es st"
  using assms
proof (induction es arbitrary: st rule: rev_induct)
  case Nil
  then show ?case by (simp add: found_def new_IdentifyLoops_def)
next
  case (snoc e es)
  then obtain s where s: "built v es (new_IdentifyLoops (length v)) s" "loop_step v e s st" by (auto simp: built_append)
  have "found v es s" by (rule snoc.IH [OF s(1)]) (rule snoc.prems(2), simp_all)
  then show ?case by (rule found_step [OF _ s(2)]) (rule snoc.prems(2), simp_all)
qed

lemma ProcessBB_found:
  assumes p: "phase_of v entry exit d"
  shows "\<exists>st. ProcessBB d entry (new_IdentifyLoops (length v)) = Some st \<and> found v (back_edges d (dtPreOrder d)) st"
proof -
  have "b < length v" if e: "e \<in> set (back_edges d (dtPreOrder d))" "in_loop v e b" for e b
  proof -
    have "back_edge (cfg_edge v) entry (rev_edge v) (fst e) (snd e)" using back_edges_iff [OF p, of "fst e" "snd e"] e(1) by simp
    then have "(cfg_edge v)\<^sup>*\<^sup>* entry b" using loop_reached [OF phase_fields(4) [OF p]] e(2) unfolding in_loop_def by blast
    then have "bb_at v b \<noteq> None" using phase_good [OF p] phase_fields(1) [OF p] unfolding good_block_def by auto
    then show ?thesis by (rule bb_at_less)
  qed
  then show ?thesis using ProcessBB_built [OF p] found_built by blast
qed

section \<open>Nesting\<close>

lemma sorted_wrt_concat:
  assumes "sorted_wrt P xs" and "\<And>x. sorted_wrt Q (f x)" and "\<And>x y a b. P x y \<Longrightarrow> a \<in> set (f x) \<Longrightarrow> b \<in> set (f y) \<Longrightarrow> Q a b"
  shows "sorted_wrt Q (concat (map f xs))"
  using assms(1) by (induction xs) (auto simp: sorted_wrt_append assms(2) intro: assms(3))

lemma back_edges_order:
  assumes p: "phase_of v entry exit d"
  shows "sorted_wrt (\<lambda>e f. fst e = fst f \<or> \<not> dominates (cfg_edge v) entry (fst f) (fst e)) (back_edges d (dtPreOrder d))"
  unfolding back_edges_def
proof (rule sorted_wrt_concat)
  show "sorted_wrt (\<lambda>x y. \<not> dominates (cfg_edge v) entry y x) (dtPreOrder d)"
    using phase_order(3) [OF p] by (simp add: sorted_wrt_iff_nth_less)
qed (auto simp: edges_to_def sorted_wrt_iff_nth_less)

lemma loops_order:
  assumes p: "phase_of v entry exit d" and es: "es = back_edges d (dtPreOrder d)"
    and ij: "i < j" "j < length es" "fst (es ! i) \<noteq> fst (es ! j)" and b: "in_loop v (es ! i) b" "in_loop v (es ! j) b"
  shows "(\<forall>x. in_loop v (es ! j) x \<longrightarrow> in_loop v (es ! i) x) \<and> \<not> in_loop v (es ! j) (fst (es ! i))"
proof -
  have e: "back_edge (cfg_edge v) entry (rev_edge v) (fst (es ! k)) (snd (es ! k))" if "k < length es" for k
    using nth_mem [OF that] back_edges_iff [OF p, of "fst (es ! k)" "snd (es ! k)"] unfolding es by simp
  have o: "\<not> dominates (cfg_edge v) entry (fst (es ! j)) (fst (es ! i))"
    using sorted_wrt_nth_less [OF back_edges_order [OF p, folded es] ij(1,2)] ij(3) by blast
  note f = phase_fields(4,5) [OF p]
  have "\<not> in_loop v (es ! j) (fst (es ! i))" using loop_reached [OF f(1) e [OF ij(2)]] o unfolding in_loop_def by blast
  then show ?thesis
    using loops_nested [OF f e e ij(3), of b] ij(1,2) b o unfolding in_loop_def by auto
qed

text \<open>With one back edge to each head, what the order of the loops says is the nesting of the sets.\<close>

definition one_each :: "MeBB option list \<Rightarrow> BBId \<Rightarrow> BBId \<Rightarrow> Dominance \<Rightarrow> (BBId \<times> BBId) list \<Rightarrow> bool" where
  "one_each v entry exit d es \<longleftrightarrow> phase_of v entry exit d \<and> es = back_edges d (dtPreOrder d) \<and> distinct (map fst es)"

lemma one_each_order:
  assumes o: "one_each v entry exit d es" and "i < j" "j < length es" "in_loop v (es ! i) b" "in_loop v (es ! j) b"
  shows "in_loop v (es ! j) x \<Longrightarrow> in_loop v (es ! i) x" and "\<not> in_loop v (es ! j) (fst (es ! i))"
proof -
  have "fst (es ! i) \<noteq> fst (es ! j)"
    using o assms(2,3) nth_eq_iff_index_eq [of "map fst es" i j] unfolding one_each_def by auto
  then show "in_loop v (es ! j) x \<Longrightarrow> in_loop v (es ! i) x" and "\<not> in_loop v (es ! j) (fst (es ! i))"
    using loops_order [of v entry exit d es i j b] o assms unfolding one_each_def by blast+
qed

lemma last_loop_innermost:
  assumes o: "one_each v entry exit d es" and n: "n \<le> length es" and p: "last_loop v es n b = Some p"
    and j: "j < n" "in_loop v (es ! j) b" and x: "in_loop v (es ! p) x"
  shows "in_loop v (es ! j) x"
proof (cases "j = p")
  case False
  then have "j < p" using p j unfolding last_loop_Some by (meson linorder_neqE_nat)
  then show ?thesis using one_each_order(1) [OF o, of j p b x] p n j x unfolding last_loop_Some by simp
qed (use x in simp)

lemma head_in_loop [simp]: "in_loop v e (fst e)"
  by (simp add: in_loop_def)

lemma last_loop_head:
  assumes o: "one_each v entry exit d es" and i: "i < length es" and b: "in_loop v (es ! i) b"
  shows "last_loop v es i b = last_loop v es i (fst (es ! i))"
proof -
  have "in_loop v (es ! j) b = in_loop v (es ! j) (fst (es ! i))" if "j < i" for j
    using one_each_order(1) [OF o that i, of b] one_each_order(1) [OF o that i, of "fst (es ! i)"] b by (metis head_in_loop)
  then have "last_loop v es n b = last_loop v es n (fst (es ! i))" if "n \<le> i" for n using that by (induction n) simp_all
  then show ?thesis by simp
qed

lemma nest_parent:
  assumes o: "one_each v entry exit d es" and i: "i < length es" and n: "nest_ok v es ls i"
  shows "parent (ls ! i) = last_loop v es i (fst (es ! i))"
    and "nestDepth (ls ! i) = (case last_loop v es i (fst (es ! i)) of None \<Rightarrow> 0 | Some p \<Rightarrow> nestDepth (ls ! p) + 1)"
proof -
  let ?h = "fst (es ! i)"
  have e: "last_loop v es i b = last_loop v es i ?h" if "in_loop v (es ! i) b" for b by (rule last_loop_head [OF o i that])
  have "parent (ls ! i) = last_loop v es i ?h \<and> nestDepth (ls ! i) = (case last_loop v es i ?h of None \<Rightarrow> 0 | Some p \<Rightarrow> nestDepth (ls ! p) + 1)"
  proof (cases "last_loop v es i ?h")
    case None
    have "last_loop v es i b = None" if "in_loop v (es ! i) b" for b using e [OF that] None by (rule trans)
    then have "\<forall>b. in_loop v (es ! i) b \<longrightarrow> last_loop v es i b = None" by blast
    then show ?thesis using n None unfolding nest_ok_def by simp
  next
    case (Some p)
    have "\<not> (\<forall>b. in_loop v (es ! i) b \<longrightarrow> last_loop v es i b = None)"
    proof
      assume "\<forall>b. in_loop v (es ! i) b \<longrightarrow> last_loop v es i b = None"
      from this [rule_format, OF head_in_loop] show False using Some by simp
    qed
    then obtain b q where b: "in_loop v (es ! i) b" "last_loop v es i b = Some q" "parent (ls ! i) = Some q" "nestDepth (ls ! i) = nestDepth (ls ! q) + 1"
      using n unfolding nest_ok_def by (simp only: if_False) blast
    then show ?thesis using e [OF b(1)] by simp
  qed
  then show "parent (ls ! i) = last_loop v es i ?h"
    and "nestDepth (ls ! i) = (case last_loop v es i ?h of None \<Rightarrow> 0 | Some p \<Rightarrow> nestDepth (ls ! p) + 1)" by blast+
qed

definition around :: "MeBB option list \<Rightarrow> (BBId \<times> BBId) list \<Rightarrow> nat \<Rightarrow> nat set" where
  "around v es i = {j. j < length es \<and> j \<noteq> i \<and> in_loop v (es ! j) (fst (es ! i))}"

lemma around_before: "one_each v entry exit d es \<Longrightarrow> i < length es \<Longrightarrow> around v es i = {j. j < i \<and> in_loop v (es ! j) (fst (es ! i))}"
  using one_each_order(2) [of v entry exit d es i _ "fst (es ! i)"] unfolding around_def by (auto simp: nat_neq_iff)

lemma around_parent:
  assumes o: "one_each v entry exit d es" and i: "i < length es" and p: "last_loop v es i (fst (es ! i)) = Some p"
  shows "around v es i = insert p (around v es p)" and "p \<notin> around v es p"
proof -
  have pi: "p < i" "in_loop v (es ! p) (fst (es ! i))" using p unfolding last_loop_Some by simp_all
  then have pl: "p < length es" using i by simp
  show "p \<notin> around v es p" by (simp add: around_def)
  show "around v es i = insert p (around v es p)"
  proof (intro equalityI subsetI)
    fix j assume "j \<in> around v es i"
    then have j: "j < i" "in_loop v (es ! j) (fst (es ! i))" unfolding around_before [OF o i] by simp_all
    then show "j \<in> insert p (around v es p)"
      using last_loop_innermost [OF o _ p, of j "fst (es ! p)"] i unfolding around_def by auto
  next
    fix j assume j: "j \<in> insert p (around v es p)"
    show "j \<in> around v es i"
    proof (cases "j = p")
      case False
      then have "j < p" "in_loop v (es ! j) (fst (es ! p))" using j around_before [OF o pl] by auto
      then show ?thesis
        using one_each_order(1) [OF o \<open>j < p\<close> pl, of "fst (es ! p)" "fst (es ! i)"] pi unfolding around_before [OF o i] by simp
    qed (use pi around_before [OF o i] in simp)
  qed
qed

lemma nest_depth:
  assumes o: "one_each v entry exit d es" and n: "\<forall>i<length es. nest_ok v es ls i" and i: "i < length es"
  shows "nestDepth (ls ! i) = word_of_nat (card (around v es i))"
  using i
proof (induction i rule: less_induct)
  case (less i)
  note d = nest_parent(2) [OF o less.prems n [rule_format, OF less.prems]]
  show ?case
  proof (cases "last_loop v es i (fst (es ! i))")
    case None
    then have "around v es i = {}" unfolding around_before [OF o less.prems] last_loop_None by simp
    then show ?thesis using d None by simp
  next
    case (Some p)
    then have p: "p < i" "p < length es" using less.prems unfolding last_loop_Some by simp_all
    have "finite (around v es p)" by (simp add: around_def)
    then have "card (around v es i) = Suc (card (around v es p))" using around_parent [OF o less.prems Some] by simp
    then show ?thesis using d Some less.IH [OF p] by simp
  qed
qed

end
