(* ===== verification/LoopExits.thy ===== *)
theory LoopExits
  imports LoopResult
begin

text \<open>
  The exits of a loop (\<^verbatim>\<open>InsertExitBB\<close>), and what makes a loop canonical.
\<close>

section \<open>Lists of pairs sorted by key\<close>

definition keyed :: "(BBId \<times> BBId list) list \<Rightarrow> bool" where
  "keyed m \<longleftrightarrow> sorted_wrt (<) (map fst m)"

lemma keyed_Cons: "keyed ((k, xs) # m) \<longleftrightarrow> (\<forall>k'\<in>fst ` set m. k < k') \<and> keyed m"
  by (auto simp: keyed_def)

lemma add_exit_keys: "fst ` set (add_exit k x m) = insert k (fst ` set m)"
  by (induction k x m rule: add_exit.induct) auto

lemma add_exit_keyed: "keyed m \<Longrightarrow> keyed (add_exit k x m)"
  by (induction k x m rule: add_exit.induct) (auto simp: keyed_Cons add_exit_keys)

lemma keyed_below: "keyed m \<Longrightarrow> (\<forall>k'\<in>fst ` set m. k < k') \<Longrightarrow> map_of m k = None"
  unfolding map_of_eq_None_iff by auto

lemma map_of_add_exit:
  "keyed m \<Longrightarrow> map_of (add_exit k x m) =
    (map_of m)(k \<mapsto> case map_of m k of None \<Rightarrow> [x] | Some xs \<Rightarrow> if x \<in> set xs then xs else xs @ [x])"
proof (induction k x m rule: add_exit.induct)
  case (2 k x k' xs ps)
  have "map_of ps k = None" if "k < k'" using 2(2) that by (intro keyed_below) (auto simp: keyed_Cons intro: less_trans)
  then show ?case using 2 by (auto simp: keyed_Cons fun_upd_twist)
qed simp

definition listed_exits :: "BBId list option \<Rightarrow> BBId set \<Rightarrow> bool" where
  "listed_exits r X \<longleftrightarrow> (case r of None \<Rightarrow> X = {} | Some xs \<Rightarrow> X \<noteq> {} \<and> distinct xs \<and> set xs = X)"

lemma fold_add_exit:
  assumes "keyed m" and "listed_exits (map_of m k) X"
  shows "keyed (fold (add_exit k) xs m) \<and> listed_exits (map_of (fold (add_exit k) xs m) k) (X \<union> set xs) \<and>
    (\<forall>k'. k' \<noteq> k \<longrightarrow> map_of (fold (add_exit k) xs m) k' = map_of m k')"
  using assms
proof (induction xs arbitrary: m X)
  case (Cons x xs)
  have "listed_exits (map_of (add_exit k x m) k) (insert x X)"
    using Cons.prems by (auto simp: map_of_add_exit listed_exits_def split: option.splits)
  from Cons.IH [OF add_exit_keyed [OF Cons.prems(1)] this] show ?case
    using map_of_add_exit [OF Cons.prems(1), of k x] by simp
qed simp

section \<open>The walk\<close>

definition visited_succs :: "LoopDesc \<Rightarrow> BBId list \<Rightarrow> BBId list \<times> BBId list \<Rightarrow> BBId list \<times> BBId list \<Rightarrow> bool" where
  "visited_succs l ss st st' \<longleftrightarrow> (\<exists>new. fst st' = fst st @ new \<and> set (snd st') = set (snd st) \<union> set new \<and> set new \<subseteq> set ss \<inter> set (loopBBs l)) \<and>
     set ss \<inter> set (loopBBs l) \<subseteq> set (snd st')"

lemma visit_succs_spec:
  assumes "visit_succs cur ss (q, t, l) = (q', t', l')" and "set t \<subseteq> set (loopBBs l)"
  shows "visited_succs l ss (q, t) (q', t')" and "l' = l\<lparr>inloopBB2exitBBs := fold (add_exit cur) (filter (\<lambda>s. \<not> Has l s) ss) (inloopBB2exitBBs l)\<rparr>"
proof -
  have "visited_succs l ss (q, t) (q', t') \<and> l' = l\<lparr>inloopBB2exitBBs := fold (add_exit cur) (filter (\<lambda>s. \<not> Has l s) ss) (inloopBB2exitBBs l)\<rparr>"
    using assms
  proof (induction ss arbitrary: q t l)
    case Nil
    then show ?case by (simp add: visited_succs_def)
  next
    case (Cons s ss)
    consider "s \<in> set t" "Has l s" | "s \<notin> set t" "Has l s" | "s \<notin> set t" "\<not> Has l s" using Cons.prems(2) by (auto simp: Has_def)
    then show ?case
    proof cases
      case 1
      then have "visited_succs l ss (q, t) (q', t')" "l' = l\<lparr>inloopBB2exitBBs := fold (add_exit cur) (filter (\<lambda>s. \<not> Has l s) ss) (inloopBB2exitBBs l)\<rparr>"
        using Cons.IH [of q t l] Cons.prems by simp_all
      then show ?thesis using 1 by (auto simp: visited_succs_def)
    next
      case 2
      then have "visited_succs l ss (q @ [s], s # t) (q', t')" "l' = l\<lparr>inloopBB2exitBBs := fold (add_exit cur) (filter (\<lambda>s. \<not> Has l s) ss) (inloopBB2exitBBs l)\<rparr>"
        using Cons.IH [of "q @ [s]" "s # t" l] Cons.prems by (simp_all add: Has_def)
      then show ?thesis using 2 by (auto simp: visited_succs_def Has_def intro!: exI [of _ "s # new" for new])
    next
      case 3
      let ?l = "InsertInloopBB2exitBBs cur s l"
      have l: "loopBBs ?l = loopBBs l" "Has ?l = Has l" by (auto simp: InsertInloopBB2exitBBs_def Has_def)
      then have "visited_succs ?l ss (q, t) (q', t')"
          "l' = ?l\<lparr>inloopBB2exitBBs := fold (add_exit cur) (filter (\<lambda>s. \<not> Has ?l s) ss) (inloopBB2exitBBs ?l)\<rparr>"
        using Cons.IH [of q t ?l] Cons.prems 3 by simp_all
      then show ?thesis using 3 l by (auto simp: visited_succs_def InsertInloopBB2exitBBs_def Has_def)
    qed
  qed
  then show "visited_succs l ss (q, t) (q', t')" "l' = l\<lparr>inloopBB2exitBBs := fold (add_exit cur) (filter (\<lambda>s. \<not> Has l s) ss) (inloopBB2exitBBs l)\<rparr>"
    by blast+
qed

definition exits_of :: "MeBB option list \<Rightarrow> BBId set \<Rightarrow> BBId \<Rightarrow> BBId set" where
  "exits_of v L b = {s \<in> set (succs_of v b). s \<notin> L}"

definition returns_at :: "MeBB option list \<Rightarrow> BBId \<Rightarrow> bool" where
  "returns_at v b \<longleftrightarrow> (\<exists>x. bb_at v b = Some x \<and> returns_bb x)"

text \<open>The blocks \<open>D\<close> are done, those in the queue are not.\<close>

definition walking :: "MeBB option list \<Rightarrow> BBId \<Rightarrow> BBId set \<Rightarrow> BBId set \<Rightarrow> BBId list \<Rightarrow> BBId set \<Rightarrow> (BBId \<times> BBId list) list \<Rightarrow> bool" where
  "walking v h L D q t m \<longleftrightarrow> D \<subseteq> L \<and> set q \<subseteq> L \<and> t \<subseteq> L \<and> t \<subseteq> D \<union> set q \<and> h \<in> D \<union> set q \<and>
     (\<forall>b\<in>D. \<not> returns_at v b \<and> set (succs_of v b) \<inter> L \<subseteq> t) \<and> keyed m \<and>
     (\<forall>b. listed_exits (map_of m b) (if b \<in> D then exits_of v L b else {}))"

lemma exit_walk_spec:
  assumes "walking v h (set (loopBBs l)) D q (set t) (inloopBB2exitBBs l)" and "\<forall>b\<in>set (loopBBs l). bb_at v b \<noteq> None"
  shows "case exit_walk v q t l of
      Inl e \<Rightarrow> e = CheckFatal ''return bb'' \<and> (\<exists>b\<in>set (loopBBs l). returns_at v b)
    | Inr l' \<Rightarrow> \<exists>D t m. l' = l\<lparr>inloopBB2exitBBs := m\<rparr> \<and> walking v h (set (loopBBs l)) D [] t m"
  using assms
proof (induction v q t l arbitrary: D rule: exit_walk.induct)
  case (1 v q t l)
  show ?case
  proof (cases q)
    case Nil
    then show ?thesis using 1(2) by (subst exit_walk.simps) (simp, intro exI [of _ D] exI [of _ "set t"] exI [of _ "inloopBB2exitBBs l"], simp)
  next
    case (Cons b bs)
    let ?L = "set (loopBBs l)" and ?m = "inloopBB2exitBBs l"
    have w: "D \<subseteq> ?L" "b \<in> ?L" "set bs \<subseteq> ?L" "set t \<subseteq> ?L" "set t \<subseteq> D \<union> set (b # bs)" "h \<in> D \<union> set (b # bs)"
        "\<forall>b\<in>D. \<not> returns_at v b \<and> set (succs_of v b) \<inter> ?L \<subseteq> set t" "keyed ?m"
        "\<And>b. listed_exits (map_of ?m b) (if b \<in> D then exits_of v ?L b else {})"
      using 1(2) unfolding walking_def Cons by auto
    obtain x where x: "bb_at v b = Some x" using 1(3) w(2) by blast
    then have dx: "deref v b = Inr x" and sx: "succs_of v b = succ x" by (simp_all add: deref_def succs_of_def)
    show ?thesis
    proof (cases "returns_bb x")
      case True
      then have "returns_at v b" using x by (simp add: returns_at_def)
      then show ?thesis using True w(2) dx Cons by (subst exit_walk.simps) auto
    next
      case False
      obtain q' t' l' where vs: "visit_succs b (succ x) (bs, t, l) = (q', t', l')" by (metis prod_cases3)
      let ?m' = "fold (add_exit b) (filter (\<lambda>s. \<not> Has l s) (succ x)) ?m"
      obtain new where n: "l' = l\<lparr>inloopBB2exitBBs := ?m'\<rparr>" "q' = bs @ new" "set t' = set t \<union> set new" "set new \<subseteq> set (succ x) \<inter> ?L"
          "set (succ x) \<inter> ?L \<subseteq> set t'"
        using visit_succs_spec [OF vs w(4)] unfolding visited_succs_def by auto
      have X: "(if b \<in> D then exits_of v ?L b else {}) \<union> set (filter (\<lambda>s. \<not> Has l s) (succ x)) = exits_of v ?L b"
        using sx by (auto simp: exits_of_def Has_def)
      note m = fold_add_exit [OF w(8) w(9) [of b], of "filter (\<lambda>s. \<not> Has l s) (succ x)", unfolded X]
      have w': "walking v h ?L (insert b D) q' (set t') ?m'"
        unfolding walking_def
      proof (intro conjI ballI allI)
        fix c assume c: "c \<in> insert b D"
        show "\<not> returns_at v c" using c w(7) False x by (auto simp: returns_at_def)
        show "set (succs_of v c) \<inter> ?L \<subseteq> set t'" using c w(7) n(3,5) sx by auto
      next
        fix c show "listed_exits (map_of ?m' c) (if c \<in> insert b D then exits_of v ?L c else {})"
          using m w(9) [of c] by (cases "c = b") auto
      qed (use w n m in auto)
      have lb: "loopBBs l' = loopBBs l" "inloopBB2exitBBs l' = ?m'" using n(1) by simp_all
      have "case exit_walk v q' t' l' of
          Inl e \<Rightarrow> e = CheckFatal ''return bb'' \<and> (\<exists>b\<in>?L. returns_at v b)
        | Inr l'' \<Rightarrow> \<exists>D t m. l'' = l'\<lparr>inloopBB2exitBBs := m\<rparr> \<and> walking v h ?L D [] t m"
        using 1(1) [OF Cons dx False vs [symmetric] refl, of "insert b D", unfolded lb] w' 1(3) by blast
      moreover have "exit_walk v q t l = exit_walk v q' t' l'" using Cons dx False vs by (subst exit_walk.simps) simp
      ultimately show ?thesis unfolding n(1) by (auto split: sum.splits)
    qed
  qed
qed

lemma any_block_found:
  assumes "\<forall>b\<in>set bs. bb_at v b \<noteq> None"
  shows "any_block v P bs = Inr (\<exists>b\<in>set bs. P (the (bb_at v b)))"
  using assms by (induction bs) (auto simp: deref_def)

lemma any_block_False: "any_block v P bs = Inr False \<Longrightarrow> b \<in> set bs \<Longrightarrow> bb_at v b = Some x \<Longrightarrow> \<not> P x"
  by (induction bs) (auto simp: deref_def bind_result_def split: option.splits if_splits sum.splits)

section \<open>The exits\<close>

definition located :: "MeBB option list \<Rightarrow> BBId \<Rightarrow> BBId \<Rightarrow> LoopDesc \<Rightarrow> bool" where
  "located v h t l \<longleftrightarrow> head l = h \<and> tail l = t \<and> set (loopBBs l) = {b. natural_loop (rev_edge v) h t b} \<and> inloopBB2exitBBs l = []"

lemma reached_block:
  assumes p: "phase_of v entry exit d" and b: "(cfg_edge v)\<^sup>*\<^sup>* entry b"
  shows "bb_at v b \<noteq> None" "b \<noteq> exit"
  using phase_good [OF p b] phase_fields(1,3) [OF p] by (simp_all add: good_block_def)

lemma loop_block:
  assumes p: "phase_of v entry exit d" and e: "back_edge (cfg_edge v) entry (rev_edge v) h t" and l: "located v h t l" and b: "b \<in> set (loopBBs l)"
  shows "(cfg_edge v)\<^sup>*\<^sup>* entry b" "bb_at v b \<noteq> None" "s \<in> set (succs_of v b) \<Longrightarrow> bb_at v s \<noteq> None"
    "q \<in> set (preds_of v b) \<Longrightarrow> bb_at v q \<noteq> None"
proof -
  show r: "(cfg_edge v)\<^sup>*\<^sup>* entry b" using loop_reached [OF phase_fields(4) [OF p] e] l b by (simp add: located_def)
  show "bb_at v b \<noteq> None" by (rule reached_block(1) [OF p r])
  show "bb_at v s \<noteq> None" if "s \<in> set (succs_of v b)"
    using reached_block(1) [OF p, of s] r that by (simp add: rtranclp.rtrancl_into_rtrancl cfg_edge_def)
  show "bb_at v q \<noteq> None" if q: "q \<in> set (preds_of v b)"
  proof -
    have "cfg_edge v q b" using flowD(1) [OF phase_fields(4) [OF p] r] q by (simp add: rev_edge_def)
    then show ?thesis using listed_block(1) by (simp add: cfg_edge_def)
  qed
qed

lemma keyed_map_of: "keyed m \<Longrightarrow> (k, xs) \<in> set m \<longleftrightarrow> map_of m k = Some xs"
  unfolding keyed_def using strict_sorted_iff [of "map fst m"] by simp

definition exits_known :: "MeBB option list \<Rightarrow> LoopDesc \<Rightarrow> bool" where
  "exits_known v l \<longleftrightarrow> keyed (inloopBB2exitBBs l) \<and>
     (\<forall>b. listed_exits (map_of (inloopBB2exitBBs l) b) (if b \<in> set (loopBBs l) then exits_of v (set (loopBBs l)) b else {}))"

definition exits_closed :: "MeBB option list \<Rightarrow> LoopDesc \<Rightarrow> bool" where
  "exits_closed v l \<longleftrightarrow> (\<forall>b\<in>set (loopBBs l). \<forall>s\<in>exits_of v (set (loopBBs l)) b. set (preds_of v s) \<subseteq> set (loopBBs l))"

lemma exits_known_cong: "inloopBB2exitBBs l = inloopBB2exitBBs l' \<Longrightarrow> loopBBs l = loopBBs l' \<Longrightarrow> exits_known v l = exits_known v l'"
  unfolding exits_known_def by (simp only:)

lemma exit_list:
  assumes "exits_known v l"
  shows "s \<in> set (concat (map snd (inloopBB2exitBBs l))) \<longleftrightarrow> (\<exists>b\<in>set (loopBBs l). s \<in> exits_of v (set (loopBBs l)) b)"
proof -
  let ?m = "inloopBB2exitBBs l"
  have k: "keyed ?m" using assms by (simp add: exits_known_def)
  have "s \<in> set (concat (map snd ?m)) \<longleftrightarrow> (\<exists>b xs. (b, xs) \<in> set ?m \<and> s \<in> set xs)" by force
  then have "s \<in> set (concat (map snd ?m)) \<longleftrightarrow> (\<exists>b xs. map_of ?m b = Some xs \<and> s \<in> set xs)" unfolding keyed_map_of [OF k] .
  moreover have "(\<exists>xs. map_of ?m b = Some xs \<and> s \<in> set xs) \<longleftrightarrow> b \<in> set (loopBBs l) \<and> s \<in> exits_of v (set (loopBBs l)) b" for b
  proof -
    have "listed_exits (map_of ?m b) (if b \<in> set (loopBBs l) then exits_of v (set (loopBBs l)) b else {})"
      using assms unfolding exits_known_def by blast
    then show ?thesis by (auto simp: listed_exits_def split: option.splits if_splits)
  qed
  ultimately show ?thesis by blast
qed

lemma InsertExitBB_spec:
  assumes p: "phase_of v entry exit d" and e: "back_edge (cfg_edge v) entry (rev_edge v) h t" and l: "located v h t l"
  shows "if \<exists>b\<in>set (loopBBs l). returns_at v b then InsertExitBB v l = Inl (CheckFatal ''return bb'')
    else \<exists>m. InsertExitBB v l = Inr (l\<lparr>inloopBB2exitBBs := m\<rparr>, exits_closed v l) \<and> exits_known v (l\<lparr>inloopBB2exitBBs := m\<rparr>)"
proof -
  let ?L = "set (loopBBs l)"
  note block = loop_block [OF p e l]
  have L: "b \<in> ?L \<longleftrightarrow> natural_loop (rev_edge v) h t b" for b using l by (simp add: located_def)
  have "walking v h ?L {} [h] (set []) (inloopBB2exitBBs l)"
    using l L [of h] by (simp add: walking_def located_def keyed_def listed_exits_def)
  note w = exit_walk_spec [OF this, simplified block, simplified]
  have h: "head l = h" "inloopBB2exitBBs l = []" using l by (simp_all add: located_def)
  show ?thesis
  proof (cases "exit_walk v [h] [] l")
    case (Inl err)
    then show ?thesis using w block(2) h by (auto simp: InsertExitBB_def)
  next
    case (Inr l')
    then obtain D tr m where m: "l' = l\<lparr>inloopBB2exitBBs := m\<rparr>" "walking v h ?L D [] tr m" using w block(2) by auto
    have D: "D \<subseteq> ?L" "tr \<subseteq> D" "h \<in> D" "\<And>b. b \<in> D \<Longrightarrow> \<not> returns_at v b \<and> set (succs_of v b) \<inter> ?L \<subseteq> tr" "keyed m"
        "\<And>b. listed_exits (map_of m b) (if b \<in> D then exits_of v ?L b else {})"
      using m(2) unfolding walking_def by auto
    have "x \<in> D" if "x \<in> ?L" for x
      by (rule loop_spans [OF phase_fields(4) [OF p] e D(3)]) (use D(2,4) L that in \<open>auto simp: cfg_edge_def\<close>)
    then have DL: "D = ?L" using D(1) by blast
    have f: "inloopBB2exitBBs l' = m" "loopBBs l' = loopBBs l" using m(1) by simp_all
    have k: "exits_known v l'" unfolding exits_known_def f using D(5) D(6) [unfolded DL] by blast
    have s: "bb_at v s \<noteq> None" if "s \<in> set (concat (map snd (inloopBB2exitBBs l')))" for s
      using that block(3) exit_list [OF k] m(1) by (auto simp: exits_of_def)
    let ?es = "concat (map snd (inloopBB2exitBBs l'))" and ?P = "\<lambda>bb. list_ex (\<lambda>p. \<not> Has l' p) (pred bb)"
    have "?P (the (bb_at v s)) \<longleftrightarrow> (\<exists>q\<in>set (preds_of v s). q \<notin> ?L)" if "s \<in> set ?es" for s
      using s [OF that] f(2) by (auto simp: list_ex_iff Has_def preds_of_def)
    then have "(\<exists>s\<in>set ?es. ?P (the (bb_at v s))) \<longleftrightarrow> (\<exists>s\<in>set ?es. \<exists>q\<in>set (preds_of v s). q \<notin> ?L)" by blast
    also have "\<dots> \<longleftrightarrow> \<not> exits_closed v l" using exit_list [OF k] unfolding f(2) exits_closed_def by blast
    finally have c: "(\<exists>s\<in>set ?es. ?P (the (bb_at v s))) \<longleftrightarrow> \<not> exits_closed v l" .
    have "\<forall>s\<in>set ?es. bb_at v s \<noteq> None" using s by (intro ballI)
    then have "any_block v ?P ?es = Inr (\<not> exits_closed v l)" unfolding c [symmetric] by (rule any_block_found)
    then have "InsertExitBB v l = Inr (l', exits_closed v l)" using Inr h by (simp add: InsertExitBB_def)
    then show ?thesis using D(4) DL m(1) k by auto
  qed
qed

section \<open>Canonical loops\<close>

definition entered_by :: "MeBB option list \<Rightarrow> BBId \<Rightarrow> LoopDesc \<Rightarrow> BBId \<Rightarrow> BBId \<Rightarrow> bool" where
  "entered_by v entry l p t \<longleftrightarrow> preds_of v (head l) = [t] \<and> p = entry \<and> head l \<in> set (succs_of v entry) \<or>
     set (preds_of v (head l)) = {p, t} \<and> \<not> Has l p \<and> Has l t"

lemma ProcessPreheaderAndLatch_True:
  assumes "ProcessPreheaderAndLatch v entry l = Inr (l', True)"
  shows "\<exists>p t. l' = l\<lparr>preheader := Some p, latch := Some t\<rparr> \<and> entered_by v entry l p t"
proof -
  obtain h where h: "bb_at v (head l) = Some h"
    using assms by (cases "bb_at v (head l)") (simp_all add: ProcessPreheaderAndLatch_def deref_def)
  then have d: "deref v (head l) = Inr h" and ps: "preds_of v (head l) = pred h" by (simp_all add: deref_def preds_of_def)
  consider (one) t where "pred h = [t]" | (two) p q where "pred h = [p, q]" | "length (pred h) \<noteq> 1" "length (pred h) \<noteq> 2"
    by (cases "pred h"; cases "tl (pred h)"; cases "tl (tl (pred h))") auto
  then show ?thesis
  proof cases
    case one
    then obtain e where e: "bb_at v entry = Some e" "succ e \<noteq> []" "succ e ! 0 = head l"
        and l: "l' = l\<lparr>preheader := Some entry, latch := Some t\<rparr>"
      using assms d by (auto simp: ProcessPreheaderAndLatch_def deref_def bind_result_def split: option.splits if_splits sum.splits)
    have "head l \<in> set (succs_of v entry)" using e nth_mem [of 0 "succ e"] by (simp add: succs_of_def)
    then show ?thesis using l one ps unfolding entered_by_def by auto
  next
    case two
    show ?thesis
    proof (cases "Has l p")
      case True
      then have "\<not> Has l q" "l' = l\<lparr>latch := Some p, preheader := Some q\<rparr>"
        using assms d two by (auto simp: ProcessPreheaderAndLatch_def deref_def bind_result_def split: option.splits if_splits sum.splits)
      then show ?thesis using True two ps unfolding entered_by_def by (intro exI [of _ q] exI [of _ p]) auto
    next
      case False
      then have "Has (l\<lparr>preheader := Some p\<rparr>) q" "l' = l\<lparr>preheader := Some p, latch := Some q\<rparr>"
        using assms d two by (auto simp: ProcessPreheaderAndLatch_def deref_def bind_result_def Let_def split: option.splits if_splits sum.splits)
      then show ?thesis using False two ps unfolding entered_by_def by (intro exI [of _ p] exI [of _ q]) (auto simp: Has_def)
    qed
  next
    case 3
    then show ?thesis using assms d by (simp add: ProcessPreheaderAndLatch_def)
  qed
qed

lemma ProcessPreheaderAndLatch_False:
  assumes "ProcessPreheaderAndLatch v entry l = Inr (l', False)" and "\<not> isCanonicalLoop l"
  shows "\<not> isCanonicalLoop l'"
  using assms by (auto simp: ProcessPreheaderAndLatch_def deref_def bind_result_def Let_def split: option.splits if_splits sum.splits)

definition canonical_ok :: "MeBB option list \<Rightarrow> BBId \<Rightarrow> LoopDesc \<Rightarrow> LoopDesc \<Rightarrow> bool" where
  "canonical_ok v entry l l' \<longleftrightarrow> (\<exists>m p t. l' = l\<lparr>inloopBB2exitBBs := m, preheader := Some p, latch := Some t, isCanonicalLoop := True\<rparr> \<and>
     entered_by v entry l p t \<and> exits_known v l' \<and> exits_closed v l \<and> \<not> hasTryBB l \<and> \<not> hasIgotoBB l)"

lemma canonical_loop_spec:
  assumes p: "phase_of v entry exit d" and e: "back_edge (cfg_edge v) entry (rev_edge v) h t" and l: "located v h t l"
    and n: "\<not> isCanonicalLoop l" and c: "canonical_loop v entry l = Inr l'" "isCanonicalLoop l'"
  shows "canonical_ok v entry l l'"
proof -
  obtain m where m: "InsertExitBB v l = Inr (l\<lparr>inloopBB2exitBBs := m\<rparr>, exits_closed v l)" "exits_known v (l\<lparr>inloopBB2exitBBs := m\<rparr>)"
    using InsertExitBB_spec [OF p e l] c(1) by (auto simp: canonical_loop_def split: if_splits)
  let ?l = "l\<lparr>inloopBB2exitBBs := m\<rparr>"
  have i: "\<not> isCanonicalLoop ?l" using n by simp
  have r: "exits_closed v l" "\<not> hasTryBB l" "\<not> hasIgotoBB l"
    using c m(1) n by (auto simp: canonical_loop_def split: if_splits)
  then have pl: "bind_result (ProcessPreheaderAndLatch v entry ?l) (\<lambda>(l, ok). if \<not> ok then Inr l else Inr (l\<lparr>isCanonicalLoop := True\<rparr>)) = Inr l'"
    using c(1) m(1) by (simp add: canonical_loop_def)
  then obtain l2 ok where l2: "ProcessPreheaderAndLatch v entry ?l = Inr (l2, ok)" "l' = (if ok then l2\<lparr>isCanonicalLoop := True\<rparr> else l2)"
    by (cases "ProcessPreheaderAndLatch v entry ?l") (auto split: if_splits)
  have ok: "ok" using ProcessPreheaderAndLatch_False [OF _ i, of v entry l2] l2 c(2) by (cases ok) auto
  then obtain q s where q: "l2 = ?l\<lparr>preheader := Some q, latch := Some s\<rparr>" "entered_by v entry ?l q s"
    using ProcessPreheaderAndLatch_True [of v entry ?l l2] l2(1) by auto
  have "l' = l\<lparr>inloopBB2exitBBs := m, preheader := Some q, latch := Some s, isCanonicalLoop := True\<rparr>" using l2(2) ok q(1) by simp
  moreover have "entered_by v entry l q s" using q(2) by (simp add: entered_by_def Has_def)
  moreover have "exits_known v l'" using m(2) exits_known_cong [of l' ?l v] calculation(1) by simp
  ultimately show ?thesis using r unfolding canonical_ok_def by blast
qed

lemma canonical_entry:
  assumes p: "phase_of v entry exit d" and e: "back_edge (cfg_edge v) entry (rev_edge v) h t" and l: "located v h t l"
    and b: "entered_by v entry l q s"
  shows "s = t \<and> q \<notin> set (loopBBs l) \<and>
    (\<forall>x\<in>set (loopBBs l). \<forall>y. cfg_edge v y x \<longrightarrow> y \<notin> set (loopBBs l) \<longrightarrow> x = h \<and> (y = q \<or> y = entry))"
proof -
  note f = phase_fields(4) [OF p]
  have L: "x \<in> set (loopBBs l) \<longleftrightarrow> natural_loop (rev_edge v) h t x" for x using l by (simp add: located_def)
  have h: "head l = h" using l by (simp add: located_def)
  have tp: "t \<in> set (preds_of v h)" using back_edgeD(2) [OF e] by (simp add: rev_edge_def)
  have tl: "t \<in> set (loopBBs l)" unfolding L by (rule loop_tail)
  have "entry \<notin> set (loopBBs l)"
  proof
    assume "entry \<in> set (loopBBs l)"
    then have "dominates (cfg_edge v) entry h entry" using loop_reached [OF f e] unfolding L by blast
    then show False using back_edge_head [OF f e] by (simp add: dominates_def)
  qed
  then have s: "s = t" "q \<notin> set (loopBBs l)" "y = q" if "y \<in> set (preds_of v h)" "y \<notin> set (loopBBs l)" for y
    using b tp tl that unfolding entered_by_def h Has_def by auto
  have "s = t \<and> q \<notin> set (loopBBs l)" using b tp tl \<open>entry \<notin> set (loopBBs l)\<close> unfolding entered_by_def h Has_def by auto
  moreover have "x = h \<and> (y = q \<or> y = entry)" if x: "x \<in> set (loopBBs l)" "cfg_edge v y x" "y \<notin> set (loopBBs l)" for x y
  proof (cases "x = h")
    case True
    then show ?thesis using flowD(2) [OF f x(2)] s(3) [of y] x(3) by (auto simp: rev_edge_def)
  next
    case False
    have "dominates (cfg_edge v) entry h x" using loop_reached [OF f e] x(1) unfolding L by blast
    then have "y \<noteq> entry"
      using False back_edge_head [OF f e] x(2) avoid_step [of "cfg_edge v" "{h}" entry entry x] by (auto simp: dominates_def)
    then have "rev_edge v x y" by (rule flowD(2) [OF f x(2)])
    then have "natural_loop (rev_edge v) h t y" using loop_pred [of "rev_edge v" h t x y] False x(1) unfolding L by blast
    then show ?thesis using x(3) unfolding L by simp
  qed
  ultimately show ?thesis by blast
qed

section \<open>The loop over the loops\<close>

lemma each_loop_nth:
  "each_loop f ls = Inr ls' \<Longrightarrow> length ls' = length ls \<and> (\<forall>i<length ls. f (ls ! i) = Inr (ls' ! i))"
  by (induction ls arbitrary: ls') (auto simp: bind_result_def nth_Cons split: sum.splits nat.splits)

lemma set_try_spec:
  assumes "set_try v l = Inr l'"
  shows "\<exists>b. l' = l\<lparr>hasTryBB := b\<rparr> \<and> (\<not> b \<longrightarrow> (\<forall>x\<in>set (loopBBs l) \<union> set (preds_of v (head l)). \<forall>bb. bb_at v x = Some bb \<longrightarrow> \<not> GetAttributes bb kBBAttrIsTry) \<and>
    (\<forall>x\<in>set (loopBBs l). \<forall>bb. bb_at v x = Some bb \<longrightarrow> \<not> GetAttributes bb kBBAttrWontExit))"
proof -
  obtain h where h: "bb_at v (head l) = Some h"
    using assms by (cases "bb_at v (head l)") (simp_all add: set_try_def deref_def)
  obtain t1 where t1: "any_block v (\<lambda>bb. GetAttributes bb kBBAttrIsTry) (pred h) = Inr t1"
    using assms h by (cases "any_block v (\<lambda>bb. GetAttributes bb kBBAttrIsTry) (pred h)") (simp_all add: set_try_def deref_def)
  have ps: "preds_of v (head l) = pred h" using h by (simp add: preds_of_def)
  have id: "l = l\<lparr>hasTryBB := hasTryBB l\<rparr>" by simp
  show ?thesis
  proof (cases "t1 \<or> hasTryBB l")
    case True
    then have "l' = l\<lparr>hasTryBB := True\<rparr>" using assms h t1 id by (auto simp: set_try_def deref_def Let_def split: if_splits)
    then show ?thesis by blast
  next
    case False
    let ?P = "\<lambda>bb. GetAttributes bb kBBAttrIsTry \<or> GetAttributes bb kBBAttrWontExit"
    obtain t2 where t2: "any_block v ?P (loopBBs l) = Inr t2" and l': "l' = (if t2 then l\<lparr>hasTryBB := True\<rparr> else l)"
      using assms h t1 False by (cases "any_block v ?P (loopBBs l)") (auto simp: set_try_def deref_def Let_def)
    show ?thesis
    proof (cases t2)
      case f: False
      have "l' = l\<lparr>hasTryBB := False\<rparr>" using l' f False id by simp
      moreover have "\<not> GetAttributes bb kBBAttrIsTry" if "x \<in> set (pred h)" "bb_at v x = Some bb" for x bb
        using any_block_False [OF _ that] t1 False by simp
      moreover have "\<not> ?P bb" if "x \<in> set (loopBBs l)" "bb_at v x = Some bb" for x bb
        using any_block_False [of v ?P, OF _ that] t2 f by simp
      ultimately show ?thesis unfolding ps by (intro exI [of _ False]) auto
    qed (use l' in auto)
  qed
qed

end
