(* ===== verification/LoopClaims.thy ===== *)
theory LoopClaims
  imports LoopExits
begin

text \<open>
  The properties of the loop analysis of the optimiser, on the result of the dominator phase.
\<close>

declare exit_walk.simps [code]

definition kind_block :: "BBKind \<Rightarrow> BBId list \<Rightarrow> BBId list \<Rightarrow> uint32 \<Rightarrow> MeBB" where
  "kind_block k ss ps attrs = (graph_block ss ps attrs)\<lparr>kind := k\<rparr>"

text \<open>A loop (head 3) in a loop (head 2).\<close>

definition nested_graph :: "MeBB option list" where
  "nested_graph =
     [Some (kind_block kBBUnknown [2] [] 0), Some (kind_block kBBUnknown [] [6] 0),
      Some (kind_block kBBFallthru [3] [5] 0), Some (kind_block kBBFallthru [4] [2, 4] 0),
      Some (kind_block kBBCondGoto [5, 3] [3] 0), Some (kind_block kBBCondGoto [6, 2] [4] 0),
      Some (kind_block kBBReturn [] [5] kBBAttrIsExit)]"

lemma nested_graph: "wf_cfg nested_graph 0 1" "exits_ok nested_graph 0 1"
  by code_simp+

text \<open>The loops that \<^verbatim>\<open>ProcessBB\<close> finds, with heads, tails, blocks, parents and depths.\<close>

definition loops_found :: "MeBB option list \<Rightarrow> ((BBId \<times> BBId \<times> BBId list \<times> nat option \<times> uint32) list \<times> nat option list) option" where
  "loops_found v = Option.bind (MeDoDominance v 0 1) (\<lambda>d. map_option
     (\<lambda>st. (map (\<lambda>l. (head l, tail l, loopBBs l, parent l, nestDepth l)) (meLoops st), bbLoopParent st))
     (ProcessBB d 0 (new_IdentifyLoops (length v))))"

lemma nested_loops: "loops_found nested_graph =
    Some ([(2, 5, [2, 3, 4, 5], None, 0), (3, 4, [3, 4], Some 0, 1)], [None, None, Some 0, Some 1, Some 1, Some 0, None])"
  by code_simp

lemma loops_foundD:
  assumes "loops_found v = Some r"
  shows "\<exists>d st. MeDoDominance v 0 1 = Some d \<and> ProcessBB d 0 (new_IdentifyLoops (length v)) = Some st \<and>
    map (\<lambda>l. (head l, tail l, loopBBs l, parent l, nestDepth l)) (meLoops st) = fst r \<and> bbLoopParent st = snd r"
  using assms unfolding loops_found_def by (auto split: bind_splits)

section \<open>The loops\<close>

lemma found_loop:
  assumes p: "phase_of v entry exit d" and f: "found v (back_edges d (dtPreOrder d)) st" and i: "i < length (meLoops st)"
  shows "back_edge (cfg_edge v) entry (rev_edge v) (head (meLoops st ! i)) (tail (meLoops st ! i))"
    and "located v (head (meLoops st ! i)) (tail (meLoops st ! i)) (meLoops st ! i)"
    and "sorted (loopBBs (meLoops st ! i)) \<and> distinct (loopBBs (meLoops st ! i))"
    and "back_edges d (dtPreOrder d) ! i = (head (meLoops st ! i), tail (meLoops st ! i))"
    and "\<not> isCanonicalLoop (meLoops st ! i)"
proof -
  let ?es = "back_edges d (dtPreOrder d)"
  have i': "i < length ?es" using f i by (simp add: found_def)
  obtain h t where ht: "?es ! i = (h, t)" by fastforce
  have "built_loop v h t (meLoops st ! i)" using f i' ht unfolding found_def by (metis fst_conv snd_conv)
  then obtain bs q n e where b: "meLoops st ! i = (new_LoopDesc h t)\<lparr>exitBB := e, loopBBs := bs, parent := q, nestDepth := n\<rparr>"
      "sorted bs" "distinct bs" "set bs = {b. natural_loop (rev_edge v) h t b}"
    unfolding built_loop_def by blast
  have n: "head (meLoops st ! i) = h" "tail (meLoops st ! i) = t" "loopBBs (meLoops st ! i) = bs" "inloopBB2exitBBs (meLoops st ! i) = []"
      "\<not> isCanonicalLoop (meLoops st ! i)"
    unfolding b(1) by (simp_all add: new_LoopDesc_def)
  show "?es ! i = (head (meLoops st ! i), tail (meLoops st ! i))" unfolding ht n ..
  show "back_edge (cfg_edge v) entry (rev_edge v) (head (meLoops st ! i)) (tail (meLoops st ! i))"
    using nth_mem [OF i'] back_edges_iff [OF p] unfolding ht n by simp
  show "located v (head (meLoops st ! i)) (tail (meLoops st ! i)) (meLoops st ! i)" unfolding located_def n using b(4) by simp
  show "sorted (loopBBs (meLoops st ! i)) \<and> distinct (loopBBs (meLoops st ! i))" "\<not> isCanonicalLoop (meLoops st ! i)"
    unfolding n(3) using b(2,3) n(5) by simp_all
qed

lemma phase_ofI: "wf_cfg v entry exit \<Longrightarrow> exits_ok v entry exit \<Longrightarrow> MeDoDominance v entry exit = Some d \<Longrightarrow> phase_of v entry exit d"
  by (simp add: phase_of_def)

lemma processed:
  assumes p: "phase_of v entry exit d" and s: "ProcessBB d entry (new_IdentifyLoops (length v)) = Some st"
  shows "found v (back_edges d (dtPreOrder d)) st"
  using ProcessBB_found [OF p] s by simp

text \<open>(C10) \<^verbatim>\<open>ProcessBB\<close> ends without following a null pointer. In the order of the preorder of the dominator tree
  and of the predecessors of each block, it makes one loop for each edge whose target dominates
  its source, and the blocks of the loop are the head and the blocks that lead to the tail without passing the head.\<close>

theorem ProcessBB_loops:
  assumes "wf_cfg v entry exit" and "exits_ok v entry exit" and "MeDoDominance v entry exit = Some d"
  shows "\<exists>st. ProcessBB d entry (new_IdentifyLoops (length v)) = Some st \<and>
    map (\<lambda>l. (head l, tail l)) (meLoops st) =
      concat (map (\<lambda>h. map (Pair h) (filter (\<lambda>t. (cfg_edge v)\<^sup>*\<^sup>* entry t \<and> dominates (cfg_edge v) entry h t) (preds_of v h))) (dtPreOrder d)) \<and>
    (\<forall>l\<in>set (meLoops st). sorted (loopBBs l) \<and> distinct (loopBBs l) \<and>
      (\<forall>b. b \<in> set (loopBBs l) \<longleftrightarrow> b = head l \<or> tail l \<noteq> head l \<and> avoid (rev_edge v) {head l} (tail l) b))"
proof -
  note p = phase_ofI [OF assms]
  let ?es = "back_edges d (dtPreOrder d)"
  obtain st where st: "ProcessBB d entry (new_IdentifyLoops (length v)) = Some st" "found v ?es st" using ProcessBB_found [OF p] by blast
  note l = found_loop [OF p st(2)]
  have n: "length (meLoops st) = length ?es" using st(2) by (simp add: found_def)
  have "map (\<lambda>l. (head l, tail l)) (meLoops st) = ?es" using n l(4) by (intro nth_equalityI) simp_all
  moreover have "filter (\<lambda>t. Dominate d h t = Some True) (preds_of v h) =
      filter (\<lambda>t. (cfg_edge v)\<^sup>*\<^sup>* entry t \<and> dominates (cfg_edge v) entry h t) (preds_of v h)" if "h \<in> set (dtPreOrder d)" for h
    using that phase_order(2) [OF p] dominates_self unfolding phase_fields(7) [OF p] by (intro filter_cong refl) auto
  then have "?es = concat (map (\<lambda>h. map (Pair h) (filter (\<lambda>t. (cfg_edge v)\<^sup>*\<^sup>* entry t \<and> dominates (cfg_edge v) entry h t) (preds_of v h))) (dtPreOrder d))"
    unfolding back_edges_def edges_to_def phase_fields(1) [OF p] by (simp cong: map_cong)
  moreover have "sorted (loopBBs l) \<and> distinct (loopBBs l) \<and>
      (\<forall>b. b \<in> set (loopBBs l) \<longleftrightarrow> b = head l \<or> tail l \<noteq> head l \<and> avoid (rev_edge v) {head l} (tail l) b)" if m: "l \<in> set (meLoops st)" for l
  proof -
    obtain i where "i < length (meLoops st)" "meLoops st ! i = l" using m by (meson in_set_conv_nth)
    then show ?thesis using l(2,3) [of i] unfolding located_def natural_loop_def by auto
  qed
  ultimately show ?thesis using st(1) by simp
qed

theorem ProcessBB_loops_witness:
  "\<exists>d st. MeDoDominance nested_graph 0 1 = Some d \<and> ProcessBB d 0 (new_IdentifyLoops (length nested_graph)) = Some st \<and>
    map (\<lambda>l. (head l, tail l)) (meLoops st) = [(2, 5), (3, 4)] \<and> avoid (rev_edge nested_graph) {2} 5 3"
proof -
  obtain d st where d: "MeDoDominance nested_graph 0 1 = Some d" "ProcessBB d 0 (new_IdentifyLoops (length nested_graph)) = Some st"
      and l: "map (\<lambda>l. (head l, tail l, loopBBs l, parent l, nestDepth l)) (meLoops st) = [(2, 5, [2, 3, 4, 5], None, 0), (3, 4, [3, 4], Some 0, 1)]"
    using loops_foundD [OF nested_loops] by auto
  then obtain l1 l2 where m: "meLoops st = [l1, l2]" "head l1 = 2" "tail l1 = 5" "set (loopBBs l1) = {2, 3, 4, 5}" "head l2 = 3" "tail l2 = 4"
    by (auto simp: map_eq_Cons_conv)
  have "3 \<in> set (loopBBs l1) \<longleftrightarrow> 3 = head l1 \<or> tail l1 \<noteq> head l1 \<and> avoid (rev_edge nested_graph) {head l1} (tail l1) 3"
    using ProcessBB_loops [OF nested_graph d(1)] d(2) m(1) by auto
  then show ?thesis using d m by auto
qed

text \<open>(C21) Every loop has a single entry: its head dominates its blocks, all of which are reachable. Two loops with different
  heads are disjoint or one contains the other.\<close>

theorem loops_single_entry:
  assumes "wf_cfg v entry exit" and "exits_ok v entry exit" and "MeDoDominance v entry exit = Some d"
    and "ProcessBB d entry (new_IdentifyLoops (length v)) = Some st" and "l \<in> set (meLoops st)" and "l' \<in> set (meLoops st)"
  shows "(\<forall>b\<in>set (loopBBs l). (cfg_edge v)\<^sup>*\<^sup>* entry b \<and> dominates (cfg_edge v) entry (head l) b) \<and>
    (head l = head l' \<or> set (loopBBs l) \<inter> set (loopBBs l') = {} \<or>
     set (loopBBs l) \<subseteq> set (loopBBs l') \<or> set (loopBBs l') \<subseteq> set (loopBBs l))"
proof -
  note p = phase_ofI [OF assms(1-3)]
  note f = phase_fields(4,5) [OF p]
  have e: "back_edge (cfg_edge v) entry (rev_edge v) (head x) (tail x)" "located v (head x) (tail x) x" if "x \<in> set (meLoops st)" for x
    using that found_loop(1,2) [OF p processed [OF p assms(4)]] by (metis in_set_conv_nth)+
  have L: "b \<in> set (loopBBs x) \<longleftrightarrow> natural_loop (rev_edge v) (head x) (tail x) b" if "x \<in> set (meLoops st)" for x b
    using e(2) [OF that] by (simp add: located_def)
  have "set (loopBBs l) \<inter> set (loopBBs l') = {} \<or> set (loopBBs l) \<subseteq> set (loopBBs l') \<or> set (loopBBs l') \<subseteq> set (loopBBs l)"
    if "head l \<noteq> head l'"
    using loops_nested [OF f e(1) [OF assms(5)] e(1) [OF assms(6)] that] L [OF assms(5)] L [OF assms(6)] by blast
  then show ?thesis using loop_reached [OF f(1) e(1) [OF assms(5)]] L [OF assms(5)] by blast
qed

theorem loops_single_entry_witness:
  "\<exists>d st l. MeDoDominance nested_graph 0 1 = Some d \<and> ProcessBB d 0 (new_IdentifyLoops (length nested_graph)) = Some st \<and>
    l \<in> set (meLoops st) \<and> head l = 3 \<and> dominates (cfg_edge nested_graph) 0 3 4"
proof -
  obtain d st where d: "MeDoDominance nested_graph 0 1 = Some d" "ProcessBB d 0 (new_IdentifyLoops (length nested_graph)) = Some st"
      and l: "map (\<lambda>l. (head l, tail l, loopBBs l, parent l, nestDepth l)) (meLoops st) = [(2, 5, [2, 3, 4, 5], None, 0), (3, 4, [3, 4], Some 0, 1)]"
    using loops_foundD [OF nested_loops] by auto
  then obtain l1 l2 where m: "meLoops st = [l1, l2]" "head l2 = 3" "set (loopBBs l2) = {3, 4}" by (auto simp: map_eq_Cons_conv)
  have "\<forall>b\<in>set (loopBBs l2). dominates (cfg_edge nested_graph) 0 (head l2) b"
    using loops_single_entry [OF nested_graph d, of l2 l2] m(1) by simp
  then show ?thesis using d m by auto
qed

section \<open>Nesting\<close>

lemma one_each_found:
  assumes p: "phase_of v entry exit d" and f: "found v (back_edges d (dtPreOrder d)) st" and dist: "distinct (map head (meLoops st))"
  shows "one_each v entry exit d (back_edges d (dtPreOrder d))"
    and "i < length (meLoops st) \<Longrightarrow> b \<in> set (loopBBs (meLoops st ! i)) \<longleftrightarrow> in_loop v (back_edges d (dtPreOrder d) ! i) b"
    and "i < length (meLoops st) \<Longrightarrow> fst (back_edges d (dtPreOrder d) ! i) = head (meLoops st ! i)"
proof -
  let ?es = "back_edges d (dtPreOrder d)"
  note l = found_loop [OF p f]
  have n: "length (meLoops st) = length ?es" using f by (simp add: found_def)
  have "map fst ?es = map head (meLoops st)" using n l(4) by (intro nth_equalityI) simp_all
  then show "one_each v entry exit d ?es" using p dist by (simp add: one_each_def)
  show "i < length (meLoops st) \<Longrightarrow> b \<in> set (loopBBs (meLoops st ! i)) \<longleftrightarrow> in_loop v (?es ! i) b"
    using l(2,4) [of i] by (simp add: located_def in_loop_def)
  show "i < length (meLoops st) \<Longrightarrow> fst (?es ! i) = head (meLoops st ! i)" using l(4) by simp
qed

text \<open>(C13) If no two back edges lead to one head, the parent of a loop is the smallest loop around it, its depth is the number
  of loops around it, and the loop recorded for a block is the smallest loop that holds the block.\<close>

theorem loop_nesting:
  assumes "wf_cfg v entry exit" and "exits_ok v entry exit" and "MeDoDominance v entry exit = Some d"
    and "ProcessBB d entry (new_IdentifyLoops (length v)) = Some st" and "distinct (map head (meLoops st))"
    and "i < length (meLoops st)" and "b < length v"
  shows "(case parent (meLoops st ! i) of
       None \<Rightarrow> \<forall>j<length (meLoops st). j \<noteq> i \<longrightarrow> head (meLoops st ! i) \<notin> set (loopBBs (meLoops st ! j))
     | Some p \<Rightarrow> p < length (meLoops st) \<and> set (loopBBs (meLoops st ! i)) \<subset> set (loopBBs (meLoops st ! p)) \<and>
         (\<forall>j<length (meLoops st). j \<noteq> i \<longrightarrow> head (meLoops st ! i) \<in> set (loopBBs (meLoops st ! j)) \<longrightarrow>
            set (loopBBs (meLoops st ! p)) \<subseteq> set (loopBBs (meLoops st ! j)))) \<and>
    nestDepth (meLoops st ! i) = word_of_nat (card {j. j < length (meLoops st) \<and> j \<noteq> i \<and> head (meLoops st ! i) \<in> set (loopBBs (meLoops st ! j))}) \<and>
    (case bbLoopParent st ! b of
       None \<Rightarrow> \<forall>j<length (meLoops st). b \<notin> set (loopBBs (meLoops st ! j))
     | Some p \<Rightarrow> p < length (meLoops st) \<and> b \<in> set (loopBBs (meLoops st ! p)) \<and>
         (\<forall>j<length (meLoops st). b \<in> set (loopBBs (meLoops st ! j)) \<longrightarrow> set (loopBBs (meLoops st ! p)) \<subseteq> set (loopBBs (meLoops st ! j))))"
proof -
  note ph = phase_ofI [OF assms(1-3)]
  let ?es = "back_edges d (dtPreOrder d)" and ?ls = "meLoops st"
  let ?h = "fst (?es ! i)" let ?L = "\<lambda>j. {x. in_loop v (?es ! j) x}"
  note f = processed [OF ph assms(4)]
  note o = one_each_found(1) [OF ph f assms(5)]
  have n: "length ?ls = length ?es" and nest: "\<forall>k<length ?es. nest_ok v ?es ?ls k" and up: "bbLoopParent st ! b = last_loop v ?es (length ?es) b"
    using f assms(7) unfolding found_def by blast+
  have i: "i < length ?es" using assms(6) n by simp
  have L: "set (loopBBs (?ls ! j)) = ?L j" if "j < length ?es" for j using one_each_found(2) [OF ph f assms(5), of j] that n by auto
  have h: "head (?ls ! i) = ?h" using one_each_found(3) [OF ph f assms(5,6)] by simp
  note par = nest_parent(1) [OF o i nest [rule_format, OF i]]
  have around: "j < i" if "j < length ?es" "j \<noteq> i" "in_loop v (?es ! j) ?h" for j
    using that around_before [OF o i] unfolding around_def by blast
  have "case parent (?ls ! i) of None \<Rightarrow> \<forall>j<length ?es. j \<noteq> i \<longrightarrow> ?h \<notin> ?L j
     | Some p \<Rightarrow> p < length ?es \<and> ?L i \<subset> ?L p \<and> (\<forall>j<length ?es. j \<noteq> i \<longrightarrow> ?h \<in> ?L j \<longrightarrow> ?L p \<subseteq> ?L j)"
  proof (cases "last_loop v ?es i ?h")
    case None
    then show ?thesis unfolding par None option.case using around None [unfolded last_loop_None] by blast
  next
    case (Some p)
    then have p: "p < i" "in_loop v (?es ! p) ?h" unfolding last_loop_Some by simp_all
    have "?L i \<subset> ?L p" using one_each_order [OF o p(1) i p(2) head_in_loop] head_in_loop [of v "?es ! p"] by blast
    moreover have "?L p \<subseteq> ?L j" if "j < length ?es" "j \<noteq> i" "?h \<in> ?L j" for j
      using last_loop_innermost [OF o less_imp_le [OF i] Some around] that by auto
    ultimately show ?thesis using p(1) i unfolding par Some by simp
  qed
  moreover have "nestDepth (?ls ! i) = word_of_nat (card {j. j < length ?es \<and> j \<noteq> i \<and> ?h \<in> ?L j})"
    using nest_depth [OF o nest i] by (simp add: around_def)
  moreover have "case bbLoopParent st ! b of None \<Rightarrow> \<forall>j<length ?es. b \<notin> ?L j
     | Some p \<Rightarrow> p < length ?es \<and> b \<in> ?L p \<and> (\<forall>j<length ?es. b \<in> ?L j \<longrightarrow> ?L p \<subseteq> ?L j)"
  proof (cases "last_loop v ?es (length ?es) b")
    case None
    then show ?thesis unfolding up None option.case using None [unfolded last_loop_None] by blast
  next
    case (Some p)
    have "?L p \<subseteq> ?L j" if "j < length ?es" "b \<in> ?L j" for j using last_loop_innermost [OF o order_refl Some] that by auto
    then show ?thesis unfolding up Some option.case using Some [unfolded last_loop_Some] by blast
  qed
  ultimately show ?thesis unfolding n h using L i by (auto split: option.splits cong: conj_cong)
qed

theorem loop_nesting_witness:
  "\<exists>d st. MeDoDominance nested_graph 0 1 = Some d \<and> ProcessBB d 0 (new_IdentifyLoops (length nested_graph)) = Some st \<and>
    nestDepth (meLoops st ! 1) = word_of_nat (card {j. j < 2 \<and> j \<noteq> 1 \<and> 3 \<in> set (loopBBs (meLoops st ! j))}) \<and> nestDepth (meLoops st ! 1) = 1"
proof -
  obtain d st where d: "MeDoDominance nested_graph 0 1 = Some d" "ProcessBB d 0 (new_IdentifyLoops (length nested_graph)) = Some st"
      and l: "map (\<lambda>l. (head l, tail l, loopBBs l, parent l, nestDepth l)) (meLoops st) = [(2, 5, [2, 3, 4, 5], None, 0), (3, 4, [3, 4], Some 0, 1)]"
    using loops_foundD [OF nested_loops] by auto
  then obtain l1 l2 where m: "meLoops st = [l1, l2]" "head l1 = 2" "head l2 = 3" "nestDepth l2 = 1" by (auto simp: map_eq_Cons_conv)
  have "nestDepth (meLoops st ! 1) =
      word_of_nat (card {j. j < length (meLoops st) \<and> j \<noteq> 1 \<and> head (meLoops st ! 1) \<in> set (loopBBs (meLoops st ! j))})"
    using loop_nesting [OF nested_graph d, of 1 0] m by (simp add: nested_graph_def)
  then show ?thesis using d m by (simp add: numeral_2_eq_2)
qed

text \<open>Two back edges to block 2, from 3 and from 4: the loop of the second has the loop of the first as its parent, which does not hold it.\<close>

definition two_edges_graph :: "MeBB option list" where
  "two_edges_graph =
     [Some (kind_block kBBUnknown [6] [] 0), Some (kind_block kBBUnknown [] [5] 0),
      Some (kind_block kBBCondGoto [3, 4] [6, 3, 4] 0), Some (kind_block kBBGoto [2] [2] 0),
      Some (kind_block kBBCondGoto [5, 2] [2] 0), Some (kind_block kBBReturn [] [4] kBBAttrIsExit), Some (kind_block kBBFallthru [2] [] 0)]"

theorem two_back_edges_parent:
  "wf_cfg two_edges_graph 0 1 \<and> exits_ok two_edges_graph 0 1 \<and>
   map_option fst (loops_found two_edges_graph) = Some [(2, 3, [2, 3], None, 0), (2, 4, [2, 4], Some 0, 1)]"
proof (intro conjI)
  show "wf_cfg two_edges_graph 0 1" by code_simp
  show "exits_ok two_edges_graph 0 1" by code_simp
  show "map_option fst (loops_found two_edges_graph) = Some [(2, 3, [2, 3], None, 0), (2, 4, [2, 4], Some 0, 1)]" by code_simp
qed

section \<open>Exits\<close>

text \<open>(C22) \<^verbatim>\<open>InsertExitBB\<close> ends for every loop found. It stops the compiler if and only if a block of the loop ends with a
  return or is a conditional jump with one successor; otherwise it records, for exactly the
  blocks with a successor outside, each of these once, and returns whether
  the blocks behind the loop are entered from the loop only.\<close>

theorem InsertExitBB_exits:
  assumes "wf_cfg v entry exit" and "exits_ok v entry exit" and "MeDoDominance v entry exit = Some d"
    and "ProcessBB d entry (new_IdentifyLoops (length v)) = Some st" and "l \<in> set (meLoops st)"
  shows "if \<exists>b\<in>set (loopBBs l). \<exists>x. bb_at v b = Some x \<and>
        (if kind x = kBBCondGoto then length (succ x) = 1 else stmtNodeList x \<noteq> [] \<and> last (stmtNodeList x) = opReturn)
    then InsertExitBB v l = Inl (CheckFatal ''return bb'')
    else \<exists>m. InsertExitBB v l = Inr (l\<lparr>inloopBB2exitBBs := m\<rparr>,
        (\<forall>b\<in>set (loopBBs l). \<forall>s\<in>set (succs_of v b) - set (loopBBs l). set (preds_of v s) \<subseteq> set (loopBBs l))) \<and>
      sorted_wrt (<) (map fst m) \<and>
      (\<forall>b xs. (b, xs) \<in> set m \<longleftrightarrow> map_of m b = Some xs) \<and>
      (\<forall>b. map_of m b = None \<longleftrightarrow> b \<notin> set (loopBBs l) \<or> set (succs_of v b) \<subseteq> set (loopBBs l)) \<and>
      (\<forall>b xs. map_of m b = Some xs \<longrightarrow> distinct xs \<and> set xs = set (succs_of v b) - set (loopBBs l))"
proof -
  note ph = phase_ofI [OF assms(1-3)]
  obtain i where i: "i < length (meLoops st)" "meLoops st ! i = l" using assms(5) by (meson in_set_conv_nth)
  note fl = found_loop(1,2) [OF ph processed [OF ph assms(4)] i(1), unfolded i(2)]
  note s = InsertExitBB_spec [OF ph fl]
  have ex: "exits_of v L b = set (succs_of v b) - L" for L b by (auto simp: exits_of_def)
  show ?thesis
  proof (cases "\<exists>b\<in>set (loopBBs l). returns_at v b")
    case True
    then show ?thesis unfolding returns_bb_def [symmetric] using s unfolding returns_at_def by simp
  next
    case False
    then obtain m where m: "InsertExitBB v l = Inr (l\<lparr>inloopBB2exitBBs := m\<rparr>, exits_closed v l)" "exits_known v (l\<lparr>inloopBB2exitBBs := m\<rparr>)"
      using s by auto
    have k: "keyed m" and le: "\<And>b. listed_exits (map_of m b) (if b \<in> set (loopBBs l) then set (succs_of v b) - set (loopBBs l) else {})"
      using m(2) unfolding exits_known_def ex by (auto split: if_splits)
    have "map_of m b = None \<longleftrightarrow> b \<notin> set (loopBBs l) \<or> set (succs_of v b) \<subseteq> set (loopBBs l)" for b
      using le [of b] by (auto simp: listed_exits_def split: option.splits if_splits)
    moreover have "distinct xs \<and> set xs = set (succs_of v b) - set (loopBBs l)" if "map_of m b = Some xs" for b xs
      using le [of b] that by (auto simp: listed_exits_def split: if_splits)
    moreover have "exits_closed v l = (\<forall>b\<in>set (loopBBs l). \<forall>s\<in>set (succs_of v b) - set (loopBBs l). set (preds_of v s) \<subseteq> set (loopBBs l))"
      unfolding exits_closed_def ex ..
    moreover have "\<not> (\<exists>b\<in>set (loopBBs l). \<exists>x. bb_at v b = Some x \<and> returns_bb x)" using False unfolding returns_at_def .
    ultimately show ?thesis unfolding returns_bb_def [symmetric] using m(1) keyed_map_of [OF k] k [unfolded keyed_def] by (simp only: if_False) blast
  qed
qed

theorem InsertExitBB_exits_witness:
  "\<exists>d st l m. MeDoDominance nested_graph 0 1 = Some d \<and> ProcessBB d 0 (new_IdentifyLoops (length nested_graph)) = Some st \<and>
    l \<in> set (meLoops st) \<and> InsertExitBB nested_graph l = Inr (l\<lparr>inloopBB2exitBBs := m\<rparr>, True) \<and> map_of m 5 = Some [6]"
proof -
  obtain d st where d: "MeDoDominance nested_graph 0 1 = Some d" "ProcessBB d 0 (new_IdentifyLoops (length nested_graph)) = Some st"
      and l: "map (\<lambda>l. (head l, tail l, loopBBs l, parent l, nestDepth l)) (meLoops st) = [(2, 5, [2, 3, 4, 5], None, 0), (3, 4, [3, 4], Some 0, 1)]"
    using loops_foundD [OF nested_loops] by auto
  then obtain l1 l2 where m: "meLoops st = [l1, l2]" "loopBBs l1 = [2, 3, 4, 5]" by (auto simp: map_eq_Cons_conv)
  have s: "succs_of nested_graph 2 = [3]" "succs_of nested_graph 3 = [4]" "succs_of nested_graph 4 = [5, 3]" "succs_of nested_graph 5 = [6, 2]"
      "preds_of nested_graph 6 = [5]" by code_simp+
  have c: "\<not> (\<exists>b\<in>set [2, 3, 4, 5 :: nat]. \<exists>x. bb_at nested_graph b = Some x \<and> returns_bb x)"
      "\<forall>b\<in>set [2, 3, 4, 5]. \<forall>s\<in>set (succs_of nested_graph b) - set [2, 3, 4, 5]. set (preds_of nested_graph s) \<subseteq> set [2, 3, 4, 5]"
    by (simp add: nested_graph_def kind_block_def graph_block_def new_MeBB_def bb_at_def returns_bb_def, auto simp: s)
  have "l1 \<in> set (meLoops st)" using m(1) by simp
  from InsertExitBB_exits [OF nested_graph d this, folded returns_bb_def, unfolded m(2) if_not_P [OF c(1)] eqTrueI [OF c(2)]]
  obtain e where e: "InsertExitBB nested_graph l1 = Inr (l1\<lparr>inloopBB2exitBBs := e\<rparr>, True)"
      "\<forall>b. map_of e b = None \<longleftrightarrow> b \<notin> set [2, 3, 4, 5] \<or> set (succs_of nested_graph b) \<subseteq> set [2, 3, 4, 5]"
      "\<forall>b xs. map_of e b = Some xs \<longrightarrow> distinct xs \<and> set xs = set (succs_of nested_graph b) - set [2, 3, 4, 5]"
    by blast
  have "map_of e 5 \<noteq> None" using e(2) s(4) by simp
  then obtain xs where xs: "map_of e 5 = Some xs" by blast
  then have dx: "distinct xs" and sx: "set xs = set (succs_of nested_graph 5) - set [2, 3, 4, 5]" using e(3) by blast+
  have "set xs = {6}" unfolding sx s(4) by (simp add: insert_Diff_if)
  moreover from this have "length xs = 1" using distinct_card [OF dx] by simp
  ultimately have "xs = [6]" by (cases xs) simp_all
  then have "map_of e 5 = Some [6]" using xs by simp
  moreover have "l1 \<in> set (meLoops st)" using m(1) by simp
  ultimately show ?thesis using d e(1) by blast
qed

section \<open>Canonical loops\<close>

text \<open>(C15) In the result of the phase, control enters a loop marked canonical only at its head, from the recorded preheader or
  from the common entry; the recorded latch is the tail; the blocks behind the loop
  are entered from the loop only; and no block of the loop is in a try.\<close>

theorem canonical_loops:
  assumes "wf_cfg v entry exit" and "exits_ok v entry exit" and "MeDoDominance v entry exit = Some d"
    and "MeDoMeLoop d bbLabel addrTakenLabels = Inr st" and "l \<in> set (meLoops st)" and "isCanonicalLoop l"
  shows "\<exists>q. preheader l = Some q \<and> q \<notin> set (loopBBs l) \<and> latch l = Some (tail l) \<and>
    (\<forall>b\<in>set (loopBBs l). \<forall>y. cfg_edge v y b \<longrightarrow> y \<notin> set (loopBBs l) \<longrightarrow> b = head l \<and> (y = q \<or> y = entry)) \<and>
    (\<forall>b\<in>set (loopBBs l). \<forall>s\<in>set (succs_of v b) - set (loopBBs l). set (preds_of v s) \<subseteq> set (loopBBs l)) \<and>
    (\<forall>b\<in>set (loopBBs l). \<forall>x. bb_at v b = Some x \<longrightarrow> \<not> GetAttributes x kBBAttrIsTry) \<and>
    bbLabel (head l) \<notin> set addrTakenLabels"
proof -
  note ph = phase_ofI [OF assms(1-3)]
  note fields = phase_fields(1,2) [OF ph]
  obtain st0 where st0: "ProcessBB d entry (new_IdentifyLoops (length v)) = Some st0" "found v (back_edges d (dtPreOrder d)) st0"
    using ProcessBB_found [OF ph] by blast
  obtain ls1 where ls1: "each_loop (set_try v) (meLoops st0) = Inr ls1"
    using assms(4) st0(1) unfolding MeDoMeLoop_def fields SetTryBB_def by (cases "each_loop (set_try v) (meLoops st0)") simp_all
  let ?igoto = "\<lambda>l. if bbLabel (head l) \<in> set addrTakenLabels then l\<lparr>hasIgotoBB := True\<rparr> else l"
  obtain ls2 where ls2: "each_loop (canonical_loop v entry) (map ?igoto ls1) = Inr ls2" "meLoops st = ls2"
    using assms(4) st0(1) ls1 unfolding MeDoMeLoop_def fields SetTryBB_def SetIGotoBB_def
    by (cases "each_loop (canonical_loop v entry) (map ?igoto ls1)") (auto simp: Let_def)
  obtain i where i: "i < length (meLoops st0)" "ls2 ! i = l"
    using assms(5) each_loop_nth [OF ls1] each_loop_nth [OF ls2(1)] unfolding ls2(2) by (metis in_set_conv_nth length_map)
  let ?l0 = "meLoops st0 ! i" let ?l1 = "ls1 ! i" let ?l2 = "?igoto ?l1"
  note fl = found_loop(1,2,5) [OF ph st0(2) i(1)]
  have "set_try v ?l0 = Inr ?l1" using each_loop_nth [OF ls1] i(1) by simp
  then obtain t where t: "?l1 = ?l0\<lparr>hasTryBB := t\<rparr>"
      "\<not> t \<Longrightarrow> \<forall>x\<in>set (loopBBs ?l0). \<forall>bb. bb_at v x = Some bb \<longrightarrow> \<not> GetAttributes bb kBBAttrIsTry"
    using set_try_spec [of v ?l0 ?l1] by blast
  have same: "head ?l2 = head ?l0" "tail ?l2 = tail ?l0" "loopBBs ?l2 = loopBBs ?l0" "inloopBB2exitBBs ?l2 = inloopBB2exitBBs ?l0"
      "isCanonicalLoop ?l2 = isCanonicalLoop ?l0" "hasTryBB ?l2 = t"
      "hasIgotoBB ?l2 \<longleftrightarrow> bbLabel (head ?l0) \<in> set addrTakenLabels \<or> hasIgotoBB ?l0"
    unfolding t(1) by simp_all
  have loc: "located v (head ?l0) (tail ?l0) ?l2" using fl(2) unfolding located_def same .
  have nc: "\<not> isCanonicalLoop ?l2" unfolding same by (rule fl(3))
  have "canonical_loop v entry ?l2 = Inr l" using each_loop_nth [OF ls2(1)] each_loop_nth [OF ls1] i by simp
  from canonical_loop_spec [OF ph fl(1) loc nc this assms(6)]
  obtain m q s where l: "l = ?l2\<lparr>inloopBB2exitBBs := m, preheader := Some q, latch := Some s, isCanonicalLoop := True\<rparr>"
      and e: "entered_by v entry ?l2 q s" and x: "exits_closed v ?l2" "\<not> hasTryBB ?l2" "\<not> hasIgotoBB ?l2"
    unfolding canonical_ok_def by blast
  have lf: "head l = head ?l0" "tail l = tail ?l0" "loopBBs l = loopBBs ?l0" "preheader l = Some q" "latch l = Some s"
    using same unfolding l by simp_all
  have xc: "\<forall>b\<in>set (loopBBs l). \<forall>s\<in>set (succs_of v b) - set (loopBBs l). set (preds_of v s) \<subseteq> set (loopBBs l)"
    using x(1) unfolding exits_closed_def exits_of_def same lf(3) by blast
  show ?thesis
    using canonical_entry [OF ph fl(1) loc e] t(2) x(2,3) xc unfolding same lf by (intro exI [of _ q]) blast
qed

text \<open>The heads, tails, preheaders and marks after the phase.\<close>

definition marks_found :: "MeBB option list \<Rightarrow> (BBId \<times> BBId \<times> BBId option \<times> bool) list option" where
  "marks_found v = Option.bind (MeDoDominance v 0 1) (\<lambda>d. case MeDoMeLoop d (\<lambda>b. 0) [] of
     Inl e \<Rightarrow> None | Inr st \<Rightarrow> Some (map (\<lambda>l. (head l, tail l, preheader l, isCanonicalLoop l)) (meLoops st)))"

theorem canonical_loops_witness:
  "\<exists>d st l. MeDoDominance nested_graph 0 1 = Some d \<and> MeDoMeLoop d (\<lambda>b. 0) [] = Inr st \<and> l \<in> set (meLoops st) \<and>
    head l = 3 \<and> latch l = Some 4 \<and> preheader l = Some 2"
proof -
  have "marks_found nested_graph = Some [(2, 5, Some 0, True), (3, 4, Some 2, True)]" by code_simp
  then obtain d st where d: "MeDoDominance nested_graph 0 1 = Some d" "MeDoMeLoop d (\<lambda>b. 0) [] = Inr st"
      and l: "map (\<lambda>l. (head l, tail l, preheader l, isCanonicalLoop l)) (meLoops st) = [(2, 5, Some 0, True), (3, 4, Some 2, True)]"
    unfolding marks_found_def by (auto split: bind_splits sum.splits)
  then obtain l1 l2 where m: "meLoops st = [l1, l2]" "head l2 = 3" "tail l2 = 4" "preheader l2 = Some 2" "isCanonicalLoop l2"
    by (auto simp: map_eq_Cons_conv)
  have "l2 \<in> set (meLoops st)" using m(1) by simp
  then have "latch l2 = Some (tail l2)" using canonical_loops [OF nested_graph d] m(5) by blast
  then show ?thesis using d m by auto
qed

text \<open>The first block of the function is the head of two loops: each is entered from the common entry, but the
  preheader of the canonical one is the latch of the other.\<close>

definition entry_loops_graph :: "MeBB option list" where
  "entry_loops_graph =
     [Some (kind_block kBBUnknown [2] [] 0), Some (kind_block kBBUnknown [] [5] 0),
      Some (kind_block kBBCondGoto [3, 4] [3, 4] 0), Some (kind_block kBBCondGoto [5, 2] [2] 0),
      Some (kind_block kBBFallthru [2] [2] 0), Some (kind_block kBBReturn [] [3] kBBAttrIsExit)]"

theorem entry_loop_preheader:
  "wf_cfg entry_loops_graph 0 1 \<and> exits_ok entry_loops_graph 0 1 \<and>
   marks_found entry_loops_graph = Some [(2, 3, Some 4, True), (2, 4, Some 3, False)]"
proof (intro conjI)
  show "wf_cfg entry_loops_graph 0 1" by code_simp
  show "exits_ok entry_loops_graph 0 1" by code_simp
  show "marks_found entry_loops_graph = Some [(2, 3, Some 4, True), (2, 4, Some 3, False)]" by code_simp
qed

text \<open>Both successors of the head are in the loop, and \<^verbatim>\<open>exitBB\<close> is the second of them.\<close>

theorem SetExitBB_inside:
  "map_option (\<lambda>st. map (\<lambda>l. (exitBB l, loopBBs l)) (meLoops st))
     (Option.bind (MeDoDominance loop_graph 0 1) (\<lambda>d. ProcessBB d 0 (new_IdentifyLoops (length loop_graph)))) =
   Some [(Some 4, [2, 3, 4, 5])]"
  by code_simp

end
