(* ===== verification/WordBits.thy ===== *)
theory WordBits
  imports Prelude
begin

unbundle bit_operations_syntax

text \<open>Masks and marks of bytes as bits, shared by the string and number codecs.\<close>

lemma masks:
  "0x3F = (mask 6 :: 'a::len word)" "0x1F = (mask 5 :: 'a::len word)" "0xF = (mask 4 :: 'a::len word)" "0x7 = (mask 3 :: 'a::len word)"
  "0x3FF = (mask 10 :: 'a::len word)" "0xFF = (mask 8 :: 'a word)"
  by (simp_all add: mask_eq_exp_minus_1)

lemma mark_bits:
  "bit (0x80 :: int) n \<longleftrightarrow> n = 7"
  "bit (0xC0 :: int) n \<longleftrightarrow> 6 \<le> n \<and> n < 8"
  "bit (0xE0 :: int) n \<longleftrightarrow> 5 \<le> n \<and> n < 8"
  "bit (0xF0 :: int) n \<longleftrightarrow> 4 \<le> n \<and> n < 8"
  "bit (0xFF00 :: int) n \<longleftrightarrow> 8 \<le> n \<and> n < 16"
  "bit (0xFF :: int) n \<longleftrightarrow> n < 8" "bit (0x7F :: int) n \<longleftrightarrow> n < 7"
proof -
  have "(0x80 :: int) = push_bit 7 (mask 1)" "(0xC0 :: int) = push_bit 6 (mask 2)" "(0xE0 :: int) = push_bit 5 (mask 3)"
    "(0xF0 :: int) = push_bit 4 (mask 4)" "(0xFF00 :: int) = push_bit 8 (mask 8)" "(0xFF :: int) = mask 8" "(0x7F :: int) = mask 7"
    by (simp_all add: mask_eq_exp_minus_1 push_bit_eq_mult)
  note e = this [THEN arg_cong, of "\<lambda>w. bit w n"]
  show "bit (0x80 :: int) n \<longleftrightarrow> n = 7"
    "bit (0xC0 :: int) n \<longleftrightarrow> 6 \<le> n \<and> n < 8"
    "bit (0xE0 :: int) n \<longleftrightarrow> 5 \<le> n \<and> n < 8"
    "bit (0xF0 :: int) n \<longleftrightarrow> 4 \<le> n \<and> n < 8"
    "bit (0xFF00 :: int) n \<longleftrightarrow> 8 \<le> n \<and> n < 16" "bit (0xFF :: int) n \<longleftrightarrow> n < 8" "bit (0x7F :: int) n \<longleftrightarrow> n < 7"
    unfolding e by (auto simp only: bit_push_bit_iff bit_mask_iff possible_bit_int HOL.simp_thms)
qed

lemma small_bits:
  fixes c :: "'a::len word"
  assumes "c < 2 ^ k" and "k < LENGTH('a)"
  shows "bit c n \<Longrightarrow> n < k"
proof -
  have "unat (2 ^ k :: 'a word) = unat (word_of_nat (2 ^ k) :: 'a word)" by simp
  also have "\<dots> = 2 ^ k" unfolding unsigned_of_nat using assms(2) by (simp add: take_bit_nat_eq_self)
  finally have "unat c < 2 ^ k" using assms(1) by (simp add: word_less_nat_alt)
  then have "take_bit k c = c" by (simp add: word_unat_eq_iff unsigned_take_bit_eq take_bit_nat_eq_self)
  then show "bit c n \<Longrightarrow> n < k" by (metis bit_take_bit_iff)
qed

lemma mark_or:
  fixes x m :: "'a::len word"
  assumes "x < 2 ^ k" and "k < LENGTH('a)" and "take_bit k m = 0"
  shows "m + x = m OR x"
proof (rule disjunctive_add_eq_or, rule bit_word_eqI)
  fix n show "bit (m AND x) n = bit 0 n"
    using small_bits [OF assms(1,2), of n] assms(3) by (auto simp: bit_and_iff bit_take_bit_iff dest!: arg_cong [of _ _ "\<lambda>w. bit w n"])
qed

lemma mark_or_mask: "k < LENGTH('a) \<Longrightarrow> take_bit k m = 0 \<Longrightarrow> m + (x AND mask k) = m OR (x AND mask k)" for m x :: "'a::len word"
  by (rule disjunctive_add_eq_or) (metis and.assoc and.commute and_zero_eq take_bit_eq_mask)

lemma unat_drop_bit: "unat (drop_bit k v) = unat v div 2 ^ k" for v :: "'a::len word"
  by (simp only: unat_drop_bit_eq drop_bit_eq_div [where 'a = nat])

lemma unat_zero: "unat v = 0 \<longleftrightarrow> v = 0" for v :: "'a::len word"
  by (simp add: unsigned_eq_0_iff)

end
