(* ===== verification/NameLeb.thy ===== *)
theory NameLeb
  imports WordBits
begin

unbundle bit_operations_syntax

text \<open>
  The LEB128 routines of \<^verbatim>\<open>maple_util/src/namemangler.cpp\<close>: variable-length numbers as a
  vector of bytes, packed into one word, and their sizes.
\<close>

section \<open>Model\<close>

function GetUnsignedLeb128Encode :: "uint8 list \<Rightarrow> uint32 \<Rightarrow> uint8 list" where
  "GetUnsignedLeb128Encode dest val =
     (let byte = ucast (val AND 0x7F) :: uint8; val = drop_bit 7 val in
      if val = 0 then dest @ [byte] else GetUnsignedLeb128Encode (dest @ [byte OR 0x80]) val)"
  by pat_completeness auto
termination
proof (relation "measure (\<lambda>(dest, val). unat val)")
  fix val val' :: uint32
  assume v: "val' = drop_bit 7 val" and n: "val' \<noteq> 0"
  have "unat val' = unat val div 128" unfolding v unat_drop_bit by simp
  moreover have "unat val' \<noteq> 0" using n unfolding unat_zero .
  ultimately show "((dest @ [byte OR 0x80], val'), dest, val) \<in> measure (\<lambda>(dest, val). unat val)" for dest byte by simp
qed simp

text \<open>The shift of an \<^verbatim>\<open>int\<close> out of the range of the unsigned type is undefined.\<close>

fun unsigned_leb128_loop :: "uint8 list \<Rightarrow> nat \<Rightarrow> uint32 \<Rightarrow> (uint32 \<times> uint8 list) result" where
  "unsigned_leb128_loop [] shift res = Inl (Undefined ''read behind the data'')"
| "unsigned_leb128_loop (byte # ptr) shift res =
     (if 32 \<le> shift \<or> 2 ^ 32 \<le> unat (byte AND 0x7F) * 2 ^ shift then Inl (Undefined ''shift'')
      else let res = res OR push_bit shift (ucast (byte AND 0x7F))
           in if byte AND 0x80 = 0 then Inr (res, ptr) else unsigned_leb128_loop ptr (shift + 7) res)"

definition GetUnsignedLeb128Decode :: "uint8 list \<Rightarrow> (uint32 \<times> uint8 list) result" where
  "GetUnsignedLeb128Decode data = unsigned_leb128_loop data 0 0"

function leb128_loop :: "int64 \<Rightarrow> bool \<Rightarrow> nat \<Rightarrow> uint64 \<Rightarrow> uint64 result" where
  "leb128_loop val isUnsigned count res =
     (let byte = ucast (val AND 0x7F) :: uint8;
          val = signed_drop_bit 7 val;
          done = (if isUnsigned then val = 0 else val = 0 \<or> val = -1);
          byte = (if done then byte else byte OR 0x80)
      in if 64 \<le> 8 * count then Inl (Undefined ''shift'')
         else let res = res OR push_bit (8 * count) (ucast byte)
              in if done then Inr res else leb128_loop val isUnsigned (Suc count) res)"
  by pat_completeness auto
termination by (relation "measure (\<lambda>(val, isUnsigned, count, res). 8 - count)") auto

definition GetLEB128Encode :: "int64 \<Rightarrow> bool \<Rightarrow> uint64 result" where
  "GetLEB128Encode val isUnsigned = leb128_loop val isUnsigned 0 0"

definition GetUleb128Encode :: "uint64 \<Rightarrow> uint64 result" where
  "GetUleb128Encode val = GetLEB128Encode val True"

definition GetSleb128Encode :: "int64 \<Rightarrow> uint64 result" where
  "GetSleb128Encode val = GetLEB128Encode val False"

definition GetUleb128Decode :: "uint64 \<Rightarrow> uint64" where "GetUleb128Decode val = val"

definition GetSleb128Decode :: "uint64 \<Rightarrow> int64" where "GetSleb128Decode val = val"

text \<open>\<^verbatim>\<open>__builtin_clzll\<close>, which is undefined at zero.\<close>

definition clzll :: "uint64 \<Rightarrow> nat result" where
  "clzll v = (if v = 0 then Inl (Undefined ''clzll'') else Inr (length (takeWhile (\<lambda>i. \<not> bit v i) (rev [0..<64]))))"

definition GetUleb128Size :: "uint64 \<Rightarrow> nat result" where
  "GetUleb128Size v = bind_result (clzll v) (\<lambda>clz. Inr ((64 - clz + 6) div 7))"

partial_function (option) sleb128_size_loop :: "int32 \<Rightarrow> int32 \<Rightarrow> int32 \<Rightarrow> nat \<Rightarrow> nat option" where
  "sleb128_size_loop end rem v sz =
     (let hasMore = (rem \<noteq> end \<or> (rem AND 1) \<noteq> (signed_drop_bit 6 v AND 1)) in
      if hasMore then sleb128_size_loop end (signed_drop_bit 7 rem) rem (Suc sz) else Some (Suc sz))"

definition GetSleb128Size :: "int32 \<Rightarrow> nat option" where
  "GetSleb128Size v = sleb128_size_loop (if 0 \<le> sint v then 0 else -1) (signed_drop_bit 7 v) v 0"

declare GetUnsignedLeb128Encode.simps [simp del] leb128_loop.simps [simp del]

section \<open>A vector of bytes\<close>

lemma unat_drop_7: "unat (drop_bit 7 v) = unat v div 128" for v :: uint32
  unfolding unat_drop_bit by simp

lemma Encode_dest: "GetUnsignedLeb128Encode dest v = dest @ GetUnsignedLeb128Encode [] v"
proof (induction "unat v" arbitrary: dest v rule: less_induct)
  case less
  show ?case
  proof (cases "drop_bit 7 v = 0")
    case False
    then have "unat (drop_bit 7 v) \<noteq> 0" unfolding unat_zero .
    then have "unat (drop_bit 7 v) < unat v" unfolding unat_drop_7 by (intro div_less_dividend) auto
    note ih = less [OF this]
    show ?thesis using False ih [of "dest @ [ucast (v AND 0x7F) OR 0x80]"] ih [of "[ucast (v AND 0x7F) OR 0x80]"]
      by (subst (1 2) GetUnsignedLeb128Encode.simps) (simp add: Let_def)
  qed (subst (1 2) GetUnsignedLeb128Encode.simps, simp)
qed

lemma byte_marks:
  fixes v :: uint32
  shows "(ucast (v AND 0x7F) :: uint8) AND 0x7F = ucast (v AND 0x7F)" "((ucast (v AND 0x7F) :: uint8) OR 0x80) AND 0x7F = ucast (v AND 0x7F)"
    "(ucast (v AND 0x7F) :: uint8) AND 0x80 = 0" "((ucast (v AND 0x7F) :: uint8) OR 0x80) AND 0x80 = 0x80"
    "ucast (ucast (v AND 0x7F) :: uint8) = v AND 0x7F"
  by (auto intro!: bit_word_eqI simp: bit_simps mark_bits)

lemma unat_low7: "unat (ucast (v AND 0x7F) :: uint8) = unat v mod 128" for v :: uint32
proof -
  have m: "0x7F = (mask 7 :: uint32)" by (simp add: mask_eq_exp_minus_1)
  show ?thesis unfolding m take_bit_eq_mask [symmetric] by (simp add: unsigned_ucast_eq unsigned_take_bit_eq) (simp add: take_bit_eq_mod)
qed

lemma join7: "push_bit k (v AND 0x7F) OR push_bit (k + 7) (drop_bit 7 v) = push_bit k v" for v :: uint32
proof (rule bit_word_eqI)
  fix n
  show "bit (push_bit k (v AND 0x7F) OR push_bit (k + 7) (drop_bit 7 v)) n = bit (push_bit k v) n"
    by (cases "n < k + 7") (auto simp: bit_simps mark_bits)
qed

lemma loop_Encode:
  assumes "unat v * 2 ^ shift < 2 ^ 32" and "shift < 32"
  shows "unsigned_leb128_loop (GetUnsignedLeb128Encode [] v @ rest) shift res = Inr (res OR push_bit shift v, rest)"
  using assms
proof (induction "unat v" arbitrary: v shift res rule: less_induct)
  case less
  have "(unat v mod 128) * 2 ^ shift \<le> unat v * 2 ^ shift" by simp
  then have ok: "\<not> 2 ^ 32 \<le> unat (ucast (v AND 0x7F) :: uint8) * 2 ^ shift" unfolding unat_low7 using less.prems(1) by linarith
  show ?case
  proof (cases "drop_bit 7 v = 0")
    case True
    then have "v AND 0x7F = v" using join7 [of 0 v] by simp
    then show ?thesis using True ok less.prems(2) byte_marks [of v] by (subst GetUnsignedLeb128Encode.simps) (simp add: Let_def)
  next
    case False
    let ?w = "drop_bit 7 v"
    have "unat ?w \<noteq> 0" using False unfolding unat_zero .
    then have big: "128 \<le> unat v" and lt: "unat ?w < unat v" unfolding unat_drop_7 by auto
    have "(2 :: nat) ^ (shift + 7) = 128 * 2 ^ shift" by (simp add: power_add)
    also have "\<dots> \<le> unat v * 2 ^ shift" using big by (intro mult_right_mono) simp_all
    finally have "(2 :: nat) ^ (shift + 7) < 2 ^ 32" using less.prems(1) by (rule order_le_less_trans)
    then have s: "shift + 7 < 32" using power_strict_increasing_iff [of "2 :: nat" "shift + 7" 32] by simp
    have "unat ?w * 2 ^ (shift + 7) = (unat v div 128 * 128) * 2 ^ shift" unfolding unat_drop_7 by (simp add: power_add)
    also have "\<dots> \<le> unat v * 2 ^ shift" by (intro mult_right_mono) simp_all
    finally have u: "unat ?w * 2 ^ (shift + 7) < 2 ^ 32" using less.prems(1) by linarith
    have "unsigned_leb128_loop (GetUnsignedLeb128Encode [] ?w @ rest) (shift + 7) (res OR push_bit shift (v AND 0x7F)) =
        Inr ((res OR push_bit shift (v AND 0x7F)) OR push_bit (shift + 7) ?w, rest)"
      by (rule less.hyps [OF lt u s])
    moreover have "(res OR push_bit shift (v AND 0x7F)) OR push_bit (shift + 7) ?w = res OR push_bit shift v"
      unfolding or.assoc join7 ..
    moreover have "GetUnsignedLeb128Encode [] v = (ucast (v AND 0x7F) OR 0x80) # GetUnsignedLeb128Encode [] ?w"
      using False by (subst GetUnsignedLeb128Encode.simps) (simp add: Let_def Encode_dest [of "[_]"])
    ultimately show ?thesis using ok less.prems(2) byte_marks [of v] by (simp add: Let_def)
  qed
qed

text \<open>(C34) \<^verbatim>\<open>GetUnsignedLeb128Decode\<close> reads back the number that \<^verbatim>\<open>GetUnsignedLeb128Encode\<close> appended, and stops right
  behind it.\<close>

theorem UnsignedLeb128_roundtrip:
  "\<exists>bytes. GetUnsignedLeb128Encode dest v = dest @ bytes \<and> GetUnsignedLeb128Decode (bytes @ rest) = Inr (v, rest)"
proof -
  have "unat v * 2 ^ 0 < 2 ^ 32" using unsigned_less [of v] by simp
  then have "GetUnsignedLeb128Decode (GetUnsignedLeb128Encode [] v @ rest) = Inr (v, rest)"
    using loop_Encode [of v 0 rest 0] by (simp add: GetUnsignedLeb128Decode_def)
  then show ?thesis using Encode_dest [of dest v] by blast
qed

section \<open>Packed into a word\<close>

text \<open>The bytes of a word, lowest first, and the number that they encode without sign.\<close>

definition word_bytes :: "uint64 \<Rightarrow> uint8 list" where
  "word_bytes r = map (\<lambda>i. ucast (drop_bit (8 * i) r)) [0..<8]"

fun uleb_value :: "uint8 list \<Rightarrow> int" where
  "uleb_value [] = 0"
| "uleb_value (b # bs) = (if b < 0x80 then uint b else uint b - 128 + 128 * uleb_value bs)"

lemma packed:
  fixes res :: uint64
  assumes "take_bit (8 * c) res = res" and "c < 8"
  shows "ucast (drop_bit (8 * c) (res OR push_bit (8 * c) (ucast (b :: uint8)))) = b"
    and "take_bit (8 * Suc c) (res OR push_bit (8 * c) (ucast b)) = res OR push_bit (8 * c) (ucast b)"
    and "take_bit (8 * c) (res OR push_bit (8 * c) (ucast b)) = res"
proof -
  have hi: "\<not> bit res (8 * c + n)" for n using arg_cong [OF assms(1), of "\<lambda>w. bit w (8 * c + n)"] by (simp add: bit_simps)
  have lo: "bit res n \<Longrightarrow> n < 8 * c" for n using arg_cong [OF assms(1), of "\<lambda>w. bit w n"] by (simp add: bit_simps)
  have "8 * c + n < 64" if "n < 8" for n using that assms(2) by linarith
  then show "ucast (drop_bit (8 * c) (res OR push_bit (8 * c) (ucast b))) = b"
    by (intro bit_word_eqI) (auto simp: bit_simps hi dest: bit_imp_le_length)
  have b: "bit b n \<Longrightarrow> n < 8" for n using bit_imp_le_length [of b n] by simp
  have up: "bit res n \<Longrightarrow> n < 8 * Suc c" "8 * c \<le> n \<Longrightarrow> bit b (n - 8 * c) \<Longrightarrow> n < 8 * Suc c" for n
    using lo [of n] b [of "n - 8 * c"] by auto
  show "take_bit (8 * Suc c) (res OR push_bit (8 * c) (ucast b)) = res OR push_bit (8 * c) (ucast b)"
    by (rule bit_word_eqI) (use up in \<open>auto simp: bit_simps simp del: mult_Suc_right\<close>)
  show "take_bit (8 * c) (res OR push_bit (8 * c) (ucast b)) = res"
    by (rule bit_word_eqI) (auto simp: bit_simps dest: lo)
qed

lemma low7_int: "uint (ucast (v AND 0x7F) :: uint8) = sint v mod 128" for v :: int64
proof -
  have m: "0x7F = (mask 7 :: int64)" by (simp add: mask_eq_exp_minus_1)
  have "uint (ucast (v AND 0x7F) :: uint8) = uint v mod 128"
    unfolding m take_bit_eq_mask [symmetric] by (simp add: unsigned_ucast_eq unsigned_take_bit_eq) (simp add: take_bit_eq_mod)
  also have "\<dots> = take_bit 7 (uint v)" by (simp add: take_bit_eq_mod)
  also have "\<dots> = take_bit 7 (sint v)" by (simp add: sint_uint take_bit_signed_take_bit)
  finally show ?thesis by (simp add: take_bit_eq_mod)
qed

lemma sint_inject: "sint x = sint y \<longleftrightarrow> x = y" for x y :: "'a::len word"
  by (metis signed_word_eqI)

lemma sint_drop_7: "sint (signed_drop_bit 7 v) = sint v div 128" for v :: int64
  by (simp add: sint_signed_drop_bit_eq drop_bit_eq_div)

lemma high_byte: "b < 0x80 \<Longrightarrow> uint (b OR 0x80) = uint b + 128 \<and> \<not> b OR 0x80 < 0x80" for b :: uint8
proof -
  assume b: "b < 0x80"
  have "b OR 0x80 = 0x80 + b" using mark_or [of b 7 "0x80"] b by (simp add: or.commute)
  then have "uint (b OR 0x80) = uint b + 128" using b by (simp add: uint_word_ariths word_less_def)
  then show ?thesis by (simp add: word_less_def)
qed

lemma uleb_loop:
  assumes "c \<le> 8" and "take_bit (8 * c) res = res"
  shows "case leb128_loop v True c res of
      Inr r \<Rightarrow> 0 \<le> sint v \<and> sint v < 2 ^ (7 * (8 - c)) \<and> take_bit (8 * c) r = res \<and> uleb_value (drop c (word_bytes r)) = sint v
    | Inl e \<Rightarrow> \<not> (0 \<le> sint v \<and> sint v < 2 ^ (7 * (8 - c)) \<and> c < 8)"
  using assms
proof (induction "8 - c" arbitrary: c v res)
  case 0
  then show ?case by (subst leb128_loop.simps) (simp add: Let_def)
next
  case (Suc k)
  then have c: "c < 8" and k: "8 - c = Suc k" "8 - Suc c = k" by simp_all
  let ?b = "ucast (v AND 0x7F) :: uint8"
  have byte: "uint ?b = sint v mod 128" by (rule low7_int)
  have nth: "drop c (word_bytes r) = ucast (drop_bit (8 * c) r) # drop (Suc c) (word_bytes r)" for r
    using c by (subst Cons_nth_drop_Suc [symmetric]) (simp_all add: word_bytes_def)
  show ?case
  proof (cases "signed_drop_bit 7 v = 0")
    case True
    then have v: "0 \<le> sint v" "sint v < 128" using sint_drop_7 [of v] by auto
    have "(128 :: int) \<le> 2 ^ (7 * Suc k)" by (simp add: power_add)
    moreover have "?b < 0x80" using byte v by (simp add: word_less_def)
    moreover define r where "r = res OR push_bit (8 * c) (ucast ?b)"
    moreover have "leb128_loop v True c res = Inr r"
      using True c by (subst leb128_loop.simps) (simp add: Let_def r_def)
    moreover have "take_bit (8 * c) r = res" "ucast (drop_bit (8 * c) r) = ?b"
      unfolding r_def by (rule packed [OF Suc.prems(2) c])+
    ultimately show ?thesis using v byte k(1) nth [of r] by simp
  next
    case False
    let ?r = "res OR push_bit (8 * c) (ucast (?b OR 0x80))" and ?w = "signed_drop_bit 7 v"
    have step: "leb128_loop v True c res = leb128_loop ?w True (Suc c) ?r"
      using False c by (subst leb128_loop.simps) (simp add: Let_def)
    have ih: "case leb128_loop ?w True (Suc c) ?r of
          Inr r \<Rightarrow> 0 \<le> sint ?w \<and> sint ?w < 2 ^ (7 * (8 - Suc c)) \<and> take_bit (8 * Suc c) r = ?r \<and> uleb_value (drop (Suc c) (word_bytes r)) = sint ?w
        | Inl e \<Rightarrow> \<not> (0 \<le> sint ?w \<and> sint ?w < 2 ^ (7 * (8 - Suc c)) \<and> Suc c < 8)"
      using Suc.hyps(2) c packed(2) [OF Suc.prems(2) c] by (intro Suc.hyps(1)) simp_all
    have "(2 :: int) ^ (7 * Suc k) = 128 * 2 ^ (7 * k)" by (simp add: power_add)
    then have w: "0 \<le> sint ?w \<and> sint ?w < 2 ^ (7 * k) \<longleftrightarrow> 0 \<le> sint v \<and> sint v < 2 ^ (7 * Suc k)"
      unfolding sint_drop_7 by (auto simp: div_less_iff_less_mult pos_imp_zdiv_nonneg_iff mult.commute)
    have nz: "sint ?w \<noteq> 0" using False by (simp add: signed_eq_0_iff)
    have last: "\<not> (0 \<le> sint ?w \<and> sint ?w < 2 ^ (7 * k))" if "\<not> Suc c < 8"
    proof -
      have "k = 0" using that c k by simp
      then show ?thesis using nz by auto
    qed
    show ?thesis
    proof (cases "leb128_loop ?w True (Suc c) ?r")
      case (Inl e)
      then show ?thesis using ih w last k by (auto simp: step)
    next
      case (Inr r)
      then have r: "0 \<le> sint ?w" "sint ?w < 2 ^ (7 * k)" "take_bit (8 * Suc c) r = ?r" "uleb_value (drop (Suc c) (word_bytes r)) = sint ?w"
        using ih k by simp_all
      have low: "take_bit (8 * c) r = res"
        using arg_cong [OF r(3), of "take_bit (8 * c)"] packed(3) [OF Suc.prems(2) c] by (simp add: take_bit_take_bit)
      have "ucast (drop_bit (8 * c) r) = (ucast (drop_bit (8 * c) (take_bit (8 * Suc c) r)) :: uint8)"
        by (rule bit_word_eqI) (auto simp: bit_simps)
      then have bb: "ucast (drop_bit (8 * c) r) = ?b OR 0x80" unfolding r(3) packed(1) [OF Suc.prems(2) c] .
      have "?b < 0x80" using byte by (simp add: word_less_def)
      then have "uleb_value (drop c (word_bytes r)) = sint v"
        using r(4) byte high_byte [of ?b] unfolding nth bb sint_drop_7 by simp
      then show ?thesis using Inr r(1,2) w low k by (simp add: step)
    qed
  qed
qed

text \<open>(C35) \<^verbatim>\<open>GetUleb128Encode\<close> packs every number below \<open>2 ^ 56\<close> so that its bytes are the encoding of the number; a
  larger number needs a ninth byte, for which the code shifts a word by its width.\<close>

theorem GetUleb128Encode_value:
  "case GetUleb128Encode v of
     Inr r \<Rightarrow> unat v < 2 ^ 56 \<and> uleb_value (word_bytes r) = int (unat v)
   | Inl e \<Rightarrow> 2 ^ 56 \<le> unat v"
proof -
  have s: "sint v = (uint v + 2 ^ 63) mod 2 ^ 64 - 2 ^ 63"
    by (simp add: sint_uint signed_take_bit_eq_take_bit_shift take_bit_eq_mod)
  have "0 \<le> uint v" "uint v < 2 ^ 64" using unsigned_less [of v] by simp_all
  have "(uint v + 2 ^ 63) mod 2 ^ 64 = (uint v + 2 ^ 63 - 2 ^ 64) mod 2 ^ 64" by (rule minus_mod_self2 [symmetric])
  also have "\<dots> = uint v + 2 ^ 63 - 2 ^ 64" if "\<not> uint v < 2 ^ 63"
    using that \<open>uint v < 2 ^ 64\<close> by (intro mod_pos_pos_trivial) simp_all
  finally have u: "sint v = (if uint v < 2 ^ 63 then uint v else uint v - 2 ^ 64)" unfolding s by auto
  have n: "int (unat v) = uint v" by simp
  have l: "unat v < 2 ^ 56 \<longleftrightarrow> uint v < 2 ^ 56" unfolding n [symmetric] by (metis of_nat_less_iff of_nat_numeral of_nat_power)
  have e: "0 \<le> sint v \<and> sint v < 2 ^ 56 \<longleftrightarrow> unat v < 2 ^ 56" and i: "unat v < 2 ^ 56 \<Longrightarrow> sint v = int (unat v)"
    using u \<open>0 \<le> uint v\<close> \<open>uint v < 2 ^ 64\<close> unfolding l n by (simp_all split: if_splits)
  show ?thesis
    using uleb_loop [of 0 0 v] e i unfolding GetUleb128Encode_def GetLEB128Encode_def by (auto split: sum.splits)
qed

text \<open>\<^verbatim>\<open>GetSleb128Encode\<close> stops at the first rest that is 0 or -1 without a look at the sign of the
  last group, so a number from 64 to 127 and the number that is 128 smaller have one encoding.\<close>

theorem GetSleb128Encode_collision:
  assumes "64 \<le> n" and "n < 128"
  shows "GetSleb128Encode (word_of_int n) = Inr (word_of_int n) \<and> GetSleb128Encode (word_of_int (n - 128)) = Inr (word_of_int n)"
proof -
  have enc: "GetSleb128Encode v = Inr (word_of_int n)" if d: "sint v div 128 = 0 \<or> sint v div 128 = -1" and m: "sint v mod 128 = n" for v
  proof -
    have "sint (signed_drop_bit 7 v) = sint (0 :: int64) \<or> sint (signed_drop_bit 7 v) = sint (-1 :: int64)"
      using d unfolding sint_drop_7 by simp
    then have "signed_drop_bit 7 v = 0 \<or> signed_drop_bit 7 v = -1" unfolding sint_inject by simp
    moreover have "(ucast (ucast (v AND 0x7F) :: uint8) :: uint64) = word_of_int n"
      using low7_int [of v] m by (metis word_of_int_uint ucast_eq)
    ultimately show ?thesis
      unfolding GetSleb128Encode_def GetLEB128Encode_def by (subst leb128_loop.simps) (auto simp: Let_def)
  qed
  have s: "sint (word_of_int k :: int64) = k" if "- (2 ^ 63) \<le> k" "k < 2 ^ 63" for k
    using that by (simp add: signed_of_int signed_take_bit_int_eq_self)
  have "sint (word_of_int n :: int64) = n" "sint (word_of_int (n - 128) :: int64) = n - 128"
    by (rule s; use assms in simp)+
  moreover have "n div 128 = 0" "n mod 128 = n" "(n - 128) div 128 = -1" "(n - 128) mod 128 = n"
    using assms by (simp_all add: zdiv_zminus1_eq_if)
  ultimately show ?thesis using enc [of "word_of_int n"] enc [of "word_of_int (n - 128)"] by simp
qed

theorem GetSleb128Encode_collision_witness: "GetSleb128Encode 64 = GetSleb128Encode (- 64)"
  using GetSleb128Encode_collision [of 64] by simp

section \<open>Sizes\<close>

text \<open>The numbers that fit into some groups of seven bits with their sign.\<close>

definition fits :: "nat \<Rightarrow> int \<Rightarrow> bool" where
  "fits m x \<longleftrightarrow> - (2 ^ (7 * m - 1)) \<le> x \<and> x < 2 ^ (7 * m - 1)"

lemma fits_div: "1 \<le> m \<Longrightarrow> fits m (x div 128) = fits (Suc m) x"
proof -
  assume "1 \<le> m"
  then obtain k where k: "m = Suc k" by (cases m) auto
  have "(2 :: int) ^ (7 * Suc m - 1) = 128 * 2 ^ (7 * m - 1)" unfolding k by (simp add: power_add)
  then show ?thesis unfolding fits_def by (auto simp: div_less_iff_less_mult less_eq_div_iff_mult_less_eq mult.commute)
qed

lemma fits_mono: "fits m x \<Longrightarrow> m \<le> n \<Longrightarrow> fits n x"
proof -
  assume f: "fits m x" and "m \<le> n"
  then have "(2 :: int) ^ (7 * m - 1) \<le> 2 ^ (7 * n - 1)" by (intro power_increasing) simp_all
  then show ?thesis using f unfolding fits_def by linarith
qed

lemma more_groups: "x div 128 \<noteq> (if 0 \<le> x then 0 else -1) \<or> x div 128 mod 2 \<noteq> x div 64 mod 2 \<longleftrightarrow> \<not> fits 1 x" for x :: int
proof -
  define q where "q = x div 64"
  have d: "x div 128 = q div 2" unfolding q_def by (simp add: zdiv_zmult2_eq [of 2 x 64, symmetric])
  have s: "0 \<le> x \<longleftrightarrow> 0 \<le> q" unfolding q_def by (simp add: pos_imp_zdiv_nonneg_iff)
  have f: "fits 1 x \<longleftrightarrow> q = 0 \<or> q = -1" unfolding fits_def q_def by auto
  have h: "q div 2 = 0 \<longleftrightarrow> q = 0 \<or> q = 1" "q div 2 = -1 \<longleftrightarrow> q = -2 \<or> q = -1" by linarith+
  consider "q = 0" | "q = 1" | "q = -1" | "q = -2" | "q div 2 \<noteq> 0" "q div 2 \<noteq> -1" using h by blast
  then show ?thesis unfolding d s f q_def [symmetric] by cases (simp_all add: h)
qed

lemma has_more:
  fixes v :: int32
  assumes "end = (if 0 \<le> sint v then 0 else -1)"
  shows "(signed_drop_bit 7 v \<noteq> end \<or> (signed_drop_bit 7 v AND 1) \<noteq> (signed_drop_bit 6 v AND 1)) \<longleftrightarrow> \<not> fits 1 (sint v)"
proof -
  have e: "sint end = (if 0 \<le> sint v then 0 else -1)" using assms by simp
  have o: "x AND 1 = y AND 1 \<longleftrightarrow> (sint x mod 2 = sint y mod 2)" for x y :: int32
  proof -
    have "bit x 0 \<longleftrightarrow> odd (sint x)" for x :: int32 by (simp flip: bit_0 add: bit_signed_iff)
    then show ?thesis by (auto simp: and_one_eq mod2_eq_if bit_0)
  qed
  have d: "sint (signed_drop_bit 7 v) = sint v div 128" "sint (signed_drop_bit 6 v) = sint v div 64"
    by (simp_all add: sint_signed_drop_bit_eq drop_bit_eq_div)
  have "(signed_drop_bit 7 v \<noteq> end \<or> (signed_drop_bit 7 v AND 1) \<noteq> (signed_drop_bit 6 v AND 1)) \<longleftrightarrow>
      (sint v div 128 \<noteq> (if 0 \<le> sint v then 0 else -1) \<or> sint v div 128 mod 2 \<noteq> sint v div 64 mod 2)"
    unfolding o d word_eq_iff_signed [where 'a = int, of "signed_drop_bit 7 v" "end"] e ..
  also have "\<dots> \<longleftrightarrow> \<not> fits 1 (sint v)" by (rule more_groups)
  finally show ?thesis .
qed

lemma sleb128_size:
  assumes "end = (if 0 \<le> sint v then 0 else -1)" and "fits (Suc k) (sint v)"
  shows "\<exists>m. sleb128_size_loop end (signed_drop_bit 7 v) v sz = Some (sz + m) \<and> 1 \<le> m \<and> fits m (sint v) \<and> (1 < m \<longrightarrow> \<not> fits (m - 1) (sint v))"
  using assms
proof (induction k arbitrary: v sz)
  case 0
  then show ?case using has_more [OF 0(1)] by (subst sleb128_size_loop.simps) (simp add: Let_def)
next
  case (Suc k)
  show ?case
  proof (cases "fits 1 (sint v)")
    case True
    then show ?thesis using has_more [OF Suc.prems(1)] by (subst sleb128_size_loop.simps) (simp add: Let_def)
  next
    case False
    let ?r = "signed_drop_bit 7 v"
    have r: "sint ?r = sint v div 128" by (simp add: sint_signed_drop_bit_eq drop_bit_eq_div)
    have "end = (if 0 \<le> sint ?r then 0 else -1)" using Suc.prems(1) unfolding r by auto
    moreover have "fits (Suc k) (sint ?r)" using Suc.prems(2) unfolding r by (simp add: fits_div)
    ultimately obtain m where m: "sleb128_size_loop end (signed_drop_bit 7 ?r) ?r (Suc sz) = Some (Suc sz + m)" "1 \<le> m" "fits m (sint ?r)"
        "1 < m \<longrightarrow> \<not> fits (m - 1) (sint ?r)"
      using Suc.IH by blast
    have "sleb128_size_loop end ?r v sz = Some (sz + Suc m)"
      using has_more [OF Suc.prems(1)] False m(1) by (subst sleb128_size_loop.simps) (simp add: Let_def)
    moreover have "\<not> fits m (sint v)"
    proof (cases "m = 1")
      case False
      then have "\<not> fits (Suc (m - 1)) (sint v)" using m(2,4) unfolding r by (subst fits_div [symmetric]) auto
      then show ?thesis using m(2) by simp
    qed (use False in simp)
    ultimately show ?thesis using m(2,3) unfolding r by (intro exI [of _ "Suc m"]) (simp add: fits_div)
  qed
qed

text \<open>(C36) \<^verbatim>\<open>GetSleb128Size\<close> ends and gives the least number of groups of seven bits that hold the number with its
  sign.\<close>

theorem GetSleb128Size_least:
  "\<exists>m. GetSleb128Size v = Some m \<and> m = (LEAST m. 1 \<le> m \<and> - (2 ^ (7 * m - 1)) \<le> sint v \<and> sint v < 2 ^ (7 * m - 1))"
proof -
  have "- (2 ^ 31) \<le> sint v" "sint v < 2 ^ 31" using sint_greater_eq [of v] sint_less [of v] by simp_all
  then have "fits (Suc 4) (sint v)" by (simp add: fits_def)
  then obtain m where m: "GetSleb128Size v = Some m" "1 \<le> m" "fits m (sint v)" "1 < m \<longrightarrow> \<not> fits (m - 1) (sint v)"
    using sleb128_size [OF refl, where v = v and k = 4 and sz = 0] by (auto simp: GetSleb128Size_def)
  have "(LEAST m. 1 \<le> m \<and> fits m (sint v)) = m"
  proof (rule Least_equality)
    fix n assume n: "1 \<le> n \<and> fits n (sint v)"
    show "m \<le> n"
    proof (rule ccontr)
      assume "\<not> m \<le> n"
      then have "1 < m" "n \<le> m - 1" using n by auto
      then show False using m(4) fits_mono [of n "sint v" "m - 1"] n by blast
    qed
  qed (use m in blast)
  then show ?thesis using m(1) unfolding fits_def by auto
qed

end
