(* ===== verification/NameUtf.thy ===== *)
theory NameUtf
  imports WordBits
begin

unbundle bit_operations_syntax

text \<open>
  The conversions between UTF-8 and UTF-16 of \<^verbatim>\<open>maple_util/src/namemangler.cpp\<close>. A
  \<^verbatim>\<open>std::string\<close> is the list of its bytes, a \<^verbatim>\<open>std::u16string\<close> the list of its units.
  Strings are shorter than \<open>2 ^ 32\<close> elements, so that the index is a natural number.
\<close>

section \<open>Model\<close>

text \<open>Reading a string at an index: at its length there is a zero, behind it nothing.\<close>

definition char_at :: "'a::zero list \<Rightarrow> nat \<Rightarrow> 'a result" where
  "char_at s i = (if i < length s then Inr (s ! i) else if i = length s then Inr 0 else Inl (Undefined ''string index''))"

definition ChangeEndian16 :: "uint16 \<Rightarrow> uint16" where
  "ChangeEndian16 u = (drop_bit 8 (u AND 0xFF00)) OR (push_bit 8 (u AND 0xFF))"

text \<open>The bytes that \<^verbatim>\<open>UTF16ToUTF8\<close> appends for a code point.\<close>

definition utf8_bytes :: "uint32 \<Rightarrow> uint8 list" where
  "utf8_bytes codePoint =
     (if codePoint \<le> 0x7F then [ucast codePoint]
      else if codePoint \<le> 0x7FF then [ucast (0xC0 + drop_bit 6 codePoint), ucast (0x80 + (codePoint AND 0x3F))]
      else if codePoint \<le> 0xFFFF then
        [ucast (0xE0 + (drop_bit 12 codePoint AND 0xF)), ucast (0x80 + (drop_bit 6 codePoint AND 0x3F)),
         ucast (0x80 + (codePoint AND 0x3F))]
      else
        [ucast (0xF0 + (drop_bit 18 codePoint AND 0x7)), ucast (0x80 + (drop_bit 12 codePoint AND 0x3F)),
         ucast (0x80 + (drop_bit 6 codePoint AND 0x3F)), ucast (0x80 + (codePoint AND 0x3F))])"

text \<open>The code point that \<^verbatim>\<open>UTF16ToUTF8\<close> reads at an index, with the index behind it.\<close>

definition code_unit :: "bool \<Rightarrow> uint16 \<Rightarrow> uint16 list \<Rightarrow> nat \<Rightarrow> (uint32 \<times> nat) result" where
  "code_unit isBigEndian num str16 i =
     bind_result (char_at str16 i) (\<lambda>u.
       let codePoint = ucast (if isBigEndian \<or> num = 1 then u else ChangeEndian16 u) :: uint32; i = Suc i
       in if codePoint > 0xFFFF
          then bind_result (char_at str16 i) (\<lambda>v.
                 Inr (push_bit 10 (codePoint AND 0x3FF) + (ucast (if isBigEndian then v else ChangeEndian16 v) AND 0x3FF), Suc i))
          else Inr (codePoint, i))"

lemma code_unit_less: "code_unit be num s i = Inr (c, j) \<Longrightarrow> i < j"
  by (auto simp: code_unit_def Let_def bind_result_def split: sum.splits if_splits)

function utf16_to_utf8 :: "uint16 \<Rightarrow> bool \<Rightarrow> uint16 list \<Rightarrow> nat \<Rightarrow> uint16 \<Rightarrow> uint16 \<Rightarrow> uint8 list \<Rightarrow> (uint8 list \<times> uint32) result" where
  "utf16_to_utf8 num isBigEndian str16 i count retNum str =
     (if length str16 \<le> i then Inr (str, word_of_nat i)
      else case code_unit isBigEndian num str16 i of
          Inl e \<Rightarrow> Inl e
        | Inr (codePoint, i) \<Rightarrow>
            (let str = str @ utf8_bytes codePoint;
                 retNum = retNum + word_of_nat (length (utf8_bytes codePoint));
                 count = count + 1
             in if num = count then Inr (str, push_bit 16 (ucast retNum) OR word_of_nat i)
                else utf16_to_utf8 num isBigEndian str16 i count retNum str))"
  by pat_completeness auto
termination
  by (relation "measure (\<lambda>(num, be, s, i, _). length s - i)") (auto dest: code_unit_less)

definition UTF16ToUTF8 :: "uint8 list \<Rightarrow> uint16 list \<Rightarrow> uint16 \<Rightarrow> bool \<Rightarrow> (uint8 list \<times> uint32) result" where
  "UTF16ToUTF8 str str16 num isBigEndian = utf16_to_utf8 num isBigEndian str16 0 0 0 str"

definition NeedConvertUTF16 :: "uint8 list \<Rightarrow> bool" where
  "NeedConvertUTF16 str8 = list_ex (\<lambda>a. a > 0x7F) str8"

definition GetCodePoint :: "uint8 list \<Rightarrow> nat \<Rightarrow> (uint32 \<times> nat) result" where
  "GetCodePoint str8 i =
     bind_result (char_at str8 i) (\<lambda>a.
       let a = ucast a :: uint32; i = Suc i in
       if a \<le> 0x7F then Inr (a, i)
       else if a \<ge> 0xF0 then
         bind_result (char_at str8 i) (\<lambda>b. bind_result (char_at str8 (i + 1)) (\<lambda>c. bind_result (char_at str8 (i + 2)) (\<lambda>d.
           Inr (push_bit 18 (a AND 0x7) OR push_bit 12 (scast b AND 0x3F) OR push_bit 6 (scast c AND 0x3F) OR (scast d AND 0x3F), i + 3))))
       else if a \<ge> 0xE0 then
         bind_result (char_at str8 i) (\<lambda>b. bind_result (char_at str8 (i + 1)) (\<lambda>c.
           Inr (push_bit 12 (a AND 0xF) OR push_bit 6 (scast b AND 0x3F) OR (scast c AND 0x3F), i + 2)))
       else if a \<ge> 0xC0 then
         bind_result (char_at str8 i) (\<lambda>b. Inr (push_bit 6 (a AND 0x1F) OR (scast b AND 0x3F), i + 1))
       else Inr (0, i))"

lemma GetCodePoint_less: "GetCodePoint s i = Inr (c, j) \<Longrightarrow> i < j"
  by (auto simp: GetCodePoint_def Let_def bind_result_def split: sum.splits if_splits)

text \<open>The units that \<^verbatim>\<open>UTF8ToUTF16\<close> appends for a code point.\<close>

definition utf16_units :: "bool \<Rightarrow> uint32 \<Rightarrow> uint16 list" where
  "utf16_units swap codePoint =
     (let endian = (if swap then ChangeEndian16 else id) in
      if codePoint \<le> 0xFFFF then [endian (ucast codePoint)]
      else let codePoint = codePoint - 0x10000
           in [endian (ucast (drop_bit 10 codePoint OR 0xD800)), endian (ucast ((codePoint AND 0x3FF) OR 0xDC00))])"

function utf8_to_utf16 :: "uint16 \<Rightarrow> bool \<Rightarrow> uint8 list \<Rightarrow> nat \<Rightarrow> uint16 \<Rightarrow> uint16 \<Rightarrow> uint16 list \<Rightarrow> (uint16 list \<times> uint32) result" where
  "utf8_to_utf16 num isBigEndian str8 i count retNum str16 =
     (if length str8 \<le> i then Inr (str16, word_of_nat i)
      else case GetCodePoint str8 i of
          Inl e \<Rightarrow> Inl e
        | Inr (codePoint, i) \<Rightarrow>
            (let units = utf16_units (\<not> (isBigEndian \<or> num = 1)) codePoint;
                 str16 = str16 @ units;
                 retNum = retNum + word_of_nat (length units);
                 count = count + 1
             in if num = count then Inr (str16, push_bit 16 (ucast retNum) OR ucast (word_of_nat i :: uint16))
                else utf8_to_utf16 num isBigEndian str8 i count retNum str16))"
  by pat_completeness auto
termination
  by (relation "measure (\<lambda>(num, be, s, i, _). length s - i)") (auto dest: GetCodePoint_less)

definition UTF8ToUTF16 :: "uint16 list \<Rightarrow> uint8 list \<Rightarrow> uint16 \<Rightarrow> bool \<Rightarrow> (uint16 list \<times> uint32) result" where
  "UTF8ToUTF16 str16 str8 num isBigEndian = utf8_to_utf16 num isBigEndian str8 0 0 0 str16"

declare utf16_to_utf8.simps [simp del] utf8_to_utf16.simps [simp del]

section \<open>Code points\<close>

text \<open>What the reader takes out of the bytes that the writer makes of a code point.\<close>

lemma continuation: "scast (ucast (0x80 + (c AND 0x3F) :: uint32) :: uint8) AND (0x3F :: uint32) = c AND 0x3F"
proof -
  have e: "(0x80 + (c AND 0x3F) :: uint32) = 0x80 OR (c AND 0x3F)"
    unfolding masks by (rule mark_or_mask) simp_all
  show ?thesis unfolding e unfolding masks
    by (rule bit_word_eqI) (auto simp: bit_simps mark_bits)
qed

lemma lead2:
  assumes "c < 2 ^ 11"
  shows "(ucast (ucast (0xC0 + drop_bit 6 c :: uint32) :: uint8) :: uint32) AND 0x1F = drop_bit 6 c"
proof -
  have "drop_bit 6 c < (2 ^ 5 :: uint32)"
    using assms unfolding word_less_nat_alt unat_drop_bit_eq by (simp add: drop_bit_eq_div)
  then have e: "(0xC0 + drop_bit 6 c :: uint32) = 0xC0 OR drop_bit 6 c" by (rule mark_or) simp_all
  show ?thesis unfolding e unfolding masks
  proof (rule bit_word_eqI)
    fix n
    show "bit ((ucast (ucast (0xC0 OR drop_bit 6 c :: uint32) :: uint8) :: uint32) AND mask 5) n = bit (drop_bit 6 c) n"
      using small_bits [OF assms, of "6 + n"] by (auto simp: bit_simps mark_bits)
  qed
qed

lemma lead3: "(ucast (ucast (0xE0 + (x AND 0xF) :: uint32) :: uint8) :: uint32) AND 0xF = x AND 0xF"
proof -
  have e: "(0xE0 + (x AND 0xF) :: uint32) = 0xE0 OR (x AND 0xF)"
    unfolding masks by (rule mark_or_mask) simp_all
  show ?thesis unfolding e unfolding masks
    by (rule bit_word_eqI) (auto simp: bit_simps mark_bits)
qed

lemma lead4: "(ucast (ucast (0xF0 + (x AND 0x7) :: uint32) :: uint8) :: uint32) AND 0x7 = x AND 0x7"
proof -
  have e: "(0xF0 + (x AND 0x7) :: uint32) = 0xF0 OR (x AND 0x7)"
    unfolding masks by (rule mark_or_mask) simp_all
  show ?thesis unfolding e unfolding masks
    by (rule bit_word_eqI) (auto simp: bit_simps mark_bits)
qed

lemma lead_range:
  "c \<le> 0x7F \<Longrightarrow> (ucast (ucast c :: uint8) :: uint32) = c"
  "c < 2 ^ 11 \<Longrightarrow> 0xC0 \<le> (ucast (ucast (0xC0 + drop_bit 6 c :: uint32) :: uint8) :: uint32) \<and> (ucast (ucast (0xC0 + drop_bit 6 c :: uint32) :: uint8) :: uint32) < 0xE0"
  "0xE0 \<le> (ucast (ucast (0xE0 + (x AND 0xF) :: uint32) :: uint8) :: uint32) \<and> (ucast (ucast (0xE0 + (x AND 0xF) :: uint32) :: uint8) :: uint32) < 0xF0"
  "0xF0 \<le> (ucast (ucast (0xF0 + (x AND 0x7) :: uint32) :: uint8) :: uint32)"
proof -
  have m: "unat (x AND mask k) < 2 ^ k" for k by (simp flip: take_bit_eq_mask add: unsigned_take_bit_eq)
  show "c \<le> 0x7F \<Longrightarrow> (ucast (ucast c :: uint8) :: uint32) = c"
    by (simp add: word_le_nat_alt word_unat_eq_iff unsigned_ucast_eq unsigned_take_bit_eq take_bit_nat_eq_self)
  show "c < 2 ^ 11 \<Longrightarrow> 0xC0 \<le> (ucast (ucast (0xC0 + drop_bit 6 c :: uint32) :: uint8) :: uint32) \<and> (ucast (ucast (0xC0 + drop_bit 6 c :: uint32) :: uint8) :: uint32) < 0xE0"
    by (simp add: word_le_nat_alt word_less_nat_alt unsigned_ucast_eq unat_word_ariths unat_drop_bit_eq drop_bit_eq_div take_bit_eq_mod)
  show "0xE0 \<le> (ucast (ucast (0xE0 + (x AND 0xF) :: uint32) :: uint8) :: uint32) \<and> (ucast (ucast (0xE0 + (x AND 0xF) :: uint32) :: uint8) :: uint32) < 0xF0"
    using m [of 4] unfolding masks by (simp add: word_le_nat_alt word_less_nat_alt unsigned_ucast_eq unat_word_ariths take_bit_eq_mod)
  show "0xF0 \<le> (ucast (ucast (0xF0 + (x AND 0x7) :: uint32) :: uint8) :: uint32)"
    using m [of 3] unfolding masks by (simp add: word_le_nat_alt word_less_nat_alt unsigned_ucast_eq unat_word_ariths take_bit_eq_mod)
qed

lemma char_at_append [simp]: "char_at (xs @ y # ys) (length xs) = Inr y"
  by (simp add: char_at_def)

lemma char_at_behind:
  "char_at (xs @ y # z # ys) (Suc (length xs)) = Inr z"
  "char_at (xs @ y # z # w # ys) (Suc (length xs) + 1) = Inr w"
  "char_at (xs @ y # z # w # v # ys) (Suc (length xs) + 2) = Inr v"
  by (simp_all add: char_at_def nth_append)

lemma split_bits:
  fixes c :: uint32
  shows "c < 2 ^ 16 \<Longrightarrow> push_bit 12 (drop_bit 12 c AND 0xF) OR push_bit 6 (drop_bit 6 c AND 0x3F) OR (c AND 0x3F) = c"
    and "c < 2 ^ 11 \<Longrightarrow> push_bit 6 (drop_bit 6 c) OR (c AND 0x3F) = c"
    and "c < 2 ^ 21 \<Longrightarrow> push_bit 18 (drop_bit 18 c AND 0x7) OR push_bit 12 (drop_bit 12 c AND 0x3F) OR push_bit 6 (drop_bit 6 c AND 0x3F) OR (c AND 0x3F) = c"
proof -
  show "c < 2 ^ 11 \<Longrightarrow> push_bit 6 (drop_bit 6 c) OR (c AND 0x3F) = c" 
    unfolding masks by (rule bit_word_eqI) (auto simp: bit_simps)
  show "push_bit 12 (drop_bit 12 c AND 0xF) OR push_bit 6 (drop_bit 6 c AND 0x3F) OR (c AND 0x3F) = c" if c: "c < 2 ^ 16"
    unfolding masks
  proof (rule bit_word_eqI)
    fix n show "bit (push_bit 12 (drop_bit 12 c AND mask 4) OR push_bit 6 (drop_bit 6 c AND mask 6) OR (c AND mask 6)) n = bit c n"
      using small_bits [OF c, of n] by (cases "n < 12") (auto simp: bit_simps)
  qed
  show "push_bit 18 (drop_bit 18 c AND 0x7) OR push_bit 12 (drop_bit 12 c AND 0x3F) OR push_bit 6 (drop_bit 6 c AND 0x3F) OR (c AND 0x3F) = c" if c: "c < 2 ^ 21"
    unfolding masks
  proof (rule bit_word_eqI)
    fix n show "bit (push_bit 18 (drop_bit 18 c AND mask 3) OR push_bit 12 (drop_bit 12 c AND mask 6) OR push_bit 6 (drop_bit 6 c AND mask 6) OR (c AND mask 6)) n = bit c n"
      using small_bits [OF c, of n] by (cases "n < 12"; cases "n < 18") (auto simp: bit_simps)
  qed
qed

lemma GetCodePoint_utf8:
  assumes "c < 2 ^ 21"
  shows "GetCodePoint (pre @ utf8_bytes c @ post) (length pre) = Inr (c, length pre + length (utf8_bytes c))"
proof -
  consider "c \<le> 0x7F" | "\<not> c \<le> 0x7F" "c \<le> 0x7FF" | "\<not> c \<le> 0x7FF" "c \<le> 0xFFFF" | "\<not> c \<le> 0xFFFF" by blast
  then show ?thesis
  proof cases
    case 1
    then show ?thesis by (simp add: GetCodePoint_def utf8_bytes_def lead_range(1))
  next
    case 2
    then have c: "c < 2 ^ 11" by (simp add: word_le_nat_alt word_less_nat_alt)
    let ?a = "ucast (ucast (0xC0 + drop_bit 6 c :: uint32) :: uint8) :: uint32"
    have a: "\<not> ?a \<le> 0x7F" "\<not> ?a \<ge> 0xF0" "\<not> ?a \<ge> 0xE0" "?a \<ge> 0xC0"
      using lead_range(2) [OF c] by (simp_all add: word_le_nat_alt word_less_nat_alt)
    have "utf8_bytes c = [ucast (0xC0 + drop_bit 6 c), ucast (0x80 + (c AND 0x3F))]" using 2 by (simp add: utf8_bytes_def)
    then show ?thesis using a by (simp only: GetCodePoint_def append_Cons append_Nil char_at_append bind_result_simps Let_def if_True if_False
          char_at_behind lead2 [OF c] continuation split_bits(2) [OF c]) simp
  next
    case 3
    then have c: "c < 2 ^ 16" by (simp add: word_le_nat_alt word_less_nat_alt)
    let ?a = "ucast (ucast (0xE0 + (drop_bit 12 c AND 0xF) :: uint32) :: uint8) :: uint32"
    have a: "\<not> ?a \<le> 0x7F" "\<not> ?a \<ge> 0xF0" "?a \<ge> 0xE0"
      using lead_range(3) [of "drop_bit 12 c"] by (simp_all add: word_le_nat_alt word_less_nat_alt)
    have "utf8_bytes c = [ucast (0xE0 + (drop_bit 12 c AND 0xF)), ucast (0x80 + (drop_bit 6 c AND 0x3F)), ucast (0x80 + (c AND 0x3F))]"
      using 3 by (simp add: utf8_bytes_def word_le_nat_alt)
    then show ?thesis using a by (simp only: GetCodePoint_def append_Cons append_Nil char_at_append bind_result_simps Let_def if_True if_False
          char_at_behind lead3 continuation split_bits(1) [OF c]) simp
  next
    case 4
    let ?a = "ucast (ucast (0xF0 + (drop_bit 18 c AND 0x7) :: uint32) :: uint8) :: uint32"
    have a: "\<not> ?a \<le> 0x7F" "?a \<ge> 0xF0"
      using lead_range(4) [of "drop_bit 18 c"] by (simp_all add: word_le_nat_alt word_less_nat_alt)
    have "utf8_bytes c = [ucast (0xF0 + (drop_bit 18 c AND 0x7)), ucast (0x80 + (drop_bit 12 c AND 0x3F)), ucast (0x80 + (drop_bit 6 c AND 0x3F)), ucast (0x80 + (c AND 0x3F))]"
      using 4 by (simp add: utf8_bytes_def word_le_nat_alt)
    then show ?thesis using a by (simp only: GetCodePoint_def append_Cons append_Nil char_at_append bind_result_simps Let_def if_True if_False
          char_at_behind lead4 continuation split_bits(3) [OF assms]) simp
  qed
qed

section \<open>Whole strings\<close>

lemma ChangeEndian16_twice [simp]: "ChangeEndian16 (ChangeEndian16 u) = u"
proof (rule bit_word_eqI)
  fix n assume "n < LENGTH(16)"
  then show "bit (ChangeEndian16 (ChangeEndian16 u)) n = bit u n"
    by (cases "n < 8") (auto simp: ChangeEndian16_def bit_simps mark_bits)
qed

lemma ucast_16_32 [simp]: "ucast (ucast (u :: uint16) :: uint32) = u"
  by (rule bit_word_eqI) (auto simp: bit_simps)

lemma ucast_16_less: "(ucast (u :: uint16) :: uint32) < 2 ^ 16"
proof -
  have "unat u < 2 ^ 16" by (rule order_less_le_trans [OF unsigned_less]) simp
  then show ?thesis by (simp add: word_less_nat_alt unsigned_ucast_eq take_bit_nat_eq_self)
qed

lemma unat_count: "unat c + Suc n < 2 ^ 16 \<Longrightarrow> unat (c + 1) = unat c + 1" for c :: uint16
  by (simp add: unat_word_ariths)

text \<open>The code point of a unit, the units of a code point.\<close>

definition unit_point :: "bool \<Rightarrow> uint16 \<Rightarrow> uint32" where
  "unit_point isBigEndian u = ucast (if isBigEndian then u else ChangeEndian16 u)"

lemma unit_point_less: "unit_point be u < 2 ^ 16"
  unfolding unit_point_def by (rule ucast_16_less)

lemma unit_point_le: "unit_point be u \<le> 0xFFFF"
  using unit_point_less [of be u] by (simp add: word_le_nat_alt word_less_nat_alt)

lemma utf16_units_point: "utf16_units (\<not> be) (unit_point be u) = [u]"
  unfolding utf16_units_def Let_def if_P [OF unit_point_le] by (simp add: unit_point_def)

lemma code_unit_append: "code_unit be num (pre @ u # post) (length pre) = Inr (unit_point (be \<or> num = 1) u, Suc (length pre))"
proof -
  have "\<not> 0xFFFF < unit_point (be \<or> num = 1) u" using unit_point_le [of "be \<or> num = 1" u] by (simp add: not_less)
  then show ?thesis by (simp add: code_unit_def Let_def unit_point_def split: if_splits)
qed

lemma utf16_to_utf8_all:
  assumes "unat count + length ws < 2 ^ 16"
  shows "utf16_to_utf8 0 be (pre @ ws) (length pre) count ret str =
    Inr (str @ concat (map (\<lambda>u. utf8_bytes (unit_point be u)) ws), word_of_nat (length pre + length ws))"
  using assms
proof (induction ws arbitrary: pre count ret str)
  case (Cons u ws)
  have c: "unat (count + 1) = unat count + 1" using Cons.prems by (intro unat_count) auto
  then have n: "0 \<noteq> count + 1" by auto
  have "utf16_to_utf8 0 be ((pre @ [u]) @ ws) (length (pre @ [u])) (count + 1) (ret + word_of_nat (length (utf8_bytes (unit_point be u)))) (str @ utf8_bytes (unit_point be u)) =
      Inr ((str @ utf8_bytes (unit_point be u)) @ concat (map (\<lambda>u. utf8_bytes (unit_point be u)) ws), word_of_nat (length (pre @ [u]) + length ws))"
    using Cons.prems c by (intro Cons.IH) simp
  then show ?case using n by (subst utf16_to_utf8.simps) (simp add: code_unit_append Let_def)
qed (simp add: utf16_to_utf8.simps)

lemma utf8_to_utf16_all:
  assumes "unat count + length cs < 2 ^ 16" and "\<forall>c\<in>set cs. c < 2 ^ 21"
  shows "utf8_to_utf16 0 be (pre @ concat (map utf8_bytes cs)) (length pre) count ret str =
    Inr (str @ concat (map (utf16_units (\<not> be)) cs), word_of_nat (length pre + length (concat (map utf8_bytes cs))))"
  using assms
proof (induction cs arbitrary: pre count ret str)
  case (Cons u cs)
  have c: "unat (count + 1) = unat count + 1" using Cons.prems by (intro unat_count) auto
  then have n: "0 \<noteq> count + 1" by auto
  have ne: "utf8_bytes u \<noteq> []" by (simp add: utf8_bytes_def)
  have g: "GetCodePoint (pre @ utf8_bytes u @ concat (map utf8_bytes cs)) (length pre) = Inr (u, length pre + length (utf8_bytes u))"
    using Cons.prems by (intro GetCodePoint_utf8) simp
  have "utf8_to_utf16 0 be ((pre @ utf8_bytes u) @ concat (map utf8_bytes cs)) (length (pre @ utf8_bytes u)) (count + 1)
        (ret + word_of_nat (length (utf16_units (\<not> be) u))) (str @ utf16_units (\<not> be) u) =
      Inr ((str @ utf16_units (\<not> be) u) @ concat (map (utf16_units (\<not> be)) cs), word_of_nat (length (pre @ utf8_bytes u) + length (concat (map utf8_bytes cs))))"
    using Cons.prems c by (intro Cons.IH) simp_all
  then show ?case using n g ne by (subst utf8_to_utf16.simps) (simp add: Let_def)
qed (simp add: utf8_to_utf16.simps)

text \<open>(C18) \<^verbatim>\<open>UTF16ToUTF8\<close> and back: every string of 16-bit units, surrogates included, of less than
  65536 units comes back as it was, in both byte orders.\<close>

theorem UTF16_roundtrip:
  assumes "length ws < 2 ^ 16"
  shows "\<exists>str n m. UTF16ToUTF8 [] ws 0 be = Inr (str, n) \<and> UTF8ToUTF16 [] str 0 be = Inr (ws, m)"
proof -
  let ?cs = "map (unit_point be) ws"
  have 1: "UTF16ToUTF8 [] ws 0 be = Inr (concat (map utf8_bytes ?cs), word_of_nat (length ws))"
    using utf16_to_utf8_all [of 0 ws be "[]"] assms by (simp add: UTF16ToUTF8_def comp_def)
  have "c < 2 ^ 21" if "c \<in> set ?cs" for c
    using that by (auto intro: order_less_trans [OF unit_point_less])
  then have "UTF8ToUTF16 [] (concat (map utf8_bytes ?cs)) 0 be = Inr (concat (map (utf16_units (\<not> be)) ?cs), word_of_nat (length (concat (map utf8_bytes ?cs))))"
    using utf8_to_utf16_all [of 0 ?cs be "[]"] assms by (simp add: UTF8ToUTF16_def)
  moreover have "concat (map (utf16_units (\<not> be)) ?cs) = ws" by (simp add: comp_def utf16_units_point)
  ultimately show ?thesis using 1 by auto
qed

theorem UTF16_roundtrip_witness:
  "\<exists>str n m. UTF16ToUTF8 [] [0x4E2D, 0xD83D, 0x41] 0 True = Inr (str, n) \<and> UTF8ToUTF16 [] str 0 True = Inr ([0x4E2D, 0xD83D, 0x41], m)"
  by (rule UTF16_roundtrip) simp

lemma utf16_units_count: "length (utf16_units swap c) = (if c \<le> 0xFFFF then 1 else 2)"
  by (simp add: utf16_units_def Let_def)

lemma utf8_bytes_count:
  "length (utf8_bytes c) = (if c \<le> 0x7F then 1 else if c \<le> 0x7FF then 2 else if c \<le> 0xFFFF then 3 else 4)"
  by (simp add: utf8_bytes_def)

text \<open>The bytes that come back for a code point.\<close>

definition returned :: "bool \<Rightarrow> uint32 \<Rightarrow> uint8 list" where
  "returned be c = concat (map (\<lambda>u. utf8_bytes (unit_point be u)) (utf16_units (\<not> be) c))"

lemma high_unit: "bit u 15 \<Longrightarrow> length (utf8_bytes (ucast (u :: uint16))) = 3"
proof -
  assume b: "bit u 15"
  have "\<not> (ucast u :: uint32) < 2 ^ 11" using small_bits [of "ucast u :: uint32" 11 15] b by (auto simp: bit_simps)
  moreover have "(ucast u :: uint32) \<le> 0xFFFF" using ucast_16_less [of u] by (simp add: word_le_nat_alt word_less_nat_alt)
  ultimately show ?thesis unfolding utf8_bytes_count by (auto simp: word_le_nat_alt word_less_nat_alt)
qed

lemma returned_small: "c \<le> 0xFFFF \<Longrightarrow> returned be c = utf8_bytes c"
proof -
  assume c: "c \<le> 0xFFFF"
  then have "ucast (ucast c :: uint16) = c"
    by (simp add: word_le_nat_alt word_unat_eq_iff unsigned_ucast_eq unsigned_take_bit_eq take_bit_nat_eq_self)
  then show ?thesis using c by (simp add: returned_def utf16_units_def unit_point_def)
qed

lemma returned_large: "\<not> c \<le> 0xFFFF \<Longrightarrow> length (returned be c) = 6"
proof -
  assume c: "\<not> c \<le> 0xFFFF"
  have "bit (ucast (x OR 0xD800 :: uint32) :: uint16) 15" "bit (ucast (x OR 0xDC00 :: uint32) :: uint16) 15" for x
    by (simp_all add: bit_simps)
  then show ?thesis using c by (simp add: returned_def utf16_units_def unit_point_def Let_def high_unit)
qed

lemma returned_all:
  "concat (map (returned be) cs) = concat (map utf8_bytes cs) \<longleftrightarrow> (\<forall>c\<in>set cs. c \<le> 0xFFFF)"
proof
  assume e: "concat (map (returned be) cs) = concat (map utf8_bytes cs)"
  have le: "length (utf8_bytes c) \<le> length (returned be c)" for c
    using returned_small [of c be] returned_large [of c be] by (auto simp: utf8_bytes_count)
  have "c \<le> 0xFFFF" if "c \<in> set cs" and "(\<Sum>c\<leftarrow>cs. length (returned be c)) = (\<Sum>c\<leftarrow>cs. length (utf8_bytes c))" for c cs
    using that
  proof (induction cs)
    case (Cons d cs)
    have "(\<Sum>c\<leftarrow>cs. length (utf8_bytes c)) \<le> (\<Sum>c\<leftarrow>cs. length (returned be c))"
      using le by (intro sum_list_mono) simp
    then have s: "length (returned be d) = length (utf8_bytes d)" "(\<Sum>c\<leftarrow>cs. length (returned be c)) = (\<Sum>c\<leftarrow>cs. length (utf8_bytes c))"
      using Cons.prems(2) le [of d] by auto
    moreover have "length (utf8_bytes d) \<le> 4" by (simp add: utf8_bytes_count)
    ultimately have "d \<le> 0xFFFF" using returned_large [of d be] by (cases "d \<le> 0xFFFF") auto
    then show ?case using Cons.IH Cons.prems(1) s by auto
  qed simp
  then show "\<forall>c\<in>set cs. c \<le> 0xFFFF" using arg_cong [OF e, of length] by (simp add: length_concat comp_def)
next
  assume "\<forall>c\<in>set cs. c \<le> 0xFFFF"
  then have "map (returned be) cs = map utf8_bytes cs" by (simp add: returned_small)
  then show "concat (map (returned be) cs) = concat (map utf8_bytes cs)" by (rule arg_cong)
qed

text \<open>(C23) \<^verbatim>\<open>UTF8ToUTF16\<close> and back: a string in UTF-8 comes back as it was exactly when it has no code point
  above \<^verbatim>\<open>0xFFFF\<close>. The test for a surrogate in \<^verbatim>\<open>UTF16ToUTF8\<close> never holds of a 16-bit unit,
  so each half of a pair becomes three bytes of its own.\<close>

theorem UTF8_roundtrip:
  assumes "\<forall>c\<in>set cs. c < 0x110000" and "2 * length cs < 2 ^ 16"
  shows "\<exists>ws n str m. UTF8ToUTF16 [] (concat (map utf8_bytes cs)) 0 be = Inr (ws, n) \<and> UTF16ToUTF8 [] ws 0 be = Inr (str, m) \<and>
    (str = concat (map utf8_bytes cs) \<longleftrightarrow> (\<forall>c\<in>set cs. c \<le> 0xFFFF))"
proof -
  let ?ws = "concat (map (utf16_units (\<not> be)) cs)"
  have "\<forall>c\<in>set cs. c < 2 ^ 21" using assms(1) by (fastforce simp: word_less_nat_alt)
  then have 1: "UTF8ToUTF16 [] (concat (map utf8_bytes cs)) 0 be = Inr (?ws, word_of_nat (length (concat (map utf8_bytes cs))))"
    using utf8_to_utf16_all [of 0 cs be "[]"] assms(2) by (simp add: UTF8ToUTF16_def)
  have "length ?ws \<le> 2 * length cs" by (induction cs) (simp_all add: utf16_units_count)
  then have "UTF16ToUTF8 [] ?ws 0 be = Inr (concat (map (\<lambda>u. utf8_bytes (unit_point be u)) ?ws), word_of_nat (length ?ws))"
    using utf16_to_utf8_all [of 0 ?ws be "[]"] assms(2) by (simp add: UTF16ToUTF8_def)
  moreover have "concat (map (\<lambda>u. utf8_bytes (unit_point be u)) ?ws) = concat (map (returned be) cs)"
    by (induction cs) (simp_all add: returned_def)
  ultimately show ?thesis using 1 returned_all [of be cs] by auto
qed

theorem UTF8_roundtrip_witness:
  "\<exists>ws n str m. UTF8ToUTF16 [] [0xF0, 0x9F, 0x98, 0x80] 0 False = Inr (ws, n) \<and> UTF16ToUTF8 [] ws 0 False = Inr (str, m) \<and> str \<noteq> [0xF0, 0x9F, 0x98, 0x80]"
proof -
  have "concat (map utf8_bytes [0x1F600]) = [0xF0, 0x9F, 0x98, 0x80]" by code_simp
  then show ?thesis using UTF8_roundtrip [of "[0x1F600]" False] by simp
qed

end
