(* ===== verification/NameMangler.thy ===== *)
theory NameMangler
  imports NameUtf
begin

unbundle bit_operations_syntax

text \<open>
  The mangling of names, \<^verbatim>\<open>EncodeName\<close> and \<^verbatim>\<open>DecodeName\<close> of
  \<^verbatim>\<open>maple_util/src/namemangler.cpp\<close>. The global flag \<^verbatim>\<open>doCompression\<close> is an argument. The
  buffers are lists with a capacity, and a write behind the capacity is undefined.
\<close>

section \<open>Characters\<close>

definition chars :: "string \<Rightarrow> uint8 list" where
  "chars s = map (\<lambda>c. of_char c) s"

abbreviation ch :: "char \<Rightarrow> uint8" where
  "ch c \<equiv> of_char c"

definition kLocalCodebufSize :: nat where "kLocalCodebufSize = 1024"
definition kMaxCodecbufSize :: nat where "kMaxCodecbufSize = 2 ^ 16"

definition isalnum :: "uint8 \<Rightarrow> bool" where
  "isalnum c \<longleftrightarrow> ch CHR ''0'' \<le> c \<and> c \<le> ch CHR ''9'' \<or> ch CHR ''A'' \<le> c \<and> c \<le> ch CHR ''Z'' \<or> ch CHR ''a'' \<le> c \<and> c \<le> ch CHR ''z''"

definition GETHEXCHAR :: "uint8 \<Rightarrow> uint8" where
  "GETHEXCHAR n = (if n < 10 then n + ch CHR ''0'' else n - 10 + ch CHR ''a'')"

definition GETHEXCHARU :: "uint8 \<Rightarrow> uint8" where
  "GETHEXCHARU n = (if n < 10 then n + ch CHR ''0'' else n - 10 + ch CHR ''A'')"

section \<open>Compression\<close>

definition kInternalMangleTable :: "(uint8 list \<times> uint8 list) list" where
  "kInternalMangleTable =
     [(chars ''Ljava_2Flang_2FClass_3B'', chars ''L1_3B''), (chars ''Ljava_2Flang_2FObject_3B'', chars ''L0_3B''),
      (chars ''Ljava_2Flang_2FString_3B'', chars ''L2_3B'')]"

definition kOriginalMangleTable :: "(uint8 list \<times> uint8 list) list" where
  "kOriginalMangleTable =
     [(chars ''Ljava/lang/Class'', chars ''L1''), (chars ''Ljava/lang/Object'', chars ''L0''), (chars ''Ljava/lang/String'', chars ''L2'')]"

text \<open>\<^verbatim>\<open>std::regex_replace\<close> with an expression and a format without special characters.\<close>

function regex_replace :: "uint8 list \<Rightarrow> uint8 list \<Rightarrow> uint8 list \<Rightarrow> uint8 list" where
  "regex_replace name old new =
     (if name = [] then []
      else if old \<noteq> [] \<and> take (length old) name = old then new @ regex_replace (drop (length old) name) old new
      else hd name # regex_replace (tl name) old new)"
  by pat_completeness auto
termination by (relation "measure (\<lambda>(name, old, new). length name)") auto

declare regex_replace.simps [simp del]

fun contains :: "uint8 list \<Rightarrow> uint8 list \<Rightarrow> bool" where
  "contains [] s = (s = [])"
| "contains (c # name) s = (take (length s) (c # name) = s \<or> contains name s)"

definition CompressName :: "(uint8 list \<times> uint8 list) list \<Rightarrow> uint8 list \<Rightarrow> uint8 list" where
  "CompressName mapping name =
     fold (\<lambda>(long, short) name. if contains name long then regex_replace name long short else name) mapping name"

definition DecompressName :: "(uint8 list \<times> uint8 list) list \<Rightarrow> uint8 list \<Rightarrow> uint8 list" where
  "DecompressName mapping name =
     fold (\<lambda>(long, short) name. if contains name short then regex_replace name short long else name) mapping name"

definition GetInternalNameLiteral :: "bool \<Rightarrow> uint8 list \<Rightarrow> uint8 list" where
  "GetInternalNameLiteral doCompression name = (if doCompression then CompressName kInternalMangleTable name else name)"

definition GetOriginalNameLiteral :: "bool \<Rightarrow> uint8 list \<Rightarrow> uint8 list" where
  "GetOriginalNameLiteral doCompression name = (if doCompression then CompressName kOriginalMangleTable name else name)"

section \<open>Encoding\<close>

definition AllocCodecBuf :: "nat \<Rightarrow> nat option" where
  "AllocCodecBuf maxLen =
     (if maxLen = 0 then None else Some (if maxLen \<le> kLocalCodebufSize then 3 * maxLen else 3 * kMaxCodecbufSize))"

definition put_all :: "nat \<Rightarrow> uint8 list \<Rightarrow> uint8 list \<Rightarrow> uint8 list result" where
  "put_all cap buf cs = (if length buf + length cs \<le> cap then Inr (buf @ cs) else Inl (Undefined ''write behind the buffer''))"

definition hex4 :: "uint16 \<Rightarrow> uint8 list" where
  "hex4 m = [GETHEXCHAR (ucast (drop_bit 12 (m AND 0xF000))), GETHEXCHAR (ucast (drop_bit 8 (m AND 0x0F00))),
     GETHEXCHAR (ucast (drop_bit 4 (m AND 0x00F0))), GETHEXCHAR (ucast (m AND 0x000F))]"

text \<open>What one round of the loop writes at \<open>i\<close>, and the next \<open>i\<close>.\<close>

definition encode_char :: "uint8 list \<Rightarrow> nat \<Rightarrow> (uint8 list \<times> nat) result" where
  "encode_char name i =
     (let c = name ! i in
      if c = ch CHR ''_'' then Inr ([ch CHR ''_'', ch CHR ''_''], i + 1)
      else if c = ch CHR ''['' then Inr ([ch CHR ''A''], i + 1)
      else if isalnum c then Inr ([c], i + 1)
      else if c \<le> 0x7F then
        let c = (if c = ch CHR ''.'' then ch CHR ''/'' else c);
            n = drop_bit 4 c
        in Inr ([ch CHR ''_'', GETHEXCHARU n, GETHEXCHARU (c - push_bit 4 n)], i + 1)
      else
        bind_result (UTF8ToUTF16 [] (drop i name) 1 False) (\<lambda>(str16, n).
          Inr (if drop_bit 16 n = 1 then ch CHR ''_'' # ch CHR ''u'' # hex4 (str16 ! 0)
               else ch CHR ''_'' # ch CHR ''U'' # hex4 (str16 ! 0) @ hex4 (str16 ! 1),
               i + unat (n AND 0xFFFF))))"

text \<open>One call of the conversion for one code point takes one to four bytes.\<close>

lemma GetCodePoint_size: "GetCodePoint s i = Inr (c, j) \<Longrightarrow> j \<in> {i + 1, i + 2, i + 3, i + 4}"
  by (auto simp: GetCodePoint_def Let_def bind_result_def split: sum.splits if_splits)

lemma UTF8ToUTF16_one:
  assumes "s \<noteq> []" and "GetCodePoint s 0 = Inr (c, j)"
  shows "\<exists>n. UTF8ToUTF16 [] s 1 be = Inr (utf16_units False c, n) \<and> unat (n AND 0xFFFF) = j \<and> (drop_bit 16 n = 1 \<longleftrightarrow> c \<le> 0xFFFF)"
proof -
  let ?n = "push_bit 16 (ucast (word_of_nat (length (utf16_units False c)) :: uint16)) OR ucast (word_of_nat j :: uint16) :: uint32"
  have "UTF8ToUTF16 [] s 1 be = Inr (utf16_units False c, ?n)"
    using assms unfolding UTF8ToUTF16_def by (subst utf8_to_utf16.simps) (simp add: Let_def)
  moreover have "j \<in> {1, 2, 3, 4}" using GetCodePoint_size [OF assms(2)] by auto
  then have "unat (?n AND 0xFFFF) = j \<and> (drop_bit 16 ?n = 1 \<longleftrightarrow> c \<le> 0xFFFF)"
    by (cases "c \<le> 0xFFFF") (auto simp: utf16_units_count)
  ultimately show ?thesis by blast
qed

lemma encode_char_less:
  assumes "encode_char name i = Inr (cs, j)" and "i < length name"
  shows "i < j"
proof -
  have "i < j" if u: "UTF8ToUTF16 [] (drop i name) 1 False = Inr (str16, n)" "j = i + unat (n AND 0xFFFF)" for str16 n
  proof (cases "GetCodePoint (drop i name) 0")
    case (Inl e)
    then show ?thesis using u assms(2) unfolding UTF8ToUTF16_def by (subst (asm) utf8_to_utf16.simps) simp
  next
    case (Inr cj)
    then show ?thesis using u UTF8ToUTF16_one [of "drop i name" "fst cj" "snd cj" False] GetCodePoint_less [of "drop i name" 0 "fst cj" "snd cj"] assms(2) by auto
  qed
  then show ?thesis using assms(1) unfolding encode_char_def Let_def
    by (auto simp: bind_result_def split: if_splits sum.splits)
qed

definition name_len :: "uint8 list \<Rightarrow> nat" where
  "name_len name = min (length name) kMaxCodecbufSize"

function encode_loop :: "nat \<Rightarrow> uint8 list \<Rightarrow> nat \<Rightarrow> uint8 list \<Rightarrow> uint8 list result" where
  "encode_loop cap name i buf =
     (if name_len name \<le> i then Inr buf
      else case encode_char name i of
          Inl e \<Rightarrow> Inl e
        | Inr (cs, i) \<Rightarrow> (case put_all cap buf cs of Inl e \<Rightarrow> Inl e | Inr buf \<Rightarrow> encode_loop cap name i buf))"
  by pat_completeness auto
termination
  by (relation "measure (\<lambda>(cap, name, i, buf). length name - i)") (auto simp: name_len_def dest: encode_char_less intro: diff_less_mono2)

declare encode_loop.simps [simp del]

definition EncodeName :: "bool \<Rightarrow> uint8 list \<Rightarrow> uint8 list result" where
  "EncodeName doCompression name =
     (case AllocCodecBuf (name_len name) of
        None \<Rightarrow> Inr name
      | Some cap \<Rightarrow>
          bind_result (encode_loop cap name 0 []) (\<lambda>buf. bind_result (put_all cap buf [0]) (\<lambda>_.
            Inr (if doCompression then CompressName kInternalMangleTable buf else buf))))"

section \<open>Decoding\<close>

definition UpdatePrimType :: "bool \<Rightarrow> nat \<Rightarrow> uint32 \<Rightarrow> bool" where
  "UpdatePrimType primType splitNo c =
     (if c = of_char CHR ''L'' then False
      else if (c = of_char CHR '';'' \<or> c = of_char CHR ''('' \<or> c = of_char CHR '')'') \<and> splitNo > 1 then True
      else primType)"

definition hex_value :: "char \<Rightarrow> uint8 \<Rightarrow> uint32" where
  "hex_value a c = (if c \<le> ch CHR ''9'' then ucast c - of_char CHR ''0'' else ucast c - of_char a + 10)"

text \<open>The bytes of the unit whose four hexadecimal digits start at \<open>i\<close>.\<close>

definition decode_unit :: "uint8 list \<Rightarrow> nat \<Rightarrow> uint8 list result" where
  "decode_unit name i =
     bind_result (char_at name i) (\<lambda>c1. bind_result (char_at name (i + 1)) (\<lambda>c2.
     bind_result (char_at name (i + 2)) (\<lambda>c3. bind_result (char_at name (i + 3)) (\<lambda>c4.
       let b = (\<lambda>c. ucast (ucast (hex_value CHR ''a'' c) :: uint8) :: uint32);
           codepoint = push_bit 12 (b c1) OR push_bit 8 (b c2) OR push_bit 4 (b c3) OR b c4
       in bind_result (UTF16ToUTF8 [] [ucast codepoint] 1 False) (\<lambda>(str, n).
            Inr (let k = unat (drop_bit 16 n) in if k = 2 \<or> k = 3 \<or> k = 4 then take k str else []))))))"

function decode_loop :: "uint8 list \<Rightarrow> nat \<Rightarrow> uint8 list \<Rightarrow> bool \<Rightarrow> nat \<Rightarrow> uint8 list result" where
  "decode_loop name i newName primType splitNo =
     (if length name \<le> i then Inr newName
      else let c = name ! i; i = i + 1 in
        if c = ch CHR ''_'' then
          (if length name \<le> i then Inr newName
           else if name ! i = ch CHR ''_'' then
             (case put_all (length name) newName [name ! i] of Inl e \<Rightarrow> Inl e
              | Inr newName \<Rightarrow> decode_loop name (i + 1) newName primType splitNo)
           else if name ! i = ch CHR ''u'' then
             (case bind_result (decode_unit name (i + 1)) (put_all (length name) newName) of Inl e \<Rightarrow> Inl e
              | Inr newName \<Rightarrow> decode_loop name (i + 5) newName primType splitNo)
           else if length name \<le> i + 1 then Inr newName
           else let asc = push_bit 4 (hex_value CHR ''A'' (name ! i)) + hex_value CHR ''A'' (name ! (i + 1)) in
             (case put_all (length name) newName [ucast asc] of Inl e \<Rightarrow> Inl e
              | Inr newName \<Rightarrow>
                  let splitNo = (if asc = of_char CHR ''|'' then splitNo + 1 else splitNo)
                  in decode_loop name (i + 2) newName (UpdatePrimType primType splitNo asc) splitNo))
        else if splitNo < 2 then
          (case put_all (length name) newName [c] of Inl e \<Rightarrow> Inl e
           | Inr newName \<Rightarrow> decode_loop name i newName primType splitNo)
        else let primType = UpdatePrimType primType splitNo (ucast c) in
          (case put_all (length name) newName [if primType \<and> c = ch CHR ''A'' then ch CHR ''['' else c] of Inl e \<Rightarrow> Inl e
           | Inr newName \<Rightarrow> decode_loop name i newName primType splitNo))"
  by pat_completeness auto
termination by (relation "measure (\<lambda>(name, i, _). length name - i)") auto

declare decode_loop.simps [simp del]

definition DecodeName :: "bool \<Rightarrow> uint8 list \<Rightarrow> uint8 list result" where
  "DecodeName doCompression name =
     (if ch CHR '';'' \<in> set name then Inr name
      else decode_loop (if doCompression then DecompressName kInternalMangleTable name else name) 0 [] True 0)"

text \<open>\<open>nameOut\<close> is empty, or ends with a zero, where the loop over the leading letters stops.\<close>

definition DecodeMapleNameToJavaDescriptor :: "bool \<Rightarrow> uint8 list \<Rightarrow> uint8 list result" where
  "DecodeMapleNameToJavaDescriptor doCompression nameIn =
     bind_result (DecodeName doCompression nameIn) (\<lambda>nameOut.
       Inr (replicate (length (takeWhile (\<lambda>c. c = ch CHR ''A'') nameOut)) (ch CHR ''['') @ dropWhile (\<lambda>c. c = ch CHR ''A'') nameOut))"

section \<open>Names of native methods\<close>

text \<open>The index behind the letters \<^verbatim>\<open>A\<close> from \<open>i\<close> on, with one mark for each of them.\<close>

function array_marks :: "uint8 list \<Rightarrow> nat \<Rightarrow> nat \<Rightarrow> uint8 list \<Rightarrow> (nat \<times> uint8 list) result" where
  "array_marks name lim i newName =
     (if lim \<le> i then Inr (i, newName)
      else case char_at name i of Inl e \<Rightarrow> Inl e
        | Inr c \<Rightarrow> if c = ch CHR ''A'' then array_marks name lim (i + 1) (newName @ chars ''_3'') else Inr (i, newName))"
  by pat_completeness auto
termination by (relation "measure (\<lambda>(name, lim, i, _). lim - i)") auto

declare array_marks.simps [simp del]

lemma array_marks_le: "array_marks name lim i new = Inr (j, new') \<Longrightarrow> i \<le> j"
proof (induction name lim i new arbitrary: j new' rule: array_marks.induct)
  case (1 name lim i new)
  then show ?case by (subst (asm) array_marks.simps) (fastforce split: if_splits sum.splits)
qed

text \<open>What the two digits behind an underscore stand for: the text to append and the three flags, or the end.\<close>

definition native_escape :: "bool \<Rightarrow> uint8 \<Rightarrow> bool \<times> bool \<times> bool \<Rightarrow> (uint8 list \<times> bool \<times> bool \<times> bool) option" where
  "native_escape overLoaded asc flags =
     (let (isProto, isFuncname, isTypename) = flags in
      if asc = ch CHR ''/'' then Some (chars ''_'', isProto, isFuncname, isTypename)
      else if asc = ch CHR ''|'' \<and> \<not> isFuncname then Some (chars ''_'', isProto, True, isTypename)
      else if asc = ch CHR ''|'' \<and> isFuncname then (if \<not> overLoaded then None else Some (chars ''_'', isProto, False, isTypename))
      else if asc = ch CHR ''('' then Some (chars ''_'', True, isFuncname, isTypename)
      else if asc = ch CHR '')'' then None
      else if asc = ch CHR '';'' \<and> \<not> isFuncname then Some (if isProto then chars ''_2'' else [], isProto, isFuncname, False)
      else if asc = ch CHR ''$'' then Some (chars ''_00024'', isProto, isFuncname, isTypename)
      else if asc = ch CHR ''-'' then Some (chars ''_0002d'', isProto, isFuncname, isTypename)
      else Some ([], isProto, isFuncname, isTypename))"

text \<open>The digit behind an underscore is a (signed) \<^verbatim>\<open>char\<close> here, and its value is one byte.\<close>

definition native_digit :: "uint8 \<Rightarrow> uint8" where
  "native_digit c = (if sint c \<le> 0x39 then c - ch CHR ''0'' else c - ch CHR ''A'' + 10)"

function native_loop :: "uint8 list \<Rightarrow> uint8 list \<Rightarrow> bool \<Rightarrow> nat \<Rightarrow> uint8 list \<Rightarrow> bool \<times> bool \<times> bool \<Rightarrow> uint8 list result" where
  "native_loop name decompressedName overLoaded i newName flags =
     (if length decompressedName + 5 \<le> i then Inr newName
      else case char_at decompressedName i of Inl e \<Rightarrow> Inl e
      | Inr c \<Rightarrow>
        let (isProto, isFuncname, isTypename) = flags in
        if c = ch CHR ''_'' then
          (case char_at decompressedName (i + 1) of Inl e \<Rightarrow> Inl e
           | Inr c1 \<Rightarrow>
             if c1 = ch CHR ''u'' then native_loop name decompressedName overLoaded (i + 2) (newName @ chars ''_0'') flags
             else if c1 = ch CHR ''_'' then native_loop name decompressedName overLoaded (i + 2) (newName @ chars ''_1'') flags
             else (case char_at decompressedName (i + 2) of Inl e \<Rightarrow> Inl e
               | Inr c2 \<Rightarrow>
                 let asc = push_bit 4 (native_digit c1) + native_digit c2 in
                 (case native_escape overLoaded asc flags of
                    None \<Rightarrow> Inr newName
                  | Some (cs, flags) \<Rightarrow> native_loop name decompressedName overLoaded (i + 3) (newName @ cs) flags)))
        else if c = ch CHR ''L'' \<and> \<not> isFuncname \<and> \<not> isTypename then
          native_loop name decompressedName overLoaded (i + 1) (if isProto then newName @ [c] else newName) (isProto, isFuncname, True)
        else if c = ch CHR ''A'' \<and> \<not> isTypename \<and> \<not> isFuncname then
          (case array_marks name (i + length name + 2) i newName of Inl e \<Rightarrow> Inl e
           | Inr (j, newName) \<Rightarrow> if j = i then Inl (Undefined ''endless loop'') else native_loop name decompressedName overLoaded j newName flags)
        else native_loop name decompressedName overLoaded (i + 1) (newName @ [c]) flags)"
  by pat_completeness auto
termination
  by (relation "measure (\<lambda>(name, d, ov, i, _). length d + 5 - i)") (auto dest: array_marks_le)

declare native_loop.simps [simp del]

definition NativeJavaName :: "bool \<Rightarrow> uint8 list \<Rightarrow> bool \<Rightarrow> uint8 list result" where
  "NativeJavaName doCompression name overLoaded =
     (let decompressedName = (if doCompression then DecompressName kInternalMangleTable name else name) in
      bind_result (array_marks name (length decompressedName + 5) 0 (chars ''Java_'')) (\<lambda>(i, newName).
        native_loop name decompressedName overLoaded i newName (False, False, False)))"

end
