(* ===== verification/NameClaims.thy ===== *)
theory NameClaims
  imports NameMangler
begin

unbundle bit_operations_syntax

text \<open>
  What mangling makes of a name in UTF-8 and what comes back, the bytes that
  \<^verbatim>\<open>EncodeName\<close> writes, and the names of native methods.
\<close>

text \<open>Names as lists of code points.\<close>

abbreviation utf8 :: "uint32 list \<Rightarrow> uint8 list" where
  "utf8 cs \<equiv> concat (map utf8_bytes cs)"

abbreviation cp :: "char \<Rightarrow> uint32" where
  "cp c \<equiv> of_char c"

definition alnum :: "uint32 \<Rightarrow> bool" where
  "alnum c \<longleftrightarrow> c \<le> 0x7F \<and> isalnum (ucast c)"

text \<open>The mangled form of a code point.\<close>

definition mangle :: "uint32 \<Rightarrow> uint8 list" where
  "mangle c =
     (if c = cp CHR ''_'' then chars ''__''
      else if c = cp CHR ''['' then chars ''A''
      else if alnum c then [ucast c]
      else if c \<le> 0x7F then
        let b = (if c = cp CHR ''.'' then ch CHR ''/'' else ucast c)
        in [ch CHR ''_'', GETHEXCHARU (drop_bit 4 b), GETHEXCHARU (b - push_bit 4 (drop_bit 4 b))]
      else if c \<le> 0xFFFF then ch CHR ''_'' # ch CHR ''u'' # hex4 (utf16_units False c ! 0)
      else ch CHR ''_'' # ch CHR ''U'' # hex4 (utf16_units False c ! 0) @ hex4 (utf16_units False c ! 1))"

lemma unat_of_char: "unat (of_char x :: uint8) = of_char x" "unat (of_char x :: uint32) = of_char x"
proof -
  have "unat (word_of_nat n :: uint8) = n \<and> unat (word_of_nat n :: uint32) = n" if "n < 256" for n
    using that unfolding unsigned_of_nat by (simp add: take_bit_nat_eq_self)
  from this [OF nat_of_char_less_256 [of x]] show "unat (of_char x :: uint8) = of_char x" "unat (of_char x :: uint32) = of_char x"
    unfolding of_nat_of_char by simp_all
qed

lemma ascii_byte:
  assumes "c \<le> 0x7F"
  shows "utf8_bytes c = [ucast c]" "(ucast c :: uint8) \<le> 0x7F" "ucast c = ch x \<longleftrightarrow> c = cp x"
proof -
  have u: "unat (ucast c :: uint8) = unat c"
    using assms by (simp add: word_le_nat_alt unsigned_ucast_eq unsigned_take_bit_eq take_bit_nat_eq_self)
  then show "(ucast c :: uint8) \<le> 0x7F" using assms by (simp add: word_le_nat_alt)
  show "ucast c = ch x \<longleftrightarrow> c = cp x" unfolding word_unat_eq_iff u unat_of_char ..
qed (use assms in \<open>simp add: utf8_bytes_def\<close>)

lemma lead_byte: "\<not> c \<le> 0x7F \<Longrightarrow> c < 2 ^ 21 \<Longrightarrow> \<exists>b bs. utf8_bytes c = b # bs \<and> \<not> b \<le> 0x7F"
proof -
  assume c: "\<not> c \<le> 0x7F" "c < 2 ^ 21"
  have up: "b \<le> 0x7F \<longleftrightarrow> (ucast b :: uint32) \<le> 0x7F" for b :: uint8
  proof -
    have "unat b < 2 ^ 32" by (rule order_less_le_trans [OF unsigned_less]) simp
    then show ?thesis by (simp add: word_le_nat_alt unsigned_ucast_eq take_bit_nat_eq_self)
  qed
  consider "c \<le> 0x7FF" | "\<not> c \<le> 0x7FF" "c \<le> 0xFFFF" | "\<not> c \<le> 0xFFFF" by blast
  then show ?thesis
  proof cases
    case 1
    then have "c < 2 ^ 11" by (simp add: word_le_nat_alt word_less_nat_alt)
    then show ?thesis using c(1) 1 lead_range(2) [of c] unfolding utf8_bytes_def up by (auto simp: word_le_nat_alt)
  next
    case 2
    then show ?thesis using c(1) lead_range(3) [of "drop_bit 12 c"] unfolding utf8_bytes_def up by (auto simp: word_le_nat_alt)
  next
    case 3
    then show ?thesis using c(1) lead_range(4) [of "drop_bit 18 c"] unfolding utf8_bytes_def up by (auto simp: word_le_nat_alt)
  qed
qed

lemma high_byte_class: "\<not> b \<le> 0x7F \<Longrightarrow> b \<noteq> ch CHR ''_'' \<and> b \<noteq> ch CHR ''['' \<and> \<not> isalnum b" for b :: uint8
  by (auto simp: isalnum_def word_le_nat_alt)

lemma encode_char_mangle:
  assumes "c < 2 ^ 21"
  shows "encode_char (pre @ utf8_bytes c @ post) (length pre) = Inr (mangle c, length pre + length (utf8_bytes c))"
proof (cases "c \<le> 0x7F")
  case True
  note a = ascii_byte [OF True]
  show ?thesis unfolding encode_char_def mangle_def alnum_def a(1)
    using True a(2) a(3) [of "CHR ''_''"] a(3) [of "CHR ''[''"] a(3) [of "CHR ''.''"] by (simp add: Let_def chars_def)
next
  case False
  then obtain b bs where b: "utf8_bytes c = b # bs" "\<not> b \<le> 0x7F" using lead_byte assms by blast
  have "GetCodePoint (utf8_bytes c @ post) 0 = Inr (c, length (utf8_bytes c))" using GetCodePoint_utf8 [OF assms, of "[]" post] by simp
  then obtain n where n: "UTF8ToUTF16 [] (utf8_bytes c @ post) 1 False = Inr (utf16_units False c, n)" "unat (n AND 0xFFFF) = length (utf8_bytes c)"
      "drop_bit 16 n = 1 \<longleftrightarrow> c \<le> 0xFFFF"
    using UTF8ToUTF16_one [of "utf8_bytes c @ post"] b by fastforce
  have m: "mangle c = (if c \<le> 0xFFFF then ch CHR ''_'' # ch CHR ''u'' # hex4 (utf16_units False c ! 0)
      else ch CHR ''_'' # ch CHR ''U'' # hex4 (utf16_units False c ! 0) @ hex4 (utf16_units False c ! 1))"
    using False by (auto simp: mangle_def alnum_def)
  have "(pre @ utf8_bytes c @ post) ! length pre = b" using b by simp
  then show ?thesis
    using high_byte_class [OF b(2)] b(2) n unfolding encode_char_def m by (simp add: Let_def)
qed

lemma mangle_size: "length (mangle c) \<le> 3 * length (utf8_bytes c)"
  by (auto simp: mangle_def chars_def utf8_bytes_count hex4_def Let_def alnum_def word_le_nat_alt)

lemma utf8_size: "1 \<le> length (utf8_bytes c)"
  by (simp add: utf8_bytes_count)

lemma encode_loop_mangle:
  assumes "\<forall>c\<in>set cs. c < 2 ^ 21" and "name = pre @ utf8 cs" and "length name \<le> kMaxCodecbufSize"
    and "length buf + 3 * length (utf8 cs) \<le> cap"
  shows "encode_loop cap name (length pre) buf = Inr (buf @ concat (map mangle cs))"
  using assms
proof (induction cs arbitrary: pre buf)
  case Nil
  then show ?case by (subst encode_loop.simps) (simp add: name_len_def)
next
  case (Cons c cs)
  have e: "encode_char name (length pre) = Inr (mangle c, length pre + length (utf8_bytes c))"
    using encode_char_mangle [of c pre "utf8 cs"] Cons.prems(1,2) by simp
  have p: "put_all cap buf (mangle c) = Inr (buf @ mangle c)" using mangle_size [of c] Cons.prems(4) by (simp add: put_all_def)
  have "encode_loop cap name (length (pre @ utf8_bytes c)) (buf @ mangle c) = Inr ((buf @ mangle c) @ concat (map mangle cs))"
    using Cons.prems mangle_size [of c] by (intro Cons.IH) simp_all
  moreover have "length pre < length name" using Cons.prems(2) utf8_size [of c] by (cases "utf8_bytes c") auto
  then have "\<not> name_len name \<le> length pre" using Cons.prems(3) by (simp add: name_len_def)
  ultimately show ?case using e p by (subst encode_loop.simps) simp
qed

text \<open>Whether a code point takes three bytes in the mangled form for each of its bytes.\<close>

definition escaped :: "uint32 \<Rightarrow> bool" where
  "escaped c \<longleftrightarrow> c \<le> 0x7FF \<and> \<not> alnum c \<and> c \<noteq> cp CHR ''_'' \<and> c \<noteq> cp CHR ''[''"

lemma mangle_full: "length (mangle c) = 3 * length (utf8_bytes c) \<longleftrightarrow> escaped c"
  by (auto simp: escaped_def mangle_def chars_def utf8_bytes_count hex4_def Let_def alnum_def word_le_nat_alt)

lemma mangles_size: "length (concat (map mangle cs)) \<le> 3 * length (utf8 cs)"
  by (induction cs) (use mangle_size in \<open>auto intro: add_mono simp: algebra_simps\<close>)

lemma mangles_full: "length (concat (map mangle cs)) = 3 * length (utf8 cs) \<longleftrightarrow> (\<forall>c\<in>set cs. escaped c)"
proof (induction cs)
  case (Cons c cs)
  then show ?case using mangles_size [of cs] mangle_full [of c] mangle_size [of c] by auto
qed simp

lemma EncodeName_mangle:
  assumes "\<forall>c\<in>set cs. c < 0x110000" and "length (utf8 cs) \<le> kMaxCodecbufSize"
  shows "EncodeName False (utf8 cs) =
    (if cs \<noteq> [] \<and> (\<forall>c\<in>set cs. escaped c) \<and> (length (utf8 cs) \<le> kLocalCodebufSize \<or> length (utf8 cs) = kMaxCodecbufSize)
     then Inl (Undefined ''write behind the buffer'') else Inr (concat (map mangle cs)))"
proof (cases "cs = []")
  case True
  then show ?thesis by (simp add: EncodeName_def name_len_def AllocCodecBuf_def)
next
  case False
  let ?n = "length (utf8 cs)"
  have "0 < ?n" using False utf8_size by (cases cs) (auto simp: Suc_le_eq)
  define cap where "cap = (if ?n \<le> kLocalCodebufSize then 3 * ?n else 3 * kMaxCodecbufSize)"
  have a: "AllocCodecBuf (name_len (utf8 cs)) = Some cap"
    using \<open>0 < ?n\<close> assms(2) by (simp add: AllocCodecBuf_def name_len_def cap_def del: length_concat)
  have le: "3 * ?n \<le> cap" using assms(2) unfolding cap_def by auto
  have "\<forall>c\<in>set cs. c < 2 ^ 21" using assms(1) by (fastforce simp: word_less_nat_alt)
  then have e: "encode_loop cap (utf8 cs) 0 [] = Inr (concat (map mangle cs))"
    using encode_loop_mangle [of cs "utf8 cs" "[]" "[]" cap] assms(2) le by simp
  have m: "length (concat (map mangle cs)) \<le> 3 * ?n" by (rule mangles_size)
  have "length (concat (map mangle cs)) = cap \<longleftrightarrow> (\<forall>c\<in>set cs. escaped c) \<and> (?n \<le> kLocalCodebufSize \<or> ?n = kMaxCodecbufSize)"
    using mangles_full [of cs] m assms(2) unfolding cap_def by (auto simp: kLocalCodebufSize_def kMaxCodecbufSize_def)
  then show ?thesis using False a e m le by (auto simp: EncodeName_def put_all_def)
qed

section \<open>Decoding\<close>

text \<open>The code point that comes back for one, and the state behind it.\<close>

definition decode_point :: "bool \<Rightarrow> nat \<Rightarrow> uint32 \<Rightarrow> uint32 \<times> bool \<times> nat" where
  "decode_point primType splitNo c =
     (if c = cp CHR ''_'' \<or> \<not> c \<le> 0x7F then (c, primType, splitNo)
      else if c = cp CHR ''['' \<or> alnum c then
        let c = (if c = cp CHR ''['' then cp CHR ''A'' else c) in
        if splitNo < 2 then (c, primType, splitNo)
        else let primType = UpdatePrimType primType splitNo c
             in (if primType \<and> c = cp CHR ''A'' then cp CHR ''['' else c, primType, splitNo)
      else
        let c = (if c = cp CHR ''.'' then cp CHR ''/'' else c);
            splitNo = (if c = cp CHR ''|'' then splitNo + 1 else splitNo)
        in (c, UpdatePrimType primType splitNo c, splitNo))"

fun decoded :: "bool \<Rightarrow> nat \<Rightarrow> uint32 list \<Rightarrow> uint32 list" where
  "decoded primType splitNo [] = []"
| "decoded primType splitNo (c # cs) =
     (case decode_point primType splitNo c of (c, primType, splitNo) \<Rightarrow> c # decoded primType splitNo cs)"

lemma below_16: "d < 16 \<Longrightarrow> d \<in> set [0, 1, 2, 3, 4, 5, 6, 7, 8, 9, 10, 11, 12, 13, 14, 15]" for d :: uint8
proof -
  assume "d < 16"
  then have "unat d \<in> set [0..<16]" by (simp add: word_less_nat_alt)
  also have "[0..<16] = map unat [0, 1, 2, 3, 4, 5, 6, 7, 8, 9, 10, 11, 12, 13, 14, 15 :: uint8]" by code_simp
  finally show ?thesis unfolding set_map by (auto simp only: word_unat_eq_iff [symmetric] image_iff)
qed

lemma hex_digits:
  assumes "d < 16"
  shows "hex_value CHR ''A'' (GETHEXCHARU d) = ucast d" "GETHEXCHARU d \<noteq> ch CHR ''_''" "GETHEXCHARU d \<noteq> ch CHR ''u''"
    "hex_value CHR ''a'' (GETHEXCHAR d) = ucast d" "GETHEXCHAR d \<noteq> ch CHR ''_''" "GETHEXCHAR d \<noteq> ch CHR ''A''" "GETHEXCHAR d \<noteq> ch CHR ''L''"
    "isalnum (GETHEXCHARU d)" "isalnum (GETHEXCHAR d)"
proof -
  have "list_all (\<lambda>d. hex_value CHR ''A'' (GETHEXCHARU d) = ucast d \<and> GETHEXCHARU d \<noteq> ch CHR ''_'' \<and> GETHEXCHARU d \<noteq> ch CHR ''u'' \<and>
      hex_value CHR ''a'' (GETHEXCHAR d) = ucast d \<and> GETHEXCHAR d \<noteq> ch CHR ''_'' \<and> GETHEXCHAR d \<noteq> ch CHR ''A'' \<and> GETHEXCHAR d \<noteq> ch CHR ''L'' \<and>
      isalnum (GETHEXCHARU d) \<and> isalnum (GETHEXCHAR d)) [0, 1, 2, 3, 4, 5, 6, 7, 8, 9, 10, 11, 12, 13, 14, 15]"
    by code_simp
  then show "hex_value CHR ''A'' (GETHEXCHARU d) = ucast d" "GETHEXCHARU d \<noteq> ch CHR ''_''" "GETHEXCHARU d \<noteq> ch CHR ''u''"
    "hex_value CHR ''a'' (GETHEXCHAR d) = ucast d" "GETHEXCHAR d \<noteq> ch CHR ''_''" "GETHEXCHAR d \<noteq> ch CHR ''A''" "GETHEXCHAR d \<noteq> ch CHR ''L''"
    "isalnum (GETHEXCHARU d)" "isalnum (GETHEXCHAR d)"
    using below_16 [OF assms] unfolding list_all_iff by blast+
qed

lemma UTF16ToUTF8_one:
  "\<exists>n. UTF16ToUTF8 [] [u] 1 be = Inr (utf8_bytes (ucast u), n) \<and> unat (drop_bit 16 n) = length (utf8_bytes (ucast u))"
proof -
  let ?s = "utf8_bytes (ucast u)"
  let ?n = "push_bit 16 (ucast (word_of_nat (length ?s) :: uint16)) OR word_of_nat 1 :: uint32"
  have "code_unit be 1 [u] 0 = Inr (ucast u, 1)" using code_unit_append [of be 1 "[]" u "[]"] by (simp add: unit_point_def)
  then have "UTF16ToUTF8 [] [u] 1 be = Inr (?s, ?n)" unfolding UTF16ToUTF8_def by (subst utf16_to_utf8.simps) (simp add: Let_def)
  moreover have "length ?s \<in> {1, 2, 3, 4}" by (simp add: utf8_bytes_count)
  then have "unat (drop_bit 16 ?n) = length ?s" by auto
  ultimately show ?thesis by blast
qed

text \<open>The four digits of a unit, read back.\<close>

lemma nibble_less: "(ucast (x AND 0x000F) :: uint8) < 16" for x :: uint16
proof -
  have m: "0xF = (mask 4 :: uint16)" by (simp add: mask_eq_exp_minus_1)
  have "unat (take_bit 4 x) < 16" unfolding unsigned_take_bit_eq by (rule order_less_le_trans [OF take_bit_nat_less_exp]) simp
  then show ?thesis unfolding m take_bit_eq_mask [symmetric] word_less_nat_alt
    by (simp add: unsigned_ucast_eq) (metis take_bit_nat_less_eq_self order_le_less_trans)
qed

lemma hex4_digits:
  obtains d1 d2 d3 d4 where "hex4 m = [GETHEXCHAR d1, GETHEXCHAR d2, GETHEXCHAR d3, GETHEXCHAR d4]"
    and "d1 < 16" "d2 < 16" "d3 < 16" "d4 < 16"
    and "push_bit 12 (ucast d1) OR push_bit 8 (ucast d2) OR push_bit 4 (ucast d3) OR ucast d4 = (ucast m :: uint32)"
proof -
  have e: "drop_bit 12 (m AND 0xF000) = drop_bit 12 m AND 0xF" "drop_bit 8 (m AND 0x0F00) = drop_bit 8 m AND 0xF"
    "drop_bit 4 (m AND 0x00F0) = drop_bit 4 m AND 0xF" by simp_all
  let ?d = "\<lambda>k. ucast (drop_bit k m AND 0xF) :: uint8"
  have "bit (0xF :: int) n \<longleftrightarrow> n < 4" for n
  proof -
    have "(0xF :: int) = mask 4" by (simp add: mask_eq_exp_minus_1)
    then show ?thesis by (simp only: bit_mask_iff possible_bit_int HOL.simp_thms)
  qed
  then have b: "push_bit 12 (ucast (?d 12)) OR push_bit 8 (ucast (?d 8)) OR push_bit 4 (ucast (?d 4)) OR ucast (?d 0) = (ucast m :: uint32)"
  proof (intro bit_word_eqI)
    fix n assume q: "\<And>n. bit (0xF :: int) n \<longleftrightarrow> n < 4"
    show "bit (push_bit 12 (ucast (?d 12)) OR push_bit 8 (ucast (?d 8)) OR push_bit 4 (ucast (?d 4)) OR ucast (?d 0) :: uint32) n = bit (ucast m :: uint32) n"
      using bit_imp_le_length [of m n] by (cases "n < 4"; cases "n < 8"; cases "n < 12"; cases "n < 16") (auto simp: bit_simps q)
  qed
  show thesis
  proof (rule that [of "?d 12" "?d 8" "?d 4" "?d 0"])
    show "hex4 m = [GETHEXCHAR (?d 12), GETHEXCHAR (?d 8), GETHEXCHAR (?d 4), GETHEXCHAR (?d 0)]" by (simp add: hex4_def)
  qed (rule nibble_less | rule b)+
qed

lemma decode_unit_hex4: "decode_unit (pre @ hex4 m @ post) (length pre) = Inr (if 2 \<le> length (utf8_bytes (ucast m)) then utf8_bytes (ucast m) else [])"
proof -
  obtain n where n: "UTF16ToUTF8 [] [m] 1 False = Inr (utf8_bytes (ucast m), n)" "unat (drop_bit 16 n) = length (utf8_bytes (ucast m))"
    using UTF16ToUTF8_one [of m False] by blast
  have l: "length (utf8_bytes (ucast m)) \<in> {1, 2, 3, 4}" by (simp add: utf8_bytes_count)
  obtain d1 d2 d3 d4 where d: "hex4 m = [GETHEXCHAR d1, GETHEXCHAR d2, GETHEXCHAR d3, GETHEXCHAR d4]"
      and h: "d1 < 16" "d2 < 16" "d3 < 16" "d4 < 16"
      and b: "push_bit 12 (ucast d1) OR push_bit 8 (ucast d2) OR push_bit 4 (ucast d3) OR ucast d4 = (ucast m :: uint32)"
    by (rule hex4_digits)
  have u: "ucast (ucast x :: uint32) = x" for x :: uint8 by (rule bit_word_eqI) (auto simp: bit_simps)
  have c: "char_at (pre @ hex4 m @ post) (length pre) = Inr (GETHEXCHAR d1)" "char_at (pre @ hex4 m @ post) (length pre + 1) = Inr (GETHEXCHAR d2)"
      "char_at (pre @ hex4 m @ post) (length pre + 2) = Inr (GETHEXCHAR d3)" "char_at (pre @ hex4 m @ post) (length pre + 3) = Inr (GETHEXCHAR d4)"
    by (simp_all add: d char_at_def nth_append)
  show ?thesis
    unfolding decode_unit_def c bind_result_simps Let_def hex_digits(4) [OF h(1)] hex_digits(4) [OF h(2)] hex_digits(4) [OF h(3)] hex_digits(4) [OF h(4)] u b ucast_16_32 n(1)
    using n(2) l by auto
qed

lemma byte_digits:
  assumes "b \<le> (0x7F :: uint8)"
  shows "drop_bit 4 b < 16" "b - push_bit 4 (drop_bit 4 b) < 16"
    "push_bit 4 (ucast (drop_bit 4 b)) + ucast (b - push_bit 4 (drop_bit 4 b)) = (ucast b :: uint32)"
proof -
  show "drop_bit 4 b < 16" using assms unfolding word_less_nat_alt word_le_nat_alt unat_drop_bit by simp
  have t: "b - push_bit 4 (drop_bit 4 b) = take_bit 4 b" using bits_ident [of 4 b] by (metis add_diff_cancel_left')
  have "unat (take_bit 4 b) < 16" unfolding unsigned_take_bit_eq by (rule order_less_le_trans [OF take_bit_nat_less_exp]) simp
  then show "b - push_bit 4 (drop_bit 4 b) < 16" unfolding t word_less_nat_alt by simp
  have "(ucast (drop_bit 4 b) :: uint32) = drop_bit 4 (ucast b)" "(ucast (take_bit 4 b) :: uint32) = take_bit 4 (ucast b)"
    by (rule bit_word_eqI; auto simp: bit_simps dest: bit_imp_le_length)+
  then show "push_bit 4 (ucast (drop_bit 4 b)) + ucast (b - push_bit 4 (drop_bit 4 b)) = (ucast b :: uint32)"
    unfolding t by (simp add: bits_ident)
qed

lemma ucast_ascii: "c \<le> 0x7F \<Longrightarrow> ucast (ucast c :: uint8) = c" for c :: uint32
  by (rule lead_range(1))

lemma alnum_plain: "alnum c \<Longrightarrow> c \<noteq> cp CHR ''_'' \<and> c \<noteq> cp CHR ''['' \<and> (ucast c :: uint8) \<noteq> ch CHR ''_'' \<and> (ucast c :: uint8) \<noteq> ch CHR '';''"
  by (auto simp: alnum_def isalnum_def word_le_nat_alt word_unat_eq_iff unsigned_ucast_eq unsigned_take_bit_eq)

text \<open>One code point read back: an unchanged character, an underscore, two digits, a unit.\<close>

lemma decode_plain:
  assumes "alnum c" and "name = pre @ [ucast c] @ post" and "length buf \<le> length pre"
  shows "decode_loop name (length pre) buf primType splitNo =
    (let primType' = (if splitNo < 2 then primType else UpdatePrimType primType splitNo c);
         c' = (if \<not> splitNo < 2 \<and> primType' \<and> c = cp CHR ''A'' then cp CHR ''['' else c)
     in decode_loop name (length (pre @ [ucast c :: uint8])) (buf @ utf8_bytes c') primType' splitNo)"
proof -
  have c: "c \<le> 0x7F" using assms(1) by (simp add: alnum_def)
  have "ucast c \<noteq> ch CHR ''_''" using alnum_plain [OF assms(1)] by blast
  moreover have "name ! length pre = ucast c" "length pre < length name" using assms(2) by simp_all
  moreover have "put_all (length name) buf [x] = Inr (buf @ [x])" for x using assms(2,3) by (simp add: put_all_def)
  moreover have "utf8_bytes c = [ucast c]" "utf8_bytes (cp CHR ''['') = [ch CHR ''['']" "ucast c = ch CHR ''A'' \<longleftrightarrow> c = cp CHR ''A''"
    using ascii_byte(1) [OF c] ascii_byte(3) [OF c, of "CHR ''A''"] by (simp_all add: utf8_bytes_def)
  ultimately show ?thesis using ucast_ascii [OF c] by (subst decode_loop.simps) (cases "c = cp CHR ''A''"; simp add: Let_def)
qed

lemma decode_digits:
  assumes "b \<le> (0x7F :: uint8)" and "length buf \<le> length pre"
    and "name = pre @ [ch CHR ''_'', GETHEXCHARU (drop_bit 4 b), GETHEXCHARU (b - push_bit 4 (drop_bit 4 b))] @ post"
  shows "decode_loop name (length pre) buf primType splitNo =
    (let splitNo = (if ucast b = cp CHR ''|'' then splitNo + 1 else splitNo)
     in decode_loop name (length pre + 3) (buf @ [b]) (UpdatePrimType primType splitNo (ucast b)) splitNo)"
proof -
  let ?h = "GETHEXCHARU (drop_bit 4 b)" and ?l = "GETHEXCHARU (b - push_bit 4 (drop_bit 4 b))"
  note d = byte_digits [OF assms(1)]
  have n: "name ! length pre = ch CHR ''_''" "name ! (length pre + 1) = ?h" "name ! (length pre + 1 + 1) = ?l" "length pre + 2 < length name"
    using assms(3) by (simp_all add: nth_append)
  have asc: "push_bit 4 (hex_value CHR ''A'' ?h) + hex_value CHR ''A'' ?l = ucast b"
    unfolding hex_digits(1) [OF d(1)] hex_digits(1) [OF d(2)] d(3) ..
  have p: "put_all (length name) buf [b] = Inr (buf @ [b])" using assms(2) n(4) by (simp add: put_all_def)
  have u: "ucast (ucast b :: uint32) = b" by (rule bit_word_eqI) (auto simp: bit_simps)
  have g: "\<not> length name \<le> length pre" "\<not> length name \<le> length pre + 1" "\<not> length name \<le> length pre + 1 + 1" using n(4) by simp_all
  show ?thesis
    by (subst decode_loop.simps) (simp only: n(1-3) g if_False if_True Let_def asc u p sum.case hex_digits(2,3) [OF d(1)], simp add: numeral_3_eq_3)
qed

lemma decode_hex4:
  assumes "\<not> c \<le> 0x7F" "c \<le> 0xFFFF" and "length buf \<le> length pre" and "name = pre @ mangle c @ post"
  shows "decode_loop name (length pre) buf primType splitNo = decode_loop name (length (pre @ mangle c)) (buf @ utf8_bytes c) primType splitNo"
proof -
  let ?m = "utf16_units False c ! 0"
  have m: "mangle c = ch CHR ''_'' # ch CHR ''u'' # hex4 ?m" using assms(1,2) by (auto simp: mangle_def alnum_def)
  have c: "ucast ?m = c" using assms(2)
    by (simp add: utf16_units_def word_le_nat_alt word_unat_eq_iff unsigned_ucast_eq unsigned_take_bit_eq take_bit_nat_eq_self)
  have "2 \<le> length (utf8_bytes c)" using assms(1) by (simp add: utf8_bytes_count)
  then have u: "decode_unit name (length pre + 1 + 1) = Inr (utf8_bytes c)"
    using decode_unit_hex4 [of "pre @ [ch CHR ''_'', ch CHR ''u'']" ?m post] assms(4) unfolding m c by simp
  have l: "length (hex4 ?m) = 4" by (simp add: hex4_def)
  have n: "name ! length pre = ch CHR ''_''" "name ! (length pre + 1) = ch CHR ''u''" "length pre + 6 \<le> length name"
    using assms(4) l unfolding m by (simp_all add: nth_append)
  have "length (utf8_bytes c) \<le> 3" using assms(2) by (simp add: utf8_bytes_count)
  then have p: "put_all (length name) buf (utf8_bytes c) = Inr (buf @ utf8_bytes c)" using assms(3) n(3) by (simp add: put_all_def)
  have g: "\<not> length name \<le> length pre" "\<not> length name \<le> length pre + 1" using n(3) by simp_all
  have e: "length (pre @ mangle c) = length pre + 1 + 5" using l by (simp add: m)
  show ?thesis unfolding e
    by (subst decode_loop.simps) (simp only: n(1,2) g if_False if_True Let_def u p bind_result_simps sum.case, simp)
qed

lemma decode_point_step:
  assumes "c \<le> 0xFFFF" and "decode_point primType splitNo c = (c', primType', splitNo')"
    and "name = pre @ mangle c @ post" and "length buf \<le> length pre"
  shows "decode_loop name (length pre) buf primType splitNo = decode_loop name (length (pre @ mangle c)) (buf @ utf8_bytes c') primType' splitNo' \<and>
    length (utf8_bytes c') \<le> length (mangle c)"
proof -
  consider "c = cp CHR ''_''" | "\<not> c \<le> 0x7F" | "c \<le> 0x7F" "c \<noteq> cp CHR ''_''" "c = cp CHR ''['' \<or> alnum c"
    | "c \<le> 0x7F" "c \<noteq> cp CHR ''_''" "\<not> (c = cp CHR ''['' \<or> alnum c)" by blast
  then show ?thesis
  proof cases
    case 1
    have "mangle c = [ch CHR ''_'', ch CHR ''_'']" "utf8_bytes c = [ch CHR ''_'']" using 1 by (simp_all add: mangle_def chars_def utf8_bytes_def)
    then show ?thesis using 1 assms(2-4) by (subst decode_loop.simps) (auto simp: decode_point_def Let_def put_all_def nth_append)
  next
    case 2
    then have "c' = c" "primType' = primType" "splitNo' = splitNo" using assms(2) by (auto simp: decode_point_def)
    moreover have "length (mangle c) = 6" using 2 assms(1) by (auto simp: mangle_def alnum_def hex4_def)
    ultimately show ?thesis using decode_hex4 [OF 2 assms(1,4,3)] by (simp add: utf8_bytes_count)
  next
    case 3
    define c0 where "c0 = (if c = cp CHR ''['' then cp CHR ''A'' else c)"
    have a: "alnum c0" using 3(3) by (auto simp: c0_def alnum_def isalnum_def)
    have m: "mangle c = [ucast c0]" using 3 by (auto simp: c0_def mangle_def chars_def)
    have "decode_point primType splitNo c = (let primType' = (if splitNo < 2 then primType else UpdatePrimType primType splitNo c0);
         c' = (if \<not> splitNo < 2 \<and> primType' \<and> c0 = cp CHR ''A'' then cp CHR ''['' else c0) in (c', primType', splitNo))"
      using 3 by (cases "c = cp CHR ''A''"; cases "c = cp CHR ''[''") (simp_all add: decode_point_def c0_def Let_def)
    then have e: "primType' = (if splitNo < 2 then primType else UpdatePrimType primType splitNo c0)"
        "c' = (if \<not> splitNo < 2 \<and> primType' \<and> c0 = cp CHR ''A'' then cp CHR ''['' else c0)" "splitNo' = splitNo"
      using assms(2) by (simp_all add: Let_def)
    have "c' \<le> 0x7F" using a e(2) by (auto simp: alnum_def)
    then show ?thesis
      using decode_plain [OF a, of name pre post buf primType splitNo] assms(3,4) e unfolding m by (simp add: Let_def utf8_bytes_count)
  next
    case 4
    define b where "b = (if c = cp CHR ''.'' then ch CHR ''/'' else (ucast c :: uint8))"
    have b: "b \<le> 0x7F" "ucast b = (if c = cp CHR ''.'' then cp CHR ''/'' else c)"
      using ascii_byte(2) [OF 4(1)] ucast_ascii [OF 4(1)] by (simp_all add: b_def)
    have m: "mangle c = [ch CHR ''_'', GETHEXCHARU (drop_bit 4 b), GETHEXCHARU (b - push_bit 4 (drop_bit 4 b))]"
      using 4 by (auto simp: mangle_def b_def Let_def)
    have e: "c' = ucast b" "splitNo' = (if ucast b = cp CHR ''|'' then splitNo + 1 else splitNo)" "primType' = UpdatePrimType primType splitNo' (ucast b)"
      using assms(2) 4 unfolding decode_point_def b(2) by (auto simp: Let_def)
    have u: "ucast (ucast b :: uint32) = b" by (rule bit_word_eqI) (auto simp: bit_simps)
    have "c' \<le> 0x7F" using b(1) 4(1) unfolding e(1) b(2) by simp
    then have "utf8_bytes c' = [b]" using e(1) u by (simp add: utf8_bytes_def)
    then show ?thesis using decode_digits [OF b(1) assms(4), of name post primType splitNo] assms(3) e(2,3) unfolding m by (simp add: Let_def numeral_3_eq_3)
  qed
qed

lemma decode_loop_mangle:
  assumes "\<forall>c\<in>set cs. c \<le> 0xFFFF" and "name = pre @ concat (map mangle cs)" and "length buf \<le> length pre"
  shows "decode_loop name (length pre) buf primType splitNo = Inr (buf @ utf8 (decoded primType splitNo cs))"
  using assms
proof (induction cs arbitrary: pre buf primType splitNo)
  case Nil
  then show ?case by (subst decode_loop.simps) simp
next
  case (Cons c cs)
  obtain c' p' s' where d: "decode_point primType splitNo c = (c', p', s')" by (metis prod_cases3)
  have st: "decode_loop name (length pre) buf primType splitNo = decode_loop name (length (pre @ mangle c)) (buf @ utf8_bytes c') p' s'"
      "length (utf8_bytes c') \<le> length (mangle c)"
    using decode_point_step [OF _ d, of name pre "concat (map mangle cs)" buf] Cons.prems by simp_all
  have "decode_loop name (length (pre @ mangle c)) (buf @ utf8_bytes c') p' s' = Inr ((buf @ utf8_bytes c') @ utf8 (decoded p' s' cs))"
    using Cons.prems st(2) by (intro Cons.IH) simp_all
  then show ?case using st(1) d by simp
qed

lemma mangle_alnum: "c \<le> 0xFFFF \<Longrightarrow> b \<in> set (mangle c) \<Longrightarrow> isalnum b \<or> b = ch CHR ''_''"
proof -
  assume c: "c \<le> 0xFFFF" and b: "b \<in> set (mangle c)"
  obtain d1 d2 d3 d4 where h: "hex4 (utf16_units False c ! 0) = [GETHEXCHAR d1, GETHEXCHAR d2, GETHEXCHAR d3, GETHEXCHAR d4]"
      "d1 < 16" "d2 < 16" "d3 < 16" "d4 < 16"
    by (rule hex4_digits)
  then have "\<forall>b\<in>set (hex4 (utf16_units False c ! 0)). isalnum b" using hex_digits(9) by simp
  moreover have "isalnum (GETHEXCHARU (drop_bit 4 b)) \<and> isalnum (GETHEXCHARU (b - push_bit 4 (drop_bit 4 b)))" if "b \<le> 0x7F" for b
    using hex_digits(8) byte_digits(1,2) [OF that] by blast
  moreover have "(if c = cp CHR ''.'' then ch CHR ''/'' else ucast c) \<le> (0x7F :: uint8)" if "c \<le> 0x7F"
    using ascii_byte(2) [OF that] by simp
  moreover have "isalnum (ch CHR ''A'')" "isalnum (ch CHR ''u'')" "alnum c \<Longrightarrow> isalnum (ucast c)" by (simp_all add: isalnum_def alnum_def)
  moreover have "isalnum (GETHEXCHARU 2)" "isalnum (GETHEXCHARU 15)" by (simp_all add: isalnum_def GETHEXCHARU_def)
  ultimately show ?thesis using b c unfolding mangle_def Let_def chars_def by (auto split: if_splits)
qed

lemma mangle_no_semicolon: "c \<le> 0xFFFF \<Longrightarrow> ch CHR '';'' \<notin> set (mangle c)"
  using mangle_alnum [of c "ch CHR '';''"] by (auto simp: isalnum_def)

lemma DecodeName_mangle:
  assumes "\<forall>c\<in>set cs. c \<le> 0xFFFF"
  shows "DecodeName False (concat (map mangle cs)) = Inr (utf8 (decoded True 0 cs))"
  using mangle_no_semicolon assms decode_loop_mangle [of cs "concat (map mangle cs)" "[]" "[]" True 0] by (auto simp: DecodeName_def)

text \<open>A name with at most one separator and without dots and brackets comes back as it was.\<close>

lemma decoded_plain:
  assumes "cp CHR ''.'' \<notin> set cs" "cp CHR ''['' \<notin> set cs" and "splitNo + count_list cs (cp CHR ''|'') < 2"
  shows "decoded primType splitNo cs = cs"
  using assms
proof (induction cs arbitrary: primType splitNo)
  case (Cons c cs)
  obtain c' p' s' where d: "decode_point primType splitNo c = (c', p', s')" by (metis prod_cases3)
  have "c \<noteq> cp CHR ''.''" "c \<noteq> cp CHR ''[''" "splitNo < 2" using Cons.prems by auto
  then have "c' = c" "s' + count_list cs (cp CHR ''|'') < 2"
    using d Cons.prems(3) by (auto simp: decode_point_def Let_def split: if_splits)
  then show ?case using Cons d by simp
qed simp

text \<open>(C6) What \<^verbatim>\<open>EncodeName\<close> and \<^verbatim>\<open>DecodeName\<close> do to a name in UTF-8 with code points up to \<^verbatim>\<open>0xFFFF\<close> whose mangled form
  is shorter than three times the name: both end, the mangled name has only letters,
  digits and underscores, and \<open>decoded\<close> comes back, which is the name itself if it has no
  dot, no bracket and at most one separator.\<close>

theorem DecodeName_EncodeName:
  assumes "\<forall>c\<in>set cs. c \<le> 0xFFFF" and "length (utf8 cs) \<le> kMaxCodecbufSize" and "\<exists>c\<in>set cs. \<not> escaped c"
  shows "\<exists>e. EncodeName False (utf8 cs) = Inr e \<and> (\<forall>b\<in>set e. isalnum b \<or> b = ch CHR ''_'') \<and>
    DecodeName False e = Inr (utf8 (decoded True 0 cs)) \<and>
    (cp CHR ''.'' \<notin> set cs \<and> cp CHR ''['' \<notin> set cs \<and> count_list cs (cp CHR ''|'') < 2 \<longrightarrow> decoded True 0 cs = cs)"
proof -
  have "\<forall>c\<in>set cs. c < 0x110000" using assms(1) by (fastforce simp: word_less_nat_alt word_le_nat_alt)
  then have "EncodeName False (utf8 cs) = Inr (concat (map mangle cs))" using EncodeName_mangle [OF _ assms(2)] assms(3) by auto
  moreover have "isalnum b \<or> b = ch CHR ''_''" if "b \<in> set (concat (map mangle cs))" for b
    using that mangle_alnum assms(1) by auto
  moreover have "DecodeName False (concat (map mangle cs)) = Inr (utf8 (decoded True 0 cs))" by (rule DecodeName_mangle [OF assms(1)])
  ultimately show ?thesis using decoded_plain [of cs 0 True] by auto
qed

theorem DecodeName_EncodeName_witness:
  "\<exists>e. EncodeName False (chars ''Lfoo/A_b;|m'') = Inr e \<and> DecodeName False e = Inr (chars ''Lfoo/A_b;|m'')"
proof -
  define cs where "cs = map (\<lambda>c. cp c) ''Lfoo/A_b;|m''"
  have u: "utf8 cs = chars ''Lfoo/A_b;|m''" and e: "\<not> escaped (cp CHR ''L'')" and p: "list_all (\<lambda>c. c \<le> 0xFFFF) cs"
    unfolding cs_def by code_simp+
  have l: "length (utf8 cs) \<le> kMaxCodecbufSize" unfolding u by (simp add: kMaxCodecbufSize_def chars_def)
  have "\<exists>c\<in>set cs. \<not> escaped c" using e by (simp add: cs_def)
  moreover have "cp CHR ''.'' \<notin> set cs \<and> cp CHR ''['' \<notin> set cs \<and> count_list cs (cp CHR ''|'') < 2" by (simp add: cs_def)
  ultimately obtain e where e: "EncodeName False (utf8 cs) = Inr e" and d: "DecodeName False e = Inr (utf8 (decoded True 0 cs))" and c: "decoded True 0 cs = cs"
    using DecodeName_EncodeName [OF _ l] p unfolding list_all_iff by blast
  show ?thesis using e d [unfolded c] unfolding u by (intro exI conjI)
qed

text \<open>(C33) On a name of 1 to 65536 bytes in UTF-8, \<^verbatim>\<open>EncodeName\<close> writes behind its buffer exactly if two
  things hold: the name is at most 1024 bytes long, or exactly 65536 bytes; and each of its characters becomes
  three bytes for each byte of its own (\<open>escaped\<close>: up to \<^verbatim>\<open>0x7FF\<close>, and neither a letter, a digit, \<^verbatim>\<open>_\<close> nor \<^verbatim>\<open>[\<close>;
  a character above \<^verbatim>\<open>0x7FF\<close> is escaped in fewer). In every other case it returns the mangled characters.\<close>

theorem EncodeName_overflow:
  assumes "\<forall>c\<in>set cs. c < 0x110000" and "cs \<noteq> []" and "length (utf8 cs) \<le> kMaxCodecbufSize"
  shows "(EncodeName False (utf8 cs) = Inl (Undefined ''write behind the buffer'') \<longleftrightarrow>
      (\<forall>c\<in>set cs. escaped c) \<and> (length (utf8 cs) \<le> kLocalCodebufSize \<or> length (utf8 cs) = kMaxCodecbufSize)) \<and>
    EncodeName False (utf8 cs) \<in> {Inl (Undefined ''write behind the buffer''), Inr (concat (map mangle cs))}"
  unfolding EncodeName_mangle [OF assms(1,3)] using assms(2) by auto

theorem EncodeName_overflow_witness: "EncodeName False (chars '';'') = Inl (Undefined ''write behind the buffer'')"
proof -
  have "utf8 [cp CHR '';''] = chars '';''" "escaped (cp CHR '';'')" "length (utf8 [cp CHR '';'']) \<le> kLocalCodebufSize" by code_simp+
  then show ?thesis using EncodeName_overflow [of "[cp CHR '';'']"] by (simp add: kLocalCodebufSize_def kMaxCodecbufSize_def)
qed

text \<open>A code point above \<^verbatim>\<open>0xFFFF\<close> is encoded with the mark \<^verbatim>\<open>_U\<close>, which \<^verbatim>\<open>DecodeName\<close> does not know.\<close>

theorem EncodeName_supplementary:
  "\<exists>e d. EncodeName False (chars ''x'' @ utf8 [0x1F600]) = Inr e \<and> DecodeName False e = Inr d \<and> d \<noteq> chars ''x'' @ utf8 [0x1F600]"
proof -
  have c: "chars ''x'' @ utf8 [0x1F600] = utf8 [cp CHR ''x'', 0x1F600]" "concat (map mangle [cp CHR ''x'', 0x1F600]) = chars ''x_Ud83dde00''"
    and e: "\<not> escaped (cp CHR ''x'')" and d: "case DecodeName False (chars ''x_Ud83dde00'') of Inr d \<Rightarrow> d \<noteq> utf8 [cp CHR ''x'', 0x1F600] | Inl _ \<Rightarrow> False"
    by code_simp+
  have "EncodeName False (utf8 [cp CHR ''x'', 0x1F600]) = Inr (chars ''x_Ud83dde00'')"
    using EncodeName_mangle [of "[cp CHR ''x'', 0x1F600]"] e c(2) by (simp add: kMaxCodecbufSize_def utf8_bytes_count)
  then show ?thesis using d unfolding c(1) by (auto split: sum.splits)
qed

section \<open>Names of native methods\<close>

text \<open>How a character of a class or method name appears in the name of its native function.\<close>

definition jni :: "uint32 \<Rightarrow> uint8 list" where
  "jni c =
     (if c = cp CHR ''/'' then chars ''_'' else if c = cp CHR ''_'' then chars ''_1''
      else if c = cp CHR ''$'' then chars ''_00024'' else if c = cp CHR ''-'' then chars ''_0002d''
      else if alnum c then [ucast c] else chars ''_0'' @ hex4 (ucast c))"

definition jni_char :: "uint32 \<Rightarrow> bool" where
  "jni_char c \<longleftrightarrow> alnum c \<or> c \<in> {cp CHR ''/'', cp CHR ''_'', cp CHR ''$'', cp CHR ''-''} \<or> 0x7F < c \<and> c \<le> 0xFFFF"

lemma native_plain:
  assumes "isalnum b" and "isFuncname \<or> isTypename" and "name = pre @ [b] @ post"
  shows "native_loop name name ov (length pre) new (isProto, isFuncname, isTypename) =
    native_loop name name ov (Suc (length pre)) (new @ [b]) (isProto, isFuncname, isTypename)"
proof -
  have "b \<noteq> ch CHR ''_''" using assms(1) by (auto simp: isalnum_def word_le_nat_alt)
  moreover have "char_at name (length pre) = Inr b" "\<not> length name + 5 \<le> length pre" using assms(3) by simp_all
  ultimately show ?thesis using assms(2) by (subst native_loop.simps) (auto simp: Let_def)
qed

lemma native_plains:
  assumes "\<forall>b\<in>set bs. isalnum b" and "isFuncname \<or> isTypename" and "name = pre @ bs @ post"
  shows "native_loop name name ov (length pre) new (isProto, isFuncname, isTypename) =
    native_loop name name ov (length (pre @ bs)) (new @ bs) (isProto, isFuncname, isTypename)"
  using assms
proof (induction bs arbitrary: pre new)
  case (Cons b bs)
  then show ?case
    using native_plain [of b isFuncname isTypename name pre "bs @ post" ov new isProto] Cons.IH [of "pre @ [b]" "new @ [b]"] by simp
qed simp

lemma native_digit_GETHEXCHARU: "d < 16 \<Longrightarrow> native_digit (GETHEXCHARU d) = d"
proof -
  assume "d < 16"
  moreover have "list_all (\<lambda>d. native_digit (GETHEXCHARU d) = d) [0, 1, 2, 3, 4, 5, 6, 7, 8, 9, 10, 11, 12, 13, 14, 15]"
    by code_simp
  ultimately show ?thesis using below_16 unfolding list_all_iff by blast
qed

lemma native_digits:
  assumes "b \<le> (0x7F :: uint8)"
    and "name = pre @ [ch CHR ''_'', GETHEXCHARU (drop_bit 4 b), GETHEXCHARU (b - push_bit 4 (drop_bit 4 b))] @ post"
  shows "native_loop name name ov (length pre) new flags =
    (case native_escape ov b flags of None \<Rightarrow> Inr new | Some (cs, flags) \<Rightarrow> native_loop name name ov (length pre + 3) (new @ cs) flags)"
proof -
  let ?h = "GETHEXCHARU (drop_bit 4 b)" and ?l = "GETHEXCHARU (b - push_bit 4 (drop_bit 4 b))"
  note d = byte_digits [OF assms(1)]
  have n: "char_at name (length pre) = Inr (ch CHR ''_'')" "char_at name (length pre + 1) = Inr ?h" "char_at name (length pre + 2) = Inr ?l"
      "\<not> length name + 5 \<le> length pre"
    using assms(2) by (simp_all add: nth_append char_at_def)
  have "push_bit 4 (drop_bit 4 b) + (b - push_bit 4 (drop_bit 4 b)) = b" by simp
  then show ?thesis
    by (subst native_loop.simps) (simp only: n sum.case native_digit_GETHEXCHARU [OF d(1)] native_digit_GETHEXCHARU [OF d(2)] hex_digits(2,3) [OF d(1)] Let_def
        case_prod_unfold if_False if_True simp_thms)
qed

text \<open>One character inside a class or method name.\<close>

lemma native_char:
  assumes "jni_char c" and "isFuncname \<or> isTypename" and "name = pre @ mangle c @ post"
  shows "native_loop name name ov (length pre) new (isProto, isFuncname, isTypename) =
    native_loop name name ov (length (pre @ mangle c)) (new @ jni c) (isProto, isFuncname, isTypename)"
proof -
  consider "c = cp CHR ''_''" | "alnum c" | "c \<in> {cp CHR ''/'', cp CHR ''$'', cp CHR ''-''}" | "\<not> c \<le> 0x7F" "c \<le> 0xFFFF"
    using assms(1) by (auto simp: jni_char_def not_le)
  then show ?thesis
  proof cases
    case 1
    have m: "mangle c = [ch CHR ''_'', ch CHR ''_'']" "jni c = chars ''_1''" using 1 by (simp_all add: mangle_def jni_def chars_def)
    have "char_at name (length pre) = Inr (ch CHR ''_'')" "char_at name (length pre + 1) = Inr (ch CHR ''_'')" "\<not> length name + 5 \<le> length pre"
      using assms(3) unfolding m by (simp_all add: nth_append char_at_def)
    then show ?thesis unfolding m by (subst native_loop.simps) (simp add: Let_def)
  next
    case 2
    then have m: "mangle c = [ucast c]" "jni c = [ucast c]" "isalnum (ucast c)"
      by (auto simp: mangle_def jni_def alnum_def isalnum_def)
    then show ?thesis using native_plain [OF m(3) assms(2), of name pre post ov new isProto] assms(3) by simp
  next
    case 3
    have m: "mangle c = [ch CHR ''_'', GETHEXCHARU (drop_bit 4 (ucast c)), GETHEXCHARU (ucast c - push_bit 4 (drop_bit 4 (ucast c)))]" "ucast c \<le> (0x7F :: uint8)"
      using 3 by (auto simp: mangle_def alnum_def isalnum_def)
    have "native_escape ov (ucast c) (isProto, isFuncname, isTypename) = Some (jni c, isProto, isFuncname, isTypename)"
      using 3 by (auto simp: native_escape_def jni_def)
    then show ?thesis using native_digits [OF m(2), of name pre post ov new] assms(3) unfolding m(1) by (simp add: numeral_3_eq_3)
  next
    case 4
    have m: "mangle c = ch CHR ''_'' # ch CHR ''u'' # hex4 (ucast c)" using 4 by (auto simp: mangle_def alnum_def utf16_units_def)
    have j: "jni c = chars ''_0'' @ hex4 (ucast c)" using 4(1) by (auto simp: jni_def alnum_def)
    obtain d1 d2 d3 d4 where h: "hex4 (ucast c) = [GETHEXCHAR d1, GETHEXCHAR d2, GETHEXCHAR d3, GETHEXCHAR d4]" "d1 < 16" "d2 < 16" "d3 < 16" "d4 < 16"
      by (rule hex4_digits)
    then have al: "\<forall>b\<in>set (hex4 (ucast c)). isalnum b" using hex_digits(9) by simp
    have "char_at name (length pre) = Inr (ch CHR ''_'')" "char_at name (length pre + 1) = Inr (ch CHR ''u'')" "\<not> length name + 5 \<le> length pre"
      using assms(3) unfolding m by (simp_all add: nth_append char_at_def)
    then have "native_loop name name ov (length pre) new (isProto, isFuncname, isTypename) =
        native_loop name name ov (length (pre @ [ch CHR ''_'', ch CHR ''u''])) (new @ chars ''_0'') (isProto, isFuncname, isTypename)"
      by (subst native_loop.simps) (simp add: Let_def)
    then show ?thesis using native_plains [OF al assms(2), of name "pre @ [ch CHR ''_'', ch CHR ''u'']" post ov "new @ chars ''_0''" isProto] assms(3)
      unfolding m j by simp
  qed
qed

lemma native_chars:
  assumes "\<forall>c\<in>set cs. jni_char c" and "isFuncname \<or> isTypename" and "name = pre @ concat (map mangle cs) @ post"
  shows "native_loop name name ov (length pre) new (isProto, isFuncname, isTypename) =
    native_loop name name ov (length (pre @ concat (map mangle cs))) (new @ concat (map jni cs)) (isProto, isFuncname, isTypename)"
  using assms
proof (induction cs arbitrary: pre new)
  case (Cons c cs)
  then show ?case
    using native_char [of c isFuncname isTypename name pre "concat (map mangle cs) @ post" ov new isProto] Cons.IH [of "pre @ mangle c" "new @ jni c"] by simp
qed simp

text \<open>(C20) \<^verbatim>\<open>NativeJavaName\<close> turns the mangled name of a method, whose class and method names have the characters that
  a Java identifier can have, into the short name that the native interface prescribes, whatever signature follows.\<close>

theorem NativeJavaName_short:
  assumes "\<forall>c\<in>set cls. jni_char c" and "\<forall>c\<in>set meth. jni_char c"
  shows "NativeJavaName False (concat (map mangle (cp CHR ''L'' # cls @ [cp CHR '';'', cp CHR ''|''] @ meth @ [cp CHR ''|''])) @ signature) False =
    Inr (chars ''Java_'' @ concat (map jni cls) @ chars ''_'' @ concat (map jni meth))"
proof -
  define name where "name = concat (map mangle (cp CHR ''L'' # cls @ [cp CHR '';'', cp CHR ''|''] @ meth @ [cp CHR ''|''])) @ signature"
  have m: "mangle (cp CHR ''L'') = [ch CHR ''L'']" by (simp add: mangle_def alnum_def isalnum_def)
  have e: "mangle (of_char x) = [ch CHR ''_'', GETHEXCHARU (drop_bit 4 (ch x)), GETHEXCHARU (ch x - push_bit 4 (drop_bit 4 (ch x)))]" if "x \<in> {CHR '';'', CHR ''|''}" for x
    using that by (auto simp: mangle_def alnum_def isalnum_def)
  let ?c = "ch CHR ''L'' # concat (map mangle cls)"
  let ?s = "?c @ mangle (cp CHR '';'')" let ?b = "?s @ mangle (cp CHR ''|'')" let ?m = "?b @ concat (map mangle meth)"
  have n: "name = ch CHR ''L'' # concat (map mangle cls) @ (mangle (cp CHR '';'') @ mangle (cp CHR ''|'') @ concat (map mangle meth) @ mangle (cp CHR ''|'') @ signature)"
    unfolding name_def using m by simp
  have "array_marks name (length name + 5) 0 (chars ''Java_'') = Inr (0, chars ''Java_'')"
    unfolding n by (subst array_marks.simps) (simp add: char_at_def)
  then have "NativeJavaName False name False = native_loop name name False 0 (chars ''Java_'') (False, False, False)"
    by (simp add: NativeJavaName_def)
  also have "\<dots> = native_loop name name False (length [ch CHR ''L'']) (chars ''Java_'') (False, False, True)"
    unfolding n by (subst native_loop.simps) (simp add: char_at_def Let_def)
  also have "\<dots> = native_loop name name False (length ?c) (chars ''Java_'' @ concat (map jni cls)) (False, False, True)"
    using native_chars [OF assms(1), of False True name "[ch CHR ''L'']"] n by simp
  also have "\<dots> = native_loop name name False (length ?s) (chars ''Java_'' @ concat (map jni cls)) (False, False, False)"
    using native_digits [of "ch CHR '';''" name ?c] n e [of "CHR '';''"] by (simp add: native_escape_def numeral_3_eq_3)
  also have "\<dots> = native_loop name name False (length ?b) ((chars ''Java_'' @ concat (map jni cls)) @ chars ''_'') (False, True, False)"
    using native_digits [of "ch CHR ''|''" name ?s] n e [of "CHR ''|''"] by (simp add: native_escape_def numeral_3_eq_3)
  also have "\<dots> = native_loop name name False (length ?m) (((chars ''Java_'' @ concat (map jni cls)) @ chars ''_'') @ concat (map jni meth)) (False, True, False)"
    using native_chars [OF assms(2), of True False name ?b] n by simp
  also have "\<dots> = Inr (((chars ''Java_'' @ concat (map jni cls)) @ chars ''_'') @ concat (map jni meth))"
    using native_digits [of "ch CHR ''|''" name ?m] n e [of "CHR ''|''"] by (simp add: native_escape_def)
  finally show ?thesis unfolding name_def by simp
qed

theorem NativeJavaName_short_witness:
  "NativeJavaName False (chars ''La_2Fb_24C_3B_7Cm__1_7C_28I_29V'') False = Inr (chars ''Java_a_b_00024C_m_11'')"
proof -
  have "concat (map mangle (cp CHR ''L'' # map (\<lambda>c. cp c) ''a/b$C'' @ [cp CHR '';'', cp CHR ''|''] @ map (\<lambda>c. cp c) ''m_1'' @ [cp CHR ''|''])) @ chars ''_28I_29V'' =
      chars ''La_2Fb_24C_3B_7Cm__1_7C_28I_29V''"
    "chars ''Java_'' @ concat (map jni (map (\<lambda>c. cp c) ''a/b$C'')) @ chars ''_'' @ concat (map jni (map (\<lambda>c. cp c) ''m_1'')) = chars ''Java_a_b_00024C_m_11''"
    "list_all jni_char (map (\<lambda>c. cp c) ''a/b$C'')" "list_all jni_char (map (\<lambda>c. cp c) ''m_1'')" by code_simp+
  then show ?thesis
    using NativeJavaName_short [of "map (\<lambda>c. cp c) ''a/b$C''" "map (\<lambda>c. cp c) ''m_1''" "chars ''_28I_29V''"] unfolding list_all_iff by metis
qed

end
