(* ===== verification/Spec2Isabelle.thy ===== *)
theory Spec2Isabelle
  imports SwitchLower BinStmt LiveResult DomClaims CfgClaims LoopClaims NameLeb NameClaims
begin

text \<open>
  OpenArkCompiler, the Maple compiler: parts of its intermediate representation
  (\<^verbatim>\<open>maple_ir\<close>), of its module-level passes (\<^verbatim>\<open>mpl2mpl\<close>), of its function-level
  optimiser (\<^verbatim>\<open>maple_me\<close>), of its back end (\<^verbatim>\<open>maple_be\<close>) and of the mangling of names
  (\<^verbatim>\<open>maple_util\<close>). Paths are below \<^verbatim>\<open>src/mapleall\<close>; the build modelled has
  \<^verbatim>\<open>DYNAMICLANG\<close> and \<^verbatim>\<open>TARGAARCH64\<close> defined, \<^verbatim>\<open>ASSERT\<close> compiled out and
  \<^verbatim>\<open>CHECK_FATAL\<close> active.

  The theories, in the order in which they import each other:

  \<^item> \<^verbatim>\<open>Prelude\<close>: results of code that may stop (\<open>'a result\<close>, with the reasons
    \<open>CheckFatal\<close> for \<^verbatim>\<open>CHECK_FATAL\<close> and \<open>Undefined\<close> for undefined behaviour), the names of the
    integer types and shared facts.
  \<^item> \<^verbatim>\<open>PrimTypes\<close>: \<^verbatim>\<open>PrimType\<close>, the property table and the type functions of
    \<^verbatim>\<open>maple_ir/src/mir_type.cpp\<close> and \<^verbatim>\<open>maple_ir/include/mir_type.h\<close>.
  \<^item> \<^verbatim>\<open>MirConst\<close>: \<^verbatim>\<open>MIRIntConst\<close> (\<^verbatim>\<open>mir_const.cpp\<close>) and the table that interns
    integer constants (\<^verbatim>\<open>global_tables.cpp\<close>), sequential and with several threads, the
    latter as a step relation whose steps are the critical sections of each request. A type
    is its index in the type table, the key of the table; the primitive type of each is a
    parameter.
  \<^item> \<^verbatim>\<open>IntFold\<close>: the integer part of \<^verbatim>\<open>mpl2mpl/src/constantfold.cpp\<close>.
  \<^item> \<^verbatim>\<open>MirLower\<close>: \<^verbatim>\<open>MIRLower\<close> (\<^verbatim>\<open>mir_lower.cpp\<close>), from structured statements to
    labels and jumps, with a big-step meaning of structured code and a small-step meaning of
    lowered code, between which the lowering is a refinement. What the other statements and the
    finally blocks do is a parameter (\<open>extern\<close>); a \<^verbatim>\<open>gosub\<close> is a call of a finally block,
    and the refinement excludes then parts that end in one, which are lowered wrongly.
  \<^item> \<^verbatim>\<open>SwitchLower\<close>: \<^verbatim>\<open>SwitchLowerer\<close> (\<^verbatim>\<open>maple_be/src/be/switch_lowerer.cpp\<close>).
    \<open>BuildCodeForSwitchItems\<close> takes a fuel of one more than the number of items, and
    the proof shows that it is never used up: each call handles fewer items.
  \<^item> \<^verbatim>\<open>BinBuf\<close>, \<^verbatim>\<open>BinRef\<close>, \<^verbatim>\<open>BinExpr\<close>, \<^verbatim>\<open>StmtOps\<close>, \<^verbatim>\<open>BinStmt\<close>: the binary format
    (\<^verbatim>\<open>bin_mpl_export.cpp\<close>, \<^verbatim>\<open>bin_mpl_import.cpp\<close>, \<^verbatim>\<open>bin_func_export.cpp\<close>,
    \<^verbatim>\<open>bin_func_import.cpp\<close>): numbers and strings, references to types, symbols and
    functions, constants and expressions, statements and blocks. Writers and readers
    return \<open>None\<close> where the code stops; the shape \<open>codes\<close> of the prelude of these theories
    says that a reader consumes what a writer appended, in buffers below \<open>2 ^ 31\<close> bytes (the
    code indexes with \<^verbatim>\<open>int32\<close>), and each round trip is composed from it. The images
    (\<open>img_expr\<close>, \<open>img_block\<close>) change references and positions only; \<open>ok_expr\<close> and \<open>ok_block\<close> say
    which expressions and blocks the format carries without a loss.
  \<^item> \<^verbatim>\<open>DataInfo\<close>: the bit vectors of \<^verbatim>\<open>maple_be/include/cg/datainfo.h\<close>, an
    interpretation of the interface \<open>data_info\<close> on which the liveness proofs rest.
  \<^item> \<^verbatim>\<open>LiveAnalysis\<close>, \<^verbatim>\<open>LiveDefUse\<close>, \<^verbatim>\<open>LiveFixpoint\<close>, \<^verbatim>\<open>LiveResult\<close>: the liveness
    analysis (\<^verbatim>\<open>maple_be/src/cg/live.cpp\<close>, \<^verbatim>\<open>src/cg/aarch64/aarch64_live.cpp\<close>): model,
    definitions and uses of a block, the iteration with its invariant, the results.
  \<^item> \<^verbatim>\<open>DomTree\<close>, \<^verbatim>\<open>DomLoop\<close>: dominators of a graph, and the iteration of Cooper, Harvey
    and Kennedy over a postorder numbering as the locales \<open>chk\<close> (dominators and numbering),
    \<open>chk_loop\<close> (the table of immediate dominators and its passes) and \<open>chk_ids\<close> (numbers
    stored in a vector). They are interpreted in \<open>DomResult\<close> on the graphs of the optimiser.
  \<^item> \<^verbatim>\<open>MeCfg\<close>: \<^verbatim>\<open>BB\<close> and \<^verbatim>\<open>MeCFG\<close> (\<^verbatim>\<open>maple_me/include/bb.h\<close>, \<^verbatim>\<open>src/bb.cpp\<close>,
    \<^verbatim>\<open>src/me_cfg.cpp\<close>). A block is an index into \<open>blocks\<close>, \<open>valid\<close> says that its slot in
    \<^verbatim>\<open>bbVec\<close> is not null. \<open>WontExitAnalysis\<close> reads its vector beyond the end for the blocks that it
    creates; the parameter \<open>beyond\<close> stands for what these reads give, and every result holds
    for all its values.
  \<^item> \<^verbatim>\<open>MeDominance\<close>: \<^verbatim>\<open>Dominance\<close> (\<^verbatim>\<open>maple_me/src/dominance.cpp\<close>) and its phase
    (\<^verbatim>\<open>me_dominance.cpp\<close>). Its loops and recursions are partial functions into \<open>option\<close>;
    \<open>DomOrder\<close> (the postorder), \<open>DomResult\<close> (the trees), \<open>DomFrontier\<close> (frontiers and
    iterated frontiers), \<open>DomPreorder\<close> (tree preorder) and \<open>DomPhase\<close> prove that they end and
    what they return; \<open>DomClaims\<close> states it of the phase.
  \<^item> \<^verbatim>\<open>CfgClean\<close>, \<^verbatim>\<open>CfgExit\<close>, \<^verbatim>\<open>CfgClaims\<close>: the deletion of unreachable blocks, the
    artificial exits of endless loops, and what they give the dominator phase, for graphs in
    which \<^verbatim>\<open>FixTryBB\<close> is not called (\<open>no_try_moved\<close>); \<open>moved_try_kept\<close> shows what else may
    happen.

  \<^item> \<^verbatim>\<open>MeLoops\<close>: the loops of the optimiser (\<^verbatim>\<open>maple_me/src/me_loop_analysis.cpp\<close>), on the
    result of the dominator phase. A pointer to a loop is its index in \<^verbatim>\<open>meLoops\<close>.
    \<open>LoopGraph\<close> (natural loops of a graph), \<open>LoopBody\<close> (one loop), \<open>LoopResult\<close> (all loops and
    their nesting) and \<open>LoopExits\<close> (exits, preheaders, latches) lead to the properties in
    \<open>LoopClaims\<close>.
  \<^item> \<^verbatim>\<open>WordBits\<close>, \<^verbatim>\<open>NameUtf\<close>, \<^verbatim>\<open>NameLeb\<close>, \<^verbatim>\<open>NameMangler\<close>, \<^verbatim>\<open>NameClaims\<close>: the mangling of names
    (\<^verbatim>\<open>maple_util/src/namemangler.cpp\<close>) with its UTF conversions and LEB128 numbers. A
    \<^verbatim>\<open>std::string\<close> is a list of bytes shorter than \<open>2 ^ 32\<close>; a read behind its end, and a
    write behind a buffer of the allocated size, is \<open>Undefined\<close>. The global flag
    \<^verbatim>\<open>doCompression\<close> is an argument.

  Not modelled: the parsers and the dump functions (text input and output), the memory
  pools (allocation has no effect on values), floating-point constants (no theory of IEEE
  arithmetic is available to the development), the phase managers and drivers, and the
  passes listed as such in the manifest.
\<close>

end
